(* ===== verification/C_Prelude.thy ===== *)
theory C_Prelude
  imports Main "HOL-Library.Word" "HOL-Library.Monad_Syntax"
begin

text \<open>
  What every component of the development shares: machine arithmetic of the LP64 platform the
  library is built for (\<^verbatim>\<open>unsigned int\<close> counters with their wrap-around, \<^verbatim>\<open>int\<close> values read as
  two's complement, signed \<^verbatim>\<open>char\<close>), and the functions of \<^verbatim>\<open>string.h\<close>, \<^verbatim>\<open>stdlib.h\<close> and
  \<^verbatim>\<open>stdio.h\<close> the sources call.

  A C string is a \<open>char list\<close>: the bytes from the pointer on, where the end of the list stands
  for the terminating NUL. \<open>cstr\<close> is what the C functions see of it: the bytes before the first
  NUL.

  Results are in the \<open>option\<close> monad throughout: \<open>None\<close> is a run that does not return, because
  it loops for ever or has undefined behaviour (a read outside an object, a second \<^verbatim>\<open>free\<close>).
  A theorem that an operation is \<open>Some\<close> therefore states termination and memory safety.
\<close>

named_theorems csimp \<open>equations of the C library functions\<close>

section \<open>Machine integers\<close>

type_synonym addr = nat

definition u32_inc :: "nat \<Rightarrow> nat" where
  "u32_inc n = (n + 1) mod 2 ^ 32"

definition u32_dec :: "nat \<Rightarrow> nat" where
  "u32_dec n = (n + (2 ^ 32 - 1)) mod 2 ^ 32"

definition int32 :: "int \<Rightarrow> int" where
  "int32 x = (x + 2 ^ 31) mod 2 ^ 32 - 2 ^ 31"

definition int64 :: "int \<Rightarrow> int" where
  "int64 x = (x + 2 ^ 63) mod 2 ^ 64 - 2 ^ 63"

definition schar :: "char \<Rightarrow> int" where
  "schar c = (let n = int (of_char c) in if n < 128 then n else n - 256)"

abbreviation NUL :: char where
  "NUL \<equiv> CHR 0x00"

section \<open>C strings\<close>

definition cstr :: "char list \<Rightarrow> string" where
  "cstr s = takeWhile (\<lambda>c. c \<noteq> NUL) s"

definition strlen :: "char list \<Rightarrow> nat" where
  "strlen s = length (cstr s)"

text \<open>\<^verbatim>\<open>strncmp\<close>: the difference of the first bytes that differ, at most \<open>n\<close> of them compared.\<close>

fun strncmp :: "nat \<Rightarrow> char list \<Rightarrow> char list \<Rightarrow> int" where
  "strncmp 0 s t = 0"
| "strncmp (Suc n) s t =
     (let a = (case s of [] \<Rightarrow> NUL | c # _ \<Rightarrow> c);
          b = (case t of [] \<Rightarrow> NUL | c # _ \<Rightarrow> c)
      in if a \<noteq> b then int (of_char a) - int (of_char b)
         else if a = NUL then 0
         else strncmp n (tl s) (tl t))"

section \<open>Numbers in strings\<close>

definition is_space :: "char \<Rightarrow> bool" where
  "is_space c = (c = CHR '' '' \<or> (9 \<le> (of_char c :: nat) \<and> (of_char c :: nat) \<le> 13))"

definition is_digit :: "char \<Rightarrow> bool" where
  "is_digit c = (48 \<le> (of_char c :: nat) \<and> (of_char c :: nat) \<le> 57)"

fun digits_value :: "int \<Rightarrow> char list \<Rightarrow> int" where
  "digits_value acc [] = acc"
| "digits_value acc (c # cs) =
     (if is_digit c then digits_value (10 * acc + (int (of_char c) - 48)) cs else acc)"

text \<open>
  The conversion loop of \<^verbatim>\<open>strtol\<close> in base 10: white space, an optional sign, digits up to the
  first other byte; the value is clamped to the range of \<^verbatim>\<open>long\<close>. \<^verbatim>\<open>atol\<close> and \<^verbatim>\<open>atoll\<close> are
  this value (\<^verbatim>\<open>long\<close> and \<^verbatim>\<open>long long\<close> have 64 bits), \<^verbatim>\<open>atoi\<close> its low 32 bits.
\<close>

definition strtol10 :: "char list \<Rightarrow> int" where
  "strtol10 s =
     (let t = dropWhile is_space (cstr s);
          v = (case t of [] \<Rightarrow> 0
               | c # cs \<Rightarrow> if c = CHR ''-'' then - digits_value 0 cs
                          else if c = CHR ''+'' then digits_value 0 cs
                          else digits_value 0 t)
      in max (- (2 ^ 63)) (min (2 ^ 63 - 1) v))"

definition atol :: "char list \<Rightarrow> int" where
  "atol s = strtol10 s"

definition atoi :: "char list \<Rightarrow> int" where
  "atoi s = int32 (strtol10 s)"

fun dec_nat :: "nat \<Rightarrow> string" where
  "dec_nat n = (if n < 10 then [char_of (48 + n)] else dec_nat (n div 10) @ [char_of (48 + n mod 10)])"

declare dec_nat.simps [simp del]

text \<open>\<open>dec_int\<close> is what \<^verbatim>\<open>printf\<close> writes for \<^verbatim>\<open>%d\<close>, \<^verbatim>\<open>%ld\<close> and \<^verbatim>\<open>%lld\<close>, \<open>dec_nat\<close> for \<^verbatim>\<open>%u\<close>.\<close>

definition dec_int :: "int \<Rightarrow> string" where
  "dec_int i = (if i < 0 then CHR ''-'' # dec_nat (nat (- i)) else dec_nat (nat i))"

section \<open>Loops in the option monad\<close>

fun foldM :: "('a \<Rightarrow> 's \<Rightarrow> 's option) \<Rightarrow> 'a list \<Rightarrow> 's \<Rightarrow> 's option" where
  "foldM f [] s = Some s"
| "foldM f (x # xs) s = (case f x s of None \<Rightarrow> None | Some s' \<Rightarrow> foldM f xs s')"

section \<open>Lemmas: machine integers\<close>

lemma u32_inc_small [simp]: "n + 1 < 2 ^ 32 \<Longrightarrow> u32_inc n = n + 1"
  by (simp add: u32_inc_def)

lemma u32_dec_small [simp]: "0 < n \<Longrightarrow> n \<le> 2 ^ 32 \<Longrightarrow> u32_dec n = n - 1"
proof -
  assume n: "0 < n" "n \<le> 2 ^ 32"
  then have "n + (2 ^ 32 - 1) = (n - 1) + 2 ^ 32" by simp
  then have "u32_dec n = (n - 1) mod 2 ^ 32"
    unfolding u32_dec_def by (metis mod_add_self2)
  with n show ?thesis by simp
qed

lemma int32_id [simp]: "- (2 ^ 31) \<le> x \<Longrightarrow> x < 2 ^ 31 \<Longrightarrow> int32 x = x"
  by (simp add: int32_def)

lemma int64_id [simp]: "- (2 ^ 63) \<le> x \<Longrightarrow> x < 2 ^ 63 \<Longrightarrow> int64 x = x"
  by (simp add: int64_def)

lemma int32_range: "- (2 ^ 31) \<le> int32 x \<and> int32 x < 2 ^ 31"
proof -
  have "0 \<le> (x + 2 ^ 31) mod 2 ^ 32" "(x + 2 ^ 31) mod 2 ^ 32 < (2 ^ 32 :: int)"
    by (simp_all only: pos_mod_sign pos_mod_bound zero_less_power zero_less_numeral)
  then show ?thesis by (simp add: int32_def)
qed

section \<open>Lemmas: C strings\<close>

lemma cstr_Nil [simp, csimp]: "cstr [] = []"
  by (simp add: cstr_def)

lemma cstr_Cons [simp, csimp]: "cstr (c # s) = (if c = NUL then [] else c # cstr s)"
  by (simp add: cstr_def)

lemma cstr_no_NUL: "NUL \<notin> set (cstr s)"
  by (induction s) auto

lemma cstr_idem [simp]: "NUL \<notin> set s \<Longrightarrow> cstr s = s"
  by (induction s) auto

lemma cstr_cstr [simp]: "cstr (cstr s) = cstr s"
  by (simp add: cstr_no_NUL)

lemma cstr_append_NUL [simp]: "cstr (s @ NUL # t) = cstr s"
  by (induction s) auto

lemma cstr_take: "cstr (take n s) = take n (cstr s)"
proof (induction s arbitrary: n)
  case (Cons c s)
  then show ?case by (cases n) auto
qed simp

lemma strlen_le_length: "strlen s \<le> length s"
  by (simp add: strlen_def cstr_def length_takeWhile_le)

lemma of_char_eq_0 [simp]: "of_char c = (0 :: nat) \<longleftrightarrow> c = NUL"
proof -
  have "of_char NUL = (0 :: nat)" by simp
  then show ?thesis by (metis of_char_eq_iff)
qed

lemma strncmp_eq_0: "strncmp n s t = 0 \<longleftrightarrow> take n (cstr s) = take n (cstr t)"
proof (induction n arbitrary: s t)
  case (Suc n)
  show ?case
    by (cases s; cases t) (auto simp: Suc.IH Let_def)
qed simp

section \<open>Lemmas: numbers in strings\<close>

lemma of_char_digit [simp]: "d < 10 \<Longrightarrow> of_char (char_of (48 + d) :: char) = (48 + d :: nat)"
  by simp

lemma is_digit_char_of [simp]: "d < 10 \<Longrightarrow> is_digit (char_of (48 + d :: nat))"
  by (simp add: is_digit_def)

lemma digits_value_append:
  "\<forall>c \<in> set xs. is_digit c \<Longrightarrow> digits_value a (xs @ ys) = digits_value (digits_value a xs) ys"
  by (induction xs arbitrary: a) auto

lemma dec_nat_digits: "c \<in> set (dec_nat n) \<Longrightarrow> is_digit c"
proof (induction n rule: dec_nat.induct)
  case (1 n)
  show ?case
  proof (cases "n < 10")
    case True
    with "1.prems" show ?thesis by (simp add: dec_nat.simps [of n])
  next
    case False
    with 1 show ?thesis by (auto simp: dec_nat.simps [of n])
  qed
qed

lemma dec_nat_not_Nil [simp]: "dec_nat n \<noteq> []"
  by (subst dec_nat.simps) simp

lemma digits_value_dec_nat: "digits_value 0 (dec_nat n) = int n"
proof (induction n rule: dec_nat.induct)
  case (1 n)
  show ?case
  proof (cases "n < 10")
    case True
    then show ?thesis by (simp add: dec_nat.simps [of n])
  next
    case False
    then have "digits_value 0 (dec_nat n) = 10 * digits_value 0 (dec_nat (n div 10)) + int (n mod 10)"
      by (simp add: dec_nat.simps [of n] digits_value_append dec_nat_digits)
    also have "\<dots> = 10 * int (n div 10) + int (n mod 10)"
      using 1 False by simp
    also have "\<dots> = int n"
      by presburger
    finally show ?thesis .
  qed
qed

lemma is_digit_not [simp]:
  "is_digit c \<Longrightarrow> c \<noteq> NUL" "is_digit c \<Longrightarrow> \<not> is_space c"
  "is_digit c \<Longrightarrow> c \<noteq> CHR ''-''" "is_digit c \<Longrightarrow> c \<noteq> CHR ''+''"
  by (auto simp: is_digit_def is_space_def)

lemma cstr_dec_nat [simp]: "cstr (dec_nat n) = dec_nat n"
  by (rule cstr_idem) (metis dec_nat_digits is_digit_not(1))

lemma cstr_dec_int [simp]: "cstr (dec_int i) = dec_int i"
  by (simp add: dec_int_def)

lemma strtol10_dec_nat: "strtol10 (dec_nat n) = min (2 ^ 63 - 1) (int n)"
proof -
  obtain c cs where ccs: "dec_nat n = c # cs" by (cases "dec_nat n") auto
  then have d: "is_digit c" using dec_nat_digits [of c n] by simp
  then have "dropWhile is_space (dec_nat n) = dec_nat n" by (simp add: ccs)
  then show ?thesis
    using d digits_value_dec_nat [of n] unfolding strtol10_def cstr_dec_nat Let_def
    by (simp add: ccs)
qed

lemma strtol10_dec_int: "- (2 ^ 63) \<le> i \<Longrightarrow> i < 2 ^ 63 \<Longrightarrow> strtol10 (dec_int i) = i"
proof (cases "i < 0")
  case True
  assume i: "- (2 ^ 63) \<le> i"
  have s: "is_space CHR ''-'' = False" by (simp add: is_space_def)
  have c: "cstr (dec_int i) = CHR ''-'' # dec_nat (nat (- i))"
    using True by (simp add: dec_int_def)
  show ?thesis
    unfolding strtol10_def c Let_def using True i
    by (simp add: s digits_value_dec_nat)
qed (simp add: dec_int_def strtol10_dec_nat)

lemma atol_dec_int: "- (2 ^ 63) \<le> i \<Longrightarrow> i < 2 ^ 63 \<Longrightarrow> atol (dec_int i) = i"
  by (simp add: atol_def strtol10_dec_int)

lemma atoi_dec_int: "- (2 ^ 31) \<le> i \<Longrightarrow> i < 2 ^ 31 \<Longrightarrow> atoi (dec_int i) = i"
  by (simp add: atoi_def strtol10_dec_int)

section \<open>Lemmas: loops\<close>

lemma foldM_append: "foldM f (xs @ ys) s = (case foldM f xs s of None \<Rightarrow> None | Some s' \<Rightarrow> foldM f ys s')"
  by (induction xs arbitrary: s) (auto split: option.splits)

lemma foldM_cong [fundef_cong]:
  "xs = ys \<Longrightarrow> s = t \<Longrightarrow> (\<And>x s. x \<in> set ys \<Longrightarrow> f x s = g x s) \<Longrightarrow> foldM f xs s = foldM g ys t"
proof (induction xs arbitrary: ys s t)
  case (Cons x xs)
  then show ?case by (cases ys) (auto split: option.splits)
qed auto

lemma foldM_total:
  assumes "\<And>x s. x \<in> set xs \<Longrightarrow> P s \<Longrightarrow> \<exists>s'. f x s = Some s' \<and> P s'" and "P s"
  shows "\<exists>s'. foldM f xs s = Some s' \<and> P s'"
  using assms
proof (induction xs arbitrary: s)
  case (Cons x xs)
  then obtain s' where s': "f x s = Some s'" "P s'" by (meson list.set_intros(1))
  with Cons.IH [of s'] Cons.prems(1) show ?case by simp
qed simp

lemma foldM_upt_inv:
  assumes "P 0 s" and "\<And>i s. i < n \<Longrightarrow> P i s \<Longrightarrow> \<exists>s'. f i s = Some s' \<and> P (Suc i) s'"
  shows "\<exists>s'. foldM f [0..<n] s = Some s' \<and> P n s'"
  using assms(2)
proof (induction n)
  case (Suc n)
  then obtain s' where s': "foldM f [0..<n] s = Some s'" "P n s'" by auto
  with Suc.prems [of n s'] show ?case by (auto simp: foldM_append split: option.splits)
qed (simp add: assms(1))

end
