(* ===== verification/Im_Types.thy ===== *)
theory Im_Types
  imports C_Prelude "HOL-Library.AList"
begin

text \<open>
  The data of the dictionary library (\<^verbatim>\<open>im_types.h\<close>, \<^verbatim>\<open>im_hashtable.h\<close>, \<^verbatim>\<open>im_vector.h\<close>) and the
  memory it lives in.

  A bucket's \<^verbatim>\<open>info\<close> tag and \<^verbatim>\<open>value\<close> union are one datatype, \<open>im_value\<close>, with a constructor per
  tag and the union member that tag selects as its argument. Integers keep their width as words;
  the three floating-point kinds are the bit patterns of their representation.

  Tables and vectors are heap objects. The attached area behind the buckets of a table
  (\<^verbatim>\<open>(void *)(buckets + number_of_buckets)\<close>) is the list of the pieces copied into it, each under
  its offset: a run of bytes, or the image of a whole table or vector. A pointer is the address
  of an allocation and the offsets that lead from it into attached areas, so the interior pointers
  the code computes for attached tables are pointers of the model, and freeing one is undefined.

  \<open>oom h n\<close> says whether the \<open>n\<close>-th allocation fails; it is part of the heap and never changes,
  so every \<^verbatim>\<open>NULL\<close> branch behind \<^verbatim>\<open>calloc\<close> is reachable and nothing assumes that memory suffices.
\<close>

datatype ptr = Ptr addr "nat list"

datatype im_value =
    IM_EMPTY
  | IM_DELETED
  | IM_SHORT "16 word"
  | IM_INT "32 word"
  | IM_LONG "64 word"
  | IM_LONGLONG "64 word"
  | IM_USHORT "16 word"
  | IM_UINT "32 word"
  | IM_ULONG "64 word"
  | IM_ULONGLONG "64 word"
  | IM_FLOAT "32 word"
  | IM_DOUBLE "64 word"
  | IM_LONGDOUBLE "80 word"
  | IM_STRING "char list"
  | IM_BLOCK "char list"
  | IM_EXTERNAL_STRING nat ptr
  | IM_EXTERNAL_BLOCK nat ptr
  | IM_EXTERNAL_NESTED nat ptr
  | IM_EXTERNAL_VECTOR nat ptr
  | IM_ATTACHED_STRING nat nat
  | IM_ATTACHED_BLOCK nat nat
  | IM_ATTACHED_NESTED nat nat
  | IM_ATTACHED_VECTOR nat nat

record im_hash_bucket =
  bucket_key :: "char list"
  value_length :: nat
  bucket_value :: im_value

record im_hashtable =
  number_of_buckets :: nat
  inuse :: nat
  empty :: nat
  attached_size :: nat
  attached_offset :: nat
  buckets :: "im_hash_bucket list"

record im_vector_bucket =
  v_value_length :: nat
  v_bucket_value :: im_value

record im_vector =
  v_number_of_buckets :: nat
  v_inuse :: nat
  v_attached_size :: nat
  v_attached_offset :: nat
  v_buckets :: "im_vector_bucket list"

datatype obj =
    Raw "char list"
  | HashObj im_hashtable "(nat \<times> obj) list"
  | VecObj im_vector "(nat \<times> obj) list"

type_synonym tail = "(nat \<times> obj) list"

record heap =
  cells :: "addr \<Rightarrow> obj option"
  brk :: addr
  oom :: "addr \<Rightarrow> bool"

text \<open>Sizes of the structures on LP64 with 16-byte \<^verbatim>\<open>long double\<close>.\<close>

definition sizeof_value :: nat where
  "sizeof_value = 16"

definition hash_size :: "nat \<Rightarrow> nat" where
  "hash_size N = 32 + 128 * N"

definition vector_size :: "nat \<Rightarrow> nat" where
  "vector_size N = 32 + 32 * N"

definition KEY_MAX_LENGTH :: nat where
  "KEY_MAX_LENGTH = 102"

definition vacant :: "im_value \<Rightarrow> bool" where
  "vacant v = (v = IM_EMPTY \<or> v = IM_DELETED)"

section \<open>Memory\<close>

text \<open>Allocation: the next address, or \<^verbatim>\<open>NULL\<close> (\<open>None\<close>).\<close>

definition alloc :: "obj \<Rightarrow> heap \<Rightarrow> ptr option \<times> heap" where
  "alloc x h =
     (if oom h (brk h) then (None, h\<lparr>brk := Suc (brk h)\<rparr>)
      else (Some (Ptr (brk h) []), h\<lparr>cells := (cells h)(brk h \<mapsto> x), brk := Suc (brk h)\<rparr>))"

fun free :: "ptr \<Rightarrow> heap \<Rightarrow> heap option" where
  "free (Ptr a []) h = (if cells h a = None then None else Some (h\<lparr>cells := (cells h)(a := None)\<rparr>))"
| "free (Ptr a (_ # _)) h = None"

fun sub_obj :: "obj \<Rightarrow> nat list \<Rightarrow> obj option" where
  "sub_obj x [] = Some x"
| "sub_obj (Raw b) (off # offs) = None"
| "sub_obj (HashObj t att) (off # offs) = Option.bind (map_of att off) (\<lambda>x. sub_obj x offs)"
| "sub_obj (VecObj v att) (off # offs) = Option.bind (map_of att off) (\<lambda>x. sub_obj x offs)"

fun put_sub :: "obj \<Rightarrow> nat list \<Rightarrow> obj \<Rightarrow> obj option" where
  "put_sub x [] y = Some y"
| "put_sub (Raw b) (off # offs) y = None"
| "put_sub (HashObj t att) (off # offs) y =
     do { x \<leftarrow> map_of att off; x' \<leftarrow> put_sub x offs y; Some (HashObj t (AList.update off x' att)) }"
| "put_sub (VecObj v att) (off # offs) y =
     do { x \<leftarrow> map_of att off; x' \<leftarrow> put_sub x offs y; Some (VecObj v (AList.update off x' att)) }"

fun load :: "heap \<Rightarrow> ptr \<Rightarrow> obj option" where
  "load h (Ptr a offs) = Option.bind (cells h a) (\<lambda>x. sub_obj x offs)"

fun store :: "ptr \<Rightarrow> obj \<Rightarrow> heap \<Rightarrow> heap option" where
  "store (Ptr a offs) y h =
     do { x \<leftarrow> cells h a; x' \<leftarrow> put_sub x offs y; Some (h\<lparr>cells := (cells h)(a \<mapsto> x')\<rparr>) }"

fun inside :: "ptr \<Rightarrow> nat \<Rightarrow> ptr" where
  "inside (Ptr a offs) off = Ptr a (offs @ [off])"

fun root :: "ptr \<Rightarrow> addr" where
  "root (Ptr a offs) = a"

definition load_hash :: "heap \<Rightarrow> ptr \<Rightarrow> (im_hashtable \<times> tail) option" where
  "load_hash h p = (case load h p of Some (HashObj t att) \<Rightarrow> Some (t, att) | _ \<Rightarrow> None)"

definition load_vector :: "heap \<Rightarrow> ptr \<Rightarrow> (im_vector \<times> tail) option" where
  "load_vector h p = (case load h p of Some (VecObj v att) \<Rightarrow> Some (v, att) | _ \<Rightarrow> None)"

definition load_bytes :: "heap \<Rightarrow> ptr \<Rightarrow> char list option" where
  "load_bytes h p = (case load h p of Some (Raw b) \<Rightarrow> Some b | _ \<Rightarrow> None)"

text \<open>\<^verbatim>\<open>realloc\<close>: a new block with the old contents and the old block freed, or \<^verbatim>\<open>NULL\<close> and no change.\<close>

definition realloc :: "ptr \<Rightarrow> heap \<Rightarrow> (ptr option \<times> heap) option" where
  "realloc p h =
     do { x \<leftarrow> load h p;
          (case alloc x h of
             (None, h) \<Rightarrow> Some (None, h)
           | (Some q, h) \<Rightarrow> do { h \<leftarrow> free p h; Some (Some q, h) }) }"

section \<open>Lemmas: memory\<close>

lemma sub_put_sub: "put_sub x offs y = Some x' \<Longrightarrow> sub_obj x' offs = Some y"
  by (induction x offs y arbitrary: x' rule: put_sub.induct)
    (auto simp: bind_eq_Some_conv update_conv')

lemma load_store: "store p x h = Some h' \<Longrightarrow> load h' p = Some x"
  by (cases p) (auto simp: bind_eq_Some_conv sub_put_sub)

lemma load_store_other: "store p x h = Some h' \<Longrightarrow> root q \<noteq> root p \<Longrightarrow> load h' q = load h q"
  by (cases p; cases q) (auto simp: bind_eq_Some_conv)

lemma put_sub_total: "sub_obj x offs = Some y \<Longrightarrow> \<exists>x'. put_sub x offs z = Some x'"
  by (induction x offs rule: sub_obj.induct) (auto simp: bind_eq_Some_conv)

lemma store_total: "load h p = Some x \<Longrightarrow> \<exists>h'. store p y h = Some h'"
  by (cases p) (force simp: bind_eq_Some_conv dest: put_sub_total)

lemma store_frame: "store p x h = Some h' \<Longrightarrow>
    brk h' = brk h \<and> oom h' = oom h \<and> dom (cells h') = dom (cells h)"
  by (cases p) (auto simp: bind_eq_Some_conv split: if_splits)

lemma load_dom: "load h p = Some x \<Longrightarrow> root p \<in> dom (cells h)"
  by (cases p) (auto simp: bind_eq_Some_conv)

lemma load_cong: "cells h' (root p) = cells h (root p) \<Longrightarrow> load h' p = load h p"
  by (cases p) simp

lemma load_hash_iff: "load_hash h p = Some (t, att) \<longleftrightarrow> load h p = Some (HashObj t att)"
  by (auto simp: load_hash_def split: option.splits obj.splits)

lemma load_vector_iff: "load_vector h p = Some (t, att) \<longleftrightarrow> load h p = Some (VecObj t att)"
  by (auto simp: load_vector_def split: option.splits obj.splits)

lemma load_bytes_iff: "load_bytes h p = Some b \<longleftrightarrow> load h p = Some (Raw b)"
  by (auto simp: load_bytes_def split: option.splits obj.splits)

lemma root_inside [simp]: "root (inside p off) = root p"
  by (cases p) simp

lemma alloc_Some:
  "alloc x h = (Some q, h') \<Longrightarrow> q = Ptr (brk h) [] \<and> cells h' = (cells h)(brk h \<mapsto> x) \<and>
     brk h' = Suc (brk h) \<and> oom h' = oom h"
  by (auto simp: alloc_def split: if_splits)

lemma vacant_simps [simp]:
  "vacant IM_EMPTY" "vacant IM_DELETED" "\<not> vacant (IM_SHORT a)" "\<not> vacant (IM_INT b)"
  "\<not> vacant (IM_LONG c)" "\<not> vacant (IM_LONGLONG c)" "\<not> vacant (IM_USHORT a)" "\<not> vacant (IM_UINT b)"
  "\<not> vacant (IM_ULONG c)" "\<not> vacant (IM_ULONGLONG c)" "\<not> vacant (IM_FLOAT b)"
  "\<not> vacant (IM_DOUBLE c)" "\<not> vacant (IM_LONGDOUBLE d)" "\<not> vacant (IM_STRING s)" "\<not> vacant (IM_BLOCK s)"
  "\<not> vacant (IM_EXTERNAL_STRING n p)" "\<not> vacant (IM_EXTERNAL_BLOCK n p)"
  "\<not> vacant (IM_EXTERNAL_NESTED n p)" "\<not> vacant (IM_EXTERNAL_VECTOR n p)"
  "\<not> vacant (IM_ATTACHED_STRING n m)" "\<not> vacant (IM_ATTACHED_BLOCK n m)"
  "\<not> vacant (IM_ATTACHED_NESTED n m)" "\<not> vacant (IM_ATTACHED_VECTOR n m)"
  by (simp_all add: vacant_def)

end
