(* ===== verification/Prime_Table.thy ===== *)
theory Prime_Table
  imports C_Prelude
begin

text \<open>
  The table sizes of the two open-addressing hash tables (\<^verbatim>\<open>im_hashtable.c\<close> and
  \<^verbatim>\<open>comext-hashtable.c\<close>): the table \<^verbatim>\<open>prime_number[]\<close> of \<^verbatim>\<open>prime_number.h\<close>, which lists the
  78498 primes below one million in order, and the binary search \<^verbatim>\<open>bsearch_number_of_buckets\<close>
  that picks the number of buckets for a capacity. The table is the list of the primes below one
  million, as a closed term; the facts about its entries are proved, not evaluated.

  Results: the search returns for every capacity (its loop has no branch for an entry equal to
  the wanted size, so it would run for ever on one), and it returns the least odd prime above
  twice the capacity, or 999983 when there is none in the table.
\<close>

definition is_prime :: "nat \<Rightarrow> bool" where
  "is_prime n \<longleftrightarrow> 2 \<le> n \<and> (\<forall>d \<in> {2..<n}. \<not> d dvd n)"

definition prime_number :: "nat list" where
  "prime_number = filter is_prime [0..<1000000]"

partial_function (option) bsearch_loop :: "int \<Rightarrow> nat \<Rightarrow> nat \<Rightarrow> nat option" where
  "bsearch_loop number_of_buckets start end =
     (if end - start > 1 then
        (let i = (start + end) div 2 in
         if int (prime_number ! i) < number_of_buckets then bsearch_loop number_of_buckets i end
         else if int (prime_number ! i) > number_of_buckets then bsearch_loop number_of_buckets start i
         else bsearch_loop number_of_buckets start end)
      else Some end)"

text \<open>\<^verbatim>\<open>capacity << 1\<close> is computed in an \<^verbatim>\<open>int\<close>; the shift loses the top bit.\<close>

definition bsearch_number_of_buckets :: "int \<Rightarrow> nat option" where
  "bsearch_number_of_buckets capacity =
     map_option (\<lambda>e. prime_number ! e)
       (bsearch_loop (int32 (2 * capacity)) 0 (length prime_number - 1))"

section \<open>Primes\<close>

lemma is_prime_ge2: "is_prime p \<Longrightarrow> 2 \<le> p"
  by (simp add: is_prime_def)

lemma is_prime_dvd: "is_prime p \<Longrightarrow> d dvd p \<Longrightarrow> d = 1 \<or> d = p"
proof -
  assume p: "is_prime p" and d: "d dvd p"
  from p have "0 < p" by (simp add: is_prime_def)
  with d have "d \<le> p" "d \<noteq> 0" by (auto dest: dvd_imp_le)
  with p d show ?thesis by (auto simp: is_prime_def)
qed

lemma is_prime_dvd_mult: "is_prime p \<Longrightarrow> p dvd a * b \<Longrightarrow> p dvd a \<or> p dvd b" for a b :: nat
proof (rule disjCI)
  assume p: "is_prime p" and ab: "p dvd a * b" and nb: "\<not> p dvd b"
  have "gcd p b = 1"
    using is_prime_dvd [OF p, of "gcd p b"] nb by (metis gcd_dvd1 gcd_dvd2)
  then have "coprime p b" by (simp add: coprime_iff_gcd_eq_1)
  with ab show "p dvd a" by (simp add: coprime_dvd_mult_left_iff)
qed

lemma is_prime_odd: "is_prime p \<Longrightarrow> 2 < p \<Longrightarrow> odd p"
  using is_prime_dvd [of p 2] by auto

text \<open>Trial division up to a square root decides primality.\<close>

lemma is_prime_sqrtI:
  assumes "2 \<le> n" and "n < k * k" and small: "\<And>d. 2 \<le> d \<Longrightarrow> d < k \<Longrightarrow> \<not> d dvd n"
  shows "is_prime n"
  unfolding is_prime_def
proof (intro conjI ballI notI)
  fix d assume d: "d \<in> {2..<n}" and dn: "d dvd n"
  from dn obtain e where e: "n = d * e" by (auto elim: dvdE)
  have "e dvd n" by (simp add: e)
  have "e \<noteq> 0" "e \<noteq> 1" using d e \<open>2 \<le> n\<close> by auto
  then have "2 \<le> e" by simp
  have "k \<le> d" using small [of d] d dn by (force simp: not_less)
  moreover have "k \<le> e" using small [of e] \<open>2 \<le> e\<close> \<open>e dvd n\<close> by (force simp: not_less)
  ultimately have "k * k \<le> d * e" by (rule mult_le_mono)
  with \<open>n < k * k\<close> e show False by simp
qed fact

lemma not_prime_factor: "2 \<le> d \<Longrightarrow> d < n \<Longrightarrow> d dvd n \<Longrightarrow> \<not> is_prime n"
  by (auto simp: is_prime_def)

lemma trial_999983: "list_all (\<lambda>q. 999983 mod (6 * q + 1) \<noteq> 0 \<and> 999983 mod (6 * q + 5) \<noteq> 0) [2..<167::nat]"
  by (simp add: upt_rec_numeral)

lemma no_small_factor_999983:
  fixes d :: nat
  assumes "2 \<le> d" "d < 1000"
  shows "\<not> d dvd 999983"
proof
  assume dd: "d dvd 999983"
  have n2: "\<not> 2 dvd (999983::nat)" "\<not> 3 dvd (999983::nat)" by simp_all
  have d23: "\<not> 2 dvd d" "\<not> 3 dvd d" using dd n2 dvd_trans by blast+
  define q where "q = d div 6"
  have "d mod 6 = 1 \<or> d mod 6 = 5" using d23 by presburger
  moreover have "d = 6 * q + d mod 6" by (simp add: q_def)
  ultimately have d: "d = 6 * q + 1 \<or> d = 6 * q + 5" by auto
  with assms have "q < 167" by linarith
  then consider "q = 0" | "q = 1" | "q \<in> set [2..<167]"
    unfolding set_upt atLeastLessThan_iff by linarith
  then show False
  proof cases
    case 3
    with trial_999983 have "999983 mod (6 * q + 1) \<noteq> 0 \<and> 999983 mod (6 * q + 5) \<noteq> 0"
      unfolding list_all_iff by blast
    with d dd show ?thesis by auto
  next
    case 1
    with d assms dd show ?thesis by auto
  next
    case 2
    with d dd show ?thesis by auto
  qed
qed
lemma is_prime_999983: "is_prime 999983"
  by (rule is_prime_sqrtI [where k = 1000]) (simp_all add: no_small_factor_999983)

lemma no_prime_above: "is_prime q \<Longrightarrow> q < 1000000 \<Longrightarrow> q \<le> 999983"
proof (rule ccontr)
  assume q: "is_prime q" "q < 1000000" "\<not> q \<le> 999983"
  then have "odd q" using is_prime_odd [of q] by simp
  with q consider "q = 999985" | "q = 999987" | "q = 999989" | "q = 999991" | "q = 999993"
    | "q = 999995" | "q = 999997" | "q = 999999" by atomize_elim presburger
  then show False
  proof cases
    case 1 then show ?thesis using q(1) not_prime_factor [of 5 q] by simp
  next
    case 2 then show ?thesis using q(1) not_prime_factor [of 3 q] by simp
  next
    case 3 then show ?thesis using q(1) not_prime_factor [of 19 q] by simp
  next
    case 4 then show ?thesis using q(1) not_prime_factor [of 17 q] by simp
  next
    case 5 then show ?thesis using q(1) not_prime_factor [of 3 q] by simp
  next
    case 6 then show ?thesis using q(1) not_prime_factor [of 5 q] by simp
  next
    case 7 then show ?thesis using q(1) not_prime_factor [of 757 q] by simp
  next
    case 8 then show ?thesis using q(1) not_prime_factor [of 3 q] by simp
  qed
qed

section \<open>The table\<close>

lemma primes_start:
  assumes "4 \<le> n"
  shows "filter is_prime [0..<n] = 2 # 3 # filter is_prime [4..<n]"
proof -
  have "[0..<n] = [0..<4] @ [4..<n]"
    using assms upt_add_eq_append [of 0 4 "n - 4"] by simp
  moreover have "[0..<4] = [0, 1, 2, 3::nat]" by (simp add: upt_rec)
  moreover have "is_prime 2" "is_prime 3" "\<not> is_prime 0" "\<not> is_prime 1"
    using is_prime_sqrtI [of 2 2] is_prime_sqrtI [of 3 2] by (auto simp: is_prime_def)
  ultimately show ?thesis by simp
qed

lemma primes_last:
  assumes "is_prime p" "p < n" and "\<And>q. is_prime q \<Longrightarrow> q < n \<Longrightarrow> q \<le> p"
  shows "last (filter is_prime [0..<n]) = p"
proof -
  have "[0..<n] = [0..<p] @ p # [Suc p..<n]"
    using assms(2) upt_add_eq_append [of 0 p "n - p"] upt_conv_Cons [of p n] by simp
  moreover have "filter is_prime [Suc p..<n] = []"
    using assms(3) by (force simp: filter_empty_conv)
  ultimately show ?thesis using assms(1) by simp
qed

lemma set_prime_number: "set prime_number = {q. is_prime q \<and> q < 1000000}"
  unfolding prime_number_def set_filter set_upt atLeastLessThan_iff by auto

lemma sorted_prime_number: "sorted_wrt (<) prime_number"
  unfolding prime_number_def by (rule sorted_wrt_filter) (rule sorted_wrt_upt)

lemma prime_number_start: "\<exists>ps. prime_number = 2 # 3 # ps"
  unfolding prime_number_def using primes_start [of 1000000] by (metis numeral_le_iff semiring_norm(68) semiring_norm(69,71))

lemma last_prime_number: "last prime_number = 999983"
  unfolding prime_number_def
  using is_prime_999983 no_prime_above by (intro primes_last) simp_all

lemma length_prime_number: "2 \<le> length prime_number"
  by (metis prime_number_start length_Cons le_add1 numeral_2_eq_2 plus_1_eq_Suc Suc_le_mono le0)

lemma prime_number_0: "prime_number ! 0 = 2"
  by (metis prime_number_start nth_Cons_0)

lemma prime_number_1: "prime_number ! 1 = 3"
  by (metis prime_number_start nth_Cons_0 nth_Cons_Suc One_nat_def)

lemma prime_number_mono: "i < j \<Longrightarrow> j < length prime_number \<Longrightarrow> prime_number ! i < prime_number ! j"
  using sorted_prime_number by (rule sorted_wrt_nth_less)

lemma prime_number_odd: "1 \<le> i \<Longrightarrow> i < length prime_number \<Longrightarrow> odd (prime_number ! i)"
proof -
  assume i: "1 \<le> i" "i < length prime_number"
  have "prime_number ! 0 < prime_number ! i" using i by (intro prime_number_mono) simp_all
  moreover have "is_prime (prime_number ! i)" using i nth_mem set_prime_number by blast
  ultimately show ?thesis by (intro is_prime_odd) (simp_all add: prime_number_0)
qed

section \<open>The search\<close>

text \<open>
  The loop never meets an entry equal to the (even) wanted size, because it never looks at entry
  0, so the distance \<open>end - start\<close> shrinks in every round.
\<close>

lemma bsearch_loop_spec:
  assumes "even nb" "start < end" "end < length prime_number"
  shows "\<exists>e. bsearch_loop nb start end = Some e \<and> start < e \<and> e \<le> end \<and>
           (e = end \<or> nb < int (prime_number ! e)) \<and>
           (e = Suc start \<or> int (prime_number ! (e - 1)) < nb)"
  using assms
proof (induction "end - start" arbitrary: start "end" rule: less_induct)
  case less
  show ?case
  proof (cases "end - start > 1")
    case False
    with less.prems show ?thesis by (subst bsearch_loop.simps) auto
  next
    case True
    define i where "i = (start + end) div 2"
    have i: "start < i" "i < end" using True by (auto simp: i_def)
    then have "odd (prime_number ! i)" using less.prems by (intro prime_number_odd) auto
    then have "int (prime_number ! i) \<noteq> nb" using less.prems(1) by auto
    then consider (lt) "int (prime_number ! i) < nb" | (gt) "nb < int (prime_number ! i)" by linarith
    then show ?thesis
    proof cases
      case lt
      with True have "bsearch_loop nb start end = bsearch_loop nb i end"
        by (subst bsearch_loop.simps) (simp add: i_def Let_def)
      with less.hyps [of "end" i] i less.prems lt show ?thesis by fastforce
    next
      case gt
      with True have "bsearch_loop nb start end = bsearch_loop nb start i"
        by (subst bsearch_loop.simps) (simp add: i_def Let_def)
      with less.hyps [of i start] i less.prems gt show ?thesis by fastforce
    qed
  qed
qed

lemma prime_number_index:
  assumes "is_prime q" "q < 1000000"
  obtains j where "j < length prime_number" "prime_number ! j = q"
  using assms set_prime_number by (metis (mono_tags, lifting) in_set_conv_nth mem_Collect_eq)

lemma prime_number_mono_le:
  "i \<le> j \<Longrightarrow> j < length prime_number \<Longrightarrow> prime_number ! i \<le> prime_number ! j"
  using prime_number_mono by (metis le_neq_implies_less less_imp_le order_refl)

lemma bsearch_entry:
  assumes "0 \<le> c" "c < 2 ^ 30"
  obtains e where "bsearch_number_of_buckets c = Some (prime_number ! e)"
    "1 \<le> e" "e < length prime_number"
    "e = length prime_number - 1 \<or> 2 * c < int (prime_number ! e)"
    "e = 1 \<or> int (prime_number ! (e - 1)) < 2 * c"
proof -
  let ?l = "length prime_number - 1"
  from length_prime_number have l: "0 < ?l" "?l < length prime_number" by linarith+
  from bsearch_loop_spec [of "2 * c", OF _ l] obtain e where
    e: "bsearch_loop (2 * c) 0 ?l = Some e" "0 < e" "e \<le> ?l"
      "e = ?l \<or> 2 * c < int (prime_number ! e)"
      "e = Suc 0 \<or> int (prime_number ! (e - 1)) < 2 * c" by auto
  have "int32 (2 * c) = 2 * c" using assms by simp
  with e(1) have "bsearch_number_of_buckets c = Some (prime_number ! e)"
    by (simp add: bsearch_number_of_buckets_def)
  with e l show ?thesis by (intro that) auto
qed

lemma bsearch_least:
  assumes "0 \<le> c" "c < 2 ^ 30"
  shows "\<exists>p. bsearch_number_of_buckets c = Some p \<and> is_prime p \<and> 3 \<le> p \<and> p \<le> 999983 \<and>
           (2 * c < int p \<or> p = 999983) \<and>
           (\<forall>q. is_prime q \<and> 3 \<le> q \<and> 2 * c < int q \<and> q < 1000000 \<longrightarrow> p \<le> q)"
proof -
  from bsearch_entry [OF assms] obtain e where e:
    "bsearch_number_of_buckets c = Some (prime_number ! e)" "1 \<le> e" "e < length prime_number"
    "e = length prime_number - 1 \<or> 2 * c < int (prime_number ! e)"
    "e = 1 \<or> int (prime_number ! (e - 1)) < 2 * c" by blast
  let ?p = "prime_number ! e"
  have p: "is_prime ?p" "?p < 1000000" using e(3) nth_mem set_prime_number by blast+
  have "prime_number ! 1 \<le> ?p" using e by (intro prime_number_mono_le)
  then have "3 \<le> ?p" unfolding prime_number_1 .
  moreover have "?p = 999983" if "e = length prime_number - 1"
    using that last_prime_number length_prime_number by (metis last_conv_nth list.size(3) not_numeral_le_zero)
  moreover have "?p \<le> q" if q: "is_prime q" "3 \<le> q" "2 * c < int q" "q < 1000000" for q
  proof (rule ccontr)
    assume "\<not> ?p \<le> q"
    obtain j where j: "j < length prime_number" "prime_number ! j = q"
      using prime_number_index q by blast
    with \<open>\<not> ?p \<le> q\<close> e have "j < e" by (metis not_le prime_number_mono_le)
    moreover have "j \<noteq> 0" using j(2) q(2) prime_number_0 by (metis eval_nat_numeral(3) not_less_eq_eq order_refl)
    ultimately have "q \<le> prime_number ! (e - 1)" "e \<noteq> 1"
      using j e prime_number_mono_le [of j "e - 1"] by auto
    with e(5) q show False by linarith
  qed
  ultimately show ?thesis using e p no_prime_above by blast
qed

text \<open>The form in which concrete sizes are computed: a prime with no prime between it and \<open>2 * c\<close>.\<close>

lemma bsearch_eqI:
  assumes "is_prime p" "3 \<le> p" "p \<le> 999983" "0 \<le> c" "2 * c < int p"
    and "\<And>q. is_prime q \<Longrightarrow> 3 \<le> q \<Longrightarrow> 2 * c < int q \<Longrightarrow> q < p \<Longrightarrow> False"
  shows "bsearch_number_of_buckets c = Some p"
proof -
  have "c < 2 ^ 30" using assms by simp
  from bsearch_least [OF assms(4) this] obtain r where r:
    "bsearch_number_of_buckets c = Some r" "is_prime r" "3 \<le> r" "2 * c < int r \<or> r = 999983"
    "\<forall>q. is_prime q \<and> 3 \<le> q \<and> 2 * c < int q \<and> q < 1000000 \<longrightarrow> r \<le> q" by blast
  have "r \<le> p" using r(5) assms by auto
  moreover have "2 * c < int r" using r(4) assms(3,5) \<open>r \<le> p\<close> by auto
  ultimately have "r = p" using assms(6) [of r] r by fastforce
  with r show ?thesis by simp
qed

lemma bsearch_0: "bsearch_number_of_buckets 0 = Some 3"
  by (rule bsearch_eqI) (auto simp: is_prime_sqrtI [of 3 2])

lemma bsearch_1: "bsearch_number_of_buckets 1 = Some 3"
  by (rule bsearch_eqI) (auto simp: is_prime_sqrtI [of 3 2])

lemma is_prime_5: "is_prime 5"
  by (simp add: is_prime_def atLeastLessThan_upt upt_rec)

lemma bsearch_2: "bsearch_number_of_buckets 2 = Some 5"
  by (rule bsearch_eqI) (auto simp: is_prime_5)

end
