(* ===== verification/Probing.thy ===== *)
theory Probing
  imports Prime_Table
begin

text \<open>
  The collision resolution both hash tables of the repository use. \<^verbatim>\<open>im_find_element\<close> and
  \<^verbatim>\<open>comext_find_element\<close> are the same loop: from the hash code on, advance by 1, 3, 5, \<dots>
  (so that the \<open>k\<close>-th probe is \<open>k\<^sup>2\<close> slots further), bring the position back into the table by at
  most two subtractions, and stop at an empty bucket or one that holds the key.

  The loop is \<open>probe_loop\<close>, over a \<open>stop\<close> predicate. The locale \<open>probe_hash\<close> is the interface a
  table offers to it: a hash function that stays inside the table. Its lemmas are what makes the
  tables correct: in a table of prime size that is more than half empty the search always ends
  (\<open>find_total\<close>), and putting a key where the search for it ended keeps every stored key findable
  (\<open>well_placed_put\<close>).
\<close>

definition probe_step :: "nat \<Rightarrow> nat \<Rightarrow> nat \<Rightarrow> nat" where
  "probe_step N position collision =
     (let position = position + (2 * collision - 1);
          position = (if N \<le> position then position - N else position)
      in if N \<le> position then position - N else position)"

partial_function (option) probe_loop :: "nat \<Rightarrow> (nat \<Rightarrow> bool) \<Rightarrow> nat \<Rightarrow> nat \<Rightarrow> nat option" where
  "probe_loop N stop position collision =
     (if N \<le> position then None
      else if stop position then Some position
      else probe_loop N stop (probe_step N position (Suc collision)) (Suc collision))"

definition probe_find ::
    "(nat \<Rightarrow> 'k \<Rightarrow> nat) \<Rightarrow> nat \<Rightarrow> (nat \<Rightarrow> bool) \<Rightarrow> (nat \<Rightarrow> 'k) \<Rightarrow> 'k \<Rightarrow> nat option" where
  "probe_find hash N emp key k = probe_loop N (\<lambda>p. emp p \<or> key p = k) (hash N k) 0"

text \<open>Every occupied slot is where a search for its key ends.\<close>

definition well_placed ::
    "(nat \<Rightarrow> 'k \<Rightarrow> nat) \<Rightarrow> nat \<Rightarrow> (nat \<Rightarrow> bool) \<Rightarrow> (nat \<Rightarrow> 'k) \<Rightarrow> bool" where
  "well_placed hash N emp key \<longleftrightarrow> (\<forall>p<N. \<not> emp p \<longrightarrow> probe_find hash N emp key (key p) = Some p)"

section \<open>The probe sequence\<close>

definition probe_at :: "nat \<Rightarrow> nat \<Rightarrow> nat \<Rightarrow> nat" where
  "probe_at N h k = (h + k * k) mod N"

lemma probe_step_mod: "pos < N \<Longrightarrow> c \<le> N \<Longrightarrow> probe_step N pos c = (pos + (2 * c - 1)) mod N"
proof -
  assume a: "pos < N" "c \<le> N"
  define x where "x = pos + (2 * c - 1)"
  have "x < 3 * N" using a by (simp add: x_def)
  then have "(if N \<le> x then (if N \<le> x - N then x - N - N else x - N) else x) = x mod N"
    using a by (auto simp: le_mod_geq not_le)
  then show ?thesis unfolding probe_step_def Let_def x_def [symmetric] by auto
qed

lemma probe_step_at:
  assumes "k < N"
  shows "probe_step N (probe_at N h k) (Suc k) = probe_at N h (Suc k)"
proof -
  have "probe_step N (probe_at N h k) (Suc k) = ((h + k * k) mod N + (2 * k + 1)) mod N"
    using assms by (subst probe_step_mod) (simp_all add: probe_at_def)
  also have "\<dots> = (h + k * k + (2 * k + 1)) mod N" by (simp only: mod_add_left_eq)
  also have "h + k * k + (2 * k + 1) = h + Suc k * Suc k" by simp
  finally show ?thesis unfolding probe_at_def .
qed

text \<open>The first half of the probe sequence meets no slot twice, because the size is prime.\<close>

lemma probe_at_inj:
  assumes N: "is_prime N" "odd N" and ij: "i < j" "j \<le> N div 2"
  shows "probe_at N h i \<noteq> probe_at N h j"
proof
  assume "probe_at N h i = probe_at N h j"
  moreover have le: "h + i * i \<le> h + j * j" using ij by (simp add: mult_le_mono)
  ultimately have "N dvd (h + j * j) - (h + i * i)"
    unfolding probe_at_def by (metis mod_eq_dvd_iff_nat)
  also have "(h + j * j) - (h + i * i) = (j - i) * (j + i)"
    using ij by (simp add: diff_mult_distrib algebra_simps)
  finally have "N dvd j - i \<or> N dvd j + i" using N(1) by (simp add: is_prime_dvd_mult)
  moreover have "j - i < N" "0 < j - i" "0 < j + i" "j + i < N" using ij N(2) by presburger+
  ultimately show False by (auto dest: dvd_imp_le)
qed

lemma inj_on_probe_at: "is_prime N \<Longrightarrow> odd N \<Longrightarrow> inj_on (probe_at N h) {0..N div 2}"
  by (rule linorder_inj_onI') (use probe_at_inj in auto)

lemma probe_meets_empty:
  assumes N: "is_prime N" "3 \<le> N" and empties: "N div 2 < card {p. p < N \<and> emp p}"
  shows "\<exists>m \<le> N div 2. emp (probe_at N h m)"
proof (rule ccontr)
  assume none: "\<not> (\<exists>m \<le> N div 2. emp (probe_at N h m))"
  have odd: "odd N" using N by (simp add: is_prime_odd)
  have "probe_at N h ` {0..N div 2} \<subseteq> {p. p < N \<and> \<not> emp p}"
    using none N by (auto simp: probe_at_def)
  then have "card (probe_at N h ` {0..N div 2}) \<le> card {p. p < N \<and> \<not> emp p}"
    by (intro card_mono) auto
  moreover have "card (probe_at N h ` {0..N div 2}) = Suc (N div 2)"
    using inj_on_probe_at [OF N(1) odd] by (simp add: card_image)
  moreover have "card {p. p < N \<and> \<not> emp p} + card {p. p < N \<and> emp p} = N"
    using card_Un_disjoint [of "{p. p < N \<and> \<not> emp p}" "{p. p < N \<and> emp p}"]
      card_Collect_less_nat [of N] by (simp add: Un_def conj_disj_distribL [symmetric] disjoint_iff)
  ultimately show False using empties odd by presburger
qed

lemma first_stop:
  assumes "is_prime N" "3 \<le> N" "N div 2 < card {p. p < N \<and> emp p}"
  shows "\<exists>m \<le> N div 2. (emp (probe_at N h m) \<or> hit (probe_at N h m)) \<and>
           (\<forall>i<m. \<not> (emp (probe_at N h i) \<or> hit (probe_at N h i)))"
proof -
  define P where "P m = (emp (probe_at N h m) \<or> hit (probe_at N h m))" for m
  obtain m where m: "m \<le> N div 2" "P m"
    using probe_meets_empty [OF assms] by (auto simp: P_def)
  have "(LEAST m. P m) \<le> N div 2" using Least_le [of P m] m by simp
  moreover have "P (LEAST m. P m)" using m(2) by (rule LeastI)
  moreover have "\<forall>i < (LEAST m. P m). \<not> P i" by (auto dest: not_less_Least)
  ultimately show ?thesis unfolding P_def by blast
qed

section \<open>The loop\<close>

lemma probe_loop_reaches:
  assumes "m < N" "k \<le> m" "stop (probe_at N h m)" "\<And>i. k \<le> i \<Longrightarrow> i < m \<Longrightarrow> \<not> stop (probe_at N h i)"
  shows "probe_loop N stop (probe_at N h k) k = Some (probe_at N h m)"
  using assms(2-)
proof (induction "m - k" arbitrary: k)
  case 0
  then have "k = m" by simp
  moreover have "probe_at N h m < N" using assms(1) by (simp add: probe_at_def)
  ultimately show ?case using 0 by (simp add: probe_loop.simps [of _ _ "probe_at N h m"])
next
  case (Suc d)
  then have k: "k < m" by simp
  have "probe_at N h k < N" using assms(1) by (simp add: probe_at_def)
  moreover have "\<not> stop (probe_at N h k)" using Suc.prems k by simp
  ultimately have "probe_loop N stop (probe_at N h k) k = probe_loop N stop (probe_at N h (Suc k)) (Suc k)"
    using k assms(1) by (simp add: probe_loop.simps [of _ _ "probe_at N h k"] probe_step_at)
  also have "\<dots> = Some (probe_at N h m)"
    using Suc.hyps(1) [of "Suc k"] Suc.hyps(2) Suc.prems k by simp
  finally show ?case .
qed

lemma probe_loop_result: "probe_loop N stop pos c = Some r \<Longrightarrow> r < N \<and> stop r"
proof (rule probe_loop.raw_induct [where P = "\<lambda>N stop pos c r. r < N \<and> stop r"])
  fix f N stop pos c r
  assume IH: "\<And>N stop pos c r. f N stop pos c = Some r \<Longrightarrow> r < N \<and> stop r"
    and "(if N \<le> pos then None else if stop pos then Some pos
          else f N stop (probe_step N pos (Suc c)) (Suc c)) = Some r"
  then show "r < N \<and> stop r" by (cases "N \<le> pos"; cases "stop pos") auto
qed assumption

text \<open>A loop that stops later only where the other one stopped ends at the same slot.\<close>

lemma probe_loop_transfer:
  assumes "probe_loop N stop pos c = Some r"
    and "\<And>p. p < N \<Longrightarrow> \<not> stop p \<Longrightarrow> \<not> stop' p" and "stop' r"
  shows "probe_loop N stop' pos c = Some r"
proof -
  have "(\<forall>p<N. \<not> stop p \<longrightarrow> \<not> stop' p) \<longrightarrow> stop' r \<longrightarrow> probe_loop N stop' pos c = Some r"
  proof (rule probe_loop.raw_induct [OF _ assms(1), where P = "\<lambda>N stop pos c r.
      (\<forall>p<N. \<not> stop p \<longrightarrow> \<not> stop' p) \<longrightarrow> stop' r \<longrightarrow> probe_loop N stop' pos c = Some r"])
    fix f N stop pos c r
    assume IH: "\<And>N stop pos c r. f N stop pos c = Some r \<Longrightarrow>
        (\<forall>p<N. \<not> stop p \<longrightarrow> \<not> stop' p) \<longrightarrow> stop' r \<longrightarrow> probe_loop N stop' pos c = Some r"
      and "(if N \<le> pos then None else if stop pos then Some pos
          else f N stop (probe_step N pos (Suc c)) (Suc c)) = Some r"
    then show "(\<forall>p<N. \<not> stop p \<longrightarrow> \<not> stop' p) \<longrightarrow> stop' r \<longrightarrow> probe_loop N stop' pos c = Some r"
      by (subst probe_loop.simps) (auto split: if_splits)
  qed
  with assms(2,3) show ?thesis by blast
qed

lemma probe_loop_cong:
  assumes "\<And>p. p < N \<Longrightarrow> stop p = stop' p"
  shows "probe_loop N stop pos c = probe_loop N stop' pos c"
proof -
  have "probe_loop N s' pos c = Some q" if "probe_loop N s pos c = Some q" "\<And>p. p < N \<Longrightarrow> s p = s' p" for s s' q
    using that probe_loop_result [OF that(1)] by (intro probe_loop_transfer [OF that(1)]) auto
  from this [of stop _ stop'] this [of stop' _ stop] assms show ?thesis by (metis not_None_eq)
qed

section \<open>The interface of a table to its probe loop\<close>

locale probe_hash =
  fixes hash :: "nat \<Rightarrow> 'k \<Rightarrow> nat"
  assumes hash_less: "0 < N \<Longrightarrow> hash N k < N"
begin

lemma find_total:
  assumes "is_prime N" "3 \<le> N" "N div 2 < card {p. p < N \<and> emp p}"
  shows "\<exists>p. probe_find hash N emp key k = Some p \<and> p < N \<and> (emp p \<or> key p = k)"
proof -
  let ?stop = "\<lambda>p. emp p \<or> key p = k" and ?h = "hash N k"
  have h: "probe_at N ?h 0 = ?h" using hash_less [of N k] assms(2) by (simp add: probe_at_def)
  obtain m where m: "m \<le> N div 2" "?stop (probe_at N ?h m)" "\<And>i. i < m \<Longrightarrow> \<not> ?stop (probe_at N ?h i)"
    using first_stop [OF assms, where hit = "\<lambda>p. key p = k" and h = ?h] by blast
  then have "probe_loop N ?stop (probe_at N ?h 0) 0 = Some (probe_at N ?h m)"
    using assms(2) by (intro probe_loop_reaches) auto
  then have "probe_find hash N emp key k = Some (probe_at N ?h m)" by (simp add: probe_find_def h)
  then show ?thesis using m assms(2) by (auto simp: probe_at_def)
qed

lemma find_result: "probe_find hash N emp key k = Some p \<Longrightarrow> p < N \<and> (emp p \<or> key p = k)"
  unfolding probe_find_def by (drule probe_loop_result) simp

lemma find_occupied:
  "well_placed hash N emp key \<Longrightarrow> p < N \<Longrightarrow> \<not> emp p \<Longrightarrow> key p = k \<Longrightarrow> probe_find hash N emp key k = Some p"
  by (auto simp: well_placed_def)

lemma keys_unique:
  assumes "well_placed hash N emp key" "p < N" "q < N" "\<not> emp p" "\<not> emp q" "key p = key q"
  shows "p = q"
  using find_occupied [OF assms(1,2,4) assms(6)] find_occupied [OF assms(1,3,5) refl]
  by (metis option.inject)

lemma find_absent:
  assumes "well_placed hash N emp key" "probe_find hash N emp key k = Some p" "emp p" "q < N" "\<not> emp q"
  shows "key q \<noteq> k"
  using find_occupied [OF assms(1,4,5) refl] assms(2,3,5) by auto

lemma well_placed_empty: "(\<And>p. p < N \<Longrightarrow> emp p) \<Longrightarrow> well_placed hash N emp key"
  by (simp add: well_placed_def)

lemma well_placed_cong:
  assumes "well_placed hash N emp key" "\<And>p. p < N \<Longrightarrow> emp' p = emp p"
    "\<And>p. p < N \<Longrightarrow> \<not> emp p \<Longrightarrow> key' p = key p"
  shows "well_placed hash N emp' key'"
  unfolding well_placed_def
proof (intro allI impI)
  fix p assume p: "p < N" "\<not> emp' p"
  then have "probe_find hash N emp key (key p) = Some p" using assms by (simp add: well_placed_def)
  then have "probe_loop N (\<lambda>q. emp' q \<or> key' q = key p) (hash N (key p)) 0 = Some p"
    unfolding probe_find_def
  proof (rule probe_loop_transfer)
    show "\<not> (emp' q \<or> key' q = key p)" if "q < N" "\<not> (emp q \<or> key q = key p)" for q
      using that assms(2,3) by simp
    show "emp' p \<or> key' p = key p" using p assms(2,3) by simp
  qed
  then show "probe_find hash N emp' key' (key' p) = Some p"
    using p assms(2,3) by (simp add: probe_find_def)
qed

lemma well_placed_put:
  assumes wp: "well_placed hash N emp key" and f: "probe_find hash N emp key k = Some p"
    and emp': "\<And>q. q < N \<Longrightarrow> emp' q = (q \<noteq> p \<and> emp q)"
    and key': "\<And>q. q < N \<Longrightarrow> \<not> emp' q \<Longrightarrow> key' q = (if q = p then k else key q)"
  shows "well_placed hash N emp' key'"
proof (cases "emp p")
  case False
  then have "key p = k" using find_result [OF f] by simp
  with False show ?thesis
    by (intro well_placed_cong [OF wp]) (auto simp: emp' key')
next
  case True
  show ?thesis
    unfolding well_placed_def
  proof (intro allI impI)
    fix q assume q: "q < N" "\<not> emp' q"
    let ?k = "key' q"
    have old: "probe_find hash N emp key ?k = Some q"
      using q f wp by (cases "q = p") (auto simp: emp' key' well_placed_def)
    have keep: "\<not> (emp' x \<or> key' x = ?k)" if "x < N" "\<not> (emp x \<or> key x = ?k)" for x
    proof -
      have "x \<noteq> p" using that True by auto
      with that show ?thesis by (simp add: emp' key')
    qed
    show "probe_find hash N emp' key' ?k = Some q"
      unfolding probe_find_def by (rule probe_loop_transfer [OF old [unfolded probe_find_def] keep]) simp_all
  qed
qed

end

end
