(* ===== verification/Slot_Table.thy ===== *)
theory Slot_Table
  imports Probing
begin

text \<open>
  What the two hash tables of the repository have in common beyond the probe loop: an array of
  slots, each empty, live or dead (deleted, but still in the way of a search), read as the finite map
  of its live slots. The locale \<open>slot_table\<close> is the interface a bucket type offers; its lemmas say
  what writing into the slot a search has found does to the map.
\<close>

definition slot_find :: "(nat \<Rightarrow> 'k \<Rightarrow> nat) \<Rightarrow> ('b \<Rightarrow> bool) \<Rightarrow> ('b \<Rightarrow> 'k) \<Rightarrow> 'b list \<Rightarrow> 'k \<Rightarrow> nat option" where
  "slot_find hash emp key bs k = probe_find hash (length bs) (\<lambda>p. emp (bs ! p)) (\<lambda>p. key (bs ! p)) k"

definition slot_map :: "('b \<Rightarrow> bool) \<Rightarrow> ('b \<Rightarrow> 'k) \<Rightarrow> 'b list \<Rightarrow> 'k \<rightharpoonup> 'b" where
  "slot_map live key bs k = find (\<lambda>b. live b \<and> key b = k) bs"

definition slots_ok :: "(nat \<Rightarrow> 'k \<Rightarrow> nat) \<Rightarrow> ('b \<Rightarrow> bool) \<Rightarrow> ('b \<Rightarrow> 'k) \<Rightarrow> 'b list \<Rightarrow> bool" where
  "slots_ok hash emp key bs = well_placed hash (length bs) (\<lambda>p. emp (bs ! p)) (\<lambda>p. key (bs ! p))"

lemma length_filter_update:
  "i < length xs \<Longrightarrow> length (filter P (xs[i := x])) + (if P (xs ! i) then 1 else 0) =
     length (filter P xs) + (if P x then 1 else 0)"
proof (induction xs arbitrary: i)
  case (Cons y xs)
  then show ?case by (cases i) auto
qed simp

lemma slot_map_append:
  "slot_map live key (xs @ [b]) k =
     (case slot_map live key xs k of Some x \<Rightarrow> Some x | None \<Rightarrow> if live b \<and> key b = k then Some b else None)"
  by (induction xs) (auto simp: slot_map_def)

text \<open>
  The capacity both tables ask for when they rehash \<open>m\<close> entries leaves them more than half empty
  with one more entry.
\<close>

lemma rehash_capacity:
  assumes "m \<le> 499990"
  obtains N where "bsearch_number_of_buckets (int32 (2 * int m)) = Some N" "is_prime N" "3 \<le> N" "N \<le> 999983"
    "N div 2 + m + 1 < N"
proof -
  have "int32 (2 * int m) = 2 * int m" using assms by simp
  moreover obtain N where N: "bsearch_number_of_buckets (2 * int m) = Some N" "is_prime N" "3 \<le> N" "N \<le> 999983"
      "2 * (2 * int m) < int N \<or> N = 999983"
    using bsearch_least [of "2 * int m"] assms by auto
  moreover have "4 * m < N \<or> N = 999983" using N(5) by linarith
  then have "N div 2 + m + 1 < N" using N(3) assms by (cases "m = 0") auto
  ultimately show ?thesis using that by simp
qed

locale slot_table = probe_hash hash for hash :: "nat \<Rightarrow> 'k \<Rightarrow> nat" +
  fixes emp live :: "'b \<Rightarrow> bool" and key :: "'b \<Rightarrow> 'k"
  assumes live_not_emp: "live b \<Longrightarrow> \<not> emp b"
begin

lemma live_unique:
  assumes "slots_ok hash emp key bs" "p < length bs" "q < length bs" "live (bs ! p)" "live (bs ! q)" "key (bs ! p) = key (bs ! q)"
  shows "p = q"
  using keys_unique [OF assms(1) [unfolded slots_ok_def] assms(2,3)] assms(4-6) live_not_emp by blast

lemma map_Some:
  assumes "slots_ok hash emp key bs"
  shows "slot_map live key bs k = Some b \<longleftrightarrow> (\<exists>p < length bs. live (bs ! p) \<and> key (bs ! p) = k \<and> bs ! p = b)"
proof
  assume "\<exists>p < length bs. live (bs ! p) \<and> key (bs ! p) = k \<and> bs ! p = b"
  then obtain p where p: "p < length bs" "live (bs ! p)" "key (bs ! p) = k" "bs ! p = b" by blast
  have "\<not> (live (bs ! q) \<and> key (bs ! q) = k)" if "q < p" for q
    using live_unique [OF assms p(1), of q] p that by auto
  with p show "slot_map live key bs k = Some b" by (auto simp: slot_map_def find_Some_iff)
qed (auto simp: slot_map_def find_Some_iff)

lemma map_None:
  assumes "slots_ok hash emp key bs"
  shows "slot_map live key bs k = None \<longleftrightarrow> (\<forall>p < length bs. live (bs ! p) \<longrightarrow> key (bs ! p) \<noteq> k)"
  using map_Some [OF assms] by (metis not_None_eq)

text \<open>The slot a search ends at is the one the map speaks of.\<close>

lemma found_slot:
  assumes ok: "slots_ok hash emp key bs" and f: "slot_find hash emp key bs k = Some p"
  shows "slot_map live key bs k = (if live (bs ! p) then Some (bs ! p) else None)"
proof -
  have p: "p < length bs" "emp (bs ! p) \<or> key (bs ! p) = k"
    using find_result [OF f [unfolded slot_find_def]] by auto
  show ?thesis
  proof (cases "live (bs ! p)")
    case True
    with p live_not_emp show ?thesis by (auto simp: map_Some [OF ok])
  next
    case False
    have "key (bs ! q) \<noteq> k" if q: "q < length bs" "live (bs ! q)" for q
      using find_occupied [OF ok [unfolded slots_ok_def] q(1) live_not_emp [OF q(2)]] f False q(2)
      by (auto simp: slot_find_def)
    with False show ?thesis by (simp add: map_None [OF ok])
  qed
qed

lemma put_ok:
  assumes ok: "slots_ok hash emp key bs" and f: "slot_find hash emp key bs (key b) = Some p" and b: "\<not> emp b"
  shows "slots_ok hash emp key (bs[p := b])"
proof -
  have p: "p < length bs" using find_result [OF f [unfolded slot_find_def]] by simp
  show ?thesis
    unfolding slots_ok_def length_list_update
    by (rule well_placed_put [OF ok [unfolded slots_ok_def] f [unfolded slot_find_def]])
      (use p b in \<open>auto simp: nth_list_update\<close>)
qed

lemma put_map:
  assumes ok: "slots_ok hash emp key bs" and f: "slot_find hash emp key bs (key b) = Some p"
    and old: "\<not> live (bs ! p)" and b: "live b"
  shows "slot_map live key (bs[p := b]) = (slot_map live key bs)(key b \<mapsto> b)"
proof
  fix k
  note ok' = put_ok [OF ok f live_not_emp [OF b]]
  have p: "p < length bs" using find_result [OF f [unfolded slot_find_def]] by simp
  have none: "slot_map live key bs (key b) = None" using found_slot [OF ok f] old by simp
  have "slot_map live key (bs[p := b]) k = Some x \<longleftrightarrow> ((slot_map live key bs)(key b \<mapsto> b)) k = Some x" for x
  proof (cases "k = key b")
    case True
    then show ?thesis using p none b
      by (auto simp: map_Some [OF ok'] map_None [OF ok] nth_list_update)
  next
    case False
    then show ?thesis using p old by (auto simp: map_Some [OF ok'] map_Some [OF ok] nth_list_update)
  qed
  then show "slot_map live key (bs[p := b]) k = ((slot_map live key bs)(key b \<mapsto> b)) k" by (metis not_None_eq)
qed

text \<open>Marking a live slot dead takes its key out of the map and leaves every search as it is.\<close>

lemma mark_ok:
  assumes "slots_ok hash emp key bs" "p < length bs" "emp b = emp (bs ! p)" "key b = key (bs ! p)"
  shows "slots_ok hash emp key (bs[p := b])"
  unfolding slots_ok_def length_list_update
  by (rule well_placed_cong [OF assms(1) [unfolded slots_ok_def]]) (use assms in \<open>auto simp: nth_list_update\<close>)

lemma mark_map:
  assumes ok: "slots_ok hash emp key bs" and p: "p < length bs" and b: "\<not> live b" "emp b = emp (bs ! p)" "key b = key (bs ! p)"
    and l: "live (bs ! p)"
  shows "slot_map live key (bs[p := b]) = (slot_map live key bs)(key b := None)"
proof
  fix k
  note ok' = mark_ok [OF ok p b(2,3)]
  have "slot_map live key (bs[p := b]) k = Some x \<longleftrightarrow> ((slot_map live key bs)(key b := None)) k = Some x" for x
  proof (cases "k = key b")
    case True
    have "q = p" if "q < length bs" "live (bs ! q)" "key (bs ! q) = key b" for q
      using live_unique [OF ok that(1) p that(2) l] that(3) b(3) by simp
    with True show ?thesis using p b by (auto simp: map_Some [OF ok'] nth_list_update split: if_splits)
  next
    case False
    then have "(live (bs[p := b] ! q) \<and> key (bs[p := b] ! q) = k \<and> bs[p := b] ! q = x) =
        (live (bs ! q) \<and> key (bs ! q) = k \<and> bs ! q = x)" if "q < length bs" for q
      using that p b by (cases "q = p") (auto simp: nth_list_update)
    with False show ?thesis by (auto simp: map_Some [OF ok'] map_Some [OF ok])
  qed
  then show "slot_map live key (bs[p := b]) k = ((slot_map live key bs)(key b := None)) k" by (metis not_None_eq)
qed

text \<open>Another value under the key of a live slot\<close>

lemma replace_map:
  assumes ok: "slots_ok hash emp key bs" and p: "p < length bs" and b: "live b" "key b = key (bs ! p)" and l: "live (bs ! p)"
  shows "slot_map live key (bs[p := b]) = (slot_map live key bs)(key b \<mapsto> b)"
proof
  fix k
  have ok': "slots_ok hash emp key (bs[p := b])" using mark_ok [OF ok p _ b(2)] live_not_emp b(1) l by blast
  have "slot_map live key (bs[p := b]) k = Some x \<longleftrightarrow> ((slot_map live key bs)(key b \<mapsto> b)) k = Some x" for x
  proof (cases "k = key b")
    case True
    have "q = p" if "q < length bs" "live (bs ! q)" "key (bs ! q) = key b" for q
      using live_unique [OF ok that(1) p that(2) l] that(3) b(2) by simp
    with True show ?thesis using p b by (auto simp: map_Some [OF ok'] nth_list_update split: if_splits)
  next
    case False
    then have "(live (bs[p := b] ! q) \<and> key (bs[p := b] ! q) = k \<and> bs[p := b] ! q = x) =
        (live (bs ! q) \<and> key (bs ! q) = k \<and> bs ! q = x)" if "q < length bs" for q
      using that p b by (cases "q = p") (auto simp: nth_list_update)
    with False show ?thesis by (auto simp: map_Some [OF ok'] map_Some [OF ok])
  qed
  then show "slot_map live key (bs[p := b]) k = ((slot_map live key bs)(key b \<mapsto> b)) k" by (metis not_None_eq)
qed

lemma map_take:
  assumes ok: "slots_ok hash emp key bs" and i: "i < length bs"
  shows "live (bs ! i) \<Longrightarrow> slot_map live key (take i bs) (key (bs ! i)) = None"
    and "slot_map live key (take (Suc i) bs) =
      (if live (bs ! i) then (slot_map live key (take i bs))(key (bs ! i) \<mapsto> bs ! i) else slot_map live key (take i bs))"
proof -
  have none: "slot_map live key (take i bs) (key (bs ! i)) = None" if l: "live (bs ! i)"
  proof -
    have "\<not> (live (bs ! j) \<and> key (bs ! j) = key (bs ! i))" if "j < i" for j
      using live_unique [OF ok, of j i] that l i by auto
    with i show ?thesis by (auto simp: slot_map_def find_None_iff in_set_conv_nth)
  qed
  then show "live (bs ! i) \<Longrightarrow> slot_map live key (take i bs) (key (bs ! i)) = None" .
  have "take (Suc i) bs = take i bs @ [bs ! i]" using i by (simp add: take_Suc_conv_app_nth)
  then show "slot_map live key (take (Suc i) bs) =
      (if live (bs ! i) then (slot_map live key (take i bs))(key (bs ! i) \<mapsto> bs ! i) else slot_map live key (take i bs))"
    using none by (auto simp: fun_eq_iff slot_map_append split: option.splits)
qed

lemma fresh_ok: "(\<And>b. b \<in> set bs \<Longrightarrow> emp b) \<Longrightarrow> slots_ok hash emp key bs \<and> slot_map live key bs = Map.empty"
  using live_not_emp by (auto simp: slots_ok_def slot_map_def find_None_iff fun_eq_iff intro!: well_placed_empty)

lemma search_ends:
  assumes "is_prime (length bs)" "3 \<le> length bs" "length bs div 2 < length (filter emp bs)"
  shows "\<exists>p. slot_find hash emp key bs k = Some p \<and> p < length bs \<and> (emp (bs ! p) \<or> key (bs ! p) = k)"
  unfolding slot_find_def
  by (rule find_total) (use assms in \<open>simp_all add: length_filter_conv_card\<close>)

end

end
