(* ===== verification/Im_Hashtable.thy ===== *)
theory Im_Hashtable
  imports Im_Types Slot_Table
begin

text \<open>
  The hash table of the dictionary library, \<^verbatim>\<open>src/im_hashtable.c\<close>: open addressing over a
  prime number of buckets, deletion by marking, growth by rehashing as soon as not more than half
  of the buckets would stay empty.

  Functions that only read take the table itself; functions that change memory take a pointer
  and the heap. \<open>im_insert_element\<close> and \<open>im_rehash_hashtable\<close> call each other, and so do the
  functions that free nested objects; both groups carry fuel for the depth of the recursion, and
  running out of it is \<open>None\<close>.
\<close>

section \<open>Reading a table\<close>

fun hash_loop :: "nat \<Rightarrow> char list \<Rightarrow> 32 word \<Rightarrow> 32 word" where
  "hash_loop i [] hashcode = hashcode"
| "hash_loop i (c # cs) hashcode =
     (if c \<noteq> NUL \<and> i < KEY_MAX_LENGTH
      then hash_loop (Suc i) cs (push_bit 5 hashcode + word_of_int (schar c))
      else hashcode)"

definition im_hashcode :: "nat \<Rightarrow> char list \<Rightarrow> nat" where
  "im_hashcode N k = unat (hash_loop 0 k 0) mod N"

definition im_find_element :: "im_hashtable \<Rightarrow> char list \<Rightarrow> nat option" where
  "im_find_element t k =
     probe_loop (number_of_buckets t)
       (\<lambda>position. bucket_value (buckets t ! position) = IM_EMPTY \<or>
          strncmp KEY_MAX_LENGTH (bucket_key (buckets t ! position)) k = 0)
       (im_hashcode (number_of_buckets t) k) 0"

text \<open>The inner \<open>None\<close> is the \<^verbatim>\<open>NULL\<close> the code returns, the outer one a read outside the table.\<close>

definition im_retrieve_element :: "im_hashtable \<Rightarrow> nat \<Rightarrow> im_hash_bucket option option" where
  "im_retrieve_element t position =
     (if length (buckets t) \<le> position then None
      else if vacant (bucket_value (buckets t ! position)) then Some None
      else Some (Some (buckets t ! position)))"

definition im_retrieve_element_by_key :: "im_hashtable \<Rightarrow> char list \<Rightarrow> im_hash_bucket option option" where
  "im_retrieve_element_by_key t k =
     do { position \<leftarrow> im_find_element t k; im_retrieve_element t position }"

section \<open>Freeing nested objects\<close>

text \<open>
  \<^verbatim>\<open>free_bucket\<close> of \<^verbatim>\<open>im_hashtable.c\<close> and of \<^verbatim>\<open>im_vector.c\<close> and the two
  \<^verbatim>\<open>destroy_..._with_info\<close> functions they call, which call them again for nested tables. The flag
  of the latter says whether the object is an allocation of its own
  (\<^verbatim>\<open>info == IM_EXTERNAL_NESTED\<close>, \<^verbatim>\<open>IM_EXTERNAL_VECTOR\<close>) and is freed too.
\<close>

function (sequential) free_bucket :: "nat \<Rightarrow> ptr \<Rightarrow> nat \<Rightarrow> heap \<Rightarrow> heap option"
  and v_free_bucket :: "nat \<Rightarrow> ptr \<Rightarrow> nat \<Rightarrow> heap \<Rightarrow> heap option"
  and im_destroy_hashtable_with_info :: "nat \<Rightarrow> ptr \<Rightarrow> bool \<Rightarrow> heap \<Rightarrow> heap option"
  and im_destroy_vector_with_info :: "nat \<Rightarrow> ptr \<Rightarrow> bool \<Rightarrow> heap \<Rightarrow> heap option"
where
  "free_bucket 0 p position h = None"
| "free_bucket (Suc n) p position h =
     (case load_hash h p of None \<Rightarrow> None | Some (t, att) \<Rightarrow>
      if length (buckets t) \<le> position then None
      else (case bucket_value (buckets t ! position) of
          IM_EXTERNAL_STRING _ q \<Rightarrow> free q h
        | IM_EXTERNAL_BLOCK _ q \<Rightarrow> free q h
        | IM_EXTERNAL_NESTED _ q \<Rightarrow> im_destroy_hashtable_with_info n q True h
        | IM_EXTERNAL_VECTOR _ q \<Rightarrow> im_destroy_vector_with_info n q True h
        | IM_ATTACHED_NESTED _ off \<Rightarrow> im_destroy_hashtable_with_info n (inside p off) False h
        | IM_ATTACHED_VECTOR _ off \<Rightarrow> im_destroy_vector_with_info n (inside p off) False h
        | _ \<Rightarrow> Some h))"
| "v_free_bucket 0 p position h = None"
| "v_free_bucket (Suc n) p position h =
     (case load_vector h p of None \<Rightarrow> None | Some (v, att) \<Rightarrow>
      if length (v_buckets v) \<le> position then None
      else (case v_bucket_value (v_buckets v ! position) of
          IM_EXTERNAL_STRING _ q \<Rightarrow> free q h
        | IM_EXTERNAL_BLOCK _ q \<Rightarrow> free q h
        | IM_EXTERNAL_NESTED _ q \<Rightarrow> im_destroy_hashtable_with_info n q True h
        | IM_EXTERNAL_VECTOR _ q \<Rightarrow> im_destroy_vector_with_info n q True h
        | IM_ATTACHED_NESTED _ off \<Rightarrow> im_destroy_hashtable_with_info n (inside p off) False h
        | IM_ATTACHED_VECTOR _ off \<Rightarrow> im_destroy_vector_with_info n (inside p off) False h
        | _ \<Rightarrow> Some h))"
| "im_destroy_hashtable_with_info n p external h =
     (case load_hash h p of None \<Rightarrow> None | Some (t, att) \<Rightarrow>
      (case foldM (\<lambda>i h. free_bucket n p i h) [0..<number_of_buckets t] h of
         None \<Rightarrow> None
       | Some h \<Rightarrow> if external then free p h else Some h))"
| "im_destroy_vector_with_info n p external h =
     (case load_vector h p of None \<Rightarrow> None | Some (v, att) \<Rightarrow>
      (case foldM (\<lambda>i h. v_free_bucket n p i h) [0..<v_inuse v] h of
         None \<Rightarrow> None
       | Some h \<Rightarrow> if external then free p h else Some h))"
  by pat_completeness auto
termination
  by (relation "measure (\<lambda>x. case x of
        Inl (Inl (n, _)) \<Rightarrow> 2 * n | Inl (Inr (n, _)) \<Rightarrow> 2 * n
      | Inr (Inl (n, _)) \<Rightarrow> 2 * n + 1 | Inr (Inr (n, _)) \<Rightarrow> 2 * n + 1)") auto

definition im_destroy_hashtable :: "nat \<Rightarrow> ptr \<Rightarrow> heap \<Rightarrow> heap option" where
  "im_destroy_hashtable n p h = im_destroy_hashtable_with_info n p True h"

section \<open>Creating, deleting, emptying\<close>

definition empty_bucket :: im_hash_bucket where
  "empty_bucket = \<lparr>bucket_key = [], value_length = 0, bucket_value = IM_EMPTY\<rparr>"

definition fresh_table :: "nat \<Rightarrow> im_hashtable" where
  "fresh_table N = \<lparr>number_of_buckets = N, inuse = 0, empty = N, attached_size = 0,
     attached_offset = 0, buckets = replicate N empty_bucket\<rparr>"

definition im_initialize_hashtable :: "int \<Rightarrow> heap \<Rightarrow> (ptr option \<times> heap) option" where
  "im_initialize_hashtable capacity h =
     do { N \<leftarrow> bsearch_number_of_buckets capacity;
          Some (alloc (HashObj (fresh_table N) []) h) }"

definition im_delete_element :: "nat \<Rightarrow> ptr \<Rightarrow> nat \<Rightarrow> heap \<Rightarrow> (int \<times> heap) option" where
  "im_delete_element n p position h =
     do { (t, att) \<leftarrow> load_hash h p;
          if length (buckets t) \<le> position then None
          else if vacant (bucket_value (buckets t ! position)) then Some (-1, h)
          else do {
            h \<leftarrow> free_bucket n p position h;
            (t, att) \<leftarrow> load_hash h p;
            h \<leftarrow> store p (HashObj (t\<lparr>
                    buckets := (buckets t)[position := (buckets t ! position)\<lparr>bucket_value := IM_DELETED\<rparr>],
                    inuse := u32_dec (inuse t)\<rparr>) att) h;
            Some (int position, h) } }"

definition im_delete_element_by_key :: "nat \<Rightarrow> ptr \<Rightarrow> char list \<Rightarrow> heap \<Rightarrow> (int \<times> heap) option" where
  "im_delete_element_by_key n p k h =
     do { (t, att) \<leftarrow> load_hash h p;
          position \<leftarrow> im_find_element t k;
          im_delete_element n p position h }"

definition im_empty_hashtable :: "nat \<Rightarrow> ptr \<Rightarrow> heap \<Rightarrow> heap option" where
  "im_empty_hashtable n p h =
     do { (t, att) \<leftarrow> load_hash h p;
          h \<leftarrow> foldM (\<lambda>i h. do {
                 h \<leftarrow> free_bucket n p i h;
                 (t, att) \<leftarrow> load_hash h p;
                 store p (HashObj (t\<lparr>buckets :=
                   (buckets t)[i := (buckets t ! i)\<lparr>bucket_value := IM_EMPTY\<rparr>]\<rparr>) att) h })
               [0..<number_of_buckets t] h;
          (t, att) \<leftarrow> load_hash h p;
          store p (HashObj (t\<lparr>inuse := 0, empty := number_of_buckets t, attached_offset := 0\<rparr>) att) h }"

section \<open>Insertion and rehashing\<close>

text \<open>
  \<^verbatim>\<open>*hashtable\<close> may be another block afterwards: the pointer is returned with the result.
  \<open>rehash_prepare\<close> is the part of \<^verbatim>\<open>im_rehash_hashtable\<close> before its loop: the attached area of
  the old table is appended to the new one; \<open>insert_slot\<close> is the part of \<^verbatim>\<open>im_insert_element\<close>
  after the check of the load.
\<close>

definition rehash_prepare :: "ptr \<Rightarrow> im_hashtable \<Rightarrow> tail \<Rightarrow> heap \<Rightarrow> (ptr option \<times> heap) option" where
  "rehash_prepare q t att h =
     do { (q', h) \<leftarrow> (if attached_offset t \<noteq> 0
            then do { (r, h) \<leftarrow> realloc q h;
                      (case r of None \<Rightarrow> do { h \<leftarrow> free q h; Some (None, h) }
                       | Some q \<Rightarrow> Some (Some q, h)) }
            else Some (Some q, h));
          (case q' of None \<Rightarrow> Some (None, h)
           | Some q \<Rightarrow> do {
               (u, _) \<leftarrow> load_hash h q;
               h \<leftarrow> store q (HashObj (u\<lparr>attached_size := attached_offset t,
                                     attached_offset := attached_offset t\<rparr>)
                              (filter (\<lambda>(off, _). off < attached_offset t) att)) h;
               Some (Some q, h) }) }"

definition insert_slot :: "ptr \<Rightarrow> im_hash_bucket \<Rightarrow> heap \<Rightarrow> (int \<times> ptr \<times> heap) option" where
  "insert_slot p b h =
     do { (t, att) \<leftarrow> load_hash h p;
          position \<leftarrow> im_find_element t (bucket_key b);
          let old = bucket_value (buckets t ! position) in
          if vacant old then do {
            h \<leftarrow> store p (HashObj (t\<lparr>
                   empty := (if old = IM_EMPTY then u32_dec (empty t) else empty t),
                   buckets := (buckets t)[position := b],
                   inuse := u32_inc (inuse t)\<rparr>) att) h;
            Some (int position, p, h) }
          else Some (-1, p, h) }"

function (sequential) im_insert_element :: "nat \<Rightarrow> ptr \<Rightarrow> im_hash_bucket \<Rightarrow> heap \<Rightarrow> (int \<times> ptr \<times> heap) option"
  and im_rehash_hashtable :: "nat \<Rightarrow> ptr \<Rightarrow> heap \<Rightarrow> (int \<times> ptr \<times> heap) option"
where
  "im_insert_element 0 p b h = None"
| "im_insert_element (Suc n) p b h =
     (if vacant (bucket_value b) then Some (-1, p, h)
      else case load_hash h p of None \<Rightarrow> None | Some (t, _) \<Rightarrow>
        (case (if u32_dec (empty t) \<le> number_of_buckets t div 2 then im_rehash_hashtable n p h
               else Some (0, p, h)) of
           None \<Rightarrow> None
         | Some (r, p, h) \<Rightarrow>
             if r < 0 then Some (-1, p, h)
             else insert_slot p b h))"
| "im_rehash_hashtable n p h =
     (case load_hash h p of None \<Rightarrow> None | Some (t, att) \<Rightarrow>
      (case im_initialize_hashtable (int32 (2 * int (inuse t))) h of
         None \<Rightarrow> None
       | Some (None, h) \<Rightarrow> Some (-1, p, h)
       | Some (Some q, h) \<Rightarrow>
          (case rehash_prepare q t att h of
             None \<Rightarrow> None
           | Some (None, h) \<Rightarrow> Some (-1, p, h)
           | Some (Some q, h) \<Rightarrow>
              (case foldM (\<lambda>i (r, q, h).
                       if r < 0 then Some (r, q, h)
                       else case load_hash h p of None \<Rightarrow> None | Some (t, _) \<Rightarrow>
                         if length (buckets t) \<le> i then None
                         else if vacant (bucket_value (buckets t ! i)) then Some (0, q, h)
                         else im_insert_element n q (buckets t ! i) h)
                     [0..<number_of_buckets t] (0, q, h) of
                 None \<Rightarrow> None
               | Some (r, q, h) \<Rightarrow>
                   if r < 0 then (case free q h of None \<Rightarrow> None | Some h \<Rightarrow> Some (-1, p, h))
                   else (case free p h of None \<Rightarrow> None | Some h \<Rightarrow> Some (0, q, h))))))"
  by pat_completeness auto
termination
  by (relation "measure (\<lambda>x. case x of Inl (n, _) \<Rightarrow> 2 * n | Inr (n, _) \<Rightarrow> 2 * n + 1)") auto

declare free_bucket.simps [simp del] v_free_bucket.simps [simp del]
  im_destroy_hashtable_with_info.simps [simp del] im_destroy_vector_with_info.simps [simp del]
  im_insert_element.simps [simp del] im_rehash_hashtable.simps [simp del]

end
