(* ===== verification/Im_Hashtable_Correct.thy ===== *)
theory Im_Hashtable_Correct
  imports Im_Hashtable
begin

text \<open>
  Correctness of the hash table. \<open>ht_map\<close> is the abstract value of a table, a finite map from
  keys (at most 102 bytes, up to the first NUL) to live buckets, read off the bucket array without
  hashing. \<open>ht_inv\<close> is the representation invariant: a prime number of buckets, the two counters
  count what they say, more than half of the buckets are empty, and every bucket that is not empty
  is where the search for its key ends.

  Under the invariant the search loop ends, lookup is application of \<open>ht_map\<close>, insertion is
  \<open>ht_map(k \<mapsto> b)\<close>, deletion removes the key, and rehashing builds a table with the same map.
\<close>

section \<open>Abstract value and invariant\<close>

definition ckey :: "char list \<Rightarrow> string" where
  "ckey s = take KEY_MAX_LENGTH (cstr s)"

definition ht_emp :: "im_hashtable \<Rightarrow> nat \<Rightarrow> bool" where
  "ht_emp t p = (bucket_value (buckets t ! p) = IM_EMPTY)"

definition ht_key :: "im_hashtable \<Rightarrow> nat \<Rightarrow> string" where
  "ht_key t p = ckey (bucket_key (buckets t ! p))"

definition live :: "im_hash_bucket \<Rightarrow> bool" where
  "live b = (\<not> vacant (bucket_value b))"

definition live_map :: "im_hash_bucket list \<Rightarrow> string \<rightharpoonup> im_hash_bucket" where
  "live_map bs k = find (\<lambda>b. live b \<and> ckey (bucket_key b) = k) bs"

definition ht_map :: "im_hashtable \<Rightarrow> string \<rightharpoonup> im_hash_bucket" where
  "ht_map t = live_map (buckets t)"

definition ht_core :: "im_hashtable \<Rightarrow> bool" where
  "ht_core t \<longleftrightarrow>
     is_prime (number_of_buckets t) \<and> 3 \<le> number_of_buckets t \<and> number_of_buckets t \<le> 999983 \<and>
     length (buckets t) = number_of_buckets t \<and>
     inuse t = length (filter live (buckets t)) \<and>
     empty t = length (filter (\<lambda>b. bucket_value b = IM_EMPTY) (buckets t)) \<and>
     well_placed im_hashcode (number_of_buckets t) (ht_emp t) (ht_key t)"

definition ht_inv :: "im_hashtable \<Rightarrow> bool" where
  "ht_inv t \<longleftrightarrow> ht_core t \<and> number_of_buckets t div 2 < empty t"

text \<open>What one insertion writes into the table.\<close>

definition ht_put :: "im_hashtable \<Rightarrow> im_hash_bucket \<Rightarrow> nat \<Rightarrow> im_hashtable" where
  "ht_put t b position = t\<lparr>
     empty := (if bucket_value (buckets t ! position) = IM_EMPTY then u32_dec (empty t) else empty t),
     buckets := (buckets t)[position := b],
     inuse := u32_inc (inuse t)\<rparr>"

definition ht_del :: "im_hashtable \<Rightarrow> nat \<Rightarrow> im_hashtable" where
  "ht_del t position = t\<lparr>
     buckets := (buckets t)[position := (buckets t ! position)\<lparr>bucket_value := IM_DELETED\<rparr>],
     inuse := u32_dec (inuse t)\<rparr>"

section \<open>Keys and hash codes\<close>

lemma ckey_ckey [simp]: "ckey (ckey s) = ckey s"
  by (simp add: ckey_def cstr_take)

lemma hash_loop_cstr: "hash_loop i k h = hash_loop i (take (KEY_MAX_LENGTH - i) (cstr k)) h"
proof (induction i k h rule: hash_loop.induct)
  case (2 i c cs h)
  show ?case
  proof (cases "c \<noteq> NUL \<and> i < KEY_MAX_LENGTH")
    case True
    then have "KEY_MAX_LENGTH - i = Suc (KEY_MAX_LENGTH - Suc i)" by linarith
    with 2 True show ?thesis by simp
  next
    case False
    then show ?thesis by (auto simp: not_less)
  qed
qed simp

lemma im_hashcode_ckey: "im_hashcode N (ckey k) = im_hashcode N k"
  using hash_loop_cstr [of 0 k] by (simp add: im_hashcode_def ckey_def)

abbreviation b_empty :: "im_hash_bucket \<Rightarrow> bool" where
  "b_empty b \<equiv> bucket_value b = IM_EMPTY"

abbreviation b_key :: "im_hash_bucket \<Rightarrow> string" where
  "b_key b \<equiv> ckey (bucket_key b)"

interpretation im: slot_table im_hashcode b_empty live b_key
  by unfold_locales (auto simp: im_hashcode_def live_def vacant_def)

lemma im_find_element_probe:
  "im_find_element t k = probe_find im_hashcode (number_of_buckets t) (ht_emp t) (ht_key t) (ckey k)"
  unfolding im_find_element_def probe_find_def ht_emp_def ht_key_def
  by (simp add: strncmp_eq_0 im_hashcode_ckey) (simp add: ckey_def)

section \<open>The table as an array of slots\<close>

lemma ht_coreD:
  assumes "ht_core t"
  shows "is_prime (number_of_buckets t)" "3 \<le> number_of_buckets t" "number_of_buckets t \<le> 999983"
    "length (buckets t) = number_of_buckets t" "inuse t = length (filter live (buckets t))"
    "empty t = length (filter (\<lambda>b. bucket_value b = IM_EMPTY) (buckets t))"
    "well_placed im_hashcode (number_of_buckets t) (ht_emp t) (ht_key t)"
  using assms by (simp_all add: ht_core_def)

lemma ht_slots: "ht_core t \<Longrightarrow> slots_ok im_hashcode b_empty b_key (buckets t)"
  using ht_coreD(4,7) [of t] by (simp add: slots_ok_def ht_emp_def [abs_def] ht_key_def [abs_def])

lemma live_map_slot: "live_map bs = slot_map live b_key bs"
  by (simp add: fun_eq_iff live_map_def slot_map_def)

lemma im_find_slot:
  assumes "ht_core t"
  shows "im_find_element t k = slot_find im_hashcode b_empty b_key (buckets t) (ckey k)"
  using ht_coreD(4) [OF assms]
  by (simp add: im_find_element_probe slot_find_def ht_emp_def [abs_def] ht_key_def [abs_def])

lemma live_not_emp: "live (buckets t ! p) \<Longrightarrow> \<not> ht_emp t p"
  by (auto simp: live_def vacant_def ht_emp_def)

lemma ht_map_Some:
  assumes "ht_core t"
  shows "ht_map t k = Some b \<longleftrightarrow>
    (\<exists>p < number_of_buckets t. live (buckets t ! p) \<and> ht_key t p = k \<and> buckets t ! p = b)"
  using im.map_Some [OF ht_slots [OF assms]] ht_coreD(4) [OF assms] by (simp add: ht_map_def live_map_slot ht_key_def)

section \<open>Searching\<close>

lemma card_emp: "ht_core t \<Longrightarrow> card {p. p < number_of_buckets t \<and> ht_emp t p} = empty t"
  by (auto simp: ht_coreD(4,6) length_filter_conv_card ht_emp_def)

lemma search_total:
  assumes "ht_inv t"
  obtains p where "im_find_element t k = Some p" "p < number_of_buckets t" "ht_emp t p \<or> ht_key t p = ckey k"
proof -
  from assms have c: "ht_core t" and e: "number_of_buckets t div 2 < empty t" by (simp_all add: ht_inv_def)
  then show ?thesis
    using im.find_total [of "number_of_buckets t" "ht_emp t" "ht_key t" "ckey k"] that
    by (auto simp: im_find_element_probe card_emp ht_coreD)
qed

text \<open>The bucket found is the one \<open>ht_map\<close> speaks of: live exactly if the key is in the map.\<close>

lemma found_bucket:
  assumes "ht_core t" "im_find_element t k = Some p"
  shows "ht_map t (ckey k) = (if live (buckets t ! p) then Some (buckets t ! p) else None)"
  using im.found_slot [OF ht_slots [OF assms(1)]] assms(2) by (simp add: im_find_slot [OF assms(1)] ht_map_def live_map_slot)

lemma retrieve_by_key:
  assumes "ht_inv t"
  shows "im_retrieve_element_by_key t k = Some (ht_map t (ckey k))"
proof -
  obtain p where p: "im_find_element t k = Some p" "p < number_of_buckets t"
    using search_total [OF assms] by metis
  with assms found_bucket [of t k p] show ?thesis
    by (simp add: im_retrieve_element_by_key_def im_retrieve_element_def ht_inv_def ht_coreD live_def)
qed

section \<open>Writing a bucket\<close>

lemma counts_small: "ht_core t \<Longrightarrow> inuse t \<le> 999983 \<and> empty t \<le> 999983"
proof -
  assume c: "ht_core t"
  have "length (filter P (buckets t)) \<le> 999983" for P
    using length_filter_le [of P "buckets t"] ht_coreD(3,4) [OF c] by simp
  with c show ?thesis by (simp add: ht_coreD)
qed

lemma ht_put_sel [simp]:
  "number_of_buckets (ht_put t b p) = number_of_buckets t" "buckets (ht_put t b p) = (buckets t)[p := b]"
  "attached_size (ht_put t b p) = attached_size t" "attached_offset (ht_put t b p) = attached_offset t"
  by (simp_all add: ht_put_def)

lemma ht_del_sel [simp]:
  "number_of_buckets (ht_del t p) = number_of_buckets t" "empty (ht_del t p) = empty t"
  "buckets (ht_del t p) = (buckets t)[p := (buckets t ! p)\<lparr>bucket_value := IM_DELETED\<rparr>]"
  "attached_size (ht_del t p) = attached_size t" "attached_offset (ht_del t p) = attached_offset t"
  by (simp_all add: ht_del_def)

lemma inuse_ht_put:
  assumes "ht_core t" "p < number_of_buckets t" "\<not> live (buckets t ! p)"
  shows "inuse (ht_put t b p) = inuse t + 1"
  using counts_small [OF assms(1)] by (simp add: ht_put_def)

lemma empty_ht_put:
  assumes "ht_core t" "p < number_of_buckets t"
  shows "empty (ht_put t b p) = empty t - (if ht_emp t p then 1 else 0)"
proof -
  have "0 < empty t" if "ht_emp t p"
    using that assms(2) ht_coreD(4,6) [OF assms(1)] nth_mem [of p "buckets t"]
    by (auto simp: ht_emp_def filter_empty_conv)
  then show ?thesis using counts_small [OF assms(1)] by (simp add: ht_put_def ht_emp_def)
qed

lemma ht_core_put:
  assumes c: "ht_core t" and f: "im_find_element t (bucket_key b) = Some p"
    and old: "\<not> live (buckets t ! p)" and b: "live b"
  shows "ht_core (ht_put t b p)"
proof -
  have pf: "probe_find im_hashcode (number_of_buckets t) (ht_emp t) (ht_key t) (ckey (bucket_key b)) = Some p"
    using f by (simp add: im_find_element_probe)
  then have p: "p < number_of_buckets t" by (auto dest: im.find_result)
  have "p < length (buckets t)" using p ht_coreD(4) [OF c] by simp
  note upd = length_filter_update [OF this, of _ b]
  have "inuse (ht_put t b p) = length (filter live ((buckets t)[p := b]))"
    using upd [of live] old b inuse_ht_put [OF c p old] ht_coreD(5) [OF c] by simp
  moreover have "bucket_value b \<noteq> IM_EMPTY" using b by (auto simp: live_def)
  then have "empty (ht_put t b p) = length (filter (\<lambda>b. bucket_value b = IM_EMPTY) ((buckets t)[p := b]))"
    using upd [of "\<lambda>b. bucket_value b = IM_EMPTY"] empty_ht_put [OF c p] ht_coreD(6) [OF c]
    by (simp add: ht_emp_def split: if_splits)
  moreover have "slots_ok im_hashcode b_empty b_key ((buckets t)[p := b])"
    using im.put_ok [OF ht_slots [OF c]] f \<open>bucket_value b \<noteq> IM_EMPTY\<close> by (simp add: im_find_slot [OF c])
  then have "well_placed im_hashcode (number_of_buckets t) (ht_emp (ht_put t b p)) (ht_key (ht_put t b p))"
    using ht_coreD(4) [OF c] by (simp add: slots_ok_def ht_emp_def [abs_def] ht_key_def [abs_def])
  ultimately show ?thesis using ht_coreD [OF c] by (simp add: ht_core_def)
qed

lemma found_key:
  assumes "ht_core t" "im_find_element t k = Some p" "\<not> ht_emp t p"
  shows "ht_key t p = ckey k"
  using assms(2,3) by (auto simp: im_find_element_probe dest: im.find_result)

lemma found_range: "im_find_element t k = Some p \<Longrightarrow> p < number_of_buckets t"
  by (auto simp: im_find_element_probe dest: im.find_result)

lemma ht_map_put:
  assumes c: "ht_core t" and f: "im_find_element t (bucket_key b) = Some p"
    and old: "\<not> live (buckets t ! p)" and b: "live b"
  shows "ht_map (ht_put t b p) = (ht_map t)(ckey (bucket_key b) \<mapsto> b)"
  using im.put_map [OF ht_slots [OF c] _ old b] f by (simp add: im_find_slot [OF c] ht_map_def live_map_slot)

lemma ht_core_del:
  assumes c: "ht_core t" and p: "p < number_of_buckets t" and old: "live (buckets t ! p)"
  shows "ht_core (ht_del t p)"
proof -
  let ?b = "(buckets t ! p)\<lparr>bucket_value := IM_DELETED\<rparr>"
  have pl: "p < length (buckets t)" using p ht_coreD(4) [OF c] by simp
  note upd = length_filter_update [OF pl, of _ ?b]
  have ne: "bucket_value (buckets t ! p) \<noteq> IM_EMPTY" using old by (auto simp: live_def)
  have "0 < inuse t" using old pl by (auto simp: ht_coreD(5) [OF c] filter_empty_conv)
  then have "inuse (ht_del t p) = length (filter live ((buckets t)[p := ?b]))"
    using upd [of live] old counts_small [OF c] by (simp add: ht_del_def ht_coreD(5) [OF c] live_def)
  moreover have "empty t = length (filter (\<lambda>b. bucket_value b = IM_EMPTY) ((buckets t)[p := ?b]))"
    using upd [of "\<lambda>b. bucket_value b = IM_EMPTY"] ne by (simp add: ht_coreD(6) [OF c])
  moreover have "slots_ok im_hashcode b_empty b_key ((buckets t)[p := ?b])"
    using ne by (intro im.mark_ok [OF ht_slots [OF c] pl]) auto
  then have "well_placed im_hashcode (number_of_buckets t) (ht_emp (ht_del t p)) (ht_key (ht_del t p))"
    using ht_coreD(4) [OF c] by (simp add: slots_ok_def ht_emp_def [abs_def] ht_key_def [abs_def])
  ultimately show ?thesis using ht_coreD [OF c] by (simp add: ht_core_def)
qed

lemma ht_map_del:
  assumes c: "ht_core t" and p: "p < number_of_buckets t" and old: "live (buckets t ! p)"
  shows "ht_map (ht_del t p) = (ht_map t)(ht_key t p := None)"
proof -
  have "bucket_value (buckets t ! p) \<noteq> IM_EMPTY" "p < length (buckets t)"
    using old p ht_coreD(4) [OF c] by (auto simp: live_def)
  then show ?thesis
    using im.mark_map [OF ht_slots [OF c], of p "(buckets t ! p)\<lparr>bucket_value := IM_DELETED\<rparr>"] old
    by (simp add: ht_map_def live_map_slot ht_key_def live_def)
qed

lemma ht_inv_del: "ht_inv t \<Longrightarrow> p < number_of_buckets t \<Longrightarrow> live (buckets t ! p) \<Longrightarrow> ht_inv (ht_del t p)"
  by (simp add: ht_inv_def ht_core_del)

section \<open>Insertion in place\<close>

lemma insert_slot_absent:
  assumes ld: "load_hash h p = Some (t, att)" and inv: "ht_inv t" and room: "number_of_buckets t div 2 < empty t - 1"
    and b: "live b" and absent: "ht_map t (ckey (bucket_key b)) = None"
  obtains pos h' where "insert_slot p b h = Some (int pos, p, h')"
    "im_find_element t (bucket_key b) = Some pos"
    "store p (HashObj (ht_put t b pos) att) h = Some h'"
    "ht_inv (ht_put t b pos)" "ht_map (ht_put t b pos) = (ht_map t)(ckey (bucket_key b) \<mapsto> b)"
    "inuse (ht_put t b pos) = inuse t + 1" "empty t - 1 \<le> empty (ht_put t b pos)"
proof -
  have c: "ht_core t" using inv by (simp add: ht_inv_def)
  obtain pos where f: "im_find_element t (bucket_key b) = Some pos" and pos: "pos < number_of_buckets t"
    using search_total [OF inv] by metis
  have old: "\<not> live (buckets t ! pos)" using found_bucket [OF c f] absent by (simp split: if_splits)
  from ld have "load h p = Some (HashObj t att)" by (simp add: load_hash_iff)
  then obtain h' where st: "store p (HashObj (ht_put t b pos) att) h = Some h'" using store_total by blast
  have "insert_slot p b h = Some (int pos, p, h')"
    using ld f old st by (simp add: insert_slot_def live_def ht_put_def Let_def)
  moreover have "empty t - 1 \<le> empty (ht_put t b pos)" by (simp add: empty_ht_put [OF c pos])
  ultimately show ?thesis
    using that f st inuse_ht_put [OF c pos old] ht_map_put [OF c f old b] ht_core_put [OF c f old b] room
    by (auto simp: ht_inv_def)
qed

lemma insert_slot_present:
  assumes "load_hash h p = Some (t, att)" "ht_inv t" "ht_map t (ckey (bucket_key b)) \<noteq> None"
  shows "insert_slot p b h = Some (-1, p, h)"
proof -
  obtain pos where f: "im_find_element t (bucket_key b) = Some pos"
    using search_total [OF assms(2)] by metis
  with assms(2,3) found_bucket [of t "bucket_key b" pos] have "live (buckets t ! pos)"
    by (auto simp: ht_inv_def split: if_splits)
  with assms(1) f show ?thesis by (simp add: insert_slot_def live_def)
qed

lemma u32_dec_empty: "ht_inv t \<Longrightarrow> u32_dec (empty t) = empty t - 1"
  using counts_small [of t] by (auto simp: ht_inv_def)

lemma insert_no_rehash:
  assumes "load_hash h p = Some (t, att)" "ht_inv t" "number_of_buckets t div 2 < empty t - 1" "live b"
  shows "im_insert_element (Suc n) p b h = insert_slot p b h"
  using assms u32_dec_empty [OF assms(2)] by (simp add: im_insert_element.simps live_def)

section \<open>Rehashing\<close>

definition heap_ok :: "heap \<Rightarrow> bool" where
  "heap_ok h \<longleftrightarrow> (\<forall>a. cells h a \<noteq> None \<longrightarrow> a < brk h)"

lemma heap_ok_fresh: "heap_ok h \<Longrightarrow> brk h \<le> a \<Longrightarrow> cells h a = None"
  by (force simp: heap_ok_def)

lemma ht_inv_fresh:
  assumes "is_prime N" "3 \<le> N" "N \<le> 999983"
  shows "ht_inv (fresh_table N)" and "ht_map (fresh_table N) = Map.empty"
proof -
  have "well_placed im_hashcode N (ht_emp (fresh_table N)) (ht_key (fresh_table N))"
    by (rule im.well_placed_empty) (simp add: ht_emp_def fresh_table_def empty_bucket_def)
  then show "ht_inv (fresh_table N)"
    using assms by (simp add: ht_inv_def ht_core_def fresh_table_def empty_bucket_def live_def)
  have "\<not> live empty_bucket" by (simp add: live_def empty_bucket_def)
  then have "find (\<lambda>b. live b \<and> ckey (bucket_key b) = k) (replicate N empty_bucket) = None" for k
    by (simp add: find_None_iff)
  then show "ht_map (fresh_table N) = Map.empty"
    by (simp add: fun_eq_iff ht_map_def live_map_def fresh_table_def)
qed

text \<open>A table keeps its map and invariant when only the attached area's bookkeeping changes.\<close>

lemma ht_inv_attached:
  "ht_inv (t\<lparr>attached_size := a, attached_offset := d\<rparr>) = ht_inv t"
  "ht_map (t\<lparr>attached_size := a, attached_offset := d\<rparr>) = ht_map t"
  by (simp_all add: ht_inv_def ht_core_def ht_map_def ht_emp_def [abs_def] ht_key_def [abs_def])

lemma live_map_take:
  assumes "ht_core t" "i < number_of_buckets t"
  shows "live (buckets t ! i) \<Longrightarrow> live_map (take i (buckets t)) (ckey (bucket_key (buckets t ! i))) = None"
    and "live_map (take (Suc i) (buckets t)) =
      (if live (buckets t ! i)
       then (live_map (take i (buckets t)))(ckey (bucket_key (buckets t ! i)) \<mapsto> buckets t ! i)
       else live_map (take i (buckets t)))"
  using im.map_take [OF ht_slots [OF assms(1)]] assms(2) ht_coreD(4) [OF assms(1)] by (simp_all add: live_map_slot)

text \<open>
  The loop of \<^verbatim>\<open>im_rehash_hashtable\<close> after \<open>i\<close> rounds: the new table holds the live buckets among
  the first \<open>i\<close> of the old one, and nothing else in memory has changed.
\<close>

definition rehash_loop_inv :: "im_hashtable \<Rightarrow> nat \<Rightarrow> im_hashtable \<Rightarrow> tail \<Rightarrow> heap \<Rightarrow> nat \<Rightarrow> int \<times> ptr \<times> heap \<Rightarrow> bool" where
  "rehash_loop_inv t c u0 att' h0 i = (\<lambda>(r, q, h).
     0 \<le> r \<and> q = Ptr c [] \<and> (\<exists>u. h = h0\<lparr>cells := (cells h0)(c \<mapsto> HashObj u att')\<rparr> \<and> ht_inv u \<and>
       number_of_buckets u = number_of_buckets u0 \<and> attached_offset u = attached_offset u0 \<and>
       attached_size u = attached_size u0 \<and>
       ht_map u = live_map (take i (buckets t)) \<and> inuse u = length (filter live (take i (buckets t))) \<and>
       number_of_buckets u \<le> empty u + inuse u))"

lemma load_hash_Ptr [simp]: "load_hash h (Ptr a []) = (case cells h a of Some (HashObj t att) \<Rightarrow> Some (t, att) | _ \<Rightarrow> None)"
  by (simp add: load_hash_def split: option.splits)

lemma filter_live_take:
  "i < length bs \<Longrightarrow> length (filter live (take (Suc i) bs)) = length (filter live (take i bs)) + (if live (bs ! i) then 1 else 0)"
  by (simp add: take_Suc_conv_app_nth)

lemma filter_live_take_le: "length (filter live (take i bs)) \<le> length (filter live bs)"
  by (metis append_take_drop_id filter_append le_add1 length_append)

lemma rehash_loop_step:
  assumes c: "ht_core t" and i: "i < number_of_buckets t" and ac: "a \<noteq> c"
    and h0: "cells h0 a = Some (HashObj t att)" and cap: "number_of_buckets u0 div 2 + inuse t + 1 < number_of_buckets u0"
    and I: "rehash_loop_inv t c u0 att' h0 i (r, q, h)"
  shows "\<exists>s'. (if r < 0 then Some (r, q, h)
       else case load_hash h (Ptr a []) of None \<Rightarrow> None | Some (t, _) \<Rightarrow>
         if length (buckets t) \<le> i then None
         else if vacant (bucket_value (buckets t ! i)) then Some (0, q, h)
         else im_insert_element (Suc n) q (buckets t ! i) h) = Some s' \<and> rehash_loop_inv t c u0 att' h0 (Suc i) s'"
proof -
  from I obtain u where r: "0 \<le> r" and q: "q = Ptr c []"
    and h: "h = h0\<lparr>cells := (cells h0)(c \<mapsto> HashObj u att')\<rparr>" and u: "ht_inv u"
      "number_of_buckets u = number_of_buckets u0" "attached_offset u = attached_offset u0"
      "attached_size u = attached_size u0" "ht_map u = live_map (take i (buckets t))"
      "inuse u = length (filter live (take i (buckets t)))" "number_of_buckets u \<le> empty u + inuse u"
    by (auto simp: rehash_loop_inv_def)
  let ?b = "buckets t ! i"
  have len: "length (buckets t) = number_of_buckets t" by (rule ht_coreD(4) [OF c])
  have ld: "load_hash h (Ptr a []) = Some (t, att)" using ac h0 h by simp
  have lt: "length (filter live (take (Suc i) (buckets t))) \<le> inuse t"
    using filter_live_take_le ht_coreD(5) [OF c] by simp
  note more = filter_live_take [of i "buckets t"]
  show ?thesis
  proof (cases "live ?b")
    case False
    then have "rehash_loop_inv t c u0 att' h0 (Suc i) (0, q, h)"
      using u q h i len more live_map_take(2) [OF c i] by (auto simp: rehash_loop_inv_def)
    with False r ld i len show ?thesis by (simp add: live_def)
  next
    case True
    have ldu: "load_hash h (Ptr c []) = Some (u, att')" using h by simp
    have room: "number_of_buckets u div 2 < empty u - 1"
      using u cap lt more True i len by simp
    have absent: "ht_map u (ckey (bucket_key ?b)) = None"
      using u live_map_take(1) [OF c i True] by simp
    obtain pos h' where p: "insert_slot (Ptr c []) ?b h = Some (int pos, Ptr c [], h')"
      "store (Ptr c []) (HashObj (ht_put u ?b pos) att') h = Some h'" "ht_inv (ht_put u ?b pos)"
      "ht_map (ht_put u ?b pos) = (ht_map u)(ckey (bucket_key ?b) \<mapsto> ?b)"
      "inuse (ht_put u ?b pos) = inuse u + 1" "empty u - 1 \<le> empty (ht_put u ?b pos)"
      using insert_slot_absent [OF ldu u(1) room True absent] by metis
    have "im_insert_element (Suc n) q ?b h = Some (int pos, Ptr c [], h')"
      using insert_no_rehash [OF ldu u(1) room True] p(1) q by simp
    moreover have "h' = h0\<lparr>cells := (cells h0)(c \<mapsto> HashObj (ht_put u ?b pos) att')\<rparr>"
      using p(2) h by simp
    then have "rehash_loop_inv t c u0 att' h0 (Suc i) (int pos, Ptr c [], h')"
      using u p(3-) more True i len live_map_take(2) [OF c i] room
      by (auto simp: rehash_loop_inv_def)
    ultimately show ?thesis using True r ld i len by (simp add: live_def)
  qed
qed

lemma rehash_prepare_ok:
  assumes "cells h c = Some (HashObj u [])" "brk h = Suc c" "heap_ok h" "\<forall>i. \<not> oom h i"
  obtains c' h' where "rehash_prepare (Ptr c []) t att h = Some (Some (Ptr c' []), h')" "c \<le> c'" "c' < brk h'"
    "cells h' = (cells h)(c := None, c' \<mapsto> HashObj (u\<lparr>attached_size := attached_offset t, attached_offset := attached_offset t\<rparr>)
        (filter (\<lambda>(off, _). off < attached_offset t) att))"
    "heap_ok h'" "oom h' = oom h"
proof (cases "attached_offset t = 0")
  case True
  then show ?thesis using assms
    by (intro that [of c "h\<lparr>cells := (cells h)(c \<mapsto> HashObj (u\<lparr>attached_size := 0, attached_offset := 0\<rparr>) [])\<rparr>"])
      (auto simp: rehash_prepare_def heap_ok_def fun_eq_iff)
next
  case False
  let ?x = "HashObj (u\<lparr>attached_size := attached_offset t, attached_offset := attached_offset t\<rparr>)
        (filter (\<lambda>(off, _). off < attached_offset t) att)"
  from False assms show ?thesis
    by (intro that [of "Suc c" "h\<lparr>cells := (cells h)(c := None, Suc c \<mapsto> ?x), brk := Suc (Suc c)\<rparr>"])
      (auto simp: rehash_prepare_def realloc_def alloc_def heap_ok_def fun_eq_iff)
qed

lemma fresh_table_sel [simp]:
  "number_of_buckets (fresh_table N) = N" "inuse (fresh_table N) = 0" "empty (fresh_table N) = N"
  "attached_size (fresh_table N) = 0" "attached_offset (fresh_table N) = 0"
  by (simp_all add: fresh_table_def)

text \<open>The whole loop, from a fresh table \<open>u0\<close> at \<open>d\<close>.\<close>

lemma rehash_loop_ok:
  assumes c: "ht_core t" and ad: "a \<noteq> d" and ha: "cells h0 a = Some (HashObj t att)"
    and hd: "cells h0 d = Some (HashObj u0 att')" and u0: "ht_inv u0" "ht_map u0 = Map.empty" "inuse u0 = 0"
      "empty u0 = number_of_buckets u0"
    and cap: "number_of_buckets u0 div 2 + inuse t + 1 < number_of_buckets u0"
  obtains r u where "foldM (\<lambda>i (r, q, h).
        if r < 0 then Some (r, q, h)
        else case load_hash h (Ptr a []) of None \<Rightarrow> None | Some (t, _) \<Rightarrow>
          if length (buckets t) \<le> i then None
          else if vacant (bucket_value (buckets t ! i)) then Some (0, q, h)
          else im_insert_element (Suc n) q (buckets t ! i) h) [0..<number_of_buckets t] (0, Ptr d [], h0) =
      Some (r, Ptr d [], h0\<lparr>cells := (cells h0)(d \<mapsto> HashObj u att')\<rparr>)"
    "0 \<le> r" "ht_inv u" "ht_map u = ht_map t" "inuse u = inuse t" "number_of_buckets u div 2 < empty u - 1"
    "attached_offset u = attached_offset u0"
proof -
  let ?P = "rehash_loop_inv t d u0 att' h0"
  let ?f = "(\<lambda>i (r, q, h).
        if r < 0 then Some (r, q, h)
        else case load_hash h (Ptr a []) of None \<Rightarrow> None | Some (t, _) \<Rightarrow>
          if length (buckets t) \<le> i then None
          else if vacant (bucket_value (buckets t ! i)) then Some (0, q, h)
          else im_insert_element (Suc n) q (buckets t ! i) h)"
  have "h0 = h0\<lparr>cells := (cells h0)(d \<mapsto> HashObj u0 att')\<rparr>" using hd by (simp add: fun_upd_idem)
  then have "?P 0 (0, Ptr d [], h0)"
    using u0 by (auto simp: rehash_loop_inv_def live_map_def fun_eq_iff intro!: exI [of _ u0])
  moreover have "\<exists>s'. ?f i s = Some s' \<and> ?P (Suc i) s'" if "i < number_of_buckets t" "?P i s" for i s
  proof -
    obtain r q h where s: "s = (r, q, h)" by (cases s)
    show ?thesis
      using rehash_loop_step [OF c that(1) ad ha cap that(2) [unfolded s], of n]
      unfolding s prod.case by assumption
  qed
  ultimately have "\<exists>s. foldM ?f [0..<number_of_buckets t] (0, Ptr d [], h0) = Some s \<and> ?P (number_of_buckets t) s"
    by (rule foldM_upt_inv)
  then obtain s where s: "foldM ?f [0..<number_of_buckets t] (0, Ptr d [], h0) = Some s"
      "?P (number_of_buckets t) s" by (elim exE conjE)
  have len: "length (buckets t) = number_of_buckets t" by (rule ht_coreD(4) [OF c])
  obtain r q h' where s': "s = (r, q, h')" by (cases s)
  from s(2) obtain u where "0 \<le> r" "q = Ptr d []" "h' = h0\<lparr>cells := (cells h0)(d \<mapsto> HashObj u att')\<rparr>" "ht_inv u"
      "number_of_buckets u = number_of_buckets u0" "attached_offset u = attached_offset u0"
      "ht_map u = ht_map t" "inuse u = inuse t" "number_of_buckets u \<le> empty u + inuse u"
    unfolding s' by (auto simp: rehash_loop_inv_def len ht_map_def ht_coreD(5) [OF c])
  with s(1) s' cap show ?thesis by (intro that [of r u]) auto
qed

lemma rehash_ok:
  assumes c: "ht_core t" and ld: "cells h a = Some (HashObj t att)" and ok: "heap_ok h"
    and mem: "\<forall>i. \<not> oom h i" and small: "inuse t \<le> 499990"
  obtains d t' h' where "im_rehash_hashtable (Suc n) (Ptr a []) h = Some (0, Ptr d [], h')"
    "cells h' = (cells h)(a := None, d \<mapsto> HashObj t' (filter (\<lambda>(off, _). off < attached_offset t) att))"
    "cells h d = None" "heap_ok h'" "oom h' = oom h"
    "ht_inv t'" "ht_map t' = ht_map t" "inuse t' = inuse t" "number_of_buckets t' div 2 < empty t' - 1"
    "attached_offset t' = attached_offset t"
proof -
  obtain N where N: "bsearch_number_of_buckets (int32 (2 * int (inuse t))) = Some N" "is_prime N" "3 \<le> N"
      "N \<le> 999983" "N div 2 + inuse t + 1 < N" using rehash_capacity [OF small] by metis
  let ?h1 = "h\<lparr>cells := (cells h)(brk h \<mapsto> HashObj (fresh_table N) []), brk := Suc (brk h)\<rparr>"
  have init: "im_initialize_hashtable (int32 (2 * int (inuse t))) h = Some (Some (Ptr (brk h) []), ?h1)"
    using N mem by (simp add: im_initialize_hashtable_def alloc_def)
  let ?att = "filter (\<lambda>(off, _). off < attached_offset t) att"
  let ?u = "(fresh_table N)\<lparr>attached_size := attached_offset t, attached_offset := attached_offset t\<rparr>"
  have "cells ?h1 (brk h) = Some (HashObj (fresh_table N) [])" "brk ?h1 = Suc (brk h)" "heap_ok ?h1" "\<forall>i. \<not> oom ?h1 i"
    using ok mem by (auto simp: heap_ok_def less_Suc_eq)
  from rehash_prepare_ok [OF this] obtain d h2 where
    prep: "rehash_prepare (Ptr (brk h) []) t att ?h1 = Some (Some (Ptr d []), h2)" "brk h \<le> d" "d < brk h2"
      "cells h2 = (cells ?h1)(brk h := None, d \<mapsto> HashObj ?u ?att)" "heap_ok h2" "oom h2 = oom ?h1" by metis
  have d: "cells h d = None" using heap_ok_fresh [OF ok prep(2)] .
  have ad: "a \<noteq> d" using d ld by auto
  have cells2: "cells h2 = (cells h)(d \<mapsto> HashObj ?u ?att)"
    using prep(4) heap_ok_fresh [OF ok, of "brk h"] by (auto simp: fun_eq_iff)
  have "cells h2 a = Some (HashObj t att)" "cells h2 d = Some (HashObj ?u ?att)" using cells2 ad ld by auto
  from rehash_loop_ok [OF c ad this] ht_inv_fresh [OF N(2-4)] N(5) obtain r u where
    loop: "foldM (\<lambda>i (r, q, h).
        if r < 0 then Some (r, q, h)
        else case load_hash h (Ptr a []) of None \<Rightarrow> None | Some (t, _) \<Rightarrow>
          if length (buckets t) \<le> i then None
          else if vacant (bucket_value (buckets t ! i)) then Some (0, q, h)
          else im_insert_element (Suc n) q (buckets t ! i) h) [0..<number_of_buckets t] (0, Ptr d [], h2) =
      Some (r, Ptr d [], h2\<lparr>cells := (cells h2)(d \<mapsto> HashObj u ?att)\<rparr>)" "0 \<le> r"
    and u: "ht_inv u" "ht_map u = ht_map t" "inuse u = inuse t" "number_of_buckets u div 2 < empty u - 1"
      "attached_offset u = attached_offset ?u" by (auto simp: ht_inv_attached)
  let ?h3 = "h2\<lparr>cells := (cells h)(a := None, d \<mapsto> HashObj u ?att)\<rparr>"
  have "im_rehash_hashtable (Suc n) (Ptr a []) h = Some (0, Ptr d [], ?h3)"
    using ld init prep(1) loop ad cells2 by (simp add: im_rehash_hashtable.simps fun_upd_twist)
  moreover have "heap_ok ?h3" using prep(3,5) cells2 by (auto simp: heap_ok_def split: if_splits)
  ultimately show ?thesis using u d prep(6) by (intro that [of d ?h3 u]) auto
qed

section \<open>Insertion\<close>

lemma insert_check:
  assumes ld: "cells h a = Some (HashObj t att)" and inv: "ht_inv t" and b: "live b"
  shows "im_insert_element (Suc n) (Ptr a []) b h =
    (case (if empty t - 1 \<le> number_of_buckets t div 2 then im_rehash_hashtable n (Ptr a []) h else Some (0, Ptr a [], h)) of
       None \<Rightarrow> None | Some (r, p, h) \<Rightarrow> if r < 0 then Some (-1, p, h) else insert_slot p b h)"
  using ld b u32_dec_empty [OF inv] by (simp add: im_insert_element.simps live_def)

text \<open>
  After the check there is a table with the same map and a bucket to spare, at the old or at a
  fresh address.
\<close>

lemma map_of_filter_less: "off < m \<Longrightarrow> map_of (filter (\<lambda>(off, _). off < m) att) off = map_of att off"
  by (induction att) auto

lemma insert_room:
  assumes ld: "cells h a = Some (HashObj t att)" and inv: "ht_inv t" and ok: "heap_ok h"
    and mem: "\<forall>i. \<not> oom h i" and small: "inuse t \<le> 499990" and b: "live b"
  obtains d t' att' h' where
    "im_insert_element (Suc (Suc n)) (Ptr a []) b h = insert_slot (Ptr d []) b h'"
    "cells h' = (cells h)(a := None, d \<mapsto> HashObj t' att')" "d = a \<or> cells h d = None" "heap_ok h'" "oom h' = oom h"
    "ht_inv t'" "ht_map t' = ht_map t" "inuse t' = inuse t" "number_of_buckets t' div 2 < empty t' - 1"
    "attached_offset t' = attached_offset t" "\<And>off. off < attached_offset t \<Longrightarrow> map_of att' off = map_of att off"
proof (cases "empty t - 1 \<le> number_of_buckets t div 2")
  case False
  have "cells h = (cells h)(a := None, a \<mapsto> HashObj t att)" using ld by (simp add: fun_upd_idem)
  with False show ?thesis
    using insert_check [OF ld inv b, of "Suc n"] ok inv by (intro that [of a h t att]) auto
next
  case True
  have c: "ht_core t" using inv by (simp add: ht_inv_def)
  obtain d t' h' where R: "im_rehash_hashtable (Suc n) (Ptr a []) h = Some (0, Ptr d [], h')"
    "cells h' = (cells h)(a := None, d \<mapsto> HashObj t' (filter (\<lambda>(off, _). off < attached_offset t) att))"
    "cells h d = None" "heap_ok h'" "oom h' = oom h"
    "ht_inv t'" "ht_map t' = ht_map t" "inuse t' = inuse t" "number_of_buckets t' div 2 < empty t' - 1"
    "attached_offset t' = attached_offset t"
    by (rule rehash_ok [OF c ld ok mem small, of n])
  have "im_insert_element (Suc (Suc n)) (Ptr a []) b h = insert_slot (Ptr d []) b h'"
    using insert_check [OF ld inv b, of "Suc n"] True R(1) by simp
  from that [OF this R(2) _ R(4-10)] R(3) show ?thesis by (simp add: map_of_filter_less)
qed

lemma insert_absent:
  assumes ld: "cells h a = Some (HashObj t att)" and inv: "ht_inv t" and ok: "heap_ok h"
    and mem: "\<forall>i. \<not> oom h i" and small: "inuse t \<le> 499990" and b: "live b"
    and absent: "ht_map t (ckey (bucket_key b)) = None"
  obtains d t' att' h' pos where
    "im_insert_element (Suc (Suc n)) (Ptr a []) b h = Some (int pos, Ptr d [], h')"
    "cells h' = (cells h)(a := None, d \<mapsto> HashObj t' att')" "d = a \<or> cells h d = None" "heap_ok h'" "oom h' = oom h"
    "ht_inv t'" "ht_map t' = (ht_map t)(ckey (bucket_key b) \<mapsto> b)" "inuse t' = Suc (inuse t)"
    "attached_offset t' = attached_offset t" "\<And>off. off < attached_offset t \<Longrightarrow> map_of att' off = map_of att off"
proof -
  obtain d u att' h' where R:
    "im_insert_element (Suc (Suc n)) (Ptr a []) b h = insert_slot (Ptr d []) b h'"
    "cells h' = (cells h)(a := None, d \<mapsto> HashObj u att')" "d = a \<or> cells h d = None" "heap_ok h'" "oom h' = oom h"
    "ht_inv u" "ht_map u = ht_map t" "inuse u = inuse t" "number_of_buckets u div 2 < empty u - 1"
    "attached_offset u = attached_offset t" "\<And>off. off < attached_offset t \<Longrightarrow> map_of att' off = map_of att off"
    by (rule insert_room [OF ld inv ok mem small b, of n]) blast
  have ld': "load_hash h' (Ptr d []) = Some (u, att')" using R(2) by simp
  have absent': "ht_map u (ckey (bucket_key b)) = None" using R(7) absent by simp
  obtain pos h'' where S: "insert_slot (Ptr d []) b h' = Some (int pos, Ptr d [], h'')"
    "im_find_element u (bucket_key b) = Some pos"
    "store (Ptr d []) (HashObj (ht_put u b pos) att') h' = Some h''"
    "ht_inv (ht_put u b pos)" "ht_map (ht_put u b pos) = (ht_map u)(ckey (bucket_key b) \<mapsto> b)"
    "inuse (ht_put u b pos) = inuse u + 1" "empty u - 1 \<le> empty (ht_put u b pos)"
    by (rule insert_slot_absent [OF ld' R(6,9) b absent'])
  have h'': "h'' = h'\<lparr>cells := (cells h)(a := None, d \<mapsto> HashObj (ht_put u b pos) att')\<rparr>"
    using S(3) R(2) by (simp add: fun_upd_twist)
  have "heap_ok h''" using R(4) unfolding h'' heap_ok_def R(2) by (auto split: if_splits)
  then show ?thesis using R(1,3,5,7,8,10,11) S h'' by (intro that [of pos d h'' "ht_put u b pos" att']) auto
qed

lemma insert_present:
  assumes ld: "cells h a = Some (HashObj t att)" and inv: "ht_inv t" and ok: "heap_ok h"
    and mem: "\<forall>i. \<not> oom h i" and small: "inuse t \<le> 499990" and b: "live b"
    and present: "ht_map t (ckey (bucket_key b)) \<noteq> None"
  obtains d t' att' h' where
    "im_insert_element (Suc (Suc n)) (Ptr a []) b h = Some (-1, Ptr d [], h')"
    "cells h' = (cells h)(a := None, d \<mapsto> HashObj t' att')" "d = a \<or> cells h d = None" "heap_ok h'" "oom h' = oom h"
    "ht_inv t'" "ht_map t' = ht_map t" "inuse t' = inuse t"
proof -
  obtain d u att' h' where R:
    "im_insert_element (Suc (Suc n)) (Ptr a []) b h = insert_slot (Ptr d []) b h'"
    "cells h' = (cells h)(a := None, d \<mapsto> HashObj u att')" "d = a \<or> cells h d = None" "heap_ok h'" "oom h' = oom h"
    "ht_inv u" "ht_map u = ht_map t" "inuse u = inuse t"
    using insert_room [OF ld inv ok mem small b] by metis
  have "load_hash h' (Ptr d []) = Some (u, att')" using R(2) by simp
  from insert_slot_present [OF this R(6)] R(7) present
  have "insert_slot (Ptr d []) b h' = Some (-1, Ptr d [], h')" by simp
  with R(1) have "im_insert_element (Suc (Suc n)) (Ptr a []) b h = Some (-1, Ptr d [], h')" by simp
  then show ?thesis using that R(2-8) by blast
qed

text \<open>When the first allocation of a rehash fails, the insertion fails and memory is as before.\<close>

lemma insert_oom:
  assumes ld: "cells h a = Some (HashObj t att)" and inv: "ht_inv t" and b: "live b"
    and full: "empty t - 1 \<le> number_of_buckets t div 2" and small: "inuse t \<le> 499990" and oom: "oom h (brk h)"
  shows "im_insert_element (Suc n) (Ptr a []) b h = Some (-1, Ptr a [], h\<lparr>brk := Suc (brk h)\<rparr>)"
proof -
  obtain N where "bsearch_number_of_buckets (int32 (2 * int (inuse t))) = Some N"
    using rehash_capacity [OF small] by metis
  then show ?thesis
    using insert_check [OF ld inv b, of n] full ld oom
    by (simp add: im_rehash_hashtable.simps im_initialize_hashtable_def alloc_def)
qed

end
