(* ===== verification/Im_Destroy.thy ===== *)
theory Im_Destroy
  imports Im_Hashtable_Correct
begin

text \<open>
  Memory safety of freeing. The footprint of a table is the list of the allocations that belong
  to it: the strings and blocks its buckets point to and, recursively, the tables and vectors nested
  in it. It is read off the memory as it is before anything is freed.

  If the footprint exists and lists no address twice (no two buckets share an object), then
  freeing the table, with all its reads of the memory in between, frees exactly the footprint: no
  double free, no use after free, no leak, and nothing else is touched. The fuel is the depth of the nesting;
  the footprint is defined with the same fuel, so a table whose footprint exists at depth \<open>n\<close> has
  enough fuel with \<open>n\<close>.
\<close>

section \<open>Footprints\<close>

fun collectM :: "('a \<Rightarrow> 'b list option) \<Rightarrow> 'a list \<Rightarrow> 'b list option" where
  "collectM f [] = Some []"
| "collectM f (x # xs) =
     (case f x of None \<Rightarrow> None | Some ys \<Rightarrow> (case collectM f xs of None \<Rightarrow> None | Some zs \<Rightarrow> Some (ys @ zs)))"

lemma collectM_cong [fundef_cong]:
  "xs = ys \<Longrightarrow> (\<And>x. x \<in> set ys \<Longrightarrow> f x = g x) \<Longrightarrow> collectM f xs = collectM g ys"
  by (induction xs arbitrary: ys) (auto split: option.splits)

fun block_fp :: "heap \<Rightarrow> ptr \<Rightarrow> addr list option" where
  "block_fp h (Ptr a []) = (if cells h a = None then None else Some [a])"
| "block_fp h (Ptr a (_ # _)) = None"

text \<open>A nested object's footprint ends with its own address: the order the code frees in.\<close>

function (sequential) value_fp :: "nat \<Rightarrow> heap \<Rightarrow> ptr \<Rightarrow> im_value \<Rightarrow> addr list option"
  and hash_fp :: "nat \<Rightarrow> heap \<Rightarrow> ptr \<Rightarrow> addr list option"
  and vector_fp :: "nat \<Rightarrow> heap \<Rightarrow> ptr \<Rightarrow> addr list option"
where
  "value_fp 0 h p v = None"
| "value_fp (Suc n) h p v =
     (case v of
        IM_EXTERNAL_STRING _ q \<Rightarrow> block_fp h q
      | IM_EXTERNAL_BLOCK _ q \<Rightarrow> block_fp h q
      | IM_EXTERNAL_NESTED _ q \<Rightarrow>
          (case hash_fp n h q of None \<Rightarrow> None | Some as \<Rightarrow> map_option (\<lambda>bs. as @ bs) (block_fp h q))
      | IM_EXTERNAL_VECTOR _ q \<Rightarrow>
          (case vector_fp n h q of None \<Rightarrow> None | Some as \<Rightarrow> map_option (\<lambda>bs. as @ bs) (block_fp h q))
      | IM_ATTACHED_NESTED _ off \<Rightarrow> hash_fp n h (inside p off)
      | IM_ATTACHED_VECTOR _ off \<Rightarrow> vector_fp n h (inside p off)
      | _ \<Rightarrow> Some [])"
| "hash_fp n h p =
     (case load_hash h p of None \<Rightarrow> None | Some (t, _) \<Rightarrow>
      if length (buckets t) < number_of_buckets t then None
      else collectM (\<lambda>i. value_fp n h p (bucket_value (buckets t ! i))) [0..<number_of_buckets t])"
| "vector_fp n h p =
     (case load_vector h p of None \<Rightarrow> None | Some (v, _) \<Rightarrow>
      if length (v_buckets v) < v_inuse v then None
      else collectM (\<lambda>i. value_fp n h p (v_bucket_value (v_buckets v ! i))) [0..<v_inuse v])"
  by pat_completeness auto
termination
  by (relation "measure (\<lambda>x. case x of Inl (n, _) \<Rightarrow> 2 * n | Inr (Inl (n, _)) \<Rightarrow> 2 * n + 1
      | Inr (Inr (n, _)) \<Rightarrow> 2 * n + 1)") auto

declare value_fp.simps [simp del] hash_fp.simps [simp del] vector_fp.simps [simp del]

definition release :: "addr list \<Rightarrow> heap \<Rightarrow> heap" where
  "release as h = h\<lparr>cells := (\<lambda>a. if a \<in> set as then None else cells h a)\<rparr>"

text \<open>Two memories with the same contents at the addresses of \<open>A\<close>.\<close>

definition same_on :: "addr set \<Rightarrow> heap \<Rightarrow> heap \<Rightarrow> bool" where
  "same_on A h h' \<longleftrightarrow> (\<forall>a \<in> A. cells h' a = cells h a)"

section \<open>Frame lemmas\<close>

lemma release_sel [simp]:
  "cells (release as h) a = (if a \<in> set as then None else cells h a)"
  "brk (release as h) = brk h" "oom (release as h) = oom h"
  by (simp_all add: release_def)

lemma release_Nil [simp]: "release [] h = h"
  by (simp add: release_def)

lemma release_append: "release (as @ bs) h = release bs (release as h)"
  by (simp add: release_def fun_eq_iff)

lemma same_on_Un [simp]: "same_on (A \<union> B) h h' = (same_on A h h' \<and> same_on B h h')"
  by (auto simp: same_on_def)

lemma same_on_insert [simp]: "same_on (insert a A) h h' = (cells h' a = cells h a \<and> same_on A h h')"
  by (auto simp: same_on_def)

lemma same_on_empty [simp]: "same_on {} h h'"
  by (simp add: same_on_def)

lemma same_on_release: "same_on A h h' \<Longrightarrow> A \<inter> set as = {} \<Longrightarrow> same_on A h (release as h')"
  by (auto simp: same_on_def)


lemma same_load_hash: "cells h' (root p) = cells h (root p) \<Longrightarrow> load_hash h' p = load_hash h p"
  using load_cong [of h' p h] by (simp add: load_hash_def)

lemma same_load_vector: "cells h' (root p) = cells h (root p) \<Longrightarrow> load_vector h' p = load_vector h p"
  using load_cong [of h' p h] by (simp add: load_vector_def)

lemma collectM_all: "collectM f xs = Some as \<Longrightarrow> x \<in> set xs \<Longrightarrow> \<exists>ys. f x = Some ys \<and> set ys \<subseteq> set as"
  by (induction xs arbitrary: as) (fastforce split: option.splits)+

lemma collectM_eqI:
  "collectM f xs = Some as \<Longrightarrow> (\<And>x ys. x \<in> set xs \<Longrightarrow> f x = Some ys \<Longrightarrow> set ys \<subseteq> set as \<Longrightarrow> g x = Some ys) \<Longrightarrow>
     collectM g xs = Some as"
proof (induction xs arbitrary: as)
  case (Cons x xs)
  then obtain ys zs where y: "f x = Some ys" "collectM f xs = Some zs" "as = ys @ zs"
    by (auto split: option.splits)
  moreover have "g x = Some ys" using Cons.prems(2) y by simp
  moreover have "collectM g xs = Some zs" using Cons.IH [OF y(2)] Cons.prems(2) y(3) by simp (metis le_supI2)
  ultimately show ?case by simp
qed simp

lemma block_fp_iff: "block_fp h q = Some as \<longleftrightarrow> (\<exists>a. q = Ptr a [] \<and> cells h a \<noteq> None \<and> as = [a])"
  by (cases "(h, q)" rule: block_fp.cases) auto

lemma block_fp_same: "block_fp h q = Some as \<Longrightarrow> same_on (set as) h h' \<Longrightarrow> block_fp h' q = Some as"
  by (auto simp: block_fp_iff same_on_def)

text \<open>A footprint depends on the memory it names and on the object it starts from only.\<close>

lemma fp_same:
  shows "value_fp n h p v = Some as \<Longrightarrow> same_on (insert (root p) (set as)) h h' \<Longrightarrow> value_fp n h' p v = Some as"
    and "hash_fp n h p = Some as \<Longrightarrow> same_on (insert (root p) (set as)) h h' \<Longrightarrow> hash_fp n h' p = Some as"
    and "vector_fp n h p = Some as \<Longrightarrow> same_on (insert (root p) (set as)) h h' \<Longrightarrow> vector_fp n h' p = Some as"
proof (induction n h p v and n h p and n h p arbitrary: as and as and as rule: value_fp_hash_fp_vector_fp.induct)
  case (2 n h p v)
  then show ?case
    by (cases v) (auto simp: value_fp.simps block_fp_iff split: option.splits)
next
  case (3 n h p)
  then obtain t att where t: "load_hash h p = Some (t, att)" "number_of_buckets t \<le> length (buckets t)"
    "collectM (\<lambda>i. value_fp n h p (bucket_value (buckets t ! i))) [0..<number_of_buckets t] = Some as"
    by (auto simp: hash_fp.simps split: option.splits if_splits)
  have "collectM (\<lambda>i. value_fp n h' p (bucket_value (buckets t ! i))) [0..<number_of_buckets t] = Some as"
    using t 3(3) by (intro collectM_eqI [OF t(3)] 3(1) [OF t(1) refl]) (auto simp: same_on_def)
  with t 3(3) show ?case by (simp add: hash_fp.simps same_load_hash [of h' p h])
next
  case (4 n h p)
  then obtain t att where t: "load_vector h p = Some (t, att)" "v_inuse t \<le> length (v_buckets t)"
    "collectM (\<lambda>i. value_fp n h p (v_bucket_value (v_buckets t ! i))) [0..<v_inuse t] = Some as"
    by (auto simp: vector_fp.simps split: option.splits if_splits)
  have "collectM (\<lambda>i. value_fp n h' p (v_bucket_value (v_buckets t ! i))) [0..<v_inuse t] = Some as"
    using t 4(3) by (intro collectM_eqI [OF t(3)] 4(1) [OF t(1) refl]) (auto simp: same_on_def)
  with t 4(3) show ?case by (simp add: vector_fp.simps same_load_vector [of h' p h])
qed (simp add: value_fp.simps)

section \<open>Freeing frees the footprint\<close>

lemma free_block:
  "block_fp h q = Some as \<Longrightarrow> free q h = Some (release as h)"
  by (auto simp: block_fp_iff release_def fun_eq_iff intro!: heap.equality)

text \<open>A loop that frees the parts of a footprint one after the other, its owner at \<open>a\<close> untouched.\<close>

lemma foldM_release:
  assumes "collectM g xs = Some as" "distinct as" "a \<notin> set as" "same_on (insert a (set as)) h0 h"
    and step: "\<And>x ys h. x \<in> set xs \<Longrightarrow> g x = Some ys \<Longrightarrow> distinct ys \<Longrightarrow> a \<notin> set ys \<Longrightarrow>
      same_on (insert a (set ys)) h0 h \<Longrightarrow> f x h = Some (release ys h)"
  shows "foldM f xs h = Some (release as h)"
  using assms
proof (induction xs arbitrary: as h)
  case (Cons x xs)
  then obtain ys zs where y: "g x = Some ys" "collectM g xs = Some zs" "as = ys @ zs"
    by (auto split: option.splits)
  have "f x h = Some (release ys h)" using Cons.prems y by (intro Cons.prems(5)) auto
  moreover have "foldM f xs (release ys h) = Some (release zs (release ys h))"
  proof (rule Cons.IH [OF y(2)])
    have "insert a (set zs) \<inter> set ys = {}" using Cons.prems(2,3) y(3) by auto
    then show "same_on (insert a (set zs)) h0 (release ys h)"
      using Cons.prems(4) y(3) by (intro same_on_release) auto
  qed (use Cons.prems y in auto)
  ultimately show ?case using y(3) by (simp add: release_append)
qed simp

lemma destroy_nested:
  assumes "distinct (as @ bs)" "block_fp h q = Some bs"
    and "\<And>h'. same_on (set as \<union> set bs) h h' \<Longrightarrow> root q \<notin> set as \<Longrightarrow> d h' = Some (release as h')"
    and "same_on (set as \<union> set bs) h h'"
  shows "(case d h' of None \<Rightarrow> None | Some h \<Rightarrow> free q h) = Some (release (as @ bs) h')"
proof -
  obtain a where q: "q = Ptr a []" "bs = [a]" using assms(2) by (auto simp: block_fp_iff)
  then have "d h' = Some (release as h')" using assms by auto
  moreover have "block_fp h' q = Some bs" using block_fp_same [OF assms(2)] assms(4) by simp
  then have "block_fp (release as h') q = Some bs" using q assms(1) by (simp add: block_fp_iff)
  ultimately show ?thesis by (simp add: free_block release_append)
qed

lemma destroy_external:
  "im_destroy_hashtable_with_info n p True h =
     (case im_destroy_hashtable_with_info n p False h of None \<Rightarrow> None | Some h \<Rightarrow> free p h)"
  "im_destroy_vector_with_info n p True h =
     (case im_destroy_vector_with_info n p False h of None \<Rightarrow> None | Some h \<Rightarrow> free p h)"
  by (simp_all add: im_destroy_hashtable_with_info.simps im_destroy_vector_with_info.simps
      split: option.splits)

text \<open>What the two functions that free a bucket promise at fuel \<open>n\<close>.\<close>

definition frees_buckets :: "nat \<Rightarrow> bool" where
  "frees_buckets n \<longleftrightarrow>
     (\<forall>h0 h p t att i as. load_hash h0 p = Some (t, att) \<longrightarrow> i < length (buckets t) \<longrightarrow>
        value_fp n h0 p (bucket_value (buckets t ! i)) = Some as \<longrightarrow> distinct as \<longrightarrow> root p \<notin> set as \<longrightarrow>
        same_on (insert (root p) (set as)) h0 h \<longrightarrow> free_bucket n p i h = Some (release as h)) \<and>
     (\<forall>h0 h p t att i as. load_vector h0 p = Some (t, att) \<longrightarrow> i < length (v_buckets t) \<longrightarrow>
        value_fp n h0 p (v_bucket_value (v_buckets t ! i)) = Some as \<longrightarrow> distinct as \<longrightarrow> root p \<notin> set as \<longrightarrow>
        same_on (insert (root p) (set as)) h0 h \<longrightarrow> v_free_bucket n p i h = Some (release as h))"

lemmas frees_bucketsD = frees_buckets_def [THEN iffD1, THEN conjunct1, rule_format]
lemmas frees_bucketsD_v = frees_buckets_def [THEN iffD1, THEN conjunct2, rule_format]

lemma destroy_hash_release:
  assumes F: "frees_buckets n" and fp: "hash_fp n h0 p = Some as" and d: "distinct as" "root p \<notin> set as"
    and s: "same_on (insert (root p) (set as)) h0 h"
  shows "im_destroy_hashtable_with_info n p False h = Some (release as h)"
proof -
  obtain t att where t: "load_hash h0 p = Some (t, att)" "number_of_buckets t \<le> length (buckets t)"
    "collectM (\<lambda>i. value_fp n h0 p (bucket_value (buckets t ! i))) [0..<number_of_buckets t] = Some as"
    using fp by (auto simp: hash_fp.simps split: option.splits if_splits)
  have "foldM (\<lambda>i h. free_bucket n p i h) [0..<number_of_buckets t] h = Some (release as h)"
  proof (rule foldM_release [OF t(3) d s])
    fix i ys h assume "i \<in> set [0..<number_of_buckets t]" "value_fp n h0 p (bucket_value (buckets t ! i)) = Some ys"
      "distinct ys" "root p \<notin> set ys" "same_on (insert (root p) (set ys)) h0 h"
    with t(2) show "free_bucket n p i h = Some (release ys h)" by (intro frees_bucketsD [OF F t(1)]) auto
  qed
  moreover have "load_hash h p = Some (t, att)" using s t(1) same_load_hash [of h p h0] by simp
  ultimately show ?thesis by (simp add: im_destroy_hashtable_with_info.simps)
qed

lemma destroy_vector_release:
  assumes F: "frees_buckets n" and fp: "vector_fp n h0 p = Some as" and d: "distinct as" "root p \<notin> set as"
    and s: "same_on (insert (root p) (set as)) h0 h"
  shows "im_destroy_vector_with_info n p False h = Some (release as h)"
proof -
  obtain t att where t: "load_vector h0 p = Some (t, att)" "v_inuse t \<le> length (v_buckets t)"
    "collectM (\<lambda>i. value_fp n h0 p (v_bucket_value (v_buckets t ! i))) [0..<v_inuse t] = Some as"
    using fp by (auto simp: vector_fp.simps split: option.splits if_splits)
  have "foldM (\<lambda>i h. v_free_bucket n p i h) [0..<v_inuse t] h = Some (release as h)"
  proof (rule foldM_release [OF t(3) d s])
    fix i ys h assume "i \<in> set [0..<v_inuse t]" "value_fp n h0 p (v_bucket_value (v_buckets t ! i)) = Some ys"
      "distinct ys" "root p \<notin> set ys" "same_on (insert (root p) (set ys)) h0 h"
    with t(2) show "v_free_bucket n p i h = Some (release ys h)" by (intro frees_bucketsD_v [OF F t(1)]) auto
  qed
  moreover have "load_vector h p = Some (t, att)" using s t(1) same_load_vector [of h p h0] by simp
  ultimately show ?thesis by (simp add: im_destroy_vector_with_info.simps)
qed

text \<open>The part both share: what the bucket's value asks to be freed.\<close>

definition free_value :: "nat \<Rightarrow> ptr \<Rightarrow> im_value \<Rightarrow> heap \<Rightarrow> heap option" where
  "free_value n p v h = (case v of
      IM_EXTERNAL_STRING _ q \<Rightarrow> free q h
    | IM_EXTERNAL_BLOCK _ q \<Rightarrow> free q h
    | IM_EXTERNAL_NESTED _ q \<Rightarrow> im_destroy_hashtable_with_info n q True h
    | IM_EXTERNAL_VECTOR _ q \<Rightarrow> im_destroy_vector_with_info n q True h
    | IM_ATTACHED_NESTED _ off \<Rightarrow> im_destroy_hashtable_with_info n (inside p off) False h
    | IM_ATTACHED_VECTOR _ off \<Rightarrow> im_destroy_vector_with_info n (inside p off) False h
    | _ \<Rightarrow> Some h)"

lemma free_value_release:
  assumes F: "frees_buckets n" and fp: "value_fp (Suc n) h0 p v = Some as" and d: "distinct as" "root p \<notin> set as"
    and s: "same_on (insert (root p) (set as)) h0 h"
  shows "free_value n p v h = Some (release as h)"
proof (cases v)
  case (IM_EXTERNAL_NESTED l q)
  with fp obtain bs cs where f: "hash_fp n h0 q = Some bs" "block_fp h0 q = Some cs" "as = bs @ cs"
    by (auto simp: value_fp.simps split: option.splits)
  from f(2) obtain a where q: "q = Ptr a []" "cs = [a]" by (auto simp: block_fp_iff)
  show ?thesis unfolding f(3) IM_EXTERNAL_NESTED free_value_def im_value.case destroy_external
    using d [unfolded f(3)] s [unfolded f(3)] f(2)
    by (intro destroy_nested [where h = h0]) (auto simp: q intro!: destroy_hash_release [OF F f(1) [unfolded q(1)]])
next
  case (IM_EXTERNAL_VECTOR l q)
  with fp obtain bs cs where f: "vector_fp n h0 q = Some bs" "block_fp h0 q = Some cs" "as = bs @ cs"
    by (auto simp: value_fp.simps split: option.splits)
  from f(2) obtain a where q: "q = Ptr a []" "cs = [a]" by (auto simp: block_fp_iff)
  show ?thesis unfolding f(3) IM_EXTERNAL_VECTOR free_value_def im_value.case destroy_external
    using d [unfolded f(3)] s [unfolded f(3)] f(2)
    by (intro destroy_nested [where h = h0]) (auto simp: q intro!: destroy_vector_release [OF F f(1) [unfolded q(1)]])
next
  case (IM_ATTACHED_NESTED l off)
  with fp d s show ?thesis
    by (auto simp: free_value_def value_fp.simps intro!: destroy_hash_release [OF F])
next
  case (IM_ATTACHED_VECTOR l off)
  with fp d s show ?thesis
    by (auto simp: free_value_def value_fp.simps intro!: destroy_vector_release [OF F])
qed (use fp s in \<open>auto simp: free_value_def value_fp.simps intro!: free_block block_fp_same [of h0 _ _ h]\<close>)

lemma frees_buckets: "frees_buckets n"
proof (induction n)
  case 0
  show ?case by (simp add: frees_buckets_def value_fp.simps)
next
  case (Suc n)
  show ?case
    unfolding frees_buckets_def
  proof (intro conjI allI impI)
    fix h0 h p t att i as
    assume a: "load_hash h0 p = Some (t, att)" "i < length (buckets t)"
      "value_fp (Suc n) h0 p (bucket_value (buckets t ! i)) = Some as" "distinct as" "root p \<notin> set as"
      "same_on (insert (root p) (set as)) h0 h"
    then have "load_hash h p = Some (t, att)" using same_load_hash [of h p h0] by simp
    with a(2) have "free_bucket (Suc n) p i h = free_value n p (bucket_value (buckets t ! i)) h"
      by (simp add: free_bucket.simps free_value_def)
    with free_value_release [OF Suc a(3-)] show "free_bucket (Suc n) p i h = Some (release as h)" by simp
  next
    fix h0 h p t att i as
    assume a: "load_vector h0 p = Some (t, att)" "i < length (v_buckets t)"
      "value_fp (Suc n) h0 p (v_bucket_value (v_buckets t ! i)) = Some as" "distinct as" "root p \<notin> set as"
      "same_on (insert (root p) (set as)) h0 h"
    then have "load_vector h p = Some (t, att)" using same_load_vector [of h p h0] by simp
    with a(2) have "v_free_bucket (Suc n) p i h = free_value n p (v_bucket_value (v_buckets t ! i)) h"
      by (simp add: v_free_bucket.simps free_value_def)
    with free_value_release [OF Suc a(3-)] show "v_free_bucket (Suc n) p i h = Some (release as h)" by simp
  qed
qed

lemmas free_bucket_release = frees_bucketsD [OF frees_buckets]
lemmas v_free_bucket_release = frees_bucketsD_v [OF frees_buckets]

end
