(* ===== verification/Im_Owned.thy ===== *)
theory Im_Owned
  imports Im_Destroy
begin

text \<open>
  Dictionaries as the interface builds them: a table in memory with its invariant, whose buckets own
  what they point to and share nothing (\<open>dict_at\<close>). Deleting, inserting, destroying and emptying
  keep this, free exactly what the removed buckets owned, and act on \<open>ht_map\<close> as on a finite map.

  Values that live in the attached area of the table come from serialisation only; \<open>dict_at\<close>
  speaks of dictionaries without them.
\<close>

section \<open>Ownership\<close>

fun unattached :: "im_value \<Rightarrow> bool" where
  "unattached (IM_ATTACHED_STRING _ _) = False"
| "unattached (IM_ATTACHED_BLOCK _ _) = False"
| "unattached (IM_ATTACHED_NESTED _ _) = False"
| "unattached (IM_ATTACHED_VECTOR _ _) = False"
| "unattached _ = True"

definition val_fp :: "nat \<Rightarrow> heap \<Rightarrow> im_value \<Rightarrow> addr list option" where
  "val_fp n h v = (if unattached v then value_fp n h (Ptr 0 []) v else None)"

definition val_addrs :: "nat \<Rightarrow> heap \<Rightarrow> im_value \<Rightarrow> addr set" where
  "val_addrs n h v = (case val_fp n h v of None \<Rightarrow> {} | Some as \<Rightarrow> set as)"

text \<open>A value that may be stored in the table at \<open>a\<close>: its objects exist once and are not the table.\<close>

definition own_value :: "nat \<Rightarrow> heap \<Rightarrow> addr \<Rightarrow> im_value \<Rightarrow> bool" where
  "own_value n h a v = (case val_fp n h v of None \<Rightarrow> False | Some as \<Rightarrow> distinct as \<and> a \<notin> set as)"

definition owned :: "nat \<Rightarrow> heap \<Rightarrow> addr \<Rightarrow> (string \<rightharpoonup> im_hash_bucket) \<Rightarrow> bool" where
  "owned n h a m \<longleftrightarrow>
     (\<forall>k b. m k = Some b \<longrightarrow> own_value n h a (bucket_value b)) \<and>
     (\<forall>k b k' b'. m k = Some b \<longrightarrow> m k' = Some b' \<longrightarrow> k \<noteq> k' \<longrightarrow>
        val_addrs n h (bucket_value b) \<inter> val_addrs n h (bucket_value b') = {})"

definition map_addrs :: "nat \<Rightarrow> heap \<Rightarrow> (string \<rightharpoonup> im_hash_bucket) \<Rightarrow> addr set" where
  "map_addrs n h m = (\<Union>b \<in> ran m. val_addrs n h (bucket_value b))"

text \<open>The memory without the table at \<open>a\<close> and what it owns.\<close>

definition rest_of :: "nat \<Rightarrow> heap \<Rightarrow> addr \<Rightarrow> (string \<rightharpoonup> im_hash_bucket) \<Rightarrow> addr \<Rightarrow> obj option" where
  "rest_of n h a m = (\<lambda>x. if x = a \<or> x \<in> map_addrs n h m then None else cells h x)"

definition dict_at :: "nat \<Rightarrow> heap \<Rightarrow> addr \<Rightarrow> im_hashtable \<Rightarrow> bool" where
  "dict_at n h a t \<longleftrightarrow>
     (\<exists>att. cells h a = Some (HashObj t att)) \<and> ht_inv t \<and> heap_ok h \<and> owned n h a (ht_map t)"

section \<open>Footprints of unattached values\<close>

lemma value_fp_host: "unattached v \<Longrightarrow> value_fp n h p v = value_fp n h q v"
  by (cases n; cases v) (simp_all add: value_fp.simps)

lemma val_fp_same:
  assumes "val_fp n h v = Some as" "same_on (set as) h h'"
  shows "val_fp n h' v = Some as"
proof -
  from assms(1) have v: "unattached v" "value_fp n h (Ptr 0 []) v = Some as"
    by (auto simp: val_fp_def split: if_splits)
  obtain m where n: "n = Suc m" using v(2) by (cases n) (auto simp: value_fp.simps)
  have "value_fp n h' (Ptr 0 []) v = Some as"
  proof (cases v)
    case (IM_EXTERNAL_NESTED l q)
    then obtain bs a where f: "hash_fp m h (Ptr a []) = Some bs" "q = Ptr a []" "cells h a \<noteq> None" "as = bs @ [a]"
      using v(2) n by (auto simp: value_fp.simps block_fp_iff split: option.splits)
    then have "hash_fp m h' (Ptr a []) = Some bs" using assms(2) by (intro fp_same(2) [OF f(1)]) auto
    with IM_EXTERNAL_NESTED n f assms(2) show ?thesis by (simp add: value_fp.simps)
  next
    case (IM_EXTERNAL_VECTOR l q)
    then obtain bs a where f: "vector_fp m h (Ptr a []) = Some bs" "q = Ptr a []" "cells h a \<noteq> None" "as = bs @ [a]"
      using v(2) n by (auto simp: value_fp.simps block_fp_iff split: option.splits)
    then have "vector_fp m h' (Ptr a []) = Some bs" using assms(2) by (intro fp_same(3) [OF f(1)]) auto
    with IM_EXTERNAL_VECTOR n f assms(2) show ?thesis by (simp add: value_fp.simps)
  qed (use v n assms(2) in \<open>auto simp: value_fp.simps intro: block_fp_same\<close>)
  with v(1) show ?thesis by (simp add: val_fp_def)
qed

lemma own_value_val_fp: "own_value n h a v \<Longrightarrow> \<exists>as. val_fp n h v = Some as \<and> val_addrs n h v = set as \<and> distinct as \<and> a \<notin> set as"
  by (auto simp: own_value_def val_addrs_def split: option.splits)

lemma val_addrs_same:
  "val_fp n h v = Some as \<Longrightarrow> same_on (set as) h h' \<Longrightarrow> val_addrs n h' v = val_addrs n h v"
  using val_fp_same [of n h v as h'] by (simp add: val_addrs_def)

text \<open>What a footprint names is allocated.\<close>

lemma collectM_subset:
  "collectM f xs = Some as \<Longrightarrow> (\<And>x ys. x \<in> set xs \<Longrightarrow> f x = Some ys \<Longrightarrow> set ys \<subseteq> A) \<Longrightarrow> set as \<subseteq> A"
proof (induction xs arbitrary: as)
  case (Cons x xs)
  then obtain ys zs where y: "f x = Some ys" "collectM f xs = Some zs" "as = ys @ zs"
    by (auto split: option.splits)
  have "set ys \<subseteq> A" using Cons.prems(2) [of x ys] y(1) by simp
  moreover have "set zs \<subseteq> A" using Cons.prems(2) by (intro Cons.IH [OF y(2)]) auto
  ultimately show ?case using y(3) by simp
qed simp

lemma fp_alloc:
  shows "value_fp n h p v = Some as \<Longrightarrow> set as \<subseteq> dom (cells h)"
    and "hash_fp n h p = Some as \<Longrightarrow> set as \<subseteq> dom (cells h)"
    and "vector_fp n h p = Some as \<Longrightarrow> set as \<subseteq> dom (cells h)"
proof (induction n h p v and n h p and n h p arbitrary: as and as and as rule: value_fp_hash_fp_vector_fp.induct)
  case (2 n h p v)
  show ?case
  proof (cases v)
    case (IM_EXTERNAL_NESTED l q)
    with 2(5) 2(1) [OF IM_EXTERNAL_NESTED] show ?thesis
      by (auto simp: value_fp.simps block_fp_iff simp del: domIff intro: domI split: option.splits)
  next
    case (IM_EXTERNAL_VECTOR l q)
    with 2(5) 2(2) [OF IM_EXTERNAL_VECTOR] show ?thesis
      by (auto simp: value_fp.simps block_fp_iff simp del: domIff intro: domI split: option.splits)
  qed (use 2 in \<open>auto simp: value_fp.simps block_fp_iff\<close>)
next
  case (3 n h p)
  then obtain t att where t: "load_hash h p = Some (t, att)" "number_of_buckets t \<le> length (buckets t)"
    "collectM (\<lambda>i. value_fp n h p (bucket_value (buckets t ! i))) [0..<number_of_buckets t] = Some as"
    by (auto simp: hash_fp.simps split: option.splits if_splits)
  show ?case using t(2) by (intro collectM_subset [OF t(3)] 3(1) [OF t(1) refl]) auto
next
  case (4 n h p)
  then obtain t att where t: "load_vector h p = Some (t, att)" "v_inuse t \<le> length (v_buckets t)"
    "collectM (\<lambda>i. value_fp n h p (v_bucket_value (v_buckets t ! i))) [0..<v_inuse t] = Some as"
    by (auto simp: vector_fp.simps split: option.splits if_splits)
  show ?case using t(2) by (intro collectM_subset [OF t(3)] 4(1) [OF t(1) refl]) auto
qed (simp add: value_fp.simps)

lemma val_addrs_alloc: "val_addrs n h v \<subseteq> dom (cells h)"
  by (auto simp: val_addrs_def val_fp_def dest: fp_alloc(1) split: option.splits if_splits)

lemma map_addrs_alloc: "map_addrs n h m \<subseteq> dom (cells h)"
  unfolding map_addrs_def using val_addrs_alloc by blast

lemma map_addrs_val: "m k = Some b \<Longrightarrow> val_addrs n h (bucket_value b) \<subseteq> map_addrs n h m"
  by (auto simp: map_addrs_def ran_def)

section \<open>Ownership under changes of the memory and of the map\<close>

lemma own_value_same:
  assumes "own_value n h a v" "same_on (val_addrs n h v) h h'" "a' \<notin> val_addrs n h v"
  shows "own_value n h' a' v" "val_addrs n h' v = val_addrs n h v"
proof -
  from assms(1) obtain as where as: "val_fp n h v = Some as" "val_addrs n h v = set as" "distinct as"
    by (auto dest: own_value_val_fp)
  then have "val_fp n h' v = Some as" using assms(2) val_fp_same [OF as(1)] by simp
  with as assms(3) show "own_value n h' a' v" "val_addrs n h' v = val_addrs n h v"
    by (auto simp: own_value_def val_addrs_def)
qed

lemma owned_same:
  assumes o: "owned n h a m" and s: "same_on (map_addrs n h m) h h'" and a': "a' \<notin> map_addrs n h m"
  shows "owned n h' a' m" "map_addrs n h' m = map_addrs n h m"
proof -
  have each: "own_value n h' a' (bucket_value b)" "val_addrs n h' (bucket_value b) = val_addrs n h (bucket_value b)"
    if "m k = Some b" for k b
  proof -
    have "own_value n h a (bucket_value b)" using o that by (auto simp: owned_def)
    moreover have "same_on (val_addrs n h (bucket_value b)) h h'" "a' \<notin> val_addrs n h (bucket_value b)"
      using s a' map_addrs_val [where m = m, OF that, of n h] by (auto simp: same_on_def)
    ultimately show "own_value n h' a' (bucket_value b)"
      "val_addrs n h' (bucket_value b) = val_addrs n h (bucket_value b)" by (fact own_value_same)+
  qed
  then show "owned n h' a' m" using o unfolding owned_def by simp
  show "map_addrs n h' m = map_addrs n h m" using each by (auto simp: map_addrs_def ran_def)
qed

lemma owned_delete: "owned n h a m \<Longrightarrow> owned n h a (m(k := None))"
  by (simp add: owned_def)

lemma owned_not_self: "owned n h a m \<Longrightarrow> a \<notin> map_addrs n h m"
proof
  assume "owned n h a m" "a \<in> map_addrs n h m"
  then obtain k b where "m k = Some b" "a \<in> val_addrs n h (bucket_value b)"
    by (auto simp: map_addrs_def ran_def)
  moreover from this have "own_value n h a (bucket_value b)" using \<open>owned n h a m\<close> by (simp add: owned_def)
  ultimately show False by (auto dest: own_value_val_fp)
qed

lemma owned_update:
  assumes "owned n h a m" "own_value n h a (bucket_value b)" "val_addrs n h (bucket_value b) \<inter> map_addrs n h m = {}"
  shows "owned n h a (m(k \<mapsto> b))"
proof -
  have d: "val_addrs n h (bucket_value b) \<inter> val_addrs n h (bucket_value b') = {}" if "m k' = Some b'" for k' b'
    using assms(3) map_addrs_val [where m = m, OF that, of n h] by blast
  with assms(1,2) show ?thesis unfolding owned_def by (simp add: Int_commute)
qed

lemma owned_disjoint:
  "owned n h a m \<Longrightarrow> m k = Some b \<Longrightarrow> m k' = Some b' \<Longrightarrow> k \<noteq> k' \<Longrightarrow>
     val_addrs n h (bucket_value b) \<inter> val_addrs n h (bucket_value b') = {}"
  unfolding owned_def by (drule conjunct2) (drule spec, drule spec, drule spec, drule spec, drule (1) mp, drule (1) mp, erule (1) mp)

lemma map_addrs_delete:
  assumes "owned n h a m" "m k = Some b"
  shows "map_addrs n h (m(k := None)) = map_addrs n h m - val_addrs n h (bucket_value b)"
proof -
  let ?S = "{b'. \<exists>k'. k' \<noteq> k \<and> m k' = Some b'}"
  have "\<forall>b' \<in> ?S. val_addrs n h (bucket_value b') \<inter> val_addrs n h (bucket_value b) = {}"
    using owned_disjoint [where m = m, OF assms(1) _ assms(2)] by blast
  moreover have "ran (m(k := None)) = ?S" by (auto simp: ran_def)
  moreover have "\<exists>k'. k' \<noteq> k \<and> m k' = Some x" if "m j = Some x" "x \<noteq> b" for j x
    using that assms(2) by (intro exI [of _ j]) auto
  then have "ran m = insert b ?S" using assms(2) by (auto simp: ran_def)
  ultimately show ?thesis unfolding map_addrs_def by auto
qed

section \<open>Deleting a bucket\<close>

lemma dict_atD:
  assumes "dict_at n h a t"
  obtains att where "cells h a = Some (HashObj t att)" "load_hash h (Ptr a []) = Some (t, att)" "ht_inv t" "ht_core t"
    "heap_ok h" "owned n h a (ht_map t)"
  using assms by (auto simp: dict_at_def ht_inv_def)

lemma free_bucket_owned:
  assumes D: "dict_at n h a t" and i: "i < number_of_buckets t" "live (buckets t ! i)"
  obtains as where "val_fp n h (bucket_value (buckets t ! i)) = Some as" "a \<notin> set as"
    "set as = val_addrs n h (bucket_value (buckets t ! i))" "free_bucket n (Ptr a []) i h = Some (release as h)"
proof -
  obtain att where d: "cells h a = Some (HashObj t att)" "load_hash h (Ptr a []) = Some (t, att)" "ht_inv t" "ht_core t"
    "heap_ok h" "owned n h a (ht_map t)" by (rule dict_atD [OF D])
  let ?v = "bucket_value (buckets t ! i)"
  have "ht_map t (ht_key t i) = Some (buckets t ! i)" using i by (auto simp: ht_map_Some [OF d(4)])
  with d(6) have "own_value n h a ?v" by (simp add: owned_def)
  then obtain as where as: "val_fp n h ?v = Some as" "val_addrs n h ?v = set as" "distinct as" "a \<notin> set as"
    by (auto dest: own_value_val_fp)
  then have "value_fp n h (Ptr a []) ?v = Some as"
    using value_fp_host [of ?v n h "Ptr a []" "Ptr 0 []"] by (simp add: val_fp_def split: if_splits)
  from free_bucket_release [OF d(2) _ this as(3)] i ht_coreD(4) [OF d(4)] as
  have "free_bucket n (Ptr a []) i h = Some (release as h)" by (simp add: same_on_def)
  with as show ?thesis by (intro that) auto
qed

lemma delete_absent:
  assumes D: "dict_at n h a t" and absent: "ht_map t (ckey k) = None"
  shows "im_delete_element_by_key n (Ptr a []) k h = Some (-1, h)"
proof -
  obtain att where d: "load_hash h (Ptr a []) = Some (t, att)" "ht_inv t" "ht_core t"
    by (rule dict_atD [OF D])
  obtain p where p: "im_find_element t k = Some p" "p < number_of_buckets t" using search_total [OF d(2)] by metis
  then have "\<not> live (buckets t ! p)" using found_bucket [OF d(3) p(1)] absent by (simp split: if_splits)
  with d p ht_coreD(4) [OF d(3)] show ?thesis
    by (simp add: im_delete_element_by_key_def im_delete_element_def live_def)
qed

lemma delete_present:
  assumes D: "dict_at n h a t" and present: "ht_map t (ckey k) = Some b"
  obtains p h' where "im_find_element t k = Some p" "im_delete_element_by_key n (Ptr a []) k h = Some (int p, h')"
    "dict_at n h' a (ht_del t p)" "ht_map (ht_del t p) = (ht_map t)(ckey k := None)" "inuse (ht_del t p) = inuse t - 1"
    "\<And>x. x \<noteq> a \<Longrightarrow> cells h' x = (if x \<in> val_addrs n h (bucket_value b) then None else cells h x)"
    "brk h' = brk h" "oom h' = oom h"
proof -
  obtain att where d: "cells h a = Some (HashObj t att)" "load_hash h (Ptr a []) = Some (t, att)" "ht_inv t" "ht_core t"
    "heap_ok h" "owned n h a (ht_map t)" by (rule dict_atD [OF D])
  obtain p where p: "im_find_element t k = Some p" "p < number_of_buckets t" using search_total [OF d(3)] by metis
  have l: "live (buckets t ! p)" "b = buckets t ! p"
    using found_bucket [OF d(4) p(1)] present by (auto split: if_splits)
  obtain as where as: "val_fp n h (bucket_value b) = Some as" "a \<notin> set as"
    "set as = val_addrs n h (bucket_value b)" "free_bucket n (Ptr a []) p h = Some (release as h)"
    unfolding l(2) by (rule free_bucket_owned [OF D p(2) l(1)])
  let ?h = "(release as h)\<lparr>cells := (cells (release as h))(a \<mapsto> HashObj (ht_del t p) att)\<rparr>"
  have "im_delete_element_by_key n (Ptr a []) k h = Some (int p, ?h)"
    using d p l as(2,4) ht_coreD(4) [OF d(4)]
    by (simp add: im_delete_element_by_key_def im_delete_element_def live_def ht_del_def)
  moreover have m: "ht_map (ht_del t p) = (ht_map t)(ckey k := None)"
    using ht_map_del [OF d(4) p(2) l(1)] found_key [OF d(4) p(1) live_not_emp [OF l(1)]] by simp
  moreover have "dict_at n ?h a (ht_del t p)"
  proof -
    have o: "owned n h a (ht_map (ht_del t p))" unfolding m by (rule owned_delete [OF d(6)])
    have addrs: "map_addrs n h (ht_map (ht_del t p)) = map_addrs n h (ht_map t) - set as"
      unfolding m as(3) by (rule map_addrs_delete [OF d(6) present])
    have "same_on (map_addrs n h (ht_map (ht_del t p))) h ?h"
      unfolding addrs using owned_not_self [OF d(6)] by (auto simp: same_on_def)
    then have "owned n ?h a (ht_map (ht_del t p))" using owned_same [OF o] owned_not_self [OF o] by blast
    moreover have "heap_ok ?h" using d(1,5) by (auto simp: heap_ok_def)
    ultimately show ?thesis using ht_inv_del [OF d(3) p(2) l(1)] by (simp add: dict_at_def)
  qed
  moreover have "inuse (ht_del t p) = inuse t - 1"
  proof -
    have "0 < inuse t" using l p(2) ht_coreD(4,5) [OF d(4)] nth_mem [of p "buckets t"] by (auto simp: filter_empty_conv)
    then show ?thesis using counts_small [OF d(4)] by (simp add: ht_del_def)
  qed
  ultimately show ?thesis using that [of p ?h] p(1) as(3) by simp
qed

section \<open>Inserting a bucket\<close>

text \<open>The table may move from \<open>a\<close> to \<open>d\<close>; what its buckets own stays where it is.\<close>

lemma owned_moved:
  assumes o: "owned n h a m" and d: "d = a \<or> cells h d = None" and c: "cells h' = (cells h)(a := None, d \<mapsto> x)"
  shows "owned n h' d m" "map_addrs n h' m = map_addrs n h m"
proof -
  have dm: "d \<notin> map_addrs n h m"
    using d owned_not_self [OF o] map_addrs_alloc [of n h m] by auto
  moreover have "same_on (map_addrs n h m) h h'"
    using dm owned_not_self [OF o] by (auto simp: same_on_def c)
  ultimately show "owned n h' d m" "map_addrs n h' m = map_addrs n h m" using owned_same [OF o] by blast+
qed

lemma insert_owned:
  assumes D: "dict_at n h a t" and mem: "\<forall>i. \<not> oom h i" and small: "inuse t \<le> 499990" and b: "live b"
    and own: "own_value n h a (bucket_value b)" "val_addrs n h (bucket_value b) \<inter> map_addrs n h (ht_map t) = {}"
    and absent: "ht_map t (ckey (bucket_key b)) = None"
  obtains d t' att' h' pos where "im_insert_element (Suc (Suc m)) (Ptr a []) b h = Some (int pos, Ptr d [], h')"
    "dict_at n h' d t'" "ht_map t' = (ht_map t)(ckey (bucket_key b) \<mapsto> b)" "inuse t' = Suc (inuse t)"
    "oom h' = oom h" "d = a \<or> cells h d = None" "cells h' = (cells h)(a := None, d \<mapsto> HashObj t' att')"
proof -
  obtain att where d: "cells h a = Some (HashObj t att)" "load_hash h (Ptr a []) = Some (t, att)" "ht_inv t" "ht_core t"
    "heap_ok h" "owned n h a (ht_map t)" by (rule dict_atD [OF D])
  obtain d t' att' h' pos where I:
    "im_insert_element (Suc (Suc m)) (Ptr a []) b h = Some (int pos, Ptr d [], h')"
    "cells h' = (cells h)(a := None, d \<mapsto> HashObj t' att')" "d = a \<or> cells h d = None" "heap_ok h'" "oom h' = oom h"
    "ht_inv t'" "ht_map t' = (ht_map t)(ckey (bucket_key b) \<mapsto> b)" "inuse t' = Suc (inuse t)"
    by (rule insert_absent [OF d(1,3,5) mem small b absent, of m])
  have "owned n h' d (ht_map t')"
    unfolding I(7) by (rule owned_moved(1) [OF owned_update [OF d(6) own] I(3,2)])
  then have "dict_at n h' d t'" using I(2,4,6) by (simp add: dict_at_def)
  then show ?thesis using I by (intro that [of pos d h' t' att']) auto
qed

lemma init_owned:
  assumes "bsearch_number_of_buckets capacity = Some N" "is_prime N" "3 \<le> N" "N \<le> 999983"
    and "heap_ok h" "\<not> oom h (brk h)"
  obtains h' where "im_initialize_hashtable capacity h = Some (Some (Ptr (brk h) []), h')"
    "dict_at n h' (brk h) (fresh_table N)" "ht_map (fresh_table N) = Map.empty"
    "cells h' = (cells h)(brk h \<mapsto> HashObj (fresh_table N) [])" "oom h' = oom h" "brk h' = Suc (brk h)"
proof -
  let ?h = "h\<lparr>cells := (cells h)(brk h \<mapsto> HashObj (fresh_table N) []), brk := Suc (brk h)\<rparr>"
  note f = ht_inv_fresh [OF assms(2-4)]
  have "heap_ok ?h" using assms(5) by (auto simp: heap_ok_def less_Suc_eq)
  with f have "dict_at n ?h (brk h) (fresh_table N)" by (simp add: dict_at_def owned_def)
  with assms f show ?thesis by (intro that [of ?h]) (simp_all add: im_initialize_hashtable_def alloc_def)
qed

section \<open>Destroying and emptying\<close>

lemma collectM_disjoint:
  assumes "\<And>i. i \<in> set xs \<Longrightarrow> f i = Some (g i) \<and> distinct (g i)"
    and "\<And>i j. i \<in> set xs \<Longrightarrow> j \<in> set xs \<Longrightarrow> i \<noteq> j \<Longrightarrow> set (g i) \<inter> set (g j) = {}" and "distinct xs"
  shows "collectM f xs = Some (concat (map g xs)) \<and> distinct (concat (map g xs))"
  using assms by (induction xs) fastforce+

lemma bucket_fp_owned:
  assumes D: "dict_at n h a t" and n: "0 < n" and i: "i < number_of_buckets t"
  shows "\<exists>as. value_fp n h (Ptr a []) (bucket_value (buckets t ! i)) = Some as \<and> distinct as \<and>
    set as = (if live (buckets t ! i) then val_addrs n h (bucket_value (buckets t ! i)) else {})"
proof (cases "live (buckets t ! i)")
  case True
  obtain att where d: "ht_core t" "owned n h a (ht_map t)" by (rule dict_atD [OF D])
  have "ht_map t (ht_key t i) = Some (buckets t ! i)" using i True by (auto simp: ht_map_Some [OF d(1)])
  with d(2) have "own_value n h a (bucket_value (buckets t ! i))" by (simp add: owned_def)
  then obtain as where as: "val_fp n h (bucket_value (buckets t ! i)) = Some as"
    "val_addrs n h (bucket_value (buckets t ! i)) = set as" "distinct as" by (auto dest: own_value_val_fp)
  then have "value_fp n h (Ptr a []) (bucket_value (buckets t ! i)) = Some as"
    using value_fp_host [of "bucket_value (buckets t ! i)" n h "Ptr a []" "Ptr 0 []"]
    by (simp add: val_fp_def split: if_splits)
  with as True show ?thesis by simp
next
  case False
  then show ?thesis using n by (cases n) (auto simp: live_def vacant_def value_fp.simps)
qed

lemma hash_fp_owned:
  assumes D: "dict_at n h a t" and n: "0 < n"
  obtains as where "hash_fp n h (Ptr a []) = Some as" "distinct as" "a \<notin> set as" "set as = map_addrs n h (ht_map t)"
proof -
  obtain att where d: "load_hash h (Ptr a []) = Some (t, att)" "ht_core t" "owned n h a (ht_map t)"
    by (rule dict_atD [OF D])
  let ?V = "\<lambda>i. if live (buckets t ! i) then val_addrs n h (bucket_value (buckets t ! i)) else {}"
  from bucket_fp_owned [OF D n] obtain g where
    g: "\<And>i. i < number_of_buckets t \<Longrightarrow> value_fp n h (Ptr a []) (bucket_value (buckets t ! i)) = Some (g i) \<and>
        distinct (g i) \<and> set (g i) = ?V i" by metis
  have disj: "?V i \<inter> ?V j = {}" if ij: "i < number_of_buckets t" "j < number_of_buckets t" "i \<noteq> j" for i j
  proof (cases "live (buckets t ! i) \<and> live (buckets t ! j)")
    case True
    then have "ht_key t i \<noteq> ht_key t j"
      using im.keys_unique [OF ht_coreD(7) [OF d(2)], of i j] ij by (auto simp: live_not_emp)
    moreover have "ht_map t (ht_key t i) = Some (buckets t ! i)" "ht_map t (ht_key t j) = Some (buckets t ! j)"
      using True ij by (auto simp: ht_map_Some [OF d(2)])
    ultimately show ?thesis using owned_disjoint [where m = "ht_map t", OF d(3)] True by simp
  qed auto
  have "collectM (\<lambda>i. value_fp n h (Ptr a []) (bucket_value (buckets t ! i))) [0..<number_of_buckets t] =
      Some (concat (map g [0..<number_of_buckets t])) \<and> distinct (concat (map g [0..<number_of_buckets t]))"
    using g disj by (intro collectM_disjoint) simp_all
  moreover have "set (concat (map g [0..<number_of_buckets t])) = (\<Union>i \<in> {..<number_of_buckets t}. ?V i)"
    using g by (simp add: atLeast0LessThan)
  moreover have "(\<Union>i \<in> {..<number_of_buckets t}. ?V i) = map_addrs n h (ht_map t)"
    by (auto simp: map_addrs_def ran_def ht_map_Some [OF d(2)] split: if_splits)
  ultimately show ?thesis
    using that d(1) ht_coreD(4) [OF d(2)] owned_not_self [OF d(3)] by (simp add: hash_fp.simps)
qed

lemma destroy_owned:
  assumes D: "dict_at n h a t" and n: "0 < n"
  shows "im_destroy_hashtable n (Ptr a []) h = Some (h\<lparr>cells := rest_of n h a (ht_map t)\<rparr>)"
proof -
  obtain as where as: "hash_fp n h (Ptr a []) = Some as" "distinct as" "a \<notin> set as" "set as = map_addrs n h (ht_map t)"
    by (rule hash_fp_owned [OF D n])
  have "im_destroy_hashtable_with_info n (Ptr a []) False h = Some (release as h)"
    using as by (intro destroy_hash_release [OF frees_buckets as(1)]) (auto simp: same_on_def)
  moreover have "cells h a \<noteq> None" using D by (auto simp: dict_at_def)
  ultimately show ?thesis
    using as by (auto simp: im_destroy_hashtable_def destroy_external release_def rest_of_def fun_eq_iff)
qed

text \<open>The loop of \<^verbatim>\<open>im_empty_hashtable\<close> after \<open>i\<close> rounds.\<close>

definition emptied :: "nat \<Rightarrow> im_hash_bucket list \<Rightarrow> im_hash_bucket list" where
  "emptied i bs = map (\<lambda>b. b\<lparr>bucket_value := IM_EMPTY\<rparr>) (take i bs) @ drop i bs"

lemma emptied_Suc:
  assumes "i < length bs"
  shows "(emptied i bs)[i := (emptied i bs ! i)\<lparr>bucket_value := IM_EMPTY\<rparr>] = emptied (Suc i) bs"
    and "emptied i bs ! i = bs ! i" and "length (emptied i bs) = length bs"
  using assms by (simp_all add: emptied_def nth_append list_update_append take_Suc_conv_app_nth Cons_nth_drop_Suc [symmetric])

definition empty_loop_inv :: "nat \<Rightarrow> addr \<Rightarrow> im_hashtable \<Rightarrow> tail \<Rightarrow> heap \<Rightarrow> nat \<Rightarrow> heap \<Rightarrow> bool" where
  "empty_loop_inv n a t att h0 i h \<longleftrightarrow>
     h = h0\<lparr>cells := (\<lambda>x. if \<exists>j < i. live (buckets t ! j) \<and> x \<in> val_addrs n h0 (bucket_value (buckets t ! j))
         then None else cells h0 x)(a \<mapsto> HashObj (t\<lparr>buckets := emptied i (buckets t)\<rparr>) att)\<rparr>"

lemma owned_buckets_disjoint:
  assumes D: "dict_at n h a t" and ij: "i < number_of_buckets t" "j < number_of_buckets t" "i \<noteq> j"
    and l: "live (buckets t ! i)" "live (buckets t ! j)"
  shows "val_addrs n h (bucket_value (buckets t ! i)) \<inter> val_addrs n h (bucket_value (buckets t ! j)) = {}"
proof -
  obtain att where d: "ht_core t" "owned n h a (ht_map t)" by (rule dict_atD [OF D])
  have "ht_key t i \<noteq> ht_key t j"
    using im.keys_unique [OF ht_coreD(7) [OF d(1)], of i j] ij l by (auto simp: live_not_emp)
  moreover have "ht_map t (ht_key t i) = Some (buckets t ! i)" "ht_map t (ht_key t j) = Some (buckets t ! j)"
    using l ij by (auto simp: ht_map_Some [OF d(1)])
  ultimately show ?thesis using owned_disjoint [where m = "ht_map t", OF d(2)] by simp
qed

lemma empty_loop_step:
  assumes D: "dict_at n h0 a t" and n: "0 < n" and i: "i < number_of_buckets t"
    and I: "empty_loop_inv n a t att h0 i h"
  shows "\<exists>h'. do { h \<leftarrow> free_bucket n (Ptr a []) i h;
              (t, att) \<leftarrow> load_hash h (Ptr a []);
              store (Ptr a []) (HashObj (t\<lparr>buckets :=
                 (buckets t)[i := (buckets t ! i)\<lparr>bucket_value := IM_EMPTY\<rparr>]\<rparr>) att) h } = Some h' \<and>
            empty_loop_inv n a t att h0 (Suc i) h'"
proof -
  obtain att0 where d: "ht_core t" "owned n h0 a (ht_map t)" by (rule dict_atD [OF D])
  have len: "i < length (buckets t)" using i ht_coreD(4) [OF d(1)] by simp
  let ?v = "bucket_value (buckets t ! i)" and ?t = "t\<lparr>buckets := emptied i (buckets t)\<rparr>"
  have ld: "load_hash h (Ptr a []) = Some (?t, att)" using I by (simp add: empty_loop_inv_def)
  have "\<exists>as. value_fp n h (Ptr a []) ?v = Some as \<and> distinct as \<and> a \<notin> set as \<and>
      set as = (if live (buckets t ! i) then val_addrs n h0 ?v else {})"
  proof (cases "live (buckets t ! i)")
    case True
    have "ht_map t (ht_key t i) = Some (buckets t ! i)" using i True by (auto simp: ht_map_Some [OF d(1)])
    with d(2) have "own_value n h0 a ?v" by (simp add: owned_def)
    then obtain as where as: "val_fp n h0 ?v = Some as" "val_addrs n h0 ?v = set as" "distinct as" "a \<notin> set as"
      by (auto dest: own_value_val_fp)
    have "x \<notin> val_addrs n h0 (bucket_value (buckets t ! j))" if "j < i" "live (buckets t ! j)" "x \<in> set as" for j x
      using owned_buckets_disjoint [OF D, of i j] that i True as(2) by auto
    then have "same_on (set as) h0 h" using I as(4) by (auto simp: empty_loop_inv_def same_on_def)
    then have "val_fp n h ?v = Some as" by (rule val_fp_same [OF as(1)])
    with as True show ?thesis
      using value_fp_host [of ?v n h "Ptr a []" "Ptr 0 []"] by (auto simp: val_fp_def split: if_splits)
  next
    case False
    then show ?thesis using n by (cases n) (auto simp: live_def vacant_def value_fp.simps)
  qed
  then obtain as where as: "value_fp n h (Ptr a []) ?v = Some as" "distinct as" "a \<notin> set as"
      "set as = (if live (buckets t ! i) then val_addrs n h0 ?v else {})" by blast
  have "free_bucket n (Ptr a []) i h = Some (release as h)"
    using as len emptied_Suc(2,3) [OF len]
    by (intro free_bucket_release [OF ld]) (auto simp: same_on_def)
  then show ?thesis using I as(3,4) emptied_Suc [OF len]
    by (auto simp: empty_loop_inv_def fun_eq_iff less_Suc_eq intro!: heap.equality)
qed

lemma empty_table_inv:
  assumes "ht_core t"
  defines "u \<equiv> t\<lparr>buckets := emptied (number_of_buckets t) (buckets t), inuse := 0, empty := number_of_buckets t, attached_offset := 0\<rparr>"
  shows "ht_inv u" "ht_map u = Map.empty"
proof -
  have b: "buckets u = map (\<lambda>b. b\<lparr>bucket_value := IM_EMPTY\<rparr>) (buckets t)"
    using ht_coreD(4) [OF assms(1)] by (simp add: u_def emptied_def)
  have nb: "number_of_buckets u = number_of_buckets t" by (simp add: u_def)
  have "well_placed im_hashcode (number_of_buckets u) (ht_emp u) (ht_key u)"
    using ht_coreD(4) [OF assms(1)] by (intro im.well_placed_empty) (simp add: ht_emp_def b nb)
  moreover have "filter live (buckets u) = []" by (simp add: b filter_empty_conv live_def)
  moreover have "filter (\<lambda>b. bucket_value b = IM_EMPTY) (buckets u) = buckets u" by (simp add: b filter_id_conv)
  ultimately show "ht_inv u" using ht_coreD(1-4) [OF assms(1)] by (simp add: ht_inv_def ht_core_def b) (simp add: u_def)
  show "ht_map u = Map.empty" by (auto simp: ht_map_def live_map_def b find_None_iff live_def fun_eq_iff)
qed

lemma empty_owned:
  assumes D: "dict_at n h a t" and n: "0 < n"
  obtains t' h' where "im_empty_hashtable n (Ptr a []) h = Some h'" "dict_at n h' a t'" "ht_map t' = Map.empty"
    "inuse t' = 0" "number_of_buckets t' = number_of_buckets t" "oom h' = oom h"
    "\<And>x. x \<noteq> a \<Longrightarrow> cells h' x = (if x \<in> map_addrs n h (ht_map t) then None else cells h x)"
proof -
  obtain att where d: "cells h a = Some (HashObj t att)" "load_hash h (Ptr a []) = Some (t, att)" "ht_inv t" "ht_core t"
    "heap_ok h" by (rule dict_atD [OF D])
  let ?f = "\<lambda>i h. do { h \<leftarrow> free_bucket n (Ptr a []) i h;
              (t, att) \<leftarrow> load_hash h (Ptr a []);
              store (Ptr a []) (HashObj (t\<lparr>buckets :=
                 (buckets t)[i := (buckets t ! i)\<lparr>bucket_value := IM_EMPTY\<rparr>]\<rparr>) att) h }"
  let ?P = "empty_loop_inv n a t att h"
  have "?P 0 h" using d(1) by (auto simp: empty_loop_inv_def emptied_def fun_eq_iff intro!: heap.equality)
  then have "\<exists>h'. foldM ?f [0..<number_of_buckets t] h = Some h' \<and> ?P (number_of_buckets t) h'"
    by (rule foldM_upt_inv) (rule empty_loop_step [OF D n])
  then obtain h1 where h1: "foldM ?f [0..<number_of_buckets t] h = Some h1" "?P (number_of_buckets t) h1"
    by (elim exE conjE)
  let ?u = "t\<lparr>buckets := emptied (number_of_buckets t) (buckets t), inuse := 0, empty := number_of_buckets t, attached_offset := 0\<rparr>"
  let ?h = "h1\<lparr>cells := (cells h1)(a \<mapsto> HashObj ?u att)\<rparr>"
  note u = empty_table_inv [OF d(4)]
  have l1: "cells h1 a = Some (HashObj (t\<lparr>buckets := emptied (number_of_buckets t) (buckets t)\<rparr>) att)"
    using h1(2) by (simp add: empty_loop_inv_def)
  have "im_empty_hashtable n (Ptr a []) h = Some ?h"
    using d(2) h1(1) l1 by (simp add: im_empty_hashtable_def cong: foldM_cong)
  moreover have "heap_ok ?h" using h1(2) d(1,5) by (auto simp: empty_loop_inv_def heap_ok_def)
  then have "dict_at n ?h a ?u" using u by (simp add: dict_at_def owned_def)
  moreover have "(\<exists>j < number_of_buckets t. live (buckets t ! j) \<and> x \<in> val_addrs n h (bucket_value (buckets t ! j))) =
      (x \<in> map_addrs n h (ht_map t))" for x
    by (auto simp: map_addrs_def ran_def ht_map_Some [OF d(4)])
  then have "cells ?h x = (if x \<in> map_addrs n h (ht_map t) then None else cells h x)" if "x \<noteq> a" for x
    using h1(2) that by (simp add: empty_loop_inv_def)
  moreover have "oom ?h = oom h" using h1(2) by (simp add: empty_loop_inv_def)
  ultimately show ?thesis using that [of ?h ?u] u(2) by simp
qed

end
