(* ===== verification/Im_Vector.thy ===== *)
theory Im_Vector
  imports Im_Destroy
begin

text \<open>
  The growable array of the dictionary library, \<^verbatim>\<open>src/im_vector.c\<close>, and its refinement of lists:
  \<open>vec_list\<close> is the sequence of the buckets in use. Freeing is in the theory of the hash table,
  since the two free each other's nested objects.
\<close>

section \<open>Operations\<close>

definition v_empty_bucket :: im_vector_bucket where
  "v_empty_bucket = \<lparr>v_value_length = 0, v_bucket_value = IM_EMPTY\<rparr>"

definition fresh_vector :: "nat \<Rightarrow> im_vector" where
  "fresh_vector N = \<lparr>v_number_of_buckets = N, v_inuse = 0, v_attached_size = 0, v_attached_offset = 0,
     v_buckets = replicate N v_empty_bucket\<rparr>"

text \<open>
  The size computed for a negative capacity wraps round: for \<open>-1\<close> it is 0, and the header is
  written outside the block; for less it is close to \<open>2 ^ 64\<close>, which \<^verbatim>\<open>calloc\<close> refuses.
\<close>

definition im_initialize_vector :: "int \<Rightarrow> heap \<Rightarrow> (ptr option \<times> heap) option" where
  "im_initialize_vector capacity h =
     (if capacity = -1 then None
      else if capacity < 0 then Some (None, h)
      else Some (alloc (VecObj (fresh_vector (nat capacity)) []) h))"

definition im_destroy_vector :: "nat \<Rightarrow> ptr \<Rightarrow> heap \<Rightarrow> heap option" where
  "im_destroy_vector n p h = im_destroy_vector_with_info n p True h"

text \<open>
  \<open>resize_prepare\<close> is the part of \<^verbatim>\<open>im_resize_vector\<close> before its loop and \<open>add_slot\<close> the part of
  \<^verbatim>\<open>im_add_element\<close> after the check of the capacity.
\<close>

definition resize_prepare :: "ptr \<Rightarrow> im_vector \<Rightarrow> tail \<Rightarrow> heap \<Rightarrow> (ptr option \<times> heap) option" where
  "resize_prepare q v att h =
     do { (q', h) \<leftarrow> (if v_attached_offset v \<noteq> 0
            then do { (r, h) \<leftarrow> realloc q h;
                      (case r of None \<Rightarrow> do { h \<leftarrow> free q h; Some (None, h) }
                       | Some q \<Rightarrow> Some (Some q, h)) }
            else Some (Some q, h));
          (case q' of None \<Rightarrow> Some (None, h)
           | Some q \<Rightarrow> do {
               (u, _) \<leftarrow> load_vector h q;
               h \<leftarrow> store q (VecObj (u\<lparr>v_attached_size := v_attached_offset v,
                                    v_attached_offset := v_attached_offset v\<rparr>)
                              (filter (\<lambda>(off, _). off < v_attached_offset v) att)) h;
               Some (Some q, h) }) }"

definition add_slot :: "ptr \<Rightarrow> im_vector_bucket \<Rightarrow> heap \<Rightarrow> (int \<times> ptr \<times> heap) option" where
  "add_slot p b h =
     do { (v, att) \<leftarrow> load_vector h p;
          if length (v_buckets v) \<le> v_inuse v then None
          else do {
            h \<leftarrow> store p (VecObj (v\<lparr>v_buckets := (v_buckets v)[v_inuse v := b],
                                 v_inuse := u32_inc (v_inuse v)\<rparr>) att) h;
            Some (int32 (int (v_inuse v)), p, h) } }"

function (sequential) im_add_element :: "nat \<Rightarrow> ptr \<Rightarrow> im_vector_bucket \<Rightarrow> heap \<Rightarrow> (int \<times> ptr \<times> heap) option"
  and im_resize_vector :: "nat \<Rightarrow> ptr \<Rightarrow> heap \<Rightarrow> (int \<times> ptr \<times> heap) option"
where
  "im_add_element 0 p b h = None"
| "im_add_element (Suc n) p b h =
     (if vacant (v_bucket_value b) then Some (-1, p, h)
      else case load_vector h p of None \<Rightarrow> None | Some (v, _) \<Rightarrow>
        (case (if v_number_of_buckets v \<le> v_inuse v then im_resize_vector n p h else Some (0, p, h)) of
           None \<Rightarrow> None
         | Some (r, p, h) \<Rightarrow> if r < 0 then Some (-1, p, h) else add_slot p b h))"
| "im_resize_vector n p h =
     (case load_vector h p of None \<Rightarrow> None | Some (v, att) \<Rightarrow>
      (case im_initialize_vector (int32 (2 * int (v_number_of_buckets v))) h of
         None \<Rightarrow> None
       | Some (None, h) \<Rightarrow> Some (-1, p, h)
       | Some (Some q, h) \<Rightarrow>
          (case resize_prepare q v att h of
             None \<Rightarrow> None
           | Some (None, h) \<Rightarrow> Some (-1, p, h)
           | Some (Some q, h) \<Rightarrow>
              (case foldM (\<lambda>i (r, q, h).
                       if r < 0 then Some (r, q, h)
                       else case load_vector h p of None \<Rightarrow> None | Some (v, _) \<Rightarrow>
                         if length (v_buckets v) \<le> i then None
                         else im_add_element n q (v_buckets v ! i) h)
                     [0..<v_number_of_buckets v] (0, q, h) of
                 None \<Rightarrow> None
               | Some (r, q, h) \<Rightarrow>
                   if r < 0 then (case free q h of None \<Rightarrow> None | Some h \<Rightarrow> Some (-1, p, h))
                   else (case free p h of None \<Rightarrow> None | Some h \<Rightarrow> Some (0, q, h))))))"
  by pat_completeness auto
termination
  by (relation "measure (\<lambda>x. case x of Inl (n, _) \<Rightarrow> 2 * n | Inr (n, _) \<Rightarrow> 2 * n + 1)") auto

declare im_add_element.simps [simp del] im_resize_vector.simps [simp del]

text \<open>\<^verbatim>\<open>memmove\<close> of the buckets behind \<open>position\<close> down by one; the last bucket in use stays as it is.\<close>

definition move_down :: "nat \<Rightarrow> nat \<Rightarrow> 'a list \<Rightarrow> 'a list" where
  "move_down i n bs = take i bs @ take (n - i - 1) (drop (Suc i) bs) @ drop (n - 1) bs"

definition im_del_element :: "nat \<Rightarrow> ptr \<Rightarrow> int \<Rightarrow> heap \<Rightarrow> (int \<times> heap) option" where
  "im_del_element n p position h =
     do { (v, att) \<leftarrow> load_vector h p;
          if 0 \<le> position \<and> position < int (v_inuse v) then do {
            h \<leftarrow> v_free_bucket n p (nat position) h;
            (v, att) \<leftarrow> load_vector h p;
            h \<leftarrow> store p (VecObj (v\<lparr>v_buckets := move_down (nat position) (v_inuse v) (v_buckets v),
                                 v_inuse := u32_dec (v_inuse v)\<rparr>) att) h;
            Some (position, h) }
          else Some (-1, h) }"

definition im_set_element :: "nat \<Rightarrow> ptr \<Rightarrow> int \<Rightarrow> im_vector_bucket \<Rightarrow> heap \<Rightarrow> (int \<times> heap) option" where
  "im_set_element n p position b h =
     (if vacant (v_bucket_value b) then Some (-1, h)
      else do { (v, att) \<leftarrow> load_vector h p;
          if 0 \<le> position \<and> position < int (v_inuse v) then do {
            h \<leftarrow> v_free_bucket n p (nat position) h;
            (v, att) \<leftarrow> load_vector h p;
            h \<leftarrow> store p (VecObj (v\<lparr>v_buckets := (v_buckets v)[nat position := b]\<rparr>) att) h;
            Some (position, h) }
          else Some (-1, h) })"

text \<open>The inner \<open>None\<close> is the \<^verbatim>\<open>NULL\<close> the code returns, the outer one a read outside the block.\<close>

definition im_get_element :: "im_vector \<Rightarrow> int \<Rightarrow> im_vector_bucket option option" where
  "im_get_element v position =
     (if 0 \<le> position \<and> position < int (v_inuse v)
      then (if length (v_buckets v) \<le> nat position then None else Some (Some (v_buckets v ! nat position)))
      else Some None)"

definition im_empty_vector :: "nat \<Rightarrow> ptr \<Rightarrow> heap \<Rightarrow> heap option" where
  "im_empty_vector n p h =
     do { (v, att) \<leftarrow> load_vector h p;
          h \<leftarrow> foldM (\<lambda>i h. v_free_bucket n p i h) [0..<v_inuse v] h;
          (v, att) \<leftarrow> load_vector h p;
          store p (VecObj (v\<lparr>v_inuse := 0, v_attached_offset := 0\<rparr>) att) h }"

section \<open>Abstract value and invariant\<close>

definition vec_list :: "im_vector \<Rightarrow> im_vector_bucket list" where
  "vec_list v = take (v_inuse v) (v_buckets v)"

definition vec_inv :: "im_vector \<Rightarrow> bool" where
  "vec_inv v \<longleftrightarrow>
     v_inuse v \<le> v_number_of_buckets v \<and> length (v_buckets v) = v_number_of_buckets v \<and>
     0 < v_number_of_buckets v \<and> v_number_of_buckets v < 2 ^ 31 \<and>
     (\<forall>b \<in> set (vec_list v). \<not> vacant (v_bucket_value b))"

definition v_put :: "im_vector \<Rightarrow> im_vector_bucket \<Rightarrow> im_vector" where
  "v_put v b = v\<lparr>v_buckets := (v_buckets v)[v_inuse v := b], v_inuse := u32_inc (v_inuse v)\<rparr>"

lemma v_put_sel [simp]:
  "v_number_of_buckets (v_put v b) = v_number_of_buckets v" "v_attached_offset (v_put v b) = v_attached_offset v"
  "v_attached_size (v_put v b) = v_attached_size v" "v_buckets (v_put v b) = (v_buckets v)[v_inuse v := b]"
  by (simp_all add: v_put_def)

lemma v_inuse_put: "vec_inv v \<Longrightarrow> v_inuse (v_put v b) = Suc (v_inuse v)"
  by (simp add: v_put_def vec_inv_def)

lemma vec_list_put:
  assumes "vec_inv v" "v_inuse v < v_number_of_buckets v"
  shows "vec_list (v_put v b) = vec_list v @ [b]"
  using assms by (simp add: vec_list_def v_inuse_put) (simp add: vec_inv_def take_Suc_conv_app_nth)

lemma vec_inv_put:
  assumes "vec_inv v" "v_inuse v < v_number_of_buckets v" "\<not> vacant (v_bucket_value b)"
  shows "vec_inv (v_put v b)"
  using assms vec_list_put [OF assms(1,2), of b] by (auto simp: vec_inv_def v_inuse_put)

lemma length_vec_list: "vec_inv v \<Longrightarrow> length (vec_list v) = v_inuse v"
  by (simp add: vec_inv_def vec_list_def)

lemma get_element_list:
  assumes "vec_inv v"
  shows "im_get_element v i =
    Some (if 0 \<le> i \<and> i < int (length (vec_list v)) then Some (vec_list v ! nat i) else None)"
  using assms by (auto simp: im_get_element_def length_vec_list) (auto simp: vec_inv_def vec_list_def)

section \<open>Appending\<close>

lemma add_slot_ok:
  assumes ld: "load_vector h p = Some (v, att)" and inv: "vec_inv v" and room: "v_inuse v < v_number_of_buckets v"
  obtains h' where "add_slot p b h = Some (int (v_inuse v), p, h')" "store p (VecObj (v_put v b) att) h = Some h'"
proof -
  obtain h' where "store p (VecObj (v_put v b) att) h = Some h'"
    using store_total [OF ld [unfolded load_vector_iff]] by blast
  moreover have "int32 (int (v_inuse v)) = int (v_inuse v)" using inv room by (simp add: vec_inv_def)
  ultimately show ?thesis using that ld inv room by (simp add: add_slot_def v_put_def vec_inv_def)
qed

lemma add_no_resize:
  assumes "load_vector h p = Some (v, att)" "v_inuse v < v_number_of_buckets v" "\<not> vacant (v_bucket_value b)"
  shows "im_add_element (Suc n) p b h = add_slot p b h"
  using assms by (simp add: im_add_element.simps)

lemma load_vector_Ptr [simp]:
  "load_vector h (Ptr a []) = (case cells h a of Some (VecObj v att) \<Rightarrow> Some (v, att) | _ \<Rightarrow> None)"
  by (simp add: load_vector_def split: option.splits)

lemma resize_prepare_ok:
  assumes "cells h c = Some (VecObj u [])" "brk h = Suc c" "heap_ok h" "\<forall>i. \<not> oom h i"
  obtains c' h' where "resize_prepare (Ptr c []) v att h = Some (Some (Ptr c' []), h')" "c \<le> c'" "c' < brk h'"
    "cells h' = (cells h)(c := None, c' \<mapsto> VecObj (u\<lparr>v_attached_size := v_attached_offset v, v_attached_offset := v_attached_offset v\<rparr>)
        (filter (\<lambda>(off, _). off < v_attached_offset v) att))"
    "heap_ok h'" "oom h' = oom h"
proof (cases "v_attached_offset v = 0")
  case True
  then show ?thesis using assms
    by (intro that [of c "h\<lparr>cells := (cells h)(c \<mapsto> VecObj (u\<lparr>v_attached_size := 0, v_attached_offset := 0\<rparr>) [])\<rparr>"])
      (auto simp: resize_prepare_def heap_ok_def fun_eq_iff)
next
  case False
  let ?x = "VecObj (u\<lparr>v_attached_size := v_attached_offset v, v_attached_offset := v_attached_offset v\<rparr>)
        (filter (\<lambda>(off, _). off < v_attached_offset v) att)"
  from False assms show ?thesis
    by (intro that [of "Suc c" "h\<lparr>cells := (cells h)(c := None, Suc c \<mapsto> ?x), brk := Suc (Suc c)\<rparr>"])
      (auto simp: resize_prepare_def realloc_def alloc_def heap_ok_def fun_eq_iff)
qed

text \<open>The loop of \<^verbatim>\<open>im_resize_vector\<close> after \<open>i\<close> rounds: the first \<open>i\<close> buckets have been appended.\<close>

definition resize_loop_inv :: "im_vector \<Rightarrow> nat \<Rightarrow> im_vector \<Rightarrow> tail \<Rightarrow> heap \<Rightarrow> nat \<Rightarrow> int \<times> ptr \<times> heap \<Rightarrow> bool" where
  "resize_loop_inv v c u0 att' h0 i = (\<lambda>(r, q, h).
     0 \<le> r \<and> q = Ptr c [] \<and> (\<exists>u. h = h0\<lparr>cells := (cells h0)(c \<mapsto> VecObj u att')\<rparr> \<and> vec_inv u \<and>
       v_number_of_buckets u = v_number_of_buckets u0 \<and> v_attached_offset u = v_attached_offset u0 \<and>
       vec_list u = take i (v_buckets v) \<and> v_inuse u = i))"

lemma resize_loop_step:
  assumes v: "vec_inv v" "v_inuse v = v_number_of_buckets v" and i: "i < v_number_of_buckets v" and ac: "a \<noteq> c"
    and h0: "cells h0 a = Some (VecObj v att)" and cap: "v_number_of_buckets v < v_number_of_buckets u0"
    and I: "resize_loop_inv v c u0 att' h0 i (r, q, h)"
  shows "\<exists>s'. (if r < 0 then Some (r, q, h)
       else case load_vector h (Ptr a []) of None \<Rightarrow> None | Some (v, _) \<Rightarrow>
         if length (v_buckets v) \<le> i then None
         else im_add_element (Suc n) q (v_buckets v ! i) h) = Some s' \<and> resize_loop_inv v c u0 att' h0 (Suc i) s'"
proof -
  from I obtain u where r: "0 \<le> r" and q: "q = Ptr c []"
    and h: "h = h0\<lparr>cells := (cells h0)(c \<mapsto> VecObj u att')\<rparr>" and u: "vec_inv u"
      "v_number_of_buckets u = v_number_of_buckets u0" "v_attached_offset u = v_attached_offset u0"
      "vec_list u = take i (v_buckets v)" "v_inuse u = i"
    by (auto simp: resize_loop_inv_def)
  let ?b = "v_buckets v ! i"
  have len: "length (v_buckets v) = v_number_of_buckets v" using v by (simp add: vec_inv_def)
  have b: "\<not> vacant (v_bucket_value ?b)" using v i len by (auto simp: vec_inv_def vec_list_def)
  have room: "v_inuse u < v_number_of_buckets u" using u cap i by simp
  have ldu: "load_vector h (Ptr c []) = Some (u, att')" using h by simp
  obtain h' where p: "add_slot (Ptr c []) ?b h = Some (int (v_inuse u), Ptr c [], h')"
    "store (Ptr c []) (VecObj (v_put u ?b) att') h = Some h'"
    by (rule add_slot_ok [OF ldu u(1) room])
  have "im_add_element (Suc n) q ?b h = Some (int (v_inuse u), Ptr c [], h')"
    using add_no_resize [OF ldu room b] p(1) q by simp
  moreover have "h' = h0\<lparr>cells := (cells h0)(c \<mapsto> VecObj (v_put u ?b) att')\<rparr>" using p(2) h by simp
  then have "resize_loop_inv v c u0 att' h0 (Suc i) (int (v_inuse u), Ptr c [], h')"
    using u room b i len vec_inv_put [OF u(1) room b] vec_list_put [OF u(1) room, of ?b] v_inuse_put [OF u(1)]
    by (auto simp: resize_loop_inv_def take_Suc_conv_app_nth)
  ultimately show ?thesis using r ac h0 h len i by simp
qed

lemma resize_loop_ok:
  assumes v: "vec_inv v" "v_inuse v = v_number_of_buckets v" and ad: "a \<noteq> d"
    and ha: "cells h0 a = Some (VecObj v att)" and hd: "cells h0 d = Some (VecObj u0 att')"
    and u0: "vec_inv u0" "v_inuse u0 = 0" and cap: "v_number_of_buckets v < v_number_of_buckets u0"
  obtains r u where "foldM (\<lambda>i (r, q, h).
        if r < 0 then Some (r, q, h)
        else case load_vector h (Ptr a []) of None \<Rightarrow> None | Some (v, _) \<Rightarrow>
          if length (v_buckets v) \<le> i then None
          else im_add_element (Suc n) q (v_buckets v ! i) h) [0..<v_number_of_buckets v] (0, Ptr d [], h0) =
      Some (r, Ptr d [], h0\<lparr>cells := (cells h0)(d \<mapsto> VecObj u att')\<rparr>)" "0 \<le> r"
    "vec_inv u" "v_number_of_buckets u = v_number_of_buckets u0" "v_attached_offset u = v_attached_offset u0"
    "vec_list u = vec_list v" "v_inuse u = v_number_of_buckets v"
proof -
  let ?P = "resize_loop_inv v d u0 att' h0"
  let ?f = "(\<lambda>i (r, q, h).
        if r < 0 then Some (r, q, h)
        else case load_vector h (Ptr a []) of None \<Rightarrow> None | Some (v, _) \<Rightarrow>
          if length (v_buckets v) \<le> i then None
          else im_add_element (Suc n) q (v_buckets v ! i) h)"
  have "h0 = h0\<lparr>cells := (cells h0)(d \<mapsto> VecObj u0 att')\<rparr>" using hd by (simp add: fun_upd_idem)
  then have P0: "?P 0 (0, Ptr d [], h0)"
    using u0 by (auto simp: resize_loop_inv_def vec_list_def intro!: exI [of _ u0])
  have step: "\<exists>s'. ?f i s = Some s' \<and> ?P (Suc i) s'" if "i < v_number_of_buckets v" "?P i s" for i s
  proof -
    obtain r q h where s: "s = (r, q, h)" by (cases s)
    from resize_loop_step [OF v(1,2) that(1) ad ha cap that(2) [unfolded s], of n]
    show ?thesis unfolding s prod.case by assumption
  qed
  have "\<exists>s. foldM ?f [0..<v_number_of_buckets v] (0, Ptr d [], h0) = Some s \<and> ?P (v_number_of_buckets v) s"
    by (rule foldM_upt_inv [OF P0 step])
  then obtain s where s: "foldM ?f [0..<v_number_of_buckets v] (0, Ptr d [], h0) = Some s"
      "?P (v_number_of_buckets v) s" by (elim exE conjE)
  obtain r q h' where s': "s = (r, q, h')" by (cases s)
  from s(2) obtain u where "0 \<le> r" "q = Ptr d []" "h' = h0\<lparr>cells := (cells h0)(d \<mapsto> VecObj u att')\<rparr>" "vec_inv u"
      "v_number_of_buckets u = v_number_of_buckets u0" "v_attached_offset u = v_attached_offset u0"
      "vec_list u = vec_list v" "v_inuse u = v_number_of_buckets v"
    unfolding s' using v by (auto simp: resize_loop_inv_def vec_list_def)
  with s(1) s' show ?thesis by (intro that [of r u]) auto
qed

lemma resize_ok:
  assumes v: "vec_inv v" "v_inuse v = v_number_of_buckets v" "v_number_of_buckets v < 2 ^ 30"
    and ld: "cells h a = Some (VecObj v att)" and ok: "heap_ok h" and mem: "\<forall>i. \<not> oom h i"
  obtains d v' h' where "im_resize_vector (Suc n) (Ptr a []) h = Some (0, Ptr d [], h')"
    "cells h' = (cells h)(a := None, d \<mapsto> VecObj v' (filter (\<lambda>(off, _). off < v_attached_offset v) att))"
    "cells h d = None" "heap_ok h'" "oom h' = oom h"
    "vec_inv v'" "vec_list v' = vec_list v" "v_inuse v' < v_number_of_buckets v'"
    "v_attached_offset v' = v_attached_offset v"
proof -
  let ?N = "2 * v_number_of_buckets v"
  have pos: "0 < v_number_of_buckets v" using v(1) by (simp add: vec_inv_def)
  have N: "int32 (2 * int (v_number_of_buckets v)) = int ?N" using v(3) by simp
  let ?h1 = "h\<lparr>cells := (cells h)(brk h \<mapsto> VecObj (fresh_vector ?N) []), brk := Suc (brk h)\<rparr>"
  have init: "im_initialize_vector (int32 (2 * int (v_number_of_buckets v))) h = Some (Some (Ptr (brk h) []), ?h1)"
    unfolding N using mem by (simp add: im_initialize_vector_def alloc_def nat_mult_distrib)
  let ?att = "filter (\<lambda>(off, _). off < v_attached_offset v) att"
  let ?u = "(fresh_vector ?N)\<lparr>v_attached_size := v_attached_offset v, v_attached_offset := v_attached_offset v\<rparr>"
  have "cells ?h1 (brk h) = Some (VecObj (fresh_vector ?N) [])" "brk ?h1 = Suc (brk h)" "heap_ok ?h1" "\<forall>i. \<not> oom ?h1 i"
    using ok mem by (auto simp: heap_ok_def less_Suc_eq)
  from resize_prepare_ok [OF this] obtain d h2 where
    prep: "resize_prepare (Ptr (brk h) []) v att ?h1 = Some (Some (Ptr d []), h2)" "brk h \<le> d" "d < brk h2"
      "cells h2 = (cells ?h1)(brk h := None, d \<mapsto> VecObj ?u ?att)" "heap_ok h2" "oom h2 = oom ?h1" by metis
  have d: "cells h d = None" using heap_ok_fresh [OF ok prep(2)] .
  have ad: "a \<noteq> d" using d ld by auto
  have cells2: "cells h2 = (cells h)(d \<mapsto> VecObj ?u ?att)"
    using prep(4) heap_ok_fresh [OF ok, of "brk h"] by (auto simp: fun_eq_iff)
  have ha: "cells h2 a = Some (VecObj v att)" and hd: "cells h2 d = Some (VecObj ?u ?att)"
    using cells2 ad ld by simp_all
  have u0: "vec_inv ?u" "v_inuse ?u = 0" "v_number_of_buckets v < v_number_of_buckets ?u"
    using v pos by (simp_all add: vec_inv_def vec_list_def fresh_vector_def)
  obtain r u where s: "foldM (\<lambda>i (r, q, h).
        if r < 0 then Some (r, q, h)
        else case load_vector h (Ptr a []) of None \<Rightarrow> None | Some (v, _) \<Rightarrow>
          if length (v_buckets v) \<le> i then None
          else im_add_element (Suc n) q (v_buckets v ! i) h) [0..<v_number_of_buckets v] (0, Ptr d [], h2) =
      Some (r, Ptr d [], h2\<lparr>cells := (cells h2)(d \<mapsto> VecObj u ?att)\<rparr>)" "0 \<le> r"
    and u: "vec_inv u" "v_number_of_buckets u = v_number_of_buckets ?u" "v_attached_offset u = v_attached_offset ?u"
      "vec_list u = vec_list v" "v_inuse u = v_number_of_buckets v"
    by (rule resize_loop_ok [OF v(1,2) ad ha hd u0, of n])
  let ?h3 = "h2\<lparr>cells := (cells h)(a := None, d \<mapsto> VecObj u ?att)\<rparr>"
  have "im_resize_vector (Suc n) (Ptr a []) h = Some (0, Ptr d [], ?h3)"
    using ld init prep(1) s ad cells2 by (simp add: im_resize_vector.simps fun_upd_twist)
  moreover have "heap_ok ?h3" using prep(3,5) cells2 by (auto simp: heap_ok_def split: if_splits)
  ultimately show ?thesis using u pos d prep(6) by (intro that [of d ?h3 u]) (auto simp: fresh_vector_def)
qed

text \<open>Appending at the end of the list, whether the vector has to grow or not.\<close>

lemma add_ok:
  assumes v: "vec_inv v" "v_number_of_buckets v < 2 ^ 30" and b: "\<not> vacant (v_bucket_value b)"
    and ld: "cells h a = Some (VecObj v att)" and ok: "heap_ok h" and mem: "\<forall>i. \<not> oom h i"
  obtains d v' att' h' where "im_add_element (Suc (Suc n)) (Ptr a []) b h = Some (int (length (vec_list v)), Ptr d [], h')"
    "cells h' = (cells h)(a := None, d \<mapsto> VecObj v' att')" "d = a \<or> cells h d = None" "heap_ok h'" "oom h' = oom h"
    "vec_inv v'" "vec_list v' = vec_list v @ [b]"
proof (cases "v_inuse v < v_number_of_buckets v")
  case True
  have l: "load_vector h (Ptr a []) = Some (v, att)" using ld by simp
  obtain h' where S: "add_slot (Ptr a []) b h = Some (int (v_inuse v), Ptr a [], h')"
    "store (Ptr a []) (VecObj (v_put v b) att) h = Some h'"
    by (rule add_slot_ok [OF l v(1) True])
  have h': "h' = h\<lparr>cells := (cells h)(a := None, a \<mapsto> VecObj (v_put v b) att)\<rparr>" using S(2) ld by simp
  moreover have "heap_ok h'" using ok ld unfolding h' by (auto simp: heap_ok_def)
  ultimately show ?thesis
    using S(1) add_no_resize [OF l True b] vec_inv_put [OF v(1) True b] vec_list_put [OF v(1) True, of b]
    by (intro that [of a h' "v_put v b" att]) (auto simp: length_vec_list [OF v(1)])
next
  case False
  then have full: "v_inuse v = v_number_of_buckets v" using v(1) by (simp add: vec_inv_def)
  obtain d u h' where R: "im_resize_vector (Suc n) (Ptr a []) h = Some (0, Ptr d [], h')"
    "cells h' = (cells h)(a := None, d \<mapsto> VecObj u (filter (\<lambda>(off, _). off < v_attached_offset v) att))"
    "cells h d = None" "heap_ok h'" "oom h' = oom h"
    "vec_inv u" "vec_list u = vec_list v" "v_inuse u < v_number_of_buckets u"
    "v_attached_offset u = v_attached_offset v"
    by (rule resize_ok [OF v(1) full v(2) ld ok mem, of n])
  have l: "load_vector h' (Ptr d []) = Some (u, filter (\<lambda>(off, _). off < v_attached_offset v) att)" using R(2) by simp
  obtain h'' where S: "add_slot (Ptr d []) b h' = Some (int (v_inuse u), Ptr d [], h'')"
    "store (Ptr d []) (VecObj (v_put u b) (filter (\<lambda>(off, _). off < v_attached_offset v) att)) h' = Some h''"
    by (rule add_slot_ok [OF l R(6,8)])
  have "im_add_element (Suc (Suc n)) (Ptr a []) b h = Some (int (length (vec_list v)), Ptr d [], h'')"
    using ld False R(1,7) S(1) b length_vec_list [OF R(6)] by (simp add: im_add_element.simps)
  moreover have h'': "h'' = h'\<lparr>cells := (cells h)(a := None,
      d \<mapsto> VecObj (v_put u b) (filter (\<lambda>(off, _). off < v_attached_offset v) att))\<rparr>"
    using S(2) R(2) by (simp add: fun_upd_twist)
  moreover have "heap_ok h''" using R(4) unfolding h'' heap_ok_def R(2) by (auto split: if_splits)
  ultimately show ?thesis
    using R(3,5,7) vec_inv_put [OF R(6,8) b] vec_list_put [OF R(6,8), of b]
    by (intro that [of d h'' "v_put u b"]) auto
qed

text \<open>A vector of capacity 0 never grows: doubling gives 0 again, and the append is out of bounds.\<close>

lemma resize_zero:
  assumes "cells h a = Some (VecObj v att)" "v_number_of_buckets v = 0" "\<forall>i. \<not> oom h i" "heap_ok h"
    "v_attached_offset v = 0"
  obtains d u h' where "im_resize_vector n (Ptr a []) h = Some (0, Ptr d [], h')"
    "cells h' d = Some (VecObj u [])" "v_buckets u = []"
proof -
  have "cells h (brk h) = None" using assms(4) heap_ok_fresh by simp
  then have "a \<noteq> brk h" using assms(1) by auto
  with assms show ?thesis
    by (intro that [of "brk h" "h\<lparr>cells := (cells h)(brk h \<mapsto> VecObj (fresh_vector 0) [], a := None), brk := Suc (brk h)\<rparr>"
          "fresh_vector 0"])
      (simp_all add: im_resize_vector.simps im_initialize_vector_def alloc_def resize_prepare_def
        fresh_vector_def fun_upd_twist)
qed

lemma add_zero_capacity:
  assumes "cells h a = Some (VecObj v att)" "v_number_of_buckets v = 0" "\<forall>i. \<not> oom h i" "heap_ok h"
    "v_attached_offset v = 0" "\<not> vacant (v_bucket_value b)"
  shows "im_add_element n (Ptr a []) b h = None"
proof (cases n)
  case (Suc m)
  obtain d u h' where "im_resize_vector m (Ptr a []) h = Some (0, Ptr d [], h')"
    "cells h' d = Some (VecObj u [])" "v_buckets u = []"
    by (rule resize_zero [OF assms(1-5), of m])
  with assms Suc show ?thesis by (simp add: im_add_element.simps add_slot_def)
qed (simp add: im_add_element.simps)

section \<open>Deleting, replacing, emptying\<close>

lemma take_move_down:
  assumes "i < n" "n \<le> length bs"
  shows "take (n - 1) (move_down i n bs) = take i bs @ drop (Suc i) (take n bs)"
    and "length (move_down i n bs) = length bs"
  using assms by (simp_all add: move_down_def drop_take)

lemma v_free_element:
  assumes ld: "load_vector h p = Some (v, att)" and inv: "vec_inv v" and i: "0 \<le> i" "i < int (v_inuse v)"
    and fp: "value_fp n h p (v_bucket_value (vec_list v ! nat i)) = Some as" "distinct as" "root p \<notin> set as"
  shows "v_free_bucket n p (nat i) h = Some (release as h)" "load_vector (release as h) p = Some (v, att)"
    "load (release as h) p = Some (VecObj v att)"
proof -
  have n: "nat i < length (v_buckets v)" "vec_list v ! nat i = v_buckets v ! nat i"
    using i inv by (auto simp: vec_inv_def vec_list_def)
  show "v_free_bucket n p (nat i) h = Some (release as h)"
    using v_free_bucket_release [OF ld n(1) fp(1) [unfolded n(2)] fp(2,3)] by (simp add: same_on_def)
  show "load_vector (release as h) p = Some (v, att)"
    using same_load_vector [of "release as h" p h] fp(3) ld by simp
  then show "load (release as h) p = Some (VecObj v att)" by (simp add: load_vector_iff)
qed

lemma del_ok:
  assumes ld: "load_vector h p = Some (v, att)" and inv: "vec_inv v" and i: "0 \<le> i" "i < int (v_inuse v)"
    and fp: "value_fp n h p (v_bucket_value (vec_list v ! nat i)) = Some as" "distinct as" "root p \<notin> set as"
  obtains v' h' where "im_del_element n p i h = Some (i, h')"
    "store p (VecObj v' att) (release as h) = Some h'" "vec_inv v'"
    "vec_list v' = take (nat i) (vec_list v) @ drop (Suc (nat i)) (vec_list v)"
proof -
  let ?v = "v\<lparr>v_buckets := move_down (nat i) (v_inuse v) (v_buckets v), v_inuse := v_inuse v - 1\<rparr>"
  note fr = v_free_element [OF assms]
  have le: "nat i < v_inuse v" "v_inuse v \<le> length (v_buckets v)" "u32_dec (v_inuse v) = v_inuse v - 1"
    using i inv by (auto simp: vec_inv_def)
  obtain h' where st: "store p (VecObj ?v att) (release as h) = Some h'" using store_total [OF fr(3)] by blast
  have "im_del_element n p i h = Some (i, h')"
    using ld i fr st le(3) by (simp add: im_del_element_def)
  moreover have vl: "vec_list ?v = take (nat i) (vec_list v) @ drop (Suc (nat i)) (vec_list v)"
    using take_move_down(1) [OF le(1,2)] le by (simp add: vec_list_def min_absorb1)
  moreover have "vec_inv ?v"
  proof -
    have "set (vec_list ?v) \<subseteq> set (vec_list v)" unfolding vl by (auto dest: in_set_takeD in_set_dropD)
    then have "\<forall>b \<in> set (vec_list ?v). \<not> vacant (v_bucket_value b)" using inv by (auto simp: vec_inv_def)
    with inv le show ?thesis by (auto simp: vec_inv_def take_move_down(2) [OF le(1,2)])
  qed
  ultimately show ?thesis using st that by blast
qed

lemma set_ok:
  assumes ld: "load_vector h p = Some (v, att)" and inv: "vec_inv v" and i: "0 \<le> i" "i < int (v_inuse v)"
    and fp: "value_fp n h p (v_bucket_value (vec_list v ! nat i)) = Some as" "distinct as" "root p \<notin> set as"
    and b: "\<not> vacant (v_bucket_value b)"
  obtains v' h' where "im_set_element n p i b h = Some (i, h')"
    "store p (VecObj v' att) (release as h) = Some h'" "vec_inv v'" "vec_list v' = (vec_list v)[nat i := b]"
proof -
  let ?v = "v\<lparr>v_buckets := (v_buckets v)[nat i := b]\<rparr>"
  note fr = v_free_element [OF assms(1-7)]
  obtain h' where st: "store p (VecObj ?v att) (release as h) = Some h'" using store_total [OF fr(3)] by blast
  have "im_set_element n p i b h = Some (i, h')"
    using ld i fr st b by (simp add: im_set_element_def)
  moreover have vl: "vec_list ?v = (vec_list v)[nat i := b]"
    by (simp add: vec_list_def take_update_swap)
  moreover have "set (vec_list ?v) \<subseteq> insert b (set (vec_list v))"
    unfolding vl by (rule set_update_subset_insert)
  then have "\<forall>x \<in> set (vec_list ?v). \<not> vacant (v_bucket_value x)" using inv b by (auto simp: vec_inv_def)
  then have "vec_inv ?v" using inv by (simp add: vec_inv_def)
  ultimately show ?thesis using st that by blast
qed

end
