(* ===== verification/C_Float.thy ===== *)
theory C_Float
  imports C_Prelude
begin

text \<open>
  The floating-point types of the platform and the conversions the dictionary uses: \<^verbatim>\<open>float\<close> and
  \<^verbatim>\<open>double\<close> in the IEEE 754 interchange formats, \<^verbatim>\<open>long double\<close> in the x87 extended format, each as
  its bit pattern. A finite number is decoded to sign, integer significand and power of two, so
  every conversion is exact integer arithmetic followed by one rounding to nearest, ties to even.

  Also here: \<^verbatim>\<open>atof\<close> (\<^verbatim>\<open>strtod\<close> in the C locale; the optional payload of \<^verbatim>\<open>nan(...)\<close> is taken to
  be the default one) and what \<^verbatim>\<open>printf\<close> writes for \<^verbatim>\<open>%.2f\<close>.
\<close>

section \<open>Formats\<close>

text \<open>\<open>Fin s m e\<close> is \<open>(-1)\<^sup>s m 2\<^sup>e\<close>; a NaN carries the 63 fraction bits of the widest format.\<close>

datatype fval = Fin bool nat int | Inf bool | NaN bool nat

definition decode_f32 :: "32 word \<Rightarrow> fval" where
  "decode_f32 w =
     (let u = unat w; s = 2 ^ 31 \<le> u; e = u div 2 ^ 23 mod 2 ^ 8; f = u mod 2 ^ 23 in
      if e = 255 then (if f = 0 then Inf s else NaN s (f * 2 ^ 40))
      else if e = 0 then Fin s f (- 149)
      else Fin s (2 ^ 23 + f) (int e - 150))"

definition decode_f64 :: "64 word \<Rightarrow> fval" where
  "decode_f64 w =
     (let u = unat w; s = 2 ^ 63 \<le> u; e = u div 2 ^ 52 mod 2 ^ 11; f = u mod 2 ^ 52 in
      if e = 2047 then (if f = 0 then Inf s else NaN s (f * 2 ^ 11))
      else if e = 0 then Fin s f (- 1074)
      else Fin s (2 ^ 52 + f) (int e - 1075))"

text \<open>The x87 format keeps the integer bit; patterns without it are invalid operands.\<close>

definition decode_f80 :: "80 word \<Rightarrow> fval" where
  "decode_f80 w =
     (let u = unat w; s = 2 ^ 79 \<le> u; e = u div 2 ^ 64 mod 2 ^ 15; m = u mod 2 ^ 64; f = m mod 2 ^ 63 in
      if e = 32767 then (if m = 2 ^ 63 then Inf s else NaN s f)
      else if e = 0 then Fin s m (- 16445)
      else if m < 2 ^ 63 then NaN True (2 ^ 62)
      else Fin s m (int e - 16446))"

section \<open>Rounding\<close>

definition round_half_even :: "nat \<Rightarrow> nat \<Rightarrow> nat" where
  "round_half_even num den =
     (let q = num div den; r = num mod den in
      if den < 2 * r \<or> (den = 2 * r \<and> odd q) then Suc q else q)"

fun bitlen :: "nat \<Rightarrow> nat" where
  "bitlen n = (if n = 0 then 0 else Suc (bitlen (n div 2)))"

declare bitlen.simps [simp del]

text \<open>The fraction \<open>num / den\<close> times \<open>2\<^sup>e\<close>, as a fraction.\<close>

definition scale :: "nat \<times> nat \<Rightarrow> int \<Rightarrow> nat \<times> nat" where
  "scale q e = (if 0 \<le> e then (fst q * 2 ^ nat e, snd q) else (fst q, snd q * 2 ^ nat (- e)))"

text \<open>The exponent of the leading bit of a positive fraction.\<close>

definition lead :: "nat \<times> nat \<Rightarrow> int" where
  "lead q = (let d = int (bitlen (fst q)) - int (bitlen (snd q));
                 (a, b) = scale q (- d)
             in if b \<le> a then d else d - 1)"

text \<open>
  Rounding a positive fraction to \<open>p\<close> significant bits with least exponent \<open>emin\<close>: significand
  and exponent.
\<close>

definition round_sig :: "nat \<Rightarrow> int \<Rightarrow> nat \<times> nat \<Rightarrow> nat \<times> int" where
  "round_sig p emin q =
     (let e = max emin (lead q - int p + 1); (a, b) = scale q (- e)
      in (round_half_even a b, e))"

text \<open>
  The magnitude bits of the two interchange formats. Adding the significand to the exponent field
  puts the hidden bit and a carry out of the significand where they belong.
\<close>

definition pack :: "nat \<Rightarrow> int \<Rightarrow> nat \<Rightarrow> nat \<times> nat \<Rightarrow> nat" where
  "pack p emin infbits q =
     (if fst q = 0 then 0
      else let (m, e) = round_sig p emin q in min infbits (nat (e - emin) * 2 ^ (p - 1) + m))"

definition round_f32 :: "bool \<Rightarrow> nat \<times> nat \<Rightarrow> 32 word" where
  "round_f32 s q = word_of_nat ((if s then 2 ^ 31 else 0) + pack 24 (- 149) (255 * 2 ^ 23) q)"

definition round_f64 :: "bool \<Rightarrow> nat \<times> nat \<Rightarrow> 64 word" where
  "round_f64 s q = word_of_nat ((if s then 2 ^ 63 else 0) + pack 53 (- 1074) (2047 * 2 ^ 52) q)"

definition round_f80 :: "bool \<Rightarrow> nat \<times> nat \<Rightarrow> 80 word" where
  "round_f80 s q = word_of_nat ((if s then 2 ^ 79 else 0) +
     (if fst q = 0 then 0
      else let (m, e) = round_sig 64 (- 16445) q;
               (m, e) = (if m = 2 ^ 64 then (2 ^ 63, e + 1) else (m, e));
               x = (if m < 2 ^ 63 then 0 else nat (e + 16446))
           in if 32767 \<le> x then 32767 * 2 ^ 64 + 2 ^ 63 else x * 2 ^ 64 + m))"

section \<open>Conversions\<close>

definition quiet :: "nat \<Rightarrow> nat \<Rightarrow> nat" where
  "quiet k f = (if f < 2 ^ k then f + 2 ^ k else f)"

fun to_f32 :: "fval \<Rightarrow> 32 word" where
  "to_f32 (Fin s m e) = round_f32 s (scale (m, 1) e)"
| "to_f32 (Inf s) = word_of_nat ((if s then 2 ^ 31 else 0) + 255 * 2 ^ 23)"
| "to_f32 (NaN s f) = word_of_nat ((if s then 2 ^ 31 else 0) + 255 * 2 ^ 23 + quiet 22 (f div 2 ^ 40))"

fun to_f64 :: "fval \<Rightarrow> 64 word" where
  "to_f64 (Fin s m e) = round_f64 s (scale (m, 1) e)"
| "to_f64 (Inf s) = word_of_nat ((if s then 2 ^ 63 else 0) + 2047 * 2 ^ 52)"
| "to_f64 (NaN s f) = word_of_nat ((if s then 2 ^ 63 else 0) + 2047 * 2 ^ 52 + quiet 51 (f div 2 ^ 11))"

fun to_f80 :: "fval \<Rightarrow> 80 word" where
  "to_f80 (Fin s m e) = round_f80 s (scale (m, 1) e)"
| "to_f80 (Inf s) = word_of_nat ((if s then 2 ^ 79 else 0) + 32767 * 2 ^ 64 + 2 ^ 63)"
| "to_f80 (NaN s f) = word_of_nat ((if s then 2 ^ 79 else 0) + 32767 * 2 ^ 64 + 2 ^ 63 + quiet 62 f)"

definition fp_of_int :: "int \<Rightarrow> fval" where
  "fp_of_int i = Fin (i < 0) (nat \<bar>i\<bar>) 0"

text \<open>Conversion to an integer type with the range from \<open>lo\<close> to \<open>hi\<close>: undefined outside it.\<close>

definition trunc :: "fval \<Rightarrow> int option" where
  "trunc v = (case v of
      Fin s m e \<Rightarrow> (let (a, b) = scale (m, 1) e in Some (if s then - int (a div b) else int (a div b)))
    | _ \<Rightarrow> None)"

definition trunc_to :: "int \<Rightarrow> int \<Rightarrow> fval \<Rightarrow> int option" where
  "trunc_to lo hi v = (case trunc v of None \<Rightarrow> None | Some i \<Rightarrow> if lo \<le> i \<and> i \<le> hi then Some i else None)"

section \<open>Reading and printing\<close>

definition to_lower :: "char \<Rightarrow> char" where
  "to_lower c = (let n = of_char c in if 65 \<le> n \<and> n \<le> (90 :: nat) then char_of (n + 32) else c)"

definition is_xdigit :: "char \<Rightarrow> bool" where
  "is_xdigit c = (is_digit c \<or> to_lower c \<in> set ''abcdef'')"

definition xdigit :: "char \<Rightarrow> nat" where
  "xdigit c = (if is_digit c then of_char c - 48 else of_char (to_lower c) - 87)"

definition digits_in :: "nat \<Rightarrow> char list \<Rightarrow> nat" where
  "digits_in base = foldl (\<lambda>a c. base * a + xdigit c) 0"

text \<open>An exponent part: its letter, an optional sign and at least one digit, else it is not there.\<close>

definition exponent_part :: "char \<Rightarrow> char list \<Rightarrow> int" where
  "exponent_part letter s =
     (case s of
        c # r \<Rightarrow>
          if to_lower c = letter then
            (let (sg, r) = (case r of d # r' \<Rightarrow> if d = CHR ''-'' then (-1, r') else if d = CHR ''+'' then (1, r') else (1, r)
                            | [] \<Rightarrow> (1, []))
             in sg * int (digits_in 10 (takeWhile is_digit r)))
          else 0
      | [] \<Rightarrow> 0)"

text \<open>Digits with an optional point: the digits before it, those behind it, and the rest.\<close>

definition mantissa :: "(char \<Rightarrow> bool) \<Rightarrow> char list \<Rightarrow> char list \<times> char list \<times> char list" where
  "mantissa dig s =
     (let ip = takeWhile dig s; r = dropWhile dig s in
      case r of
        c # r' \<Rightarrow> if c = CHR ''.'' \<and> (ip \<noteq> [] \<or> takeWhile dig r' \<noteq> [])
                  then (ip, takeWhile dig r', dropWhile dig r') else (ip, [], r)
      | [] \<Rightarrow> (ip, [], []))"

definition strtod :: "char list \<Rightarrow> 64 word" where
  "strtod str =
     (let t = dropWhile is_space (cstr str);
          (s, t) = (case t of c # r \<Rightarrow> if c = CHR ''-'' then (True, r) else if c = CHR ''+'' then (False, r) else (False, t)
                    | [] \<Rightarrow> (False, []));
          low = map to_lower t
      in if take 3 low = ''inf'' then to_f64 (Inf s)
         else if take 3 low = ''nan'' then to_f64 (NaN s (2 ^ 62))
         else if take 2 low = ''0x'' \<and> (let (ip, fp, _) = mantissa is_xdigit (drop 2 t) in ip \<noteq> [] \<or> fp \<noteq> [])
         then (let (ip, fp, r) = mantissa is_xdigit (drop 2 t)
               in round_f64 s (scale (digits_in 16 (ip @ fp), 1)
                    (exponent_part (CHR ''p'') r - 4 * int (length fp))))
         else (let (ip, fp, r) = mantissa is_digit t;
                   e = exponent_part (CHR ''e'') r - int (length fp);
                   n = digits_in 10 (ip @ fp)
               in if ip = [] \<and> fp = [] then 0
                  else round_f64 s (if 0 \<le> e then (n * 10 ^ nat e, 1) else (n, 10 ^ nat (- e)))))"

definition atof :: "char list \<Rightarrow> 64 word" where
  "atof s = strtod s"

definition fmt2 :: "fval \<Rightarrow> string" where
  "fmt2 v =
     (case v of
        Fin s m e \<Rightarrow>
          (let (a, b) = scale (100 * m, 1) e; n = round_half_even a b
           in (if s then ''-'' else []) @ dec_nat (n div 100) @ ''.'' @
              [char_of (48 + n div 10 mod 10), char_of (48 + n mod 10)])
      | Inf s \<Rightarrow> (if s then ''-inf'' else ''inf'')
      | NaN s _ \<Rightarrow> (if s then ''-nan'' else ''nan''))"

end
