(* ===== verification/Beai3Dict.thy ===== *)
theory Beai3Dict
  imports Im_Owned Im_Vector C_Float
begin

text \<open>
  The programming interface of the dictionary library, \<^verbatim>\<open>utils/beai3/Beai3Dict.c\<close>.

  A handle is \<open>None\<close> for \<^verbatim>\<open>NULL\<close>; \<^verbatim>\<open>DictHandle *\<close> is \<open>None\<close> for \<^verbatim>\<open>NULL\<close>, else the handle it
  points to, and comes back with the result since insertion may move the table. Keys and strings
  are \<open>None\<close> for \<^verbatim>\<open>NULL\<close>. An output parameter is the object pointed to, \<open>None\<close> for \<^verbatim>\<open>NULL\<close>.

  The getters of numbers share one body in the source but for the target type, and so do the setters;
  here \<open>get_number\<close> and \<open>set_number\<close> are these bodies, and the functions of the interface
  instantiate them with the conversions of their type.
\<close>

type_synonym handle = "ptr option"

section \<open>Creating and destroying\<close>

definition InitDict :: "int \<Rightarrow> heap \<Rightarrow> (handle \<times> heap) option" where
  "InitDict capacity h = (if capacity < 0 then Some (None, h) else im_initialize_hashtable capacity h)"

definition DestroyDict :: "nat \<Rightarrow> handle \<Rightarrow> heap \<Rightarrow> heap option" where
  "DestroyDict n handle h = (case handle of None \<Rightarrow> Some h | Some p \<Rightarrow> im_destroy_hashtable n p h)"

definition InitArray :: "int \<Rightarrow> heap \<Rightarrow> (handle \<times> heap) option" where
  "InitArray capacity h = (if capacity < 0 then Some (None, h) else im_initialize_vector capacity h)"

definition DestroyArray :: "nat \<Rightarrow> handle \<Rightarrow> heap \<Rightarrow> heap option" where
  "DestroyArray n handle h = (case handle of None \<Rightarrow> Some h | Some p \<Rightarrow> im_destroy_vector n p h)"

definition ClearDict :: "nat \<Rightarrow> handle \<Rightarrow> heap \<Rightarrow> heap option" where
  "ClearDict n handle h = (case handle of None \<Rightarrow> Some h | Some p \<Rightarrow> im_empty_hashtable n p h)"

definition ClearArray :: "nat \<Rightarrow> handle \<Rightarrow> heap \<Rightarrow> heap option" where
  "ClearArray n handle h = (case handle of None \<Rightarrow> Some h | Some p \<Rightarrow> im_empty_vector n p h)"

section \<open>Reading\<close>

text \<open>
  The bucket a getter works on: \<open>Some None\<close> if one of the arguments is \<^verbatim>\<open>NULL\<close> or the key is not
  there.
\<close>

definition lookup_bucket :: "handle \<Rightarrow> string option \<Rightarrow> 'a option \<Rightarrow> heap \<Rightarrow> (ptr \<times> im_hash_bucket) option option" where
  "lookup_bucket handle key value h =
     (case (handle, key, value) of
        (Some p, Some k, Some _) \<Rightarrow>
          do { (t, _) \<leftarrow> load_hash h p;
               b \<leftarrow> im_retrieve_element_by_key t k;
               Some (map_option (Pair p) b) }
      | _ \<Rightarrow> Some None)"

text \<open>The conversions to the type of the output parameter; those from floating point may be undefined.\<close>

record 'a conv =
  conv_int :: "int \<Rightarrow> 'a"
  conv_float :: "32 word \<Rightarrow> 'a option"
  conv_double :: "64 word \<Rightarrow> 'a option"
  conv_longdouble :: "80 word \<Rightarrow> 'a option"
  conv_string :: "char list \<Rightarrow> 'a"

text \<open>The \<^verbatim>\<open>switch\<close> of the getters: \<open>Some None\<close> is the \<^verbatim>\<open>default\<close> case.\<close>

definition number_of_value :: "'a conv \<Rightarrow> heap \<Rightarrow> ptr \<Rightarrow> im_value \<Rightarrow> 'a option option" where
  "number_of_value c h p v =
     (case v of
        IM_SHORT w \<Rightarrow> Some (Some (conv_int c (sint w)))
      | IM_INT w \<Rightarrow> Some (Some (conv_int c (sint w)))
      | IM_LONG w \<Rightarrow> Some (Some (conv_int c (sint w)))
      | IM_LONGLONG w \<Rightarrow> Some (Some (conv_int c (sint w)))
      | IM_USHORT w \<Rightarrow> Some (Some (conv_int c (uint w)))
      | IM_UINT w \<Rightarrow> Some (Some (conv_int c (uint w)))
      | IM_ULONG w \<Rightarrow> Some (Some (conv_int c (uint w)))
      | IM_ULONGLONG w \<Rightarrow> Some (Some (conv_int c (uint w)))
      | IM_FLOAT w \<Rightarrow> map_option Some (conv_float c w)
      | IM_DOUBLE w \<Rightarrow> map_option Some (conv_double c w)
      | IM_LONGDOUBLE w \<Rightarrow> map_option Some (conv_longdouble c w)
      | IM_STRING s \<Rightarrow> Some (Some (conv_string c s))
      | IM_EXTERNAL_STRING _ q \<Rightarrow> map_option (\<lambda>s. Some (conv_string c s)) (load_bytes h q)
      | IM_ATTACHED_STRING _ off \<Rightarrow> map_option (\<lambda>s. Some (conv_string c s)) (load_bytes h (inside p off))
      | _ \<Rightarrow> Some None)"

definition get_number :: "'a conv \<Rightarrow> handle \<Rightarrow> string option \<Rightarrow> 'a option \<Rightarrow> heap \<Rightarrow> (int \<times> 'a option) option" where
  "get_number c handle key value h =
     do { r \<leftarrow> lookup_bucket handle key value h;
          (case r of
             None \<Rightarrow> Some (-1, value)
           | Some (p, b) \<Rightarrow>
               do { x \<leftarrow> number_of_value c h p (bucket_value b);
                    Some (case x of None \<Rightarrow> (-1, value) | Some y \<Rightarrow> (0, Some y)) }) }"

text \<open>Targets of integer type with the range from \<open>lo\<close> to \<open>hi\<close>, read from strings by \<open>rd\<close>.\<close>

definition int_conv :: "int \<Rightarrow> int \<Rightarrow> (char list \<Rightarrow> int) \<Rightarrow> 'w::len word conv" where
  "int_conv lo hi rd = \<lparr>
     conv_int = word_of_int,
     conv_float = (\<lambda>w. map_option word_of_int (trunc_to lo hi (decode_f32 w))),
     conv_double = (\<lambda>w. map_option word_of_int (trunc_to lo hi (decode_f64 w))),
     conv_longdouble = (\<lambda>w. map_option word_of_int (trunc_to lo hi (decode_f80 w))),
     conv_string = (\<lambda>s. word_of_int (rd s))\<rparr>"

definition float_conv :: "32 word conv" where
  "float_conv = \<lparr>
     conv_int = (\<lambda>i. to_f32 (fp_of_int i)),
     conv_float = Some,
     conv_double = (\<lambda>w. Some (to_f32 (decode_f64 w))),
     conv_longdouble = (\<lambda>w. Some (to_f32 (decode_f80 w))),
     conv_string = (\<lambda>s. to_f32 (decode_f64 (atof s)))\<rparr>"

definition double_conv :: "64 word conv" where
  "double_conv = \<lparr>
     conv_int = (\<lambda>i. to_f64 (fp_of_int i)),
     conv_float = (\<lambda>w. Some (to_f64 (decode_f32 w))),
     conv_double = Some,
     conv_longdouble = (\<lambda>w. Some (to_f64 (decode_f80 w))),
     conv_string = atof\<rparr>"

definition longdouble_conv :: "80 word conv" where
  "longdouble_conv = \<lparr>
     conv_int = (\<lambda>i. to_f80 (fp_of_int i)),
     conv_float = (\<lambda>w. Some (to_f80 (decode_f32 w))),
     conv_double = (\<lambda>w. Some (to_f80 (decode_f64 w))),
     conv_longdouble = Some,
     conv_string = (\<lambda>s. to_f80 (decode_f64 (atof s)))\<rparr>"

definition GetDictShort :: "handle \<Rightarrow> string option \<Rightarrow> 16 word option \<Rightarrow> heap \<Rightarrow> (int \<times> 16 word option) option" where
  "GetDictShort = get_number (int_conv (- (2 ^ 15)) (2 ^ 15 - 1) atoi)"

definition GetDictInt :: "handle \<Rightarrow> string option \<Rightarrow> 32 word option \<Rightarrow> heap \<Rightarrow> (int \<times> 32 word option) option" where
  "GetDictInt = get_number (int_conv (- (2 ^ 31)) (2 ^ 31 - 1) atoi)"

definition GetDictLong :: "handle \<Rightarrow> string option \<Rightarrow> 64 word option \<Rightarrow> heap \<Rightarrow> (int \<times> 64 word option) option" where
  "GetDictLong = get_number (int_conv (- (2 ^ 63)) (2 ^ 63 - 1) atol)"

definition GetDictLongLong :: "handle \<Rightarrow> string option \<Rightarrow> 64 word option \<Rightarrow> heap \<Rightarrow> (int \<times> 64 word option) option" where
  "GetDictLongLong = get_number (int_conv (- (2 ^ 63)) (2 ^ 63 - 1) atol)"

definition GetDictUShort :: "handle \<Rightarrow> string option \<Rightarrow> 16 word option \<Rightarrow> heap \<Rightarrow> (int \<times> 16 word option) option" where
  "GetDictUShort = get_number (int_conv 0 (2 ^ 16 - 1) atoi)"

definition GetDictUInt :: "handle \<Rightarrow> string option \<Rightarrow> 32 word option \<Rightarrow> heap \<Rightarrow> (int \<times> 32 word option) option" where
  "GetDictUInt = get_number (int_conv 0 (2 ^ 32 - 1) atoi)"

definition GetDictULong :: "handle \<Rightarrow> string option \<Rightarrow> 64 word option \<Rightarrow> heap \<Rightarrow> (int \<times> 64 word option) option" where
  "GetDictULong = get_number (int_conv 0 (2 ^ 64 - 1) atol)"

definition GetDictULongLong :: "handle \<Rightarrow> string option \<Rightarrow> 64 word option \<Rightarrow> heap \<Rightarrow> (int \<times> 64 word option) option" where
  "GetDictULongLong = get_number (int_conv 0 (2 ^ 64 - 1) atol)"

definition GetDictFloat :: "handle \<Rightarrow> string option \<Rightarrow> 32 word option \<Rightarrow> heap \<Rightarrow> (int \<times> 32 word option) option" where
  "GetDictFloat = get_number float_conv"

definition GetDictDouble :: "handle \<Rightarrow> string option \<Rightarrow> 64 word option \<Rightarrow> heap \<Rightarrow> (int \<times> 64 word option) option" where
  "GetDictDouble = get_number double_conv"

definition GetDictLongDouble :: "handle \<Rightarrow> string option \<Rightarrow> 80 word option \<Rightarrow> heap \<Rightarrow> (int \<times> 80 word option) option" where
  "GetDictLongDouble = get_number longdouble_conv"

text \<open>
  \<^verbatim>\<open>snprintf\<close> and \<^verbatim>\<open>strncpy\<close> with a final NUL both leave at most \<open>size - 1\<close> bytes of the text in
  the buffer; the buffer is the bytes up to the terminator.
\<close>

definition text_of_value :: "heap \<Rightarrow> ptr \<Rightarrow> im_value \<Rightarrow> string option option" where
  "text_of_value h p v =
     (case v of
        IM_SHORT w \<Rightarrow> Some (Some (dec_int (sint w)))
      | IM_INT w \<Rightarrow> Some (Some (dec_int (sint w)))
      | IM_LONG w \<Rightarrow> Some (Some (dec_int (sint w)))
      | IM_LONGLONG w \<Rightarrow> Some (Some (dec_int (sint w)))
      | IM_USHORT w \<Rightarrow> Some (Some (dec_nat (unat w)))
      | IM_UINT w \<Rightarrow> Some (Some (dec_nat (unat w)))
      | IM_ULONG w \<Rightarrow> Some (Some (dec_nat (unat w)))
      | IM_ULONGLONG w \<Rightarrow> Some (Some (dec_nat (unat w)))
      | IM_FLOAT w \<Rightarrow> Some (Some (fmt2 (decode_f32 w)))
      | IM_DOUBLE w \<Rightarrow> Some (Some (fmt2 (decode_f64 w)))
      | IM_LONGDOUBLE w \<Rightarrow> Some (Some (fmt2 (decode_f80 w)))
      | IM_STRING s \<Rightarrow> Some (Some (cstr s))
      | IM_EXTERNAL_STRING _ q \<Rightarrow> map_option (\<lambda>s. Some (cstr s)) (load_bytes h q)
      | IM_ATTACHED_STRING _ off \<Rightarrow> map_option (\<lambda>s. Some (cstr s)) (load_bytes h (inside p off))
      | _ \<Rightarrow> Some None)"

definition GetDictString :: "handle \<Rightarrow> string option \<Rightarrow> string option \<Rightarrow> int \<Rightarrow> heap \<Rightarrow> (int \<times> string option) option" where
  "GetDictString handle key value sz h =
     (if sz \<le> 0 then Some (-1, value)
      else do { r \<leftarrow> lookup_bucket handle key value h;
          (case r of
             None \<Rightarrow> Some (-1, value)
           | Some (p, b) \<Rightarrow>
               do { x \<leftarrow> text_of_value h p (bucket_value b);
                    Some (case x of None \<Rightarrow> (-1, value)
                          | Some s \<Rightarrow> (int (length (take (nat sz - 1) s)), Some (take (nat sz - 1) s))) }) })"

text \<open>
  \<^verbatim>\<open>memcpy\<close> of the smaller of buffer size and value length: undefined beyond the source, and
  the rest of the buffer is kept.
\<close>

definition memcpy :: "char list \<Rightarrow> char list \<Rightarrow> nat \<Rightarrow> char list option" where
  "memcpy dst src n = (if length src < n \<or> length dst < n then None else Some (take n src @ drop n dst))"

definition GetDictBlock :: "handle \<Rightarrow> string option \<Rightarrow> char list option \<Rightarrow> int \<Rightarrow> heap \<Rightarrow> (int \<times> char list option) option" where
  "GetDictBlock handle key value sz h =
     (if sz \<le> 0 then Some (-1, value)
      else do { r \<leftarrow> lookup_bucket handle key value h;
          (case r of
             None \<Rightarrow> Some (-1, value)
           | Some (p, b) \<Rightarrow>
               do { let copy_size = min (nat sz) (value_length b);
                    src \<leftarrow> (case bucket_value b of
                        IM_BLOCK s \<Rightarrow> Some (Some s)
                      | IM_EXTERNAL_BLOCK _ q \<Rightarrow> map_option Some (load_bytes h q)
                      | IM_ATTACHED_BLOCK _ off \<Rightarrow> map_option Some (load_bytes h (inside p off))
                      | _ \<Rightarrow> Some None);
                    (case src of None \<Rightarrow> Some (-1, value)
                     | Some s \<Rightarrow> do { v \<leftarrow> memcpy (the value) s copy_size; Some (int copy_size, Some v) }) }) })"

definition GetDictDict :: "handle \<Rightarrow> string option \<Rightarrow> handle option \<Rightarrow> heap \<Rightarrow> (int \<times> handle option) option" where
  "GetDictDict handle key value h =
     do { r \<leftarrow> lookup_bucket handle key value h;
          (case r of
             None \<Rightarrow> Some (-1, value)
           | Some (p, b) \<Rightarrow>
               Some (case bucket_value b of
                   IM_EXTERNAL_NESTED _ q \<Rightarrow> (0, Some (Some q))
                 | IM_ATTACHED_NESTED _ off \<Rightarrow> (0, Some (Some (inside p off)))
                 | _ \<Rightarrow> (-1, value))) }"

definition GetDictArray :: "handle \<Rightarrow> string option \<Rightarrow> handle option \<Rightarrow> heap \<Rightarrow> (int \<times> handle option) option" where
  "GetDictArray handle key value h =
     do { r \<leftarrow> lookup_bucket handle key value h;
          (case r of
             None \<Rightarrow> Some (-1, value)
           | Some (p, b) \<Rightarrow>
               Some (case bucket_value b of
                   IM_EXTERNAL_VECTOR _ q \<Rightarrow> (0, Some (Some q))
                 | IM_ATTACHED_VECTOR _ off \<Rightarrow> (0, Some (Some (inside p off)))
                 | _ \<Rightarrow> (-1, value))) }"

section \<open>Writing\<close>

text \<open>
  The key field of a bucket: \<^verbatim>\<open>strncpy\<close> of at most 102 bytes, padded with NUL, and the last byte.
  \<open>SetDictString\<close> and \<open>SetDictBlock\<close> do not write the last byte; what happens to be there is
  their parameter \<open>junk\<close>.
\<close>

definition key_field :: "string \<Rightarrow> char \<Rightarrow> char list" where
  "key_field k final = take KEY_MAX_LENGTH (cstr k @ replicate KEY_MAX_LENGTH NUL) @ [final]"

text \<open>What every setter starts with: find the key and delete what is there, whatever comes back.\<close>

definition drop_existing :: "nat \<Rightarrow> ptr \<Rightarrow> string \<Rightarrow> heap \<Rightarrow> heap option" where
  "drop_existing n p k h =
     do { (t, _) \<leftarrow> load_hash h p;
          existing \<leftarrow> im_find_element t k;
          (_, h) \<leftarrow> im_delete_element n p existing h;
          Some h }"

definition insert_bucket :: "nat \<Rightarrow> ptr \<Rightarrow> im_hash_bucket \<Rightarrow> heap \<Rightarrow> (int \<times> handle option \<times> heap) option" where
  "insert_bucket n p b h = do { (r, p, h) \<leftarrow> im_insert_element n p b h; Some (r, Some (Some p), h) }"

definition set_number :: "nat \<Rightarrow> handle option \<Rightarrow> string option \<Rightarrow> nat \<Rightarrow> im_value \<Rightarrow> heap \<Rightarrow> (int \<times> handle option \<times> heap) option" where
  "set_number n handle key sz v h =
     (case (handle, key) of
        (Some (Some p), Some k) \<Rightarrow>
          do { h \<leftarrow> drop_existing n p k h;
               insert_bucket n p \<lparr>bucket_key = key_field k NUL, value_length = sz, bucket_value = v\<rparr> h }
      | _ \<Rightarrow> Some (-1, handle, h))"

definition SetDictShort :: "nat \<Rightarrow> handle option \<Rightarrow> string option \<Rightarrow> 16 word \<Rightarrow> heap \<Rightarrow> (int \<times> handle option \<times> heap) option" where
  "SetDictShort n handle key value h = set_number n handle key 2 (IM_SHORT value) h"

definition SetDictInt :: "nat \<Rightarrow> handle option \<Rightarrow> string option \<Rightarrow> 32 word \<Rightarrow> heap \<Rightarrow> (int \<times> handle option \<times> heap) option" where
  "SetDictInt n handle key value h = set_number n handle key 4 (IM_INT value) h"

definition SetDictLong :: "nat \<Rightarrow> handle option \<Rightarrow> string option \<Rightarrow> 64 word \<Rightarrow> heap \<Rightarrow> (int \<times> handle option \<times> heap) option" where
  "SetDictLong n handle key value h = set_number n handle key 8 (IM_LONG value) h"

definition SetDictLongLong :: "nat \<Rightarrow> handle option \<Rightarrow> string option \<Rightarrow> 64 word \<Rightarrow> heap \<Rightarrow> (int \<times> handle option \<times> heap) option" where
  "SetDictLongLong n handle key value h = set_number n handle key 8 (IM_LONGLONG value) h"

definition SetDictUShort :: "nat \<Rightarrow> handle option \<Rightarrow> string option \<Rightarrow> 16 word \<Rightarrow> heap \<Rightarrow> (int \<times> handle option \<times> heap) option" where
  "SetDictUShort n handle key value h = set_number n handle key 2 (IM_USHORT value) h"

definition SetDictUInt :: "nat \<Rightarrow> handle option \<Rightarrow> string option \<Rightarrow> 32 word \<Rightarrow> heap \<Rightarrow> (int \<times> handle option \<times> heap) option" where
  "SetDictUInt n handle key value h = set_number n handle key 4 (IM_UINT value) h"

definition SetDictULong :: "nat \<Rightarrow> handle option \<Rightarrow> string option \<Rightarrow> 64 word \<Rightarrow> heap \<Rightarrow> (int \<times> handle option \<times> heap) option" where
  "SetDictULong n handle key value h = set_number n handle key 8 (IM_ULONG value) h"

definition SetDictULongLong :: "nat \<Rightarrow> handle option \<Rightarrow> string option \<Rightarrow> 64 word \<Rightarrow> heap \<Rightarrow> (int \<times> handle option \<times> heap) option" where
  "SetDictULongLong n handle key value h = set_number n handle key 8 (IM_ULONGLONG value) h"

definition SetDictFloat :: "nat \<Rightarrow> handle option \<Rightarrow> string option \<Rightarrow> 32 word \<Rightarrow> heap \<Rightarrow> (int \<times> handle option \<times> heap) option" where
  "SetDictFloat n handle key value h = set_number n handle key 4 (IM_FLOAT value) h"

definition SetDictDouble :: "nat \<Rightarrow> handle option \<Rightarrow> string option \<Rightarrow> 64 word \<Rightarrow> heap \<Rightarrow> (int \<times> handle option \<times> heap) option" where
  "SetDictDouble n handle key value h = set_number n handle key 8 (IM_DOUBLE value) h"

definition SetDictLongDouble :: "nat \<Rightarrow> handle option \<Rightarrow> string option \<Rightarrow> 80 word \<Rightarrow> heap \<Rightarrow> (int \<times> handle option \<times> heap) option" where
  "SetDictLongDouble n handle key value h = set_number n handle key 16 (IM_LONGDOUBLE value) h"

text \<open>
  Strings and blocks up to 16 bytes (with the terminator) are kept in the bucket, longer ones in a
  block of their own. The result of \<^verbatim>\<open>malloc\<close> is not checked: writing through \<^verbatim>\<open>NULL\<close> is \<open>None\<close>.
  The old value is gone before the length is checked.
\<close>

definition set_bytes :: "nat \<Rightarrow> ptr \<Rightarrow> string \<Rightarrow> char \<Rightarrow> nat \<Rightarrow> char list \<Rightarrow> (char list \<Rightarrow> im_value) \<Rightarrow>
    (nat \<Rightarrow> ptr \<Rightarrow> im_value) \<Rightarrow> heap \<Rightarrow> (int \<times> handle option \<times> heap) option" where
  "set_bytes n p k junk len src small large h =
     do { h \<leftarrow> drop_existing n p k h;
          if 1048576 < len then Some (-1, Some (Some p), h)
          else if length src < len then None
          else if len \<le> sizeof_value then
            insert_bucket n p \<lparr>bucket_key = key_field k junk, value_length = len, bucket_value = small (take len src)\<rparr> h
          else (case alloc (Raw (take len src)) h of
              (None, h) \<Rightarrow> None
            | (Some q, h) \<Rightarrow>
                insert_bucket n p \<lparr>bucket_key = key_field k junk, value_length = len, bucket_value = large len q\<rparr> h) }"

definition SetDictString :: "nat \<Rightarrow> char \<Rightarrow> handle option \<Rightarrow> string option \<Rightarrow> char list option \<Rightarrow> heap \<Rightarrow> (int \<times> handle option \<times> heap) option" where
  "SetDictString n junk handle key value h =
     (case (handle, key, value) of
        (Some (Some p), Some k, Some s) \<Rightarrow>
          set_bytes n p k junk (strlen s + 1) (cstr s @ [NUL]) IM_STRING IM_EXTERNAL_STRING h
      | _ \<Rightarrow> Some (-1, handle, h))"

definition SetDictBlock :: "nat \<Rightarrow> char \<Rightarrow> handle option \<Rightarrow> string option \<Rightarrow> char list option \<Rightarrow> int \<Rightarrow> heap \<Rightarrow> (int \<times> handle option \<times> heap) option" where
  "SetDictBlock n junk handle key value sz h =
     (case (handle, key, value) of
        (Some (Some p), Some k, Some s) \<Rightarrow>
          if sz < 0 then Some (-1, handle, h)
          else set_bytes n p k junk (nat sz) s IM_BLOCK IM_EXTERNAL_BLOCK h
      | _ \<Rightarrow> Some (-1, handle, h))"

text \<open>A nested object is not copied: the table takes it over.\<close>

definition SetDictDict :: "nat \<Rightarrow> handle option \<Rightarrow> string option \<Rightarrow> handle \<Rightarrow> heap \<Rightarrow> (int \<times> handle option \<times> heap) option" where
  "SetDictDict n handle key value h =
     (case (handle, key) of
        (Some (Some p), Some k) \<Rightarrow>
          do { h \<leftarrow> drop_existing n p k h;
               q \<leftarrow> value;
               (u, _) \<leftarrow> load_hash h q;
               let len = hash_size (number_of_buckets u) + attached_offset u;
               if 1048576 < len then Some (-1, handle, h)
               else insert_bucket n p \<lparr>bucket_key = key_field k NUL, value_length = len,
                      bucket_value = IM_EXTERNAL_NESTED (hash_size (number_of_buckets u) + attached_size u) q\<rparr> h }
      | _ \<Rightarrow> Some (-1, handle, h))"

definition SetDictArray :: "nat \<Rightarrow> handle option \<Rightarrow> string option \<Rightarrow> handle \<Rightarrow> heap \<Rightarrow> (int \<times> handle option \<times> heap) option" where
  "SetDictArray n handle key value h =
     (case (handle, key) of
        (Some (Some p), Some k) \<Rightarrow>
          do { h \<leftarrow> drop_existing n p k h;
               q \<leftarrow> value;
               (u, _) \<leftarrow> load_vector h q;
               let len = vector_size (v_number_of_buckets u) + v_attached_offset u;
               if 1048576 < len then Some (-1, handle, h)
               else insert_bucket n p \<lparr>bucket_key = key_field k NUL, value_length = len,
                      bucket_value = IM_EXTERNAL_VECTOR (vector_size (v_number_of_buckets u) + v_attached_size u) q\<rparr> h }
      | _ \<Rightarrow> Some (-1, handle, h))"

text \<open>\<^verbatim>\<open>DeleteDict\<close> checks nothing: a \<^verbatim>\<open>NULL\<close> argument is dereferenced.\<close>

definition DeleteDict :: "nat \<Rightarrow> handle \<Rightarrow> string option \<Rightarrow> heap \<Rightarrow> (int \<times> heap) option" where
  "DeleteDict n handle key h = do { p \<leftarrow> handle; k \<leftarrow> key; im_delete_element_by_key n p k h }"

section \<open>Arrays and enumeration\<close>

definition GetArrayLength :: "handle \<Rightarrow> heap \<Rightarrow> int option" where
  "GetArrayLength handle h =
     (case handle of None \<Rightarrow> Some (-1)
      | Some p \<Rightarrow> do { (v, _) \<leftarrow> load_vector h p; Some (int32 (int (v_inuse v))) })"

definition GetArrayDict :: "handle \<Rightarrow> int \<Rightarrow> handle option \<Rightarrow> heap \<Rightarrow> (int \<times> handle option) option" where
  "GetArrayDict handle index value h =
     (case (handle, value) of
        (Some p, Some _) \<Rightarrow>
          do { (v, _) \<leftarrow> load_vector h p;
               b \<leftarrow> im_get_element v index;
               Some (case b of
                   None \<Rightarrow> (-1, value)
                 | Some b \<Rightarrow> (case v_bucket_value b of
                       IM_EXTERNAL_NESTED _ q \<Rightarrow> (index, Some (Some q))
                     | IM_ATTACHED_NESTED _ off \<Rightarrow> (index, Some (Some (inside p off)))
                     | _ \<Rightarrow> (-1, value))) }
      | _ \<Rightarrow> Some (-1, value))"

definition AddArrayDict :: "nat \<Rightarrow> handle option \<Rightarrow> handle \<Rightarrow> heap \<Rightarrow> (int \<times> handle option \<times> heap) option" where
  "AddArrayDict n handle value h =
     (case handle of
        Some (Some p) \<Rightarrow>
          do { q \<leftarrow> value;
               (u, _) \<leftarrow> load_hash h q;
               let len = hash_size (number_of_buckets u) + attached_offset u;
               if 1048576 < len then Some (-1, handle, h)
               else do {
                 (r, p, h) \<leftarrow> im_add_element n p \<lparr>v_value_length = len,
                    v_bucket_value = IM_EXTERNAL_NESTED (hash_size (number_of_buckets u) + attached_size u) q\<rparr> h;
                 Some (r, Some (Some p), h) } }
      | _ \<Rightarrow> Some (-1, handle, h))"

definition GetDictNElement :: "handle \<Rightarrow> heap \<Rightarrow> int option" where
  "GetDictNElement handle h =
     (case handle of None \<Rightarrow> Some (-1)
      | Some p \<Rightarrow> do { (t, _) \<leftarrow> load_hash h p; Some (int32 (int (inuse t))) })"

text \<open>The pointers stored into \<^verbatim>\<open>keyv\<close> are given by the key bytes they point to.\<close>

fun keyv_loop :: "int \<Rightarrow> im_hash_bucket list \<Rightarrow> int \<Rightarrow> char list list \<Rightarrow> int \<times> char list list" where
  "keyv_loop keyc [] count keyv = (count, keyv)"
| "keyv_loop keyc (b # bs) count keyv =
     (if count < keyc then
        (if bucket_value b \<noteq> IM_EMPTY \<and> bucket_value b \<noteq> IM_DELETED
         then keyv_loop keyc bs (count + 1) (keyv @ [bucket_key b])
         else keyv_loop keyc bs count keyv)
      else (count, keyv))"

definition GetDictKeyv :: "handle \<Rightarrow> int \<Rightarrow> heap \<Rightarrow> (int \<times> char list list) option" where
  "GetDictKeyv handle keyc h =
     do { p \<leftarrow> handle;
          (t, _) \<leftarrow> load_hash h p;
          if length (buckets t) < number_of_buckets t then None
          else Some (keyv_loop keyc (take (number_of_buckets t) (buckets t)) 0 []) }"

end
