(* ===== verification/Store_Interface.thy ===== *)
theory Store_Interface
  imports C_Prelude
begin

text \<open>
  The contract between a store and its clients: commands that, as long as the store is not full,
  succeed, keep the store well-formed, and act on its contents as a specification on finite maps
  says. What a client gains is proved here once: any sequence of commands that fits runs to the
  end and leaves what the specifications leave one after the other.
\<close>

locale dict_machine =
  fixes ok :: "'s \<Rightarrow> bool" and look :: "'s \<Rightarrow> 'k \<rightharpoonup> 'v" and fill :: "'s \<Rightarrow> nat" and limit :: nat
    and legal :: "'c \<Rightarrow> bool" and exec :: "'c \<Rightarrow> 's \<Rightarrow> 's option" and spec :: "'c \<Rightarrow> ('k \<rightharpoonup> 'v) \<Rightarrow> ('k \<rightharpoonup> 'v)"
  assumes step: "ok s \<Longrightarrow> legal c \<Longrightarrow> fill s < limit \<Longrightarrow>
      \<exists>s'. exec c s = Some s' \<and> ok s' \<and> look s' = spec c (look s) \<and> fill s' \<le> Suc (fill s)"
begin

lemma run:
  "ok s \<Longrightarrow> list_all legal cs \<Longrightarrow> fill s + length cs \<le> limit \<Longrightarrow>
     \<exists>s'. foldM exec cs s = Some s' \<and> ok s' \<and> look s' = fold spec cs (look s) \<and> fill s' \<le> fill s + length cs"
proof (induction cs arbitrary: s)
  case (Cons c cs)
  then obtain s1 where s1: "exec c s = Some s1" "ok s1" "look s1 = spec c (look s)" "fill s1 \<le> Suc (fill s)"
    using step [of s c] by auto
  moreover have "\<exists>s'. foldM exec cs s1 = Some s' \<and> ok s' \<and> look s' = fold spec cs (look s1) \<and>
      fill s' \<le> fill s1 + length cs"
    using Cons.prems s1 by (intro Cons.IH) auto
  ultimately show ?case by force
qed simp

end

end
