(* ===== verification/Beai3Dict_Correct.thy ===== *)
theory Beai3Dict_Correct
  imports Beai3Dict Store_Interface
begin

text \<open>
  The interface refines a finite map. The abstract dictionary \<open>abs_dict\<close> maps keys (cut at 102
  bytes) to values; a string or block counts as its bytes, whether it is kept in the bucket or in an
  allocation of its own.
\<close>

section \<open>Abstract dictionary\<close>

definition abs_value :: "heap \<Rightarrow> im_value \<Rightarrow> im_value" where
  "abs_value h v = (case v of
      IM_EXTERNAL_STRING l q \<Rightarrow> (case load_bytes h q of None \<Rightarrow> v | Some s \<Rightarrow> IM_STRING s)
    | IM_EXTERNAL_BLOCK l q \<Rightarrow> (case load_bytes h q of None \<Rightarrow> v | Some s \<Rightarrow> IM_BLOCK s)
    | _ \<Rightarrow> v)"

definition abs_dict :: "heap \<Rightarrow> im_hashtable \<Rightarrow> string \<rightharpoonup> im_value" where
  "abs_dict h t k = map_option (\<lambda>b. abs_value h (bucket_value b)) (ht_map t k)"

text \<open>A bucket whose pointer leads to bytes, and as many of them as its length says.\<close>

definition bucket_ok :: "heap \<Rightarrow> im_hash_bucket \<Rightarrow> bool" where
  "bucket_ok h b = (case bucket_value b of
      IM_BLOCK s \<Rightarrow> length s = value_length b
    | IM_EXTERNAL_STRING l q \<Rightarrow> load_bytes h q \<noteq> None
    | IM_EXTERNAL_BLOCK l q \<Rightarrow> (case load_bytes h q of None \<Rightarrow> False | Some s \<Rightarrow> length s = value_length b)
    | _ \<Rightarrow> True)"

definition dict_ok :: "nat \<Rightarrow> heap \<Rightarrow> addr \<Rightarrow> im_hashtable \<Rightarrow> bool" where
  "dict_ok n h a t \<longleftrightarrow> 0 < n \<and> dict_at n h a t \<and> (\<forall>k b. ht_map t k = Some b \<longrightarrow> bucket_ok h b)"

lemma value_bytes_same:
  assumes "own_value n h a v" "same_on (val_addrs n h v) h h'"
  shows "v = IM_EXTERNAL_STRING l q \<or> v = IM_EXTERNAL_BLOCK l q \<Longrightarrow> load_bytes h' q = load_bytes h q"
proof -
  assume v: "v = IM_EXTERNAL_STRING l q \<or> v = IM_EXTERNAL_BLOCK l q"
  obtain as where as: "val_fp n h v = Some as" "val_addrs n h v = set as" using own_value_val_fp [OF assms(1)] by blast
  then obtain c where "q = Ptr c []" "c \<in> set as"
    using v by (cases n) (auto simp: val_fp_def value_fp.simps block_fp_iff)
  then have "cells h' (root q) = cells h (root q)" using assms(2) as(2) by (auto simp: same_on_def)
  then have "load h' q = load h q" by (rule load_cong)
  then show "load_bytes h' q = load_bytes h q" by (simp add: load_bytes_def)
qed

lemma bucket_same:
  assumes "own_value n h a (bucket_value b)" "same_on (val_addrs n h (bucket_value b)) h h'"
  shows "abs_value h' (bucket_value b) = abs_value h (bucket_value b)" "bucket_ok h' b = bucket_ok h b"
  using value_bytes_same [OF assms]
  by (auto simp: abs_value_def bucket_ok_def split: im_value.splits)

lemma dict_same:
  assumes o: "owned n h a m" and s: "same_on (map_addrs n h m) h h'" and k: "m k = Some b"
  shows "abs_value h' (bucket_value b) = abs_value h (bucket_value b)" "bucket_ok h' b = bucket_ok h b"
proof -
  have "own_value n h a (bucket_value b)" using o k by (simp add: owned_def)
  moreover have "same_on (val_addrs n h (bucket_value b)) h h'"
    using s map_addrs_val [where m = m, OF k, of n h] by (auto simp: same_on_def)
  ultimately show "abs_value h' (bucket_value b) = abs_value h (bucket_value b)" "bucket_ok h' b = bucket_ok h b"
    by (rule bucket_same)+
qed

section \<open>Keys\<close>

lemma cstr_pad: "cstr (cstr k @ replicate m NUL) = cstr k"
proof (induction k)
  case Nil
  show ?case by (cases m) simp_all
next
  case (Cons c k)
  then show ?case by (cases m) auto
qed

lemma ckey_key_field [simp]: "ckey (key_field k final) = ckey k"
proof -
  have "ckey (key_field k final) = cstr (take KEY_MAX_LENGTH (key_field k final))"
    by (simp add: ckey_def cstr_take)
  also have "take KEY_MAX_LENGTH (key_field k final) = take KEY_MAX_LENGTH (cstr k @ replicate KEY_MAX_LENGTH NUL)"
    by (simp add: key_field_def)
  also have "cstr \<dots> = ckey k" unfolding cstr_take cstr_pad by (simp add: ckey_def)
  finally show ?thesis .
qed

section \<open>Reading\<close>

lemma bind_Some_map: "Option.bind x (\<lambda>y. Some (f y)) = map_option f x"
  by (cases x) simp_all

lemma lookup_ok:
  assumes "dict_at n h a t"
  shows "lookup_bucket (Some (Ptr a [])) (Some k) (Some x) h = Some (map_option (Pair (Ptr a [])) (ht_map t (ckey k)))"
proof -
  obtain att where d: "load_hash h (Ptr a []) = Some (t, att)" "ht_inv t" by (rule dict_atD [OF assms])
  then show ?thesis by (simp add: lookup_bucket_def retrieve_by_key)
qed

lemma number_abs: "bucket_ok h b \<Longrightarrow> number_of_value c h p (abs_value h (bucket_value b)) = number_of_value c h p (bucket_value b)"
  by (auto simp: number_of_value_def abs_value_def bucket_ok_def split: im_value.splits option.splits)

lemma text_abs: "bucket_ok h b \<Longrightarrow> text_of_value h p (abs_value h (bucket_value b)) = text_of_value h p (bucket_value b)"
  by (auto simp: text_of_value_def abs_value_def bucket_ok_def split: im_value.splits option.splits)

lemma get_number_ok:
  assumes D: "dict_ok n h a t"
  shows "get_number c (Some (Ptr a [])) (Some k) (Some x) h =
    (case abs_dict h t (ckey k) of
       None \<Rightarrow> Some (-1, Some x)
     | Some v \<Rightarrow> map_option (\<lambda>r. case r of None \<Rightarrow> (-1, Some x) | Some y \<Rightarrow> (0, Some y)) (number_of_value c h (Ptr a []) v))"
proof -
  have d: "dict_at n h a t" "\<And>k b. ht_map t k = Some b \<Longrightarrow> bucket_ok h b" using D by (auto simp: dict_ok_def)
  show ?thesis
    using d(2) by (auto simp: get_number_def lookup_ok [OF d(1)] abs_dict_def number_abs bind_Some_map
        split: option.splits)
qed

lemma get_string_ok:
  assumes D: "dict_ok n h a t" and sz: "0 < sz"
  shows "GetDictString (Some (Ptr a [])) (Some k) (Some x) sz h =
    (case abs_dict h t (ckey k) of
       None \<Rightarrow> Some (-1, Some x)
     | Some v \<Rightarrow> map_option (\<lambda>r. case r of None \<Rightarrow> (-1, Some x)
         | Some s \<Rightarrow> (int (length (take (nat sz - 1) s)), Some (take (nat sz - 1) s))) (text_of_value h (Ptr a []) v))"
proof -
  have d: "dict_at n h a t" "\<And>k b. ht_map t k = Some b \<Longrightarrow> bucket_ok h b" using D by (auto simp: dict_ok_def)
  show ?thesis
    using d(2) sz by (auto simp: GetDictString_def lookup_ok [OF d(1)] abs_dict_def text_abs bind_Some_map
        split: option.splits)
qed

section \<open>Writing\<close>

lemma drop_existing_delete:
  "drop_existing n p k h = map_option snd (im_delete_element_by_key n p k h)"
  by (auto simp: drop_existing_def im_delete_element_by_key_def split: Option.bind_split)

lemma abs_dict_same:
  assumes "owned n h a (ht_map t)" "same_on (map_addrs n h (ht_map t)) h h'" "ht_map t' = ht_map t"
  shows "abs_dict h' t' = abs_dict h t"
proof
  fix k show "abs_dict h' t' k = abs_dict h t k"
    using dict_same(1) [OF assms(1,2), of k] by (cases "ht_map t k") (simp_all add: abs_dict_def assms(3))
qed

lemma drop_existing_ok:
  assumes D: "dict_ok n h a t"
  obtains h' t' where "drop_existing n (Ptr a []) k h = Some h'" "dict_ok n h' a t'"
    "ht_map t' = (ht_map t)(ckey k := None)" "abs_dict h' t' = (abs_dict h t)(ckey k := None)"
    "inuse t' \<le> inuse t" "brk h' = brk h" "oom h' = oom h"
    "rest_of n h' a (ht_map t') = rest_of n h a (ht_map t)"
proof (cases "ht_map t (ckey k)")
  case None
  have d: "dict_at n h a t" using D by (simp add: dict_ok_def)
  have "drop_existing n (Ptr a []) k h = Some h"
    using delete_absent [OF d None] by (simp add: drop_existing_delete)
  with None D show ?thesis by (intro that [of h t]) (auto simp: abs_dict_def fun_eq_iff)
next
  case (Some b)
  have d: "0 < n" "dict_at n h a t" "\<And>k b. ht_map t k = Some b \<Longrightarrow> bucket_ok h b" using D by (auto simp: dict_ok_def)
  obtain p h' where R: "im_find_element t k = Some p" "im_delete_element_by_key n (Ptr a []) k h = Some (int p, h')"
    "dict_at n h' a (ht_del t p)" "ht_map (ht_del t p) = (ht_map t)(ckey k := None)" "inuse (ht_del t p) = inuse t - 1"
    "\<And>x. x \<noteq> a \<Longrightarrow> cells h' x = (if x \<in> val_addrs n h (bucket_value b) then None else cells h x)"
    "brk h' = brk h" "oom h' = oom h"
    by (rule delete_present [OF d(2) Some]) blast
  obtain att where o: "owned n h a (ht_map t)" by (rule dict_atD [OF d(2)])
  have m: "map_addrs n h ((ht_map t)(ckey k := None)) = map_addrs n h (ht_map t) - val_addrs n h (bucket_value b)"
    by (rule map_addrs_delete [OF o Some])
  have "a \<notin> map_addrs n h (ht_map t)" by (rule owned_not_self [OF o])
  then have s: "same_on (map_addrs n h ((ht_map t)(ckey k := None))) h h'"
    unfolding m same_on_def using R(6) by (metis DiffD1 DiffD2)
  note same = dict_same [OF owned_delete [OF o] s]
  have "bucket_ok h' b'" if "ht_map (ht_del t p) k' = Some b'" for k' b'
    using that same(2) [of k' b'] d(3) [of k' b'] by (simp add: R(4) split: if_splits)
  moreover have "abs_dict h' (ht_del t p) = (abs_dict h t)(ckey k := None)"
  proof
    fix x show "abs_dict h' (ht_del t p) x = ((abs_dict h t)(ckey k := None)) x"
      using same(1) [of x] by (cases "ht_map t x") (auto simp: abs_dict_def R(4))
  qed
  moreover have "map_addrs n h' (ht_map (ht_del t p)) = map_addrs n h (ht_map t) - val_addrs n h (bucket_value b)"
    using owned_same(2) [OF owned_delete [OF o] s, of a] owned_not_self [OF o] m R(4) by simp
  then have "rest_of n h' a (ht_map (ht_del t p)) = rest_of n h a (ht_map t)"
    using R(6) map_addrs_val [where m = "ht_map t", OF Some, of n h] by (auto simp: rest_of_def fun_eq_iff)
  ultimately show ?thesis
    using R d(1) by (intro that [of h' "ht_del t p"]) (auto simp: drop_existing_delete dict_ok_def)
qed

lemma insert_bucket_ok:
  assumes D: "dict_ok n h a t" and mem: "\<forall>i. \<not> oom h i" and small: "inuse t \<le> 499990" and n2: "2 \<le> n"
    and b: "live b" "bucket_ok h b" "own_value n h a (bucket_value b)"
      "val_addrs n h (bucket_value b) \<inter> map_addrs n h (ht_map t) = {}"
    and absent: "ht_map t (ckey (bucket_key b)) = None"
  obtains d t' h' pos where "insert_bucket n (Ptr a []) b h = Some (int pos, Some (Some (Ptr d [])), h')"
    "dict_ok n h' d t'" "ht_map t' = (ht_map t)(ckey (bucket_key b) \<mapsto> b)"
    "abs_dict h' t' = (abs_dict h t)(ckey (bucket_key b) \<mapsto> abs_value h (bucket_value b))" "inuse t' = Suc (inuse t)"
    "oom h' = oom h"
    "rest_of n h' d (ht_map t') = (\<lambda>x. if x \<in> val_addrs n h (bucket_value b) then None else rest_of n h a (ht_map t) x)"
proof -
  have d: "0 < n" "dict_at n h a t" "\<And>k b. ht_map t k = Some b \<Longrightarrow> bucket_ok h b" using D by (auto simp: dict_ok_def)
  obtain m where m: "n = Suc (Suc m)" using n2 by (metis Suc_le_D numeral_2_eq_2 Suc_le_mono)
  obtain d t' att' h' pos where R: "im_insert_element (Suc (Suc m)) (Ptr a []) b h = Some (int pos, Ptr d [], h')"
    "dict_at n h' d t'" "ht_map t' = (ht_map t)(ckey (bucket_key b) \<mapsto> b)" "inuse t' = Suc (inuse t)"
    "oom h' = oom h" "d = a \<or> cells h d = None" "cells h' = (cells h)(a := None, d \<mapsto> HashObj t' att')"
    by (rule insert_owned [OF d(2) mem small b(1,3,4) absent, of m])
  obtain att where o: "owned n h a (ht_map t)" by (rule dict_atD [OF d(2)])
  have o': "owned n h a (ht_map t')" unfolding R(3) by (rule owned_update [OF o b(3,4)])
  have ad: "a \<notin> map_addrs n h (ht_map t')" "d \<notin> map_addrs n h (ht_map t')"
    using owned_not_self [OF o'] R(6) map_addrs_alloc [of n h "ht_map t'"] by auto
  then have s: "same_on (map_addrs n h (ht_map t')) h h'" by (auto simp: same_on_def R(7))
  have "map_addrs n h' (ht_map t') = val_addrs n h (bucket_value b) \<union> map_addrs n h (ht_map t)"
    using owned_same(2) [OF o' s ad(2)] absent by (simp add: R(3) map_addrs_def)
  then have "rest_of n h' d (ht_map t') = (\<lambda>x. if x \<in> val_addrs n h (bucket_value b) then None else rest_of n h a (ht_map t) x)"
    using R(6) by (auto simp: rest_of_def fun_eq_iff R(7))
  moreover
  note same = dict_same [OF o' s]
  have "bucket_ok h' b'" if "ht_map t' k' = Some b'" for k' b'
    using that same(2) [of k' b'] d(3) [of k' b'] b(2) by (simp add: R(3) split: if_splits)
  then have "dict_ok n h' d t'" using d(1) R(2) by (simp add: dict_ok_def)
  moreover have "abs_dict h' t' = (abs_dict h t)(ckey (bucket_key b) \<mapsto> abs_value h (bucket_value b))"
  proof
    fix x show "abs_dict h' t' x = ((abs_dict h t)(ckey (bucket_key b) \<mapsto> abs_value h (bucket_value b))) x"
      using same(1) [of x] by (cases "ht_map t' x") (auto simp: abs_dict_def R(3) split: if_splits)
  qed
  ultimately show ?thesis using R m by (intro that [of pos d h' t']) (auto simp: insert_bucket_def)
qed

text \<open>Allocating a block of bytes beside the dictionary.\<close>

lemma alloc_raw_ok:
  assumes D: "dict_ok n h a t" and mem: "\<not> oom h (brk h)"
  obtains h' where "alloc (Raw s) h = (Some (Ptr (brk h) []), h')" "dict_ok n h' a t" "abs_dict h' t = abs_dict h t"
    "oom h' = oom h" "load_bytes h' (Ptr (brk h) []) = Some s" "brk h \<notin> map_addrs n h' (ht_map t)" "a \<noteq> brk h"
    "rest_of n h' a (ht_map t) = (rest_of n h a (ht_map t))(brk h \<mapsto> Raw s)" "rest_of n h a (ht_map t) (brk h) = None"
proof -
  let ?h = "h\<lparr>cells := (cells h)(brk h \<mapsto> Raw s), brk := Suc (brk h)\<rparr>"
  have d: "0 < n" "dict_at n h a t" "\<And>k b. ht_map t k = Some b \<Longrightarrow> bucket_ok h b" using D by (auto simp: dict_ok_def)
  obtain att where o: "owned n h a (ht_map t)" "cells h a = Some (HashObj t att)" "heap_ok h" "ht_inv t"
    by (rule dict_atD [OF d(2)]) blast
  have fresh: "cells h (brk h) = None" using heap_ok_fresh [OF o(3)] by simp
  have s: "same_on (map_addrs n h (ht_map t)) h ?h"
    using map_addrs_alloc [of n h "ht_map t"] fresh by (auto simp: same_on_def)
  note same = dict_same [OF o(1) s]
  have o': "owned n ?h a (ht_map t)" "map_addrs n ?h (ht_map t) = map_addrs n h (ht_map t)"
    using owned_same [OF o(1) s owned_not_self [OF o(1)]] by blast+
  have "heap_ok ?h" using o(3) by (auto simp: heap_ok_def less_Suc_eq)
  moreover have "a \<noteq> brk h" using o(2) fresh by auto
  moreover have "bucket_ok ?h b" if "ht_map t k = Some b" for k b using same(2) [OF that] d(3) [OF that] by simp
  ultimately have "dict_ok n ?h a t" using o' o(2,4) d(1) by (auto simp: dict_ok_def dict_at_def)
  moreover have "abs_dict ?h t = abs_dict h t" by (rule abs_dict_same [OF o(1) s refl])
  moreover have "brk h \<notin> map_addrs n ?h (ht_map t)"
    unfolding o'(2) using map_addrs_alloc [of n h "ht_map t"] fresh by auto
  moreover have "rest_of n ?h a (ht_map t) = (rest_of n h a (ht_map t))(brk h \<mapsto> Raw s)" "rest_of n h a (ht_map t) (brk h) = None"
    using \<open>brk h \<notin> map_addrs n ?h (ht_map t)\<close> \<open>a \<noteq> brk h\<close> fresh unfolding o'(2) rest_of_def by (auto simp: fun_eq_iff o'(2))
  ultimately show ?thesis using mem \<open>a \<noteq> brk h\<close> by (intro that [of ?h]) (auto simp: alloc_def load_bytes_def)
qed

fun scalar :: "im_value \<Rightarrow> bool" where
  "scalar (IM_SHORT _) = True" | "scalar (IM_INT _) = True" | "scalar (IM_LONG _) = True" | "scalar (IM_LONGLONG _) = True"
| "scalar (IM_USHORT _) = True" | "scalar (IM_UINT _) = True" | "scalar (IM_ULONG _) = True" | "scalar (IM_ULONGLONG _) = True"
| "scalar (IM_FLOAT _) = True" | "scalar (IM_DOUBLE _) = True" | "scalar (IM_LONGDOUBLE _) = True"
| "scalar (IM_STRING _) = True" | "scalar (IM_BLOCK _) = True" | "scalar _ = False"

lemma scalar_own:
  assumes "scalar v" "0 < n"
  shows "own_value n h a v" "val_addrs n h v = {}" "\<not> vacant v" "abs_value h v = v"
  using assms
  by (cases v; cases n; simp add: own_value_def val_addrs_def val_fp_def value_fp.simps abs_value_def)+

text \<open>Replacing the bucket of a key by one that owns nothing.\<close>

lemma replace_scalar:
  assumes D: "dict_ok n h a t" and mem: "\<forall>i. \<not> oom h i" and small: "inuse t \<le> 499990" and n2: "2 \<le> n"
    and v: "scalar v" and l: "\<And>s. v = IM_BLOCK s \<Longrightarrow> length s = len"
  obtains d t' h' pos where
    "do { h \<leftarrow> drop_existing n (Ptr a []) k h;
          insert_bucket n (Ptr a []) \<lparr>bucket_key = key_field k junk, value_length = len, bucket_value = v\<rparr> h } =
       Some (int pos, Some (Some (Ptr d [])), h')"
    "dict_ok n h' d t'" "abs_dict h' t' = (abs_dict h t)(ckey k \<mapsto> v)" "inuse t' \<le> Suc (inuse t)" "oom h' = oom h"
    "rest_of n h' d (ht_map t') = rest_of n h a (ht_map t)"
proof -
  obtain h1 t1 where R: "drop_existing n (Ptr a []) k h = Some h1" "dict_ok n h1 a t1"
    "ht_map t1 = (ht_map t)(ckey k := None)" "abs_dict h1 t1 = (abs_dict h t)(ckey k := None)"
    "inuse t1 \<le> inuse t" "brk h1 = brk h" "oom h1 = oom h" "rest_of n h1 a (ht_map t1) = rest_of n h a (ht_map t)"
    by (rule drop_existing_ok [OF D])
  let ?b = "\<lparr>bucket_key = key_field k junk, value_length = len, bucket_value = v\<rparr>"
  have n0: "0 < n" using n2 by simp
  have mem1: "\<forall>i. \<not> oom h1 i" and small1: "inuse t1 \<le> 499990" using mem small R by auto
  have b: "live ?b" "bucket_ok h1 ?b" "own_value n h1 a (bucket_value ?b)"
    "val_addrs n h1 (bucket_value ?b) \<inter> map_addrs n h1 (ht_map t1) = {}"
    using scalar_own [OF v n0] v l by (auto simp: live_def bucket_ok_def split: im_value.splits)
  have absent: "ht_map t1 (ckey (bucket_key ?b)) = None" using R(3) by simp
  obtain d t' h' pos where I: "insert_bucket n (Ptr a []) ?b h1 = Some (int pos, Some (Some (Ptr d [])), h')"
    "dict_ok n h' d t'" "abs_dict h' t' = (abs_dict h1 t1)(ckey (bucket_key ?b) \<mapsto> abs_value h1 (bucket_value ?b))"
    "inuse t' = Suc (inuse t1)" "oom h' = oom h1"
    "rest_of n h' d (ht_map t') = (\<lambda>x. if x \<in> val_addrs n h1 (bucket_value ?b) then None else rest_of n h1 a (ht_map t1) x)"
    by (rule insert_bucket_ok [OF R(2) mem1 small1 n2 b absent]) blast
  show ?thesis
    using R I scalar_own(2,4) [OF v n0, of h1] by (intro that [of pos d h' t']) auto
qed

lemma set_bytes_ok:
  assumes D: "dict_ok n h a t" and mem: "\<forall>i. \<not> oom h i" and small: "inuse t \<le> 499990" and n2: "2 \<le> n"
    and len: "len \<le> 1048576" "len \<le> length src"
    and c: "(sm = IM_STRING \<and> lg = IM_EXTERNAL_STRING) \<or> (sm = IM_BLOCK \<and> lg = IM_EXTERNAL_BLOCK)"
  obtains d t' h' pos where
    "set_bytes n (Ptr a []) k junk len src sm lg h = Some (int pos, Some (Some (Ptr d [])), h')"
    "dict_ok n h' d t'" "abs_dict h' t' = (abs_dict h t)(ckey k \<mapsto> sm (take len src))" "inuse t' \<le> Suc (inuse t)"
    "oom h' = oom h" "rest_of n h' d (ht_map t') = rest_of n h a (ht_map t)"
proof (cases "len \<le> sizeof_value")
  case True
  have v: "scalar (sm (take len src))" "\<And>s. sm (take len src) = IM_BLOCK s \<Longrightarrow> length s = len" using c len(2) by auto
  obtain d t' h' pos where
    "do { h \<leftarrow> drop_existing n (Ptr a []) k h;
          insert_bucket n (Ptr a []) \<lparr>bucket_key = key_field k junk, value_length = len, bucket_value = sm (take len src)\<rparr> h } =
       Some (int pos, Some (Some (Ptr d [])), h')"
    "dict_ok n h' d t'" "abs_dict h' t' = (abs_dict h t)(ckey k \<mapsto> sm (take len src))" "inuse t' \<le> Suc (inuse t)" "oom h' = oom h"
    "rest_of n h' d (ht_map t') = rest_of n h a (ht_map t)"
    by (rule replace_scalar [OF D mem small n2 v, where k = k and junk = junk])
  then show ?thesis using True len that by (auto simp: set_bytes_def not_less bind_eq_Some_conv)
next
  case False
  obtain h1 t1 where R: "drop_existing n (Ptr a []) k h = Some h1" "dict_ok n h1 a t1"
    "ht_map t1 = (ht_map t)(ckey k := None)" "abs_dict h1 t1 = (abs_dict h t)(ckey k := None)"
    "inuse t1 \<le> inuse t" "brk h1 = brk h" "oom h1 = oom h" "rest_of n h1 a (ht_map t1) = rest_of n h a (ht_map t)"
    by (rule drop_existing_ok [OF D])
  have "\<not> oom h1 (brk h1)" using mem R by simp
  then obtain h2 where A: "alloc (Raw (take len src)) h1 = (Some (Ptr (brk h1) []), h2)" "dict_ok n h2 a t1"
    "abs_dict h2 t1 = abs_dict h1 t1" "oom h2 = oom h1" "load_bytes h2 (Ptr (brk h1) []) = Some (take len src)"
    "brk h1 \<notin> map_addrs n h2 (ht_map t1)" "a \<noteq> brk h1"
    "rest_of n h2 a (ht_map t1) = (rest_of n h1 a (ht_map t1))(brk h1 \<mapsto> Raw (take len src))" "rest_of n h1 a (ht_map t1) (brk h1) = None"
    by (rule alloc_raw_ok [OF R(2)])
  let ?b = "\<lparr>bucket_key = key_field k junk, value_length = len, bucket_value = lg len (Ptr (brk h1) [])\<rparr>"
  have n0: "0 < n" using n2 by simp
  have "cells h2 (brk h1) \<noteq> None" using A(5) by (auto simp: load_bytes_def split: option.splits)
  then have fp: "val_fp n h2 (bucket_value ?b) = Some [brk h1]" using c n0 by (cases n) (auto simp: val_fp_def value_fp.simps)
  have b: "live ?b" "bucket_ok h2 ?b" "own_value n h2 a (bucket_value ?b)"
    "val_addrs n h2 (bucket_value ?b) \<inter> map_addrs n h2 (ht_map t1) = {}"
    using c A(5-7) len fp by (auto simp: live_def bucket_ok_def own_value_def val_addrs_def)
  have mem2: "\<forall>i. \<not> oom h2 i" and small2: "inuse t1 \<le> 499990" using mem small R A by auto
  have absent: "ht_map t1 (ckey (bucket_key ?b)) = None" using R(3) by simp
  obtain d t' h' pos where I: "insert_bucket n (Ptr a []) ?b h2 = Some (int pos, Some (Some (Ptr d [])), h')"
    "dict_ok n h' d t'" "abs_dict h' t' = (abs_dict h2 t1)(ckey (bucket_key ?b) \<mapsto> abs_value h2 (bucket_value ?b))"
    "inuse t' = Suc (inuse t1)" "oom h' = oom h2"
    "rest_of n h' d (ht_map t') = (\<lambda>x. if x \<in> val_addrs n h2 (bucket_value ?b) then None else rest_of n h2 a (ht_map t1) x)"
    by (rule insert_bucket_ok [OF A(2) mem2 small2 n2 b absent]) blast
  have "rest_of n h' d (ht_map t') = rest_of n h a (ht_map t)"
    using I(6) A(8,9) R(8) fp by (auto simp: fun_eq_iff val_addrs_def)
  moreover
  have "abs_value h2 (bucket_value ?b) = sm (take len src)" using c A(5) by (auto simp: abs_value_def)
  ultimately show ?thesis
    using R A I False len c by (intro that [of pos d h' t']) (auto simp: set_bytes_def)
qed

section \<open>The interface as a machine\<close>

text \<open>
  The commands that change a dictionary, with the function of the interface each one calls. The
  state is the caller's handle variable and the memory; results of the calls are ignored, as a
  caller may do.
\<close>

datatype dict_op =
    SetNum string im_value
  | SetStr string "char list"
  | SetBlk string "char list"
  | Del string
  | Clear

fun exec_op :: "nat \<Rightarrow> char \<Rightarrow> dict_op \<Rightarrow> handle option \<times> heap \<Rightarrow> (handle option \<times> heap) option" where
  "exec_op n junk (SetNum k v) (hn, h) = map_option snd (case v of
      IM_SHORT w \<Rightarrow> SetDictShort n hn (Some k) w h
    | IM_INT w \<Rightarrow> SetDictInt n hn (Some k) w h
    | IM_LONG w \<Rightarrow> SetDictLong n hn (Some k) w h
    | IM_LONGLONG w \<Rightarrow> SetDictLongLong n hn (Some k) w h
    | IM_USHORT w \<Rightarrow> SetDictUShort n hn (Some k) w h
    | IM_UINT w \<Rightarrow> SetDictUInt n hn (Some k) w h
    | IM_ULONG w \<Rightarrow> SetDictULong n hn (Some k) w h
    | IM_ULONGLONG w \<Rightarrow> SetDictULongLong n hn (Some k) w h
    | IM_FLOAT w \<Rightarrow> SetDictFloat n hn (Some k) w h
    | IM_DOUBLE w \<Rightarrow> SetDictDouble n hn (Some k) w h
    | IM_LONGDOUBLE w \<Rightarrow> SetDictLongDouble n hn (Some k) w h
    | _ \<Rightarrow> None)"
| "exec_op n junk (SetStr k s) (hn, h) = map_option snd (SetDictString n junk hn (Some k) (Some s) h)"
| "exec_op n junk (SetBlk k s) (hn, h) = map_option snd (SetDictBlock n junk hn (Some k) (Some s) (int (length s)) h)"
| "exec_op n junk (Del k) (hn, h) =
     Option.bind hn (\<lambda>p. map_option (\<lambda>(_, h). (hn, h)) (DeleteDict n p (Some k) h))"
| "exec_op n junk Clear (hn, h) = Option.bind hn (\<lambda>p. map_option (Pair hn) (ClearDict n p h))"

fun number :: "im_value \<Rightarrow> bool" where
  "number (IM_STRING _) = False" | "number (IM_BLOCK _) = False" | "number v = scalar v"

fun legal_op :: "dict_op \<Rightarrow> bool" where
  "legal_op (SetNum k v) = number v"
| "legal_op (SetStr k s) = (strlen s < 1048576)"
| "legal_op (SetBlk k s) = (length s \<le> 1048576)"
| "legal_op _ = True"

fun op_spec :: "dict_op \<Rightarrow> (string \<rightharpoonup> im_value) \<Rightarrow> (string \<rightharpoonup> im_value)" where
  "op_spec (SetNum k v) m = m(ckey k \<mapsto> v)"
| "op_spec (SetStr k s) m = m(ckey k \<mapsto> IM_STRING (cstr s @ [NUL]))"
| "op_spec (SetBlk k s) m = m(ckey k \<mapsto> IM_BLOCK s)"
| "op_spec (Del k) m = m(ckey k := None)"
| "op_spec Clear m = Map.empty"

text \<open>The contents of the dictionary a handle variable names, and the number of its entries.\<close>

definition dict_view :: "handle option \<times> heap \<Rightarrow> string \<rightharpoonup> im_value" where
  "dict_view s = (case s of (Some (Some p), h) \<Rightarrow> (case load_hash h p of Some (t, _) \<Rightarrow> abs_dict h t | None \<Rightarrow> Map.empty)
     | _ \<Rightarrow> Map.empty)"

definition dict_fill :: "handle option \<times> heap \<Rightarrow> nat" where
  "dict_fill s = (case s of (Some (Some p), h) \<Rightarrow> (case load_hash h p of Some (t, _) \<Rightarrow> inuse t | None \<Rightarrow> 0) | _ \<Rightarrow> 0)"

text \<open>
  A dictionary in good order, with \<open>m0\<close> the contents of the memory that is not the dictionary's.
\<close>

definition dict_state :: "nat \<Rightarrow> (addr \<Rightarrow> obj option) \<Rightarrow> handle option \<times> heap \<Rightarrow> bool" where
  "dict_state n m0 s \<longleftrightarrow> (\<exists>a t. fst s = Some (Some (Ptr a [])) \<and> dict_ok n (snd s) a t \<and>
     (\<forall>i. \<not> oom (snd s) i) \<and> rest_of n (snd s) a (ht_map t) = m0)"

lemma dict_ok_load: "dict_ok n h a t \<Longrightarrow> \<exists>att. load_hash h (Ptr a []) = Some (t, att)"
  by (auto simp: dict_ok_def dict_at_def)

lemma dict_view_ok:
  assumes "dict_ok n h a t"
  shows "dict_view (Some (Some (Ptr a [])), h) = abs_dict h t" "dict_fill (Some (Some (Ptr a [])), h) = inuse t"
  using dict_ok_load [OF assms] by (auto simp: dict_view_def dict_fill_def)

lemma dict_stateI:
  "dict_ok n h a t \<Longrightarrow> \<forall>i. \<not> oom h i \<Longrightarrow> rest_of n h a (ht_map t) = m0 \<Longrightarrow> dict_state n m0 (Some (Some (Ptr a [])), h)"
  unfolding dict_state_def by auto

lemma exec_number:
  assumes D: "dict_ok n h a t" and mem: "\<forall>i. \<not> oom h i" and small: "inuse t \<le> 499990" and n2: "2 \<le> n" and v: "number v"
  obtains d t' h' where "exec_op n junk (SetNum k v) (Some (Some (Ptr a [])), h) = Some (Some (Some (Ptr d [])), h')"
    "dict_ok n h' d t'" "abs_dict h' t' = (abs_dict h t)(ckey k \<mapsto> v)" "inuse t' \<le> Suc (inuse t)" "oom h' = oom h"
    "rest_of n h' d (ht_map t') = rest_of n h a (ht_map t)"
proof -
  obtain sz where e: "exec_op n junk (SetNum k v) (Some (Some (Ptr a [])), h) =
      map_option snd (set_number n (Some (Some (Ptr a []))) (Some k) sz v h)" and sc: "scalar v"
    using v by (cases v)
      (auto simp: SetDictShort_def SetDictInt_def SetDictLong_def SetDictLongLong_def SetDictUShort_def SetDictUInt_def
        SetDictULong_def SetDictULongLong_def SetDictFloat_def SetDictDouble_def SetDictLongDouble_def)
  have nb: "\<And>s. v = IM_BLOCK s \<Longrightarrow> length s = sz" using v by auto
  obtain d t' h' pos where
    "do { h \<leftarrow> drop_existing n (Ptr a []) k h;
          insert_bucket n (Ptr a []) \<lparr>bucket_key = key_field k NUL, value_length = sz, bucket_value = v\<rparr> h } =
       Some (int pos, Some (Some (Ptr d [])), h')"
    "dict_ok n h' d t'" "abs_dict h' t' = (abs_dict h t)(ckey k \<mapsto> v)" "inuse t' \<le> Suc (inuse t)" "oom h' = oom h"
    "rest_of n h' d (ht_map t') = rest_of n h a (ht_map t)"
    by (rule replace_scalar [OF D mem small n2 sc nb, where k = k and junk = NUL])
  then show ?thesis using e by (intro that [of d h' t']) (auto simp: set_number_def)
qed

lemma exec_bytes:
  assumes D: "dict_ok n h a t" and mem: "\<forall>i. \<not> oom h i" and small: "inuse t \<le> 499990" and n2: "2 \<le> n"
    and c: "legal_op c" "c = SetStr k s \<or> c = SetBlk k s"
  obtains d t' h' where "exec_op n junk c (Some (Some (Ptr a [])), h) = Some (Some (Some (Ptr d [])), h')"
    "dict_ok n h' d t'" "abs_dict h' t' = op_spec c (abs_dict h t)" "inuse t' \<le> Suc (inuse t)" "oom h' = oom h"
    "rest_of n h' d (ht_map t') = rest_of n h a (ht_map t)"
proof -
  have len: "length (cstr s) = strlen s" by (simp add: strlen_def)
  have "\<exists>len src sm lg. exec_op n junk c (Some (Some (Ptr a [])), h) =
      map_option snd (set_bytes n (Ptr a []) k junk len src sm lg h) \<and> len \<le> 1048576 \<and> len \<le> length src \<and>
      ((sm = IM_STRING \<and> lg = IM_EXTERNAL_STRING) \<or> (sm = IM_BLOCK \<and> lg = IM_EXTERNAL_BLOCK)) \<and>
      op_spec c (abs_dict h t) = (abs_dict h t)(ckey k \<mapsto> sm (take len src))"
  proof (cases "c = SetStr k s")
    case True
    with c show ?thesis
      by (intro exI [of _ "strlen s + 1"] exI [of _ "cstr s @ [NUL]"] exI [of _ IM_STRING] exI [of _ IM_EXTERNAL_STRING])
        (simp add: SetDictString_def len)
  next
    case False
    with c show ?thesis
      by (intro exI [of _ "length s"] exI [of _ s] exI [of _ IM_BLOCK] exI [of _ IM_EXTERNAL_BLOCK])
        (auto simp: SetDictBlock_def)
  qed
  then obtain len src sm lg where e: "exec_op n junk c (Some (Some (Ptr a [])), h) =
      map_option snd (set_bytes n (Ptr a []) k junk len src sm lg h)"
    and l: "len \<le> 1048576" "len \<le> length src"
      "(sm = IM_STRING \<and> lg = IM_EXTERNAL_STRING) \<or> (sm = IM_BLOCK \<and> lg = IM_EXTERNAL_BLOCK)"
    and sp: "op_spec c (abs_dict h t) = (abs_dict h t)(ckey k \<mapsto> sm (take len src))" by blast
  obtain d t' h' pos where
    "set_bytes n (Ptr a []) k junk len src sm lg h = Some (int pos, Some (Some (Ptr d [])), h')"
    "dict_ok n h' d t'" "abs_dict h' t' = (abs_dict h t)(ckey k \<mapsto> sm (take len src))" "inuse t' \<le> Suc (inuse t)"
    "oom h' = oom h" "rest_of n h' d (ht_map t') = rest_of n h a (ht_map t)"
    by (rule set_bytes_ok [OF D mem small n2 l, where k = k and junk = junk])
  then show ?thesis using e sp by (intro that [of d h' t']) auto
qed

lemma exec_del:
  assumes D: "dict_ok n h a t"
  obtains t' h' where "exec_op n junk (Del k) (Some (Some (Ptr a [])), h) = Some (Some (Some (Ptr a [])), h')"
    "dict_ok n h' a t'" "abs_dict h' t' = (abs_dict h t)(ckey k := None)" "inuse t' \<le> inuse t" "oom h' = oom h"
    "rest_of n h' a (ht_map t') = rest_of n h a (ht_map t)"
proof -
  obtain h' t' where R: "drop_existing n (Ptr a []) k h = Some h'" "dict_ok n h' a t'"
    "ht_map t' = (ht_map t)(ckey k := None)" "abs_dict h' t' = (abs_dict h t)(ckey k := None)"
    "inuse t' \<le> inuse t" "brk h' = brk h" "oom h' = oom h" "rest_of n h' a (ht_map t') = rest_of n h a (ht_map t)"
    by (rule drop_existing_ok [OF D])
  from R(1) obtain r where "im_delete_element_by_key n (Ptr a []) k h = Some (r, h')"
    by (auto simp: drop_existing_delete)
  with R show ?thesis by (intro that [of h' t']) (auto simp: DeleteDict_def)
qed

lemma exec_clear:
  assumes D: "dict_ok n h a t"
  obtains t' h' where "exec_op n junk Clear (Some (Some (Ptr a [])), h) = Some (Some (Some (Ptr a [])), h')"
    "dict_ok n h' a t'" "abs_dict h' t' = Map.empty" "inuse t' = 0" "oom h' = oom h"
    "rest_of n h' a (ht_map t') = rest_of n h a (ht_map t)"
proof -
  have d: "0 < n" "dict_at n h a t" using D by (simp_all add: dict_ok_def)
  obtain t' h' where R: "im_empty_hashtable n (Ptr a []) h = Some h'" "dict_at n h' a t'" "ht_map t' = Map.empty"
    "inuse t' = 0" "number_of_buckets t' = number_of_buckets t" "oom h' = oom h"
    "\<And>x. x \<noteq> a \<Longrightarrow> cells h' x = (if x \<in> map_addrs n h (ht_map t) then None else cells h x)"
    by (rule empty_owned [OF d(2,1)]) blast
  have "rest_of n h' a (ht_map t') = rest_of n h a (ht_map t)"
    using R(7) by (auto simp: rest_of_def R(3) map_addrs_def fun_eq_iff)
  with R d(1) show ?thesis
    by (intro that [of h' t']) (auto simp: ClearDict_def dict_ok_def abs_dict_def)
qed

lemma exec_step:
  assumes S: "dict_state n m0 s" and c: "legal_op c" and small: "dict_fill s < 499991" and n2: "2 \<le> n"
  shows "\<exists>s'. exec_op n junk c s = Some s' \<and> dict_state n m0 s' \<and> dict_view s' = op_spec c (dict_view s) \<and>
    dict_fill s' \<le> Suc (dict_fill s)"
proof -
  obtain a t h where s: "s = (Some (Some (Ptr a [])), h)" and D: "dict_ok n h a t" and mem: "\<forall>i. \<not> oom h i"
    and r: "rest_of n h a (ht_map t) = m0" using S by (cases s) (auto simp: dict_state_def)
  have i: "inuse t \<le> 499990" using small dict_view_ok(2) [OF D] s by simp
  have "\<exists>d t' h'. exec_op n junk c (Some (Some (Ptr a [])), h) = Some (Some (Some (Ptr d [])), h') \<and>
    dict_ok n h' d t' \<and> abs_dict h' t' = op_spec c (abs_dict h t) \<and> inuse t' \<le> Suc (inuse t) \<and> oom h' = oom h \<and>
    rest_of n h' d (ht_map t') = rest_of n h a (ht_map t)"
  proof (cases c)
    case (SetNum k v)
    with c have v: "number v" by simp
    show ?thesis unfolding SetNum by (rule exec_number [OF D mem i n2 v, where k = k and junk = junk]) (auto intro: le_SucI)
  next
    case (SetStr k b)
    then have e: "c = SetStr k b \<or> c = SetBlk k b" by simp
    show ?thesis by (rule exec_bytes [OF D mem i n2 c e, where junk = junk]) blast
  next
    case (SetBlk k b)
    then have e: "c = SetStr k b \<or> c = SetBlk k b" by simp
    show ?thesis by (rule exec_bytes [OF D mem i n2 c e, where junk = junk]) blast
  next
    case (Del k)
    show ?thesis unfolding Del by (rule exec_del [OF D, where k = k and junk = junk]) (auto intro: le_SucI)
  next
    case Clear
    show ?thesis unfolding Clear by (rule exec_clear [OF D, where junk = junk]) auto
  qed
  then obtain d t' h' where R: "exec_op n junk c (Some (Some (Ptr a [])), h) = Some (Some (Some (Ptr d [])), h')"
    "dict_ok n h' d t'" "abs_dict h' t' = op_spec c (abs_dict h t)" "inuse t' \<le> Suc (inuse t)" "oom h' = oom h"
    "rest_of n h' d (ht_map t') = rest_of n h a (ht_map t)" by blast
  then have "dict_state n m0 (Some (Some (Ptr d [])), h')" using mem r by (intro dict_stateI [OF R(2)]) auto
  with R show ?thesis unfolding s by (simp add: dict_view_ok [OF D] dict_view_ok [OF R(2)])
qed

interpretation beai: dict_machine "dict_state (Suc (Suc n)) m0" dict_view dict_fill 499991 legal_op "exec_op (Suc (Suc n)) junk" op_spec
  by unfold_locales (rule exec_step, simp_all)

end
