(* ===== verification/Dict_Properties.thy ===== *)
theory Dict_Properties
  imports Beai3Dict_Correct
begin

text \<open>
  The properties of the dictionary library, from the interface down to the hash table and the prime
  table, each with a run of the model that meets its hypotheses where it has some.
\<close>

section \<open>Preparations\<close>

definition empty_heap :: heap where
  "empty_heap = \<lparr>cells = (\<lambda>_. None), brk = 0, oom = (\<lambda>_. False)\<rparr>"

lemma empty_heap_ok [simp]: "heap_ok empty_heap" "\<not> oom empty_heap i" "brk empty_heap = 0"
  by (simp_all add: empty_heap_def heap_ok_def)

lemma InitDict_state:
  assumes "0 \<le> c" "c < 2 ^ 30" "heap_ok h" "\<forall>i. \<not> oom h i" "0 < n"
  obtains p h1 where "InitDict c h = Some (Some p, h1)" "dict_state n (cells h) (Some (Some p), h1)"
    "dict_view (Some (Some p), h1) = Map.empty" "dict_fill (Some (Some p), h1) = 0"
proof -
  obtain N where N: "bsearch_number_of_buckets c = Some N" "is_prime N" "3 \<le> N" "N \<le> 999983"
    using bsearch_least [OF assms(1,2)] by blast
  obtain h1 where I: "im_initialize_hashtable c h = Some (Some (Ptr (brk h) []), h1)"
    "dict_at n h1 (brk h) (fresh_table N)" "ht_map (fresh_table N) = Map.empty"
    "cells h1 = (cells h)(brk h \<mapsto> HashObj (fresh_table N) [])" "oom h1 = oom h"
    by (rule init_owned [OF N assms(3), where n = n]) (use assms(4) in auto)
  have ok: "dict_ok n h1 (brk h) (fresh_table N)" using I assms(5) by (simp add: dict_ok_def)
  have "rest_of n h1 (brk h) (ht_map (fresh_table N)) = cells h"
    using heap_ok_fresh [OF assms(3), of "brk h"] by (auto simp: rest_of_def I(3,4) map_addrs_def fun_eq_iff)
  then have "dict_state n (cells h) (Some (Some (Ptr (brk h) [])), h1)"
    using I(5) assms(4) by (intro dict_stateI [OF ok]) auto
  with I ok assms(1) show ?thesis
    by (intro that [of "Ptr (brk h) []" h1])
      (auto simp: InitDict_def dict_view_ok abs_dict_def fun_eq_iff)
qed

lemma dict_stateD:
  assumes "dict_state n m0 s"
  obtains a t h where "s = (Some (Some (Ptr a [])), h)" "dict_ok n h a t" "\<forall>i. \<not> oom h i"
    "rest_of n h a (ht_map t) = m0" "dict_view s = abs_dict h t" "dict_fill s = inuse t"
  using assms dict_view_ok by (cases s) (fastforce simp: dict_state_def)

lemma dict_state_handle:
  assumes "dict_state n m0 (Some (Some p), h)"
  obtains a t where "p = Ptr a []" "dict_ok n h a t" "dict_view (Some (Some p), h) = abs_dict h t"
    "dict_fill (Some (Some p), h) = inuse t" "rest_of n h a (ht_map t) = m0" "\<forall>i. \<not> oom h i"
  by (rule dict_stateD [OF assms]) (auto intro: that)

lemma demo_state:
  assumes "list_all legal_op ops" "length ops < 499991"
  obtains p h where "dict_state (Suc (Suc 0)) (cells empty_heap) (Some (Some p), h)" "dict_fill (Some (Some p), h) < 499991"
    "dict_view (Some (Some p), h) = fold op_spec ops Map.empty"
proof -
  obtain p h1 where I: "dict_state (Suc (Suc 0)) (cells empty_heap) (Some (Some p), h1)"
    "dict_view (Some (Some p), h1) = Map.empty" "dict_fill (Some (Some p), h1) = 0"
    by (rule InitDict_state [of 0 empty_heap "Suc (Suc 0)"]) auto
  obtain s where s: "dict_state (Suc (Suc 0)) (cells empty_heap) s" "dict_view s = fold op_spec ops Map.empty"
      "dict_fill s \<le> length ops"
    using beai.run [of 0 "cells empty_heap" "(Some (Some p), h1)" ops NUL] I assms by auto
  obtain a t h where "s = (Some (Some (Ptr a [])), h)" by (rule dict_stateD [OF s(1)])
  with s assms(2) show ?thesis by (intro that [of "Ptr a []" h]) auto
qed

definition int_value :: "im_value \<Rightarrow> int option" where
  "int_value v = (case v of
      IM_SHORT w \<Rightarrow> Some (sint w) | IM_INT w \<Rightarrow> Some (sint w) | IM_LONG w \<Rightarrow> Some (sint w)
    | IM_LONGLONG w \<Rightarrow> Some (sint w) | IM_USHORT w \<Rightarrow> Some (uint w) | IM_UINT w \<Rightarrow> Some (uint w)
    | IM_ULONG w \<Rightarrow> Some (uint w) | IM_ULONGLONG w \<Rightarrow> Some (uint w) | _ \<Rightarrow> None)"

lemma number_of_int_value: "int_value v = Some i \<Longrightarrow> number_of_value c h p v = Some (Some (conv_int c i))"
  by (auto simp: int_value_def number_of_value_def split: im_value.splits)

lemma get_number_state:
  assumes "dict_state n m0 (Some (Some p), h)"
  shows "get_number c (Some p) (Some k) (Some x) h =
    (case dict_view (Some (Some p), h) (ckey k) of
       None \<Rightarrow> Some (-1, Some x)
     | Some v \<Rightarrow> map_option (\<lambda>r. case r of None \<Rightarrow> (-1, Some x) | Some y \<Rightarrow> (0, Some y)) (number_of_value c h p v))"
proof -
  obtain a t where p: "p = Ptr a []" and d: "dict_ok n h a t" "dict_view (Some (Some p), h) = abs_dict h t"
    by (rule dict_state_handle [OF assms])
  show ?thesis unfolding d(2) unfolding p by (rule get_number_ok [OF d(1)])
qed

lemma get_int_conv:
  fixes x :: "'w::len word"
  assumes "dict_state n m0 (Some (Some p), h)" "dict_view (Some (Some p), h) (ckey k) = Some v" "int_value v = Some i"
  shows "get_number (int_conv lo hi rd) (Some p) (Some k) (Some x) h = Some (0, Some (word_of_int i))"
proof -
  have "number_of_value (int_conv lo hi rd :: 'w word conv) h p v = Some (Some (word_of_int i))"
    by (simp add: number_of_int_value [OF assms(3)]) (simp add: int_conv_def)
  then show ?thesis using get_number_state [OF assms(1), of "int_conv lo hi rd" k x] assms(2) by simp
qed

lemma lookup_missing:
  assumes "dict_state n m0 (Some (Some p), h)" "dict_view (Some (Some p), h) (ckey k) = None"
  shows "lookup_bucket (Some p) (Some k) (Some y) h = Some None"
proof -
  obtain a t where p: "p = Ptr a []" and d: "dict_ok n h a t" "dict_view (Some (Some p), h) = abs_dict h t"
    by (rule dict_state_handle [OF assms(1)])
  then have "dict_at n h a t" "ht_map t (ckey k) = None" using assms(2) by (auto simp: dict_ok_def abs_dict_def)
  then show ?thesis by (simp add: p lookup_ok)
qed

lemma dec_nat_length: "n < 10 ^ Suc k \<Longrightarrow> length (dec_nat n) \<le> Suc k"
proof (induction k arbitrary: n)
  case 0
  then show ?case by (subst dec_nat.simps) simp
next
  case (Suc k)
  then have "n div 10 < 10 ^ Suc k" by (simp add: less_mult_imp_div_less)
  with Suc.IH show ?case by (subst dec_nat.simps) simp
qed

lemma dec_int_length:
  assumes "- (2 ^ 63) \<le> i" "i < 2 ^ 63"
  shows "length (cstr (dec_int i)) \<le> 21"
proof -
  have "nat i < 10 ^ Suc 19" "nat (- i) < 10 ^ Suc 19" using assms by simp_all
  then have "length (dec_nat (nat i)) \<le> 20" "length (dec_nat (nat (- i))) \<le> 20"
    using dec_nat_length [of _ 19] by simp_all
  then have "length (dec_int i) \<le> 21" by (simp add: dec_int_def)
  then show ?thesis by (simp add: cstr_dec_int)
qed

section \<open>The interface\<close>

text \<open>
  (C1) Refinement of finite maps. On a dictionary made by \<^verbatim>\<open>InitDict\<close>, every sequence of up to
  499,991 calls of the setters of numbers, strings and blocks, of \<^verbatim>\<open>DeleteDict\<close> and \<^verbatim>\<open>ClearDict\<close>
  terminates without undefined behaviour, and the dictionary then holds exactly what the
  corresponding updates of a finite map leave, whatever collisions, deletions and rehashes happen.
\<close>

theorem dict_refines_map:
  assumes "0 \<le> c" "c < 2 ^ 30" "heap_ok h" "\<forall>i. \<not> oom h i" "list_all legal_op ops" "length ops \<le> 499991"
  shows "\<exists>p h1 s. InitDict c h = Some (Some p, h1) \<and>
    foldM (exec_op (Suc (Suc n)) junk) ops (Some (Some p), h1) = Some s \<and> dict_view s = fold op_spec ops Map.empty"
proof -
  obtain p h1 where I: "InitDict c h = Some (Some p, h1)" "dict_state (Suc (Suc n)) (cells h) (Some (Some p), h1)"
    "dict_view (Some (Some p), h1) = Map.empty" "dict_fill (Some (Some p), h1) = 0"
    by (rule InitDict_state [OF assms(1-4), where n = "Suc (Suc n)"]) auto
  from beai.run [OF I(2) assms(5), of junk] assms(6) I(1,3,4) show ?thesis by auto
qed

definition demo_ops :: "dict_op list" where
  "demo_ops = [SetNum ''amount'' (IM_INT 5), SetStr ''name'' ''a name that does not fit in a bucket'',
     SetNum ''amount'' (IM_LONG 7), SetBlk ''raw'' [NUL, NUL], Del ''raw'']"

lemma demo_legal: "list_all legal_op demo_ops" "length demo_ops \<le> 499991"
  by (simp_all add: demo_ops_def strlen_def cstr_def)

theorem dict_refines_map_witness:
  "\<exists>p h1 s. InitDict 0 empty_heap = Some (Some p, h1) \<and>
    foldM (exec_op (Suc (Suc 0)) NUL) demo_ops (Some (Some p), h1) = Some s \<and>
    dict_view s = fold op_spec demo_ops Map.empty"
  by (rule dict_refines_map) (simp_all add: demo_legal)

text \<open>
  (C2) No leak, no double free. After any such sequence \<^verbatim>\<open>DestroyDict\<close> gives back every allocation made
  since \<^verbatim>\<open>InitDict\<close>, the blocks of replaced and deleted strings included, and touches nothing else:
  the memory is what it was before.
\<close>

theorem dict_no_leak:
  assumes "0 \<le> c" "c < 2 ^ 30" "heap_ok h" "\<forall>i. \<not> oom h i" "list_all legal_op ops" "length ops \<le> 499991"
  shows "\<exists>p h1 p' h2 h3. InitDict c h = Some (Some p, h1) \<and>
    foldM (exec_op (Suc (Suc n)) junk) ops (Some (Some p), h1) = Some (Some (Some p'), h2) \<and>
    DestroyDict (Suc (Suc n)) (Some p') h2 = Some h3 \<and> cells h3 = cells h"
proof -
  obtain p h1 where I: "InitDict c h = Some (Some p, h1)" "dict_state (Suc (Suc n)) (cells h) (Some (Some p), h1)"
    "dict_view (Some (Some p), h1) = Map.empty" "dict_fill (Some (Some p), h1) = 0"
    by (rule InitDict_state [OF assms(1-4), where n = "Suc (Suc n)"]) auto
  obtain s where s: "foldM (exec_op (Suc (Suc n)) junk) ops (Some (Some p), h1) = Some s"
      "dict_state (Suc (Suc n)) (cells h) s"
    using beai.run [OF I(2) assms(5), of junk] assms(6) I(4) by auto
  obtain a t h2 where d: "s = (Some (Some (Ptr a [])), h2)" "dict_ok (Suc (Suc n)) h2 a t"
      "rest_of (Suc (Suc n)) h2 a (ht_map t) = cells h"
    by (rule dict_stateD [OF s(2)])
  have "im_destroy_hashtable (Suc (Suc n)) (Ptr a []) h2 = Some (h2\<lparr>cells := cells h\<rparr>)"
    using destroy_owned [of "Suc (Suc n)" h2 a t] d by (simp add: dict_ok_def)
  with I(1) s(1) d(1) show ?thesis by (auto simp: DestroyDict_def)
qed

theorem dict_no_leak_witness:
  "\<exists>p h1 p' h2 h3. InitDict 0 empty_heap = Some (Some p, h1) \<and>
    foldM (exec_op (Suc (Suc 0)) NUL) demo_ops (Some (Some p), h1) = Some (Some (Some p'), h2) \<and>
    DestroyDict (Suc (Suc 0)) (Some p') h2 = Some h3 \<and> cells h3 = cells empty_heap"
  by (rule dict_no_leak) (simp_all add: demo_legal)

text \<open> Integers are read back by value. Whatever integer kind is stored under a key, a getter of an
  integer type returns 0 and the value converted to that type, so exactly the value stored if the
  types agree.
\<close>

theorem get_integer:
  assumes "dict_state n m0 (Some (Some p), h)" "dict_view (Some (Some p), h) (ckey k) = Some v" "int_value v = Some i"
  shows "GetDictShort (Some p) (Some k) (Some a) h = Some (0, Some (word_of_int i)) \<and>
    GetDictInt (Some p) (Some k) (Some b) h = Some (0, Some (word_of_int i)) \<and>
    GetDictLong (Some p) (Some k) (Some c) h = Some (0, Some (word_of_int i)) \<and>
    GetDictLongLong (Some p) (Some k) (Some c) h = Some (0, Some (word_of_int i)) \<and>
    GetDictUShort (Some p) (Some k) (Some a) h = Some (0, Some (word_of_int i)) \<and>
    GetDictUInt (Some p) (Some k) (Some b) h = Some (0, Some (word_of_int i)) \<and>
    GetDictULong (Some p) (Some k) (Some c) h = Some (0, Some (word_of_int i)) \<and>
    GetDictULongLong (Some p) (Some k) (Some c) h = Some (0, Some (word_of_int i))"
  by (simp add: GetDictShort_def GetDictInt_def GetDictLong_def GetDictLongLong_def GetDictUShort_def GetDictUInt_def
      GetDictULong_def GetDictULongLong_def get_int_conv [OF assms])

theorem get_integer_witness:
  "\<exists>p h. GetDictLong (Some p) (Some ''amount'') (Some 0) h = Some (0, Some (word_of_int (-5)))"
proof -
  obtain p h where "dict_state (Suc (Suc 0)) (cells empty_heap) (Some (Some p), h)"
    "dict_view (Some (Some p), h) = fold op_spec [SetNum ''amount'' (IM_INT (-5))] Map.empty"
    by (rule demo_state [of "[SetNum ''amount'' (IM_INT (-5))]"]) auto
  then have "GetDictLong (Some p) (Some ''amount'') (Some 0) h = Some (0, Some (word_of_int (-5)))"
    using get_integer [of "Suc (Suc 0)" "cells empty_heap" p h "''amount''" "IM_INT (-5)" "-5" 0 0 0] by (simp add: int_value_def)
  then show ?thesis by blast
qed

text \<open> Strings round-trip. After \<^verbatim>\<open>SetDictString\<close> of a text below one megabyte, \<^verbatim>\<open>GetDictString\<close> with
  a buffer of \<open>sz\<close> bytes returns the first \<open>sz - 1\<close> bytes of it and their number, whether the
  text fits in the bucket or not.
\<close>

theorem set_get_string:
  assumes "dict_state (Suc (Suc n)) m0 (Some (Some p), h)" "dict_fill (Some (Some p), h) < 499991"
    "strlen s < 1048576" "0 < sz"
  shows "\<exists>r p' h'. SetDictString (Suc (Suc n)) junk (Some (Some p)) (Some k) (Some s) h = Some (r, Some (Some p'), h') \<and>
    GetDictString (Some p') (Some k) (Some x) sz h' =
      Some (int (min (strlen s) (nat sz - 1)), Some (take (nat sz - 1) (cstr s)))"
proof -
  obtain s' where E: "exec_op (Suc (Suc n)) junk (SetStr k s) (Some (Some p), h) = Some s'" "dict_state (Suc (Suc n)) m0 s'"
      "dict_view s' = op_spec (SetStr k s) (dict_view (Some (Some p), h))"
    using exec_step [OF assms(1), of "SetStr k s" junk] assms(2,3) by auto
  obtain a t h' where D: "s' = (Some (Some (Ptr a [])), h')" "dict_ok (Suc (Suc n)) h' a t" "dict_view s' = abs_dict h' t"
    by (rule dict_stateD [OF E(2)])
  have "abs_dict h' t (ckey k) = Some (IM_STRING (cstr s @ [NUL]))" using E(3) D(3) by simp
  then have "GetDictString (Some (Ptr a [])) (Some k) (Some x) sz h' =
      Some (int (min (strlen s) (nat sz - 1)), Some (take (nat sz - 1) (cstr s)))"
    using get_string_ok [OF D(2) assms(4)] by (simp add: text_of_value_def cstr_append_NUL strlen_def)
  with E(1) D(1) show ?thesis by auto
qed

theorem set_get_string_witness:
  "\<exists>p h r p' h'. SetDictString (Suc (Suc 0)) NUL (Some (Some p)) (Some ''k'') (Some ''twenty characters ok'') h =
      Some (r, Some (Some p'), h') \<and>
    GetDictString (Some p') (Some ''k'') (Some []) 5 h' =
      Some (int (min (strlen ''twenty characters ok'') (nat 5 - 1)), Some (take (nat 5 - 1) (cstr ''twenty characters ok'')))"
proof -
  obtain p h where "dict_state (Suc (Suc 0)) (cells empty_heap) (Some (Some p), h)" "dict_fill (Some (Some p), h) < 499991"
    by (rule demo_state [of "[]"]) auto
  moreover have "strlen ''twenty characters ok'' < 1048576" by (simp add: strlen_def cstr_def)
  ultimately show ?thesis using set_get_string [of 0 _ p h _ 5 NUL "''k''" "[]"] by (metis zero_less_numeral)
qed

text \<open> Numbers as text. A \<^verbatim>\<open>long\<close> printed into a string and stored with \<^verbatim>\<open>SetDictString\<close> is read back
  by \<^verbatim>\<open>GetDictLong\<close> as the number itself.
\<close>

theorem text_number_roundtrip:
  assumes "dict_state (Suc (Suc n)) m0 (Some (Some p), h)" "dict_fill (Some (Some p), h) < 499991"
  shows "\<exists>r p' h'. SetDictString (Suc (Suc n)) junk (Some (Some p)) (Some k) (Some (dec_int (sint w))) h =
      Some (r, Some (Some p'), h') \<and> GetDictLong (Some p') (Some k) (Some x) h' = Some (0, Some w)"
proof -
  have i: "- (2 ^ 63) \<le> sint w" "sint w < 2 ^ 63" using sint_ge [of w] sint_lt [of w] by simp_all
  have len: "strlen (dec_int (sint w)) < 1048576" using dec_int_length [OF i] by (simp add: strlen_def)
  obtain s' where E: "exec_op (Suc (Suc n)) junk (SetStr k (dec_int (sint w))) (Some (Some p), h) = Some s'"
      "dict_state (Suc (Suc n)) m0 s'"
      "dict_view s' = op_spec (SetStr k (dec_int (sint w))) (dict_view (Some (Some p), h))"
    using exec_step [OF assms(1), of "SetStr k (dec_int (sint w))" junk] assms(2) len by auto
  obtain a t h' where D: "s' = (Some (Some (Ptr a [])), h')" by (rule dict_stateD [OF E(2)])
  have "strtol10 (cstr (dec_int (sint w)) @ [NUL]) = sint w"
    using strtol10_dec_int [OF i] by (simp add: strtol10_def cstr_append_NUL)
  then have "GetDictLong (Some (Ptr a [])) (Some k) (Some x) h' = Some (0, Some w)"
    using get_number_state [OF E(2) [unfolded D], where c = "int_conv (- (2 ^ 63)) (2 ^ 63 - 1) atol" and k = k and x = x]
      E(3) D by (simp add: GetDictLong_def number_of_value_def int_conv_def atol_def)
  with E(1) D show ?thesis by auto
qed

theorem text_number_roundtrip_witness:
  "\<exists>p h r p' h'. SetDictString (Suc (Suc 0)) NUL (Some (Some p)) (Some ''k'') (Some (dec_int (sint (-42 :: 64 word)))) h =
      Some (r, Some (Some p'), h') \<and> GetDictLong (Some p') (Some ''k'') (Some 0) h' = Some (0, Some (-42))"
proof -
  obtain p h where "dict_state (Suc (Suc 0)) (cells empty_heap) (Some (Some p), h)" "dict_fill (Some (Some p), h) < 499991"
    by (rule demo_state [of "[]"]) auto
  from text_number_roundtrip [OF this, of NUL "''k''" "-42" 0] show ?thesis by blast
qed

text \<open>
  A missing key. Every getter answers -1 for a key that is not in the dictionary and leaves the
  output parameter as it was.
\<close>

theorem get_missing:
  assumes "dict_state n m0 (Some (Some p), h)" "dict_view (Some (Some p), h) (ckey k) = None"
  shows "GetDictInt (Some p) (Some k) (Some b) h = Some (-1, Some b) \<and>
    GetDictDouble (Some p) (Some k) (Some d) h = Some (-1, Some d) \<and>
    GetDictString (Some p) (Some k) (Some s) sz h = Some (-1, Some s) \<and>
    GetDictBlock (Some p) (Some k) (Some s) sz h = Some (-1, Some s) \<and>
    GetDictDict (Some p) (Some k) (Some q) h = Some (-1, Some q) \<and>
    GetDictArray (Some p) (Some k) (Some q) h = Some (-1, Some q)"
  by (simp add: GetDictInt_def GetDictDouble_def get_number_def GetDictString_def GetDictBlock_def GetDictDict_def
      GetDictArray_def lookup_missing [OF assms])

theorem get_missing_witness:
  "\<exists>p h. GetDictInt (Some p) (Some ''k'') (Some 9) h = Some (-1, Some 9)"
proof -
  obtain p h where s: "dict_state (Suc (Suc 0)) (cells empty_heap) (Some (Some p), h)"
    "dict_view (Some (Some p), h) = fold op_spec [] Map.empty"
    by (rule demo_state [of "[]"]) auto
  then have "dict_view (Some (Some p), h) (ckey ''k'') = None" by simp
  from get_missing [OF s(1) this] show ?thesis by blast
qed

text \<open>
  Null pointers. The setters and getters check their arguments: with a null handle, key or
  output parameter they return -1 and change nothing.
\<close>

theorem null_arguments:
  "SetDictInt n None (Some k) w h = Some (-1, None, h) \<and> SetDictInt n (Some None) (Some k) w h = Some (-1, Some None, h) \<and>
   SetDictInt n (Some (Some p)) None w h = Some (-1, Some (Some p), h) \<and>
   SetDictString n junk (Some (Some p)) (Some k) None h = Some (-1, Some (Some p), h) \<and>
   SetDictDict n (Some (Some p)) None (Some q) h = Some (-1, Some (Some p), h) \<and>
   GetDictInt None (Some k) (Some x) h = Some (-1, Some x) \<and> GetDictInt (Some p) None (Some x) h = Some (-1, Some x) \<and>
   GetDictInt (Some p) (Some k) None h = Some (-1, None) \<and>
   GetDictString (Some p) (Some k) None sz h = Some (-1, None) \<and>
   DestroyDict n None h = Some h \<and> ClearDict n None h = Some h \<and> GetDictNElement None h = Some (-1)"
  by (auto simp: SetDictInt_def set_number_def SetDictString_def SetDictDict_def GetDictInt_def get_number_def
      lookup_bucket_def GetDictString_def DestroyDict_def ClearDict_def GetDictNElement_def split: option.splits)

text \<open>
  A text that is too long. \<^verbatim>\<open>SetDictString\<close> refuses texts of a megabyte and more with -1, but has
  deleted the old entry of the key by then.
\<close>

theorem set_string_too_long:
  assumes "dict_state n m0 (Some (Some p), h)" "1048576 \<le> strlen s"
  shows "\<exists>h'. SetDictString n junk (Some (Some p)) (Some k) (Some s) h = Some (-1, Some (Some p), h') \<and>
    dict_state n m0 (Some (Some p), h') \<and>
    dict_view (Some (Some p), h') = (dict_view (Some (Some p), h))(ckey k := None)"
proof -
  obtain a t where d: "p = Ptr a []" "dict_ok n h a t" "dict_view (Some (Some p), h) = abs_dict h t"
    "dict_fill (Some (Some p), h) = inuse t" "rest_of n h a (ht_map t) = m0" "\<forall>i. \<not> oom h i"
    by (rule dict_state_handle [OF assms(1)])
  obtain h' t' where R: "drop_existing n (Ptr a []) k h = Some h'" "dict_ok n h' a t'"
    "ht_map t' = (ht_map t)(ckey k := None)" "abs_dict h' t' = (abs_dict h t)(ckey k := None)"
    "inuse t' \<le> inuse t" "brk h' = brk h" "oom h' = oom h" "rest_of n h' a (ht_map t') = rest_of n h a (ht_map t)"
    by (rule drop_existing_ok [OF d(2)])
  have "dict_state n m0 (Some (Some p), h')" using R d by (auto intro!: dict_stateI [OF R(2)])
  moreover have "dict_view (Some (Some p), h') = (dict_view (Some (Some p), h))(ckey k := None)"
    using R(4) d(1,3) dict_view_ok(1) [OF R(2)] by simp
  ultimately show ?thesis using R(1) d(1) assms(2) by (simp add: SetDictString_def set_bytes_def)
qed

theorem set_string_too_long_witness:
  "\<exists>p h h'. SetDictString (Suc (Suc 0)) NUL (Some (Some p)) (Some ''k'') (Some (replicate 1048576 (CHR ''x''))) h =
      Some (-1, Some (Some p), h') \<and> dict_view (Some (Some p), h) (ckey ''k'') = Some (IM_INT 1) \<and>
    dict_view (Some (Some p), h') (ckey ''k'') = None"
proof -
  obtain p h where s: "dict_state (Suc (Suc 0)) (cells empty_heap) (Some (Some p), h)"
    "dict_view (Some (Some p), h) = fold op_spec [SetNum ''k'' (IM_INT 1)] Map.empty"
    by (rule demo_state [of "[SetNum ''k'' (IM_INT 1)]"]) auto
  have "1048576 \<le> strlen (replicate 1048576 (CHR ''x''))"
    using takeWhile_replicate [of "\<lambda>c. c \<noteq> NUL" 1048576 "CHR ''x''"] by (simp add: strlen_def cstr_def)
  from set_string_too_long [OF s(1) this, of NUL "''k''"] s(2) show ?thesis by fastforce
qed

section \<open>Enumeration\<close>

lemma live_keys_take:
  assumes c: "ht_core t"
  shows "i \<le> number_of_buckets t \<Longrightarrow>
    distinct (map (\<lambda>b. ckey (bucket_key b)) (filter live (take i (buckets t)))) \<and>
    set (map (\<lambda>b. ckey (bucket_key b)) (filter live (take i (buckets t)))) = dom (live_map (take i (buckets t)))"
proof (induction i)
  case 0
  show ?case by (auto simp: live_map_def)
next
  case (Suc i)
  then have i: "i < number_of_buckets t" "i < length (buckets t)" using ht_coreD(4) [OF c] by auto
  show ?case
  proof (cases "live (buckets t ! i)")
    case True
    then have "ckey (bucket_key (buckets t ! i)) \<notin> dom (live_map (take i (buckets t)))"
      using live_map_take(1) [OF c i(1)] by auto
    with True Suc i show ?thesis
      unfolding live_map_take(2) [OF c i(1)] by (auto simp: take_Suc_conv_app_nth)
  next
    case False
    with Suc i show ?thesis unfolding live_map_take(2) [OF c i(1)] by (simp add: take_Suc_conv_app_nth)
  qed
qed

lemma live_keys:
  assumes "ht_core t"
  shows "distinct (map (\<lambda>b. ckey (bucket_key b)) (filter live (buckets t)))"
    "set (map (\<lambda>b. ckey (bucket_key b)) (filter live (buckets t))) = dom (ht_map t)"
  using live_keys_take [OF assms order_refl] ht_coreD(4) [OF assms] by (simp_all add: ht_map_def)

lemma card_dom: "ht_core t \<Longrightarrow> card (dom (ht_map t)) = inuse t"
  using live_keys distinct_card by (metis (no_types, lifting) ht_coreD(5) length_map)

lemma keyv_loop_take:
  "0 \<le> count \<Longrightarrow> keyv_loop keyc bs count keyv =
     (count + int (length (take (nat (keyc - count)) (filter live bs))),
      keyv @ take (nat (keyc - count)) (map bucket_key (filter live bs)))"
proof (induction bs arbitrary: count keyv)
  case (Cons b bs)
  show ?case
  proof (cases "count < keyc")
    case True
    then have "nat (keyc - count) = Suc (nat (keyc - (count + 1)))" by simp
    with True Cons show ?thesis by (auto simp: live_def vacant_def)
  qed (use Cons.prems in simp)
qed simp

text \<open> \<^verbatim>\<open>GetDictNElement\<close> is the number of keys in the dictionary, and \<^verbatim>\<open>GetDictKeyv\<close> with room for them
  all lists every key exactly once.
\<close>

theorem enumerate_keys:
  assumes "dict_state n m0 (Some (Some p), h)" "int (dict_fill (Some (Some p), h)) \<le> keyc"
  shows "GetDictNElement (Some p) h = Some (int (card (dom (dict_view (Some (Some p), h))))) \<and>
    (\<exists>ks. GetDictKeyv (Some p) keyc h = Some (int (card (dom (dict_view (Some (Some p), h)))), ks) \<and>
      distinct (map ckey ks) \<and> set (map ckey ks) = dom (dict_view (Some (Some p), h)))"
proof -
  obtain a t where d: "p = Ptr a []" "dict_ok n h a t" "dict_view (Some (Some p), h) = abs_dict h t"
    "dict_fill (Some (Some p), h) = inuse t" by (rule dict_state_handle [OF assms(1)])
  have "dict_at n h a t" using d(2) by (simp add: dict_ok_def)
  then obtain att where t: "cells h a = Some (HashObj t att)" "load_hash h (Ptr a []) = Some (t, att)" "ht_inv t" "ht_core t"
    "heap_ok h" "owned n h a (ht_map t)" by (rule dict_atD)
  have dom: "dom (dict_view (Some (Some p), h)) = dom (ht_map t)" by (auto simp: d(3) abs_dict_def)
  have len: "length (filter live (buckets t)) = inuse t" using ht_coreD(5) [OF t(4)] by simp
  then have "keyv_loop keyc (buckets t) 0 [] = (int (inuse t), map bucket_key (filter live (buckets t)))"
    using assms(2) d(4) by (simp add: keyv_loop_take)
  then have "GetDictKeyv (Some p) keyc h = Some (int (inuse t), map bucket_key (filter live (buckets t)))"
    using t(2) ht_coreD(4) [OF t(4)] by (simp add: GetDictKeyv_def d(1))
  moreover have "GetDictNElement (Some p) h = Some (int (inuse t))"
    using t(2) counts_small [OF t(4)] by (simp add: GetDictNElement_def d(1))
  ultimately show ?thesis
    unfolding dom card_dom [OF t(4)] using live_keys [OF t(4)] by (simp add: comp_def image_image)
qed

theorem enumerate_keys_witness:
  "\<exists>p h ks. GetDictKeyv (Some p) 499991 h = Some (int (card (dom (dict_view (Some (Some p), h)))), ks) \<and>
     set (map ckey ks) = dom (dict_view (Some (Some p), h)) \<and>
     dict_view (Some (Some p), h) = fold op_spec demo_ops Map.empty"
proof -
  obtain p h where s: "dict_state (Suc (Suc 0)) (cells empty_heap) (Some (Some p), h)" "dict_fill (Some (Some p), h) < 499991"
    "dict_view (Some (Some p), h) = fold op_spec demo_ops Map.empty"
    by (rule demo_state [of demo_ops]) (use demo_legal in \<open>auto simp: demo_ops_def\<close>)
  from enumerate_keys [OF s(1), of 499991] s(2,3) show ?thesis by fastforce
qed

section \<open>Nested dictionaries\<close>

text \<open>
  Two dictionaries in memory that share nothing: seen from either one, the other is part of the rest.
\<close>

lemma rest_of_Some: "rest_of n h a m x = Some y \<Longrightarrow> x \<noteq> a \<and> x \<notin> map_addrs n h m \<and> cells h x = Some y"
  by (auto simp: rest_of_def split: if_splits)

lemma nested_value:
  assumes P: "rest_of n' h1 a m = m0" and Q: "dict_ok n h b u" and sep: "dom m0 \<union> dom (rest_of n h b (ht_map u)) = dom (cells h)"
    and same: "\<And>x y. cells h x = Some y \<Longrightarrow> m0 x = Some y \<or> m0 x = None"
  shows "own_value (Suc n) h1 a (IM_EXTERNAL_NESTED l (Ptr b []))"
    "val_addrs (Suc n) h1 (IM_EXTERNAL_NESTED l (Ptr b [])) = insert b (map_addrs n h (ht_map u))"
    "val_addrs (Suc n) h1 (IM_EXTERNAL_NESTED l (Ptr b [])) \<inter> insert a (map_addrs n' h1 m) = {}"
    "cells h1 b = cells h b"
proof -
  have q: "0 < n" "dict_at n h b u" using Q by (auto simp: dict_ok_def)
  obtain as where as: "hash_fp n h (Ptr b []) = Some as" "distinct as" "b \<notin> set as" "set as = map_addrs n h (ht_map u)"
    by (rule hash_fp_owned [OF q(2,1)])
  have "cells h b \<noteq> None" using q(2) by (auto simp: dict_at_def)
  have mem: "\<exists>y. cells h x = Some y \<and> m0 x = Some y" if "x \<in> insert b (set as)" for x
  proof -
    have "x \<in> dom (cells h)" using that \<open>cells h b \<noteq> None\<close> as(4) map_addrs_alloc [of n h "ht_map u"] by auto
    moreover have "rest_of n h b (ht_map u) x = None" using that as(4) by (auto simp: rest_of_def)
    ultimately have "x \<in> dom m0" using sep by auto
    with \<open>x \<in> dom (cells h)\<close> same [of x] show ?thesis by auto
  qed
  have h1: "cells h1 x = cells h x \<and> x \<noteq> a \<and> x \<notin> map_addrs n' h1 m" if x: "x \<in> insert b (set as)" for x
  proof -
    obtain y where "cells h x = Some y" "m0 x = Some y" using mem [OF x] by blast
    moreover from this(2) P have "x \<noteq> a \<and> x \<notin> map_addrs n' h1 m \<and> cells h1 x = Some y"
      by (intro rest_of_Some) simp
    ultimately show ?thesis by simp
  qed
  then have "same_on (insert (root (Ptr b [])) (set as)) h h1" by (auto simp: same_on_def)
  then have "hash_fp n h1 (Ptr b []) = Some as" by (rule fp_same(2) [OF as(1)])
  then have fp: "val_fp (Suc n) h1 (IM_EXTERNAL_NESTED l (Ptr b [])) = Some (as @ [b])"
    using h1 [of b] \<open>cells h b \<noteq> None\<close> by (simp add: val_fp_def value_fp.simps)
  then show addrs: "val_addrs (Suc n) h1 (IM_EXTERNAL_NESTED l (Ptr b [])) = insert b (map_addrs n h (ht_map u))"
    using as(4) by (auto simp: val_addrs_def)
  show "own_value (Suc n) h1 a (IM_EXTERNAL_NESTED l (Ptr b []))"
    using fp as(2,3) h1 by (auto simp: own_value_def)
  show "val_addrs (Suc n) h1 (IM_EXTERNAL_NESTED l (Ptr b [])) \<inter> insert a (map_addrs n' h1 m) = {}"
    unfolding addrs using h1 as(4) by auto
  show "cells h1 b = cells h b" using h1 by simp
qed

text \<open>
  (C11) Nesting. Storing a dictionary in another hands it over: \<^verbatim>\<open>GetDictDict\<close> returns the very
  handle, and destroying the outer dictionary frees the inner one with everything in it, once, and
  nothing that belongs to neither.
\<close>

theorem nested_dict:
  assumes P: "dict_state (Suc n) m0 (Some (Some p), h)" and Q: "dict_state n m1 (Some (Some q), h)"
    and sep: "dom m0 \<union> dom m1 = dom (cells h)" and small: "dict_fill (Some (Some p), h) < 499991"
    and len: "load_hash h q = Some (u, att)" "hash_size (number_of_buckets u) + attached_offset u \<le> 1048576"
  shows "\<exists>r p' h' h3. SetDictDict (Suc n) (Some (Some p)) (Some k) (Some q) h = Some (r, Some (Some p'), h') \<and> 0 \<le> r \<and>
    GetDictDict (Some p') (Some k) (Some x) h' = Some (0, Some (Some q)) \<and>
    DestroyDict (Suc n) (Some p') h' = Some h3 \<and> cells h3 = (\<lambda>a. if m1 a = None then None else m0 a)"
proof -
  obtain a t where p: "p = Ptr a []" "dict_ok (Suc n) h a t" "dict_fill (Some (Some p), h) = inuse t"
    "rest_of (Suc n) h a (ht_map t) = m0" "\<forall>i. \<not> oom h i" by (rule dict_state_handle [OF P])
  obtain b u' where q: "q = Ptr b []" "dict_ok n h b u'" "rest_of n h b (ht_map u') = m1" by (rule dict_state_handle [OF Q])
  have u: "cells h b = Some (HashObj u att)" "u' = u" using q(1,2) len(1) by (auto simp: dict_ok_def dict_at_def)
  obtain h1 t1 where R: "drop_existing (Suc n) (Ptr a []) k h = Some h1" "dict_ok (Suc n) h1 a t1"
    "ht_map t1 = (ht_map t)(ckey k := None)" "abs_dict h1 t1 = (abs_dict h t)(ckey k := None)"
    "inuse t1 \<le> inuse t" "brk h1 = brk h" "oom h1 = oom h" "rest_of (Suc n) h1 a (ht_map t1) = rest_of (Suc n) h a (ht_map t)"
    by (rule drop_existing_ok [OF p(2)])
  let ?v = "IM_EXTERNAL_NESTED (hash_size (number_of_buckets u) + attached_size u) (Ptr b [])"
  have same: "m0 y = Some z \<or> m0 y = None" if "cells h y = Some z" for y z
    using that unfolding p(4) [symmetric] rest_of_def by simp
  note nv = nested_value(1-3) [OF R(8) [unfolded p(4)] q(2) sep [folded q(3)] same,
      where l = "hash_size (number_of_buckets u) + attached_size u"]
  have same_b: "cells h1 b = cells h b" by (rule nested_value(4) [OF R(8) [unfolded p(4)] q(2) sep [folded q(3)] same])
  let ?b = "\<lparr>bucket_key = key_field k NUL, value_length = hash_size (number_of_buckets u) + attached_offset u, bucket_value = ?v\<rparr>"
  have b: "live ?b" "bucket_ok h1 ?b" "own_value (Suc n) h1 a (bucket_value ?b)"
    "val_addrs (Suc n) h1 (bucket_value ?b) \<inter> map_addrs (Suc n) h1 (ht_map t1) = {}"
    using nv(1,3) by (auto simp: live_def bucket_ok_def)
  have pre: "\<forall>i. \<not> oom h1 i" "inuse t1 \<le> 499990" "2 \<le> Suc n" "ht_map t1 (ckey (bucket_key ?b)) = None"
    using R p small q(2) by (auto simp: dict_ok_def)
  obtain d t' h' pos where I: "insert_bucket (Suc n) (Ptr a []) ?b h1 = Some (int pos, Some (Some (Ptr d [])), h')"
    "dict_ok (Suc n) h' d t'" "ht_map t' = (ht_map t1)(ckey (bucket_key ?b) \<mapsto> ?b)"
    "abs_dict h' t' = (abs_dict h1 t1)(ckey (bucket_key ?b) \<mapsto> abs_value h1 (bucket_value ?b))" "inuse t' = Suc (inuse t1)"
    "oom h' = oom h1" "rest_of (Suc n) h' d (ht_map t') =
      (\<lambda>x. if x \<in> val_addrs (Suc n) h1 (bucket_value ?b) then None else rest_of (Suc n) h1 a (ht_map t1) x)"
    by (rule insert_bucket_ok [OF R(2) pre(1,2,3) b pre(4)])
  have "SetDictDict (Suc n) (Some (Some p)) (Some k) (Some q) h = Some (int pos, Some (Some (Ptr d [])), h')"
    using R(1) same_b u len(2) I(1) p(1) q(1) by (simp add: SetDictDict_def Let_def)
  moreover have d: "dict_at (Suc n) h' d t'" using I(2) by (simp add: dict_ok_def)
  then have "GetDictDict (Some (Ptr d [])) (Some k) (Some x) h' = Some (0, Some (Some q))"
    by (simp add: GetDictDict_def lookup_ok I(3) q(1))
  moreover have "DestroyDict (Suc n) (Some (Ptr d [])) h' = Some (h'\<lparr>cells := rest_of (Suc n) h' d (ht_map t')\<rparr>)"
    using destroy_owned [OF d] by (simp add: DestroyDict_def)
  moreover have "rest_of (Suc n) h' d (ht_map t') = (\<lambda>a. if m1 a = None then None else m0 a)"
  proof
    fix x
    have "m1 x = None \<longleftrightarrow> x \<in> insert b (map_addrs n h (ht_map u')) \<or> cells h x = None"
      unfolding q(3) [symmetric] rest_of_def by auto
    moreover have "cells h x = None \<Longrightarrow> m0 x = None" using sep by (metis Un_iff domIff)
    ultimately show "rest_of (Suc n) h' d (ht_map t') x = (if m1 x = None then None else m0 x)"
      using nv(2) unfolding I(7) R(8) p(4) by auto
  qed
  ultimately show ?thesis by auto
qed

definition two_dicts :: heap where
  "two_dicts = \<lparr>cells = [0 \<mapsto> HashObj (fresh_table 3) [], 1 \<mapsto> HashObj (fresh_table 3) []], brk = 2, oom = (\<lambda>_. False)\<rparr>"

lemma is_prime_3: "is_prime 3"
  using bsearch_least [of 0] by (simp add: bsearch_0)

lemma fresh_3: "ht_inv (fresh_table 3)" "ht_map (fresh_table 3) = Map.empty"
  using ht_inv_fresh [OF is_prime_3] by simp_all

lemma two_dicts_state:
  assumes "a = 0 \<or> a = 1" "0 < n"
  shows "dict_state n ([1 - a \<mapsto> HashObj (fresh_table 3) []]) (Some (Some (Ptr a [])), two_dicts)"
    "dict_fill (Some (Some (Ptr a [])), two_dicts) = 0"
proof -
  have ok: "dict_ok n two_dicts a (fresh_table 3)"
    using assms fresh_3 by (auto simp: dict_ok_def dict_at_def two_dicts_def heap_ok_def owned_def)
  show "dict_state n ([1 - a \<mapsto> HashObj (fresh_table 3) []]) (Some (Some (Ptr a [])), two_dicts)"
    by (rule dict_stateI [OF ok])
      (use assms(1) in \<open>auto simp: two_dicts_def rest_of_def map_addrs_def fresh_3 fun_eq_iff\<close>)
  show "dict_fill (Some (Some (Ptr a [])), two_dicts) = 0"
    using dict_view_ok(2) [OF ok] by simp
qed

theorem nested_dict_witness:
  "\<exists>r p' h' h3. SetDictDict (Suc 1) (Some (Some (Ptr 0 []))) (Some ''k'') (Some (Ptr 1 [])) two_dicts = Some (r, Some (Some p'), h') \<and>
    0 \<le> r \<and> GetDictDict (Some p') (Some ''k'') (Some None) h' = Some (0, Some (Some (Ptr 1 []))) \<and>
    DestroyDict (Suc 1) (Some p') h' = Some h3 \<and>
    cells h3 = (\<lambda>a. if [0 \<mapsto> HashObj (fresh_table 3) []] a = None then None else [1 \<mapsto> HashObj (fresh_table 3) []] a)"
proof (rule nested_dict)
  show "dict_state (Suc 1) [1 \<mapsto> HashObj (fresh_table 3) []] (Some (Some (Ptr 0 [])), two_dicts)"
    using two_dicts_state(1) [of 0 "Suc 1"] by simp
  show "dict_state 1 [0 \<mapsto> HashObj (fresh_table 3) []] (Some (Some (Ptr 1 [])), two_dicts)"
    using two_dicts_state(1) [of 1 1] by simp
  show "dict_fill (Some (Some (Ptr 0 [])), two_dicts) < 499991" using two_dicts_state(2) [of 0 1] by simp
  show "load_hash two_dicts (Ptr 1 []) = Some (fresh_table 3, [])" by (simp add: two_dicts_def)
qed (auto simp: two_dicts_def hash_size_def split: if_splits)

section \<open>The hash table\<close>

text \<open>
  (C9) Searching. On a table that satisfies the invariant the probe loop ends, and retrieval by key
  is application of the finite map the bucket array stands for: deleted buckets are skipped, keys
  count up to 102 bytes.
\<close>

theorem retrieve_is_lookup:
  assumes "ht_inv t"
  shows "im_retrieve_element_by_key t k = Some (ht_map t (ckey k))"
  by (rule retrieve_by_key [OF assms])

theorem retrieve_is_lookup_witness:
  "im_retrieve_element_by_key (fresh_table 3) ''k'' = Some (ht_map (fresh_table 3) (ckey ''k''))"
  by (rule retrieve_is_lookup [OF fresh_3(1)])

text \<open> Inserting. A new key is added and nothing else changes in the map, whether the table has room
  or is rebuilt at another address; the invariant is kept and the old table is freed if the table
  moved. The bound is what the largest prime of the table allows.
\<close>

theorem insert_adds_key:
  assumes "cells h a = Some (HashObj t att)" "ht_inv t" "heap_ok h" "\<forall>i. \<not> oom h i" "inuse t \<le> 499990" "live b"
    "ht_map t (ckey (bucket_key b)) = None"
  shows "\<exists>pos d h' t' att'. im_insert_element (Suc (Suc n)) (Ptr a []) b h = Some (int pos, Ptr d [], h') \<and>
    cells h' = (cells h)(a := None, d \<mapsto> HashObj t' att') \<and> (d = a \<or> cells h d = None) \<and> ht_inv t' \<and>
    ht_map t' = (ht_map t)(ckey (bucket_key b) \<mapsto> b) \<and> inuse t' = Suc (inuse t)"
  by (rule insert_absent [OF assms, of n]) blast

text \<open>
  Inserting a key that is there fails with -1 and keeps the map.
\<close>

theorem insert_keeps_existing:
  assumes "cells h a = Some (HashObj t att)" "ht_inv t" "heap_ok h" "\<forall>i. \<not> oom h i" "inuse t \<le> 499990" "live b"
    "ht_map t (ckey (bucket_key b)) \<noteq> None"
  shows "\<exists>d h' t' att'. im_insert_element (Suc (Suc n)) (Ptr a []) b h = Some (-1, Ptr d [], h') \<and>
    cells h' d = Some (HashObj t' att') \<and> ht_inv t' \<and> ht_map t' = ht_map t \<and> inuse t' = inuse t"
  by (rule insert_present [OF assms, of n]) auto

definition demo_bucket :: im_hash_bucket where
  "demo_bucket = \<lparr>bucket_key = ''k'', value_length = 4, bucket_value = IM_INT 7\<rparr>"

lemma live_demo: "live demo_bucket"
  by (simp add: live_def demo_bucket_def)

lemma one_entry:
  obtains t where "ht_inv t" "ht_map t = [ckey (bucket_key demo_bucket) \<mapsto> demo_bucket]" "inuse t = 1" "empty t = 2"
    "number_of_buckets t = 3"
proof -
  let ?h = "\<lparr>cells = [0 \<mapsto> HashObj (fresh_table 3) []], brk = 1, oom = (\<lambda>_. False)\<rparr>"
  obtain pos h1 where I: "im_find_element (fresh_table 3) (bucket_key demo_bucket) = Some pos"
    "ht_inv (ht_put (fresh_table 3) demo_bucket pos)"
    "ht_map (ht_put (fresh_table 3) demo_bucket pos) = (ht_map (fresh_table 3))(ckey (bucket_key demo_bucket) \<mapsto> demo_bucket)"
    by (rule insert_slot_absent [of ?h "Ptr 0 []" "fresh_table 3" "[]" demo_bucket]) (auto simp: fresh_3 live_demo)
  have c: "ht_core (fresh_table 3)" using fresh_3(1) by (simp add: ht_inv_def)
  have pos: "pos < number_of_buckets (fresh_table 3)" by (rule found_range [OF I(1)])
  have nl: "\<not> live (buckets (fresh_table 3) ! pos)" "ht_emp (fresh_table 3) pos"
    using pos by (auto simp: fresh_table_def live_def empty_bucket_def ht_emp_def)
  show ?thesis
    using that [OF I(2)] I(3) empty_ht_put [OF c pos, of demo_bucket] inuse_ht_put [OF c pos nl(1), of demo_bucket] nl(2)
    by (simp add: fresh_3)
qed

theorem insert_adds_key_witness:
  "\<exists>pos d h' t' att'. im_insert_element (Suc (Suc 0)) (Ptr 0 []) demo_bucket two_dicts = Some (int pos, Ptr d [], h') \<and>
    cells h' = (cells two_dicts)(0 := None, d \<mapsto> HashObj t' att') \<and> (d = 0 \<or> cells two_dicts d = None) \<and> ht_inv t' \<and>
    ht_map t' = (ht_map (fresh_table 3))(ckey (bucket_key demo_bucket) \<mapsto> demo_bucket) \<and> inuse t' = Suc (inuse (fresh_table 3))"
  by (rule insert_adds_key [where att = "[]"]) (simp_all add: two_dicts_def fresh_3 live_demo heap_ok_def)

theorem insert_keeps_existing_witness:
  "\<exists>t h d h' t' att'. ht_map t (ckey (bucket_key demo_bucket)) \<noteq> None \<and>
    im_insert_element (Suc (Suc 0)) (Ptr 0 []) demo_bucket h = Some (-1, Ptr d [], h') \<and>
    cells h' d = Some (HashObj t' att') \<and> ht_inv t' \<and> ht_map t' = ht_map t \<and> inuse t' = inuse t"
proof -
  obtain t where t: "ht_inv t" "ht_map t = [ckey (bucket_key demo_bucket) \<mapsto> demo_bucket]" "inuse t = 1" by (rule one_entry)
  let ?h = "\<lparr>cells = [0 \<mapsto> HashObj t []], brk = 1, oom = (\<lambda>_. False)\<rparr>"
  have p: "ht_map t (ckey (bucket_key demo_bucket)) \<noteq> None" using t(2) by simp
  have "\<exists>d h' t' att'. im_insert_element (Suc (Suc 0)) (Ptr 0 []) demo_bucket ?h = Some (-1, Ptr d [], h') \<and>
      cells h' d = Some (HashObj t' att') \<and> ht_inv t' \<and> ht_map t' = ht_map t \<and> inuse t' = inuse t"
    by (rule insert_keeps_existing [OF _ t(1) _ _ _ live_demo p, of _ _ "[]"])
      (use t(3) in \<open>auto simp: heap_ok_def split: if_splits\<close>)
  with p show ?thesis by blast
qed

text \<open>
  Out of memory. If a rehash is due and the new table cannot be allocated, the insertion returns
  -1 and the table and the rest of the memory are as before.
\<close>

theorem insert_out_of_memory:
  assumes "cells h a = Some (HashObj t att)" "ht_inv t" "live b" "empty t - 1 \<le> number_of_buckets t div 2"
    "inuse t \<le> 499990" "oom h (brk h)"
  shows "\<exists>h'. im_insert_element (Suc n) (Ptr a []) b h = Some (-1, Ptr a [], h') \<and> cells h' = cells h"
  using insert_oom [OF assms, of n] by simp

theorem insert_out_of_memory_witness:
  "\<exists>t h h'. ht_inv t \<and> im_insert_element (Suc 0) (Ptr 0 []) demo_bucket h = Some (-1, Ptr 0 [], h') \<and> cells h' = cells h"
proof -
  obtain t where t: "ht_inv t" "inuse t = 1" "empty t = 2" "number_of_buckets t = 3" by (rule one_entry)
  let ?h = "\<lparr>cells = [0 \<mapsto> HashObj t []], brk = 1, oom = (\<lambda>_. True)\<rparr>"
  have "\<exists>h'. im_insert_element (Suc 0) (Ptr 0 []) demo_bucket ?h = Some (-1, Ptr 0 [], h') \<and> cells h' = cells ?h"
    by (rule insert_out_of_memory [OF _ t(1) live_demo, of _ _ "[]"]) (use t in auto)
  with t(1) show ?thesis by blast
qed

text \<open>
  (C7) Rehashing. The new table has the same map and the same number of entries, satisfies the
  invariant with a bucket to spare, and the old table is freed.
\<close>

theorem rehash_keeps_map:
  assumes "ht_core t" "cells h a = Some (HashObj t att)" "heap_ok h" "\<forall>i. \<not> oom h i" "inuse t \<le> 499990"
  shows "\<exists>d t' att' h'. im_rehash_hashtable (Suc n) (Ptr a []) h = Some (0, Ptr d [], h') \<and>
    cells h' = (cells h)(a := None, d \<mapsto> HashObj t' att') \<and> cells h d = None \<and> ht_inv t' \<and> ht_map t' = ht_map t \<and>
    inuse t' = inuse t \<and> number_of_buckets t' div 2 < empty t' - 1"
  by (rule rehash_ok [OF assms, of n]) blast

theorem rehash_keeps_map_witness:
  "\<exists>d t' att' h'. im_rehash_hashtable (Suc 0) (Ptr 0 []) two_dicts = Some (0, Ptr d [], h') \<and>
    cells h' = (cells two_dicts)(0 := None, d \<mapsto> HashObj t' att') \<and> cells two_dicts d = None \<and> ht_inv t' \<and>
    ht_map t' = ht_map (fresh_table 3) \<and> inuse t' = inuse (fresh_table 3) \<and> number_of_buckets t' div 2 < empty t' - 1"
  by (rule rehash_keeps_map) (use fresh_3(1) in \<open>auto simp: two_dicts_def heap_ok_def ht_inv_def split: if_splits\<close>)

text \<open>
  (C8) Deleting. Deleting a key removes it from the map, frees what its bucket owned and nothing else,
  and keeps the invariant; a key that is not there gives -1 and no change.
\<close>

theorem delete_removes_key:
  assumes "dict_at n h a t"
  shows "\<exists>r h' t'. im_delete_element_by_key n (Ptr a []) k h = Some (r, h') \<and> dict_at n h' a t' \<and>
    ht_map t' = (ht_map t)(ckey k := None) \<and>
    (case ht_map t (ckey k) of
       None \<Rightarrow> r = -1 \<and> h' = h
     | Some b \<Rightarrow> 0 \<le> r \<and> (\<forall>x. x \<noteq> a \<longrightarrow> cells h' x = (if x \<in> val_addrs n h (bucket_value b) then None else cells h x)))"
proof (cases "ht_map t (ckey k)")
  case None
  then show ?thesis using delete_absent [OF assms None] assms by (auto simp: fun_upd_idem)
next
  case (Some b)
  show ?thesis by (rule delete_present [OF assms Some]) (use Some in auto)
qed

theorem delete_removes_key_witness:
  "\<exists>r h' t'. im_delete_element_by_key 1 (Ptr 0 []) ''k'' two_dicts = Some (r, h') \<and> dict_at 1 h' 0 t' \<and>
    ht_map t' = (ht_map (fresh_table 3))(ckey ''k'' := None) \<and>
    (case ht_map (fresh_table 3) (ckey ''k'') of
       None \<Rightarrow> r = -1 \<and> h' = two_dicts
     | Some b \<Rightarrow> 0 \<le> r \<and> (\<forall>x. x \<noteq> 0 \<longrightarrow> cells h' x = (if x \<in> val_addrs 1 two_dicts (bucket_value b) then None else cells two_dicts x)))"
  by (rule delete_removes_key) (use fresh_3 in \<open>auto simp: dict_at_def two_dicts_def heap_ok_def owned_def split: if_splits\<close>)

text \<open>
  (C10) Destroying frees the footprint. For a table of any nesting, with strings, blocks, tables and
  vectors of their own or attached, whose objects are all there and shared by no two buckets, the
  recursive destruction terminates, frees every object of the footprint and the table exactly once,
  and leaves everything else as it was. The fuel is the depth of the nesting.
\<close>

theorem destroy_frees_footprint:
  assumes "hash_fp n h (Ptr a []) = Some as" "distinct as" "a \<notin> set as"
  shows "im_destroy_hashtable n (Ptr a []) h = Some (release (as @ [a]) h)"
proof -
  have "im_destroy_hashtable_with_info n (Ptr a []) False h = Some (release as h)"
    using assms by (intro destroy_hash_release [OF frees_buckets assms(1)]) (auto simp: same_on_def)
  moreover have "cells h a \<noteq> None" using assms(1) by (auto simp: hash_fp.simps split: option.splits)
  then have "free (Ptr a []) (release as h) = Some (release [a] (release as h))"
    using assms(3) by (intro free_block) simp
  ultimately show ?thesis by (simp add: im_destroy_hashtable_def destroy_external release_append)
qed

definition nest_table :: "nat \<Rightarrow> im_value \<Rightarrow> im_hashtable" where
  "nest_table m v = \<lparr>number_of_buckets = m, inuse = m, empty = 0, attached_size = 0, attached_offset = 0,
     buckets = replicate m \<lparr>bucket_key = ''k'', value_length = 0, bucket_value = v\<rparr>\<rparr>"

definition nest_heap :: heap where
  "nest_heap = \<lparr>cells = [0 \<mapsto> HashObj (nest_table 1 (IM_EXTERNAL_NESTED 0 (Ptr 1 []))) [],
     1 \<mapsto> HashObj (nest_table 1 (IM_EXTERNAL_STRING 5 (Ptr 2 []))) [], 2 \<mapsto> Raw ''text'', 3 \<mapsto> Raw ''other''],
     brk = 4, oom = (\<lambda>_. False)\<rparr>"

theorem destroy_frees_footprint_witness:
  "im_destroy_hashtable (Suc (Suc 0)) (Ptr 0 []) nest_heap = Some (release ([2, 1] @ [0]) nest_heap)"
  by (rule destroy_frees_footprint)
    (simp_all add: nest_heap_def nest_table_def hash_fp.simps value_fp.simps upt_rec)

section \<open>Sizes\<close>

text \<open> The number of buckets. For every capacity below \<open>2 ^ 30\<close> the binary search over the table of
  primes ends, inside the table, with the least odd prime above twice the capacity, or with the
  largest prime of the table if there is none.
\<close>

theorem number_of_buckets_prime:
  assumes "0 \<le> c" "c < 2 ^ 30"
  shows "\<exists>p. bsearch_number_of_buckets c = Some p \<and> is_prime p \<and> 3 \<le> p \<and> p \<le> 999983 \<and>
    (2 * c < int p \<or> p = 999983) \<and> (\<forall>q. is_prime q \<and> 3 \<le> q \<and> 2 * c < int q \<and> q < 1000000 \<longrightarrow> p \<le> q)"
  by (rule bsearch_least [OF assms])

theorem number_of_buckets_prime_witness:
  "\<exists>p. bsearch_number_of_buckets 2 = Some p \<and> is_prime p \<and> 3 \<le> p \<and> p \<le> 999983 \<and>
    (2 * 2 < int p \<or> p = 999983) \<and> (\<forall>q. is_prime q \<and> 3 \<le> q \<and> 2 * 2 < int q \<and> q < 1000000 \<longrightarrow> p \<le> q)"
  by (rule number_of_buckets_prime) simp_all

section \<open>Vectors\<close>

text \<open> Appending to a vector. The new element goes to the end of the list, its index is returned, and
  a full vector moves to a block of twice the size first.
\<close>

theorem vector_append:
  assumes "vec_inv v" "v_number_of_buckets v < 2 ^ 30" "\<not> vacant (v_bucket_value b)"
    "cells h a = Some (VecObj v att)" "heap_ok h" "\<forall>i. \<not> oom h i"
  shows "\<exists>d v' att' h'. im_add_element (Suc (Suc n)) (Ptr a []) b h = Some (int (length (vec_list v)), Ptr d [], h') \<and>
    cells h' = (cells h)(a := None, d \<mapsto> VecObj v' att') \<and> (d = a \<or> cells h d = None) \<and> vec_inv v' \<and>
    vec_list v' = vec_list v @ [b]"
  by (rule add_ok [OF assms, of n]) blast

definition demo_element :: im_vector_bucket where
  "demo_element = \<lparr>v_value_length = 4, v_bucket_value = IM_INT 7\<rparr>"

definition demo_vector :: im_vector where
  "demo_vector = \<lparr>v_number_of_buckets = 1, v_inuse = 1, v_attached_size = 0, v_attached_offset = 0, v_buckets = [demo_element]\<rparr>"

definition vector_heap :: heap where
  "vector_heap = \<lparr>cells = [0 \<mapsto> VecObj demo_vector []], brk = 1, oom = (\<lambda>_. False)\<rparr>"

lemma demo_vector_inv: "vec_inv demo_vector" "v_number_of_buckets demo_vector = 1" "vec_list demo_vector = [demo_element]"
  by (simp_all add: vec_inv_def vec_list_def demo_vector_def demo_element_def)

lemma vector_heap_ok: "cells vector_heap 0 = Some (VecObj demo_vector [])" "heap_ok vector_heap" "\<not> oom vector_heap i"
  by (auto simp: vector_heap_def heap_ok_def split: if_splits)

theorem vector_append_witness:
  "\<exists>d v' att' h'. im_add_element (Suc (Suc 0)) (Ptr 0 []) demo_element vector_heap = Some (int (length (vec_list demo_vector)), Ptr d [], h') \<and>
    cells h' = (cells vector_heap)(0 := None, d \<mapsto> VecObj v' att') \<and> (d = 0 \<or> cells vector_heap d = None) \<and> vec_inv v' \<and>
    vec_list v' = vec_list demo_vector @ [demo_element]"
  by (rule vector_append) (simp_all add: demo_vector_inv vector_heap_ok, simp add: demo_element_def)

text \<open> Deleting and replacing elements of a vector are deletion and update of the list; each frees
  what the old element owned.
\<close>

theorem vector_delete_set:
  assumes "load_vector h p = Some (v, att)" "vec_inv v" "0 \<le> i" "i < int (v_inuse v)"
    "value_fp n h p (v_bucket_value (vec_list v ! nat i)) = Some as" "distinct as" "root p \<notin> set as"
    "\<not> vacant (v_bucket_value b)"
  shows "(\<exists>v' h'. im_del_element n p i h = Some (i, h') \<and> store p (VecObj v' att) (release as h) = Some h' \<and> vec_inv v' \<and>
      vec_list v' = take (nat i) (vec_list v) @ drop (Suc (nat i)) (vec_list v)) \<and>
    (\<exists>v' h'. im_set_element n p i b h = Some (i, h') \<and> store p (VecObj v' att) (release as h) = Some h' \<and> vec_inv v' \<and>
      vec_list v' = (vec_list v)[nat i := b])"
  by (rule del_ok [OF assms(1-7)], rule set_ok [OF assms]) blast

theorem vector_delete_set_witness:
  "(\<exists>v' h'. im_del_element 1 (Ptr 0 []) 0 vector_heap = Some (0, h') \<and>
      store (Ptr 0 []) (VecObj v' []) (release [] vector_heap) = Some h' \<and> vec_inv v' \<and>
      vec_list v' = take (nat 0) (vec_list demo_vector) @ drop (Suc (nat 0)) (vec_list demo_vector)) \<and>
    (\<exists>v' h'. im_set_element 1 (Ptr 0 []) 0 demo_element vector_heap = Some (0, h') \<and>
      store (Ptr 0 []) (VecObj v' []) (release [] vector_heap) = Some h' \<and> vec_inv v' \<and>
      vec_list v' = (vec_list demo_vector)[nat 0 := demo_element])"
  by (rule vector_delete_set)
    (simp_all add: demo_vector_inv vector_heap_ok value_fp.simps, simp_all add: demo_vector_def demo_element_def value_fp.simps)

text \<open> A vector created with capacity 0 cannot grow: its size is doubled to 0 and the next append
  writes outside the block, so \<^verbatim>\<open>AddArrayDict\<close> on the result of \<^verbatim>\<open>InitArray(0)\<close> is undefined.
\<close>

theorem zero_capacity_undefined:
  assumes "heap_ok h" "\<forall>i. \<not> oom h i" "load_hash h q = Some (u, att)" "hash_size (number_of_buckets u) + attached_offset u \<le> 1048576"
  shows "\<exists>p h'. InitArray 0 h = Some (Some p, h') \<and> AddArrayDict n (Some (Some p)) (Some q) h' = None"
proof -
  let ?h = "h\<lparr>cells := (cells h)(brk h \<mapsto> VecObj (fresh_vector 0) []), brk := Suc (brk h)\<rparr>"
  have init: "InitArray 0 h = Some (Some (Ptr (brk h) []), ?h)"
    using assms(2) by (simp add: InitArray_def im_initialize_vector_def alloc_def)
  have "root q \<noteq> brk h"
    using load_dom [of h q] assms(3) heap_ok_fresh [OF assms(1), of "brk h"] by (auto simp: load_hash_iff)
  then have "load_hash ?h q = Some (u, att)" using assms(3) same_load_hash [of ?h q h] by simp
  moreover have "im_add_element n (Ptr (brk h) []) \<lparr>v_value_length = l, v_bucket_value = IM_EXTERNAL_NESTED m q\<rparr> ?h = None" for l m
    using assms(1,2) by (intro add_zero_capacity) (auto simp: fresh_vector_def heap_ok_def less_Suc_eq)
  ultimately show ?thesis using init assms(4) by (auto simp: AddArrayDict_def Let_def)
qed

theorem zero_capacity_undefined_witness:
  "\<exists>p h'. InitArray 0 two_dicts = Some (Some p, h') \<and> AddArrayDict 5 (Some (Some p)) (Some (Ptr 0 [])) h' = None"
  by (rule zero_capacity_undefined) (auto simp: two_dicts_def heap_ok_def hash_size_def split: if_splits)

end
