(* ===== verification/Comext_Hashtable.thy ===== *)
theory Comext_Hashtable
  imports Slot_Table
begin

text \<open>
  The hash table of message fragments of the socket library, \<^verbatim>\<open>Socket_Bafe/comext-hashtable.c\<close>, and
  its correctness. It shares the table of primes, the probe sequence and the rehash policy with the
  dictionary (its \<^verbatim>\<open>bsearch_number_of_buckets\<close> and \<^verbatim>\<open>prime_number.h\<close> are the same text), so
  \<open>bsearch_number_of_buckets\<close> and \<open>probe_loop\<close> are used for both.

  A table is passed as a value; functions that replace \<^verbatim>\<open>*hashtable\<close> return the new one. The memory
  is what matters here: the set of fragment blocks that are allocated and what they hold, the number of tables that are
  allocated, and which of the allocations of a table fail.

  Two things are left open by the code and are parameters: \<open>shr\<close> is the result of
  \<^verbatim>\<open>hashcode >> (sizeof(hashcode)-5)\<close>, whose shift count is negative, and \<open>garbage\<close> is what
  \<^verbatim>\<open>malloc\<close> leaves in the buckets of a new table. Everything holds whatever they are.
\<close>

section \<open>Data\<close>

datatype cx_info = LEGITIMATE | EMPTY | DELETED

record COMEXT_BUCKET =
  cx_info :: cx_info
  refid :: "char list"
  cx_time :: int
  fragments :: "addr option list"

record COMEXT_HASHTABLE =
  cx_number_of_buckets :: nat
  cx_inuse :: nat
  cx_empty :: nat
  cx_buckets :: "COMEXT_BUCKET list"

record cx_mem =
  blocks :: "addr set"
  texts :: "addr \<Rightarrow> string"
  tables :: nat
  allocs :: nat
  cx_oom :: "nat \<Rightarrow> bool"

definition REFID_SIZE :: nat where
  "REFID_SIZE = 39"

section \<open>Operations\<close>

fun cx_hash_loop :: "(32 word \<Rightarrow> 32 word) \<Rightarrow> char list \<Rightarrow> 32 word \<Rightarrow> 32 word" where
  "cx_hash_loop shr [] hashcode = hashcode"
| "cx_hash_loop shr (c # cs) hashcode =
     (if c \<noteq> NUL then cx_hash_loop shr cs (or (push_bit 5 hashcode) (shr hashcode) + word_of_int (schar c)) else hashcode)"

definition cx_hashcode :: "(32 word \<Rightarrow> 32 word) \<Rightarrow> nat \<Rightarrow> char list \<Rightarrow> nat" where
  "cx_hashcode shr N k = unat (cx_hash_loop shr k 0) mod N"

definition cx_fresh :: "(nat \<Rightarrow> COMEXT_BUCKET) \<Rightarrow> nat \<Rightarrow> COMEXT_HASHTABLE" where
  "cx_fresh garbage N = \<lparr>cx_number_of_buckets = N, cx_inuse = 0, cx_empty = N,
     cx_buckets = map (\<lambda>i. (garbage i)\<lparr>cx_info := EMPTY\<rparr>) [0..<N]\<rparr>"

definition comext_initialize_hashtable ::
    "(nat \<Rightarrow> COMEXT_BUCKET) \<Rightarrow> int \<Rightarrow> cx_mem \<Rightarrow> (COMEXT_HASHTABLE option \<times> cx_mem) option" where
  "comext_initialize_hashtable garbage capacity m =
     do { N \<leftarrow> bsearch_number_of_buckets capacity;
          let m' = m\<lparr>allocs := Suc (allocs m)\<rparr>;
          Some (if cx_oom m (allocs m) then (None, m')
                else (Some (cx_fresh garbage N), m'\<lparr>tables := Suc (tables m)\<rparr>)) }"

text \<open>\<^verbatim>\<open>free\<close> of a table.\<close>

definition free_table :: "cx_mem \<Rightarrow> cx_mem option" where
  "free_table m = (if tables m = 0 then None else Some (m\<lparr>tables := tables m - 1\<rparr>))"

text \<open>The loop over \<^verbatim>\<open>fragments[j]\<close>: free what is not \<^verbatim>\<open>NULL\<close> and set it to \<^verbatim>\<open>NULL\<close>.\<close>

fun free_fragments :: "addr option list \<Rightarrow> cx_mem \<Rightarrow> (addr option list \<times> cx_mem) option" where
  "free_fragments [] m = Some ([], m)"
| "free_fragments (None # fs) m = do { (fs, m) \<leftarrow> free_fragments fs m; Some (None # fs, m) }"
| "free_fragments (Some a # fs) m =
     (if a \<in> blocks m
      then do { (fs, m) \<leftarrow> free_fragments fs (m\<lparr>blocks := blocks m - {a}\<rparr>); Some (None # fs, m) }
      else None)"

definition cx_free_bucket :: "COMEXT_BUCKET \<Rightarrow> cx_mem \<Rightarrow> (COMEXT_BUCKET \<times> cx_mem) option" where
  "cx_free_bucket b m =
     (if cx_info b = LEGITIMATE
      then do { (fs, m) \<leftarrow> free_fragments (fragments b) m; Some (b\<lparr>fragments := fs\<rparr>, m) }
      else Some (b, m))"

definition comext_destroy_hashtable :: "COMEXT_HASHTABLE \<Rightarrow> cx_mem \<Rightarrow> cx_mem option" where
  "comext_destroy_hashtable t m =
     (if length (cx_buckets t) < cx_number_of_buckets t then None
      else do { m \<leftarrow> foldM (\<lambda>i m. map_option snd (cx_free_bucket (cx_buckets t ! i) m)) [0..<cx_number_of_buckets t] m;
                free_table m })"

definition comext_find_element :: "(32 word \<Rightarrow> 32 word) \<Rightarrow> COMEXT_HASHTABLE \<Rightarrow> char list \<Rightarrow> nat option" where
  "comext_find_element shr t k =
     probe_loop (cx_number_of_buckets t)
       (\<lambda>position. cx_info (cx_buckets t ! position) = EMPTY \<or>
          strncmp REFID_SIZE (refid (cx_buckets t ! position)) k = 0)
       (cx_hashcode shr (cx_number_of_buckets t) k) 0"

text \<open>The inner \<open>None\<close> is the \<^verbatim>\<open>NULL\<close> the code returns.\<close>

definition comext_retrieve_element :: "COMEXT_HASHTABLE \<Rightarrow> nat \<Rightarrow> COMEXT_BUCKET option option" where
  "comext_retrieve_element t pos =
     (if length (cx_buckets t) \<le> pos then None
      else Some (if cx_info (cx_buckets t ! pos) = LEGITIMATE then Some (cx_buckets t ! pos) else None))"

definition comext_delete_element :: "COMEXT_HASHTABLE \<Rightarrow> nat \<Rightarrow> cx_mem \<Rightarrow> (int \<times> COMEXT_HASHTABLE \<times> cx_mem) option" where
  "comext_delete_element t pos m =
     (if length (cx_buckets t) \<le> pos then None
      else if cx_info (cx_buckets t ! pos) = LEGITIMATE
      then do { (b, m) \<leftarrow> cx_free_bucket (cx_buckets t ! pos) m;
                Some (int pos, t\<lparr>cx_buckets := (cx_buckets t)[pos := b\<lparr>cx_info := DELETED\<rparr>],
                                cx_inuse := u32_dec (cx_inuse t)\<rparr>, m) }
      else Some (-1, t, m))"

definition comext_retrieve_element_by_refid ::
    "(32 word \<Rightarrow> 32 word) \<Rightarrow> COMEXT_HASHTABLE \<Rightarrow> char list \<Rightarrow> COMEXT_BUCKET option option" where
  "comext_retrieve_element_by_refid shr t k =
     do { pos \<leftarrow> comext_find_element shr t k; comext_retrieve_element t pos }"

definition comext_delete_element_by_refid ::
    "(32 word \<Rightarrow> 32 word) \<Rightarrow> COMEXT_HASHTABLE \<Rightarrow> char list \<Rightarrow> cx_mem \<Rightarrow> (int \<times> COMEXT_HASHTABLE \<times> cx_mem) option" where
  "comext_delete_element_by_refid shr t k m =
     do { pos \<leftarrow> comext_find_element shr t k; comext_delete_element t pos m }"

definition comext_empty_hashtable :: "COMEXT_HASHTABLE \<Rightarrow> cx_mem \<Rightarrow> (COMEXT_HASHTABLE \<times> cx_mem) option" where
  "comext_empty_hashtable t m =
     (if length (cx_buckets t) < cx_number_of_buckets t then None
      else do { (t, m) \<leftarrow> foldM (\<lambda>i (t, m). do {
                    (b, m) \<leftarrow> cx_free_bucket (cx_buckets t ! i) m;
                    Some (t\<lparr>cx_buckets := (cx_buckets t)[i := b\<lparr>cx_info := EMPTY\<rparr>]\<rparr>, m) })
                  [0..<cx_number_of_buckets t] (t, m);
                Some (t\<lparr>cx_inuse := 0, cx_empty := cx_number_of_buckets t\<rparr>, m) })"

text \<open>\<open>cx_insert_slot\<close> is the part of \<^verbatim>\<open>comext_insert_element\<close> after the check of the load.\<close>

definition cx_insert_slot :: "(32 word \<Rightarrow> 32 word) \<Rightarrow> COMEXT_HASHTABLE \<Rightarrow> COMEXT_BUCKET \<Rightarrow> (int \<times> COMEXT_HASHTABLE) option" where
  "cx_insert_slot shr t b =
     do { pos \<leftarrow> comext_find_element shr t (refid b);
          if cx_info (cx_buckets t ! pos) \<noteq> LEGITIMATE
          then Some (int pos, t\<lparr>
                 cx_empty := (if cx_info (cx_buckets t ! pos) = EMPTY then u32_dec (cx_empty t) else cx_empty t),
                 cx_buckets := (cx_buckets t)[pos := b],
                 cx_inuse := u32_inc (cx_inuse t)\<rparr>)
          else Some (-1, t) }"

function (sequential) comext_insert_element ::
    "(32 word \<Rightarrow> 32 word) \<Rightarrow> (nat \<Rightarrow> COMEXT_BUCKET) \<Rightarrow> nat \<Rightarrow> COMEXT_HASHTABLE \<Rightarrow> COMEXT_BUCKET \<Rightarrow> cx_mem \<Rightarrow>
     (int \<times> COMEXT_HASHTABLE \<times> cx_mem) option"
  and comext_rehash_hashtable ::
    "(32 word \<Rightarrow> 32 word) \<Rightarrow> (nat \<Rightarrow> COMEXT_BUCKET) \<Rightarrow> nat \<Rightarrow> COMEXT_HASHTABLE \<Rightarrow> cx_mem \<Rightarrow>
     (int \<times> COMEXT_HASHTABLE \<times> cx_mem) option"
where
  "comext_insert_element shr garbage 0 t b m = None"
| "comext_insert_element shr garbage (Suc n) t b m =
     (if cx_info b \<noteq> LEGITIMATE then Some (-1, t, m)
      else case (if u32_dec (cx_empty t) \<le> cx_number_of_buckets t div 2 then comext_rehash_hashtable shr garbage n t m
                 else Some (0, t, m)) of
           None \<Rightarrow> None
         | Some (r, t, m) \<Rightarrow>
             if r < 0 then Some (-1, t, m)
             else (case cx_insert_slot shr t b of None \<Rightarrow> None | Some (r, t) \<Rightarrow> Some (r, t, m)))"
| "comext_rehash_hashtable shr garbage n t m =
     (case comext_initialize_hashtable garbage (int32 (2 * int (cx_inuse t))) m of
         None \<Rightarrow> None
       | Some (None, m) \<Rightarrow> Some (-1, t, m)
       | Some (Some u, m) \<Rightarrow>
          (case foldM (\<lambda>pos (r, u, m).
                   if r < 0 then Some (r, u, m)
                   else if length (cx_buckets t) \<le> pos then None
                   else if cx_info (cx_buckets t ! pos) = LEGITIMATE
                   then comext_insert_element shr garbage n u (cx_buckets t ! pos) m
                   else Some (0, u, m))
                 [0..<cx_number_of_buckets t] (0, u, m) of
             None \<Rightarrow> None
           | Some (r, u, m) \<Rightarrow> map_option (\<lambda>m. if r < 0 then (-1, t, m) else (0, u, m)) (free_table m)))"
  by pat_completeness auto
termination
  by (relation "measure (\<lambda>x. case x of Inl (_, _, n, _) \<Rightarrow> 2 * n | Inr (_, _, n, _) \<Rightarrow> 2 * n + 1)") auto

declare comext_insert_element.simps [simp del] comext_rehash_hashtable.simps [simp del]

section \<open>Abstract value and invariant\<close>

text \<open>
  Keys are reference identifiers of at most 38 bytes. The search compares 39 bytes but hashes the
  whole string, so longer identifiers would be a different matter.
\<close>

definition good_id :: "char list \<Rightarrow> bool" where
  "good_id k = (strlen k < REFID_SIZE)"

abbreviation cx_emp :: "COMEXT_BUCKET \<Rightarrow> bool" where
  "cx_emp b \<equiv> cx_info b = EMPTY"

abbreviation cx_live :: "COMEXT_BUCKET \<Rightarrow> bool" where
  "cx_live b \<equiv> cx_info b = LEGITIMATE"

abbreviation cx_key :: "COMEXT_BUCKET \<Rightarrow> string" where
  "cx_key b \<equiv> cstr (refid b)"

definition cx_map :: "COMEXT_HASHTABLE \<Rightarrow> string \<rightharpoonup> COMEXT_BUCKET" where
  "cx_map t = slot_map cx_live cx_key (cx_buckets t)"

definition cx_core :: "(32 word \<Rightarrow> 32 word) \<Rightarrow> COMEXT_HASHTABLE \<Rightarrow> bool" where
  "cx_core shr t \<longleftrightarrow>
     is_prime (cx_number_of_buckets t) \<and> 3 \<le> cx_number_of_buckets t \<and> cx_number_of_buckets t \<le> 999983 \<and>
     length (cx_buckets t) = cx_number_of_buckets t \<and>
     cx_inuse t = length (filter cx_live (cx_buckets t)) \<and>
     cx_empty t = length (filter cx_emp (cx_buckets t)) \<and>
     (\<forall>b \<in> set (cx_buckets t). \<not> cx_emp b \<longrightarrow> good_id (refid b)) \<and>
     slots_ok (cx_hashcode shr) cx_emp cx_key (cx_buckets t)"

definition cx_inv :: "(32 word \<Rightarrow> 32 word) \<Rightarrow> COMEXT_HASHTABLE \<Rightarrow> bool" where
  "cx_inv shr t \<longleftrightarrow> cx_core shr t \<and> cx_number_of_buckets t div 2 < cx_empty t"

lemma cx_hash_cstr: "cx_hash_loop shr (cstr k) h = cx_hash_loop shr k h"
  by (induction shr k h rule: cx_hash_loop.induct) auto

lemma cx_hashcode_cstr: "cx_hashcode shr N (cstr k) = cx_hashcode shr N k"
  by (simp add: cx_hashcode_def cx_hash_cstr)

interpretation cx: slot_table "cx_hashcode shr" cx_emp cx_live cx_key
  by unfold_locales (auto simp: cx_hashcode_def)

lemma cx_coreD:
  assumes "cx_core shr t"
  shows "is_prime (cx_number_of_buckets t)" "3 \<le> cx_number_of_buckets t" "cx_number_of_buckets t \<le> 999983"
    "length (cx_buckets t) = cx_number_of_buckets t" "cx_inuse t = length (filter cx_live (cx_buckets t))"
    "cx_empty t = length (filter cx_emp (cx_buckets t))"
    "\<And>p. p < cx_number_of_buckets t \<Longrightarrow> \<not> cx_emp (cx_buckets t ! p) \<Longrightarrow> good_id (refid (cx_buckets t ! p))"
    "slots_ok (cx_hashcode shr) cx_emp cx_key (cx_buckets t)"
  using assms by (auto simp: cx_core_def)

lemma strncmp_good:
  "good_id s \<Longrightarrow> good_id k \<Longrightarrow> (strncmp REFID_SIZE s k = 0) = (cstr s = cstr k)"
  by (auto simp: strncmp_eq_0 good_id_def strlen_def)

text \<open>The probe loop is the search of the slot table.\<close>

lemma cx_find_slot:
  assumes c: "cx_core shr t" and k: "good_id k"
  shows "comext_find_element shr t k = slot_find (cx_hashcode shr) cx_emp cx_key (cx_buckets t) (cstr k)"
  unfolding comext_find_element_def slot_find_def probe_find_def cx_hashcode_cstr cx_coreD(4) [OF c]
  by (rule probe_loop_cong) (use cx_coreD(7) [OF c] strncmp_good [OF _ k] in auto)

lemma cx_search:
  assumes "cx_inv shr t" "good_id k"
  obtains p where "comext_find_element shr t k = Some p" "p < cx_number_of_buckets t"
    "slot_find (cx_hashcode shr) cx_emp cx_key (cx_buckets t) (cstr k) = Some p"
    "cx_map t (cstr k) = (if cx_live (cx_buckets t ! p) then Some (cx_buckets t ! p) else None)"
proof -
  have c: "cx_core shr t" and e: "cx_number_of_buckets t div 2 < cx_empty t" using assms(1) by (simp_all add: cx_inv_def)
  obtain p where p: "slot_find (cx_hashcode shr) cx_emp cx_key (cx_buckets t) (cstr k) = Some p" "p < cx_number_of_buckets t"
    using cx.search_ends [of "cx_buckets t" shr "cstr k"] cx_coreD [OF c] e by auto
  then show ?thesis
    using that [of p] cx_find_slot [OF c assms(2)] cx.found_slot [OF cx_coreD(8) [OF c] p(1)] by (simp add: cx_map_def)
qed

lemma cx_retrieve:
  assumes "cx_inv shr t" "good_id k"
  shows "comext_retrieve_element_by_refid shr t k = Some (cx_map t (cstr k))"
proof -
  have c: "cx_core shr t" using assms(1) by (simp add: cx_inv_def)
  obtain p where "comext_find_element shr t k = Some p" "p < cx_number_of_buckets t"
    "cx_map t (cstr k) = (if cx_live (cx_buckets t ! p) then Some (cx_buckets t ! p) else None)"
    by (rule cx_search [OF assms])
  with cx_coreD(4) [OF c] show ?thesis
    by (simp add: comext_retrieve_element_by_refid_def comext_retrieve_element_def)
qed

section \<open>Writing a bucket\<close>

definition cx_put :: "COMEXT_HASHTABLE \<Rightarrow> COMEXT_BUCKET \<Rightarrow> nat \<Rightarrow> COMEXT_HASHTABLE" where
  "cx_put t b pos = t\<lparr>
     cx_empty := (if cx_emp (cx_buckets t ! pos) then u32_dec (cx_empty t) else cx_empty t),
     cx_buckets := (cx_buckets t)[pos := b], cx_inuse := u32_inc (cx_inuse t)\<rparr>"

lemma cx_put_sel [simp]:
  "cx_number_of_buckets (cx_put t b p) = cx_number_of_buckets t" "cx_buckets (cx_put t b p) = (cx_buckets t)[p := b]"
  by (simp_all add: cx_put_def)

lemma cx_counts_small: "cx_core shr t \<Longrightarrow> cx_inuse t \<le> 999983 \<and> cx_empty t \<le> 999983"
proof -
  assume c: "cx_core shr t"
  have "length (filter P (cx_buckets t)) \<le> 999983" for P
    using length_filter_le [of P "cx_buckets t"] cx_coreD(3,4) [OF c] by simp
  with c show ?thesis by (simp add: cx_coreD)
qed

lemma cx_put_core:
  assumes c: "cx_core shr t" and f: "slot_find (cx_hashcode shr) cx_emp cx_key (cx_buckets t) (cx_key b) = Some p"
    and p: "p < cx_number_of_buckets t" and old: "\<not> cx_live (cx_buckets t ! p)" and b: "cx_live b" "good_id (refid b)"
  shows "cx_core shr (cx_put t b p)" "cx_map (cx_put t b p) = (cx_map t)(cx_key b \<mapsto> b)"
    "cx_inuse (cx_put t b p) = Suc (cx_inuse t)" "cx_empty t \<le> Suc (cx_empty (cx_put t b p))"
proof -
  have pl: "p < length (cx_buckets t)" using p cx_coreD(4) [OF c] by simp
  note upd = length_filter_update [OF pl, of _ b]
  show inuse: "cx_inuse (cx_put t b p) = Suc (cx_inuse t)" using cx_counts_small [OF c] by (simp add: cx_put_def)
  have pos: "0 < cx_empty t" if "cx_emp (cx_buckets t ! p)"
    using that pl cx_coreD(6) [OF c] nth_mem [of p "cx_buckets t"] by (auto simp: filter_empty_conv)
  then have emp: "cx_empty (cx_put t b p) = cx_empty t - (if cx_emp (cx_buckets t ! p) then 1 else 0)"
    using cx_counts_small [OF c] by (simp add: cx_put_def)
  then show "cx_empty t \<le> Suc (cx_empty (cx_put t b p))" by auto
  show "cx_map (cx_put t b p) = (cx_map t)(cx_key b \<mapsto> b)"
    using cx.put_map [OF cx_coreD(8) [OF c] f old b(1)] by (simp add: cx_map_def)
  have "cx_inuse (cx_put t b p) = length (filter cx_live ((cx_buckets t)[p := b]))"
    using upd [of cx_live] old b inuse cx_coreD(5) [OF c] by simp
  moreover have "cx_empty (cx_put t b p) = length (filter cx_emp ((cx_buckets t)[p := b]))"
    using upd [of cx_emp] emp b pos cx_coreD(6) [OF c] by (auto split: if_splits)
  moreover have "slots_ok (cx_hashcode shr) cx_emp cx_key ((cx_buckets t)[p := b])"
    using b by (intro cx.put_ok [OF cx_coreD(8) [OF c] f]) simp
  moreover have "\<forall>x \<in> set ((cx_buckets t)[p := b]). \<not> cx_emp x \<longrightarrow> good_id (refid x)"
    using set_update_subset_insert [of "cx_buckets t" p b] c b by (auto simp: cx_core_def)
  ultimately show "cx_core shr (cx_put t b p)" using cx_coreD(1-4) [OF c] by (simp add: cx_core_def)
qed

lemma cx_insert_slot_absent:
  assumes inv: "cx_inv shr t" and room: "cx_number_of_buckets t div 2 < cx_empty t - 1"
    and b: "cx_live b" "good_id (refid b)" and absent: "cx_map t (cx_key b) = None"
  obtains p where "cx_insert_slot shr t b = Some (int p, cx_put t b p)" "cx_inv shr (cx_put t b p)"
    "cx_map (cx_put t b p) = (cx_map t)(cx_key b \<mapsto> b)" "cx_inuse (cx_put t b p) = Suc (cx_inuse t)"
    "cx_empty t \<le> Suc (cx_empty (cx_put t b p))" "p < cx_number_of_buckets t"
proof -
  have c: "cx_core shr t" using inv by (simp add: cx_inv_def)
  obtain p where p: "comext_find_element shr t (refid b) = Some p" "p < cx_number_of_buckets t"
    "slot_find (cx_hashcode shr) cx_emp cx_key (cx_buckets t) (cx_key b) = Some p"
    "cx_map t (cx_key b) = (if cx_live (cx_buckets t ! p) then Some (cx_buckets t ! p) else None)"
    by (rule cx_search [OF inv b(2)])
  have old: "\<not> cx_live (cx_buckets t ! p)" using p(4) absent by (simp split: if_splits)
  note R = cx_put_core [OF c p(3,2) old b]
  have "cx_insert_slot shr t b = Some (int p, cx_put t b p)"
    using p(1) old by (simp add: cx_insert_slot_def cx_put_def)
  then show ?thesis using that R room p(2) by (simp add: cx_inv_def)
qed

lemma cx_insert_slot_present:
  assumes inv: "cx_inv shr t" and b: "good_id (refid b)" and present: "cx_map t (cx_key b) \<noteq> None"
  shows "cx_insert_slot shr t b = Some (-1, t)"
proof -
  obtain p where "comext_find_element shr t (refid b) = Some p"
    "cx_map t (cx_key b) = (if cx_live (cx_buckets t ! p) then Some (cx_buckets t ! p) else None)"
    by (rule cx_search [OF inv b])
  with present show ?thesis by (simp add: cx_insert_slot_def split: if_splits)
qed

section \<open>Rehashing\<close>

lemma cx_fresh_inv:
  assumes "is_prime N" "3 \<le> N" "N \<le> 999983"
  shows "cx_inv shr (cx_fresh garbage N)" "cx_map (cx_fresh garbage N) = Map.empty"
    "cx_number_of_buckets (cx_fresh garbage N) = N" "cx_inuse (cx_fresh garbage N) = 0" "cx_empty (cx_fresh garbage N) = N"
proof -
  have e: "\<And>b. b \<in> set (cx_buckets (cx_fresh garbage N)) \<Longrightarrow> cx_emp b" by (auto simp: cx_fresh_def)
  note f = cx.fresh_ok [where shr = shr, OF e]
  have "filter cx_live (cx_buckets (cx_fresh garbage N)) = []" "filter cx_emp (cx_buckets (cx_fresh garbage N)) = cx_buckets (cx_fresh garbage N)"
    using e by (auto simp: filter_empty_conv filter_id_conv)
  moreover have sel: "length (cx_buckets (cx_fresh garbage N)) = N" "cx_number_of_buckets (cx_fresh garbage N) = N"
    "cx_inuse (cx_fresh garbage N) = 0" "cx_empty (cx_fresh garbage N) = N" by (simp_all add: cx_fresh_def)
  moreover have "\<forall>b \<in> set (cx_buckets (cx_fresh garbage N)). \<not> cx_emp b \<longrightarrow> good_id (refid b)" using e by blast
  ultimately show "cx_inv shr (cx_fresh garbage N)" using f assms unfolding cx_inv_def cx_core_def by simp
  show "cx_map (cx_fresh garbage N) = Map.empty" using f by (simp add: cx_map_def)
qed (simp_all add: cx_fresh_def)

lemma cx_u32_dec_empty: "cx_inv shr t \<Longrightarrow> u32_dec (cx_empty t) = cx_empty t - 1"
  using cx_counts_small [of shr t] by (auto simp: cx_inv_def)

lemma cx_insert_no_rehash:
  assumes "cx_inv shr t" "cx_number_of_buckets t div 2 < cx_empty t - 1" "cx_live b"
  shows "comext_insert_element shr garbage (Suc n) t b m = map_option (\<lambda>(r, t). (r, t, m)) (cx_insert_slot shr t b)"
  using assms cx_u32_dec_empty [OF assms(1)] by (simp add: comext_insert_element.simps split: option.splits)

definition cx_loop_inv :: "(32 word \<Rightarrow> 32 word) \<Rightarrow> COMEXT_HASHTABLE \<Rightarrow> nat \<Rightarrow> cx_mem \<Rightarrow> nat \<Rightarrow> int \<times> COMEXT_HASHTABLE \<times> cx_mem \<Rightarrow> bool" where
  "cx_loop_inv shr t N m0 i = (\<lambda>(r, u, m).
     0 \<le> r \<and> m = m0 \<and> cx_inv shr u \<and> cx_number_of_buckets u = N \<and>
     cx_map u = slot_map cx_live cx_key (take i (cx_buckets t)) \<and>
     cx_inuse u = length (filter cx_live (take i (cx_buckets t))) \<and> N \<le> cx_empty u + cx_inuse u)"

lemma cx_loop_step:
  assumes c: "cx_core shr t" and i: "i < cx_number_of_buckets t" and cap: "N div 2 + cx_inuse t + 1 < N"
    and I: "cx_loop_inv shr t N m0 i (r, u, m)"
  shows "\<exists>s'. (if r < 0 then Some (r, u, m)
       else if length (cx_buckets t) \<le> i then None
       else if cx_info (cx_buckets t ! i) = LEGITIMATE
       then comext_insert_element shr garbage (Suc n) u (cx_buckets t ! i) m
       else Some (0, u, m)) = Some s' \<and> cx_loop_inv shr t N m0 (Suc i) s'"
proof -
  let ?b = "cx_buckets t ! i"
  from I have u: "0 \<le> r" "m = m0" "cx_inv shr u" "cx_number_of_buckets u = N"
    "cx_map u = slot_map cx_live cx_key (take i (cx_buckets t))"
    "cx_inuse u = length (filter cx_live (take i (cx_buckets t)))" "N \<le> cx_empty u + cx_inuse u"
    by (simp_all add: cx_loop_inv_def)
  have len: "i < length (cx_buckets t)" using i cx_coreD(4) [OF c] by simp
  note mt = cx.map_take [OF cx_coreD(8) [OF c] len]
  have cnt: "length (filter cx_live (take (Suc i) (cx_buckets t))) =
      length (filter cx_live (take i (cx_buckets t))) + (if cx_live ?b then 1 else 0)"
    using len by (simp add: take_Suc_conv_app_nth)
  have "length (filter cx_live (take (Suc i) (cx_buckets t))) \<le> length (filter cx_live (cx_buckets t))"
    by (metis append_take_drop_id filter_append le_add1 length_append)
  then have lt: "length (filter cx_live (take (Suc i) (cx_buckets t))) \<le> cx_inuse t" using cx_coreD(5) [OF c] by simp
  show ?thesis
  proof (cases "cx_live ?b")
    case False
    with u len cnt mt(2) show ?thesis by (simp add: cx_loop_inv_def)
  next
    case True
    have room: "cx_number_of_buckets u div 2 < cx_empty u - 1" using u cap lt cnt True by simp
    have id: "good_id (refid ?b)" using cx_coreD(7) [OF c i] True by simp
    have absent: "cx_map u (cx_key ?b) = None" using u(5) mt(1) True by simp
    obtain p where p: "cx_insert_slot shr u ?b = Some (int p, cx_put u ?b p)" "cx_inv shr (cx_put u ?b p)"
      "cx_map (cx_put u ?b p) = (cx_map u)(cx_key ?b \<mapsto> ?b)" "cx_inuse (cx_put u ?b p) = Suc (cx_inuse u)"
      "cx_empty u \<le> Suc (cx_empty (cx_put u ?b p))"
      by (rule cx_insert_slot_absent [OF u(3) room True id absent])
    have "comext_insert_element shr garbage (Suc n) u ?b m = Some (int p, cx_put u ?b p, m)"
      using cx_insert_no_rehash [OF u(3) room True] p(1) by simp
    with True u p len cnt mt(2) show ?thesis by (auto simp: cx_loop_inv_def)
  qed
qed

lemma cx_rehash_ok:
  assumes c: "cx_core shr t" and mem: "\<forall>i. \<not> cx_oom m i" and small: "cx_inuse t \<le> 499990"
  obtains u where "comext_rehash_hashtable shr garbage (Suc n) t m = Some (0, u, m\<lparr>allocs := Suc (allocs m)\<rparr>)"
    "cx_inv shr u" "cx_map u = cx_map t" "cx_inuse u = cx_inuse t" "cx_number_of_buckets u div 2 < cx_empty u - 1"
proof -
  obtain N where N: "bsearch_number_of_buckets (int32 (2 * int (cx_inuse t))) = Some N" "is_prime N" "3 \<le> N"
      "N \<le> 999983" "N div 2 + cx_inuse t + 1 < N" by (rule rehash_capacity [OF small])
  let ?m = "m\<lparr>allocs := Suc (allocs m), tables := Suc (tables m)\<rparr>"
  let ?P = "cx_loop_inv shr t N ?m"
  let ?f = "\<lambda>pos (r, u, m).
     if r < 0 then Some (r, u, m)
     else if length (cx_buckets t) \<le> pos then None
     else if cx_info (cx_buckets t ! pos) = LEGITIMATE
     then comext_insert_element shr garbage (Suc n) u (cx_buckets t ! pos) m
     else Some (0, u, m)"
  have P0: "?P 0 (0, cx_fresh garbage N, ?m)"
    using cx_fresh_inv [OF N(2-4)] by (simp add: cx_loop_inv_def slot_map_def fun_eq_iff)
  have step: "\<exists>s'. ?f i s = Some s' \<and> ?P (Suc i) s'" if "i < cx_number_of_buckets t" "?P i s" for i s
  proof -
    obtain r u m' where s: "s = (r, u, m')" by (cases s)
    show ?thesis using cx_loop_step [OF c that(1) N(5) that(2) [unfolded s], of garbage n] unfolding s prod.case by assumption
  qed
  have "\<exists>s. foldM ?f [0..<cx_number_of_buckets t] (0, cx_fresh garbage N, ?m) = Some s \<and> ?P (cx_number_of_buckets t) s"
    by (rule foldM_upt_inv [OF P0 step])
  then obtain s where s: "foldM ?f [0..<cx_number_of_buckets t] (0, cx_fresh garbage N, ?m) = Some s" "?P (cx_number_of_buckets t) s"
    by (elim exE conjE)
  obtain r u m' where s': "s = (r, u, m')" by (cases s)
  have u: "0 \<le> r" "m' = ?m" "cx_inv shr u" "cx_number_of_buckets u = N" "cx_map u = cx_map t" "cx_inuse u = cx_inuse t"
    "N \<le> cx_empty u + cx_inuse u"
    using s(2) cx_coreD(4,5) [OF c] unfolding s' by (simp_all add: cx_loop_inv_def cx_map_def)
  have "comext_rehash_hashtable shr garbage (Suc n) t m = Some (0, u, m\<lparr>allocs := Suc (allocs m)\<rparr>)"
    using N(1) mem s(1) s' u(1,2)
    by (simp add: comext_rehash_hashtable.simps comext_initialize_hashtable_def free_table_def Let_def)
  then show ?thesis using that u N(5) by simp
qed

section \<open>Inserting and deleting\<close>

lemma cx_insert_oom:
  assumes inv: "cx_inv shr t" and small: "cx_inuse t \<le> 499990" and b: "cx_live b"
    and full: "cx_empty t - 1 \<le> cx_number_of_buckets t div 2" and oom: "cx_oom m (allocs m)"
  shows "comext_insert_element shr garbage (Suc n) t b m = Some (-1, t, m\<lparr>allocs := Suc (allocs m)\<rparr>)"
proof -
  obtain N where "bsearch_number_of_buckets (int32 (2 * int (cx_inuse t))) = Some N" by (rule rehash_capacity [OF small])
  with assms cx_u32_dec_empty [OF inv] show ?thesis
    by (simp add: comext_insert_element.simps comext_rehash_hashtable.simps comext_initialize_hashtable_def Let_def)
qed

lemma cx_insert_ok:
  assumes inv: "cx_inv shr t" and mem: "\<forall>i. \<not> cx_oom m i" and small: "cx_inuse t \<le> 499990"
    and b: "cx_live b" "good_id (refid b)"
  obtains r u k where "comext_insert_element shr garbage (Suc (Suc n)) t b m = Some (r, u, m\<lparr>allocs := k\<rparr>)" "cx_inv shr u"
    "cx_map u = (if cx_map t (cx_key b) = None then (cx_map t)(cx_key b \<mapsto> b) else cx_map t)"
    "r = -1 \<longleftrightarrow> cx_map t (cx_key b) \<noteq> None" "cx_inuse u \<le> Suc (cx_inuse t)"
proof -
  have c: "cx_core shr t" using inv by (simp add: cx_inv_def)
  obtain t1 k where R: "comext_insert_element shr garbage (Suc (Suc n)) t b m =
      map_option (\<lambda>(r, t). (r, t, m\<lparr>allocs := k\<rparr>)) (cx_insert_slot shr t1 b)"
    "cx_inv shr t1" "cx_map t1 = cx_map t" "cx_inuse t1 = cx_inuse t" "cx_number_of_buckets t1 div 2 < cx_empty t1 - 1"
  proof (cases "cx_empty t - 1 \<le> cx_number_of_buckets t div 2")
    case True
    obtain u where "comext_rehash_hashtable shr garbage (Suc n) t m = Some (0, u, m\<lparr>allocs := Suc (allocs m)\<rparr>)"
      "cx_inv shr u" "cx_map u = cx_map t" "cx_inuse u = cx_inuse t" "cx_number_of_buckets u div 2 < cx_empty u - 1"
      by (rule cx_rehash_ok [OF c mem small])
    with True that [of "Suc (allocs m)" u] b(1) cx_u32_dec_empty [OF inv] show ?thesis
      by (simp add: comext_insert_element.simps split: option.splits)
  next
    case False
    then show ?thesis using that [of "allocs m" t] cx_insert_no_rehash [OF inv _ b(1), of garbage "Suc n" m] inv by simp
  qed
  show ?thesis
  proof (cases "cx_map t (cx_key b) = None")
    case True
    with R(3) have absent: "cx_map t1 (cx_key b) = None" by simp
    obtain p where "cx_insert_slot shr t1 b = Some (int p, cx_put t1 b p)" "cx_inv shr (cx_put t1 b p)"
      "cx_map (cx_put t1 b p) = (cx_map t1)(cx_key b \<mapsto> b)" "cx_inuse (cx_put t1 b p) = Suc (cx_inuse t1)"
      by (rule cx_insert_slot_absent [OF R(2,5) b absent])
    with True R show ?thesis by (intro that [of "int p" "cx_put t1 b p" k]) auto
  next
    case False
    with R cx_insert_slot_present [OF R(2) b(2)] show ?thesis by (intro that [of "-1" t1 k]) auto
  qed
qed

fun present :: "'a option list \<Rightarrow> 'a list" where
  "present [] = []"
| "present (None # xs) = present xs"
| "present (Some x # xs) = x # present xs"

definition frag_addrs :: "COMEXT_BUCKET \<Rightarrow> addr list" where
  "frag_addrs b = present (fragments b)"

lemma free_fragments_ok:
  "distinct (present fs) \<Longrightarrow> set (present fs) \<subseteq> blocks m \<Longrightarrow>
   free_fragments fs m = Some (map (\<lambda>_. None) fs, m\<lparr>blocks := blocks m - set (present fs)\<rparr>)"
proof (induction fs m rule: free_fragments.induct)
  case (3 a fs m)
  then have "free_fragments fs (m\<lparr>blocks := blocks m - {a}\<rparr>) =
      Some (map (\<lambda>_. None) fs, m\<lparr>blocks := blocks m - {a} - set (present fs)\<rparr>)"
    by auto
  moreover have "blocks m - {a} - set (present fs) = blocks m - set (present (Some a # fs))" by auto
  ultimately show ?case using 3 by simp
qed simp_all

lemma cx_free_bucket_ok:
  assumes "cx_live b \<Longrightarrow> distinct (frag_addrs b) \<and> set (frag_addrs b) \<subseteq> blocks m"
  shows "cx_free_bucket b m = Some (if cx_live b then b\<lparr>fragments := map (\<lambda>_. None) (fragments b)\<rparr> else b,
     m\<lparr>blocks := blocks m - (if cx_live b then set (frag_addrs b) else {})\<rparr>)"
  using assms free_fragments_ok [of "fragments b" m] by (simp add: cx_free_bucket_def frag_addrs_def)

lemma cx_delete_ok:
  assumes inv: "cx_inv shr t" and k: "good_id k" and present: "cx_map t (cstr k) = Some b"
    and own: "distinct (frag_addrs b)" "set (frag_addrs b) \<subseteq> blocks m"
  obtains p u where "comext_delete_element_by_refid shr t k m = Some (int p, u, m\<lparr>blocks := blocks m - set (frag_addrs b)\<rparr>)"
    "cx_inv shr u" "cx_map u = (cx_map t)(cstr k := None)" "cx_inuse u \<le> cx_inuse t"
proof -
  have c: "cx_core shr t" using inv by (simp add: cx_inv_def)
  obtain p where p: "comext_find_element shr t k = Some p" "p < cx_number_of_buckets t"
    "slot_find (cx_hashcode shr) cx_emp cx_key (cx_buckets t) (cstr k) = Some p"
    "cx_map t (cstr k) = (if cx_live (cx_buckets t ! p) then Some (cx_buckets t ! p) else None)"
    by (rule cx_search [OF inv k])
  have l: "cx_live (cx_buckets t ! p)" "b = cx_buckets t ! p" using p(4) present by (auto split: if_splits)
  have pl: "p < length (cx_buckets t)" using p(2) cx_coreD(4) [OF c] by simp
  let ?b = "b\<lparr>fragments := map (\<lambda>_. None) (fragments b), cx_info := DELETED\<rparr>"
  let ?u = "t\<lparr>cx_buckets := (cx_buckets t)[p := ?b], cx_inuse := u32_dec (cx_inuse t)\<rparr>"
  have del: "comext_delete_element_by_refid shr t k m = Some (int p, ?u, m\<lparr>blocks := blocks m - set (frag_addrs b)\<rparr>)"
    using p(1) pl l cx_free_bucket_ok [of b m] own
    by (simp add: comext_delete_element_by_refid_def comext_delete_element_def)
  have key: "cx_key b = cstr k"
    using p(4) present cx.map_Some [OF cx_coreD(8) [OF c]] by (auto simp: cx_map_def)
  note upd = length_filter_update [OF pl, of _ ?b]
  have pos: "0 < cx_inuse t" using l(1) pl cx_coreD(5) [OF c] nth_mem [OF pl] by (auto simp: filter_empty_conv)
  then have dec: "u32_dec (cx_inuse t) = cx_inuse t - 1" using cx_counts_small [OF c] by simp
  have "cx_map ?u = (cx_map t)(cstr k := None)"
    using cx.mark_map [OF cx_coreD(8) [OF c] pl, of ?b] l key by (simp add: cx_map_def)
  moreover have "slots_ok (cx_hashcode shr) cx_emp cx_key ((cx_buckets t)[p := ?b])"
    using l by (intro cx.mark_ok [OF cx_coreD(8) [OF c] pl]) auto
  moreover have "cx_inuse t - 1 = length (filter cx_live ((cx_buckets t)[p := ?b]))"
    "cx_empty t = length (filter cx_emp ((cx_buckets t)[p := ?b]))"
    using upd [of cx_live] upd [of cx_emp] l cx_coreD(5,6) [OF c] by simp_all
  moreover have "good_id (refid ?b)" using cx_coreD(7) [OF c p(2)] l by simp
  then have "\<forall>x \<in> set ((cx_buckets t)[p := ?b]). \<not> cx_emp x \<longrightarrow> good_id (refid x)"
    using set_update_subset_insert [of "cx_buckets t" p ?b] c by (auto simp: cx_core_def)
  ultimately show ?thesis
    using that [OF del] inv cx_coreD(1-4) [OF c] dec by (simp add: cx_inv_def cx_core_def)
qed

lemma cx_delete_absent:
  assumes inv: "cx_inv shr t" and k: "good_id k" and absent: "cx_map t (cstr k) = None"
  shows "comext_delete_element_by_refid shr t k m = Some (-1, t, m)"
proof -
  have c: "cx_core shr t" using inv by (simp add: cx_inv_def)
  obtain p where "comext_find_element shr t k = Some p" "p < cx_number_of_buckets t"
    "cx_map t (cstr k) = (if cx_live (cx_buckets t ! p) then Some (cx_buckets t ! p) else None)"
    by (rule cx_search [OF inv k])
  with absent cx_coreD(4) [OF c] show ?thesis
    by (simp add: comext_delete_element_by_refid_def comext_delete_element_def split: if_splits)
qed

section \<open>Destroying\<close>

definition cx_frags :: "COMEXT_HASHTABLE \<Rightarrow> addr list" where
  "cx_frags t = concat (map frag_addrs (filter cx_live (cx_buckets t)))"

lemma cx_destroy_loop:
  "distinct (concat (map frag_addrs (filter cx_live bs))) \<Longrightarrow> set (concat (map frag_addrs (filter cx_live bs))) \<subseteq> blocks m \<Longrightarrow>
   foldM (\<lambda>b m. map_option snd (cx_free_bucket b m)) bs m =
     Some (m\<lparr>blocks := blocks m - set (concat (map frag_addrs (filter cx_live bs)))\<rparr>)"
proof (induction bs arbitrary: m)
  case (Cons b bs)
  have fb: "cx_free_bucket b m = Some (if cx_live b then b\<lparr>fragments := map (\<lambda>_. None) (fragments b)\<rparr> else b,
     m\<lparr>blocks := blocks m - (if cx_live b then set (frag_addrs b) else {})\<rparr>)"
    using Cons.prems by (intro cx_free_bucket_ok) auto
  let ?m = "m\<lparr>blocks := blocks m - (if cx_live b then set (frag_addrs b) else {})\<rparr>"
  have "foldM (\<lambda>b m. map_option snd (cx_free_bucket b m)) bs ?m =
      Some (?m\<lparr>blocks := blocks ?m - set (concat (map frag_addrs (filter cx_live bs)))\<rparr>)"
    using Cons.prems by (intro Cons.IH) (auto split: if_splits)
  then show ?case using fb by (auto simp: Diff_eq Int_assoc)
qed simp

lemma foldM_nth: "foldM (\<lambda>i m. f (xs ! i) m) [0..<length xs] m = foldM f xs m"
proof -
  have "foldM (\<lambda>i m. f (xs ! i) m) is m = foldM f (map (\<lambda>i. xs ! i) is) m" for "is"
    by (induction "is" arbitrary: m) (auto split: option.splits)
  then show ?thesis by (simp add: map_nth)
qed

lemma cx_destroy_ok:
  assumes "cx_core shr t" "distinct (cx_frags t)" "set (cx_frags t) \<subseteq> blocks m" "0 < tables m"
  shows "comext_destroy_hashtable t m = Some (m\<lparr>blocks := blocks m - set (cx_frags t), tables := tables m - 1\<rparr>)"
  using assms(4) cx_destroy_loop [of "cx_buckets t" m] assms(2,3) cx_coreD(4) [OF assms(1)]
    foldM_nth [of "\<lambda>b m. map_option snd (cx_free_bucket b m)" "cx_buckets t" m]
  by (simp add: comext_destroy_hashtable_def cx_frags_def free_table_def)

section \<open>Emptying\<close>

definition cx_emptied :: "COMEXT_BUCKET \<Rightarrow> COMEXT_BUCKET" where
  "cx_emptied b = (if cx_live b then b\<lparr>fragments := map (\<lambda>_. None) (fragments b)\<rparr> else b)\<lparr>cx_info := EMPTY\<rparr>"

lemma cx_empty_step:
  assumes d: "distinct (cx_frags t)" "set (cx_frags t) \<subseteq> blocks m" and i: "i < length (cx_buckets t)"
    and s: "s = (t\<lparr>cx_buckets := map cx_emptied (take i (cx_buckets t)) @ drop i (cx_buckets t)\<rparr>,
        m\<lparr>blocks := blocks m - set (concat (map frag_addrs (filter cx_live (take i (cx_buckets t)))))\<rparr>)"
  shows "(case s of (t, m) \<Rightarrow> do {
      (b, m) \<leftarrow> cx_free_bucket (cx_buckets t ! i) m;
      Some (t\<lparr>cx_buckets := (cx_buckets t)[i := b\<lparr>cx_info := EMPTY\<rparr>]\<rparr>, m) }) =
    Some (t\<lparr>cx_buckets := map cx_emptied (take (Suc i) (cx_buckets t)) @ drop (Suc i) (cx_buckets t)\<rparr>,
        m\<lparr>blocks := blocks m - set (concat (map frag_addrs (filter cx_live (take (Suc i) (cx_buckets t)))))\<rparr>)"
proof -
  let ?bs = "cx_buckets t" and ?b = "cx_buckets t ! i"
  let ?F = "\<lambda>bs. concat (map frag_addrs (filter cx_live bs))"
  have split: "?bs = take i ?bs @ ?b # drop (Suc i) ?bs" using i by (simp add: id_take_nth_drop [symmetric])
  have F: "cx_frags t = ?F (take i ?bs) @ (if cx_live ?b then frag_addrs ?b else []) @ ?F (drop (Suc i) ?bs)"
    unfolding cx_frags_def by (subst split) simp
  have fb: "cx_free_bucket ?b (snd s) = Some (if cx_live ?b then ?b\<lparr>fragments := map (\<lambda>_. None) (fragments ?b)\<rparr> else ?b,
     (snd s)\<lparr>blocks := blocks (snd s) - (if cx_live ?b then set (frag_addrs ?b) else {})\<rparr>)"
    using d F s by (intro cx_free_bucket_ok) auto
  have T: "take (Suc i) ?bs = take i ?bs @ [?b]" using i by (simp add: take_Suc_conv_app_nth)
  have nth: "(map cx_emptied (take i ?bs) @ drop i ?bs) ! i = ?b" using i by (simp add: nth_append)
  have upd: "(map cx_emptied (take i ?bs) @ drop i ?bs)[i := x] = map cx_emptied (take i ?bs) @ x # drop (Suc i) ?bs" for x
    using i by (simp add: list_update_append Cons_nth_drop_Suc [symmetric])
  have B: "blocks m - set (?F (take i ?bs)) - (if cx_live ?b then set (frag_addrs ?b) else {}) =
      blocks m - set (?F (take (Suc i) ?bs))" unfolding T by auto
  show ?thesis using fb B unfolding s T by (simp add: nth upd cx_emptied_def)
qed

lemma cx_empty_ok:
  assumes c: "cx_core shr t" and d: "distinct (cx_frags t)" "set (cx_frags t) \<subseteq> blocks m"
  obtains u where "comext_empty_hashtable t m = Some (u, m\<lparr>blocks := blocks m - set (cx_frags t)\<rparr>)" "cx_inv shr u"
    "cx_map u = Map.empty" "cx_inuse u = 0"
proof -
  let ?bs = "cx_buckets t" and ?N = "cx_number_of_buckets t"
  have len: "length ?bs = ?N" by (rule cx_coreD(4) [OF c])
  let ?P = "\<lambda>i s. s = (t\<lparr>cx_buckets := map cx_emptied (take i ?bs) @ drop i ?bs\<rparr>,
        m\<lparr>blocks := blocks m - set (concat (map frag_addrs (filter cx_live (take i ?bs))))\<rparr>)"
  let ?f = "\<lambda>i (t, m). do {
      (b, m) \<leftarrow> cx_free_bucket (cx_buckets t ! i) m;
      Some (t\<lparr>cx_buckets := (cx_buckets t)[i := b\<lparr>cx_info := EMPTY\<rparr>]\<rparr>, m) }"
  have "\<exists>s. foldM ?f [0..<?N] (t, m) = Some s \<and> ?P ?N s"
  proof (rule foldM_upt_inv)
    show "?P 0 (t, m)" by simp
    show "\<exists>s'. ?f i s = Some s' \<and> ?P (Suc i) s'" if "i < ?N" "?P i s" for i s
      using cx_empty_step [OF d, of i s] that len by simp
  qed
  then have "foldM ?f [0..<?N] (t, m) = Some (t\<lparr>cx_buckets := map cx_emptied (take ?N ?bs) @ drop ?N ?bs\<rparr>,
      m\<lparr>blocks := blocks m - set (concat (map frag_addrs (filter cx_live (take ?N ?bs))))\<rparr>)"
    by (elim exE conjE) simp
  moreover have "take ?N ?bs = ?bs" "drop ?N ?bs = []" using len by simp_all
  ultimately have fold: "foldM ?f [0..<?N] (t, m) = Some (t\<lparr>cx_buckets := map cx_emptied ?bs\<rparr>, m\<lparr>blocks := blocks m - set (cx_frags t)\<rparr>)"
    by (simp add: cx_frags_def)
  let ?u = "t\<lparr>cx_buckets := map cx_emptied ?bs, cx_inuse := 0, cx_empty := ?N\<rparr>"
  have e: "\<And>b. b \<in> set (cx_buckets ?u) \<Longrightarrow> cx_emp b" by (auto simp: cx_emptied_def)
  have f: "slots_ok (cx_hashcode shr) cx_emp cx_key (cx_buckets ?u) \<and> slot_map cx_live cx_key (cx_buckets ?u) = Map.empty"
    by (rule cx.fresh_ok) (rule e)
  have "filter cx_live (cx_buckets ?u) = []" "filter cx_emp (cx_buckets ?u) = cx_buckets ?u"
    by (simp_all add: filter_empty_conv filter_id_conv cx_emptied_def)
  moreover have "\<forall>b \<in> set (cx_buckets ?u). \<not> cx_emp b \<longrightarrow> good_id (refid b)" using e by blast
  ultimately have "cx_inv shr ?u" using f cx_coreD(1-4) [OF c] unfolding cx_inv_def cx_core_def by simp
  moreover have "cx_map ?u = Map.empty" using f by (simp add: cx_map_def)
  moreover have "comext_empty_hashtable t m = Some (?u, m\<lparr>blocks := blocks m - set (cx_frags t)\<rparr>)"
    using fold len by (simp add: comext_empty_hashtable_def)
  ultimately show ?thesis using that by simp
qed

end
