(* ===== verification/Comext_Messages.thy ===== *)
theory Comext_Messages
  imports Comext_Hashtable Store_Interface
begin

text \<open>
  How the socket library uses its table, \<^verbatim>\<open>InputMessageProcess\<close> and \<^verbatim>\<open>CleanTimeout\<close> of \<^verbatim>\<open>Socket_Bafe/comext-bancs.c\<close> (the same
  text in \<^verbatim>\<open>comext-bancscard.c\<close>): a message is a fragment of a larger one, with the identifier and the number of the
  fragment in it. Its block is put into the bucket of the identifier, or into a new bucket that is then inserted.

  The identifier and the number that are read from the message, the time, and the static \<^verbatim>\<open>last_clean_time\<close> are arguments. What
  \<^verbatim>\<open>HandleInputMessage\<close> does with the bucket afterwards is not modelled, except that it may delete it.
\<close>

section \<open>The functions\<close>

definition CleanTimeout :: "int \<Rightarrow> COMEXT_HASHTABLE \<Rightarrow> cx_mem \<Rightarrow> (COMEXT_HASHTABLE \<times> cx_mem) option" where
  "CleanTimeout cur_time t m =
     (if length (cx_buckets t) < cx_number_of_buckets t then None
      else foldM (\<lambda>i (t, m).
        if cx_info (cx_buckets t ! i) = LEGITIMATE \<and> cur_time - cx_time (cx_buckets t ! i) > 20
        then do { (b, m) \<leftarrow> cx_free_bucket (cx_buckets t ! i) m;
                  Some (t\<lparr>cx_buckets := (cx_buckets t)[i := b\<lparr>cx_info := DELETED\<rparr>], cx_inuse := u32_dec (cx_inuse t)\<rparr>, m) }
        else Some (t, m)) [0..<cx_number_of_buckets t] (t, m))"

definition new_bucket :: "int \<Rightarrow> char list \<Rightarrow> nat \<Rightarrow> addr \<Rightarrow> COMEXT_BUCKET" where
  "new_bucket now k i message = \<lparr>cx_info = LEGITIMATE, refid = take 38 (cstr k @ replicate 38 NUL) @ [NUL], cx_time = now,
     fragments = (replicate 64 None)[i := Some message]\<rparr>"

text \<open>
  The part of \<^verbatim>\<open>InputMessageProcess\<close> that stores the block; the result is -1, or 0 where the code goes on to handle the
  message. A number outside of 1 to 64 is an index outside of \<^verbatim>\<open>fragments\<close>.
\<close>

definition InputMessageProcess ::
    "(32 word \<Rightarrow> 32 word) \<Rightarrow> (nat \<Rightarrow> COMEXT_BUCKET) \<Rightarrow> nat \<Rightarrow> int \<Rightarrow> int \<Rightarrow> char list \<Rightarrow> int \<Rightarrow> addr \<Rightarrow> COMEXT_HASHTABLE \<Rightarrow> cx_mem \<Rightarrow>
     (int \<times> int \<times> COMEXT_HASHTABLE \<times> cx_mem) option" where
  "InputMessageProcess shr garbage n last_clean_time now k sequence message t m =
     do { pos \<leftarrow> comext_find_element shr t k;
          bucket \<leftarrow> comext_retrieve_element t pos;
          if sequence < 1 \<or> 64 < sequence then None
          else case bucket of
            Some b \<Rightarrow> Some (0, last_clean_time, t\<lparr>cx_buckets := (cx_buckets t)[pos := b\<lparr>fragments := (fragments b)[nat (sequence - 1) := Some message]\<rparr>]\<rparr>, m)
          | None \<Rightarrow> do {
              (last_clean_time, t, m) \<leftarrow>
                (if now - last_clean_time > 20 then map_option (\<lambda>(t, m). (now, t, m)) (CleanTimeout now t m) else Some (last_clean_time, t, m));
              (r, t, m) \<leftarrow> comext_insert_element shr garbage n t (new_bucket now k (nat (sequence - 1)) message) m;
              Some (if r < 0 then -1 else 0, last_clean_time, t, m) } }"

section \<open>Who owns the blocks\<close>

text \<open>The block at each place of each bucket\<close>

definition places :: "(string \<rightharpoonup> COMEXT_BUCKET) \<Rightarrow> string \<times> nat \<rightharpoonup> addr" where
  "places f = (\<lambda>(k, i). case f k of None \<Rightarrow> None | Some b \<Rightarrow> if i < length (fragments b) then fragments b ! i else None)"

text \<open>No block is in two places, and together they hold the blocks of the set.\<close>

definition owns :: "(string \<rightharpoonup> COMEXT_BUCKET) \<Rightarrow> addr set \<Rightarrow> bool" where
  "owns f X \<longleftrightarrow> (\<forall>x y a. places f x = Some a \<longrightarrow> places f y = Some a \<longrightarrow> x = y) \<and> (\<forall>a. a \<in> X \<longleftrightarrow> (\<exists>x. places f x = Some a))"

lemma set_present: "a \<in> set (present fs) \<longleftrightarrow> Some a \<in> set fs"
  by (induction fs rule: present.induct) auto

lemma present_nth: "a \<in> set (present fs) \<longleftrightarrow> (\<exists>i < length fs. fs ! i = Some a)"
  unfolding set_present by (rule in_set_conv_nth)

lemma distinct_present: "(\<And>i j a. i < length fs \<Longrightarrow> j < length fs \<Longrightarrow> fs ! i = Some a \<Longrightarrow> fs ! j = Some a \<Longrightarrow> i = j) \<Longrightarrow> distinct (present fs)"
proof (induction fs rule: present.induct)
  case (2 xs)
  have "distinct (present xs)"
  proof (rule "2.IH")
    show "i = j" if "i < length xs" "j < length xs" "xs ! i = Some a" "xs ! j = Some a" for i j a
      using "2.prems"[of "Suc i" "Suc j" a] that by simp
  qed
  then show ?case by simp
next
  case (3 x xs)
  have "distinct (present xs)"
  proof (rule "3.IH")
    show "i = j" if "i < length xs" "j < length xs" "xs ! i = Some a" "xs ! j = Some a" for i j a
      using "3.prems"[of "Suc i" "Suc j" a] that by simp
  qed
  moreover have "x \<notin> set (present xs)" using "3.prems"[of 0 _ x] unfolding present_nth by fastforce
  ultimately show ?case by simp
qed simp

lemma places_Some: "places f (k, i) = Some a \<longleftrightarrow> (\<exists>b. f k = Some b \<and> i < length (fragments b) \<and> fragments b ! i = Some a)"
  by (simp add: places_def split: option.split)

lemma owned_bucket:
  assumes "owns f X" "f k = Some b"
  shows "distinct (frag_addrs b)" "set (frag_addrs b) \<subseteq> X" "a \<in> set (frag_addrs b) \<longleftrightarrow> (\<exists>i. places f (k, i) = Some a)"
proof -
  show m: "a \<in> set (frag_addrs b) \<longleftrightarrow> (\<exists>i. places f (k, i) = Some a)" for a
    using assms(2) by (simp add: frag_addrs_def present_nth places_Some)
  then show "set (frag_addrs b) \<subseteq> X" using assms(1) unfolding owns_def by blast
  show "distinct (frag_addrs b)" unfolding frag_addrs_def
  proof (rule distinct_present)
    fix i j a assume "i < length (fragments b)" "j < length (fragments b)" "fragments b ! i = Some a" "fragments b ! j = Some a"
    then have "places f (k, i) = Some a" "places f (k, j) = Some a" using assms(2) by (simp_all add: places_Some)
    then have "(k, i) = (k, j)" using assms(1) unfolding owns_def by blast
    then show "i = j" by simp
  qed
qed

text \<open>Buckets that leave the table take their blocks with them.\<close>

lemma owns_delete:
  assumes o: "owns f X" and b: "f k = Some b"
  shows "owns (f(k := None)) (X - set (frag_addrs b))"
proof -
  have p: "places (f(k := None)) x = Some a \<longleftrightarrow> places f x = Some a \<and> fst x \<noteq> k" for x a
    by (cases x) (auto simp: places_def)
  have "a \<in> set (frag_addrs b) \<longleftrightarrow> (\<exists>x. places f x = Some a \<and> fst x = k)" for a
    unfolding owned_bucket(3)[OF o b] by force
  then show ?thesis using o unfolding owns_def p Diff_iff by blast
qed

text \<open>A new block in one place; what was there before has no owner any more.\<close>

lemma owns_place:
  assumes o: "owns f X" and p: "places f' = (places f)(x \<mapsto> a)" and a: "a \<notin> X"
  shows "owns f' (insert a (X - set_option (places f x)))"
proof -
  have na: "places f y \<noteq> Some a" for y using a o unfolding owns_def by blast
  show ?thesis unfolding owns_def
  proof (intro conjI allI impI)
    fix y z c assume "places f' y = Some c" "places f' z = Some c"
    then show "y = z" using o na unfolding owns_def p by (metis fun_upd_apply option.inject)
  next
    fix c
    show "c \<in> insert a (X - set_option (places f x)) \<longleftrightarrow> (\<exists>y. places f' y = Some c)"
    proof (cases "c = a")
      case True
      then show ?thesis unfolding p by (metis fun_upd_same insertI1)
    next
      case False
      have "(\<exists>y. ((places f)(x \<mapsto> a)) y = Some c) \<longleftrightarrow> (\<exists>y. y \<noteq> x \<and> places f y = Some c)" using False by (metis fun_upd_apply option.inject)
      also have "\<dots> \<longleftrightarrow> c \<in> X \<and> places f x \<noteq> Some c" using o unfolding owns_def by metis
      finally show ?thesis using False unfolding p by auto
    qed
  qed
qed

section \<open>Tables with their blocks\<close>

text \<open>
  The blocks are those from before (\<open>B\<close>), the fragments in the table, and those that nothing points to any more (\<open>lost\<close>).
\<close>

definition cx_ok :: "(32 word \<Rightarrow> 32 word) \<Rightarrow> addr set \<Rightarrow> nat \<Rightarrow> addr set \<Rightarrow> COMEXT_HASHTABLE \<Rightarrow> cx_mem \<Rightarrow> bool" where
  "cx_ok shr B T lost t m \<longleftrightarrow> cx_inv shr t \<and> (\<forall>i. \<not> cx_oom m i) \<and> finite (blocks m) \<and> tables m = T \<and> B \<subseteq> blocks m \<and> lost \<subseteq> blocks m - B
     \<and> owns (cx_map t) (blocks m - B - lost) \<and> (\<forall>b \<in> ran (cx_map t). length (fragments b) = 64)"

lemma cx_ok_owned:
  assumes "cx_ok shr B T lost t m" "cx_map t k = Some b"
  shows "distinct (frag_addrs b)" "set (frag_addrs b) \<subseteq> blocks m - B - lost"
  using owned_bucket(1,2)[of "cx_map t" "blocks m - B - lost" k b] assms by (simp_all add: cx_ok_def)

text \<open>Taking a bucket out frees its fragments and nothing else.\<close>

lemma cx_ok_delete:
  assumes ok: "cx_ok shr B T lost t m" and k: "cx_map t k = Some b" and u: "cx_inv shr u" "cx_map u = (cx_map t)(k := None)"
  shows "cx_ok shr B T lost u (m\<lparr>blocks := blocks m - set (frag_addrs b)\<rparr>)"
proof -
  have o: "owns (cx_map t) (blocks m - B - lost)" using ok by (simp add: cx_ok_def)
  have "blocks m - set (frag_addrs b) - B - lost = blocks m - B - lost - set (frag_addrs b)" by blast
  then have "owns (cx_map u) (blocks m - set (frag_addrs b) - B - lost)" using owns_delete[OF o k] u(2) by simp
  moreover have "length (fragments c) = 64" if "c \<in> ran (cx_map u)" for c
    using that ok unfolding u(2) cx_ok_def by (auto simp: ran_def split: if_splits)
  ultimately show ?thesis using ok cx_ok_owned(2)[OF ok k] u(1) unfolding cx_ok_def by auto
qed

lemma cx_delete_at:
  assumes ok: "cx_ok shr B T lost t m" and p: "p < cx_number_of_buckets t" and l: "cx_live (cx_buckets t ! p)"
  defines "b \<equiv> cx_buckets t ! p"
  obtains u where "cx_free_bucket b m = Some (b\<lparr>fragments := map (\<lambda>_. None) (fragments b)\<rparr>, m\<lparr>blocks := blocks m - set (frag_addrs b)\<rparr>)"
    "u = t\<lparr>cx_buckets := (cx_buckets t)[p := b\<lparr>fragments := map (\<lambda>_. None) (fragments b), cx_info := DELETED\<rparr>], cx_inuse := u32_dec (cx_inuse t)\<rparr>"
    "cx_ok shr B T lost u (m\<lparr>blocks := blocks m - set (frag_addrs b)\<rparr>)" "cx_map u = (cx_map t)(cx_key b := None)" "cx_inuse u \<le> cx_inuse t"
proof -
  have inv: "cx_inv shr t" and c: "cx_core shr t" using ok by (simp_all add: cx_ok_def cx_inv_def)
  have pl: "p < length (cx_buckets t)" using p cx_coreD(4)[OF c] by simp
  have k: "cx_map t (cx_key b) = Some b" using l pl cx.map_Some[OF cx_coreD(8)[OF c]] by (auto simp: cx_map_def b_def)
  have g: "good_id (cstr (refid b))" using cx_coreD(7)[OF c p] l by (simp add: b_def good_id_def strlen_def)
  have ck: "cx_map t (cstr (cx_key b)) = Some b" using k by simp
  have own: "distinct (frag_addrs b)" "set (frag_addrs b) \<subseteq> blocks m" using cx_ok_owned[OF ok k] by auto
  obtain q u where u: "comext_delete_element_by_refid shr t (cx_key b) m = Some (int q, u, m\<lparr>blocks := blocks m - set (frag_addrs b)\<rparr>)"
      "cx_inv shr u" "cx_map u = (cx_map t)(cstr (cx_key b) := None)" "cx_inuse u \<le> cx_inuse t"
    using cx_delete_ok[OF inv g ck own] .
  obtain r where r: "comext_find_element shr t (cx_key b) = Some r" "r < cx_number_of_buckets t"
    "cx_map t (cstr (cx_key b)) = (if cx_live (cx_buckets t ! r) then Some (cx_buckets t ! r) else None)"
    using cx_search[OF inv g] by metis
  have rl: "cx_live (cx_buckets t ! r)" "cx_buckets t ! r = b" using r(3) ck by (auto split: if_splits)
  have "r = p" using cx.live_unique[OF cx_coreD(8)[OF c], of r p] rl l pl r(2) cx_coreD(4)[OF c] by (simp add: b_def)
  have fb: "cx_free_bucket b m = Some (b\<lparr>fragments := map (\<lambda>_. None) (fragments b)\<rparr>, m\<lparr>blocks := blocks m - set (frag_addrs b)\<rparr>)"
    using cx_free_bucket_ok[of b m] own l by (simp add: b_def)
  then have "u = t\<lparr>cx_buckets := (cx_buckets t)[p := b\<lparr>fragments := map (\<lambda>_. None) (fragments b), cx_info := DELETED\<rparr>], cx_inuse := u32_dec (cx_inuse t)\<rparr>"
    using u(1) r(1) rl pl \<open>r = p\<close> by (auto simp: comext_delete_element_by_refid_def comext_delete_element_def)
  moreover have "cx_map u = (cx_map t)(cx_key b := None)" using u(3) by simp
  ultimately show thesis using that fb u(2,4) cx_ok_delete[OF ok k] by blast
qed

section \<open>Cleaning\<close>

definition fresh_enough :: "int \<Rightarrow> COMEXT_BUCKET \<Rightarrow> bool" where
  "fresh_enough now b \<longleftrightarrow> now - cx_time b \<le> 20"

definition cleaned :: "int \<Rightarrow> (string \<rightharpoonup> COMEXT_BUCKET) \<Rightarrow> (string \<rightharpoonup> COMEXT_BUCKET)" where
  "cleaned now f = (\<lambda>k. case f k of None \<Rightarrow> None | Some b \<Rightarrow> if fresh_enough now b then Some b else None)"

text \<open>What the loop has done when it comes to bucket \<open>i\<close>\<close>

definition clean_inv :: "(32 word \<Rightarrow> 32 word) \<Rightarrow> addr set \<Rightarrow> nat \<Rightarrow> addr set \<Rightarrow> int \<Rightarrow> COMEXT_HASHTABLE \<Rightarrow> cx_mem \<Rightarrow> nat \<Rightarrow> COMEXT_HASHTABLE \<times> cx_mem \<Rightarrow> bool" where
  "clean_inv shr B T lost now t m i = (\<lambda>(u, mu). cx_ok shr B T lost u mu \<and> texts mu = texts m \<and> cx_inuse u \<le> cx_inuse t
     \<and> cx_number_of_buckets u = cx_number_of_buckets t
     \<and> (\<forall>q < cx_number_of_buckets t. (cx_live (cx_buckets u ! q) \<longrightarrow> cx_buckets u ! q = cx_buckets t ! q)
         \<and> (cx_live (cx_buckets u ! q) \<longleftrightarrow> cx_live (cx_buckets t ! q) \<and> (q < i \<longrightarrow> fresh_enough now (cx_buckets t ! q)))))"

lemma clean_step:
  assumes I: "clean_inv shr B T lost now t m i (u, mu)" and i: "i < cx_number_of_buckets t"
  shows "\<exists>s'. (if cx_info (cx_buckets u ! i) = LEGITIMATE \<and> now - cx_time (cx_buckets u ! i) > 20
        then do { (b, m) \<leftarrow> cx_free_bucket (cx_buckets u ! i) mu;
                  Some (u\<lparr>cx_buckets := (cx_buckets u)[i := b\<lparr>cx_info := DELETED\<rparr>], cx_inuse := u32_dec (cx_inuse u)\<rparr>, m) }
        else Some (u, mu)) = Some s' \<and> clean_inv shr B T lost now t m (Suc i) s'"
proof -
  have ok: "cx_ok shr B T lost u mu" and N: "cx_number_of_buckets u = cx_number_of_buckets t" and tx: "texts mu = texts m" "cx_inuse u \<le> cx_inuse t"
    and q: "\<And>q. q < cx_number_of_buckets t \<Longrightarrow> (cx_live (cx_buckets u ! q) \<longrightarrow> cx_buckets u ! q = cx_buckets t ! q)
         \<and> (cx_live (cx_buckets u ! q) \<longleftrightarrow> cx_live (cx_buckets t ! q) \<and> (q < i \<longrightarrow> fresh_enough now (cx_buckets t ! q)))"
    using I unfolding clean_inv_def prod.case by blast+
  have "cx_core shr u" using ok by (simp add: cx_ok_def cx_inv_def)
  then have len: "length (cx_buckets u) = cx_number_of_buckets t" using N cx_coreD(4) by simp
  show ?thesis
  proof (cases "cx_live (cx_buckets u ! i) \<and> now - cx_time (cx_buckets u ! i) > 20")
    case True
    define b where "b = cx_buckets u ! i"
    obtain u' where u': "cx_free_bucket b mu = Some (b\<lparr>fragments := map (\<lambda>_. None) (fragments b)\<rparr>, mu\<lparr>blocks := blocks mu - set (frag_addrs b)\<rparr>)"
      "u' = u\<lparr>cx_buckets := (cx_buckets u)[i := b\<lparr>fragments := map (\<lambda>_. None) (fragments b), cx_info := DELETED\<rparr>], cx_inuse := u32_dec (cx_inuse u)\<rparr>"
      "cx_ok shr B T lost u' (mu\<lparr>blocks := blocks mu - set (frag_addrs b)\<rparr>)" "cx_inuse u' \<le> cx_inuse u"
      using cx_delete_at[OF ok, of i] i N True unfolding b_def by metis
    have bt: "b = cx_buckets t ! i" using q[OF i] True by (simp add: b_def)
    have old: "\<not> fresh_enough now (cx_buckets t ! i)" using True bt by (simp add: b_def fresh_enough_def)
    have "clean_inv shr B T lost now t m (Suc i) (u', mu\<lparr>blocks := blocks mu - set (frag_addrs b)\<rparr>)"
      unfolding clean_inv_def prod.case
    proof (intro conjI allI impI)
      fix r assume r: "r < cx_number_of_buckets t"
      have nr: "cx_buckets u' ! r = (if r = i then b\<lparr>fragments := map (\<lambda>_. None) (fragments b), cx_info := DELETED\<rparr> else cx_buckets u ! r)"
        using r len by (simp add: u'(2) nth_list_update)
      show "cx_buckets u' ! r = cx_buckets t ! r" if l: "cx_live (cx_buckets u' ! r)"
      proof -
        have "r \<noteq> i" using l unfolding nr by auto
        then have "cx_buckets u' ! r = cx_buckets u ! r" unfolding nr by (rule if_not_P)
        then show ?thesis using l q[OF r] by metis
      qed
      show "cx_live (cx_buckets u' ! r) \<longleftrightarrow> cx_live (cx_buckets t ! r) \<and> (r < Suc i \<longrightarrow> fresh_enough now (cx_buckets t ! r))"
      proof (cases "r = i")
        case True
        then show ?thesis using old unfolding nr by simp
      next
        case False
        then have "r < Suc i \<longleftrightarrow> r < i" "cx_buckets u' ! r = cx_buckets u ! r" unfolding nr by auto
        then show ?thesis using q[OF r] by metis
      qed
    qed (use u' tx N in auto)
    moreover have "cx_info b = LEGITIMATE \<and> now - cx_time b > 20" using True unfolding b_def .
    ultimately show ?thesis unfolding b_def[symmetric] u'(1)
      by (intro exI[of _ "(u', mu\<lparr>blocks := blocks mu - set (frag_addrs b)\<rparr>)"]) (simp only: if_True simp_thms bind.bind_lunit prod.case u'(2))
  next
    case False
    have "clean_inv shr B T lost now t m (Suc i) (u, mu)"
      unfolding clean_inv_def prod.case
    proof (intro conjI allI impI)
      fix r assume r: "r < cx_number_of_buckets t"
      show "cx_buckets u ! r = cx_buckets t ! r" if "cx_live (cx_buckets u ! r)" using that q[OF r] by blast
      show "cx_live (cx_buckets u ! r) \<longleftrightarrow> cx_live (cx_buckets t ! r) \<and> (r < Suc i \<longrightarrow> fresh_enough now (cx_buckets t ! r))"
      proof (cases "r = i")
        case True
        have "fresh_enough now (cx_buckets u ! i)" if "cx_live (cx_buckets u ! i)" using that False by (simp add: fresh_enough_def)
        then have "cx_live (cx_buckets u ! i) \<longleftrightarrow> cx_live (cx_buckets t ! i) \<and> fresh_enough now (cx_buckets t ! i)" using q[OF i] by metis
        then show ?thesis unfolding True by blast
      next
        case False
        then have "r < Suc i \<longleftrightarrow> r < i" by auto
        then show ?thesis using q[OF r] by metis
      qed
    qed (use ok tx N in auto)
    moreover have "\<not> (cx_info (cx_buckets u ! i) = LEGITIMATE \<and> now - cx_time (cx_buckets u ! i) > 20)" using False .
    ultimately show ?thesis by (intro exI[of _ "(u, mu)"]) (simp only: if_False simp_thms)
  qed
qed

lemma CleanTimeout_ok:
  assumes ok: "cx_ok shr B T lost t m"
  obtains u mu where "CleanTimeout now t m = Some (u, mu)" "cx_ok shr B T lost u mu" "cx_map u = cleaned now (cx_map t)"
    "texts mu = texts m" "cx_inuse u \<le> cx_inuse t"
proof -
  have c: "cx_core shr t" using ok by (simp add: cx_ok_def cx_inv_def)
  let ?P = "clean_inv shr B T lost now t m"
  let ?f = "\<lambda>i (t, m).
        if cx_info (cx_buckets t ! i) = LEGITIMATE \<and> now - cx_time (cx_buckets t ! i) > 20
        then do { (b, m) \<leftarrow> cx_free_bucket (cx_buckets t ! i) m;
                  Some (t\<lparr>cx_buckets := (cx_buckets t)[i := b\<lparr>cx_info := DELETED\<rparr>], cx_inuse := u32_dec (cx_inuse t)\<rparr>, m) }
        else Some (t, m)"
  have P0: "?P 0 (t, m)" using ok by (simp add: clean_inv_def)
  have step: "\<exists>s'. ?f i s = Some s' \<and> ?P (Suc i) s'" if "i < cx_number_of_buckets t" "?P i s" for i s
  proof -
    obtain u mu where s: "s = (u, mu)" by (cases s)
    show ?thesis using clean_step[OF that(2)[unfolded s] that(1)] unfolding s prod.case by assumption
  qed
  have "\<exists>s. foldM ?f [0..<cx_number_of_buckets t] (t, m) = Some s \<and> ?P (cx_number_of_buckets t) s"
    by (rule foldM_upt_inv[OF P0 step])
  then obtain u mu where u: "foldM ?f [0..<cx_number_of_buckets t] (t, m) = Some (u, mu)" "?P (cx_number_of_buckets t) (u, mu)" by auto
  have f: "CleanTimeout now t m = Some (u, mu)" using u(1) cx_coreD(4)[OF c] by (simp add: CleanTimeout_def)
  have oku: "cx_ok shr B T lost u mu" and N: "cx_number_of_buckets u = cx_number_of_buckets t" and tx: "texts mu = texts m" "cx_inuse u \<le> cx_inuse t"
    and q: "\<And>q. q < cx_number_of_buckets t \<Longrightarrow> (cx_live (cx_buckets u ! q) \<longrightarrow> cx_buckets u ! q = cx_buckets t ! q)
         \<and> (cx_live (cx_buckets u ! q) \<longleftrightarrow> cx_live (cx_buckets t ! q) \<and> fresh_enough now (cx_buckets t ! q))"
    using u(2) unfolding clean_inv_def prod.case by blast+
  have cu: "cx_core shr u" using oku by (simp add: cx_ok_def cx_inv_def)
  note ms = cx.map_Some[OF cx_coreD(8)[OF c]] cx.map_Some[OF cx_coreD(8)[OF cu]]
  have "cx_map u k = Some b \<longleftrightarrow> cleaned now (cx_map t) k = Some b" for k b
  proof -
    have "cx_map u k = Some b \<longleftrightarrow> (\<exists>p < cx_number_of_buckets t. cx_live (cx_buckets u ! p) \<and> cx_key (cx_buckets u ! p) = k \<and> cx_buckets u ! p = b)"
      unfolding cx_map_def ms(2) using cx_coreD(4)[OF cu] N by simp
    also have "\<dots> \<longleftrightarrow> (\<exists>p < cx_number_of_buckets t. cx_live (cx_buckets t ! p) \<and> cx_key (cx_buckets t ! p) = k \<and> cx_buckets t ! p = b) \<and> fresh_enough now b"
    proof (intro iffI conjI)
      assume "\<exists>p < cx_number_of_buckets t. cx_live (cx_buckets u ! p) \<and> cx_key (cx_buckets u ! p) = k \<and> cx_buckets u ! p = b"
      then obtain p where p: "p < cx_number_of_buckets t" "cx_live (cx_buckets u ! p)" "cx_key (cx_buckets u ! p) = k" "cx_buckets u ! p = b" by blast
      then have "cx_buckets t ! p = b" "fresh_enough now b" using q[OF p(1)] by metis+
      moreover have "cx_live (cx_buckets t ! p)" using q[OF p(1)] p(2) by blast
      ultimately show "\<exists>p < cx_number_of_buckets t. cx_live (cx_buckets t ! p) \<and> cx_key (cx_buckets t ! p) = k \<and> cx_buckets t ! p = b" "fresh_enough now b"
        using p by auto
    next
      assume "(\<exists>p < cx_number_of_buckets t. cx_live (cx_buckets t ! p) \<and> cx_key (cx_buckets t ! p) = k \<and> cx_buckets t ! p = b) \<and> fresh_enough now b"
      then obtain p where p: "p < cx_number_of_buckets t" "cx_live (cx_buckets t ! p)" "cx_key (cx_buckets t ! p) = k" "cx_buckets t ! p = b" "fresh_enough now b" by blast
      then have l: "cx_live (cx_buckets u ! p)" using q[OF p(1)] by metis
      then have "cx_buckets u ! p = b" using q[OF p(1)] p(4) by metis
      then show "\<exists>p < cx_number_of_buckets t. cx_live (cx_buckets u ! p) \<and> cx_key (cx_buckets u ! p) = k \<and> cx_buckets u ! p = b"
        using p l by (intro exI[of _ p]) auto
    qed
    also have "\<dots> \<longleftrightarrow> cx_map t k = Some b \<and> fresh_enough now b" unfolding cx_map_def ms(1) using cx_coreD(4)[OF c] by simp
    also have "\<dots> \<longleftrightarrow> cleaned now (cx_map t) k = Some b" unfolding cleaned_def by (cases "cx_map t k") auto
    finally show ?thesis .
  qed
  then have "cx_map u = cleaned now (cx_map t)" by (intro ext) (metis not_None_eq)
  then show thesis using that f oku tx by blast
qed

section \<open>Storing\<close>

lemma places_put:
  assumes "f k = Some b \<and> fs = fragments b \<or> f k = None \<and> fs = replicate 64 None" "length fs = 64" "i < 64" "fragments c = fs[i := Some a]"
  shows "places (f(k \<mapsto> c)) = (places f)((k, i) \<mapsto> a)"
proof (rule ext)
  fix x show "places (f(k \<mapsto> c)) x = ((places f)((k, i) \<mapsto> a)) x"
  proof (cases x)
    case (Pair l j)
    then show ?thesis using assms by (auto simp: places_def nth_list_update)
  qed
qed

lemma cx_ok_place:
  assumes ok: "cx_ok shr B T lost t m" and u: "cx_inv shr u" "places (cx_map u) = (places (cx_map t))(x \<mapsto> a)"
    and a: "a \<notin> blocks m" and l: "\<forall>b \<in> ran (cx_map u). length (fragments b) = 64"
  shows "cx_ok shr B T (lost \<union> set_option (places (cx_map t) x)) u (m\<lparr>blocks := insert a (blocks m), texts := tx, allocs := n\<rparr>)"
proof -
  let ?old = "set_option (places (cx_map t) x)"
  have o: "owns (cx_map t) (blocks m - B - lost)" and s: "B \<subseteq> blocks m" "lost \<subseteq> blocks m - B" using ok by (simp_all add: cx_ok_def)
  have old: "?old \<subseteq> blocks m - B - lost" using o unfolding owns_def by (metis elem_set subsetI)
  have "insert a (blocks m) - B - (lost \<union> ?old) = insert a (blocks m - B - lost - ?old)" using a s old by blast
  moreover have "a \<notin> blocks m - B - lost" using a by blast
  ultimately have "owns (cx_map u) (insert a (blocks m) - B - (lost \<union> ?old))" using owns_place[OF o u(2)] by presburger
  moreover have "lost \<union> ?old \<subseteq> insert a (blocks m) - B" using s old a by blast
  ultimately show ?thesis using ok u(1) l s(1) unfolding cx_ok_def by auto
qed

lemma store_known:
  assumes ok: "cx_ok shr B T lost t m" and k: "good_id k" "cx_map t (cstr k) = Some b" and i: "i < 64" and a: "a \<notin> blocks m"
    and m1_def: "m1 = m\<lparr>blocks := insert a (blocks m), texts := tx\<rparr>"
  obtains u where "InputMessageProcess shr garbage n l0 now k (int i + 1) a t m1 = Some (0, l0, u, m1)"
    "cx_ok shr B T (lost \<union> set_option (places (cx_map t) (cstr k, i))) u m1"
    "cx_map u = (cx_map t)(cstr k \<mapsto> b\<lparr>fragments := (fragments b)[i := Some a]\<rparr>)" "cx_inuse u = cx_inuse t"
proof -
  have inv: "cx_inv shr t" and c: "cx_core shr t" using ok by (simp_all add: cx_ok_def cx_inv_def)
  obtain p where p: "comext_find_element shr t k = Some p" "p < cx_number_of_buckets t"
    "cx_map t (cstr k) = (if cx_live (cx_buckets t ! p) then Some (cx_buckets t ! p) else None)"
    using cx_search[OF inv k(1)] by metis
  have l: "cx_live (cx_buckets t ! p)" "cx_buckets t ! p = b" using p(3) k(2) by (auto split: if_splits)
  have pl: "p < length (cx_buckets t)" using p(2) cx_coreD(4)[OF c] by simp
  have key: "cx_key b = cstr k" using k(2) cx.map_Some[OF cx_coreD(8)[OF c]] by (auto simp: cx_map_def)
  define b' where "b' = b\<lparr>fragments := (fragments b)[i := Some a]\<rparr>"
  have b': "cx_live b'" "cx_key b' = cx_key (cx_buckets t ! p)" "refid b' = refid b" using l by (simp_all add: b'_def)
  define u where "u = t\<lparr>cx_buckets := (cx_buckets t)[p := b']\<rparr>"
  note upd = length_filter_update[OF pl, of _ b']
  have "cx_map u = (cx_map t)(cx_key b' \<mapsto> b')"
    using cx.replace_map[OF cx_coreD(8)[OF c] pl b'(1,2) l(1)] by (simp add: cx_map_def u_def)
  then have mu: "cx_map u = (cx_map t)(cstr k \<mapsto> b')" using b'(2) l(2) key by simp
  have "slots_ok (cx_hashcode shr) cx_emp cx_key (cx_buckets u)" unfolding u_def
    using cx.mark_ok[OF cx_coreD(8)[OF c] pl, of b'] b' l by simp
  moreover have "cx_inuse u = length (filter cx_live (cx_buckets u))" "cx_empty u = length (filter cx_emp (cx_buckets u))"
    using upd[of cx_live] upd[of cx_emp] l(1) b'(1) cx_coreD(5,6)[OF c] by (simp_all add: u_def)
  moreover have "good_id (refid b')" using cx_coreD(7)[OF c p(2)] l b'(3) by simp
  then have "\<forall>x \<in> set (cx_buckets u). \<not> cx_emp x \<longrightarrow> good_id (refid x)"
    using set_update_subset_insert[of "cx_buckets t" p b'] c by (auto simp: cx_core_def u_def)
  ultimately have "cx_inv shr u" using inv cx_coreD(1-4)[OF c] unfolding cx_inv_def cx_core_def by (simp add: u_def)
  have len: "\<forall>x \<in> ran (cx_map t). length (fragments x) = 64" using ok by (simp add: cx_ok_def)
  then have lb: "length (fragments b) = 64" using k(2) by (auto simp: ran_def)
  have "\<forall>x \<in> ran (cx_map u). length (fragments x) = 64" unfolding mu using len lb by (auto simp: ran_def b'_def)
  moreover have "places (cx_map u) = (places (cx_map t))((cstr k, i) \<mapsto> a)"
    unfolding mu by (rule places_put[where b = b]) (use k(2) lb i in \<open>simp_all add: b'_def\<close>)
  ultimately have "cx_ok shr B T (lost \<union> set_option (places (cx_map t) (cstr k, i))) u m1"
    using cx_ok_place[OF ok \<open>cx_inv shr u\<close> _ a, where tx = tx and n = "allocs m"] by (simp add: m1_def)
  moreover have "InputMessageProcess shr garbage n l0 now k (int i + 1) a t m1 = Some (0, l0, u, m1)"
    using p(1) pl l i by (simp add: InputMessageProcess_def comext_retrieve_element_def u_def b'_def)
  ultimately show thesis using that mu by (simp add: b'_def u_def)
qed

lemma new_bucket_sel:
  assumes "good_id k" "i < 64"
  shows "cx_live (new_bucket now k i a)" "cx_key (new_bucket now k i a) = cstr k" "good_id (refid (new_bucket now k i a))"
    "fragments (new_bucket now k i a) = (replicate 64 None)[i := Some a]"
proof -
  have len: "length (cstr k) \<le> 38" using assms(1) by (simp add: good_id_def REFID_SIZE_def strlen_def)
  then have "take 38 (cstr k @ replicate 38 NUL) @ [NUL] = cstr k @ NUL # replicate (38 - length (cstr k)) NUL"
    by (simp add: replicate_append_same)
  then show key: "cx_key (new_bucket now k i a) = cstr k" by (simp add: new_bucket_def)
  then show "good_id (refid (new_bucket now k i a))" using len by (simp add: good_id_def REFID_SIZE_def strlen_def)
qed (simp_all add: new_bucket_def)

text \<open>The block that is about to be put into the table belongs to the caller until then.\<close>

lemma insert_fragment:
  assumes ok: "cx_ok shr (insert a B) T lost t m" and a: "a \<notin> B" and k: "good_id k" "cx_map t (cstr k) = None"
    and i: "i < 64" and small: "cx_inuse t \<le> 499990"
  obtains r u n' where "comext_insert_element shr garbage (Suc (Suc n)) t (new_bucket now k i a) m = Some (r, u, m\<lparr>allocs := n'\<rparr>)"
    "cx_ok shr B T lost u (m\<lparr>allocs := n'\<rparr>)" "cx_map u = (cx_map t)(cstr k \<mapsto> new_bucket now k i a)" "cx_inuse u \<le> Suc (cx_inuse t)"
proof -
  note nb = new_bucket_sel[OF k(1) i, of now a]
  have inv: "cx_inv shr t" and mem: "\<forall>j. \<not> cx_oom m j" using ok by (simp_all add: cx_ok_def)
  obtain r u n' where R: "comext_insert_element shr garbage (Suc (Suc n)) t (new_bucket now k i a) m = Some (r, u, m\<lparr>allocs := n'\<rparr>)" "cx_inv shr u"
      "cx_map u = (if cx_map t (cx_key (new_bucket now k i a)) = None then (cx_map t)(cx_key (new_bucket now k i a) \<mapsto> new_bucket now k i a) else cx_map t)"
      "cx_inuse u \<le> Suc (cx_inuse t)"
    by (rule cx_insert_ok[OF inv mem small nb(1,3)])
  have mu: "cx_map u = (cx_map t)(cstr k \<mapsto> new_bucket now k i a)" using R(3) k(2) by (simp add: nb(2))
  have pl: "places (cx_map u) = (places (cx_map t))((cstr k, i) \<mapsto> a)"
    unfolding mu by (rule places_put) (use k(2) i nb(4) in simp_all)
  have len: "\<forall>x \<in> ran (cx_map u). length (fragments x) = 64" unfolding mu using ok by (auto simp: cx_ok_def ran_def nb(4))
  have none: "places (cx_map t) (cstr k, i) = None" using k(2) by (simp add: places_def)
  have o: "owns (cx_map t) (blocks m - insert a B - lost)" and s: "insert a B \<subseteq> blocks m" "lost \<subseteq> blocks m - insert a B"
    using ok by (simp_all add: cx_ok_def)
  have "owns (cx_map u) (insert a (blocks m - insert a B - lost))" using owns_place[OF o pl] none by simp
  moreover have "insert a (blocks m - insert a B - lost) = blocks m - B - lost" using s a by blast
  ultimately have "cx_ok shr B T lost u (m\<lparr>allocs := n'\<rparr>)" using ok R(2) len s unfolding cx_ok_def by auto
  then show thesis using that R(1,4) mu by blast
qed

lemma store_new:
  assumes ok: "cx_ok shr B T lost t m" and k: "good_id k" "cx_map t (cstr k) = None" and i: "i < 64" and a: "a \<notin> blocks m"
    and small: "cx_inuse t \<le> 499990" and m1_def: "m1 = m\<lparr>blocks := insert a (blocks m), texts := tx\<rparr>"
  obtains r l1 u m2 where "InputMessageProcess shr garbage (Suc (Suc n)) l0 now k (int i + 1) a t m1 = Some (r, l1, u, m2)"
    "cx_ok shr B T lost u m2" "texts m2 = tx" "cx_inuse u \<le> Suc (cx_inuse t)"
    "cx_map u = (if now - l0 > 20 then cleaned now (cx_map t) else cx_map t)(cstr k \<mapsto> new_bucket now k i a)"
proof -
  have inv: "cx_inv shr t" and c: "cx_core shr t" and s: "B \<subseteq> blocks m" "lost \<subseteq> blocks m - B" using ok by (simp_all add: cx_ok_def cx_inv_def)
  have "blocks m1 - insert a B - lost = blocks m - B - lost" using a by (auto simp: m1_def)
  then have ok1: "cx_ok shr (insert a B) T lost t m1" using ok s a unfolding cx_ok_def by (auto simp: m1_def)
  obtain l1 t2 m2 where C: "(if now - l0 > 20 then map_option (\<lambda>(t, m). (now, t, m)) (CleanTimeout now t m1) else Some (l0, t, m1)) = Some (l1, t2, m2)"
      "cx_ok shr (insert a B) T lost t2 m2" "texts m2 = tx" "cx_inuse t2 \<le> cx_inuse t"
      "cx_map t2 = (if now - l0 > 20 then cleaned now (cx_map t) else cx_map t)"
  proof (cases "now - l0 > 20")
    case True
    obtain u mu where "CleanTimeout now t m1 = Some (u, mu)" "cx_ok shr (insert a B) T lost u mu" "cx_map u = cleaned now (cx_map t)"
        "texts mu = texts m1" "cx_inuse u \<le> cx_inuse t" by (rule CleanTimeout_ok[OF ok1])
    then show ?thesis using that[of now u mu] True by (simp add: m1_def)
  next
    case False
    then show ?thesis using that[of l0 t m1] ok1 by (simp add: m1_def)
  qed
  have n2: "cx_map t2 (cstr k) = None" using C(5) k(2) by (simp add: cleaned_def)
  have "a \<notin> B" "cx_inuse t2 \<le> 499990" using a s C(4) small by auto
  then obtain r u n' where I: "comext_insert_element shr garbage (Suc (Suc n)) t2 (new_bucket now k i a) m2 = Some (r, u, m2\<lparr>allocs := n'\<rparr>)"
      "cx_ok shr B T lost u (m2\<lparr>allocs := n'\<rparr>)" "cx_map u = (cx_map t2)(cstr k \<mapsto> new_bucket now k i a)" "cx_inuse u \<le> Suc (cx_inuse t2)"
    using insert_fragment[OF C(2) _ k(1) n2 i] by metis
  obtain p where p: "comext_find_element shr t k = Some p" "comext_retrieve_element t p = Some None"
    using cx_retrieve[OF inv k(1)] k(2) by (auto simp: comext_retrieve_element_by_refid_def bind_eq_Some_conv)
  have "InputMessageProcess shr garbage (Suc (Suc n)) l0 now k (int i + 1) a t m1 = Some (if r < 0 then -1 else 0, l1, u, m2\<lparr>allocs := n'\<rparr>)"
    unfolding InputMessageProcess_def using i by (simp add: p C(1) I(1) del: if_split_asm split del: if_split)
  then show thesis using that I C by auto
qed

section \<open>The table as a machine\<close>

text \<open>
  A message is a new block that holds a text; \<open>pick\<close> is the allocator, which has to return a block that is not in use. The
  last component of the state only records the blocks that a message with the number of an earlier one has pushed out of
  the table.
\<close>

datatype cx_op = Message int int "char list" int string | Remove "char list" | Empty

type_synonym cx_state = "COMEXT_HASHTABLE \<times> cx_mem \<times> addr set"

fun cx_exec :: "(addr set \<Rightarrow> addr) \<Rightarrow> (32 word \<Rightarrow> 32 word) \<Rightarrow> (nat \<Rightarrow> COMEXT_BUCKET) \<Rightarrow> nat \<Rightarrow> cx_op \<Rightarrow> cx_state \<Rightarrow> cx_state option" where
  "cx_exec pick shr garbage n (Message last_clean_time now k sequence s) (t, m, lost) =
     (let a = pick (blocks m) in
      do { (r, last_clean_time, t', m') \<leftarrow> InputMessageProcess shr garbage n last_clean_time now k sequence a t
             (m\<lparr>blocks := insert a (blocks m), texts := (texts m)(a := s)\<rparr>);
           Some (t', m', lost \<union> set_option (places (cx_map t) (cstr k, nat (sequence - 1)))) })"
| "cx_exec pick shr garbage n (Remove k) (t, m, lost) =
     do { (r, t', m') \<leftarrow> comext_delete_element_by_refid shr t k m; Some (t', m', lost) }"
| "cx_exec pick shr garbage n Empty (t, m, lost) = do { (t', m') \<leftarrow> comext_empty_hashtable t m; Some (t', m', lost) }"

fun cx_legal :: "cx_op \<Rightarrow> bool" where
  "cx_legal (Message last_clean_time now k sequence s) = (good_id k \<and> 1 \<le> sequence \<and> sequence \<le> 64)"
| "cx_legal (Remove k) = good_id k"
| "cx_legal Empty = True"

text \<open>What a bucket says: when it was opened, and the texts of its 64 fragments\<close>

type_synonym conversation = "int \<times> string option list"

definition contents :: "cx_mem \<Rightarrow> COMEXT_BUCKET \<Rightarrow> conversation" where
  "contents m = (\<lambda>b. (cx_time b, map (map_option (texts m)) (fragments b)))"

definition cx_view :: "COMEXT_HASHTABLE \<Rightarrow> cx_mem \<Rightarrow> string \<rightharpoonup> conversation" where
  "cx_view t m = (\<lambda>k. map_option (contents m) (cx_map t k))"

text \<open>
  The specification: a message adds a text to its conversation; the first one of a conversation opens it and, when the
  last cleaning is more than 20 seconds ago, ends those that are older than 20 seconds.
\<close>

definition drop_old :: "int \<Rightarrow> (string \<rightharpoonup> conversation) \<Rightarrow> (string \<rightharpoonup> conversation)" where
  "drop_old now f = (\<lambda>k. case f k of None \<Rightarrow> None | Some (time, fs) \<Rightarrow> if now - time \<le> 20 then Some (time, fs) else None)"

fun cx_spec :: "cx_op \<Rightarrow> (string \<rightharpoonup> conversation) \<Rightarrow> (string \<rightharpoonup> conversation)" where
  "cx_spec (Message last_clean_time now k sequence s) f =
     (case f (cstr k) of
        Some (time, fs) \<Rightarrow> f(cstr k \<mapsto> (time, fs[nat (sequence - 1) := Some s]))
      | None \<Rightarrow> (if now - last_clean_time > 20 then drop_old now f else f)
           (cstr k \<mapsto> (now, (replicate 64 None)[nat (sequence - 1) := Some s])))"
| "cx_spec (Remove k) f = f(cstr k := None)"
| "cx_spec Empty f = Map.empty"

lemma contents_fresh:
  assumes "cx_ok shr B T lost t m" "cx_map t k = Some b" "a \<notin> blocks m"
  shows "map (map_option ((texts m)(a := s))) (fragments b) = map (map_option (texts m)) (fragments b)"
proof -
  have "a \<notin> set (frag_addrs b)" using cx_ok_owned(2)[OF assms(1,2)] assms(3) by blast
  then have "Some a \<notin> set (fragments b)" by (simp add: frag_addrs_def set_present)
  then show ?thesis by (auto simp: map_option_case split: option.split)
qed

lemma view_fresh:
  assumes "cx_ok shr B T lost t m" "a \<notin> blocks m"
  shows "map_option (\<lambda>b. (cx_time b, map (map_option ((texts m)(a := s))) (fragments b))) (cx_map t k) = cx_view t m k"
  using contents_fresh[OF assms(1) _ assms(2), of k] by (cases "cx_map t k") (auto simp: cx_view_def contents_def)

lemma view_cleaned: "map_option (contents m) (cleaned now f k) = drop_old now (\<lambda>k. map_option (contents m) (f k)) k"
  by (simp add: cleaned_def drop_old_def contents_def fresh_enough_def split: option.split)

lemma exec_message:
  assumes ok: "cx_ok shr B T lost t m" and k: "good_id k" and i: "i < 64" and small: "cx_inuse t < 499991" and a: "pick (blocks m) \<notin> blocks m"
  obtains u m2 lost2 where "cx_exec pick shr garbage (Suc (Suc n)) (Message l0 now k (int i + 1) s) (t, m, lost) = Some (u, m2, lost2)"
    "cx_ok shr B T lost2 u m2" "cx_view u m2 = cx_spec (Message l0 now k (int i + 1) s) (cx_view t m)" "cx_inuse u \<le> Suc (cx_inuse t)"
proof -
  define a where "a = pick (blocks m)"
  define m1 where "m1 = m\<lparr>blocks := insert a (blocks m), texts := (texts m)(a := s)\<rparr>"
  note va = view_fresh[OF ok a[folded a_def], of s]
  show thesis
  proof (cases "cx_map t (cstr k)")
    case (Some b)
    obtain u where u: "InputMessageProcess shr garbage (Suc (Suc n)) l0 now k (int i + 1) a t m1 = Some (0, l0, u, m1)"
        "cx_ok shr B T (lost \<union> set_option (places (cx_map t) (cstr k, i))) u m1"
        "cx_map u = (cx_map t)(cstr k \<mapsto> b\<lparr>fragments := (fragments b)[i := Some a]\<rparr>)" "cx_inuse u = cx_inuse t"
      by (rule store_known[OF ok k Some i a[folded a_def] m1_def])
    have "cx_view u m1 = (cx_view t m)(cstr k \<mapsto> (cx_time b, (map (map_option (texts m)) (fragments b))[i := Some s]))"
      unfolding cx_view_def[of u] u(3) using va
      by (simp add: fun_eq_iff contents_def m1_def map_update contents_fresh[OF ok Some a[folded a_def], of s] del: map_eq_conv)
    then show ?thesis using that[of u m1] u Some by (simp add: a_def[symmetric] m1_def[symmetric] cx_view_def contents_def)
  next
    case None
    have s: "cx_inuse t \<le> 499990" using small by simp
    obtain r l1 u m2 where u: "InputMessageProcess shr garbage (Suc (Suc n)) l0 now k (int i + 1) a t m1 = Some (r, l1, u, m2)"
        "cx_ok shr B T lost u m2" "texts m2 = (texts m)(a := s)" "cx_inuse u \<le> Suc (cx_inuse t)"
        "cx_map u = (if now - l0 > 20 then cleaned now (cx_map t) else cx_map t)(cstr k \<mapsto> new_bucket now k i a)"
      by (rule store_new[OF ok k None i a[folded a_def] s m1_def])
    have V: "(\<lambda>l. map_option (contents m2) (cx_map t l)) = cx_view t m" unfolding contents_def u(3) by (rule ext) (rule va)
    have "contents m2 (new_bucket now k i a) = (now, (replicate 64 None)[i := Some s])"
      using i by (simp add: contents_def new_bucket_def map_update u(3))
    then have "cx_view u m2 = (if now - l0 > 20 then drop_old now (cx_view t m) else cx_view t m)(cstr k \<mapsto> (now, (replicate 64 None)[i := Some s]))"
      unfolding cx_view_def[of u] u(5) using V view_cleaned[of m2 now "cx_map t"] by (auto simp: fun_eq_iff)
    moreover have "cx_view t m (cstr k) = None" "places (cx_map t) (cstr k, i) = None" using None by (simp_all add: cx_view_def places_def)
    ultimately show ?thesis using that[of u m2 lost] u by (simp add: a_def[symmetric] m1_def[symmetric])
  qed
qed

text \<open>Emptying or destroying a table: the fragments in it are all the blocks it owns.\<close>

lemma distinct_concat_filter:
  assumes "\<And>i. i < length xs \<Longrightarrow> P (xs ! i) \<Longrightarrow> distinct (f (xs ! i))"
    and "\<And>i j. i < j \<Longrightarrow> j < length xs \<Longrightarrow> P (xs ! i) \<Longrightarrow> P (xs ! j) \<Longrightarrow> set (f (xs ! i)) \<inter> set (f (xs ! j)) = {}"
  shows "distinct (concat (map f (filter P xs)))"
  using assms
proof (induction xs)
  case (Cons x xs)
  have "distinct (concat (map f (filter P xs)))"
  proof (rule Cons.IH)
    show "distinct (f (xs ! i))" if "i < length xs" "P (xs ! i)" for i using Cons.prems(1) [of "Suc i"] that by simp
    show "set (f (xs ! i)) \<inter> set (f (xs ! j)) = {}" if "i < j" "j < length xs" "P (xs ! i)" "P (xs ! j)" for i j
      using Cons.prems(2) [of "Suc i" "Suc j"] that by simp
  qed
  moreover have "distinct (f x)" if "P x" using Cons.prems(1) [of 0] that by simp
  moreover have "set (f x) \<inter> set (f y) = {}" if "P x" "P y" "y \<in> set xs" for y
  proof -
    from that(3) obtain j where "j < length xs" "xs ! j = y" by (auto simp: in_set_conv_nth)
    then show ?thesis using Cons.prems(2) [of 0 "Suc j"] that by simp
  qed
  ultimately show ?case by auto
qed simp

lemma owned_frags:
  assumes c: "cx_core shr t" and o: "owns (cx_map t) X"
  shows "distinct (cx_frags t)" "set (cx_frags t) = X"
proof -
  have at: "cx_map t (cx_key (cx_buckets t ! i)) = Some (cx_buckets t ! i)"
    if "i < length (cx_buckets t)" "cx_live (cx_buckets t ! i)" for i
    using that cx.map_Some[OF cx_coreD(8)[OF c]] by (auto simp: cx_map_def)
  have ne: "cx_key (cx_buckets t ! i) \<noteq> cx_key (cx_buckets t ! j)"
    if "i < j" "j < length (cx_buckets t)" "cx_live (cx_buckets t ! i)" "cx_live (cx_buckets t ! j)" for i j
    using that cx.live_unique[OF cx_coreD(8)[OF c], of i j] by auto
  show "distinct (cx_frags t)" unfolding cx_frags_def
  proof (rule distinct_concat_filter)
    show "distinct (frag_addrs (cx_buckets t ! i))" if "i < length (cx_buckets t)" "cx_live (cx_buckets t ! i)" for i
      by (rule owned_bucket(1)[OF o at[OF that]])
    show "set (frag_addrs (cx_buckets t ! i)) \<inter> set (frag_addrs (cx_buckets t ! j)) = {}"
      if h: "i < j" "j < length (cx_buckets t)" "cx_live (cx_buckets t ! i)" "cx_live (cx_buckets t ! j)" for i j
    proof -
      have i: "i < length (cx_buckets t)" using h by simp
      show ?thesis using owned_bucket(3)[OF o at[OF i h(3)]] owned_bucket(3)[OF o at[OF h(2,4)]] ne[OF h] o
        unfolding owns_def disjoint_iff by (metis prod.inject)
    qed
  qed
  have "b \<in> set (cx_buckets t) \<and> cx_live b \<longleftrightarrow> (\<exists>k. cx_map t k = Some b)" for b
    using at cx.map_Some[OF cx_coreD(8)[OF c]] by (fastforce simp: cx_map_def in_set_conv_nth)
  then have "a \<in> set (cx_frags t) \<longleftrightarrow> (\<exists>k b. cx_map t k = Some b \<and> a \<in> set (frag_addrs b))" for a
    by (auto simp: cx_frags_def)
  also have "\<dots> a \<longleftrightarrow> (\<exists>x. places (cx_map t) x = Some a)" for a
    using owned_bucket(3)[OF o] by (auto simp: places_Some frag_addrs_def present_nth)
  also have "\<dots> a \<longleftrightarrow> a \<in> X" for a using o by (simp add: owns_def)
  finally show "set (cx_frags t) = X" by blast
qed

lemma cx_exec_step:
  assumes s: "cx_ok shr B T (snd (snd s)) (fst s) (fst (snd s))" and c: "cx_legal c" and small: "cx_inuse (fst s) < 499991"
    and pick: "\<And>B. finite B \<Longrightarrow> pick B \<notin> B"
  shows "\<exists>s'. cx_exec pick shr garbage (Suc (Suc n)) c s = Some s' \<and> cx_ok shr B T (snd (snd s')) (fst s') (fst (snd s'))
    \<and> cx_view (fst s') (fst (snd s')) = cx_spec c (cx_view (fst s) (fst (snd s))) \<and> cx_inuse (fst s') \<le> Suc (cx_inuse (fst s))"
proof -
  obtain t m lost where st: "s = (t, m, lost)" by (cases s)
  have ok: "cx_ok shr B T lost t m" and sm: "cx_inuse t < 499991" using s small by (simp_all add: st)
  have inv: "cx_inv shr t" "cx_core shr t" and o: "owns (cx_map t) (blocks m - B - lost)" and fin: "finite (blocks m)" using ok by (simp_all add: cx_ok_def cx_inv_def)
  show ?thesis
  proof (cases c)
    case (Message l0 now k sequence w)
    define i where "i = nat (sequence - 1)"
    have i: "good_id k" "i < 64" "sequence = int i + 1" using c by (auto simp: Message i_def)
    obtain u m2 lost2 where "cx_exec pick shr garbage (Suc (Suc n)) (Message l0 now k (int i + 1) w) (t, m, lost) = Some (u, m2, lost2)"
      "cx_ok shr B T lost2 u m2" "cx_view u m2 = cx_spec (Message l0 now k (int i + 1) w) (cx_view t m)" "cx_inuse u \<le> Suc (cx_inuse t)"
      using exec_message[where pick = pick and now = now and s = w and ?l0.0 = l0, OF ok i(1,2) sm pick[OF fin]] by metis
    then show ?thesis unfolding Message st i(3) by (intro exI[of _ "(u, m2, lost2)"]) (simp only: fst_conv snd_conv simp_thms)
  next
    case (Remove k)
    then have k: "good_id k" using c by simp
    show ?thesis
    proof (cases "cx_map t (cstr k)")
      case None
      then show ?thesis using cx_delete_absent[OF inv(1) k None] ok by (simp add: Remove st fun_upd_idem cx_view_def)
    next
      case (Some b)
      have own: "distinct (frag_addrs b)" "set (frag_addrs b) \<subseteq> blocks m" using cx_ok_owned[OF ok Some] by auto
      obtain p u where R: "comext_delete_element_by_refid shr t k m = Some (int p, u, m\<lparr>blocks := blocks m - set (frag_addrs b)\<rparr>)"
        "cx_inv shr u" "cx_map u = (cx_map t)(cstr k := None)" "cx_inuse u \<le> cx_inuse t"
        by (rule cx_delete_ok[OF inv(1) k Some own])
      have "cx_view u (m\<lparr>blocks := blocks m - set (frag_addrs b)\<rparr>) = (cx_view t m)(cstr k := None)"
        by (simp add: cx_view_def R(3) fun_eq_iff contents_def)
      then show ?thesis using R cx_ok_delete[OF ok Some R(2,3)] by (simp add: Remove st)
    qed
  next
    case Empty
    have "set (cx_frags t) \<subseteq> blocks m" using owned_frags(2)[OF inv(2) o] by blast
    then obtain u where R: "comext_empty_hashtable t m = Some (u, m\<lparr>blocks := blocks m - set (cx_frags t)\<rparr>)" "cx_inv shr u"
      "cx_map u = Map.empty" "cx_inuse u = 0"
      using cx_empty_ok[OF inv(2) owned_frags(1)[OF inv(2) o]] by blast
    have "blocks m - set (cx_frags t) = B \<union> lost" using ok owned_frags(2)[OF inv(2) o] unfolding cx_ok_def by blast
    moreover have "owns Map.empty (B \<union> lost - B - lost)" by (auto simp: owns_def places_def)
    ultimately have "cx_ok shr B T lost u (m\<lparr>blocks := blocks m - set (cx_frags t)\<rparr>)"
      using ok R(2,3) finite_subset[OF _ fin, of "B \<union> lost"] unfolding cx_ok_def by auto
    then show ?thesis using R by (simp add: Empty st cx_view_def)
  qed
qed

lemma comext_destroys:
  assumes ok: "cx_ok shr B T lost t m" and T: "0 < T"
  shows "comext_destroy_hashtable t m = Some (m\<lparr>blocks := B \<union> lost, tables := T - 1\<rparr>)"
proof -
  have c: "cx_core shr t" and o: "owns (cx_map t) (blocks m - B - lost)" and s: "B \<subseteq> blocks m" "lost \<subseteq> blocks m - B" "tables m = T"
    using ok by (simp_all add: cx_ok_def cx_inv_def)
  note f = owned_frags[OF c o]
  have "blocks m - set (cx_frags t) = B \<union> lost" "set (cx_frags t) \<subseteq> blocks m" using f(2) s(1,2) by blast+
  then show ?thesis using cx_destroy_ok[OF c f(1), of m] T s(3) by simp
qed

text \<open>The allocator returns a block that is not in use.\<close>

definition fresh_blocks :: "(addr set \<Rightarrow> addr) \<Rightarrow> bool" where
  "fresh_blocks pick \<longleftrightarrow> (\<forall>B. finite B \<longrightarrow> pick B \<notin> B)"

definition cx_state_ok :: "(addr set \<Rightarrow> addr) \<Rightarrow> (32 word \<Rightarrow> 32 word) \<Rightarrow> addr set \<Rightarrow> nat \<Rightarrow> cx_state \<Rightarrow> bool" where
  "cx_state_ok pick shr B T = (\<lambda>(t, m, lost). fresh_blocks pick \<and> cx_ok shr B T lost t m)"

interpretation comext: dict_machine "cx_state_ok pick shr B T" "\<lambda>(t, m, lost). cx_view t m" "\<lambda>(t, m, lost). cx_inuse t" 499991 cx_legal
    "cx_exec pick shr garbage (Suc (Suc n))" cx_spec
proof (unfold_locales, goal_cases)
  case (1 s c)
  then show ?case using cx_exec_step[of shr B T s c pick garbage n] by (auto simp: cx_state_ok_def fresh_blocks_def split_beta)
qed

text \<open>A block is lost exactly when a message comes with a number that its conversation already has.\<close>

fun repeats :: "cx_op \<Rightarrow> (string \<rightharpoonup> conversation) \<Rightarrow> bool" where
  "repeats (Message last_clean_time now k sequence s) f =
     (case f (cstr k) of None \<Rightarrow> False | Some (time, fs) \<Rightarrow> fs ! nat (sequence - 1) \<noteq> None)"
| "repeats (Remove k) f = False"
| "repeats Empty f = False"

fun any_repeats :: "cx_op list \<Rightarrow> (string \<rightharpoonup> conversation) \<Rightarrow> bool" where
  "any_repeats [] f = False"
| "any_repeats (c # cs) f = (repeats c f \<or> any_repeats cs (cx_spec c f))"

lemma exec_lost:
  assumes ok: "cx_ok shr B T lost t m" and c: "cx_legal c" and e: "cx_exec pick shr garbage n c (t, m, lost) = Some (u, m2, lost2)"
  shows "lost2 = {} \<longleftrightarrow> lost = {} \<and> \<not> repeats c (cx_view t m)"
proof (cases c)
  case (Message l0 now k sequence w)
  define i where "i = nat (sequence - 1)"
  have i: "i < 64" using c by (auto simp: Message i_def)
  have "lost2 = lost \<union> set_option (places (cx_map t) (cstr k, i))"
    using e by (auto simp: Message i_def Let_def bind_eq_Some_conv)
  moreover have "length (fragments b) = 64" if "cx_map t (cstr k) = Some b" for b
    using that ok by (auto simp: cx_ok_def ran_def)
  then have "places (cx_map t) (cstr k, i) = None \<longleftrightarrow> \<not> repeats c (cx_view t m)"
    using i by (simp add: Message i_def[symmetric] places_def cx_view_def contents_def split: option.split)
  ultimately show ?thesis by (auto simp: set_empty_eq)
qed (use e in \<open>auto simp: bind_eq_Some_conv\<close>)

lemma run_lost:
  "cx_state_ok pick shr B T (t, m, lost) \<Longrightarrow> list_all cx_legal cs \<Longrightarrow> cx_inuse t + length cs \<le> 499991 \<Longrightarrow>
   foldM (cx_exec pick shr garbage (Suc (Suc n))) cs (t, m, lost) = Some (u, m2, lost2) \<Longrightarrow>
   lost2 = {} \<longleftrightarrow> lost = {} \<and> \<not> any_repeats cs (cx_view t m)"
proof (induction cs arbitrary: t m lost)
  case (Cons c cs)
  have ok: "cx_ok shr B T lost t m" using Cons.prems(1) by (simp add: cx_state_ok_def)
  obtain t1 m1 lost1 where s1: "cx_exec pick shr garbage (Suc (Suc n)) c (t, m, lost) = Some (t1, m1, lost1)"
    "cx_state_ok pick shr B T (t1, m1, lost1)" "cx_view t1 m1 = cx_spec c (cx_view t m)" "cx_inuse t1 \<le> Suc (cx_inuse t)"
    using comext.step[OF Cons.prems(1), of c garbage n] Cons.prems(2,3) by fastforce
  have "lost2 = {} \<longleftrightarrow> lost1 = {} \<and> \<not> any_repeats cs (cx_view t1 m1)"
    using Cons.prems s1 by (intro Cons.IH) auto
  also have "lost1 = {} \<longleftrightarrow> lost = {} \<and> \<not> repeats c (cx_view t m)" using exec_lost[OF ok _ s1(1)] Cons.prems(2) by simp
  finally show ?case using s1(3) by auto
qed simp

end
