(* ===== verification/Comext_Properties.thy ===== *)
theory Comext_Properties
  imports Comext_Messages
begin

text \<open>
  The properties of the table of message fragments, each with a run of the model that meets its
  hypotheses.
\<close>

section \<open>Preparations\<close>

lemma cx_init_ok:
  assumes "0 \<le> c" "c < 2 ^ 30" "\<not> cx_oom m (allocs m)"
  obtains t where
    "comext_initialize_hashtable garbage c m = Some (Some t, m\<lparr>allocs := Suc (allocs m), tables := Suc (tables m)\<rparr>)"
    "cx_inv shr t" "cx_map t = Map.empty" "cx_inuse t = 0"
proof -
  obtain N where N: "bsearch_number_of_buckets c = Some N" "is_prime N" "3 \<le> N" "N \<le> 999983"
    using bsearch_least [OF assms(1,2)] by blast
  then show ?thesis
    using that [of "cx_fresh garbage N"] cx_fresh_inv [OF N(2-4)] assms(3)
    by (simp add: comext_initialize_hashtable_def Let_def)
qed

definition sample_bucket :: "string \<Rightarrow> addr option list \<Rightarrow> COMEXT_BUCKET" where
  "sample_bucket k fs = \<lparr>cx_info = LEGITIMATE, refid = k, cx_time = 0, fragments = fs\<rparr>"

definition sample_mem :: "addr set \<Rightarrow> cx_mem" where
  "sample_mem B = \<lparr>blocks = B, texts = (\<lambda>_. []), tables = 1, allocs = 0, cx_oom = (\<lambda>_. False)\<rparr>"

lemma sample_sel [simp]:
  "cx_info (sample_bucket k fs) = LEGITIMATE" "refid (sample_bucket k fs) = k" "frag_addrs (sample_bucket k fs) = present fs"
  "blocks (sample_mem B) = B" "tables (sample_mem B) = 1" "cx_oom (sample_mem B) = (\<lambda>_. False)"
  by (simp_all add: sample_bucket_def sample_mem_def frag_addrs_def)

text \<open>A table that holds one bucket under the identifier \<^verbatim>\<open>A\<close>.\<close>

lemma sample_table:
  obtains t where "cx_inv (\<lambda>_. 0) t" "cx_map t = [''A'' \<mapsto> sample_bucket ''A'' fs]" "cx_inuse t \<le> 1"
proof -
  let ?b = "sample_bucket ''A'' fs"
  obtain t where t: "cx_inv (\<lambda>_. 0) t" "cx_map t = Map.empty" "cx_inuse t = 0"
    by (rule cx_init_ok [of 0 "sample_mem {}"]) simp_all
  have b: "cx_live ?b" "good_id (refid ?b)" by (simp_all add: good_id_def REFID_SIZE_def strlen_def)
  have mem: "\<forall>i. \<not> cx_oom (sample_mem {}) i" and sm: "cx_inuse t \<le> 499990" using t by simp_all
  obtain r u k where "cx_inv (\<lambda>_. 0) u" "cx_map u = (if cx_map t (cx_key ?b) = None then (cx_map t)(cx_key ?b \<mapsto> ?b) else cx_map t)"
    "cx_inuse u \<le> Suc (cx_inuse t)"
    by (rule cx_insert_ok [OF t(1) mem sm b])
  with t show ?thesis by (intro that [of u]) simp_all
qed

definition next_block :: "addr set \<Rightarrow> addr" where
  "next_block B = (if B = {} then 0 else Suc (Max B))"

lemma next_block_fresh: "fresh_blocks next_block"
proof -
  have "Suc (Max B) \<notin> B" if "finite B" for B :: "addr set" using Max_ge[OF that, of "Suc (Max B)"] by auto
  then show ?thesis by (simp add: fresh_blocks_def next_block_def)
qed

lemma sample_owns: "owns [''A'' \<mapsto> sample_bucket ''A'' [Some 7, None, Some 9]] {7, 9}"
proof -
  have "places [''A'' \<mapsto> sample_bucket ''A'' [Some 7, None, Some 9]] (k, i) = Some a \<longleftrightarrow> k = ''A'' \<and> (i = 0 \<and> a = 7 \<or> i = 2 \<and> a = 9)" for k i a
    by (auto simp: places_def sample_bucket_def less_Suc_eq numeral_3_eq_3 split: if_splits)
  then show ?thesis unfolding owns_def split_paired_All split_paired_Ex by (auto simp del: fun_upd_apply)
qed

section \<open>Properties\<close>

text \<open>
  (C4) The store of message fragments of \<^verbatim>\<open>comext-bancs.c\<close> keeps the conversations that the messages make up. After
  \<^verbatim>\<open>comext_initialize_hashtable\<close>, any sequence of messages stored by \<^verbatim>\<open>InputMessageProcess\<close> (with its \<^verbatim>\<open>CleanTimeout\<close>), of
  \<^verbatim>\<open>comext_delete_element_by_refid\<close> and of \<^verbatim>\<open>comext_empty_hashtable\<close>, through every rehash on the way, runs to the end, and
  \<^verbatim>\<open>comext_retrieve_element_by_refid\<close> then finds for each identifier the texts that the specification says, whatever the
  undefined shift of the hash function yields. No block is freed twice or while it is in use: the blocks are those from
  before, the fragments in the table, and those that a message with a repeated number has pushed out of the table
  (\<open>lost\<close>, empty exactly when no number is repeated). Destroying the table frees it and all its fragments.

  The conditions: identifiers of at most 38 bytes and numbers from 1 to 64 (the code checks neither), no failing
  allocation, at most 499991 commands.
\<close>

theorem comext_refines_map:
  assumes "0 \<le> capacity" "capacity < 2 ^ 30" "\<forall>i. \<not> cx_oom m i" "finite (blocks m)" "fresh_blocks pick"
    and "list_all cx_legal ops" "length ops \<le> 499991"
  shows "\<exists>t0 m0 t' m' lost. comext_initialize_hashtable garbage capacity m = Some (Some t0, m0) \<and>
    foldM (cx_exec pick shr garbage (Suc (Suc n))) ops (t0, m0, {}) = Some (t', m', lost) \<and>
    (\<forall>k. good_id k \<longrightarrow> map_option (map_option (contents m')) (comext_retrieve_element_by_refid shr t' k) =
       Some (fold cx_spec ops Map.empty (cstr k))) \<and>
    blocks m' = blocks m \<union> ran (places (cx_map t')) \<union> lost \<and> blocks m \<inter> ran (places (cx_map t')) = {} \<and>
    lost \<inter> (blocks m \<union> ran (places (cx_map t'))) = {} \<and> (lost = {} \<longleftrightarrow> \<not> any_repeats ops Map.empty) \<and>
    tables m' = Suc (tables m) \<and>
    comext_destroy_hashtable t' m' = Some (m'\<lparr>blocks := blocks m \<union> lost, tables := tables m\<rparr>)"
proof -
  let ?B = "blocks m" and ?T = "Suc (tables m)" and ?m0 = "m\<lparr>allocs := Suc (allocs m), tables := Suc (tables m)\<rparr>"
  obtain t where t: "comext_initialize_hashtable garbage capacity m = Some (Some t, ?m0)"
    "cx_inv shr t" "cx_map t = Map.empty" "cx_inuse t = 0"
    by (rule cx_init_ok [of capacity m]) (use assms in auto)
  have v0: "cx_view t ?m0 = Map.empty" using t(3) by (simp add: cx_view_def)
  have "owns Map.empty {}" by (auto simp: owns_def places_def)
  then have ok0: "cx_state_ok pick shr ?B ?T (t, ?m0, {})" using t assms(3-5) by (simp add: cx_state_ok_def cx_ok_def)
  obtain t' m' lost where R: "foldM (cx_exec pick shr garbage (Suc (Suc n))) ops (t, ?m0, {}) = Some (t', m', lost)"
      "cx_state_ok pick shr ?B ?T (t', m', lost)" "cx_view t' m' = fold cx_spec ops Map.empty"
    using comext.run [OF ok0 assms(6), of garbage n] assms(7) t(4) v0 by fastforce
  have ok: "cx_ok shr ?B ?T lost t' m'" using R(2) by (simp add: cx_state_ok_def)
  then have inv: "cx_inv shr t'" and o: "owns (cx_map t') (blocks m' - ?B - lost)" and s: "?B \<subseteq> blocks m'" "lost \<subseteq> blocks m' - ?B" "tables m' = ?T"
    by (simp_all add: cx_ok_def)
  have ran: "ran (places (cx_map t')) = blocks m' - ?B - lost" using o unfolding owns_def ran_def by blast
  have "\<forall>k. good_id k \<longrightarrow> map_option (map_option (contents m')) (comext_retrieve_element_by_refid shr t' k) = Some (fold cx_spec ops Map.empty (cstr k))"
    using cx_retrieve [OF inv] R(3) by (auto simp: cx_view_def fun_eq_iff)
  moreover have "lost = {} \<longleftrightarrow> \<not> any_repeats ops Map.empty" using run_lost [OF ok0 assms(6) _ R(1)] assms(7) t(4) v0 by simp
  moreover have "comext_destroy_hashtable t' m' = Some (m'\<lparr>blocks := ?B \<union> lost, tables := tables m\<rparr>)" using comext_destroys [OF ok] by simp
  moreover have "blocks m' = ?B \<union> ran (places (cx_map t')) \<union> lost" "?B \<inter> ran (places (cx_map t')) = {}" "lost \<inter> (?B \<union> ran (places (cx_map t'))) = {}"
    unfolding ran using s(1,2) by blast+
  ultimately show ?thesis using t(1) R(1) s(3) by blast
qed

text \<open>
  Two fragments under \<^verbatim>\<open>A\<close> that are too old when \<^verbatim>\<open>B\<close> comes, and a message for \<^verbatim>\<open>B\<close> with the number of the one before.
\<close>

theorem comext_refines_map_witness:
  "\<exists>t0 m0 t' m' lost. comext_initialize_hashtable (\<lambda>_. sample_bucket [] []) 0 (sample_mem {}) = Some (Some t0, m0) \<and>
    foldM (cx_exec next_block (\<lambda>_. 0) (\<lambda>_. sample_bucket [] []) (Suc (Suc 0)))
      [Message 0 5 ''A'' 1 ''one'', Message 0 6 ''A'' 2 ''two'', Message 0 30 ''B'' 1 ''x'', Message 30 31 ''B'' 1 ''y'', Remove ''C'']
      (t0, m0, {}) = Some (t', m', lost) \<and>
    comext_retrieve_element_by_refid (\<lambda>_. 0) t' ''A'' = Some None \<and>
    map_option (map_option (contents m')) (comext_retrieve_element_by_refid (\<lambda>_. 0) t' ''B'') =
      Some (Some (30, (replicate 64 None)[0 := Some ''y''])) \<and>
    lost \<noteq> {} \<and> comext_destroy_hashtable t' m' = Some (m'\<lparr>blocks := lost, tables := 1\<rparr>)"
proof -
  define ops where "ops = [Message 0 5 ''A'' 1 ''one'', Message 0 6 ''A'' 2 ''two'', Message 0 30 ''B'' 1 ''x'', Message 30 31 ''B'' 1 ''y'', Remove ''C'']"
  have g: "good_id ''A''" "good_id ''B''" "good_id ''C''" by (simp_all add: good_id_def REFID_SIZE_def strlen_def)
  have f: "fold cx_spec ops Map.empty = [''B'' \<mapsto> (30, (replicate 64 None)[0 := Some ''y''])]"
    by (simp add: ops_def drop_old_def fun_eq_iff)
  have r: "any_repeats ops Map.empty" by (simp add: ops_def drop_old_def)
  have l: "list_all cx_legal ops" "length ops \<le> 499991" using g by (simp_all add: ops_def)
  have m: "\<forall>i. \<not> cx_oom (sample_mem {}) i" "finite (blocks (sample_mem {}))" by simp_all
  obtain t0 m0 t' m' lost where R: "comext_initialize_hashtable (\<lambda>_. sample_bucket [] []) 0 (sample_mem {}) = Some (Some t0, m0)"
      "foldM (cx_exec next_block (\<lambda>_. 0) (\<lambda>_. sample_bucket [] []) (Suc (Suc 0))) ops (t0, m0, {}) = Some (t', m', lost)"
      "\<forall>k. good_id k \<longrightarrow> map_option (map_option (contents m')) (comext_retrieve_element_by_refid (\<lambda>_. 0) t' k) = Some (fold cx_spec ops Map.empty (cstr k))"
      "lost = {} \<longleftrightarrow> \<not> any_repeats ops Map.empty"
      "comext_destroy_hashtable t' m' = Some (m'\<lparr>blocks := blocks (sample_mem {}) \<union> lost, tables := tables (sample_mem {})\<rparr>)"
    using comext_refines_map [OF _ _ m next_block_fresh l, of 0] by fastforce
  have "comext_retrieve_element_by_refid (\<lambda>_. 0) t' ''A'' = Some None" using R(3) g(1) by (fastforce simp: f)
  moreover have "map_option (map_option (contents m')) (comext_retrieve_element_by_refid (\<lambda>_. 0) t' ''B'') = Some (Some (30, (replicate 64 None)[0 := Some ''y'']))"
    using R(3)[rule_format, OF g(2)] by (simp add: f)
  ultimately show ?thesis using R r unfolding ops_def by auto
qed

text \<open> Deleting a present identifier frees exactly the fragments of its bucket, removes it from the
  table and leaves every other entry; deleting an absent one returns -1 and changes nothing.
\<close>

theorem comext_delete:
  assumes "cx_inv shr t" "good_id k" "owns (cx_map t) X" "X \<subseteq> blocks m"
  shows "case cx_map t (cstr k) of
      None \<Rightarrow> comext_delete_element_by_refid shr t k m = Some (-1, t, m)
    | Some b \<Rightarrow> (\<exists>p u. comext_delete_element_by_refid shr t k m = Some (int p, u, m\<lparr>blocks := blocks m - set (frag_addrs b)\<rparr>) \<and>
        cx_inv shr u \<and> cx_map u = (cx_map t)(cstr k := None))"
proof (cases "cx_map t (cstr k)")
  case None
  then show ?thesis using cx_delete_absent [OF assms(1,2)] by simp
next
  case (Some b)
  then have b: "distinct (frag_addrs b)" "set (frag_addrs b) \<subseteq> blocks m" using owned_bucket(1,2) [OF assms(3)] assms(4) by blast+
  show ?thesis by (rule cx_delete_ok [OF assms(1,2) Some b]) (auto simp: Some)
qed

theorem comext_delete_witness:
  "\<exists>t u p. cx_map t = [''A'' \<mapsto> sample_bucket ''A'' [Some 7, None, Some 9]] \<and>
     comext_delete_element_by_refid (\<lambda>_. 0) t ''A'' (sample_mem {5, 7, 9}) = Some (int p, u, sample_mem {5}) \<and>
     cx_map u = Map.empty"
proof -
  obtain t where t: "cx_inv (\<lambda>_. 0) t" "cx_map t = [''A'' \<mapsto> sample_bucket ''A'' [Some 7, None, Some 9]]"
    by (rule sample_table)
  have o: "owns (cx_map t) {7, 9}" "{7, 9} \<subseteq> blocks (sample_mem {5, 7, 9})" by (simp_all add: t(2) sample_owns del: fun_upd_apply)
  have g: "good_id ''A''" by (simp add: good_id_def REFID_SIZE_def strlen_def)
  have m: "(sample_mem {5, 7, 9})\<lparr>blocks := {5, 7, 9} - {7, 9}\<rparr> = sample_mem {5}" by (auto simp: sample_mem_def)
  have "\<exists>p u. comext_delete_element_by_refid (\<lambda>_. 0) t ''A'' (sample_mem {5, 7, 9}) = Some (int p, u, sample_mem {5}) \<and>
      cx_map u = Map.empty"
    using comext_delete [OF t(1) g o] m by (auto simp: t(2))
  then show ?thesis using t(2) by blast
qed

text \<open> Emptying or destroying a table frees exactly the fragments of the buckets in it; an emptied
  table is well-formed again and holds nothing, and destroying frees the table itself once.
\<close>

theorem comext_empty_destroy:
  assumes "cx_inv shr t" "owns (cx_map t) X" "X \<subseteq> blocks m" "0 < tables m"
  shows "(\<exists>u. comext_empty_hashtable t m = Some (u, m\<lparr>blocks := blocks m - X\<rparr>) \<and>
      cx_inv shr u \<and> cx_map u = Map.empty) \<and>
    comext_destroy_hashtable t m =
      Some (m\<lparr>blocks := blocks m - X, tables := tables m - 1\<rparr>)"
proof -
  have c: "cx_core shr t" using assms(1) by (simp add: cx_inv_def)
  note f = owned_frags [OF c assms(2)]
  obtain u where "comext_empty_hashtable t m = Some (u, m\<lparr>blocks := blocks m - set (cx_frags t)\<rparr>)" "cx_inv shr u"
    "cx_map u = Map.empty" using cx_empty_ok [OF c f(1), of m] f(2) assms(3) by blast
  then show ?thesis using cx_destroy_ok [OF c f(1), of m] assms(3,4) by (simp add: f(2))
qed

theorem comext_empty_destroy_witness:
  "\<exists>t. cx_map t = [''A'' \<mapsto> sample_bucket ''A'' [Some 7, None, Some 9]] \<and>
     comext_destroy_hashtable t (sample_mem {5, 7, 9}) = Some ((sample_mem {5})\<lparr>tables := 0\<rparr>)"
proof -
  obtain t where t: "cx_inv (\<lambda>_. 0) t" "cx_map t = [''A'' \<mapsto> sample_bucket ''A'' [Some 7, None, Some 9]]"
    by (rule sample_table)
  have o: "owns (cx_map t) {7, 9}" "{7, 9} \<subseteq> blocks (sample_mem {5, 7, 9})" by (simp_all add: t(2) sample_owns del: fun_upd_apply)
  have m: "(sample_mem {5, 7, 9})\<lparr>blocks := {5, 7, 9} - {7, 9}, tables := 0\<rparr> = (sample_mem {5})\<lparr>tables := 0\<rparr>"
    by (auto simp: sample_mem_def)
  show ?thesis using comext_empty_destroy [OF t(1) o] m by (intro exI [of _ t]) (auto simp: t(2))
qed

text \<open>
  When a table has no room left and the allocation of the larger one fails,
  \<^verbatim>\<open>comext_insert_element\<close> returns -1 and leaves the table and every block as they were.
\<close>

theorem comext_insert_out_of_memory:
  assumes "cx_inv shr t" "cx_inuse t \<le> 499990" "cx_info b = LEGITIMATE"
    and "cx_empty t - 1 \<le> cx_number_of_buckets t div 2" "cx_oom m (allocs m)"
  shows "comext_insert_element shr garbage (Suc n) t b m = Some (-1, t, m\<lparr>allocs := Suc (allocs m)\<rparr>)"
  by (rule cx_insert_oom [OF assms])

theorem comext_insert_out_of_memory_witness:
  "\<exists>t. cx_empty t = 2 \<and> cx_number_of_buckets t = 3 \<and>
     comext_insert_element (\<lambda>_. 0) (\<lambda>_. sample_bucket [] []) 1 t (sample_bucket ''B'' []) ((sample_mem {})\<lparr>cx_oom := \<lambda>_. True\<rparr>) =
       Some (-1, t, (sample_mem {})\<lparr>cx_oom := \<lambda>_. True, allocs := 1\<rparr>)"
proof -
  let ?b = "sample_bucket ''A'' []" and ?f = "cx_fresh (\<lambda>_. sample_bucket [] []) 3"
  have is_prime_3: "is_prime 3" using bsearch_least [of 0] bsearch_0 by auto
  note f = cx_fresh_inv [OF is_prime_3, where garbage = "\<lambda>_. sample_bucket [] []"]
  obtain p where p: "cx_insert_slot (\<lambda>_. 0) ?f ?b = Some (int p, cx_put ?f ?b p)" "cx_inv (\<lambda>_. 0) (cx_put ?f ?b p)"
      "cx_inuse (cx_put ?f ?b p) = Suc (cx_inuse ?f)" "p < cx_number_of_buckets ?f"
    by (rule cx_insert_slot_absent [of "\<lambda>_. 0" ?f ?b]) (use f in \<open>auto simp: good_id_def REFID_SIZE_def strlen_def\<close>)
  have e: "cx_empty (cx_put ?f ?b p) = 2" "cx_number_of_buckets (cx_put ?f ?b p) = 3" "cx_inuse (cx_put ?f ?b p) = 1"
    using p(3,4) f by (simp_all add: cx_put_def cx_fresh_def)
  show ?thesis
    using comext_insert_out_of_memory [OF p(2), of "sample_bucket ''B'' []" "(sample_mem {})\<lparr>cx_oom := \<lambda>_. True\<rparr>" "\<lambda>_. sample_bucket [] []" 0] e
    by (intro exI [of _ "cx_put ?f ?b p"]) (simp add: sample_mem_def)
qed

end
