(* ===== verification/C_Buffer.thy ===== *)
theory C_Buffer
  imports C_Prelude
begin

text \<open>
  Byte buffers and the functions of \<^verbatim>\<open>string.h\<close> that read and write them. A buffer is the list of
  the bytes from a pointer to the end of the object it points into; a pointer is a buffer or \<^verbatim>\<open>NULL\<close>
  (\<open>None\<close>). Unlike the strings of the prelude a buffer has no terminator of its own: \<^verbatim>\<open>strlen\<close> of a
  buffer without a NUL, and every access past the end, is undefined (\<open>None\<close>).

  The behaviour of \<^verbatim>\<open>malloc\<close> is a parameter: for each size either no block, or a block of that size
  with any contents. Lengths are natural numbers: the sources keep them in an \<^verbatim>\<open>int\<close>, so the model
  is of strings shorter than 2 GB.
\<close>

type_synonym buffer = "char list"
type_synonym pointer = "buffer option"
type_synonym allocator = "nat \<Rightarrow> buffer option"

named_theorems buf \<open>what the buffer operations do on a buffer that holds a string\<close>

section \<open>Operations\<close>

definition buf_strlen :: "buffer \<Rightarrow> nat option" where
  "buf_strlen b = (if NUL \<in> set b then Some (strlen b) else None)"

definition buf_load :: "'a list \<Rightarrow> nat \<Rightarrow> 'a option" where
  "buf_load b i = (if i < length b then Some (b ! i) else None)"

definition buf_store :: "'a list \<Rightarrow> nat \<Rightarrow> 'a \<Rightarrow> 'a list option" where
  "buf_store b i c = (if i < length b then Some (b[i := c]) else None)"

text \<open>\<^verbatim>\<open>memset(b, 0, n)\<close> and \<^verbatim>\<open>memcpy(dst + off, src, n)\<close>\<close>

definition buf_zero :: "buffer \<Rightarrow> nat \<Rightarrow> buffer option" where
  "buf_zero b n = (if n \<le> length b then Some (replicate n NUL @ drop n b) else None)"

definition buf_copy :: "buffer \<Rightarrow> nat \<Rightarrow> buffer \<Rightarrow> nat \<Rightarrow> buffer option" where
  "buf_copy dst off src n =
     (if off + n \<le> length dst \<and> n \<le> length src then Some (take off dst @ take n src @ drop (off + n) dst) else None)"

definition buf_strcpy :: "buffer \<Rightarrow> buffer \<Rightarrow> buffer option" where
  "buf_strcpy dst src = do { n \<leftarrow> buf_strlen src; buf_copy dst 0 src (n + 1) }"

definition buf_strcat :: "buffer \<Rightarrow> buffer \<Rightarrow> buffer option" where
  "buf_strcat dst src = do { m \<leftarrow> buf_strlen dst; n \<leftarrow> buf_strlen src; buf_copy dst m src (n + 1) }"

text \<open>\<^verbatim>\<open>strchr\<close> and \<^verbatim>\<open>strstr\<close>: the inner \<open>None\<close> is \<^verbatim>\<open>NULL\<close>, otherwise the distance of the match.\<close>

definition buf_strchr :: "buffer \<Rightarrow> char \<Rightarrow> nat option option" where
  "buf_strchr b c = do { n \<leftarrow> buf_strlen b; Some (find (\<lambda>i. b ! i = c) [0..<Suc n]) }"

definition buf_strstr :: "buffer \<Rightarrow> buffer \<Rightarrow> nat option option" where
  "buf_strstr hay needle =
     do { n \<leftarrow> buf_strlen hay; m \<leftarrow> buf_strlen needle;
          Some (find (\<lambda>i. take m (drop i (cstr hay)) = cstr needle) [0..<Suc n]) }"

section \<open>Buffers that hold a string\<close>

definition holds :: "buffer \<Rightarrow> string \<Rightarrow> bool" where
  "holds b s \<longleftrightarrow> NUL \<in> set b \<and> cstr b = s"

text \<open>Requests up to \<open>n\<close> bytes are served.\<close>

definition serves :: "allocator \<Rightarrow> nat \<Rightarrow> bool" where
  "serves malloc n \<longleftrightarrow> (\<forall>k \<le> n. \<exists>b. malloc k = Some b \<and> length b = k)"

lemma holdsI [intro]: "NUL \<notin> set s \<Longrightarrow> holds (s @ NUL # r) s"
  by (simp add: holds_def)

lemma split_at_NUL: "NUL \<in> set b \<Longrightarrow> \<exists>r. b = cstr b @ NUL # r"
  by (induction b) auto

lemma holdsE:
  assumes "holds b s"
  obtains r where "b = s @ NUL # r" "NUL \<notin> set s"
  using assms split_at_NUL [of b] cstr_no_NUL [of b] by (auto simp: holds_def)

lemma holds_no_NUL: "holds b s \<Longrightarrow> NUL \<notin> set s"
  by (auto elim: holdsE)

lemma holds_length: "holds b s \<Longrightarrow> length s < length b"
  by (auto elim: holdsE)

lemma holds_unique: "holds b s \<Longrightarrow> holds b t \<Longrightarrow> s = t"
  by (simp add: holds_def)

lemma holds_take: "holds b s \<Longrightarrow> take (length s) b = s" "holds b s \<Longrightarrow> i < length s \<Longrightarrow> b ! i = s ! i"
  by (auto elim!: holdsE simp: nth_append)

lemma holds_drop: "holds b s \<Longrightarrow> i \<le> length s \<Longrightarrow> holds (drop i b) (drop i s)"
  by (erule holdsE) (auto dest: in_set_dropD)

lemma strlen_holds [buf]: "holds b s \<Longrightarrow> buf_strlen b = Some (length s)"
  by (auto simp: buf_strlen_def holds_def strlen_def)

lemma load_holds [buf]: "holds b s \<Longrightarrow> i < length s \<Longrightarrow> buf_load b i = Some (s ! i)"
  using holds_length [of b s] holds_take(2) [of b s i] by (simp add: buf_load_def)

lemma store_at_end:
  assumes "k < length p" "length xs = k"
  shows "buf_store (xs @ drop k p) k c = Some ((xs @ [c]) @ drop (Suc k) p)"
proof -
  have d: "drop k p = p ! k # drop (Suc k) p" by (rule Cons_nth_drop_Suc [symmetric]) (rule assms(1))
  have "(xs @ p ! k # drop (Suc k) p)[k := c] = (xs @ [c]) @ drop (Suc k) p" using assms(2) by auto
  moreover have "k < length (xs @ drop k p)" using assms by simp
  ultimately show ?thesis by (simp only: buf_store_def d if_True)
qed

lemma drop_zeros: "k \<le> n \<Longrightarrow> drop k (replicate (Suc n) NUL) = NUL # replicate (n - k) NUL"
  by (simp add: Suc_diff_le del: replicate_Suc) (simp add: Suc_diff_le)

lemma zero_all [buf]: "length b = n \<Longrightarrow> buf_zero b n = Some (replicate n NUL)"
  by (simp add: buf_zero_def)

lemma strcpy_holds [buf]:
  assumes "holds b s" "length s < length d"
  shows "buf_strcpy d b = Some (s @ NUL # drop (Suc (length s)) d)"
  using assms(1)
proof (rule holdsE)
  fix r assume "b = s @ NUL # r" "NUL \<notin> set s"
  with assms show ?thesis by (simp add: buf_strcpy_def strlen_holds buf_copy_def)
qed

lemma serves_le: "serves malloc n \<Longrightarrow> k \<le> n \<Longrightarrow> serves malloc k"
  by (auto simp: serves_def)

lemma serves_block:
  assumes "serves malloc n" "k \<le> n"
  obtains b where "malloc k = Some b" "length b = k"
  using assms by (auto simp: serves_def)

lemma find_upt_Some:
  "find P [0..<n] = Some i \<longleftrightarrow> i < n \<and> P i \<and> (\<forall>j < i. \<not> P j)"
  by (auto simp: find_Some_iff)

lemma find_upt_None: "find P [0..<n] = None \<longleftrightarrow> (\<forall>i < n. \<not> P i)"
  by (auto simp: find_None_iff)

lemma strchr_None [buf]: "holds b s \<Longrightarrow> c \<noteq> NUL \<Longrightarrow> c \<notin> set s \<Longrightarrow> buf_strchr b c = Some None"
  by (auto elim!: holdsE simp: buf_strchr_def buf_strlen_def strlen_def find_upt_None nth_append less_Suc_eq simp del: upt_Suc)

lemma strchr_Some [buf]:
  assumes "holds b (x @ c # y)" "c \<notin> set x"
  shows "buf_strchr b c = Some (Some (length x))"
proof -
  obtain r where b: "b = (x @ c # y) @ NUL # r" by (rule holdsE [OF assms(1)])
  have "\<forall>j < length x. b ! j \<noteq> c" using assms(2) by (auto simp: b nth_append)
  moreover have "b ! length x = c" by (simp add: b)
  ultimately show ?thesis using strlen_holds [OF assms(1)] by (simp add: buf_strchr_def find_upt_Some del: upt_Suc)
qed

end
