(* ===== verification/Lib_String.thy ===== *)
theory Lib_String
  imports C_Buffer
begin

text \<open>
  The string library, \<^verbatim>\<open>Lib_String/lib_string.c\<close>, in the order of the source. A pointer argument is a
  \<open>pointer\<close>: \<open>None\<close> is \<^verbatim>\<open>NULL\<close>, otherwise the buffer it points to. A function that writes through a
  pointer returns the buffer as it leaves it; the boolean is whether the pointer it returns is not
  \<^verbatim>\<open>NULL\<close>. \<open>malloc\<close> is the allocator; the code does not check for \<^verbatim>\<open>NULL\<close> except in \<open>AddStr_Malloc\<close>
  and \<open>AddStr_Realloc\<close>, so elsewhere a failing allocation is undefined.
\<close>

section \<open>Growing strings\<close>

text \<open>The outer \<open>None\<close> is undefined behaviour, the inner one the \<^verbatim>\<open>NULL\<close> that is returned.\<close>

definition AddStr_Malloc :: "allocator \<Rightarrow> buffer \<Rightarrow> pointer option" where
  "AddStr_Malloc malloc sAdd_String =
     do { iLength_AddStr \<leftarrow> buf_strlen sAdd_String;
          case malloc (iLength_AddStr + 1) of
            None \<Rightarrow> Some None
          | Some p \<Rightarrow> do { p \<leftarrow> buf_zero p (iLength_AddStr + 1);
                          p \<leftarrow> buf_strcat p sAdd_String;
                          Some (Some p) } }"

text \<open>
  \<open>realloc\<close> gives the block of the new size whose beginning is the old contents, and whether it is at
  another address. The code appends through the old pointer, which is dangling if it is.
\<close>

definition AddStr_Realloc :: "(buffer \<Rightarrow> nat \<Rightarrow> (bool \<times> buffer) option) \<Rightarrow> buffer \<Rightarrow> buffer \<Rightarrow> pointer option" where
  "AddStr_Realloc realloc pSrc_Mem sAdd_String =
     do { iLength_AddStr \<leftarrow> buf_strlen sAdd_String;
          n \<leftarrow> buf_strlen pSrc_Mem;
          case realloc pSrc_Mem (n + iLength_AddStr + 1) of
            None \<Rightarrow> Some None
          | Some (moved, p) \<Rightarrow> if moved then None else do { p \<leftarrow> buf_strcat p sAdd_String; Some (Some p) } }"

section \<open>Counting\<close>

text \<open>
  The loop of \<^verbatim>\<open>Count_ChildStr_Num\<close>: \<open>rest\<close> is \<^verbatim>\<open>pPoint_Addr\<close>, where the next search starts. There is
  no way out of the loop but the \<^verbatim>\<open>return -1\<close>.
\<close>

partial_function (option) count_loop :: "buffer \<Rightarrow> buffer \<Rightarrow> int option" where
  "count_loop rest sChild_String =
     do { r \<leftarrow> buf_strstr rest sChild_String;
          case r of
            Some i \<Rightarrow> do { n \<leftarrow> buf_strlen sChild_String; count_loop (drop (i + n) rest) sChild_String }
          | None \<Rightarrow> Some (-1) }"

definition Count_ChildStr_Num :: "buffer \<Rightarrow> buffer \<Rightarrow> int option" where
  "Count_ChildStr_Num sSrc_String sChild_String = count_loop sSrc_String sChild_String"

definition Char_To_Str :: "char \<Rightarrow> pointer \<Rightarrow> (bool \<times> pointer) option" where
  "Char_To_Str cSrc_Char sDst_String =
     (case sDst_String of
        None \<Rightarrow> Some (False, None)
      | Some d \<Rightarrow> do { d \<leftarrow> buf_store d 0 cSrc_Char; d \<leftarrow> buf_store d 1 NUL; Some (True, Some d) })"

definition Count_Char_Num :: "buffer \<Rightarrow> char \<Rightarrow> int option" where
  "Count_Char_Num sSrc_String sChild_Char =
     do { (ok, s_point) \<leftarrow> Char_To_Str sChild_Char (Some [NUL, NUL]);
          if \<not> ok then Some (-1)
          else do { s \<leftarrow> s_point; Count_ChildStr_Num sSrc_String s } }"

text \<open>\<^verbatim>\<open>sDst_Char\<close> is passed by value, so the assignment to it has no effect.\<close>

definition Str_To_Char :: "pointer \<Rightarrow> char \<Rightarrow> bool option" where
  "Str_To_Char sSrc_String sDst_Char =
     (case sSrc_String of
        None \<Rightarrow> Some False
      | Some s \<Rightarrow> do { n \<leftarrow> buf_strlen s; Some (n \<noteq> 0) })"

section \<open>Reversing\<close>

definition Dx_String :: "allocator \<Rightarrow> pointer \<Rightarrow> pointer \<Rightarrow> (bool \<times> pointer) option" where
  "Dx_String malloc sSrc_string sDst_string =
     (case (sSrc_string, sDst_string) of
        (Some s, Some d) \<Rightarrow>
          do { iLength \<leftarrow> buf_strlen s;
               p \<leftarrow> malloc (iLength + 1);
               p \<leftarrow> buf_zero p (iLength + 1);
               p \<leftarrow> foldM (\<lambda>i p. do { c \<leftarrow> buf_load s (iLength - i - 1); buf_store p i c }) [0..<iLength] p;
               d \<leftarrow> buf_strcpy d p;
               Some (True, Some d) }
      | _ \<Rightarrow> Some (False, sDst_string))"

definition Dx_String_Yzfc :: "allocator \<Rightarrow> pointer \<Rightarrow> (bool \<times> pointer) option" where
  "Dx_String_Yzfc malloc sSrc_string =
     (case sSrc_string of
        None \<Rightarrow> Some (False, None)
      | Some s \<Rightarrow>
          do { iLength_Str \<leftarrow> buf_strlen s;
               p \<leftarrow> malloc (iLength_Str + 1);
               p \<leftarrow> buf_zero p (iLength_Str + 1);
               (ok, q) \<leftarrow> Dx_String malloc (Some s) (Some p);
               if \<not> ok then Some (False, Some s)
               else do { p \<leftarrow> q;
                         n \<leftarrow> buf_strlen s;
                         s \<leftarrow> buf_zero s n;
                         s \<leftarrow> buf_strcpy s p;
                         Some (True, Some s) } })"

section \<open>Deleting a character\<close>

definition Del_Char :: "allocator \<Rightarrow> pointer \<Rightarrow> char \<Rightarrow> (bool \<times> pointer) option" where
  "Del_Char malloc sSrc_String cChar =
     (case sSrc_String of
        None \<Rightarrow> Some (False, None)
      | Some s \<Rightarrow>
          do { iLength_Str \<leftarrow> buf_strlen s;
               p \<leftarrow> malloc (iLength_Str + 1);
               p \<leftarrow> buf_zero p (iLength_Str + 1);
               (iCount, p) \<leftarrow> foldM (\<lambda>i (iCount, p). do {
                     c \<leftarrow> buf_load s i;
                     if cChar = c then Some (iCount, p)
                     else do { p \<leftarrow> buf_store p iCount c; Some (iCount + 1, p) } })
                   [0..<iLength_Str] (0, p);
               s \<leftarrow> buf_zero s iLength_Str;
               s \<leftarrow> buf_strcpy s p;
               Some (True, Some s) })"

definition Del_Char_CopyToDst :: "allocator \<Rightarrow> pointer \<Rightarrow> pointer \<Rightarrow> char \<Rightarrow> (bool \<times> pointer) option" where
  "Del_Char_CopyToDst malloc sSrc_string sDst_string sCh =
     (case (sSrc_string, sDst_string) of
        (Some s, Some d) \<Rightarrow>
          do { iLength \<leftarrow> buf_strlen s;
               p \<leftarrow> malloc (iLength + 1);
               p \<leftarrow> buf_zero p (iLength + 1);
               p \<leftarrow> buf_strcpy p s;
               (ok, q) \<leftarrow> Del_Char malloc (Some p) sCh;
               if \<not> ok then Some (False, Some d)
               else do { p \<leftarrow> q; d \<leftarrow> buf_strcpy d p; Some (True, Some d) } }
      | _ \<Rightarrow> Some (False, sDst_string))"

definition Del_Char_Hh :: "allocator \<Rightarrow> pointer \<Rightarrow> (bool \<times> pointer) option" where
  "Del_Char_Hh malloc sSrc_string = Del_Char malloc sSrc_string (CHR 0x0A)"

section \<open>Replacing\<close>

text \<open>
  The search loop of \<^verbatim>\<open>Replace_Str_To_Str_OrderByCount\<close> always searches from the start of the string;
  \<open>n\<close> is \<^verbatim>\<open>iCount_While\<close>, whose increment overflows at the largest \<^verbatim>\<open>int\<close>. The inner \<open>None\<close> is the
  \<^verbatim>\<open>return NULL\<close>.
\<close>

partial_function (option) replace_loop :: "buffer \<Rightarrow> buffer \<Rightarrow> int \<Rightarrow> int \<Rightarrow> nat option option" where
  "replace_loop sSrc_string sTh_Src_String iOrderCount n =
     do { r \<leftarrow> buf_strstr sSrc_string sTh_Src_String;
          case r of
            None \<Rightarrow> Some None
          | Some i \<Rightarrow> if 2 ^ 31 - 1 \<le> n then None
                     else if n + 1 = iOrderCount then Some (Some i)
                     else replace_loop sSrc_string sTh_Src_String iOrderCount (n + 1) }"

definition Replace_Str_To_Str_OrderByCount ::
    "allocator \<Rightarrow> pointer \<Rightarrow> pointer \<Rightarrow> pointer \<Rightarrow> pointer \<Rightarrow> int \<Rightarrow> (bool \<times> pointer) option" where
  "Replace_Str_To_Str_OrderByCount malloc sSrc_string sDst_string sTh_Src_String sTh_Dst_String iOrderCount =
     (case (sSrc_string, sDst_string, sTh_Src_String, sTh_Dst_String) of
        (Some s, Some d, Some a, Some b) \<Rightarrow>
          do { iCount_Pp \<leftarrow> Count_ChildStr_Num s a;
               if iCount_Pp < iOrderCount then Some (False, sDst_string)
               else do {
                 f \<leftarrow> replace_loop s a iOrderCount 0;
                 case f of
                   None \<Rightarrow> Some (False, sDst_string)
                 | Some tb \<Rightarrow> do {
                     zj \<leftarrow> buf_strlen b;
                     n \<leftarrow> buf_strlen s;
                     m \<leftarrow> buf_strlen a;
                     let wb = n - m - tb;
                     p \<leftarrow> malloc (tb + zj + wb);
                     p \<leftarrow> buf_copy p 0 s tb;
                     p \<leftarrow> buf_copy p tb b zj;
                     p \<leftarrow> buf_copy p (tb + zj) (drop (tb + m) s) wb;
                     d \<leftarrow> buf_copy d 0 p (tb + zj + wb);
                     Some (True, Some d) } } }
      | _ \<Rightarrow> Some (False, sDst_string))"

definition Replace_Str_To_Str_First ::
    "allocator \<Rightarrow> pointer \<Rightarrow> pointer \<Rightarrow> pointer \<Rightarrow> pointer \<Rightarrow> (bool \<times> pointer) option" where
  "Replace_Str_To_Str_First malloc sSrc_string sDst_string sTh_Src_String sTh_Dst_String =
     Replace_Str_To_Str_OrderByCount malloc sSrc_string sDst_string sTh_Src_String sTh_Dst_String 1"

section \<open>Trimming\<close>

text \<open>
  The loop of \<^verbatim>\<open>Trim_Before\<close>: \<open>rest\<close> is \<^verbatim>\<open>sString + iCount\<close>, \<open>n\<close> is \<^verbatim>\<open>iLength\<close>, \<open>flag\<close> is
  \<^verbatim>\<open>iFlag_Yd\<close> and \<open>p\<close> the block that receives the rest of the string at every space.
\<close>

fun trim_loop :: "nat \<Rightarrow> bool \<Rightarrow> buffer \<Rightarrow> buffer \<Rightarrow> (bool \<times> buffer) option" where
  "trim_loop n flag p [] = None"
| "trim_loop n flag p (c # rest) =
     (if CHR '' '' \<noteq> c then Some (flag, p)
      else do { p \<leftarrow> buf_zero p (n + 1); p \<leftarrow> buf_strcpy p rest; trim_loop n True p rest })"

definition Trim_Before :: "allocator \<Rightarrow> pointer \<Rightarrow> buffer option" where
  "Trim_Before malloc sString =
     do { s \<leftarrow> sString;
          iLength \<leftarrow> buf_strlen s;
          p \<leftarrow> malloc (iLength + 1);
          p \<leftarrow> buf_zero p (iLength + 1);
          (iFlag_Yd, p) \<leftarrow> trim_loop iLength False p s;
          if iFlag_Yd then do { s \<leftarrow> buf_zero s iLength; buf_strcpy s p } else Some s }"

definition Trim_Behind :: "allocator \<Rightarrow> pointer \<Rightarrow> (bool \<times> pointer) option" where
  "Trim_Behind malloc sString =
     do { (ok, s) \<leftarrow> Dx_String_Yzfc malloc sString;
          if \<not> ok then Some (False, s)
          else do { s \<leftarrow> Trim_Before malloc s;
                    (ok, s) \<leftarrow> Dx_String_Yzfc malloc (Some s);
                    Some (ok, s) } }"

definition Trim :: "allocator \<Rightarrow> pointer \<Rightarrow> pointer option" where
  "Trim malloc sString =
     do { s \<leftarrow> Trim_Before malloc sString;
          (ok, s) \<leftarrow> Trim_Behind malloc (Some s);
          Some s }"

text \<open>\<^verbatim>\<open>Trim_Kg_Hh\<close> has no \<^verbatim>\<open>return\<close> at its end: the pointer it returns is then unspecified (\<open>None\<close>).\<close>

definition Trim_Kg_Hh :: "allocator \<Rightarrow> pointer \<Rightarrow> (bool option \<times> pointer) option" where
  "Trim_Kg_Hh malloc sString =
     (case sString of
        None \<Rightarrow> Some (Some False, None)
      | Some s \<Rightarrow>
          do { (ok, s) \<leftarrow> Del_Char_Hh malloc (Some s);
               if \<not> ok then Some (Some False, s)
               else do { s \<leftarrow> Trim malloc s; Some (None, s) } })"

section \<open>The parts of a string around a character\<close>

definition Get_String_Behind_Char :: "pointer \<Rightarrow> char \<Rightarrow> pointer \<Rightarrow> (bool \<times> pointer) option" where
  "Get_String_Behind_Char sSrc_string cChar sDst_string =
     (case sSrc_string of
        None \<Rightarrow> Some (False, sDst_string)
      | Some s \<Rightarrow>
          do { r \<leftarrow> buf_strchr s cChar;
               case r of
                 None \<Rightarrow> Some (False, sDst_string)
               | Some i \<Rightarrow> do { d \<leftarrow> sDst_string; d \<leftarrow> buf_strcpy d (drop (i + 1) s); Some (True, Some d) } })"

definition Get_String_Before_Char :: "pointer \<Rightarrow> char \<Rightarrow> pointer \<Rightarrow> (bool \<times> pointer) option" where
  "Get_String_Before_Char sSrc_string cChar sDst_string =
     (case sSrc_string of
        None \<Rightarrow> Some (False, sDst_string)
      | Some s \<Rightarrow>
          do { r \<leftarrow> buf_strchr s cChar;
               case r of
                 None \<Rightarrow> Some (False, sDst_string)
               | Some iLength_Copy \<Rightarrow> do {
                   d \<leftarrow> sDst_string;
                   d \<leftarrow> buf_copy d 0 s iLength_Copy;
                   d \<leftarrow> buf_store d iLength_Copy NUL;
                   Some (True, Some d) } })"

definition Get_String_Behind_Dh :: "pointer \<Rightarrow> pointer \<Rightarrow> (bool \<times> pointer) option" where
  "Get_String_Behind_Dh src_string dst_string = Get_String_Behind_Char src_string (CHR ''='') dst_string"

definition Get_String_Before_Dh :: "pointer \<Rightarrow> pointer \<Rightarrow> (bool \<times> pointer) option" where
  "Get_String_Before_Dh src_string dst_string = Get_String_Before_Char src_string (CHR ''='') dst_string"

definition Get_String_Behind_Dh_QdKgHh :: "allocator \<Rightarrow> pointer \<Rightarrow> pointer \<Rightarrow> (bool \<times> pointer) option" where
  "Get_String_Behind_Dh_QdKgHh malloc sSrc_String sDst_String =
     do { (ok, d) \<leftarrow> Get_String_Behind_Char sSrc_String (CHR ''='') sDst_String;
          if \<not> ok then Some (False, d)
          else do { (ok, d) \<leftarrow> Del_Char_Hh malloc d;
                    if \<not> ok then Some (False, d)
                    else do { d \<leftarrow> Trim malloc d; Some (True, d) } } }"

definition Get_String_Before_Dh_QdKgHh :: "allocator \<Rightarrow> pointer \<Rightarrow> pointer \<Rightarrow> (bool \<times> pointer) option" where
  "Get_String_Before_Dh_QdKgHh malloc sSrc_String sDst_String =
     do { (ok, d) \<leftarrow> Get_String_Before_Char sSrc_String (CHR ''='') sDst_String;
          if \<not> ok then Some (False, d)
          else do { (ok, d) \<leftarrow> Del_Char_Hh malloc d;
                    if \<not> ok then Some (False, d)
                    else do { d \<leftarrow> Trim malloc d; Some (True, d) } } }"

definition Get_String_Behind_Dh_QdKg :: "allocator \<Rightarrow> pointer \<Rightarrow> pointer \<Rightarrow> (bool \<times> pointer) option" where
  "Get_String_Behind_Dh_QdKg malloc sSrc_String sDst_String =
     do { (ok, d) \<leftarrow> Get_String_Behind_Char sSrc_String (CHR ''='') sDst_String;
          if \<not> ok then Some (False, d) else do { d \<leftarrow> Trim malloc d; Some (True, d) } }"

definition Get_String_Before_Dh_QdKg :: "allocator \<Rightarrow> pointer \<Rightarrow> pointer \<Rightarrow> (bool \<times> pointer) option" where
  "Get_String_Before_Dh_QdKg malloc sSrc_String sDst_String =
     do { (ok, d) \<leftarrow> Get_String_Before_Char sSrc_String (CHR ''='') sDst_String;
          if \<not> ok then Some (False, d) else do { d \<leftarrow> Trim malloc d; Some (True, d) } }"

definition Get_KeyValue_Dh_QdKg :: "allocator \<Rightarrow> pointer \<Rightarrow> pointer \<Rightarrow> pointer \<Rightarrow> (bool \<times> pointer \<times> pointer) option" where
  "Get_KeyValue_Dh_QdKg malloc sSrc_String sDst_KeyString sDst_ValueString =
     (if sSrc_String = None \<or> sDst_KeyString = None \<or> sDst_ValueString = None
      then Some (False, sDst_KeyString, sDst_ValueString)
      else do { (ok, v) \<leftarrow> Get_String_Behind_Dh_QdKg malloc sSrc_String sDst_ValueString;
                if \<not> ok then Some (False, sDst_KeyString, v)
                else do { (ok, k) \<leftarrow> Get_String_Before_Dh_QdKg malloc sSrc_String sDst_KeyString;
                          Some (ok, k, v) } })"

definition Get_String_Between_Zkh :: "allocator \<Rightarrow> pointer \<Rightarrow> pointer \<Rightarrow> (bool \<times> pointer) option" where
  "Get_String_Between_Zkh malloc sSrc_String sDst_String =
     (case (sSrc_String, sDst_String) of
        (Some s, Some d) \<Rightarrow>
          do { n \<leftarrow> buf_strlen s;
               p \<leftarrow> malloc (n + 1);
               p \<leftarrow> buf_zero p (n + 1);
               (ok, q) \<leftarrow> Get_String_Behind_Char (Some s) (CHR ''['') (Some p);
               if \<not> ok then Some (False, sDst_String)
               else Get_String_Before_Char q (CHR '']'') (Some d) }
      | _ \<Rightarrow> Some (False, sDst_String))"

section \<open>Classification\<close>

fun digit_loop :: "buffer \<Rightarrow> nat \<Rightarrow> nat \<Rightarrow> nat list \<Rightarrow> int option" where
  "digit_loop s iLength_Str iCount [] = Some 1"
| "digit_loop s iLength_Str iCount (i # is) =
     do { c \<leftarrow> buf_load s i;
          if 48 \<le> schar c \<and> schar c \<le> 57 then digit_loop s iLength_Str iCount is
          else if schar c = 46 then
            (if 2 \<le> iCount + 1 \<or> i = 0 \<or> iLength_Str = i + 1 then Some 0
             else digit_loop s iLength_Str (iCount + 1) is)
          else Some 0 }"

definition Is_Digit_ByString :: "buffer \<Rightarrow> int option" where
  "Is_Digit_ByString sDigit_Str =
     do { n \<leftarrow> buf_strlen sDigit_Str; digit_loop sDigit_Str n 0 [0..<n] }"

definition Is_Digit_ByChar :: "char \<Rightarrow> int option" where
  "Is_Digit_ByChar sDigit_Str =
     do { (ok, p) \<leftarrow> Char_To_Str sDigit_Str (Some [NUL, NUL]); s \<leftarrow> p; Is_Digit_ByString s }"

text \<open>
  \<^verbatim>\<open>Is_EnglishChar_ByString\<close> counts in two variables that it does not initialise: \<open>xx\<close> and \<open>dx\<close> start
  with whatever they hold. An increment of the largest \<^verbatim>\<open>int\<close> is undefined.
\<close>

fun letter_loop :: "buffer \<Rightarrow> int \<Rightarrow> int \<Rightarrow> nat list \<Rightarrow> (int \<times> int) option option" where
  "letter_loop s xx dx [] = Some (Some (xx, dx))"
| "letter_loop s xx dx (i # is) =
     do { c \<leftarrow> buf_load s i;
          if 65 \<le> schar c \<and> schar c \<le> 90 then (if 2 ^ 31 - 1 \<le> dx then None else letter_loop s xx (dx + 1) is)
          else if 97 \<le> schar c \<and> schar c \<le> 122 then (if 2 ^ 31 - 1 \<le> xx then None else letter_loop s (xx + 1) dx is)
          else Some None }"

definition Is_EnglishChar_ByString :: "int \<Rightarrow> int \<Rightarrow> buffer \<Rightarrow> int option" where
  "Is_EnglishChar_ByString iIs_Xx iIs_Dx sEnglishChar_Str =
     do { n \<leftarrow> buf_strlen sEnglishChar_Str;
          r \<leftarrow> letter_loop sEnglishChar_Str iIs_Xx iIs_Dx [0..<n];
          case r of
            None \<Rightarrow> Some 0
          | Some (xx, dx) \<Rightarrow>
              Some (if xx \<noteq> 0 \<and> dx = 0 then 1 else if xx = 0 \<and> dx \<noteq> 0 then 2 else if xx \<noteq> 0 \<and> dx \<noteq> 0 then 3 else 0) }"

definition Is_EnglishChar_ByChar :: "int \<Rightarrow> int \<Rightarrow> char \<Rightarrow> int option" where
  "Is_EnglishChar_ByChar iIs_Xx iIs_Dx sEnglishChar_Str =
     do { (ok, p) \<leftarrow> Char_To_Str sEnglishChar_Str (Some [NUL, NUL]); s \<leftarrow> p; Is_EnglishChar_ByString iIs_Xx iIs_Dx s }"

text \<open>
  \<^verbatim>\<open>Is_EnglishChar_Digit_ByString\<close> compares \<open>iRet\<close>, which it has set to 0, with the result of
  \<^verbatim>\<open>Is_EnglishChar_ByChar\<close> where an assignment was meant. \<open>d\<close> and \<open>e1\<close>, \<open>e2\<close>, \<open>e3\<close> are
  \<^verbatim>\<open>iCount_Digit\<close> and \<^verbatim>\<open>iCount_EnglishChar1\<close> to \<^verbatim>\<open>3\<close>; \<open>junk\<close> gives the indeterminate counters of the
  \<open>i\<close>-th call. The inner \<open>None\<close> is the \<^verbatim>\<open>return 0\<close> in the loop.
\<close>

fun mixed_loop :: "(nat \<Rightarrow> int \<times> int) \<Rightarrow> buffer \<Rightarrow> int \<Rightarrow> nat \<times> nat \<times> nat \<times> nat \<Rightarrow> nat list \<Rightarrow>
    (nat \<times> nat \<times> nat \<times> nat) option option" where
  "mixed_loop junk s iRet n [] = Some (Some n)"
| "mixed_loop junk s iRet (d, e1, e2, e3) (i # is) =
     do { c \<leftarrow> buf_load s i;
          r \<leftarrow> Is_Digit_ByChar c;
          if r \<noteq> 0 then mixed_loop junk s iRet (d + 1, e1, e2, e3) is
          else do { r \<leftarrow> Is_EnglishChar_ByChar (fst (junk i)) (snd (junk i)) c;
                    if iRet = r then
                      (if 1 = iRet then mixed_loop junk s iRet (d, e1 + 1, e2, e3) is
                       else if 2 = iRet then mixed_loop junk s iRet (d, e1, e2 + 1, e3) is
                       else if 3 = iRet then mixed_loop junk s iRet (d, e1, e2, e3 + 1) is
                       else mixed_loop junk s iRet (d, e1, e2, e3) is)
                    else Some None } }"

definition Is_EnglishChar_Digit_ByString :: "(nat \<Rightarrow> int \<times> int) \<Rightarrow> buffer \<Rightarrow> int option" where
  "Is_EnglishChar_Digit_ByString junk sSrc_Str =
     do { iLength_Str \<leftarrow> buf_strlen sSrc_Str;
          r \<leftarrow> mixed_loop junk sSrc_Str 0 (0, 0, 0, 0) [0..<iLength_Str];
          case r of
            None \<Rightarrow> Some 0
          | Some (d, e1, e2, e3) \<Rightarrow>
              Some (if iLength_Str = d then 1
                    else if iLength_Str = e1 then 2
                    else if iLength_Str = e2 then 3
                    else if iLength_Str = e3 then 4
                    else 5) }"

definition OutFlag_Kh :: "char \<Rightarrow> int" where
  "OutFlag_Kh c =
     (if c = CHR ''['' \<or> c = CHR '']'' then 1
      else if c = CHR ''{'' \<or> c = CHR ''}'' then 2
      else if c = CHR ''('' \<or> c = CHR '')'' then 3
      else -1)"

end
