(* ===== verification/Lib_String_Correct.thy ===== *)
theory Lib_String_Correct
  imports Lib_String
begin

text \<open>
  What the functions of the string library do to the strings in their buffers: reversal, removal of a
  character, trimming, and the parts around a separator, each as a function on lists, with the bytes
  of the buffer that are left alone.
\<close>

section \<open>Editing a buffer in place\<close>

text \<open>
  \<open>edited b b' t\<close>: the buffer \<open>b\<close> has become \<open>b'\<close>, which holds \<open>t\<close>; nothing behind the old terminator
  has changed.
\<close>

definition edited :: "buffer \<Rightarrow> buffer \<Rightarrow> string \<Rightarrow> bool" where
  "edited b b' t \<longleftrightarrow> holds b' t \<and> length b' = length b \<and> drop (Suc (strlen b)) b' = drop (Suc (strlen b)) b"

lemma editedD [dest]: "edited b b' t \<Longrightarrow> holds b' t" "edited b b' t \<Longrightarrow> length b' = length b"
  by (simp_all add: edited_def)

lemma edited_refl: "holds b s \<Longrightarrow> edited b b s"
  by (simp add: edited_def)

lemma holds_strlen: "holds b s \<Longrightarrow> strlen b = length s"
  by (simp add: holds_def strlen_def)

lemma edited_trans:
  assumes "edited b b1 t" "edited b1 b2 u" "length t \<le> strlen b"
  shows "edited b b2 u"
proof -
  have "strlen b1 = length t" using assms(1) by (auto simp: holds_strlen)
  then have "drop (Suc (strlen b)) b2 = drop (Suc (strlen b)) b1"
    using assms(2,3) unfolding edited_def by (metis Suc_le_mono drop_drop le_add_diff_inverse2)
  with assms show ?thesis by (simp add: edited_def)
qed

text \<open>The end of every function that edits in place: clear the old string, copy the new one.\<close>

lemma clear_and_copy:
  assumes "holds b s" "holds p t" "length t \<le> length s"
  obtains b0 b' where "buf_zero b (length s) = Some b0" "buf_strcpy b0 p = Some b'" "edited b b' t"
proof -
  obtain r where b: "b = s @ NUL # r" by (rule holdsE [OF assms(1)])
  let ?b0 = "replicate (length s) NUL @ NUL # r"
  have z: "buf_zero b (length s) = Some ?b0" by (simp add: b buf_zero_def)
  have c: "buf_strcpy ?b0 p = Some (t @ NUL # drop (Suc (length t)) ?b0)" using assms(2,3) by (intro strcpy_holds) auto
  have "edited b (t @ NUL # drop (Suc (length t)) ?b0) t"
    using assms holds_no_NUL [OF assms(2)] holds_strlen [OF assms(1)] by (auto simp: edited_def b drop_Cons' holds_def)
  with z c show ?thesis by (rule that)
qed

section \<open>Reversing\<close>

lemma reverse_loop:
  assumes h: "holds s x" and p: "length p = Suc (length x)" and k: "k \<le> length x"
  shows "foldM (\<lambda>i p. do { c \<leftarrow> buf_load s (length x - i - 1); buf_store p i c }) [0..<k] p =
    Some (take k (rev x) @ drop k p)"
  using k
proof (induction k)
  case (Suc k)
  then have l: "buf_load s (length x - k - 1) = Some (rev x ! k)"
    using load_holds [OF h, of "length x - k - 1"] by (simp add: rev_nth)
  have st: "buf_store (take k (rev x) @ drop k p) k (rev x ! k) = Some (take (Suc k) (rev x) @ drop (Suc k) p)"
    using store_at_end [of k p "take k (rev x)"] Suc.prems p by (simp add: take_Suc_conv_app_nth)
  show ?case using Suc.IH Suc.prems l st by (simp add: foldM_append)
qed simp

lemma Dx_String_ok:
  assumes h: "holds s x" and d: "length x < length d" and m: "serves malloc (Suc (length x))"
  shows "Dx_String malloc (Some s) (Some d) = Some (True, Some (rev x @ NUL # drop (Suc (length x)) d))"
proof -
  obtain p where p: "malloc (Suc (length x)) = Some p" "length p = Suc (length x)" by (rule serves_block [OF m order.refl])
  let ?z = "replicate (Suc (length x)) NUL"
  have loop: "foldM (\<lambda>i p. do { c \<leftarrow> buf_load s (length x - i - 1); buf_store p i c }) [0..<length x] ?z =
      Some (rev x @ [NUL])"
    using reverse_loop [OF h, of ?z "length x"] drop_zeros [of "length x" "length x"] by (simp del: replicate_Suc)
  have "holds (rev x @ [NUL]) (rev x)" using holds_no_NUL [OF h] by (intro holdsI) simp
  then have "buf_strcpy d (rev x @ [NUL]) = Some (rev x @ NUL # drop (Suc (length x)) d)"
    using strcpy_holds [of "rev x @ [NUL]" "rev x" d] d by simp
  then show ?thesis
    using strlen_holds [OF h] p loop by (simp add: Dx_String_def zero_all)
qed

lemma Dx_String_Yzfc_ok:
  assumes h: "holds b s" and m: "serves malloc (Suc (length s))"
  obtains b' where "Dx_String_Yzfc malloc (Some b) = Some (True, Some b')" "edited b b' (rev s)"
proof -
  obtain p where p: "malloc (Suc (length s)) = Some p" "length p = Suc (length s)" by (rule serves_block [OF m order.refl])
  have dx: "Dx_String malloc (Some b) (Some (replicate (Suc (length s)) NUL)) = Some (True, Some (rev s @ [NUL]))"
    using Dx_String_ok [OF h _ m, of "replicate (Suc (length s)) NUL"] by simp
  have "holds (rev s @ [NUL]) (rev s)" using holds_no_NUL [OF h] by (intro holdsI) simp
  then obtain b0 b' where "buf_zero b (length s) = Some b0" "buf_strcpy b0 (rev s @ [NUL]) = Some b'" "edited b b' (rev s)"
    by (rule clear_and_copy [OF h]) simp
  then show ?thesis using that [of b'] strlen_holds [OF h] p dx by (simp add: Dx_String_Yzfc_def zero_all)
qed

section \<open>Deleting a character\<close>

abbreviation without :: "char \<Rightarrow> string \<Rightarrow> string" where
  "without c s \<equiv> filter (\<lambda>x. x \<noteq> c) s"

lemma delete_loop:
  assumes h: "holds s x" and p: "length p = Suc (length x)" and k: "k \<le> length x"
  shows "foldM (\<lambda>i (iCount, p). do {
       ch \<leftarrow> buf_load s i;
       if c = ch then Some (iCount, p) else do { p \<leftarrow> buf_store p iCount ch; Some (iCount + 1, p) } }) [0..<k] (0, p) =
    Some (length (without c (take k x)), without c (take k x) @ drop (length (without c (take k x))) p)"
  using k
proof (induction k)
  case (Suc k)
  let ?w = "without c (take k x)"
  have l: "buf_load s k = Some (x ! k)" using load_holds [OF h, of k] Suc.prems by simp
  have len: "length ?w < length p" using length_filter_le [of "\<lambda>y. y \<noteq> c" "take k x"] Suc.prems p by simp
  have T: "take (Suc k) x = take k x @ [x ! k]" using Suc.prems by (simp add: take_Suc_conv_app_nth)
  have st: "buf_store (?w @ drop (length ?w) p) (length ?w) (x ! k) = Some ((?w @ [x ! k]) @ drop (Suc (length ?w)) p)"
    by (rule store_at_end [OF len refl])
  show ?case using Suc.IH Suc.prems l st T by (simp add: foldM_append)
qed simp

lemma Del_Char_ok:
  assumes h: "holds b s" and m: "serves malloc (Suc (length s))"
  obtains b' where "Del_Char malloc (Some b) c = Some (True, Some b')" "edited b b' (without c s)"
proof -
  let ?w = "without c s" and ?z = "replicate (Suc (length s)) NUL"
  obtain p where p: "malloc (Suc (length s)) = Some p" "length p = Suc (length s)" by (rule serves_block [OF m order.refl])
  have le: "length ?w \<le> length s" by (rule length_filter_le)
  have "NUL \<notin> set ?w" using holds_no_NUL [OF h] by simp
  then have "holds (?w @ drop (length ?w) ?z) ?w" unfolding drop_zeros [OF le] by (rule holdsI)
  then obtain b0 b' where "buf_zero b (length s) = Some b0" "buf_strcpy b0 (?w @ drop (length ?w) ?z) = Some b'" "edited b b' ?w"
    by (rule clear_and_copy [OF h]) (rule le)
  then show ?thesis
    using that [of b'] strlen_holds [OF h] p delete_loop [OF h, of ?z "length s" c] by (simp add: Del_Char_def zero_all del: replicate_Suc)
qed

lemma Del_Char_CopyToDst_ok:
  assumes h: "holds b s" and d: "length s < length d" and m: "serves malloc (Suc (length s))"
  shows "Del_Char_CopyToDst malloc (Some b) (Some d) c =
    Some (True, Some (without c s @ NUL # drop (Suc (length (without c s))) d))"
proof -
  obtain p where p: "malloc (Suc (length s)) = Some p" "length p = Suc (length s)" by (rule serves_block [OF m order.refl])
  have cp: "buf_strcpy (replicate (Suc (length s)) NUL) b = Some (s @ [NUL])"
    using strcpy_holds [OF h, of "replicate (Suc (length s)) NUL"] by simp
  have "holds (s @ [NUL]) s" using holds_no_NUL [OF h] by (rule holdsI)
  then obtain q where q: "Del_Char malloc (Some (s @ [NUL])) c = Some (True, Some q)" "edited (s @ [NUL]) q (without c s)"
    using m by (rule Del_Char_ok)
  have "length (without c s) < length d" by (rule le_less_trans [OF length_filter_le d])
  then have "buf_strcpy d q = Some (without c s @ NUL # drop (Suc (length (without c s))) d)"
    using q(2) by (intro strcpy_holds) auto
  then show ?thesis
    using strlen_holds [OF h] p cp q(1) by (simp add: Del_Char_CopyToDst_def zero_all del: replicate_Suc)
qed

section \<open>Trimming\<close>

abbreviation lstrip :: "string \<Rightarrow> string" where
  "lstrip s \<equiv> dropWhile (\<lambda>c. c = CHR '' '') s"

definition strip :: "string \<Rightarrow> string" where
  "strip s = rev (lstrip (rev (lstrip s)))"

lemma lstrip_eq: "lstrip s = s \<longleftrightarrow> (s = [] \<or> hd s \<noteq> CHR '' '')"
proof (cases s)
  case (Cons c cs)
  have "length (lstrip cs) \<le> length cs" by (rule length_dropWhile_le)
  then have "lstrip cs \<noteq> c # cs" by (metis impossible_Cons)
  then show ?thesis using Cons by auto
qed simp

lemma holds_Cons: "holds (c # r) (c # s) \<Longrightarrow> holds r s"
  by (auto elim!: holdsE)

lemma trim_loop_ok:
  assumes "holds rest s" "length p = Suc n" "length s \<le> n"
  shows "\<exists>p'. trim_loop n flag p rest = Some (flag \<or> lstrip s \<noteq> s, p') \<and> (lstrip s = s \<or> holds p' (lstrip s))"
  using assms
proof (induction s arbitrary: rest flag p)
  case Nil
  then show ?case by (auto elim!: holdsE)
next
  case (Cons c s)
  then obtain r where r: "rest = c # r" by (auto elim!: holdsE)
  have h: "holds r s" by (rule holds_Cons) (use Cons.prems(1) r in simp)
  show ?case
  proof (cases "c = CHR '' ''")
    case False
    then show ?thesis by (auto simp: r)
  next
    case True
    let ?p = "s @ NUL # drop (Suc (length s)) (replicate (Suc n) NUL)"
    have cp: "buf_zero p (n + 1) = Some (replicate (Suc n) NUL)" "buf_strcpy (replicate (Suc n) NUL) r = Some ?p"
      using Cons.prems strcpy_holds [OF h, of "replicate (Suc n) NUL"] by (simp_all add: zero_all del: replicate_Suc)
    have "length ?p = Suc n" "length s \<le> n" using Cons.prems(3) by simp_all
    then obtain p' where p': "trim_loop n True ?p r = Some (True, p')" "lstrip s = s \<or> holds p' (lstrip s)"
      using Cons.IH [OF h, of ?p True] by auto
    have "holds p' (lstrip s)"
    proof (cases "lstrip s = s")
      case True
      then have "s = [] \<or> hd s \<noteq> CHR '' ''" by (simp add: lstrip_eq)
      then have "trim_loop n True ?p r = Some (True, ?p)" using h by (cases s) (auto elim!: holdsE)
      then show ?thesis using p'(1) True holds_no_NUL [OF h] by auto
    qed (use p'(2) in simp)
    moreover have "lstrip (c # s) \<noteq> c # s" unfolding lstrip_eq using True by simp
    moreover have "trim_loop n flag p rest = Some (True, p')"
      using cp p'(1) by (simp add: r True del: replicate_Suc)
    ultimately show ?thesis using True by auto
  qed
qed

lemma Trim_Before_ok:
  assumes h: "holds b s" and m: "serves malloc (Suc (length s))"
  obtains b' where "Trim_Before malloc (Some b) = Some b'" "edited b b' (lstrip s)"
proof -
  obtain p where p: "malloc (Suc (length s)) = Some p" "length p = Suc (length s)" by (rule serves_block [OF m order.refl])
  obtain p' where t: "trim_loop (length s) False (replicate (Suc (length s)) NUL) b = Some (lstrip s \<noteq> s, p')"
    "lstrip s = s \<or> holds p' (lstrip s)"
    using trim_loop_ok [OF h, of "replicate (Suc (length s)) NUL" "length s" False] by auto
  show ?thesis
  proof (cases "lstrip s = s")
    case True
    then show ?thesis using that [of b] t(1) strlen_holds [OF h] p edited_refl [OF h]
      by (simp add: Trim_Before_def zero_all del: replicate_Suc)
  next
    case False
    then have "holds p' (lstrip s)" using t(2) by simp
    then obtain b0 b' where "buf_zero b (length s) = Some b0" "buf_strcpy b0 p' = Some b'" "edited b b' (lstrip s)"
      by (rule clear_and_copy [OF h]) (rule length_dropWhile_le)
    with False show ?thesis using that [of b'] t(1) strlen_holds [OF h] p
      by (simp add: Trim_Before_def zero_all del: replicate_Suc)
  qed
qed

lemma Trim_Behind_ok:
  assumes h: "holds b s" and m: "serves malloc (Suc (length s))"
  obtains b' where "Trim_Behind malloc (Some b) = Some (True, Some b')" "edited b b' (rev (lstrip (rev s)))"
proof -
  let ?l = "lstrip (rev s)"
  have n: "length ?l \<le> length s" using length_dropWhile_le [of "\<lambda>c. c = CHR '' ''" "rev s"] by simp
  obtain b1 where b1: "Dx_String_Yzfc malloc (Some b) = Some (True, Some b1)" "edited b b1 (rev s)"
    by (rule Dx_String_Yzfc_ok [OF h m])
  have h1: "holds b1 (rev s)" and m1: "serves malloc (Suc (length (rev s)))" using b1(2) m by auto
  obtain b2 where b2: "Trim_Before malloc (Some b1) = Some b2" "edited b1 b2 ?l" by (rule Trim_Before_ok [OF h1 m1])
  have h2: "holds b2 ?l" and m2: "serves malloc (Suc (length ?l))" using b2(2) serves_le [OF m] n by auto
  obtain b3 where b3: "Dx_String_Yzfc malloc (Some b2) = Some (True, Some b3)" "edited b2 b3 (rev ?l)"
    by (rule Dx_String_Yzfc_ok [OF h2 m2])
  have "edited b b2 ?l" by (rule edited_trans [OF b1(2) b2(2)]) (simp add: holds_strlen [OF h])
  then have "edited b b3 (rev ?l)" by (rule edited_trans [OF _ b3(2)]) (simp add: holds_strlen [OF h] n)
  then show ?thesis using that [of b3] b1(1) b2(1) b3(1) by (simp add: Trim_Behind_def)
qed

lemma Trim_ok:
  assumes h: "holds b s" and m: "serves malloc (Suc (length s))"
  obtains b' where "Trim malloc (Some b) = Some (Some b')" "edited b b' (strip s)"
proof -
  let ?l = "lstrip s"
  have n: "length ?l \<le> length s" by (rule length_dropWhile_le)
  obtain b1 where b1: "Trim_Before malloc (Some b) = Some b1" "edited b b1 ?l" by (rule Trim_Before_ok [OF h m])
  have h1: "holds b1 ?l" and m1: "serves malloc (Suc (length ?l))" using b1(2) serves_le [OF m] n by auto
  obtain b2 where b2: "Trim_Behind malloc (Some b1) = Some (True, Some b2)" "edited b1 b2 (rev (lstrip (rev ?l)))"
    by (rule Trim_Behind_ok [OF h1 m1])
  have "edited b b2 (strip s)"
    using edited_trans [OF b1(2) b2(2)] n by (simp add: holds_strlen [OF h] strip_def)
  then show ?thesis using that [of b2] b1(1) b2(1) by (simp add: Trim_def)
qed

text \<open>Trimming leaves the string from its first to its last other character.\<close>

lemma lstrip_decomp: "\<exists>i. s = replicate i (CHR '' '') @ lstrip s"
proof (induction s)
  case (Cons c s)
  then obtain i where "s = replicate i (CHR '' '') @ lstrip s" by blast
  then have "c # s = replicate (if c = CHR '' '' then Suc i else 0) (CHR '' '') @ lstrip (c # s)" by simp
  then show ?case by (rule exI)
qed simp

lemma lstrip_strip: "\<exists>j. lstrip s = strip s @ replicate j (CHR '' '')"
proof -
  obtain j where "rev (lstrip s) = replicate j (CHR '' '') @ lstrip (rev (lstrip s))" using lstrip_decomp by blast
  then have "rev (rev (lstrip s)) = rev (replicate j (CHR '' '') @ lstrip (rev (lstrip s)))" by (rule arg_cong)
  then have "lstrip s = strip s @ replicate j (CHR '' '')" unfolding strip_def rev_append rev_replicate rev_rev_ident .
  then show ?thesis by (rule exI)
qed

lemma strip_decomp:
  "\<exists>i j. s = replicate i (CHR '' '') @ strip s @ replicate j (CHR '' '')"
proof -
  obtain i where i: "s = replicate i (CHR '' '') @ lstrip s" using lstrip_decomp by blast
  obtain j where j: "lstrip s = strip s @ replicate j (CHR '' '')" using lstrip_strip by blast
  have "s = replicate i (CHR '' '') @ strip s @ replicate j (CHR '' '')" by (subst i) (subst j, rule refl)
  then show ?thesis by (intro exI)
qed

lemma hd_lstrip: "lstrip s \<noteq> [] \<Longrightarrow> hd (lstrip s) \<noteq> CHR '' ''"
  by (rule hd_dropWhile)

lemma strip_ends:
  assumes ne: "strip s \<noteq> []"
  shows "hd (strip s) \<noteq> CHR '' '' \<and> last (strip s) \<noteq> CHR '' ''"
proof
  obtain j where j: "lstrip s = strip s @ replicate j (CHR '' '')" using lstrip_strip by blast
  have "lstrip s \<noteq> []" using ne unfolding j by simp
  moreover have "hd (lstrip s) = hd (strip s)" using ne unfolding j by simp
  ultimately show "hd (strip s) \<noteq> CHR '' ''" using hd_lstrip [of s] by metis
  show "last (strip s) \<noteq> CHR '' ''" using ne hd_lstrip [of "rev (lstrip s)"] unfolding strip_def by (simp add: last_rev)
qed

section \<open>The parts around a character\<close>

lemma Get_String_Behind_Char_ok:
  assumes h: "holds b (x @ c # y)" and c: "c \<notin> set x" and d: "length y < length d"
  shows "Get_String_Behind_Char (Some b) c (Some d) = Some (True, Some (y @ NUL # drop (Suc (length y)) d))"
proof -
  have "holds (drop (length x + 1) b) y" using holds_drop [OF h, of "length x + 1"] by simp
  then have "buf_strcpy d (drop (length x + 1) b) = Some (y @ NUL # drop (Suc (length y)) d)" using d by (rule strcpy_holds)
  then show ?thesis using strchr_Some [OF h c] by (simp add: Get_String_Behind_Char_def)
qed

lemma Get_String_Before_Char_ok:
  assumes h: "holds b (x @ c # y)" and c: "c \<notin> set x" and d: "length x < length d"
  shows "Get_String_Before_Char (Some b) c (Some d) = Some (True, Some (x @ NUL # drop (Suc (length x)) d))"
proof -
  obtain r where b: "b = (x @ c # y) @ NUL # r" by (rule holdsE [OF h])
  have "buf_copy d 0 b (length x) = Some (x @ drop (length x) d)" using d by (simp add: buf_copy_def b)
  moreover have "buf_store (x @ drop (length x) d) (length x) NUL = Some ((x @ [NUL]) @ drop (Suc (length x)) d)"
    by (rule store_at_end [OF d refl])
  ultimately show ?thesis using strchr_Some [OF h c] by (simp add: Get_String_Before_Char_def)
qed

lemma Get_String_absent:
  assumes "holds b s" "c \<noteq> NUL" "c \<notin> set s"
  shows "Get_String_Behind_Char (Some b) c d = Some (False, d)" "Get_String_Before_Char (Some b) c d = Some (False, d)"
  using strchr_None [OF assms] by (simp_all add: Get_String_Behind_Char_def Get_String_Before_Char_def)

text \<open>What is cut out of the source is then edited in the destination.\<close>

lemma cut_holds:
  assumes "holds b (x @ c # y)"
  shows "holds (x @ NUL # r) x" "holds (y @ NUL # r) y"
  using holds_no_NUL [OF assms] by auto

lemma Del_then_Trim:
  assumes h: "holds b s" and m: "serves malloc (Suc (length s))"
  obtains b1 b' where "Del_Char_Hh malloc (Some b) = Some (True, Some b1)" "Trim malloc (Some b1) = Some (Some b')"
    "edited b b' (strip (without (CHR 0x0A) s))"
proof -
  let ?w = "without (CHR 0x0A) s"
  obtain b1 where b1: "Del_Char malloc (Some b) (CHR 0x0A) = Some (True, Some b1)" "edited b b1 ?w" by (rule Del_Char_ok [OF h m])
  have n: "length ?w \<le> length s" by (rule length_filter_le)
  then have "serves malloc (Suc (length ?w))" using serves_le [OF m] by simp
  then obtain b' where b': "Trim malloc (Some b1) = Some (Some b')" "edited b1 b' (strip ?w)"
    using Trim_ok [of b1 ?w malloc] b1(2) by (auto simp: edited_def)
  have "edited b b' (strip ?w)" by (rule edited_trans [OF b1(2) b'(2)]) (use n holds_strlen [OF h] in simp)
  then show ?thesis using that [of b1 b'] b1(1) b'(1) by (simp add: Del_Char_Hh_def)
qed

lemma key_value_parts:
  assumes h: "holds b (k @ CHR ''='' # v)" and k: "CHR ''='' \<notin> set k"
    and d: "length k < length dk" "length v < length dv" and m: "serves malloc (length k + length v + 1)"
  obtains dk' dv' where
    "Get_String_Before_Dh_QdKg malloc (Some b) (Some dk) = Some (True, Some dk')" "holds dk' (strip k)" "length dk' = length dk"
    "Get_String_Behind_Dh_QdKg malloc (Some b) (Some dv) = Some (True, Some dv')" "holds dv' (strip v)" "length dv' = length dv"
proof -
  have m': "serves malloc (Suc (length k))" "serves malloc (Suc (length v))" using serves_le [OF m] by simp_all
  obtain dk' where K: "Trim malloc (Some (k @ NUL # drop (Suc (length k)) dk)) = Some (Some dk')"
      "edited (k @ NUL # drop (Suc (length k)) dk) dk' (strip k)"
    by (rule Trim_ok [OF cut_holds(1) [OF h] m'(1)])
  obtain dv' where V: "Trim malloc (Some (v @ NUL # drop (Suc (length v)) dv)) = Some (Some dv')"
      "edited (v @ NUL # drop (Suc (length v)) dv) dv' (strip v)"
    by (rule Trim_ok [OF cut_holds(2) [OF h] m'(2)])
  show ?thesis
    using that [of dk' dv'] K V Get_String_Before_Char_ok [OF h k d(1)] Get_String_Behind_Char_ok [OF h k d(2)] d
    by (simp add: edited_def Get_String_Before_Dh_QdKg_def Get_String_Behind_Dh_QdKg_def)
qed

section \<open>Numbers\<close>

text \<open>Digits, with at most one point that has a digit on either side. The empty string counts as one.\<close>

definition all_digits :: "string \<Rightarrow> bool" where
  "all_digits s = (\<forall>c \<in> set s. is_digit c)"

definition decimal :: "string \<Rightarrow> bool" where
  "decimal s \<longleftrightarrow> all_digits s \<or> (\<exists>a b. s = a @ CHR ''.'' # b \<and> a \<noteq> [] \<and> b \<noteq> [] \<and> all_digits a \<and> all_digits b)"

lemma schar_nonneg: "0 \<le> schar c \<Longrightarrow> schar c = int (of_char c)"
proof -
  have "int (of_char c) < 256" using nat_of_char_less_256 [of c] by linarith
  then show "0 \<le> schar c \<Longrightarrow> schar c = int (of_char c)" unfolding schar_def Let_def by presburger
qed

lemma schar_small: "of_char c < (128 :: nat) \<Longrightarrow> schar c = int (of_char c)"
  unfolding schar_def Let_def by simp

lemma schar_range: "0 < lo \<Longrightarrow> hi < 128 \<Longrightarrow> int lo \<le> schar c \<and> schar c \<le> int hi \<longleftrightarrow> lo \<le> of_char c \<and> of_char c \<le> hi"
  using schar_nonneg [of c] schar_small [of c] by (metis le_less_trans of_nat_0_le_iff of_nat_le_iff order_trans)

lemma schar_digit: "48 \<le> schar c \<and> schar c \<le> 57 \<longleftrightarrow> is_digit c"
  using schar_range [of 48 57 c] by (simp add: is_digit_def)

lemma schar_point: "schar c = 46 \<longleftrightarrow> c = CHR ''.''"
proof
  assume "schar c = 46"
  then have "of_char c = (46 :: nat)" using schar_nonneg [of c] by simp
  moreover have "of_char (CHR ''.'') = (46 :: nat)" by simp
  ultimately show "c = CHR ''.''" by (metis of_char_eq_iff)
qed (simp add: schar_def)

definition rest_ok :: "nat \<Rightarrow> nat \<Rightarrow> string \<Rightarrow> bool" where
  "rest_ok i k u \<longleftrightarrow> all_digits u \<or>
     (k = 0 \<and> (\<exists>a b. u = a @ CHR ''.'' # b \<and> (i = 0 \<longrightarrow> a \<noteq> []) \<and> b \<noteq> [] \<and> all_digits a \<and> all_digits b))"

lemma rest_ok_Nil: "rest_ok i k []"
  by (simp add: rest_ok_def all_digits_def)

lemma rest_ok_digit: "is_digit c \<Longrightarrow> rest_ok i k (c # u) = rest_ok (Suc i) k u"
proof -
  assume c: "is_digit c"
  have "(\<exists>a b. c # u = a @ CHR ''.'' # b \<and> (i = 0 \<longrightarrow> a \<noteq> []) \<and> b \<noteq> [] \<and> all_digits a \<and> all_digits b) \<longleftrightarrow>
      (\<exists>a b. u = a @ CHR ''.'' # b \<and> b \<noteq> [] \<and> all_digits a \<and> all_digits b)" (is "?L = ?R")
  proof
    assume ?L
    then obtain a b where ab: "c # u = a @ CHR ''.'' # b" "b \<noteq> []" "all_digits a" "all_digits b" by blast
    moreover have "c \<noteq> CHR ''.''" using c by (auto simp: is_digit_def)
    ultimately obtain a' where "a = c # a'" by (cases a) auto
    with ab show ?R by (auto simp: all_digits_def)
  next
    assume ?R
    then obtain a b where "u = a @ CHR ''.'' # b" "b \<noteq> []" "all_digits a" "all_digits b" by blast
    with c show ?L by (intro exI [of _ "c # a"] exI [of _ b]) (simp add: all_digits_def)
  qed
  then show ?thesis using c by (simp add: rest_ok_def all_digits_def)
qed

lemma rest_ok_point: "rest_ok i k (CHR ''.'' # u) \<longleftrightarrow> k = 0 \<and> i \<noteq> 0 \<and> u \<noteq> [] \<and> all_digits u"
proof -
  have "\<not> all_digits (CHR ''.'' # u)" by (simp add: all_digits_def is_digit_def)
  moreover have "a = [] \<and> b = u" if "CHR ''.'' # u = a @ CHR ''.'' # b" "all_digits a" for a b
    using that by (cases a) (auto simp: all_digits_def is_digit_def)
  moreover have "CHR ''.'' # u = [] @ CHR ''.'' # u" "all_digits []" by (simp_all add: all_digits_def)
  ultimately show ?thesis unfolding rest_ok_def by blast
qed

lemma rest_ok_other: "\<not> is_digit c \<Longrightarrow> c \<noteq> CHR ''.'' \<Longrightarrow> \<not> rest_ok i k (c # u)"
  by (auto simp: rest_ok_def all_digits_def Cons_eq_append_conv)

lemma rest_ok_counted: "rest_ok i (Suc k) u = all_digits u"
  by (simp add: rest_ok_def)

lemma digit_loop_ok:
  assumes h: "holds b s" and i: "i \<le> length s"
  shows "digit_loop b (length s) k [i..<length s] = Some (if rest_ok i k (drop i s) then 1 else 0)"
  using i
proof (induction "length s - i" arbitrary: i k)
  case 0
  then show ?case by (simp add: rest_ok_Nil)
next
  case (Suc m)
  then have lt: "i < length s" by simp
  have l: "buf_load b i = Some (s ! i)" using load_holds [OF h lt] .
  have u: "[i..<length s] = i # [Suc i..<length s]" using lt by (simp add: upt_conv_Cons)
  have IH: "digit_loop b (length s) k' [Suc i..<length s] = Some (if rest_ok (Suc i) k' (drop (Suc i) s) then 1 else 0)" for k'
    using Suc.hyps(1) [of "Suc i"] Suc.hyps(2) lt by simp
  have d: "drop i s = s ! i # drop (Suc i) s" by (rule Cons_nth_drop_Suc [OF lt, symmetric])
  have empty: "drop (Suc i) s = [] \<longleftrightarrow> length s = i + 1" using lt by auto
  consider "is_digit (s ! i)" | "s ! i = CHR ''.''" | "\<not> is_digit (s ! i)" "s ! i \<noteq> CHR ''.''" by blast
  then show ?case
  proof cases
    case 1
    then show ?thesis unfolding u d rest_ok_digit [OF 1] by (simp add: l schar_digit IH)
  next
    case 2
    have nd: "\<not> is_digit (CHR ''.'')" by (simp add: is_digit_def)
    show ?thesis unfolding u d 2 rest_ok_point
      using empty by (simp add: l 2 schar_digit nd schar_point IH rest_ok_counted)
  next
    case 3
    then show ?thesis unfolding u d by (simp add: l schar_digit schar_point rest_ok_other)
  qed
qed

lemma Is_Digit_ByString_ok:
  assumes "holds b s"
  shows "Is_Digit_ByString b = Some (if decimal s then 1 else 0)"
  using digit_loop_ok [OF assms, of 0 0] strlen_holds [OF assms]
  by (simp add: Is_Digit_ByString_def rest_ok_def decimal_def)

section \<open>Counting and replacing\<close>

lemma strstr_holds:
  assumes "holds b s" "holds a t"
  shows "buf_strstr b a = Some (find (\<lambda>i. take (length t) (drop i s) = t) [0..<Suc (length s)])"
  using assms by (simp add: buf_strstr_def strlen_holds del: upt_Suc) (simp add: holds_def del: upt_Suc)

lemma strstr_bound:
  assumes "holds b s" "holds a t" "buf_strstr b a = Some (Some i)"
  shows "i + length t \<le> length s"
proof -
  have i: "i \<le> length s" "take (length t) (drop i s) = t"
    using assms(3) unfolding strstr_holds [OF assms(1,2)] option.inject find_upt_Some by simp_all
  have "length (take (length t) (drop i s)) = length t" by (subst i(2)) simp
  with i(1) show ?thesis by simp
qed

lemma count_ends:
  assumes "holds a t" "t \<noteq> []"
  shows "holds b s \<Longrightarrow> count_loop b a = Some (-1)"
proof (induction "length s" arbitrary: b s rule: less_induct)
  case less
  note h = less.prems
  obtain r where r: "buf_strstr b a = Some r" using strstr_holds [OF h assms(1)] by blast
  show ?case
  proof (cases r)
    case None
    with r show ?thesis by (simp add: count_loop.simps)
  next
    case (Some i)
    with r have b: "i + length t \<le> length s" using strstr_bound [OF h assms(1)] by simp
    have "holds (drop (i + length t) b) (drop (i + length t) s)" by (rule holds_drop [OF h b])
    then have "count_loop (drop (i + length t) b) a = Some (-1)"
      using less.hyps [of "drop (i + length t) s"] b assms(2) by (cases t) auto
    with r Some show ?thesis by (subst count_loop.simps) (simp add: strlen_holds [OF assms(1)])
  qed
qed

lemma count_only_fails:
  assumes "count_loop b a = Some n"
  shows "n = -1"
proof (rule count_loop.raw_induct [of "\<lambda>_ _ n. n = -1", OF _ assms])
  fix cl b a n
  assume "\<And>b a n. cl b a = Some n \<Longrightarrow> n = -1"
    and "do { r \<leftarrow> buf_strstr b a;
              case r of Some i \<Rightarrow> do { n \<leftarrow> buf_strlen a; cl (drop (i + n) b) a } | None \<Rightarrow> Some (-1) } = Some n"
  then show "n = -1" by (auto split: option.splits bind_splits)
qed

lemma strstr_empty: "holds b s \<Longrightarrow> holds a [] \<Longrightarrow> buf_strstr b a = Some (Some 0)"
  by (subst strstr_holds) (auto simp: find_upt_Some simp del: upt_Suc)

lemma count_diverges:
  assumes "holds b s" "holds a []"
  shows "count_loop b a = None"
proof (rule ccontr)
  assume "count_loop b a \<noteq> None"
  then obtain n where n: "count_loop b a = Some n" by blast
  have "\<not> (holds b (cstr b) \<and> holds a [])"
  proof (rule count_loop.raw_induct [of "\<lambda>b a n. \<not> (holds b (cstr b) \<and> holds a [])", OF _ n])
    fix cl b a n
    assume IH: "\<And>b a n. cl b a = Some n \<Longrightarrow> \<not> (holds b (cstr b) \<and> holds a [])"
      and run: "do { r \<leftarrow> buf_strstr b a;
              case r of Some i \<Rightarrow> do { n \<leftarrow> buf_strlen a; cl (drop (i + n) b) a } | None \<Rightarrow> Some (-1) } = Some n"
    show "\<not> (holds b (cstr b) \<and> holds a [])"
    proof
      assume h: "holds b (cstr b) \<and> holds a []"
      then have "cl b a = Some n" using run strstr_empty [of b "cstr b" a] strlen_holds [of a "[]"] by simp
      with IH h show False by blast
    qed
  qed
  with assms show False by (simp add: holds_def)
qed

section \<open>Letters\<close>

lemma char_to_str [simp]: "Char_To_Str c (Some [NUL, NUL]) = Some (True, Some [c, NUL])"
  by (simp add: Char_To_Str_def buf_store_def)

lemma holds_single: "c \<noteq> NUL \<Longrightarrow> holds [c, NUL] [c]"
  by (simp add: holds_def)

lemma Is_Digit_ByChar_ok: "c \<noteq> NUL \<Longrightarrow> Is_Digit_ByChar c = Some (if is_digit c then 1 else 0)"
proof -
  assume c: "c \<noteq> NUL"
  have "decimal [c] \<longleftrightarrow> is_digit c" by (auto simp: decimal_def all_digits_def Cons_eq_append_conv)
  then show ?thesis using Is_Digit_ByString_ok [OF holds_single [OF c]] by (simp add: Is_Digit_ByChar_def)
qed

definition is_lower :: "char \<Rightarrow> bool" where
  "is_lower c \<longleftrightarrow> 97 \<le> (of_char c :: nat) \<and> (of_char c :: nat) \<le> 122"

definition is_upper :: "char \<Rightarrow> bool" where
  "is_upper c \<longleftrightarrow> 65 \<le> (of_char c :: nat) \<and> (of_char c :: nat) \<le> 90"

lemma schar_letter:
  "65 \<le> schar c \<and> schar c \<le> 90 \<longleftrightarrow> is_upper c" "97 \<le> schar c \<and> schar c \<le> 122 \<longleftrightarrow> is_lower c"
  using schar_range [of 65 90 c] schar_range [of 97 122 c] by (simp_all add: is_upper_def is_lower_def)

lemma letter_loop_ok:
  assumes h: "holds b s" and i: "i \<le> length s" and xx: "0 \<le> xx" "xx + int (length s - i) < 2 ^ 31"
    and dx: "0 \<le> dx" "dx + int (length s - i) < 2 ^ 31"
  shows "letter_loop b xx dx [i..<length s] =
    Some (if \<forall>c \<in> set (drop i s). is_lower c \<or> is_upper c
          then Some (xx + int (length (filter is_lower (drop i s))), dx + int (length (filter is_upper (drop i s)))) else None)"
  using i xx dx
proof (induction "length s - i" arbitrary: i xx dx)
  case 0
  then show ?case by simp
next
  case (Suc m)
  then have lt: "i < length s" by simp
  have l: "buf_load b i = Some (s ! i)" using load_holds [OF h lt] .
  have u: "[i..<length s] = i # [Suc i..<length s]" using lt by (simp add: upt_conv_Cons)
  have IH: "letter_loop b xx' dx' [Suc i..<length s] =
    Some (if \<forall>c \<in> set (drop (Suc i) s). is_lower c \<or> is_upper c
          then Some (xx' + int (length (filter is_lower (drop (Suc i) s))), dx' + int (length (filter is_upper (drop (Suc i) s)))) else None)"
    if "0 \<le> xx'" "xx' + int (length s - Suc i) < 2 ^ 31" "0 \<le> dx'" "dx' + int (length s - Suc i) < 2 ^ 31" for xx' dx'
    using Suc.hyps(1) [of "Suc i" xx' dx'] Suc.hyps(2) lt that by simp
  have d: "drop i s = s ! i # drop (Suc i) s" by (rule Cons_nth_drop_Suc [OF lt, symmetric])
  have n: "int (length s - i) = int (length s - Suc i) + 1" using lt by simp
  have excl: "\<not> (is_lower (s ! i) \<and> is_upper (s ! i))" by (auto simp: is_lower_def is_upper_def)
  consider "is_upper (s ! i)" "\<not> is_lower (s ! i)" | "is_lower (s ! i)" "\<not> is_upper (s ! i)" | "\<not> is_upper (s ! i)" "\<not> is_lower (s ! i)"
    using excl by blast
  then show ?case
  proof cases
    case 1
    have b: "\<not> 2 ^ 31 - 1 \<le> dx" using Suc.prems n by linarith
    have "letter_loop b xx dx [i..<length s] = letter_loop b xx (dx + 1) [Suc i..<length s]"
      unfolding u letter_loop.simps l Option.bind.bind_lunit schar_letter using 1 b by (simp only: if_True if_False)
    also have "\<dots> = Some (if \<forall>c \<in> set (drop (Suc i) s). is_lower c \<or> is_upper c
      then Some (xx + int (length (filter is_lower (drop (Suc i) s))), dx + 1 + int (length (filter is_upper (drop (Suc i) s)))) else None)"
      by (rule IH) (use Suc.prems n in linarith)+
    finally show ?thesis unfolding d using 1 by simp
  next
    case 2
    have b: "\<not> 2 ^ 31 - 1 \<le> xx" using Suc.prems n by linarith
    have "letter_loop b xx dx [i..<length s] = letter_loop b (xx + 1) dx [Suc i..<length s]"
      unfolding u letter_loop.simps l Option.bind.bind_lunit schar_letter using 2 b by (simp only: if_True if_False)
    also have "\<dots> = Some (if \<forall>c \<in> set (drop (Suc i) s). is_lower c \<or> is_upper c
      then Some (xx + 1 + int (length (filter is_lower (drop (Suc i) s))), dx + int (length (filter is_upper (drop (Suc i) s)))) else None)"
      by (rule IH) (use Suc.prems n in linarith)+
    finally show ?thesis unfolding d using 2 by simp
  next
    case 3
    then show ?thesis unfolding u d by (simp add: l schar_letter)
  qed
qed

end
