(* ===== verification/Lib_String_Properties.thy ===== *)
theory Lib_String_Properties
  imports Lib_String_Correct
begin

text \<open>
  The properties of the string library, each with a run of the model that meets its hypotheses.
\<close>

section \<open>Preparations\<close>

definition calloc :: allocator where
  "calloc n = Some (replicate n NUL)"

lemma serves_calloc [simp]: "serves calloc n"
  by (simp add: serves_def calloc_def)

lemma edited_back:
  assumes "holds b s" "edited b b' s"
  shows "b' = b"
proof -
  have s: "strlen b = length s" by (rule holds_strlen [OF assms(1)])
  obtain r where b: "b = s @ NUL # r" by (rule holdsE [OF assms(1)])
  obtain r' where b': "b' = s @ NUL # r'" by (rule holdsE [OF editedD(1) [OF assms(2)]])
  have "drop (Suc (length s)) b' = drop (Suc (length s)) b" using assms(2) s by (simp add: edited_def)
  then show ?thesis by (simp add: b b')
qed

lemma mixed_digits:
  assumes h: "holds b s" and d: "all_digits s" and i: "i \<le> length s"
  shows "mixed_loop junk b r (k, e1, e2, e3) [i..<length s] = Some (Some (k + (length s - i), e1, e2, e3))"
  using i
proof (induction "length s - i" arbitrary: i k)
  case 0
  then show ?case by simp
next
  case (Suc m)
  then have lt: "i < length s" by simp
  then have dig: "is_digit (s ! i)" using d by (simp add: all_digits_def)
  then have "Is_Digit_ByChar (s ! i) = Some 1" using Is_Digit_ByChar_ok [of "s ! i"] by simp
  moreover have "mixed_loop junk b r (k + 1, e1, e2, e3) [Suc i..<length s] = Some (Some (k + 1 + (length s - Suc i), e1, e2, e3))"
    using Suc.hyps lt by (intro Suc.hyps(1)) auto
  ultimately show ?case using lt load_holds [OF h lt] by (simp add: upt_conv_Cons)
qed

section \<open>Properties\<close>

text \<open> \<^verbatim>\<open>Dx_String_Yzfc\<close> reverses a string in its own buffer, touches no byte behind the terminator, and
  is its own inverse: applied twice it restores the buffer.
\<close>

theorem reverse_twice:
  assumes "holds b s" "serves malloc (Suc (length s))"
  shows "\<exists>b'. Dx_String_Yzfc malloc (Some b) = Some (True, Some b') \<and> edited b b' (rev s) \<and>
    Dx_String_Yzfc malloc (Some b') = Some (True, Some b)"
proof -
  obtain b1 where b1: "Dx_String_Yzfc malloc (Some b) = Some (True, Some b1)" "edited b b1 (rev s)"
    by (rule Dx_String_Yzfc_ok [OF assms])
  have m: "serves malloc (Suc (length (rev s)))" using assms(2) by simp
  obtain b2 where b2: "Dx_String_Yzfc malloc (Some b1) = Some (True, Some b2)" "edited b1 b2 (rev (rev s))"
    by (rule Dx_String_Yzfc_ok [OF editedD(1) [OF b1(2)] m])
  have "edited b b2 s" using edited_trans [OF b1(2) b2(2)] holds_strlen [OF assms(1)] by simp
  then have "b2 = b" by (rule edited_back [OF assms(1)])
  with b1 b2 show ?thesis by blast
qed

theorem reverse_twice_witness:
  "\<exists>b'. Dx_String_Yzfc calloc (Some (''abc'' @ [NUL])) = Some (True, Some b') \<and> Dx_String_Yzfc calloc (Some b') = Some (True, Some (''abc'' @ [NUL]))"
  using reverse_twice [of "''abc'' @ [NUL]" "''abc''" calloc] by (auto simp: holds_def)

text \<open>
  \<^verbatim>\<open>Del_Char\<close> removes every occurrence of a character from the string in its buffer, and
  \<^verbatim>\<open>Del_Char_CopyToDst\<close> writes the same result to another buffer that is large enough.
\<close>

theorem delete_character:
  assumes "holds b s" "serves malloc (Suc (length s))" "length s < length d"
  shows "(\<exists>b'. Del_Char malloc (Some b) c = Some (True, Some b') \<and> edited b b' (filter (\<lambda>x. x \<noteq> c) s)) \<and>
    (\<exists>d'. Del_Char_CopyToDst malloc (Some b) (Some d) c = Some (True, Some d') \<and> holds d' (filter (\<lambda>x. x \<noteq> c) s))"
proof
  show "\<exists>b'. Del_Char malloc (Some b) c = Some (True, Some b') \<and> edited b b' (without c s)"
    by (rule Del_Char_ok [OF assms(1,2)]) blast
  have "NUL \<notin> set (without c s)" using holds_no_NUL [OF assms(1)] by simp
  then show "\<exists>d'. Del_Char_CopyToDst malloc (Some b) (Some d) c = Some (True, Some d') \<and> holds d' (without c s)"
    using Del_Char_CopyToDst_ok [OF assms(1,3,2)] by blast
qed

theorem delete_character_witness:
  "\<exists>d'. Del_Char_CopyToDst calloc (Some (''a,b,'' @ [NUL])) (Some (replicate 5 NUL)) (CHR '','') = Some (True, Some d') \<and> holds d' ''ab''"
  using delete_character [of "''a,b,'' @ [NUL]" "''a,b,''" calloc "replicate 5 NUL" "CHR '',''"] by (simp add: holds_def)

text \<open> \<^verbatim>\<open>Trim\<close> removes the spaces at both ends of a string and nothing else: what is left neither
  starts nor ends with a space, and the bytes behind the old terminator are unchanged.
\<close>

theorem trim_both_ends:
  assumes "holds b s" "serves malloc (Suc (length s))"
  shows "\<exists>b' t i j. Trim malloc (Some b) = Some (Some b') \<and> edited b b' t \<and>
    s = replicate i (CHR '' '') @ t @ replicate j (CHR '' '') \<and> (t = [] \<or> hd t \<noteq> CHR '' '' \<and> last t \<noteq> CHR '' '')"
proof -
  obtain b' where "Trim malloc (Some b) = Some (Some b')" "edited b b' (strip s)" by (rule Trim_ok [OF assms])
  moreover obtain i j where "s = replicate i (CHR '' '') @ strip s @ replicate j (CHR '' '')" using strip_decomp by blast
  ultimately show ?thesis using strip_ends [of s] by blast
qed

theorem trim_both_ends_witness:
  "\<exists>b' t i j. Trim calloc (Some ('' a b  '' @ [NUL])) = Some (Some b') \<and> holds b' t \<and>
    '' a b  '' = replicate i (CHR '' '') @ t @ replicate j (CHR '' '')"
  using trim_both_ends [of "'' a b  '' @ [NUL]" "'' a b  ''" calloc] by (auto simp: holds_def edited_def)

text \<open> Lines of the form \<^verbatim>\<open>key = value\<close>. \<^verbatim>\<open>Get_KeyValue_Dh_QdKg\<close> splits a line at its first equals sign and
  leaves both sides without the spaces around them; a line without an equals sign is answered with
  \<^verbatim>\<open>NULL\<close>, and both buffers keep their contents.
\<close>

theorem key_value_line:
  assumes "CHR ''='' \<notin> set k" "length k < length dk" "length v < length dv" "serves malloc (length k + length v + 1)"
  shows "(holds b (k @ CHR ''='' # v) \<longrightarrow>
      (\<exists>dk' dv'. Get_KeyValue_Dh_QdKg malloc (Some b) (Some dk) (Some dv) = Some (True, Some dk', Some dv') \<and>
        holds dk' (strip k) \<and> holds dv' (strip v))) \<and>
    (holds b k \<longrightarrow> Get_KeyValue_Dh_QdKg malloc (Some b) (Some dk) (Some dv) = Some (False, Some dk, Some dv))"
proof (intro conjI impI)
  assume h: "holds b (k @ CHR ''='' # v)"
  obtain dk' dv' where "Get_String_Before_Dh_QdKg malloc (Some b) (Some dk) = Some (True, Some dk')" "holds dk' (strip k)"
    "Get_String_Behind_Dh_QdKg malloc (Some b) (Some dv) = Some (True, Some dv')" "holds dv' (strip v)"
    by (rule key_value_parts [OF h assms])
  then show "\<exists>dk' dv'. Get_KeyValue_Dh_QdKg malloc (Some b) (Some dk) (Some dv) = Some (True, Some dk', Some dv') \<and>
      holds dk' (strip k) \<and> holds dv' (strip v)"
    by (simp add: Get_KeyValue_Dh_QdKg_def)
next
  assume "holds b k"
  then show "Get_KeyValue_Dh_QdKg malloc (Some b) (Some dk) (Some dv) = Some (False, Some dk, Some dv)"
    using Get_String_absent(1) [of b k "CHR ''=''" "Some dv"] assms(1)
    by (simp add: Get_KeyValue_Dh_QdKg_def Get_String_Behind_Dh_QdKg_def)
qed

theorem key_value_line_witness:
  "\<exists>dk' dv'. Get_KeyValue_Dh_QdKg calloc (Some (''port = 80'' @ [NUL])) (Some (replicate 8 NUL)) (Some (replicate 8 NUL)) =
      Some (True, Some dk', Some dv') \<and> holds dk' ''port'' \<and> holds dv' ''80''"
  using key_value_line [of "''port ''" "replicate 8 NUL" "'' 80''" "replicate 8 NUL" calloc "''port = 80'' @ [NUL]"]
  by (simp add: holds_def strip_def)

text \<open>
  With line ends. \<^verbatim>\<open>Get_String_Before_Dh_QdKgHh\<close> and \<^verbatim>\<open>Get_String_Behind_Dh_QdKgHh\<close> do the same for one
  side each, and also remove every newline.
\<close>

theorem side_of_line:
  assumes "holds b (k @ CHR ''='' # v)" "CHR ''='' \<notin> set k" "length k < length d" "length v < length d"
    "serves malloc (length k + length v + 1)"
  shows "(\<exists>d'. Get_String_Before_Dh_QdKgHh malloc (Some b) (Some d) = Some (True, Some d') \<and>
      holds d' (strip (filter (\<lambda>c. c \<noteq> CHR 0x0A) k)) \<and> length d' = length d) \<and>
    (\<exists>d'. Get_String_Behind_Dh_QdKgHh malloc (Some b) (Some d) = Some (True, Some d') \<and>
      holds d' (strip (filter (\<lambda>c. c \<noteq> CHR 0x0A) v)) \<and> length d' = length d)"
proof
  have m: "serves malloc (Suc (length k))" "serves malloc (Suc (length v))" using serves_le [OF assms(5)] by simp_all
  let ?k = "k @ NUL # drop (Suc (length k)) d" and ?v = "v @ NUL # drop (Suc (length v)) d"
  obtain b1 b' where "Del_Char_Hh malloc (Some ?k) = Some (True, Some b1)" "Trim malloc (Some b1) = Some (Some b')"
    "edited ?k b' (strip (without (CHR 0x0A) k))" by (rule Del_then_Trim [OF cut_holds(1) [OF assms(1)] m(1)])
  then show "\<exists>d'. Get_String_Before_Dh_QdKgHh malloc (Some b) (Some d) = Some (True, Some d') \<and>
      holds d' (strip (without (CHR 0x0A) k)) \<and> length d' = length d"
    using Get_String_Before_Char_ok [OF assms(1,2,3)] assms(3) by (simp add: Get_String_Before_Dh_QdKgHh_def edited_def)
  obtain b1 b' where "Del_Char_Hh malloc (Some ?v) = Some (True, Some b1)" "Trim malloc (Some b1) = Some (Some b')"
    "edited ?v b' (strip (without (CHR 0x0A) v))" by (rule Del_then_Trim [OF cut_holds(2) [OF assms(1)] m(2)])
  then show "\<exists>d'. Get_String_Behind_Dh_QdKgHh malloc (Some b) (Some d) = Some (True, Some d') \<and>
      holds d' (strip (without (CHR 0x0A) v)) \<and> length d' = length d"
    using Get_String_Behind_Char_ok [OF assms(1,2,4)] assms(4) by (simp add: Get_String_Behind_Dh_QdKgHh_def edited_def)
qed

theorem side_of_line_witness:
  "\<exists>d'. Get_String_Behind_Dh_QdKgHh calloc (Some (''a= b'' @ [CHR 0x0A, NUL])) (Some (replicate 8 NUL)) = Some (True, Some d') \<and> holds d' ''b''"
  using side_of_line [of "''a= b'' @ [CHR 0x0A, NUL]" "''a''" "'' b'' @ [CHR 0x0A]" "replicate 8 NUL" calloc]
  by (auto simp: holds_def strip_def)

text \<open>
  \<^verbatim>\<open>Get_String_Between_Zkh\<close> copies what stands between the first opening bracket and the first closing
  one behind it.
\<close>

theorem between_brackets:
  assumes "holds b (x @ CHR ''['' # y @ CHR '']'' # z)" "CHR ''['' \<notin> set x" "CHR '']'' \<notin> set y" "length y < length d"
    "serves malloc (length x + length y + length z + 3)"
  shows "\<exists>d'. Get_String_Between_Zkh malloc (Some b) (Some d) = Some (True, Some d') \<and> holds d' y \<and> length d' = length d"
proof -
  let ?s = "x @ CHR ''['' # y @ CHR '']'' # z" and ?t = "y @ CHR '']'' # z"
  have n: "length ?s + 1 = length x + length y + length z + 3" by simp
  obtain p where p: "malloc (length ?s + 1) = Some p" "length p = length ?s + 1"
    by (rule serves_block [OF assms(5), of "length ?s + 1"]) simp_all
  let ?z = "replicate (length ?s + 1) NUL"
  let ?q = "?t @ NUL # drop (Suc (length ?t)) ?z"
  have cut: "Get_String_Behind_Char (Some b) (CHR ''['') (Some ?z) = Some (True, Some ?q)"
    by (rule Get_String_Behind_Char_ok [OF assms(1,2)]) simp
  have h: "holds ?q ?t" by (rule cut_holds(2) [OF assms(1)])
  have "Get_String_Before_Char (Some ?q) (CHR '']'') (Some d) = Some (True, Some (y @ NUL # drop (Suc (length y)) d))"
    by (rule Get_String_Before_Char_ok [OF h assms(3,4)])
  moreover have "buf_strlen b = Some (length ?s)" by (rule strlen_holds [OF assms(1)])
  moreover have "buf_zero p (length ?s + 1) = Some ?z" by (rule zero_all [OF p(2)])
  ultimately have "Get_String_Between_Zkh malloc (Some b) (Some d) = Some (True, Some (y @ NUL # drop (Suc (length y)) d))"
    unfolding Get_String_Between_Zkh_def using p(1) cut by (simp only: option.case prod.case Option.bind.bind_lunit simp_thms if_False)
  moreover have "holds (y @ NUL # drop (Suc (length y)) d) y" by (rule cut_holds(1) [OF h])
  ultimately show ?thesis using assms(4) by simp
qed

theorem between_brackets_witness:
  "\<exists>d'. Get_String_Between_Zkh calloc (Some (''a[bc]d'' @ [NUL])) (Some (replicate 3 NUL)) = Some (True, Some d') \<and> holds d' ''bc''"
  using between_brackets [of "''a[bc]d'' @ [NUL]" "''a''" "''bc''" "''d''" "replicate 3 NUL" calloc] by (auto simp: holds_def)

text \<open> \<^verbatim>\<open>Is_Digit_ByString\<close> returns 1 exactly for strings of digits with at most one point, which has a
  digit on either side; the empty string is among them.
\<close>

theorem digit_string:
  assumes "holds b s"
  shows "Is_Digit_ByString b = Some (if decimal s then 1 else 0)"
  by (rule Is_Digit_ByString_ok [OF assms])

theorem digit_string_witness:
  "Is_Digit_ByString (''3.14'' @ [NUL]) = Some 1 \<and> decimal ''3.14''"
proof -
  have "decimal ''3.14''" unfolding decimal_def
    by (intro disjI2 exI [of _ "''3''"] exI [of _ "''14''"]) (simp add: all_digits_def is_digit_def)
  moreover have "holds (''3.14'' @ [NUL]) ''3.14''" by (simp add: holds_def)
  ultimately show ?thesis using digit_string [of "''3.14'' @ [NUL]" "''3.14''"] by simp
qed

text \<open> \<^verbatim>\<open>Count_ChildStr_Num\<close> does not count: its only exit is \<^verbatim>\<open>return -1\<close>, and with an empty needle it
  does not return. As a consequence \<^verbatim>\<open>Replace_Str_To_Str_OrderByCount\<close> and
  \<^verbatim>\<open>Replace_Str_To_Str_First\<close> always return \<^verbatim>\<open>NULL\<close> and leave the destination alone.
\<close>

theorem count_and_replace_fail:
  assumes "holds b s" "holds a t" "0 \<le> n"
  shows "(t \<noteq> [] \<longrightarrow> Count_ChildStr_Num b a = Some (-1) \<and>
      Replace_Str_To_Str_OrderByCount malloc (Some b) (Some d) (Some a) (Some r) n = Some (False, Some d) \<and>
      Replace_Str_To_Str_First malloc (Some b) (Some d) (Some a) (Some r) = Some (False, Some d)) \<and>
    (t = [] \<longrightarrow> Count_ChildStr_Num b a = None)"
  using count_ends [OF assms(2) _ assms(1)] count_diverges [OF assms(1), of a] assms(2,3)
  by (auto simp: Count_ChildStr_Num_def Replace_Str_To_Str_OrderByCount_def Replace_Str_To_Str_First_def)

theorem count_and_replace_fail_witness:
  "Count_ChildStr_Num (''aba'' @ [NUL]) (''a'' @ [NUL]) = Some (-1) \<and>
   Replace_Str_To_Str_First calloc (Some (''aba'' @ [NUL])) (Some (replicate 9 NUL)) (Some (''a'' @ [NUL])) (Some (''x'' @ [NUL])) =
     Some (False, Some (replicate 9 NUL))"
  using count_and_replace_fail [of "''aba'' @ [NUL]" "''aba''" "''a'' @ [NUL]" "''a''" 1 calloc "replicate 9 NUL" "''x'' @ [NUL]"]
  by (simp add: holds_def)

text \<open>
  Growing strings. \<^verbatim>\<open>AddStr_Malloc\<close> returns a copy in a block of its own, or \<^verbatim>\<open>NULL\<close> if there is
  none. \<^verbatim>\<open>AddStr_Realloc\<close> appends to the string if the block grew in place, returns \<^verbatim>\<open>NULL\<close> if it
  could not grow, and has undefined behaviour if it was moved.
\<close>

theorem append_strings:
  assumes "holds b s" "holds a t" "serves malloc (Suc (length t))" "realloc b (length s + length t + 1) = Some (moved, p)"
    "length p = length s + length t + 1" "take (Suc (length s)) p = take (Suc (length s)) b"
  shows "AddStr_Malloc malloc a = Some (Some (t @ [NUL])) \<and> AddStr_Malloc (\<lambda>_. None) a = Some None \<and>
    AddStr_Realloc realloc b a = (if moved then None else Some (Some (s @ t @ [NUL]))) \<and>
    AddStr_Realloc (\<lambda>_ _. None) b a = Some None"
proof -
  obtain rb where b: "b = s @ NUL # rb" "NUL \<notin> set s" by (rule holdsE [OF assms(1)])
  obtain ra where a: "a = t @ NUL # ra" "NUL \<notin> set t" by (rule holdsE [OF assms(2)])
  obtain q where q: "malloc (Suc (length t)) = Some q" "length q = Suc (length t)" by (rule serves_block [OF assms(3) order.refl])
  have "take (Suc (length s)) p = s @ [NUL]" using assms(6) by (simp add: b)
  then obtain rp where rp: "p = s @ NUL # rp" by (metis append.assoc append_Cons append_Nil append_take_drop_id)
  have p: "holds p s" unfolding rp using b(2) by (rule holdsI)
  have z: "holds (replicate (Suc (length t)) NUL) []" by (simp add: holds_def)
  have "buf_strcat p a = Some (s @ t @ [NUL])"
    using assms(5) strlen_holds [OF p] strlen_holds [OF assms(2)] by (simp add: buf_strcat_def buf_copy_def rp a(1))
  moreover have "buf_strcat (replicate (Suc (length t)) NUL) a = Some (t @ [NUL])"
    using strlen_holds [OF z] strlen_holds [OF assms(2)] by (simp add: buf_strcat_def buf_copy_def a(1))
  moreover have "buf_zero q (Suc (length t)) = Some (replicate (Suc (length t)) NUL)" by (rule zero_all [OF q(2)])
  ultimately show ?thesis
    using q(1) assms(4) strlen_holds [OF assms(1)] strlen_holds [OF assms(2)]
    by (simp add: AddStr_Malloc_def AddStr_Realloc_def del: replicate_Suc)
qed

theorem append_strings_witness:
  "AddStr_Realloc (\<lambda>b n. Some (False, ''ab'' @ [NUL, NUL, NUL])) (''ab'' @ [NUL]) (''cd'' @ [NUL]) = Some (Some (''abcd'' @ [NUL]))"
  using append_strings [of "''ab'' @ [NUL]" "''ab''" "''cd'' @ [NUL]" "''cd''" calloc
      "\<lambda>b n. Some (False, ''ab'' @ [NUL, NUL, NUL])" False "''ab'' @ [NUL, NUL, NUL]"]
  by (simp add: holds_def)

text \<open>
  Letters. If the two counters of \<^verbatim>\<open>Is_EnglishChar_ByString\<close>, which the code does not initialise,
  start at 0, the function returns the documented code: 1 for lower case, 2 for upper case, 3 for
  both, 0 for anything else. \<^verbatim>\<open>Is_EnglishChar_Digit_ByString\<close> returns 1 for a string of digits, where
  4 is documented.
\<close>

theorem letter_codes:
  assumes "holds b s" "length s < 2 ^ 31"
  shows "Is_EnglishChar_ByString 0 0 b =
      Some (if s = [] \<or> (\<exists>c \<in> set s. \<not> is_lower c \<and> \<not> is_upper c) then 0
            else if \<forall>c \<in> set s. is_lower c then 1 else if \<forall>c \<in> set s. is_upper c then 2 else 3) \<and>
    (all_digits s \<longrightarrow> Is_EnglishChar_Digit_ByString junk b = Some 1)"
proof
  have excl: "\<not> (is_lower c \<and> is_upper c)" for c by (auto simp: is_lower_def is_upper_def)
  have "letter_loop b 0 0 [0..<length s] = Some (if \<forall>c \<in> set s. is_lower c \<or> is_upper c
      then Some (int (length (filter is_lower s)), int (length (filter is_upper s))) else None)"
    using letter_loop_ok [OF assms(1), of 0 0 0] assms(2) by simp
  then show "Is_EnglishChar_ByString 0 0 b =
      Some (if s = [] \<or> (\<exists>c \<in> set s. \<not> is_lower c \<and> \<not> is_upper c) then 0
            else if \<forall>c \<in> set s. is_lower c then 1 else if \<forall>c \<in> set s. is_upper c then 2 else 3)"
    using strlen_holds [OF assms(1)] excl
    by (cases s) (auto simp: Is_EnglishChar_ByString_def filter_empty_conv split: if_splits)
  show "all_digits s \<longrightarrow> Is_EnglishChar_Digit_ByString junk b = Some 1"
    using mixed_digits [OF assms(1), of 0 junk 0 0 0 0 0] strlen_holds [OF assms(1)]
    by (simp add: Is_EnglishChar_Digit_ByString_def)
qed

theorem letter_codes_witness:
  "Is_EnglishChar_ByString 0 0 (''Ab'' @ [NUL]) = Some 3 \<and> Is_EnglishChar_Digit_ByString (\<lambda>_. (0, 0)) (''42'' @ [NUL]) = Some 1"
  using letter_codes [of "''Ab'' @ [NUL]" "''Ab''"] letter_codes [of "''42'' @ [NUL]" "''42''" "\<lambda>_. (0, 0)"]
  by (simp add: holds_def is_lower_def is_upper_def all_digits_def is_digit_def)

end
