(* ===== verification/Bas_Hex_Util.thy ===== *)
theory Bas_Hex_Util
  imports C_Buffer
begin

text \<open>
  The conversions between bytes and text of \<^verbatim>\<open>Lib_bas/bas_hex_util.c\<close>: hexadecimal, and packed decimal
  with the odd digit at the end (\<^verbatim>\<open>Bcd\<close>) or at the front (\<^verbatim>\<open>Bc0\<close>). Source and destination are lists
  of bytes; an access outside them is undefined. The result is the destination and the pointer that
  is returned, which points into the source or into the destination.

  \<^verbatim>\<open>iLen/2\<close> is truncated towards zero, so a loop up to it runs \<open>nat (iLen div 2)\<close> times for every
  \<open>iLen\<close>, and \<^verbatim>\<open>iLen % 2\<close> is not 0 exactly for odd \<open>iLen\<close>.
\<close>

type_synonym byte = "8 word"

datatype place = InSrc nat | InDst nat

section \<open>Operations\<close>

definition BIN2HEX :: "byte \<Rightarrow> byte" where
  "BIN2HEX b = (if 10 \<le> b then b - 10 + 65 else b + 48)"

definition HEX2BIN :: "byte \<Rightarrow> byte" where
  "HEX2BIN h =
     (if 65 \<le> h \<and> h \<le> 90 then h - 65 + 10
      else if 97 \<le> h \<and> h \<le> 122 then h - 97 + 10
      else if 48 \<le> h \<and> h \<le> 57 then h - 48
      else 0)"

abbreviation hi :: "byte \<Rightarrow> byte" where
  "hi b \<equiv> drop_bit 4 (and b 0xF0)"

abbreviation lo :: "byte \<Rightarrow> byte" where
  "lo b \<equiv> and b 0x0F"

definition basBin2Hex :: "byte list \<Rightarrow> byte list \<Rightarrow> int \<Rightarrow> (byte list \<times> place) option" where
  "basBin2Hex pcDst pcSrc iLen =
     do { pcDst \<leftarrow> foldM (\<lambda>i d. do {
              b \<leftarrow> buf_load pcSrc i;
              d \<leftarrow> buf_store d (2 * i) (BIN2HEX (hi b));
              buf_store d (2 * i + 1) (BIN2HEX (lo b)) }) [0..<nat (iLen div 2)] pcDst;
          Some (pcDst, InSrc (nat (iLen div 2))) }"

definition basHex2Bin :: "byte list \<Rightarrow> byte list \<Rightarrow> int \<Rightarrow> (byte list \<times> place) option" where
  "basHex2Bin pcDst pcSrc iLen =
     do { pcDst \<leftarrow> foldM (\<lambda>i d. do {
              x \<leftarrow> buf_load pcSrc (2 * i);
              y \<leftarrow> buf_load pcSrc (2 * i + 1);
              buf_store d i (or (push_bit 4 (lo (HEX2BIN x))) (lo (HEX2BIN y))) }) [0..<nat (iLen div 2)] pcDst;
          Some (pcDst, InDst (nat (iLen div 2))) }"

definition basBcd2Asc :: "byte list \<Rightarrow> byte list \<Rightarrow> int \<Rightarrow> (byte list \<times> place) option" where
  "basBcd2Asc pcDst pcSrc iLen =
     do { let n = nat (iLen div 2);
          pcDst \<leftarrow> foldM (\<lambda>i d. do {
              b \<leftarrow> buf_load pcSrc i;
              d \<leftarrow> buf_store d (2 * i) (48 + hi b);
              buf_store d (2 * i + 1) (48 + lo b) }) [0..<n] pcDst;
          if odd iLen
          then do { b \<leftarrow> buf_load pcSrc n; pcDst \<leftarrow> buf_store pcDst (2 * n) (48 + hi b); Some (pcDst, InSrc n) }
          else Some (pcDst, InSrc n) }"

definition basAsc2Bcd :: "byte list \<Rightarrow> byte list \<Rightarrow> int \<Rightarrow> (byte list \<times> place) option" where
  "basAsc2Bcd pcDst pcSrc iLen =
     do { let n = nat (iLen div 2);
          pcDst \<leftarrow> foldM (\<lambda>i d. do {
              x \<leftarrow> buf_load pcSrc (2 * i);
              y \<leftarrow> buf_load pcSrc (2 * i + 1);
              buf_store d i (or (push_bit 4 (lo x)) (lo y)) }) [0..<n] pcDst;
          if odd iLen
          then do { x \<leftarrow> buf_load pcSrc (2 * n);
                    pcDst \<leftarrow> buf_store pcDst n (or (push_bit 4 (lo x)) 0x0F);
                    Some (pcDst, InDst (n + 1)) }
          else Some (pcDst, InDst n) }"

text \<open>\<open>k\<close> is what the first digit of an odd number of digits takes of the source and of the destination.\<close>

definition basBc02Asc :: "byte list \<Rightarrow> byte list \<Rightarrow> int \<Rightarrow> (byte list \<times> place) option" where
  "basBc02Asc pcDst pcSrc iLen =
     do { let n = nat (iLen div 2);
          let k = (if odd iLen then 1 else 0);
          pcDst \<leftarrow> (if odd iLen then do { b \<leftarrow> buf_load pcSrc 0; buf_store pcDst 0 (48 + lo b) } else Some pcDst);
          pcDst \<leftarrow> foldM (\<lambda>i d. do {
              b \<leftarrow> buf_load pcSrc (k + i);
              d \<leftarrow> buf_store d (k + 2 * i) (48 + hi b);
              buf_store d (k + 2 * i + 1) (48 + lo b) }) [0..<n] pcDst;
          Some (pcDst, InSrc (k + n)) }"

definition basAsc2Bc0 :: "byte list \<Rightarrow> byte list \<Rightarrow> int \<Rightarrow> (byte list \<times> place) option" where
  "basAsc2Bc0 pcDst pcSrc iLen =
     do { let n = nat (iLen div 2);
          let k = (if odd iLen then 1 else 0);
          pcDst \<leftarrow> (if odd iLen then do { x \<leftarrow> buf_load pcSrc 0; buf_store pcDst 0 (lo x) } else Some pcDst);
          pcDst \<leftarrow> foldM (\<lambda>i d. do {
              x \<leftarrow> buf_load pcSrc (k + 2 * i);
              y \<leftarrow> buf_load pcSrc (k + 2 * i + 1);
              buf_store d (k + i) (or (push_bit 4 (lo x)) (lo y)) }) [0..<n] pcDst;
          Some (pcDst, InDst (k + n)) }"

section \<open>Nibbles\<close>

lemma all_nibbles:
  assumes all: "list_all (\<lambda>n. P (word_of_nat n :: byte)) [0..<16]" and x: "x \<le> 15"
  shows "P x"
proof -
  have "unat x < 16" using x by (simp add: word_le_nat_alt)
  then have "unat x \<in> set [0..<16]" unfolding set_upt atLeastLessThan_iff by blast
  with all have "P (word_of_nat (unat x))" unfolding list_all_iff by (rule bspec)
  then show ?thesis by simp
qed

lemma less_8: "n < 8 \<Longrightarrow> n = 0 \<or> n = 1 \<or> n = 2 \<or> n = 3 \<or> n = 4 \<or> n = 5 \<or> n = 6 \<or> n = (7 :: nat)"
  by arith

lemma byte_eqI:
  fixes a b :: byte
  assumes "bit a 0 = bit b 0" "bit a 1 = bit b 1" "bit a 2 = bit b 2" "bit a 3 = bit b 3"
    "bit a 4 = bit b 4" "bit a 5 = bit b 5" "bit a 6 = bit b 6" "bit a 7 = bit b 7"
  shows "a = b"
proof (rule bit_word_eqI)
  fix n assume "n < LENGTH(8)"
  then have "n < 8" by simp
  then show "bit a n = bit b n" using assms less_8 [of n] by metis
qed

lemma nibbles_join: "or (push_bit 4 (hi b)) (lo b) = b"
  by (rule byte_eqI) (simp_all add: bit_simps)

lemma nibbles_split: "hi (or (push_bit 4 (lo x)) (lo y)) = lo x" "lo (or (push_bit 4 (lo x)) (lo y)) = lo y"
  "hi (or (push_bit 4 (lo x)) 0x0F) = lo x" "lo (lo x) = lo x"
  by (rule byte_eqI; simp add: bit_simps)+

lemma nibble_le: "lo b \<le> 15" "hi b \<le> 15"
proof -
  show "lo b \<le> 15" by (rule word_and_le1)
  have "hi b = lo (hi b)" by (rule byte_eqI) (simp_all add: bit_simps)
  also have "\<dots> \<le> 15" by (rule word_and_le1)
  finally show "hi b \<le> 15" .
qed

lemma hex_nibble: "x \<le> 15 \<Longrightarrow> lo (HEX2BIN (BIN2HEX x)) = x"
  by (erule all_nibbles [rotated]) code_simp

lemma hex_digits_back: "or (push_bit 4 (lo (HEX2BIN (BIN2HEX (hi b))))) (lo (HEX2BIN (BIN2HEX (lo b)))) = b"
  unfolding hex_nibble [OF nibble_le(1)] hex_nibble [OF nibble_le(2)] by (rule nibbles_join)

definition hex_digit :: "byte \<Rightarrow> bool" where
  "hex_digit x \<longleftrightarrow> 48 \<le> x \<and> x \<le> 57 \<or> 65 \<le> x \<and> x \<le> 70"

lemma hex_digit_nibble: "x \<le> 15 \<Longrightarrow> hex_digit (BIN2HEX x)"
  by (erule all_nibbles [rotated]) code_simp

lemma hex_digits: "hex_digit (BIN2HEX (hi b))" "hex_digit (BIN2HEX (lo b))"
  by (rule hex_digit_nibble, rule nibble_le)+

definition ascii_digit :: "byte \<Rightarrow> bool" where
  "ascii_digit x \<longleftrightarrow> 48 \<le> x \<and> x \<le> 57"

lemma digit_nibble: "ascii_digit x \<Longrightarrow> 48 + lo x = x"
proof -
  assume x: "ascii_digit x"
  then have n: "48 \<le> unat x" "unat x \<le> 57" by (simp_all add: ascii_digit_def word_le_nat_alt)
  then have le: "x - 48 \<le> 9" "x - 48 \<le> 15" by (simp_all add: word_le_nat_alt unat_sub)
  have "x - 48 \<le> 9 \<longrightarrow> 48 + lo (48 + (x - 48)) = 48 + (x - 48)"
    by (rule all_nibbles [where P = "\<lambda>y. y \<le> 9 \<longrightarrow> 48 + lo (48 + y) = 48 + y", OF _ le(2)]) code_simp
  with le(1) have "48 + lo (48 + (x - 48)) = 48 + (x - 48)" by blast
  then show "48 + lo x = x" by simp
qed

lemma pack_digits:
  assumes "ascii_digit x"
  shows "ascii_digit y \<Longrightarrow> 48 + hi (or (push_bit 4 (lo x)) (lo y)) = x \<and> 48 + lo (or (push_bit 4 (lo x)) (lo y)) = y"
    "48 + hi (or (push_bit 4 (lo x)) 0x0F) = x \<and> 48 + lo (lo x) = x"
  using digit_nibble [OF assms] digit_nibble [of y] by (simp_all only: nibbles_split)

section \<open>Loops\<close>

lemma take_Suc_drop: "n < length xs - k \<Longrightarrow> take (Suc n) (drop k xs) = take n (drop k xs) @ [xs ! (k + n)]"
  by (simp add: take_Suc_conv_app_nth)

lemma unpack_loop:
  assumes "k + n \<le> length src" "k + 2 * n \<le> length d"
  shows "foldM (\<lambda>i d. do { b \<leftarrow> buf_load src (k + i); d \<leftarrow> buf_store d (k + 2 * i) (f b); buf_store d (k + 2 * i + 1) (g b) }) [0..<n] d =
    Some (take k d @ concat (map (\<lambda>b. [f b, g b]) (take n (drop k src))) @ drop (k + 2 * n) d)"
  using assms
proof (induction n)
  case (Suc n)
  let ?xs = "take k d @ concat (map (\<lambda>b. [f b, g b]) (take n (drop k src)))" and ?b = "src ! (k + n)"
  have len: "length ?xs = k + 2 * n" using Suc.prems by (simp add: length_concat o_def sum_list_triv)
  have "buf_store (?xs @ drop (k + 2 * n) d) (k + 2 * n) (f ?b) = Some ((?xs @ [f ?b]) @ drop (Suc (k + 2 * n)) d)"
    using Suc.prems len by (intro store_at_end) auto
  moreover have "buf_store ((?xs @ [f ?b]) @ drop (Suc (k + 2 * n)) d) (Suc (k + 2 * n)) (g ?b) =
      Some (((?xs @ [f ?b]) @ [g ?b]) @ drop (Suc (Suc (k + 2 * n))) d)"
    using Suc.prems len by (intro store_at_end) auto
  moreover have "buf_load src (k + n) = Some ?b" using Suc.prems by (simp add: buf_load_def)
  moreover have "take (Suc n) (drop k src) = take n (drop k src) @ [?b]" using Suc.prems by (intro take_Suc_drop) auto
  ultimately show ?case using Suc.IH Suc.prems by (simp add: foldM_append)
qed simp

lemma pack_loop:
  assumes "k + 2 * n \<le> length src" "k + n \<le> length d"
  shows "foldM (\<lambda>i d. do { x \<leftarrow> buf_load src (k + 2 * i); y \<leftarrow> buf_load src (k + 2 * i + 1); buf_store d (k + i) (f x y) }) [0..<n] d =
    Some (take k d @ map (\<lambda>i. f (src ! (k + 2 * i)) (src ! (k + 2 * i + 1))) [0..<n] @ drop (k + n) d)"
  using assms
proof (induction n)
  case (Suc n)
  let ?xs = "take k d @ map (\<lambda>i. f (src ! (k + 2 * i)) (src ! (k + 2 * i + 1))) [0..<n]"
  have "buf_store (?xs @ drop (k + n) d) (k + n) c = Some ((?xs @ [c]) @ drop (Suc (k + n)) d)" for c
    using Suc.prems by (intro store_at_end) auto
  moreover have "buf_load src (k + 2 * n) = Some (src ! (k + 2 * n))" "buf_load src (k + 2 * n + 1) = Some (src ! (k + 2 * n + 1))"
    using Suc.prems by (simp_all add: buf_load_def)
  ultimately show ?case using Suc.IH Suc.prems by (simp add: foldM_append)
qed simp

lemma nth_pairs:
  "i < length bs \<Longrightarrow> concat (map (\<lambda>b. [f b, g b]) bs) ! (2 * i) = f (bs ! i) \<and> concat (map (\<lambda>b. [f b, g b]) bs) ! Suc (2 * i) = g (bs ! i)"
proof (induction bs arbitrary: i)
  case (Cons b bs)
  then show ?case by (cases i) auto
qed simp

lemma length_pairs: "length (concat (map (\<lambda>b. [f b, g b]) bs)) = 2 * length bs"
  by (induction bs) auto

lemma unpack_pack:
  assumes "k + 2 * m \<le> length ds" "\<forall>x \<in> set ds. ascii_digit x"
  shows "concat (map (\<lambda>b. [48 + hi b, 48 + lo b]) (map (\<lambda>i. or (push_bit 4 (lo (ds ! (k + 2 * i)))) (lo (ds ! (k + 2 * i + 1)))) [0..<m])) =
    take (2 * m) (drop k ds)"
  using assms(1)
proof (induction m)
  case (Suc m)
  have d: "ascii_digit (ds ! (k + 2 * m))" "ascii_digit (ds ! Suc (k + 2 * m))" using Suc.prems assms(2) by auto
  have "take (2 * Suc m) (drop k ds) = take (2 * m) (drop k ds) @ [ds ! (k + 2 * m), ds ! Suc (k + 2 * m)]"
    using take_Suc_drop [of "2 * m" ds k] take_Suc_drop [of "Suc (2 * m)" ds k] Suc.prems by simp
  then show ?case using Suc pack_digits(1) [OF d] by simp
qed simp

section \<open>Packed decimals\<close>

abbreviation packed :: "nat \<Rightarrow> byte list \<Rightarrow> nat \<Rightarrow> byte list" where
  "packed k ds m \<equiv> map (\<lambda>i. or (push_bit 4 (lo (ds ! (k + 2 * i)))) (lo (ds ! (k + 2 * i + 1)))) [0..<m]"

lemma bcd_back:
  assumes dig: "\<forall>x \<in> set ds. ascii_digit x" and d: "(length ds + 1) div 2 \<le> length d" and e: "length ds \<le> length e"
  obtains p where "basAsc2Bcd d ds (int (length ds)) = Some (p @ drop ((length ds + 1) div 2) d, InDst ((length ds + 1) div 2))"
    "basBcd2Asc e p (int (length ds)) = Some (ds @ drop (length ds) e, InSrc (length ds div 2))"
proof -
  let ?N = "length ds" and ?m = "length ds div 2"
  have half: "nat (int ?N div 2) = ?m" by (simp add: nat_div_distrib)
  have pack: "foldM (\<lambda>i d. do { x \<leftarrow> buf_load ds (2 * i); y \<leftarrow> buf_load ds (2 * i + 1); buf_store d i (or (push_bit 4 (lo x)) (lo y)) }) [0..<?m] d =
      Some (packed 0 ds ?m @ drop ?m d)"
    using pack_loop [of 0 ?m ds d "\<lambda>x y. or (push_bit 4 (lo x)) (lo y)"] d by simp
  have unpack: "foldM (\<lambda>i d. do { b \<leftarrow> buf_load (packed 0 ds ?m @ z) i; d \<leftarrow> buf_store d (2 * i) (48 + hi b); buf_store d (2 * i + 1) (48 + lo b) })
      [0..<?m] e = Some (take (2 * ?m) ds @ drop (2 * ?m) e)" for z
    using unpack_loop [of 0 ?m "packed 0 ds ?m @ z" e "\<lambda>b. 48 + hi b" "\<lambda>b. 48 + lo b"] unpack_pack [of 0 ?m ds] dig e by simp
  show ?thesis
  proof (cases "even ?N")
    case True
    then have "2 * ?m = ?N" "(?N + 1) div 2 = ?m" by auto
    with True pack unpack [of "[]"] show ?thesis
      by (intro that [of "packed 0 ds ?m"]) (simp_all add: basAsc2Bcd_def basBcd2Asc_def half Let_def)
  next
    case False
    then have N: "2 * ?m + 1 = ?N" "(?N + 1) div 2 = ?m + 1" by (auto elim: oddE)
    let ?x = "ds ! (2 * ?m)" and ?l = "or (push_bit 4 (lo (ds ! (2 * ?m)))) 0x0F"
    have x: "ascii_digit ?x" using dig N by simp
    have "buf_load ds (2 * ?m) = Some ?x" using N by (simp add: buf_load_def)
    moreover have "buf_store (packed 0 ds ?m @ drop ?m d) ?m ?l = Some ((packed 0 ds ?m @ [?l]) @ drop (Suc ?m) d)"
      using d N by (intro store_at_end) auto
    moreover have "buf_load (packed 0 ds ?m @ [?l]) ?m = Some ?l" by (simp add: buf_load_def nth_append)
    moreover have "buf_store (take (2 * ?m) ds @ drop (2 * ?m) e) (2 * ?m) (48 + hi ?l) =
        Some ((take (2 * ?m) ds @ [48 + hi ?l]) @ drop (Suc (2 * ?m)) e)"
      using e N by (intro store_at_end) auto
    moreover have "take (2 * ?m) ds @ [48 + hi ?l] = ds"
      using pack_digits(2) [OF x] N take_Suc_conv_app_nth [of "2 * ?m" ds] by simp
    ultimately show ?thesis using False N pack unpack [of "[?l]"]
      by (intro that [of "packed 0 ds ?m @ [?l]"]) (simp_all add: basAsc2Bcd_def basBcd2Asc_def half Let_def)
  qed
qed

lemma bc0_back:
  assumes dig: "\<forall>x \<in> set ds. ascii_digit x" and d: "(length ds + 1) div 2 \<le> length d" and e: "length ds \<le> length e"
  obtains p where "basAsc2Bc0 d ds (int (length ds)) = Some (p @ drop ((length ds + 1) div 2) d, InDst ((length ds + 1) div 2))"
    "basBc02Asc e p (int (length ds)) = Some (ds @ drop (length ds) e, InSrc ((length ds + 1) div 2))"
proof -
  let ?N = "length ds" and ?m = "length ds div 2" and ?k = "if odd (int (length ds)) then 1 else 0 :: nat"
  have half: "nat (int ?N div 2) = ?m" by (simp add: nat_div_distrib)
  have N: "?k + 2 * ?m = ?N" "(?N + 1) div 2 = ?k + ?m" by (auto elim: oddE)
  let ?f = "if odd (int ?N) then [lo (ds ! 0)] else []"
  obtain d' where d': "(if odd (int ?N) then do { x \<leftarrow> buf_load ds 0; buf_store d 0 (lo x) } else Some d) = Some d'"
    "take ?k d' = ?f" "length d' = length d" "drop (?k + ?m) d' = drop (?k + ?m) d"
  proof (cases "odd ?N")
    case True
    then have "0 < length d" "0 < ?N" using d by (auto elim: oddE)
    with True show ?thesis using that [of "d[0 := lo (ds ! 0)]"]
      by (cases d) (auto simp: buf_load_def buf_store_def)
  next
    case False
    then show ?thesis using that [of d] by simp
  qed
  let ?p = "?f @ packed ?k ds ?m"
  have pack: "foldM (\<lambda>i d. do { x \<leftarrow> buf_load ds (?k + 2 * i); y \<leftarrow> buf_load ds (?k + 2 * i + 1); buf_store d (?k + i) (or (push_bit 4 (lo x)) (lo y)) })
      [0..<?m] d' = Some (?p @ drop (?k + ?m) d)"
    using pack_loop [of ?k ?m ds d' "\<lambda>x y. or (push_bit 4 (lo x)) (lo y)"] d' d N by (simp only: append_assoc order.refl)
  obtain e' where e': "(if odd (int ?N) then do { b \<leftarrow> buf_load ?p 0; buf_store e 0 (48 + lo b) } else Some e) = Some e'"
    "take ?k e' = take ?k ds" "length e' = length e" "drop ?N e' = drop ?N e"
  proof (cases "odd ?N")
    case True
    then obtain x xs where ds: "ds = x # xs" by (cases ds) auto
    have "48 + lo (lo x) = x" using pack_digits(2) [of x] dig ds by simp
    moreover have "0 < length e" using e ds by auto
    ultimately show ?thesis using True that [of "e[0 := x]"] ds
      by (cases e) (auto simp: buf_load_def buf_store_def)
  next
    case False
    then show ?thesis using that [of e] by simp
  qed
  have "length ?f = ?k" by simp
  then have "take ?m (drop ?k ?p) = packed ?k ds ?m" "?k + ?m \<le> length ?p" by simp_all
  then have unpack: "foldM (\<lambda>i d. do { b \<leftarrow> buf_load ?p (?k + i); d \<leftarrow> buf_store d (?k + 2 * i) (48 + hi b); buf_store d (?k + 2 * i + 1) (48 + lo b) })
      [0..<?m] e' = Some (take ?k ds @ take (2 * ?m) (drop ?k ds) @ drop ?N e)"
    using unpack_loop [of ?k ?m ?p e' "\<lambda>b. 48 + hi b" "\<lambda>b. 48 + lo b"] unpack_pack [of ?k ?m ds] e' e dig N
    by (simp only: order.refl)
  have whole: "take ?k ds @ take (2 * ?m) (drop ?k ds) = ds" using N by (metis append_take_drop_id length_drop diff_add_inverse take_all_iff order.refl)
  show ?thesis
    using unpack [unfolded append_assoc [symmetric] whole] pack d'(1) e'(1)
    by (intro that [of ?p]) (simp_all only: basAsc2Bc0_def basBc02Asc_def half Let_def N Option.bind.bind_lunit)
qed

section \<open>Properties\<close>

text \<open> Hexadecimal round trip. \<^verbatim>\<open>basBin2Hex\<close> writes two upper-case hexadecimal digits for every byte, and
  \<^verbatim>\<open>basHex2Bin\<close> reads them back as the same bytes; both write nothing else.
\<close>

theorem hex_roundtrip:
  assumes "2 * length bs \<le> length d" "length bs \<le> length e"
  shows "\<exists>t. basBin2Hex d (bs @ r) (2 * int (length bs)) = Some (t @ drop (2 * length bs) d, InSrc (length bs)) \<and>
    length t = 2 * length bs \<and> (\<forall>x \<in> set t. hex_digit x) \<and>
    basHex2Bin e (t @ r') (2 * int (length bs)) = Some (bs @ drop (length bs) e, InDst (length bs))"
proof -
  let ?n = "length bs" and ?t = "concat (map (\<lambda>b. [BIN2HEX (hi b), BIN2HEX (lo b)]) bs)"
  have "basBin2Hex d (bs @ r) (2 * int ?n) = Some (?t @ drop (2 * ?n) d, InSrc ?n)"
    using unpack_loop [of 0 ?n "bs @ r" d "\<lambda>b. BIN2HEX (hi b)" "\<lambda>b. BIN2HEX (lo b)"] assms(1) by (simp add: basBin2Hex_def)
  moreover have bs: "map (\<lambda>i. or (push_bit 4 (lo (HEX2BIN ((?t @ r') ! (2 * i))))) (lo (HEX2BIN ((?t @ r') ! Suc (2 * i))))) [0..<?n] = bs"
    (is "map ?g _ = _")
  proof (rule nth_equalityI)
    fix i assume "i < length (map ?g [0..<?n])"
    then have i: "i < ?n" by simp
    then have "(?t @ r') ! (2 * i) = BIN2HEX (hi (bs ! i))" "(?t @ r') ! Suc (2 * i) = BIN2HEX (lo (bs ! i))"
      using nth_pairs [OF i, of "\<lambda>b. BIN2HEX (hi b)" "\<lambda>b. BIN2HEX (lo b)"] by (simp_all add: nth_append length_pairs)
    then show "map ?g [0..<?n] ! i = bs ! i" using i hex_digits_back [of "bs ! i"] by simp
  qed simp
  moreover have "basHex2Bin e (?t @ r') (2 * int ?n) = Some (map ?g [0..<?n] @ drop ?n e, InDst ?n)"
    using pack_loop [of 0 ?n "?t @ r'" e "\<lambda>x y. or (push_bit 4 (lo (HEX2BIN x))) (lo (HEX2BIN y))"] assms(2)
    by (simp add: basHex2Bin_def length_pairs)
  moreover have "\<forall>x \<in> set ?t. hex_digit x" using hex_digits by auto
  ultimately show ?thesis by (intro exI [of _ ?t]) (simp add: length_pairs)
qed

theorem hex_roundtrip_witness:
  "\<exists>t. basBin2Hex [0, 0, 0, 0, 7] [0xAB, 0x01] 4 = Some (t @ [7], InSrc 2) \<and> basHex2Bin [0, 0] t 4 = Some ([0xAB, 0x01], InDst 2)"
  using hex_roundtrip [of "[0xAB, 0x01]" "[0, 0, 0, 0, 7]" "[0, 0]" "[]" "[]"] by auto

text \<open> Packed decimal round trip, for any number of digits. \<^verbatim>\<open>basAsc2Bcd\<close> packs two digits per byte and
  fills an odd last byte with F, \<^verbatim>\<open>basAsc2Bc0\<close> puts the odd digit in front; \<^verbatim>\<open>basBcd2Asc\<close> and
  \<^verbatim>\<open>basBc02Asc\<close>, called with the number of digits, give the digits back.
\<close>

theorem bcd_roundtrip:
  assumes "\<forall>x \<in> set ds. ascii_digit x" "(length ds + 1) div 2 \<le> length d" "length ds \<le> length e"
  shows "(\<exists>p. basAsc2Bcd d ds (int (length ds)) = Some (p @ drop ((length ds + 1) div 2) d, InDst ((length ds + 1) div 2)) \<and>
      basBcd2Asc e p (int (length ds)) = Some (ds @ drop (length ds) e, InSrc (length ds div 2))) \<and>
    (\<exists>p. basAsc2Bc0 d ds (int (length ds)) = Some (p @ drop ((length ds + 1) div 2) d, InDst ((length ds + 1) div 2)) \<and>
      basBc02Asc e p (int (length ds)) = Some (ds @ drop (length ds) e, InSrc ((length ds + 1) div 2)))"
proof
  let ?N = "length ds" and ?m = "length ds div 2"
  show "\<exists>p. basAsc2Bcd d ds (int ?N) = Some (p @ drop ((?N + 1) div 2) d, InDst ((?N + 1) div 2)) \<and>
      basBcd2Asc e p (int ?N) = Some (ds @ drop ?N e, InSrc ?m)"
    by (rule bcd_back [OF assms]) blast
  show "\<exists>p. basAsc2Bc0 d ds (int ?N) = Some (p @ drop ((?N + 1) div 2) d, InDst ((?N + 1) div 2)) \<and>
      basBc02Asc e p (int ?N) = Some (ds @ drop ?N e, InSrc ((?N + 1) div 2))"
    by (rule bc0_back [OF assms]) blast
qed

theorem bcd_roundtrip_witness:
  "\<exists>p. basAsc2Bcd [0, 0] [49, 50, 51] 3 = Some (p, InDst 2) \<and> basBcd2Asc [0, 0, 0, 9] p 3 = Some ([49, 50, 51, 9], InSrc 1)"
  using bcd_roundtrip [of "[49, 50, 51]" "[0, 0]" "[0, 0, 0, 9]"] by (auto simp: ascii_digit_def)

end
