(* ===== verification/Lib_HEX.thy ===== *)
theory Lib_HEX
  imports C_Buffer "HOL-Library.Signed_Division"
begin

text \<open>
  The number conversions of \<^verbatim>\<open>Lib_HEX/lib_HEX.c\<close>: bits of a character as text, and numbers in base 2, 8
  and 16 as text and back. \<^verbatim>\<open>int\<close> arithmetic that leaves 32 bits is undefined; \<^verbatim>\<open>/\<close> and \<^verbatim>\<open>%\<close> truncate
  towards zero (\<open>sdiv\<close>, \<open>smod\<close>).
\<close>

section \<open>Bits of a character\<close>

text \<open>The value of a \<^verbatim>\<open>char\<close> promoted to \<^verbatim>\<open>int\<close>, as a word.\<close>

definition promote :: "char \<Rightarrow> 32 word" where
  "promote c = word_of_int (schar c)"

definition convert_charto8bit :: "char \<Rightarrow> buffer \<Rightarrow> buffer option" where
  "convert_charto8bit c sStr_Point =
     buf_copy sStr_Point 0
       (map (\<lambda>i. if and (promote c) (drop_bit i 0x80) \<noteq> 0 then CHR ''1'' else CHR ''0'') [0..<8]) 8"

text \<open>
  \<^verbatim>\<open>Char_To_StrBin\<close>, writing from \<open>off\<close> on: each \<^verbatim>\<open>strcpy\<close> writes a digit and a terminator. The masks are
  of type \<^verbatim>\<open>char\<close>, so the one for the highest bit is promoted to -128.
\<close>

definition Char_To_StrBin :: "char \<Rightarrow> buffer \<Rightarrow> nat \<Rightarrow> buffer option" where
  "Char_To_StrBin src_char out_str_bin off =
     foldM (\<lambda>i d. let mask = 2 ^ (7 - i) in
         buf_copy d (off + i)
           [if and (promote src_char) (promote (char_of (mask :: nat))) = of_nat mask then CHR ''1'' else CHR ''0'', NUL] 2)
       [0..<8] out_str_bin"

definition MultipleChar_To_StrBin :: "buffer \<Rightarrow> buffer \<Rightarrow> int \<Rightarrow> buffer option" where
  "MultipleChar_To_StrBin src_char out_str_bin iNum_Char =
     foldM (\<lambda>i d. do { c \<leftarrow> buf_load src_char i; Char_To_StrBin c d (i * 8) }) [0..<nat iNum_Char] out_str_bin"

section \<open>Reading numbers\<close>

definition in_int :: "int \<Rightarrow> bool" where
  "in_int x \<longleftrightarrow> - (2 ^ 31) \<le> x \<and> x < 2 ^ 31"

text \<open>One step of the three loops: \<open>acc * base + digit\<close> in \<^verbatim>\<open>int\<close>.\<close>

definition accumulate :: "int \<Rightarrow> int \<Rightarrow> int \<Rightarrow> int option" where
  "accumulate base acc digit =
     (if in_int (acc * base) \<and> in_int (acc * base + digit) then Some (acc * base + digit) else None)"

definition From_2Jz_To_10Jz :: "allocator \<Rightarrow> buffer \<Rightarrow> int option" where
  "From_2Jz_To_10Jz malloc s2Jz_Str_In =
     do { n \<leftarrow> buf_strlen s2Jz_Str_In;
          p \<leftarrow> malloc (n + 1);
          p \<leftarrow> buf_copy p 0 s2Jz_Str_In n;
          foldM (\<lambda>i iOut. do { c \<leftarrow> buf_load p i; accumulate 2 iOut (schar c - 48) }) [0..<n] 0 }"

fun octal_loop :: "buffer \<Rightarrow> int \<Rightarrow> int option" where
  "octal_loop [] r = None"
| "octal_loop (c # s) r = (if c \<noteq> NUL then do { r \<leftarrow> accumulate 8 r (schar c - 48); octal_loop s r } else Some r)"

definition From_8Jz_To_10Jz :: "buffer \<Rightarrow> int option" where
  "From_8Jz_To_10Jz s8Jz_Str_In = octal_loop s8Jz_Str_In 0"

definition hex_value :: "char \<Rightarrow> int" where
  "hex_value c =
     (if 65 \<le> schar c \<and> schar c \<le> 70 then schar c - 65 + 10
      else if 97 \<le> schar c \<and> schar c \<le> 102 then schar c - 97 + 10
      else schar c - 48)"

definition From_16Jz_To_10Jz :: "buffer \<Rightarrow> int option" where
  "From_16Jz_To_10Jz sTmp_Out =
     do { n \<leftarrow> buf_strlen sTmp_Out;
          foldM (\<lambda>i iReturn. do { c \<leftarrow> buf_load sTmp_Out i; accumulate 16 iReturn (hex_value c) }) [0..<n] 0 }"

section \<open>Writing numbers\<close>

text \<open>\<^verbatim>\<open>>>\<close> of a negative \<^verbatim>\<open>int\<close> keeps the sign, as on the platforms the library is built for.\<close>

definition From_10Jz_To_2Jz :: "32 word \<Rightarrow> buffer \<Rightarrow> buffer option" where
  "From_10Jz_To_2Jz iInt_In sBin_Out =
     do { sBin_Tmp \<leftarrow> foldM (\<lambda>i s.
              if and (signed_drop_bit i iInt_In) 1 = 0 then buf_copy s (32 - 1 - i) ''0'' 1
              else buf_copy s (32 - 1 - i) ''1'' 1) [0..<32] (replicate (8 * 4 + 1) NUL);
          n \<leftarrow> buf_strlen sBin_Tmp;
          buf_copy sBin_Out 0 sBin_Tmp n }"

text \<open>
  The index into \<^verbatim>\<open>sBit\<close>, an array of 17 bytes, is the remainder, which is negative for negative numbers.
\<close>

definition sBit :: buffer where
  "sBit = ''0123456789ABCDEF'' @ [NUL]"

partial_function (option) func_10_Jzzh :: "buffer \<Rightarrow> int \<Rightarrow> int \<Rightarrow> buffer option" where
  "func_10_Jzzh sTmp_Out i10Jz_Num iJz =
     (if i10Jz_Num = 0 then buf_strcpy sTmp_Out [NUL]
      else if iJz = 0 \<or> \<not> in_int (i10Jz_Num sdiv iJz) then None
      else do {
        sTmp_Out \<leftarrow> func_10_Jzzh sTmp_Out (i10Jz_Num sdiv iJz) iJz;
        iLen \<leftarrow> buf_strlen sTmp_Out;
        if i10Jz_Num smod iJz < 0 then None
        else do {
          c \<leftarrow> buf_load sBit (nat (i10Jz_Num smod iJz));
          sTmp_Out \<leftarrow> buf_store sTmp_Out iLen c;
          buf_store sTmp_Out (iLen + 1) NUL } })"

definition From_10Jz_To_8Jz :: "int \<Rightarrow> buffer \<Rightarrow> buffer option" where
  "From_10Jz_To_8Jz iInt_In s8Jz_Out = func_10_Jzzh s8Jz_Out iInt_In 8"

definition From_10Jz_To_16Jz :: "int \<Rightarrow> buffer \<Rightarrow> buffer option" where
  "From_10Jz_To_16Jz iInt_In s16Jz_Out = func_10_Jzzh s16Jz_Out iInt_In 16"

section \<open>Positional notation\<close>

fun show_base :: "nat \<Rightarrow> nat \<Rightarrow> string" where
  "show_base b n = (if n = 0 \<or> b < 2 then [] else show_base b (n div b) @ [sBit ! (n mod b)])"

declare show_base.simps [simp del]

lemma show_base_0 [simp]: "show_base b 0 = []"
  by (simp add: show_base.simps)

lemma show_base_step: "0 < n \<Longrightarrow> 2 \<le> b \<Longrightarrow> show_base b n = show_base b (n div b) @ [sBit ! (n mod b)]"
  by (subst show_base.simps) simp

lemma less_16: "d < (16 :: nat) \<Longrightarrow> d \<in> {0, 1, 2, 3, 4, 5, 6, 7, 8, 9, 10, 11, 12, 13, 14, 15}"
  unfolding insert_iff empty_iff by presburger

lemma digit_load: "d < 16 \<Longrightarrow> buf_load sBit d = Some (sBit ! d)"
  by (drule less_16) (auto simp: buf_load_def sBit_def)

lemma hex_value_digit: "d < 16 \<Longrightarrow> hex_value (sBit ! d) = int d"
  by (drule less_16) (auto simp: hex_value_def schar_def sBit_def)

lemma digit_not_NUL: "d < 16 \<Longrightarrow> sBit ! d \<noteq> NUL"
  by (drule less_16) (auto simp: sBit_def)

lemma small_digit: "d < 10 \<Longrightarrow> schar (sBit ! d) - 48 = int d"
  using less_16 [of d] by (auto simp: schar_def sBit_def)

lemma show_base_no_NUL: "b \<le> 16 \<Longrightarrow> NUL \<notin> set (show_base b n)"
proof (induction b n rule: show_base.induct)
  case (1 b n)
  show ?case
  proof (cases "n = 0 \<or> b < 2")
    case False
    then have "n mod b < 16" using 1(2) by (meson less_le_trans mod_less_divisor not_less zero_less_numeral order.strict_trans2)
    with 1 False show ?thesis using digit_not_NUL [of "n mod b"] by (simp add: show_base_step)
  qed (simp add: show_base.simps)
qed

lemma func_10_Jzzh_ok:
  "2 \<le> b \<Longrightarrow> b \<le> 16 \<Longrightarrow> n < 2 ^ 31 \<Longrightarrow> length (show_base b n) < length d \<Longrightarrow>
   func_10_Jzzh d (int n) (int b) = Some (show_base b n @ NUL # drop (Suc (length (show_base b n))) d)"
proof (induction b n rule: show_base.induct)
  case (1 b n)
  show ?case
  proof (cases "n = 0")
    case True
    have "holds [NUL] []" by (simp add: holds_def)
    then show ?thesis using True 1 strcpy_holds [of "[NUL]" "[]" d] by (simp add: func_10_Jzzh.simps)
  next
    case False
    let ?s = "show_base b (n div b)" and ?c = "sBit ! (n mod b)"
    have s: "show_base b n = ?s @ [?c]" using False 1 by (simp add: show_base_step)
    have q: "int n sdiv int b = int (n div b)" "int n smod int b = int (n mod b)"
      by (simp_all add: signed_divide_int_def signed_modulo_int_def zdiv_int zmod_int sgn_if)
    have "n div b \<le> n" by simp
    then have small: "n div b < 2 ^ 31" using 1(4) by linarith
    have IH: "func_10_Jzzh d (int (n div b)) (int b) = Some (?s @ NUL # drop (Suc (length ?s)) d)"
      using 1(1) False 1(2-5) small s by simp
    have m: "n mod b < 16" using 1(2,3) by (meson less_le_trans mod_less_divisor order.strict_trans2 zero_less_numeral)
    note load = digit_load [OF m]
    have "holds (?s @ NUL # drop (Suc (length ?s)) d) ?s" using show_base_no_NUL [OF 1(3)] by (rule holdsI)
    then have len: "buf_strlen (?s @ NUL # drop (Suc (length ?s)) d) = Some (length ?s)" by (rule strlen_holds)
    have st1: "buf_store (?s @ NUL # drop (Suc (length ?s)) d) (length ?s) ?c = Some (?s @ ?c # drop (Suc (length ?s)) d)"
      by (simp add: buf_store_def)
    have st2: "buf_store (?s @ ?c # drop (Suc (length ?s)) d) (Suc (length ?s)) NUL = Some (((?s @ [?c]) @ [NUL]) @ drop (Suc (Suc (length ?s))) d)"
      using store_at_end [of "Suc (length ?s)" d "?s @ [?c]" NUL] 1(5) s by simp
    have "in_int (int n sdiv int b)" using small by (simp add: q in_int_def)
    then show ?thesis
      using False 1(2) unfolding s by (subst func_10_Jzzh.simps) (simp add: q IH len load st1 st2)
  qed
qed

lemma accumulate_ok: "0 \<le> a \<Longrightarrow> 0 \<le> digit \<Longrightarrow> 0 \<le> base \<Longrightarrow> a * base + digit < 2 ^ 31 \<Longrightarrow> accumulate base a digit = Some (a * base + digit)"
proof -
  assume *: "0 \<le> a" "0 \<le> digit" "0 \<le> base" "a * base + digit < 2 ^ 31"
  then have "0 \<le> a * base" by simp
  with * have "in_int (a * base)" "in_int (a * base + digit)" unfolding in_int_def by linarith+
  then show ?thesis by (simp add: accumulate_def)
qed

lemma read_base:
  assumes val: "\<And>d. d < b \<Longrightarrow> val (sBit ! d) = int d" and b: "2 \<le> b"
  shows "n < 2 ^ 31 \<Longrightarrow> foldM (\<lambda>c a. accumulate (int b) a (val c)) (show_base b n) 0 = Some (int n)"
proof (induction n rule: less_induct)
  case (less n)
  show ?case
  proof (cases "n = 0")
    case False
    have "n div b < n" using False b by (intro div_less_dividend) auto
    then have IH: "foldM (\<lambda>c a. accumulate (int b) a (val c)) (show_base b (n div b)) 0 = Some (int (n div b))"
      using less.IH less.prems by simp
    have m: "n mod b < b" using b by simp
    have n: "int (n div b) * int b + int (n mod b) = int n" by (metis div_mult_mod_eq of_nat_add of_nat_mult)
    have "accumulate (int b) (int (n div b)) (int (n mod b)) = Some (int n)"
      using accumulate_ok [of "int (n div b)" "int (n mod b)" "int b"] less.prems unfolding n by simp
    then show ?thesis using IH b False by (simp add: show_base_step foldM_append val [OF m])
  qed simp
qed

lemma load_loop:
  assumes "holds b s"
  shows "foldM (\<lambda>i a. do { c \<leftarrow> buf_load b i; f c a }) [0..<length s] a = foldM f s a"
proof -
  have "foldM (\<lambda>i a. do { c \<leftarrow> buf_load b i; f c a }) [i..<length s] a = foldM f (drop i s) a" if "i \<le> length s" for i
    using that
  proof (induction "length s - i" arbitrary: i a)
    case (Suc m)
    then have lt: "i < length s" by simp
    have d: "drop i s = s ! i # drop (Suc i) s" by (rule Cons_nth_drop_Suc [OF lt, symmetric])
    have "foldM (\<lambda>i a. do { c \<leftarrow> buf_load b i; f c a }) [Suc i..<length s] a' = foldM f (drop (Suc i) s) a'" for a'
      using Suc.hyps(1) [of "Suc i" a'] Suc.hyps(2) lt by simp
    then show ?case unfolding d using load_holds [OF assms lt] lt by (simp add: upt_conv_Cons split: option.splits)
  qed simp
  then show ?thesis by simp
qed

lemma octal_loop_ok: "NUL \<notin> set s \<Longrightarrow> octal_loop (s @ NUL # r) a = foldM (\<lambda>c a. accumulate 8 a (schar c - 48)) s a"
  by (induction s arbitrary: a) (auto split: option.splits bind_splits)

section \<open>Binary notation\<close>

abbreviation bit_char :: "bool \<Rightarrow> char" where
  "bit_char x \<equiv> (if x then CHR ''1'' else CHR ''0'')"

definition binary :: "32 word \<Rightarrow> string" where
  "binary w = map (\<lambda>j. bit_char (bit w (31 - j))) [0..<32]"

lemma copy_one: "buf_copy s j [c] 1 = buf_store s j c"
  by (auto simp: buf_copy_def buf_store_def upd_conv_take_nth_drop)

lemma store_from_end:
  assumes "n \<le> length s"
  shows "k \<le> n \<Longrightarrow> foldM (\<lambda>i s. buf_store s (n - 1 - i) (f i)) [0..<k] s =
    Some (take (n - k) s @ map (\<lambda>j. f (n - 1 - j)) [n - k..<n] @ drop n s)"
proof (induction k)
  case (Suc k)
  let ?t = "map (\<lambda>j. f (n - 1 - j)) [n - k..<n] @ drop n s" and ?i = "n - Suc k"
  have i: "?i < length s" "n - k = Suc ?i" using Suc.prems assms by simp_all
  have take: "take (n - k) s = take ?i s @ [s ! ?i]" unfolding i(2) using i(1) by (simp add: take_Suc_conv_app_nth)
  have "buf_store (take (n - k) s @ ?t) ?i (f k) = Some (take ?i s @ f k # ?t)"
    unfolding take using i(1) by (simp add: buf_store_def list_update_append)
  moreover have "[?i..<n] = ?i # [n - k..<n]" unfolding i(2) using Suc.prems by (simp add: upt_conv_Cons)
  moreover have "n - 1 - ?i = k" using Suc.prems by simp
  ultimately show ?case using Suc.IH Suc.prems by (simp add: foldM_append)
qed simp

lemma low_bit: "i < 32 \<Longrightarrow> and (signed_drop_bit i (w :: 32 word)) 1 = 0 \<longleftrightarrow> \<not> bit w i"
  using and_exp_eq_0_iff_not_bit [of "signed_drop_bit i w" 0] by (simp add: bit_signed_drop_bit_iff del: bit_0)

lemma binary_no_NUL: "NUL \<notin> set (binary w)"
  by (auto simp: binary_def)

lemma From_10Jz_To_2Jz_ok:
  assumes "32 \<le> length d"
  shows "From_10Jz_To_2Jz w d = Some (binary w @ drop 32 d)"
proof -
  have "foldM (\<lambda>i s. if and (signed_drop_bit i w) 1 = 0 then buf_copy s (32 - 1 - i) ''0'' 1 else buf_copy s (32 - 1 - i) ''1'' 1)
      [0..<32] (replicate (8 * 4 + 1) NUL) =
    foldM (\<lambda>i s. buf_store s (32 - 1 - i) (bit_char (bit w i))) [0..<32] (replicate (8 * 4 + 1) NUL)"
    by (rule foldM_cong [OF refl refl]) (simp only: copy_one low_bit set_upt atLeastLessThan_iff split: if_split, blast)
  also have "\<dots> = Some (take (32 - 32) (replicate (8 * 4 + 1) NUL) @ map (\<lambda>j. bit_char (bit w (32 - 1 - j))) [32 - 32..<32] @
      drop 32 (replicate (8 * 4 + 1) NUL))"
    by (rule store_from_end) simp_all
  finally have loop: "foldM (\<lambda>i s. if and (signed_drop_bit i w) 1 = 0 then buf_copy s (32 - 1 - i) ''0'' 1 else buf_copy s (32 - 1 - i) ''1'' 1)
      [0..<32] (replicate (8 * 4 + 1) NUL) = Some (binary w @ [NUL])"
    by (simp add: binary_def)
  have len: "length (binary w) = 32" by (simp add: binary_def)
  have "holds (binary w @ [NUL]) (binary w)" using binary_no_NUL by (rule holdsI)
  then have n: "buf_strlen (binary w @ [NUL]) = Some 32" using strlen_holds len by metis
  have "buf_copy d 0 (binary w @ [NUL]) 32 = Some (binary w @ drop 32 d)" using assms len by (simp add: buf_copy_def)
  then show ?thesis unfolding From_10Jz_To_2Jz_def loop by (simp only: n Option.bind.bind_lunit)
qed

lemma bit_odd: "bit (w :: 32 word) j \<longleftrightarrow> odd (unat w div 2 ^ j)"
proof -
  have "bit (unat w) j \<longleftrightarrow> bit w j" by (simp add: bit_unsigned_iff)
  then show ?thesis by (simp add: bit_iff_odd)
qed

abbreviation read_bit :: "char \<Rightarrow> int \<Rightarrow> int option" where
  "read_bit c a \<equiv> accumulate 2 a (schar c - 48)"

lemma read_bit_char: "accumulate 2 a (schar (bit_char x) - 48) = accumulate 2 a (of_bool x)"
  by (simp add: schar_def)

lemma binary_prefix:
  "k \<le> 32 \<Longrightarrow> unat w div 2 ^ (32 - k) < 2 ^ 31 \<Longrightarrow> foldM read_bit (take k (binary w)) 0 = Some (int (unat w div 2 ^ (32 - k)))"
proof (induction k)
  case 0
  have "unat w < 2 ^ LENGTH(32)" by (rule unsigned_less)
  then show ?case by simp
next
  case (Suc k)
  let ?q = "unat w div 2 ^ (31 - k)"
  have e: "32 - k = Suc (31 - k)" "32 - Suc k = 31 - k" using Suc.prems by simp_all
  have half: "unat w div 2 ^ (32 - k) = ?q div 2" unfolding e(1) by (simp only: power_Suc2 div_mult2_eq)
  have q: "?q < 2 ^ 31" using Suc.prems(2) unfolding e(2) .
  then have "foldM read_bit (take k (binary w)) 0 = Some (int (?q div 2))" using Suc unfolding half by simp
  moreover have "take (Suc k) (binary w) = take k (binary w) @ [bit_char (bit w (31 - k))]"
    using Suc.prems by (simp add: binary_def take_Suc_conv_app_nth)
  moreover have "int (?q div 2) * 2 + of_bool (bit w (31 - k)) = int ?q"
    unfolding bit_odd by (cases "odd ?q") (auto elim!: oddE)
  then have "accumulate 2 (int (?q div 2)) (of_bool (bit w (31 - k))) = Some (int ?q)"
    using accumulate_ok [of "int (?q div 2)" "of_bool (bit w (31 - k))" 2] q by simp
  ultimately show ?case unfolding e(2) by (simp add: foldM_append read_bit_char del: take_Suc)
qed

lemma binary_value:
  "foldM read_bit (binary w) 0 = (if unat w < 2 ^ 31 then Some (int (unat w)) else None)"
proof (cases "unat w < 2 ^ 31")
  case True
  have "take 32 (binary w) = binary w" by (simp add: binary_def)
  then show ?thesis using binary_prefix [of 32 w] True by simp
next
  case False
  have lt: "unat w < 2 ^ LENGTH(32)" by (rule unsigned_less)
  have b: "binary w = take 31 (binary w) @ [bit_char (bit w 0)]"
    using upt_Suc_append [of 0 31] by (simp add: binary_def)
  have "foldM read_bit (take 31 (binary w)) 0 = Some (int (unat w div 2))" using binary_prefix [of 31 w] lt by simp
  moreover have "\<not> in_int (int (unat w div 2) * 2)" using False by (simp add: in_int_def)
  ultimately show ?thesis using False by (subst b) (simp add: foldM_append accumulate_def)
qed

lemma sint_unat: "0 \<le> sint w \<longleftrightarrow> unat w < 2 ^ 31" "unat w < 2 ^ 31 \<Longrightarrow> sint w = int (unat w)" for w :: "32 word"
proof -
  define n where "n = unat w"
  have "n < 2 ^ LENGTH(32)" unfolding n_def by (rule unsigned_less)
  then have u: "int n < 2 ^ 32" by simp
  have "sint w = signed_take_bit 31 (uint w)" using sint_sbintrunc' [of "uint w", where 'a = 32] by simp
  also have "\<dots> = (uint w + 2 ^ 31) mod 2 ^ 32 - 2 ^ 31" by (simp add: signed_take_bit_eq_take_bit_shift take_bit_eq_mod)
  finally have s: "sint w = (int n + 2 ^ 31) mod 2 ^ 32 - 2 ^ 31" by (simp add: n_def)
  have small: "sint w = int n" if "n < 2 ^ 31" unfolding s using that by simp
  have "(int n + 2 ^ 31) mod 2 ^ 32 = int n + 2 ^ 31 - 2 ^ 32" if "\<not> n < 2 ^ 31"
    using that u by (subst mod_pos_geq) simp_all
  then have "sint w < 0" if "\<not> n < 2 ^ 31" unfolding s using that u by simp
  with small show "0 \<le> sint w \<longleftrightarrow> unat w < 2 ^ 31" "unat w < 2 ^ 31 \<Longrightarrow> sint w = int (unat w)"
    unfolding n_def by fastforce+
qed

lemma From_2Jz_To_10Jz_ok:
  assumes h: "holds b s" and m: "serves malloc (Suc (length s))"
  shows "From_2Jz_To_10Jz malloc b = foldM read_bit s 0"
proof -
  obtain p where p: "malloc (Suc (length s)) = Some p" "length p = Suc (length s)" by (rule serves_block [OF m order.refl])
  have cp: "buf_copy p 0 b (length s) = Some (s @ drop (length s) p)"
    using p(2) holds_length [OF h] holds_take(1) [OF h] by (simp add: buf_copy_def)
  have "buf_load (s @ drop (length s) p) i = buf_load b i" if "i < length s" for i
    using that load_holds [OF h that] by (simp add: buf_load_def nth_append)
  then have "foldM (\<lambda>i a. do { c \<leftarrow> buf_load (s @ drop (length s) p) i; read_bit c a }) [0..<length s] 0 =
      foldM (\<lambda>i a. do { c \<leftarrow> buf_load b i; read_bit c a }) [0..<length s] 0"
    by (intro foldM_cong [OF refl refl]) simp
  also have "\<dots> = foldM read_bit s 0" by (rule load_loop [OF h])
  finally show ?thesis using strlen_holds [OF h] p(1) cp by (simp add: From_2Jz_To_10Jz_def)
qed

section \<open>Bits of a character\<close>

lemma small_index: "j < 8 \<Longrightarrow> j \<in> {0, 1, 2, 3, 4, 5, 6, 7 :: nat}"
  unfolding insert_iff empty_iff by presburger

lemma bit_mod_256: "j < 8 \<Longrightarrow> bit (x - 256) j = bit x j" for x :: int
proof -
  have "take_bit 8 (x - 256) = take_bit 8 x" by (simp add: take_bit_eq_mod)
  then have "bit (take_bit 8 (x - 256)) j = bit (take_bit 8 x) j" by simp
  then show "j < 8 \<Longrightarrow> bit (x - 256) j = bit x j" by (simp add: bit_take_bit_iff)
qed

lemma promote_bit: "j < 8 \<Longrightarrow> bit (promote c) j = bit (of_char c :: nat) j"
proof -
  assume j: "j < 8"
  have "bit (schar c) j = bit (int (of_char c)) j" using bit_mod_256 [OF j] by (simp add: schar_def Let_def)
  also have "\<dots> = bit (of_char c :: nat) j" by (simp only: bit_of_nat_iff_bit)
  finally show ?thesis using j by (simp add: promote_def bit_word_of_int_iff)
qed

lemma promote_sign: "bit (promote c) 8 = bit (promote c) 7"
proof -
  have "- 128 \<le> schar c" "schar c < 128" using nat_of_char_less_256 [of c] by (auto simp: schar_def Let_def simp del: nat_of_char_less_256)
  then have "schar c div 256 = schar c div 128"
    using div_pos_neg_trivial [of "- schar c" "- 256"] div_pos_neg_trivial [of "- schar c" "- 128"]
    by (cases "0 \<le> schar c") simp_all
  then have "bit (schar c) 8 = bit (schar c) 7" by (simp add: bit_iff_odd)
  then show ?thesis by (simp add: promote_def bit_word_of_int_iff)
qed

lemma mask_bit: "and x (2 ^ j) = 2 ^ j \<longleftrightarrow> bit x j" if "j < 32" for x :: "32 word"
proof
  assume "and x (2 ^ j) = 2 ^ j"
  then have "bit (and x (2 ^ j)) j" using that by (simp add: bit_exp_iff)
  then show "bit x j" by (simp add: bit_and_iff)
next
  assume "bit x j"
  then show "and x (2 ^ j) = 2 ^ j" by (intro bit_word_eqI) (auto simp: bit_and_iff bit_exp_iff)
qed

lemma promote_mask: "j < 7 \<Longrightarrow> promote (char_of (2 ^ j :: nat)) = 2 ^ j"
  by (subgoal_tac "j \<in> {0, 1, 2, 3, 4, 5, 6}") (auto simp: promote_def schar_def)

lemma top_mask: "and (promote c) (promote (char_of (2 ^ 7 :: nat))) \<noteq> 2 ^ 7"
proof
  assume eq: "and (promote c) (promote (char_of (2 ^ 7 :: nat))) = 2 ^ 7"
  have p: "promote (char_of (2 ^ 7 :: nat)) = - 128" by (simp add: promote_def schar_def)
  have "bit (and (promote c) (- 128)) 7" "\<not> bit (and (promote c) (- 128)) 8" using eq unfolding p by simp_all
  then show False using promote_sign [of c] by (simp add: bit_and_iff)
qed

lemma strcpy_loop:
  assumes "off + k + 2 \<le> length d"
  shows "foldM (\<lambda>i d. buf_copy d (off + i) [f i, NUL] 2) [0..<Suc k] d =
    Some (take off d @ map f [0..<Suc k] @ NUL # drop (off + k + 2) d)"
  using assms
proof (induction k)
  case 0
  then show ?case by (simp add: buf_copy_def)
next
  case (Suc k)
  let ?x = "take off d @ map f [0..<Suc k]"
  have len: "length ?x = off + Suc k" using Suc.prems by simp
  have "buf_copy (?x @ NUL # drop (off + k + 2) d) (off + Suc k) [f (Suc k), NUL] 2 =
      Some (?x @ [f (Suc k), NUL] @ drop (off + Suc k + 2) d)"
    using Suc.prems unfolding buf_copy_def len [symmetric] by (simp add: drop_Cons' del: upt_Suc)
  moreover have u: "[0..<Suc (Suc k)] = [0..<Suc k] @ [Suc k]" by simp
  ultimately show ?case unfolding u foldM_append using Suc.IH Suc.prems by (simp del: upt_Suc)
qed

section \<open>Properties\<close>

text \<open> Octal and hexadecimal round trip. A number that is not negative, written by
  \<^verbatim>\<open>From_10Jz_To_8Jz\<close> or \<^verbatim>\<open>From_10Jz_To_16Jz\<close> into a buffer that has room for its digits, is read back by
  \<^verbatim>\<open>From_8Jz_To_10Jz\<close> and \<^verbatim>\<open>From_16Jz_To_10Jz\<close>; the recursion ends for every such number.
\<close>

theorem base_roundtrip:
  assumes "n < 2 ^ 31" "length (show_base 8 n) < length d" "length (show_base 16 n) < length e"
  shows "(\<exists>t. From_10Jz_To_8Jz (int n) d = Some t \<and> length t = length d \<and> From_8Jz_To_10Jz t = Some (int n)) \<and>
    (\<exists>t. From_10Jz_To_16Jz (int n) e = Some t \<and> length t = length e \<and> From_16Jz_To_10Jz t = Some (int n))"
proof
  have "From_10Jz_To_8Jz (int n) d = Some (show_base 8 n @ NUL # drop (Suc (length (show_base 8 n))) d)"
    using func_10_Jzzh_ok [of 8 n d] assms by (simp add: From_10Jz_To_8Jz_def)
  moreover have "From_8Jz_To_10Jz (show_base 8 n @ NUL # r) = Some (int n)" for r
    using octal_loop_ok [OF show_base_no_NUL [of 8 n], of r 0] read_base [of 8 "\<lambda>c. schar c - 48" n] small_digit assms(1)
    by (simp add: From_8Jz_To_10Jz_def)
  ultimately show "\<exists>t. From_10Jz_To_8Jz (int n) d = Some t \<and> length t = length d \<and> From_8Jz_To_10Jz t = Some (int n)"
    using assms(2) by simp
  let ?t = "show_base 16 n @ NUL # drop (Suc (length (show_base 16 n))) e"
  have "From_10Jz_To_16Jz (int n) e = Some ?t"
    using func_10_Jzzh_ok [of 16 n e] assms by (simp add: From_10Jz_To_16Jz_def)
  moreover have "holds ?t (show_base 16 n)" using show_base_no_NUL [of 16 n] by (intro holdsI) simp
  then have "From_16Jz_To_10Jz ?t = Some (int n)"
    using load_loop [of ?t "show_base 16 n" "\<lambda>c a. accumulate 16 a (hex_value c)" 0] read_base [of 16 hex_value n] hex_value_digit assms(1)
      strlen_holds [of ?t "show_base 16 n"] by (simp add: From_16Jz_To_10Jz_def)
  ultimately show "\<exists>t. From_10Jz_To_16Jz (int n) e = Some t \<and> length t = length e \<and> From_16Jz_To_10Jz t = Some (int n)"
    using assms(3) by (intro exI [of _ ?t]) simp
qed

theorem base_roundtrip_witness:
  "\<exists>t. From_10Jz_To_16Jz 35 (replicate 9 NUL) = Some t \<and> From_16Jz_To_10Jz t = Some 35"
  using base_roundtrip [of 35 "replicate 9 NUL" "replicate 9 NUL"] by (auto simp: show_base.simps)

text \<open> Binary. \<^verbatim>\<open>From_10Jz_To_2Jz\<close> writes the 32 bits of a number, highest first, and no terminator. If
  the byte behind them is a NUL, \<^verbatim>\<open>From_2Jz_To_10Jz\<close> reads a number that is not negative back, and
  overflows on every negative one.
\<close>

theorem binary_roundtrip:
  assumes "length d = 33" "d ! 32 = NUL" "serves malloc 33"
  shows "\<exists>t. From_10Jz_To_2Jz w d = Some t \<and> (\<forall>j < 32. t ! j = (if bit w (31 - j) then CHR ''1'' else CHR ''0'')) \<and>
    From_2Jz_To_10Jz malloc t = (if 0 \<le> sint w then Some (sint w) else None)"
proof -
  have "drop 32 d = [NUL]" using assms(1,2) Cons_nth_drop_Suc [of 32 d] by simp
  then have w: "From_10Jz_To_2Jz w d = Some (binary w @ [NUL])" using From_10Jz_To_2Jz_ok [of d w] assms(1) by simp
  have h: "holds (binary w @ [NUL]) (binary w)" using binary_no_NUL by (rule holdsI)
  have "From_2Jz_To_10Jz malloc (binary w @ [NUL]) = (if unat w < 2 ^ 31 then Some (int (unat w)) else None)"
    using From_2Jz_To_10Jz_ok [OF h, of malloc] assms(3) binary_value [of w] by (simp add: binary_def)
  then show ?thesis using w sint_unat [of w] by (intro exI [of _ "binary w @ [NUL]"]) (simp add: binary_def nth_append)
qed

theorem binary_roundtrip_witness:
  "\<exists>t. From_10Jz_To_2Jz 5 (replicate 33 NUL) = Some t \<and> From_2Jz_To_10Jz (\<lambda>n. Some (replicate n NUL)) t = Some 5"
  using binary_roundtrip [of "replicate 33 NUL" "\<lambda>n. Some (replicate n NUL)" 5] by (auto simp: serves_def)

text \<open>
  Bits of a character. \<^verbatim>\<open>convert_charto8bit\<close> writes the eight bits of a character, highest first.
  \<^verbatim>\<open>Char_To_StrBin\<close> writes the same digits with a terminator, except that its first digit is always 0.
\<close>

theorem char_bits:
  assumes "9 \<le> length d"
  shows "convert_charto8bit c d = Some (map (\<lambda>j. if bit (of_char c :: nat) (7 - j) then CHR ''1'' else CHR ''0'') [0..<8] @ drop 8 d) \<and>
    Char_To_StrBin c d 0 =
      Some (CHR ''0'' # map (\<lambda>j. if bit (of_char c :: nat) (7 - j) then CHR ''1'' else CHR ''0'') [1..<8] @ NUL # drop 9 d)"
proof
  have m: "and (promote c) (drop_bit i 0x80) \<noteq> 0 \<longleftrightarrow> bit (of_char c :: nat) (7 - i)" if i: "i < 8" for i
  proof -
    have "drop_bit i (0x80 :: 32 word) = 2 ^ (7 - i)" using small_index [OF i] by auto
    then show ?thesis using and_exp_eq_0_iff_not_bit [of "promote c" "7 - i"] promote_bit [of "7 - i" c] by simp
  qed
  show "convert_charto8bit c d = Some (map (\<lambda>j. bit_char (bit (of_char c :: nat) (7 - j))) [0..<8] @ drop 8 d)"
    using assms m by (simp add: convert_charto8bit_def buf_copy_def cong: map_cong)
  let ?f = "\<lambda>i. bit_char (and (promote c) (promote (char_of (2 ^ (7 - i) :: nat))) = of_nat (2 ^ (7 - i)))"
  have "Char_To_StrBin c d 0 = Some (map ?f [0..<8] @ NUL # drop 9 d)"
    using strcpy_loop [of 0 7 d ?f] assms by (simp add: Char_To_StrBin_def Let_def del: upt_Suc)
  moreover have "[0..<8] = 0 # [1..<8 :: nat]" by (simp add: upt_rec)
  moreover have "?f 0 = CHR ''0''" using top_mask [of c] by simp
  moreover have "?f i = bit_char (bit (of_char c :: nat) (7 - i))" if "i \<in> set [1..<8]" for i
    using that mask_bit [of "7 - i" "promote c"] promote_bit [of "7 - i" c] by (simp add: promote_mask)
  then have "map ?f [1..<8] = map (\<lambda>i. bit_char (bit (of_char c :: nat) (7 - i))) [1..<8]" by (rule map_cong [OF refl])
  ultimately show "Char_To_StrBin c d 0 = Some (CHR ''0'' # map (\<lambda>j. bit_char (bit (of_char c :: nat) (7 - j))) [1..<8] @ NUL # drop 9 d)"
    by (simp only: list.map append_Cons)
qed

theorem char_bits_witness:
  "\<exists>t. Char_To_StrBin (CHR 0x81) (replicate 9 NUL) 0 = Some (CHR ''0'' # t) \<and>
     convert_charto8bit (CHR 0x81) (replicate 9 NUL) = Some (''10000001'' @ [NUL])"
  using char_bits [of "replicate 9 NUL" "CHR 0x81"] by (simp add: upt_rec bit_0)

end
