(* ===== verification/Thread_Pool.thy ===== *)
theory Thread_Pool
  imports Main "HOL-Library.Multiset"
begin

text \<open>
  The thread pool frame of \<^verbatim>\<open>Frame_ThreadPool/C/Frame_ThreadPool/src\<close>: producer threads
  (\<^verbatim>\<open>AddWork_Frame.c\<close>) append tasks to a linked list with \<^verbatim>\<open>Into_Queue\<close> of \<^verbatim>\<open>Common.c\<close>, worker
  threads (\<^verbatim>\<open>DoWork_Frame.c\<close>) take them from its head, and the main thread
  (\<^verbatim>\<open>Main_Thread_Pool.c\<close>) creates both kinds and destroys the pool when a signal arrives.
  The threads interleave: a step is one thread running from one access of the shared state to
  the next. Steps between \<^verbatim>\<open>pthread_mutex_lock\<close> and \<^verbatim>\<open>pthread_mutex_unlock\<close> are not merged,
  because \<^verbatim>\<open>threadpool_destroy\<close> writes \<^verbatim>\<open>shutdown_F\<close> without taking the lock.
\<close>

section \<open>Data\<close>

text \<open>
  A list node (\<^verbatim>\<open>CList_Task\<close>) lives at an address; a task is the pointer value stored in it.
  The record of the pool has the fields of \<^verbatim>\<open>CThread_pool\<close>: the mutex is the thread that holds
  it, the waiters of the condition variable are the workers whose program counter is
  \<open>W_Waiting\<close>, an array of thread identifiers is whether it is allocated.
\<close>

type_synonym address = nat

record list_task =
  pList_Task :: nat
  next_F :: "address option"

datatype thread = Adder nat | Worker nat

record CThread_pool =
  queue_lock_F :: "thread option"
  queue_head_F :: "address option"
  cur_queue_size_F :: int
  max_thread_num_F :: int
  add_threadid_F :: bool
  add_thread_num_F :: int
  do_threadid_F :: bool
  do_thread_num_F :: int
  shutdown_F :: int

text \<open>
  Undefined behaviour the code can run into: a null pointer, memory after its \<^verbatim>\<open>free\<close>, the pool after its
  \<^verbatim>\<open>free\<close> when the signal handler runs once more, a failed
  \<^verbatim>\<open>malloc\<close> whose result is used, the overflow of the queue counter, \<^verbatim>\<open>pthread_join\<close> of an
  identifier that no \<^verbatim>\<open>pthread_create\<close> wrote.
\<close>

datatype fault = Null_Pointer | Use_After_Free | Signal_After_Free | Out_Of_Memory | Counter_Overflow | Unknown_Thread

text \<open>Where a worker (\<^verbatim>\<open>Call_Dowork_Thread\<close>), a producer and the main thread stand.\<close>

datatype worker_pc =
    W_None | W_Lock | W_Test | W_Wait | W_Waiting | W_Relock | W_Check | W_Exit
  | W_Take | W_Unlock address | W_Work address | W_Free address | W_Exited

datatype adder_pc =
    A_None | A_Work | A_Alloc nat | A_Lock address | A_Link address | A_Unlock | A_Broadcast
  | A_Exited

datatype main_pc =
    M_Alloc_Add | M_Create_Add nat | M_Alloc_Do | M_Create_Do nat | M_Pause
  | D_Enter | D_Set | D_Broadcast | D_Join_Add nat | D_Free_Add | D_Join_Do nat | D_Free_Do
  | D_Drain | D_Sync | D_Free_Pool | D_Return int

text \<open>
  The state of the process. The last three fields are no state of the program: they record the
  tasks in the order they were linked, taken and handed to \<^verbatim>\<open>DoWork\<close>, for the specification.
\<close>

record pool_system = CThread_pool +
  pool_alive :: bool
  nodes :: "address \<Rightarrow> list_task option"
  adders :: "nat \<Rightarrow> adder_pc"
  workers :: "nat \<Rightarrow> worker_pc"
  main_at :: main_pc
  fault :: "fault option"
  added :: "nat list"
  taken :: "nat list"
  worked :: "nat list"

section \<open>Operations\<close>

definition fail :: "fault \<Rightarrow> pool_system \<Rightarrow> pool_system option" where
  "fail f s = Some (s\<lparr>fault := Some f\<rparr>)"

definition worker_to :: "nat \<Rightarrow> worker_pc \<Rightarrow> pool_system \<Rightarrow> pool_system" where
  "worker_to i p s = s\<lparr>workers := (workers s)(i := p)\<rparr>"

definition adder_to :: "nat \<Rightarrow> adder_pc \<Rightarrow> pool_system \<Rightarrow> pool_system" where
  "adder_to j p s = s\<lparr>adders := (adders s)(j := p)\<rparr>"

definition main_to :: "main_pc \<Rightarrow> pool_system \<Rightarrow> pool_system" where
  "main_to p s = s\<lparr>main_at := p\<rparr>"

definition on_pool :: "pool_system \<Rightarrow> pool_system option \<Rightarrow> pool_system option" where
  "on_pool s r = (if pool_alive s then r else fail Use_After_Free s)"

text \<open>\<^verbatim>\<open>pthread_mutex_lock\<close> blocks (no step) while another thread holds the mutex.\<close>

definition mutex_lock :: "thread \<Rightarrow> pool_system \<Rightarrow> pool_system option" where
  "mutex_lock th s = (if queue_lock_F s = None then Some (s\<lparr>queue_lock_F := Some th\<rparr>) else None)"

definition mutex_unlock :: "pool_system \<Rightarrow> pool_system" where
  "mutex_unlock s = s\<lparr>queue_lock_F := None\<rparr>"

definition wake :: "worker_pc \<Rightarrow> worker_pc" where
  "wake p = (if p = W_Waiting then W_Relock else p)"

definition cond_broadcast :: "pool_system \<Rightarrow> pool_system" where
  "cond_broadcast s = s\<lparr>workers := wake \<circ> workers s\<rparr>"

subsection \<open>Producers\<close>

text \<open>
  The loop of \<^verbatim>\<open>Into_Queue\<close> that walks to the last node. \<open>None\<close> is a walk that never ends,
  \<open>Some None\<close> one that reads a node that is not allocated.
\<close>

partial_function (option) last_member ::
  "(address \<Rightarrow> list_task option) \<Rightarrow> address \<Rightarrow> address option option"
where
  "last_member h pMember = (case h pMember of None \<Rightarrow> Some None
     | Some n \<Rightarrow> (case next_F n of None \<Rightarrow> Some (Some pMember) | Some b \<Rightarrow> last_member h b))"

declare last_member.simps [code]

definition count_up :: "pool_system \<Rightarrow> pool_system option" where
  "count_up s = (if cur_queue_size_F s = 2 ^ 31 - 1 then fail Counter_Overflow s
     else Some (s\<lparr>cur_queue_size_F := cur_queue_size_F s + 1\<rparr>))"

definition link_task :: "nat \<Rightarrow> address \<Rightarrow> pool_system \<Rightarrow> pool_system option" where
  "link_task j pNewWorker s =
    (let note_added = (\<lambda>s. s\<lparr>added := added s @ [pList_Task (the (nodes s pNewWorker))]\<rparr>) in
     case queue_head_F s of
       None \<Rightarrow> count_up (adder_to j A_Unlock (note_added (s\<lparr>queue_head_F := Some pNewWorker\<rparr>)))
     | Some pMember \<Rightarrow>
        (case last_member (nodes s) pMember of
           None \<Rightarrow> None
         | Some None \<Rightarrow> fail Use_After_Free s
         | Some (Some l) \<Rightarrow> count_up (adder_to j A_Unlock (note_added
             (s\<lparr>nodes := (nodes s)(l := Some ((the (nodes s l))\<lparr>next_F := Some pNewWorker\<rparr>))\<rparr>)))))"

text \<open>
  One step of producer \<open>j\<close> inside \<^verbatim>\<open>Into_Queue\<close>; \<open>m\<close> is what \<^verbatim>\<open>malloc\<close> returns, an address
  that is not in use or \<open>None\<close> for \<^verbatim>\<open>NULL\<close>, on which \<^verbatim>\<open>memset\<close> then writes.
\<close>

definition adder_step :: "nat \<Rightarrow> address option \<Rightarrow> pool_system \<Rightarrow> pool_system option" where
  "adder_step j m s = (case adders s j of
     A_Alloc t \<Rightarrow> (case m of
        None \<Rightarrow> fail Out_Of_Memory s
      | Some a \<Rightarrow> if nodes s a = None
          then Some (adder_to j (A_Lock a)
            (s\<lparr>nodes := (nodes s)(a \<mapsto> \<lparr>pList_Task = t, next_F = None\<rparr>)\<rparr>))
          else None)
   | A_Lock a \<Rightarrow> on_pool s (map_option (adder_to j (A_Link a)) (mutex_lock (Adder j) s))
   | A_Link a \<Rightarrow> on_pool s (link_task j a s)
   | A_Unlock \<Rightarrow> on_pool s (Some (adder_to j A_Broadcast (mutex_unlock s)))
   | A_Broadcast \<Rightarrow> on_pool s (Some (adder_to j A_Work (cond_broadcast s)))
   | _ \<Rightarrow> None)"

subsection \<open>Workers\<close>

definition take_task :: "nat \<Rightarrow> pool_system \<Rightarrow> pool_system option" where
  "take_task i s = (case queue_head_F s of
     None \<Rightarrow> fail Null_Pointer s
   | Some a \<Rightarrow> (case nodes s a of
        None \<Rightarrow> fail Use_After_Free s
      | Some n \<Rightarrow> Some (worker_to i (W_Unlock a)
          (s\<lparr>cur_queue_size_F := cur_queue_size_F s - 1, queue_head_F := next_F n,
             taken := taken s @ [pList_Task n]\<rparr>))))"

text \<open>
  The task pointer is the application's: \<^verbatim>\<open>DoWork_Appliction\<close> reads a pointer through it
  (\<^verbatim>\<open>Get_Task_Addr\<close>) and hands that to \<^verbatim>\<open>DoWork\<close>; that it can be read is up to the producer of the
  task, and the pool is only responsible for the list node the pointer is taken from.
\<close>

definition worker_step :: "nat \<Rightarrow> pool_system \<Rightarrow> pool_system option" where
  "worker_step i s = (case workers s i of
     W_Lock \<Rightarrow> on_pool s (map_option (worker_to i W_Test) (mutex_lock (Worker i) s))
   | W_Test \<Rightarrow> on_pool s (Some (worker_to i
       (if cur_queue_size_F s = 0 \<and> shutdown_F s = 0 then W_Wait else W_Check) s))
   | W_Wait \<Rightarrow> on_pool s (Some (worker_to i W_Waiting (mutex_unlock s)))
   | W_Relock \<Rightarrow> on_pool s (map_option (worker_to i W_Test) (mutex_lock (Worker i) s))
   | W_Check \<Rightarrow> on_pool s (Some (worker_to i (if shutdown_F s \<noteq> 0 then W_Exit else W_Take) s))
   | W_Exit \<Rightarrow> on_pool s (Some (worker_to i W_Exited (mutex_unlock s)))
   | W_Take \<Rightarrow> on_pool s (take_task i s)
   | W_Unlock a \<Rightarrow> on_pool s (Some (worker_to i (W_Work a) (mutex_unlock s)))
   | W_Work a \<Rightarrow> (case nodes s a of
        None \<Rightarrow> fail Use_After_Free s
      | Some n \<Rightarrow> Some (worker_to i (W_Free a) (s\<lparr>worked := worked s @ [pList_Task n]\<rparr>)))
   | W_Free a \<Rightarrow> (case nodes s a of
        None \<Rightarrow> fail Use_After_Free s
      | Some n \<Rightarrow> Some (worker_to i W_Lock (s\<lparr>nodes := (nodes s)(a := None)\<rparr>)))
   | _ \<Rightarrow> None)"

subsection \<open>The main thread\<close>

text \<open>
  \<^verbatim>\<open>ThreadPool_Init\<close>: the checks and the initialisation up to the first thread creation. The
  results of \<^verbatim>\<open>malloc\<close>, \<^verbatim>\<open>pthread_mutex_init\<close> and \<^verbatim>\<open>pthread_cond_init\<close> are arguments. The
  second test of the number of producers is in the code.
\<close>

datatype init_result = Null_Result | Init_Fault fault | Half_Initialised | Running pool_system

definition initial_pool :: "int \<Rightarrow> int \<Rightarrow> pool_system" where
  "initial_pool addn don = \<lparr>queue_lock_F = None, queue_head_F = None, cur_queue_size_F = 0,
     max_thread_num_F = addn + don, add_threadid_F = False, add_thread_num_F = addn,
     do_threadid_F = False, do_thread_num_F = don, shutdown_F = 0, pool_alive = True,
     nodes = (\<lambda>_. None), adders = (\<lambda>_. A_None), workers = (\<lambda>_. W_None), main_at = M_Alloc_Add,
     fault = None, added = [], taken = [], worked = []\<rparr>"

definition ThreadPool_Init ::
  "bool \<Rightarrow> bool \<Rightarrow> int \<Rightarrow> int \<Rightarrow> bool \<Rightarrow> int \<Rightarrow> int \<Rightarrow> init_result" where
  "ThreadPool_Init has_addwork has_dowork addn don malloc_ok mutex_ret cond_ret =
    (if \<not> has_addwork then Null_Result
     else if \<not> has_dowork then Null_Result
     else if addn = 0 then Null_Result
     else if addn = 0 then Null_Result
     else if \<not> malloc_ok then Init_Fault Out_Of_Memory
     else if mutex_ret \<noteq> 0 then Half_Initialised
     else if cond_ret \<noteq> 0 then Half_Initialised
     else Running (initial_pool addn don))"

definition exited_adder :: "nat \<Rightarrow> pool_system \<Rightarrow> bool" where
  "exited_adder j s \<longleftrightarrow> adders s j = A_Exited"

definition exited_worker :: "nat \<Rightarrow> pool_system \<Rightarrow> bool" where
  "exited_worker i s \<longleftrightarrow> workers s i = W_Exited"

text \<open>
  One step of the main thread: the thread creation of \<^verbatim>\<open>ThreadPool_Init\<close>, then
  \<^verbatim>\<open>threadpool_destroy\<close>. \<open>ok\<close> says whether the \<^verbatim>\<open>malloc\<close> or \<^verbatim>\<open>pthread_create\<close> of this step
  succeeds: neither result is looked at, so a failed \<^verbatim>\<open>malloc\<close> faults at the first
  \<^verbatim>\<open>pthread_create\<close>, and a thread that was not created faults when it is joined.
  \<^verbatim>\<open>pthread_join\<close> blocks until the thread has exited.
\<close>

definition main_step :: "bool \<Rightarrow> pool_system \<Rightarrow> pool_system option" where
  "main_step ok s = (case main_at s of
     M_Alloc_Add \<Rightarrow> Some (main_to (M_Create_Add 0) (s\<lparr>add_threadid_F := ok\<rparr>))
   | M_Create_Add k \<Rightarrow>
       if int k < add_thread_num_F s
       then if \<not> add_threadid_F s then fail Out_Of_Memory s
         else Some (main_to (M_Create_Add (Suc k)) (if ok then adder_to k A_Work s else s))
       else Some (main_to M_Alloc_Do s)
   | M_Alloc_Do \<Rightarrow> Some (main_to (M_Create_Do 0) (s\<lparr>do_threadid_F := ok\<rparr>))
   | M_Create_Do k \<Rightarrow>
       if int k < do_thread_num_F s
       then if \<not> do_threadid_F s then fail Out_Of_Memory s
         else Some (main_to (M_Create_Do (Suc k)) (if ok then worker_to k W_Lock s else s))
       else Some (main_to M_Pause s)
   | M_Pause \<Rightarrow> None
   | D_Enter \<Rightarrow> on_pool s
       (if \<not> add_threadid_F s \<or> \<not> do_threadid_F s then Some (main_to (D_Return (-1)) s)
        else if shutdown_F s = 1 then Some (main_to (D_Return (-1)) s)
        else if shutdown_F s \<noteq> 0 then Some (main_to (D_Return (-1)) s)
        else Some (main_to D_Set s))
   | D_Set \<Rightarrow> on_pool s (Some (main_to D_Broadcast (s\<lparr>shutdown_F := 1\<rparr>)))
   | D_Broadcast \<Rightarrow> on_pool s (Some (main_to (D_Join_Add 0) (cond_broadcast s)))
   | D_Join_Add k \<Rightarrow> on_pool s
       (if int k < add_thread_num_F s
        then if adders s k = A_None then fail Unknown_Thread s
          else if exited_adder k s then Some (main_to (D_Join_Add (Suc k)) s) else None
        else Some (main_to D_Free_Add s))
   | D_Free_Add \<Rightarrow> on_pool s (Some (main_to (D_Join_Do 0) (s\<lparr>add_threadid_F := False\<rparr>)))
   | D_Join_Do k \<Rightarrow> on_pool s
       (if int k < do_thread_num_F s
        then if workers s k = W_None then fail Unknown_Thread s
          else if exited_worker k s then Some (main_to (D_Join_Do (Suc k)) s) else None
        else Some (main_to D_Free_Do s))
   | D_Free_Do \<Rightarrow> on_pool s (Some (main_to D_Drain (s\<lparr>do_threadid_F := False\<rparr>)))
   | D_Drain \<Rightarrow> on_pool s (case queue_head_F s of
        None \<Rightarrow> Some (main_to D_Sync s)
      | Some head \<Rightarrow> (case nodes s head of
           None \<Rightarrow> fail Use_After_Free s
         | Some n \<Rightarrow> Some (s\<lparr>queue_head_F := next_F n, nodes := (nodes s)(head := None)\<rparr>)))
   | D_Sync \<Rightarrow> on_pool s (Some (main_to D_Free_Pool s))
   | D_Free_Pool \<Rightarrow> on_pool s (Some (main_to (D_Return 0) (s\<lparr>pool_alive := False\<rparr>)))
   | D_Return r \<Rightarrow> None)"

subsection \<open>The process\<close>

text \<open>
  An action is one step of one thread, or a choice of the surroundings: the application code of a
  producer (\<^verbatim>\<open>AddWork\<close>) calls \<^verbatim>\<open>Into_Queue\<close> with some task or returns, a worker wakes up without
  a broadcast (POSIX permits it), or \<^verbatim>\<open>SIGTERM\<close> arrives and the main thread, which receives it as
  \<^verbatim>\<open>main\<close> says, enters \<^verbatim>\<open>pool_destroy\<close>. The handler stays installed, and the signal is blocked while it runs: a further
  signal makes the main thread enter it again when it has returned, and \<^verbatim>\<open>threadpool_destroy\<close> then
  begins with a read of the pool, freed or not, since the global pointer is not reset.
  After a fault nothing is known, so no action follows it.
\<close>

datatype action =
    Run_Worker nat | Spurious_Wakeup nat | Into_Queue nat nat | Return_AddWork nat
  | Run_Adder nat "address option" | Run_Main bool | Pool_Destroy

definition perform :: "action \<Rightarrow> pool_system \<Rightarrow> pool_system option" where
  "perform act s = (if fault s \<noteq> None then None else case act of
     Run_Worker i \<Rightarrow> worker_step i s
   | Spurious_Wakeup i \<Rightarrow>
       (if workers s i = W_Waiting then Some (worker_to i W_Relock s) else None)
   | Into_Queue j t \<Rightarrow> (if adders s j = A_Work then Some (adder_to j (A_Alloc t) s) else None)
   | Return_AddWork j \<Rightarrow> (if adders s j = A_Work then Some (adder_to j A_Exited s) else None)
   | Run_Adder j m \<Rightarrow> adder_step j m s
   | Run_Main ok \<Rightarrow> main_step ok s
   | Pool_Destroy \<Rightarrow> (case main_at s of
        M_Pause \<Rightarrow> Some (main_to D_Enter s)
      | D_Return r \<Rightarrow> (if pool_alive s then Some (main_to D_Enter s) else fail Signal_After_Free s)
      | _ \<Rightarrow> None))"

inductive reachable :: "int \<Rightarrow> int \<Rightarrow> pool_system \<Rightarrow> bool" for addn don where
  start: "ThreadPool_Init True True addn don True 0 0 = Running s \<Longrightarrow> reachable addn don s"
| step: "reachable addn don s \<Longrightarrow> perform act s = Some t \<Longrightarrow> reachable addn don t"

primrec run :: "action list \<Rightarrow> pool_system \<Rightarrow> pool_system option" where
  "run [] s = Some s"
| "run (act # acts) s = Option.bind (perform act s) (run acts)"

lemma run_reachable: "reachable addn don s \<Longrightarrow> run acts s = Some t \<Longrightarrow> reachable addn don t"
  by (induction acts arbitrary: s) (auto split: Option.bind_splits intro: reachable.step)

end
