(* ===== verification/Thread_Pool_Correct.thy ===== *)
theory Thread_Pool_Correct
  imports Thread_Pool
begin

text \<open>
  Invariants of the thread pool. Every step of a thread that does not fault is one of the
  transitions of \<open>moves\<close>; the invariants (who holds the mutex, what the workers know after their
  tests, which threads the main thread has joined, the shape of the linked list and who owns
  which node, no lost wake-up) are kept by each of them.
\<close>

section \<open>The transitions\<close>

inductive moves :: "pool_system \<Rightarrow> pool_system \<Rightarrow> bool" where
  w_lock: "workers s i \<in> {W_Lock, W_Relock} \<Longrightarrow> queue_lock_F s = None \<Longrightarrow>
    moves s (worker_to i W_Test (s\<lparr>queue_lock_F := Some (Worker i)\<rparr>))"
| w_sleep: "workers s i = W_Test \<Longrightarrow> cur_queue_size_F s = 0 \<Longrightarrow> shutdown_F s = 0 \<Longrightarrow>
    moves s (worker_to i W_Wait s)"
| w_check: "workers s i = W_Test \<Longrightarrow> cur_queue_size_F s \<noteq> 0 \<or> shutdown_F s \<noteq> 0 \<Longrightarrow>
    moves s (worker_to i W_Check s)"
| w_wait: "workers s i = W_Wait \<Longrightarrow> moves s (worker_to i W_Waiting (mutex_unlock s))"
| w_wake: "workers s i = W_Waiting \<Longrightarrow> moves s (worker_to i W_Relock s)"
| w_leave: "workers s i = W_Check \<Longrightarrow> shutdown_F s \<noteq> 0 \<Longrightarrow> moves s (worker_to i W_Exit s)"
| w_stay: "workers s i = W_Check \<Longrightarrow> shutdown_F s = 0 \<Longrightarrow> moves s (worker_to i W_Take s)"
| w_exit: "workers s i = W_Exit \<Longrightarrow> moves s (worker_to i W_Exited (mutex_unlock s))"
| w_take: "workers s i = W_Take \<Longrightarrow> queue_head_F s = Some a \<Longrightarrow> nodes s a = Some n \<Longrightarrow>
    moves s (worker_to i (W_Unlock a)
      (s\<lparr>cur_queue_size_F := cur_queue_size_F s - 1, queue_head_F := next_F n,
         taken := taken s @ [pList_Task n]\<rparr>))"
| w_unlock: "workers s i = W_Unlock a \<Longrightarrow> moves s (worker_to i (W_Work a) (mutex_unlock s))"
| w_work: "workers s i = W_Work a \<Longrightarrow> nodes s a = Some n \<Longrightarrow>
    moves s (worker_to i (W_Free a) (s\<lparr>worked := worked s @ [pList_Task n]\<rparr>))"
| w_free: "workers s i = W_Free a \<Longrightarrow> nodes s a = Some n \<Longrightarrow>
    moves s (worker_to i W_Lock (s\<lparr>nodes := (nodes s)(a := None)\<rparr>))"
| a_call: "adders s j = A_Work \<Longrightarrow> moves s (adder_to j (A_Alloc t) s)"
| a_return: "adders s j = A_Work \<Longrightarrow> moves s (adder_to j A_Exited s)"
| a_alloc: "adders s j = A_Alloc t \<Longrightarrow> nodes s a = None \<Longrightarrow>
    moves s (adder_to j (A_Lock a)
      (s\<lparr>nodes := (nodes s)(a \<mapsto> \<lparr>pList_Task = t, next_F = None\<rparr>)\<rparr>))"
| a_lock: "adders s j = A_Lock a \<Longrightarrow> queue_lock_F s = None \<Longrightarrow>
    moves s (adder_to j (A_Link a) (s\<lparr>queue_lock_F := Some (Adder j)\<rparr>))"
| a_first: "adders s j = A_Link a \<Longrightarrow> queue_head_F s = None \<Longrightarrow>
    moves s (adder_to j A_Unlock (s\<lparr>queue_head_F := Some a,
      added := added s @ [pList_Task (the (nodes s a))],
      cur_queue_size_F := cur_queue_size_F s + 1\<rparr>))"
| a_append: "adders s j = A_Link a \<Longrightarrow> queue_head_F s = Some b \<Longrightarrow>
    last_member (nodes s) b = Some (Some l) \<Longrightarrow>
    s' = s\<lparr>nodes := (nodes s)(l := Some ((the (nodes s l))\<lparr>next_F := Some a\<rparr>))\<rparr> \<Longrightarrow>
    moves s (adder_to j A_Unlock (s'\<lparr>
      added := added s @ [pList_Task (the (nodes s' a))],
      cur_queue_size_F := cur_queue_size_F s + 1\<rparr>))"
| a_unlock: "adders s j = A_Unlock \<Longrightarrow> moves s (adder_to j A_Broadcast (mutex_unlock s))"
| a_broadcast: "adders s j = A_Broadcast \<Longrightarrow> moves s (adder_to j A_Work (cond_broadcast s))"
| m_alloc_add: "main_at s = M_Alloc_Add \<Longrightarrow>
    moves s (main_to (M_Create_Add 0) (s\<lparr>add_threadid_F := ok\<rparr>))"
| m_create_add: "main_at s = M_Create_Add k \<Longrightarrow> int k < add_thread_num_F s \<Longrightarrow>
    moves s (main_to (M_Create_Add (Suc k)) (adder_to k A_Work s))"
| m_skip_add: "main_at s = M_Create_Add k \<Longrightarrow> int k < add_thread_num_F s \<Longrightarrow>
    moves s (main_to (M_Create_Add (Suc k)) s)"
| m_added: "main_at s = M_Create_Add k \<Longrightarrow> moves s (main_to M_Alloc_Do s)"
| m_alloc_do: "main_at s = M_Alloc_Do \<Longrightarrow>
    moves s (main_to (M_Create_Do 0) (s\<lparr>do_threadid_F := ok\<rparr>))"
| m_create_do: "main_at s = M_Create_Do k \<Longrightarrow> int k < do_thread_num_F s \<Longrightarrow>
    moves s (main_to (M_Create_Do (Suc k)) (worker_to k W_Lock s))"
| m_skip_do: "main_at s = M_Create_Do k \<Longrightarrow> int k < do_thread_num_F s \<Longrightarrow>
    moves s (main_to (M_Create_Do (Suc k)) s)"
| m_pause: "main_at s = M_Create_Do k \<Longrightarrow> moves s (main_to M_Pause s)"
| m_signal: "main_at s = M_Pause \<Longrightarrow> moves s (main_to D_Enter s)"
| m_again: "main_at s = D_Return r \<Longrightarrow> pool_alive s \<Longrightarrow> moves s (main_to D_Enter s)"
| d_refuse: "main_at s = D_Enter \<Longrightarrow> moves s (main_to (D_Return (-1)) s)"
| d_enter: "main_at s = D_Enter \<Longrightarrow> shutdown_F s = 0 \<Longrightarrow> moves s (main_to D_Set s)"
| d_set: "main_at s = D_Set \<Longrightarrow> moves s (main_to D_Broadcast (s\<lparr>shutdown_F := 1\<rparr>))"
| d_broadcast: "main_at s = D_Broadcast \<Longrightarrow> moves s (main_to (D_Join_Add 0) (cond_broadcast s))"
| d_join_add: "main_at s = D_Join_Add k \<Longrightarrow> adders s k = A_Exited \<Longrightarrow>
    moves s (main_to (D_Join_Add (Suc k)) s)"
| d_joined_add: "main_at s = D_Join_Add k \<Longrightarrow> \<not> int k < add_thread_num_F s \<Longrightarrow>
    moves s (main_to D_Free_Add s)"
| d_free_add: "main_at s = D_Free_Add \<Longrightarrow>
    moves s (main_to (D_Join_Do 0) (s\<lparr>add_threadid_F := False\<rparr>))"
| d_join_do: "main_at s = D_Join_Do k \<Longrightarrow> workers s k = W_Exited \<Longrightarrow>
    moves s (main_to (D_Join_Do (Suc k)) s)"
| d_joined_do: "main_at s = D_Join_Do k \<Longrightarrow> \<not> int k < do_thread_num_F s \<Longrightarrow>
    moves s (main_to D_Free_Do s)"
| d_free_do: "main_at s = D_Free_Do \<Longrightarrow> moves s (main_to D_Drain (s\<lparr>do_threadid_F := False\<rparr>))"
| d_drain: "main_at s = D_Drain \<Longrightarrow> queue_head_F s = Some a \<Longrightarrow> nodes s a = Some n \<Longrightarrow>
    moves s (s\<lparr>queue_head_F := next_F n, nodes := (nodes s)(a := None)\<rparr>)"
| d_drained: "main_at s = D_Drain \<Longrightarrow> queue_head_F s = None \<Longrightarrow> moves s (main_to D_Sync s)"
| d_sync: "main_at s = D_Sync \<Longrightarrow> moves s (main_to D_Free_Pool s)"
| d_free_pool: "main_at s = D_Free_Pool \<Longrightarrow>
    moves s (main_to (D_Return 0) (s\<lparr>pool_alive := False\<rparr>))"

text \<open>The faults of a step, each with the state it needs.\<close>

inductive blamed :: "pool_system \<Rightarrow> fault \<Rightarrow> bool" where
  b_memory: "blamed s Out_Of_Memory"
| b_counter: "blamed s Counter_Overflow"
| b_thread: "blamed s Unknown_Thread"
| b_worker: "\<not> pool_alive s \<Longrightarrow> workers s i \<noteq> W_None \<Longrightarrow> workers s i \<noteq> W_Exited \<Longrightarrow>
    blamed s Use_After_Free"
| b_adder: "\<not> pool_alive s \<Longrightarrow> adders s j \<noteq> A_None \<Longrightarrow> adders s j \<noteq> A_Exited \<Longrightarrow>
    blamed s Use_After_Free"
| b_main: "\<not> pool_alive s \<Longrightarrow> main_at s \<noteq> D_Return 0 \<Longrightarrow> blamed s Use_After_Free"
| b_again: "\<not> pool_alive s \<Longrightarrow> main_at s = D_Return r \<Longrightarrow> blamed s Signal_After_Free"
| b_empty: "workers s i = W_Take \<Longrightarrow> queue_head_F s = None \<Longrightarrow> blamed s Null_Pointer"
| b_head: "queue_head_F s = Some a \<Longrightarrow> nodes s a = None \<Longrightarrow> blamed s Use_After_Free"
| b_work: "workers s i = W_Work a \<Longrightarrow> nodes s a = None \<Longrightarrow> blamed s Use_After_Free"
| b_free: "workers s i = W_Free a \<Longrightarrow> nodes s a = None \<Longrightarrow> blamed s Use_After_Free"
| b_walk: "queue_head_F s = Some a \<Longrightarrow> last_member (nodes s) a = Some None \<Longrightarrow>
    blamed s Use_After_Free"

inductive_simps blamed_null: "blamed s Null_Pointer"
inductive_simps blamed_use: "blamed s Use_After_Free"
inductive_simps blamed_signal: "blamed s Signal_After_Free"

inductive outcome :: "pool_system \<Rightarrow> pool_system \<Rightarrow> bool" where
  moved: "moves s t \<Longrightarrow> outcome s t"
| failed: "blamed s f \<Longrightarrow> fault t = Some f \<Longrightarrow> main_at t = main_at s \<Longrightarrow> pool_alive t = pool_alive s \<Longrightarrow> outcome s t"

lemmas step_defs = worker_to_def adder_to_def main_to_def mutex_unlock_def cond_broadcast_def

lemma worker_to_fields [simp]:
  "queue_lock_F (worker_to i p s) = queue_lock_F s"
  "queue_head_F (worker_to i p s) = queue_head_F s"
  "cur_queue_size_F (worker_to i p s) = cur_queue_size_F s"
  "add_threadid_F (worker_to i p s) = add_threadid_F s"
  "do_threadid_F (worker_to i p s) = do_threadid_F s"
  "add_thread_num_F (worker_to i p s) = add_thread_num_F s"
  "do_thread_num_F (worker_to i p s) = do_thread_num_F s"
  "shutdown_F (worker_to i p s) = shutdown_F s" "pool_alive (worker_to i p s) = pool_alive s"
  "nodes (worker_to i p s) = nodes s" "adders (worker_to i p s) = adders s"
  "main_at (worker_to i p s) = main_at s" "fault (worker_to i p s) = fault s"
  "added (worker_to i p s) = added s" "taken (worker_to i p s) = taken s"
  "worked (worker_to i p s) = worked s"
  "workers (worker_to i p s) = (workers s)(i := p)"
  by (simp_all add: worker_to_def)

lemma adder_to_fields [simp]:
  "queue_lock_F (adder_to j q s) = queue_lock_F s"
  "queue_head_F (adder_to j q s) = queue_head_F s"
  "cur_queue_size_F (adder_to j q s) = cur_queue_size_F s"
  "add_threadid_F (adder_to j q s) = add_threadid_F s"
  "do_threadid_F (adder_to j q s) = do_threadid_F s"
  "add_thread_num_F (adder_to j q s) = add_thread_num_F s"
  "do_thread_num_F (adder_to j q s) = do_thread_num_F s"
  "shutdown_F (adder_to j q s) = shutdown_F s" "pool_alive (adder_to j q s) = pool_alive s"
  "nodes (adder_to j q s) = nodes s" "workers (adder_to j q s) = workers s"
  "main_at (adder_to j q s) = main_at s" "fault (adder_to j q s) = fault s"
  "added (adder_to j q s) = added s" "taken (adder_to j q s) = taken s"
  "worked (adder_to j q s) = worked s"
  "adders (adder_to j q s) = (adders s)(j := q)"
  by (simp_all add: adder_to_def)

lemma main_to_fields [simp]:
  "queue_lock_F (main_to m s) = queue_lock_F s" "queue_head_F (main_to m s) = queue_head_F s"
  "cur_queue_size_F (main_to m s) = cur_queue_size_F s"
  "add_threadid_F (main_to m s) = add_threadid_F s"
  "do_threadid_F (main_to m s) = do_threadid_F s"
  "add_thread_num_F (main_to m s) = add_thread_num_F s"
  "do_thread_num_F (main_to m s) = do_thread_num_F s" "shutdown_F (main_to m s) = shutdown_F s"
  "pool_alive (main_to m s) = pool_alive s" "nodes (main_to m s) = nodes s"
  "adders (main_to m s) = adders s" "workers (main_to m s) = workers s"
  "fault (main_to m s) = fault s" "added (main_to m s) = added s" "taken (main_to m s) = taken s"
  "worked (main_to m s) = worked s"
  "main_at (main_to m s) = m"
  by (simp_all add: main_to_def)

lemma mutex_unlock_fields [simp]:
  "queue_head_F (mutex_unlock s) = queue_head_F s"
  "cur_queue_size_F (mutex_unlock s) = cur_queue_size_F s"
  "add_threadid_F (mutex_unlock s) = add_threadid_F s"
  "do_threadid_F (mutex_unlock s) = do_threadid_F s"
  "add_thread_num_F (mutex_unlock s) = add_thread_num_F s"
  "do_thread_num_F (mutex_unlock s) = do_thread_num_F s"
  "shutdown_F (mutex_unlock s) = shutdown_F s" "pool_alive (mutex_unlock s) = pool_alive s"
  "nodes (mutex_unlock s) = nodes s" "adders (mutex_unlock s) = adders s"
  "workers (mutex_unlock s) = workers s" "main_at (mutex_unlock s) = main_at s"
  "fault (mutex_unlock s) = fault s" "added (mutex_unlock s) = added s"
  "taken (mutex_unlock s) = taken s" "worked (mutex_unlock s) = worked s"
  "queue_lock_F (mutex_unlock s) = None"
  by (simp_all add: mutex_unlock_def)

lemma cond_broadcast_fields [simp]:
  "queue_lock_F (cond_broadcast s) = queue_lock_F s"
  "queue_head_F (cond_broadcast s) = queue_head_F s"
  "cur_queue_size_F (cond_broadcast s) = cur_queue_size_F s"
  "add_threadid_F (cond_broadcast s) = add_threadid_F s"
  "do_threadid_F (cond_broadcast s) = do_threadid_F s"
  "add_thread_num_F (cond_broadcast s) = add_thread_num_F s"
  "do_thread_num_F (cond_broadcast s) = do_thread_num_F s"
  "shutdown_F (cond_broadcast s) = shutdown_F s" "pool_alive (cond_broadcast s) = pool_alive s"
  "nodes (cond_broadcast s) = nodes s" "adders (cond_broadcast s) = adders s"
  "main_at (cond_broadcast s) = main_at s" "fault (cond_broadcast s) = fault s"
  "added (cond_broadcast s) = added s" "taken (cond_broadcast s) = taken s"
  "worked (cond_broadcast s) = worked s"
  "workers (cond_broadcast s) = wake \<circ> workers s"
  by (simp_all add: cond_broadcast_def)

lemma moves_fault: "moves s t \<Longrightarrow> fault t = fault s"
  by (induction rule: moves.induct) simp_all

lemma on_pool_cases:
  assumes "on_pool s r = Some t" and "pool_alive s \<Longrightarrow> r = Some t \<Longrightarrow> outcome s t"
    and "\<not> pool_alive s \<Longrightarrow> blamed s Use_After_Free"
  shows "outcome s t"
  using assms by (auto simp: on_pool_def fail_def intro: outcome.intros split: if_splits)

lemma worker_step_cases:
  assumes "worker_step i s = Some t"
  shows "outcome s t"
proof -
  have dead: "\<not> pool_alive s \<Longrightarrow> blamed s Use_After_Free"
    using assms by (cases "workers s i") (auto simp: worker_step_def intro: b_worker[of s i])
  show ?thesis
    using assms by (cases "workers s i")
      (auto simp: worker_step_def take_task_def mutex_lock_def fail_def
        split: if_splits option.splits elim!: on_pool_cases
        intro: dead outcome.intros moves.intros blamed.intros)
qed

lemma link_task_cases:
  assumes "link_task j a s = Some t" and "adders s j = A_Link a"
  shows "outcome s t"
proof (cases "queue_head_F s")
  case None
  with assms have "t = adder_to j A_Unlock (s\<lparr>queue_head_F := Some a,
        added := added s @ [pList_Task (the (nodes s a))],
        cur_queue_size_F := cur_queue_size_F s + 1\<rparr>) \<or> fault t = Some Counter_Overflow \<and> main_at t = main_at s \<and> pool_alive t = pool_alive s"
    by (auto simp: link_task_def count_up_def fail_def adder_to_def Let_def split: if_splits)
  then show ?thesis
    using a_first[OF assms(2) None] by (auto intro: outcome.intros b_counter)
next
  case (Some b)
  show ?thesis
  proof (cases "last_member (nodes s) b")
    case None
    with Some assms show ?thesis by (simp add: link_task_def)
  next
    case l: (Some l)
    show ?thesis
    proof (cases l)
      case None
      with l Some assms show ?thesis
        by (auto simp: link_task_def fail_def intro: failed b_walk)
    next
      case m: (Some m)
      with l Some assms have "t = adder_to j A_Unlock
          (s\<lparr>nodes := (nodes s)(m := Some ((the (nodes s m))\<lparr>next_F := Some a\<rparr>)),
             added := added s @ [pList_Task (the (((nodes s)(m := Some ((the (nodes s m))\<lparr>next_F := Some a\<rparr>))) a))],
             cur_queue_size_F := cur_queue_size_F s + 1\<rparr>)
        \<or> fault t = Some Counter_Overflow \<and> main_at t = main_at s \<and> pool_alive t = pool_alive s"
        by (auto simp: link_task_def count_up_def fail_def adder_to_def Let_def split: if_splits)
      moreover have "last_member (nodes s) b = Some (Some m)" using l m by simp
      ultimately show ?thesis
        using a_append[OF assms(2) Some _ refl] by (auto intro: outcome.intros b_counter)
    qed
  qed
qed

lemma adder_step_cases:
  assumes "adder_step j m s = Some t"
  shows "outcome s t"
proof -
  have dead: "\<not> pool_alive s \<Longrightarrow> blamed s Use_After_Free"
    using assms by (cases "adders s j") (auto simp: adder_step_def intro: b_adder[of s j])
  show ?thesis
    using assms by (cases "adders s j")
      (auto simp: adder_step_def mutex_lock_def fail_def
        split: if_splits option.splits elim!: on_pool_cases
        intro: dead outcome.intros moves.intros blamed.intros link_task_cases)
qed

lemma main_step_cases:
  assumes "main_step ok s = Some t"
  shows "outcome s t"
proof -
  have dead: "\<not> pool_alive s \<Longrightarrow> blamed s Use_After_Free"
    using assms by (cases "main_at s") (auto simp: main_step_def intro: b_main[of s])
  show ?thesis
    using assms by (cases "main_at s")
      (auto simp: main_step_def exited_adder_def exited_worker_def fail_def
        split: if_splits option.splits elim!: on_pool_cases
        intro: dead outcome.intros moves.intros blamed.intros)
qed

lemma perform_cases:
  assumes "perform act s = Some t"
  shows "fault s = None" and "outcome s t"
  using assms
  by (auto simp: perform_def fail_def split: if_splits action.splits main_pc.splits
      intro: moved moves.intros outcome.intros blamed.intros worker_step_cases adder_step_cases main_step_cases)

section \<open>The mutex\<close>

fun w_locked :: "worker_pc \<Rightarrow> bool" where
  "w_locked W_Test = True"
| "w_locked W_Wait = True"
| "w_locked W_Check = True"
| "w_locked W_Exit = True"
| "w_locked W_Take = True"
| "w_locked (W_Unlock a) = True"
| "w_locked _ = False"

fun a_locked :: "adder_pc \<Rightarrow> bool" where
  "a_locked (A_Link a) = True"
| "a_locked A_Unlock = True"
| "a_locked _ = False"

definition lock_ok :: "pool_system \<Rightarrow> bool" where
  "lock_ok s \<longleftrightarrow> (\<forall>i. w_locked (workers s i) \<longleftrightarrow> queue_lock_F s = Some (Worker i))
    \<and> (\<forall>j. a_locked (adders s j) \<longleftrightarrow> queue_lock_F s = Some (Adder j))"

lemma w_locked_wake [simp]: "w_locked (wake p) = w_locked p"
  by (cases p) (auto simp: wake_def)

section \<open>The main thread\<close>

text \<open>The stages of the main thread: has it set \<open>shutdown_F\<close>, started or joined a thread.\<close>

fun stopping :: "main_pc \<Rightarrow> bool" where
  "stopping D_Broadcast = True"
| "stopping (D_Join_Add k) = True"
| "stopping D_Free_Add = True"
| "stopping (D_Join_Do k) = True"
| "stopping D_Free_Do = True"
| "stopping D_Drain = True"
| "stopping D_Sync = True"
| "stopping D_Free_Pool = True"
| "stopping (D_Return r) = (r = 0)"
| "stopping _ = False"

fun started_adder :: "main_pc \<Rightarrow> nat \<Rightarrow> bool" where
  "started_adder M_Alloc_Add j = False"
| "started_adder (M_Create_Add k) j = (j < k)"
| "started_adder _ j = True"

fun started_worker :: "main_pc \<Rightarrow> nat \<Rightarrow> bool" where
  "started_worker M_Alloc_Add i = False"
| "started_worker (M_Create_Add k) i = False"
| "started_worker M_Alloc_Do i = False"
| "started_worker (M_Create_Do k) i = (i < k)"
| "started_worker _ i = True"

fun drained :: "main_pc \<Rightarrow> bool" where
  "drained D_Sync = True"
| "drained D_Free_Pool = True"
| "drained (D_Return r) = (r = 0)"
| "drained _ = False"

fun draining :: "main_pc \<Rightarrow> bool" where
  "draining D_Drain = True"
| "draining p = drained p"

fun joined_worker :: "main_pc \<Rightarrow> nat \<Rightarrow> bool" where
  "joined_worker (D_Join_Do k) i = (i < k)"
| "joined_worker D_Free_Do i = True"
| "joined_worker p i = draining p"

fun joined_adder :: "main_pc \<Rightarrow> nat \<Rightarrow> bool" where
  "joined_adder (D_Join_Add k) j = (j < k)"
| "joined_adder D_Free_Add j = True"
| "joined_adder (D_Join_Do k) j = True"
| "joined_adder p j = joined_worker p j"

definition main_ok :: "pool_system \<Rightarrow> bool" where
  "main_ok s \<longleftrightarrow> pool_alive s = (main_at s \<noteq> D_Return 0)
    \<and> shutdown_F s = (if stopping (main_at s) then 1 else 0)"

definition adders_ok :: "pool_system \<Rightarrow> bool" where
  "adders_ok s \<longleftrightarrow>
     (\<forall>j. adders s j \<noteq> A_None \<longrightarrow> started_adder (main_at s) j \<and> int j < add_thread_num_F s)
   \<and> (\<forall>j. int j < add_thread_num_F s \<longrightarrow> joined_adder (main_at s) j \<longrightarrow> adders s j = A_Exited)"

definition workers_ok :: "pool_system \<Rightarrow> bool" where
  "workers_ok s \<longleftrightarrow>
     (\<forall>i. workers s i \<noteq> W_None \<longrightarrow> started_worker (main_at s) i \<and> int i < do_thread_num_F s)
   \<and> (\<forall>i. int i < do_thread_num_F s \<longrightarrow> joined_worker (main_at s) i \<longrightarrow> workers s i = W_Exited)
   \<and> (\<forall>i. workers s i \<in> {W_Exit, W_Exited} \<longrightarrow> stopping (main_at s))"

text \<open>What a worker knows after its tests, while it holds the mutex.\<close>

definition tests_ok :: "pool_system \<Rightarrow> bool" where
  "tests_ok s \<longleftrightarrow> (\<forall>i. (workers s i = W_Check \<longrightarrow> cur_queue_size_F s \<noteq> 0 \<or> shutdown_F s \<noteq> 0)
     \<and> (workers s i = W_Take \<longrightarrow> cur_queue_size_F s \<noteq> 0)
     \<and> (workers s i = W_Wait \<longrightarrow> cur_queue_size_F s = 0))"

lemma lock_ok_frame [simp]:
  "lock_ok (s\<lparr>nodes := x1\<rparr>) = lock_ok s" "lock_ok (s\<lparr>queue_head_F := x2\<rparr>) = lock_ok s"
  "lock_ok (s\<lparr>cur_queue_size_F := x3\<rparr>) = lock_ok s" "lock_ok (s\<lparr>shutdown_F := x4\<rparr>) = lock_ok s"
  "lock_ok (s\<lparr>added := x5\<rparr>) = lock_ok s" "lock_ok (s\<lparr>taken := x6\<rparr>) = lock_ok s"
  "lock_ok (s\<lparr>worked := x7\<rparr>) = lock_ok s" "lock_ok (s\<lparr>pool_alive := x8\<rparr>) = lock_ok s"
  "lock_ok (s\<lparr>add_threadid_F := x9\<rparr>) = lock_ok s" "lock_ok (s\<lparr>do_threadid_F := x9\<rparr>) = lock_ok s"
  "lock_ok (main_to pc s) = lock_ok s" "lock_ok (cond_broadcast s) = lock_ok s"
  by (simp_all add: lock_ok_def main_to_def cond_broadcast_def)

lemma lock_ok_worker:
  "lock_ok s \<Longrightarrow> w_locked p = w_locked (workers s i) \<Longrightarrow> lock_ok (worker_to i p s)"
  "lock_ok s \<Longrightarrow> queue_lock_F s = None \<Longrightarrow> w_locked p \<Longrightarrow>
    lock_ok (worker_to i p (s\<lparr>queue_lock_F := Some (Worker i)\<rparr>))"
  "lock_ok s \<Longrightarrow> w_locked (workers s i) \<Longrightarrow> \<not> w_locked p \<Longrightarrow>
    lock_ok (worker_to i p (mutex_unlock s))"
  by (simp_all add: lock_ok_def worker_to_def mutex_unlock_def)

lemma lock_ok_adder:
  "lock_ok s \<Longrightarrow> a_locked p = a_locked (adders s j) \<Longrightarrow> lock_ok (adder_to j p s)"
  "lock_ok s \<Longrightarrow> queue_lock_F s = None \<Longrightarrow> a_locked p \<Longrightarrow>
    lock_ok (adder_to j p (s\<lparr>queue_lock_F := Some (Adder j)\<rparr>))"
  "lock_ok s \<Longrightarrow> a_locked (adders s j) \<Longrightarrow> \<not> a_locked p \<Longrightarrow>
    lock_ok (adder_to j p (mutex_unlock s))"
  by (simp_all add: lock_ok_def adder_to_def mutex_unlock_def)

lemma lock_ok_moves:
  "moves s t \<Longrightarrow> lock_ok s \<Longrightarrow> adders_ok s \<Longrightarrow> workers_ok s \<Longrightarrow> lock_ok t"
proof (induction rule: moves.induct)
  case (m_create_add s k)
  then have "adders s k = A_None" by (auto simp: adders_ok_def)
  with m_create_add show ?case by (simp add: lock_ok_adder)
next
  case (m_create_do s k)
  then have "workers s k = W_None" by (auto simp: workers_ok_def)
  with m_create_do show ?case by (simp add: lock_ok_worker)
qed (auto simp: lock_ok_worker lock_ok_adder)

lemma main_ok_moves: "moves s t \<Longrightarrow> main_ok s \<Longrightarrow> main_ok t"
  by (induction rule: moves.induct) (auto simp: main_ok_def step_defs)

lemma adders_ok_adder:
  "adders_ok s \<Longrightarrow> adders s j \<noteq> A_None \<Longrightarrow> adders s j \<noteq> A_Exited \<Longrightarrow> p \<noteq> A_None \<Longrightarrow>
    adders_ok (adder_to j p s)"
  by (auto simp: adders_ok_def adder_to_def)

lemma adders_ok_main:
  "adders_ok s \<Longrightarrow> (\<And>j. started_adder (main_at s) j \<Longrightarrow> started_adder p j) \<Longrightarrow>
    (\<And>j. int j < add_thread_num_F s \<Longrightarrow> joined_adder p j \<Longrightarrow>
      joined_adder (main_at s) j \<or> adders s j = A_Exited) \<Longrightarrow>
    adders_ok (main_to p s)"
  unfolding adders_ok_def main_to_def by fastforce

lemma adders_ok_frame [simp]:
  "adders_ok (s\<lparr>nodes := x1\<rparr>) = adders_ok s" "adders_ok (s\<lparr>queue_head_F := x2\<rparr>) = adders_ok s"
  "adders_ok (s\<lparr>cur_queue_size_F := x3\<rparr>) = adders_ok s"
  "adders_ok (s\<lparr>shutdown_F := x4\<rparr>) = adders_ok s" "adders_ok (s\<lparr>added := x5\<rparr>) = adders_ok s"
  "adders_ok (s\<lparr>taken := x6\<rparr>) = adders_ok s" "adders_ok (s\<lparr>worked := x7\<rparr>) = adders_ok s"
  "adders_ok (s\<lparr>pool_alive := x8\<rparr>) = adders_ok s"
  "adders_ok (s\<lparr>add_threadid_F := x9\<rparr>) = adders_ok s"
  "adders_ok (s\<lparr>do_threadid_F := x9\<rparr>) = adders_ok s"
  "adders_ok (s\<lparr>queue_lock_F := x10\<rparr>) = adders_ok s"
  "adders_ok (worker_to i pc s) = adders_ok s" "adders_ok (mutex_unlock s) = adders_ok s"
  "adders_ok (cond_broadcast s) = adders_ok s"
  by (simp_all add: adders_ok_def worker_to_def mutex_unlock_def cond_broadcast_def)

lemma adders_ok_moves: "moves s t \<Longrightarrow> adders_ok s \<Longrightarrow> adders_ok t"
proof (induction rule: moves.induct)
  case (m_create_add s k)
  then show ?case by (auto simp: adders_ok_def step_defs)
qed (simp_all add: adders_ok_adder adders_ok_main, auto intro!: adders_ok_main simp: less_Suc_eq)

lemma workers_ok_worker:
  "workers_ok s \<Longrightarrow> workers s i \<noteq> W_None \<Longrightarrow> workers s i \<noteq> W_Exited \<Longrightarrow> p \<noteq> W_None \<Longrightarrow>
    (p = W_Exit \<or> p = W_Exited \<longrightarrow> stopping (main_at s)) \<Longrightarrow> workers_ok (worker_to i p s)"
  by (auto simp: workers_ok_def worker_to_def)

lemma workers_ok_main:
  "workers_ok s \<Longrightarrow> (\<And>i. started_worker (main_at s) i \<Longrightarrow> started_worker p i) \<Longrightarrow>
    (\<And>i. int i < do_thread_num_F s \<Longrightarrow> joined_worker p i \<Longrightarrow>
      joined_worker (main_at s) i \<or> workers s i = W_Exited) \<Longrightarrow>
    (stopping (main_at s) \<Longrightarrow> stopping p) \<Longrightarrow> workers_ok (main_to p s)"
  unfolding workers_ok_def main_to_def by fastforce

lemma wake_eq [simp]:
  "wake p = W_None \<longleftrightarrow> p = W_None" "wake p = W_Exited \<longleftrightarrow> p = W_Exited"
  "wake p = W_Exit \<longleftrightarrow> p = W_Exit" "wake p = W_Check \<longleftrightarrow> p = W_Check"
  "wake p = W_Take \<longleftrightarrow> p = W_Take" "wake p = W_Wait \<longleftrightarrow> p = W_Wait" "wake p \<noteq> W_Waiting"
  by (auto simp: wake_def)

lemma workers_ok_frame [simp]:
  "workers_ok (s\<lparr>nodes := x1\<rparr>) = workers_ok s" "workers_ok (s\<lparr>queue_head_F := x2\<rparr>) = workers_ok s"
  "workers_ok (s\<lparr>cur_queue_size_F := x3\<rparr>) = workers_ok s"
  "workers_ok (s\<lparr>shutdown_F := x4\<rparr>) = workers_ok s" "workers_ok (s\<lparr>added := x5\<rparr>) = workers_ok s"
  "workers_ok (s\<lparr>taken := x6\<rparr>) = workers_ok s" "workers_ok (s\<lparr>worked := x7\<rparr>) = workers_ok s"
  "workers_ok (s\<lparr>pool_alive := x8\<rparr>) = workers_ok s"
  "workers_ok (s\<lparr>add_threadid_F := x9\<rparr>) = workers_ok s"
  "workers_ok (s\<lparr>do_threadid_F := x9\<rparr>) = workers_ok s"
  "workers_ok (s\<lparr>queue_lock_F := x10\<rparr>) = workers_ok s"
  "workers_ok (adder_to j pc s) = workers_ok s" "workers_ok (mutex_unlock s) = workers_ok s"
  "workers_ok (cond_broadcast s) = workers_ok s"
  by (simp_all add: workers_ok_def)

lemma workers_ok_moves: "moves s t \<Longrightarrow> main_ok s \<Longrightarrow> workers_ok s \<Longrightarrow> workers_ok t"
proof (induction rule: moves.induct)
  case (m_again s r)
  then have "r \<noteq> 0" by (simp add: main_ok_def)
  with m_again show ?case by (auto intro!: workers_ok_main)
next
  case (m_create_do s k)
  then show ?case by (auto simp: workers_ok_def)
next
  case (w_leave s i)
  then show ?case by (auto intro!: workers_ok_worker simp: main_ok_def split: if_splits)
next
  case (w_exit s i)
  then have "stopping (main_at s)" by (simp add: workers_ok_def)
  with w_exit show ?case by (simp add: workers_ok_worker)
qed (simp_all add: workers_ok_worker, auto intro!: workers_ok_main simp: workers_ok_worker less_Suc_eq)

lemma tests_ok_worker:
  "tests_ok s \<Longrightarrow> (p = W_Check \<longrightarrow> cur_queue_size_F s \<noteq> 0 \<or> shutdown_F s \<noteq> 0) \<Longrightarrow>
    (p = W_Take \<longrightarrow> cur_queue_size_F s \<noteq> 0) \<Longrightarrow> (p = W_Wait \<longrightarrow> cur_queue_size_F s = 0) \<Longrightarrow>
    tests_ok (worker_to i p s)"
  by (auto simp: tests_ok_def)

lemma tests_ok_frame [simp]:
  "tests_ok (s\<lparr>nodes := x1\<rparr>) = tests_ok s" "tests_ok (s\<lparr>queue_head_F := x2\<rparr>) = tests_ok s"
  "tests_ok (s\<lparr>added := x5\<rparr>) = tests_ok s" "tests_ok (s\<lparr>taken := x6\<rparr>) = tests_ok s"
  "tests_ok (s\<lparr>worked := x7\<rparr>) = tests_ok s" "tests_ok (s\<lparr>pool_alive := x8\<rparr>) = tests_ok s"
  "tests_ok (s\<lparr>add_threadid_F := x9\<rparr>) = tests_ok s" "tests_ok (s\<lparr>do_threadid_F := x9\<rparr>) = tests_ok s"
  "tests_ok (s\<lparr>queue_lock_F := x10\<rparr>) = tests_ok s" "tests_ok (adder_to j pc s) = tests_ok s"
  "tests_ok (main_to m s) = tests_ok s" "tests_ok (mutex_unlock s) = tests_ok s"
  "tests_ok (cond_broadcast s) = tests_ok s"
  by (simp_all add: tests_ok_def)

text \<open>While a producer links or a worker takes a task, no other worker stands between its tests.\<close>

lemma one_locked:
  "lock_ok s \<Longrightarrow> w_locked (workers s i) \<Longrightarrow> w_locked (workers s k) \<Longrightarrow> k = i"
  "lock_ok s \<Longrightarrow> a_locked (adders s j) \<Longrightarrow> \<not> w_locked (workers s k)"
  "lock_ok s \<Longrightarrow> a_locked (adders s j) \<Longrightarrow> a_locked (adders s l) \<Longrightarrow> l = j"
  by (simp_all add: lock_ok_def)

lemma tests_ok_link:
  assumes "lock_ok s" and "adders s j = A_Link a"
  shows "tests_ok (s\<lparr>cur_queue_size_F := n\<rparr>)"
proof -
  have "\<not> w_locked (workers s k)" for k using assms one_locked(2)[of s j] by simp
  then have "workers s k \<noteq> W_Check \<and> workers s k \<noteq> W_Take \<and> workers s k \<noteq> W_Wait" for k
    by (metis w_locked.simps(2,3,5))
  then show ?thesis by (simp add: tests_ok_def)
qed

lemma tests_ok_moves: "moves s t \<Longrightarrow> lock_ok s \<Longrightarrow> tests_ok s \<Longrightarrow> tests_ok t"
proof (induction rule: moves.induct)
  case (w_stay s i)
  then have "cur_queue_size_F s \<noteq> 0" by (auto simp: tests_ok_def)
  with w_stay show ?case by (simp add: tests_ok_worker)
next
  case (w_take s i a n)
  then have "k \<noteq> i \<Longrightarrow> \<not> w_locked (workers s k)" for k using one_locked(1)[of s i k] by auto
  then have "k \<noteq> i \<Longrightarrow> workers s k \<noteq> W_Check \<and> workers s k \<noteq> W_Take \<and> workers s k \<noteq> W_Wait" for k
    by (metis w_locked.simps(2,3,5))
  then show ?case by (auto simp: tests_ok_def)
next
  case (d_set s)
  then show ?case by (auto simp: tests_ok_def)
qed (auto simp: tests_ok_worker tests_ok_link)

end
