(* ===== verification/Thread_Pool_Queue.thy ===== *)
theory Thread_Pool_Queue
  imports Thread_Pool_Correct
begin

text \<open>
  The linked list of the thread pool refines a first-in first-out queue: a list of addresses
  that the nodes chain together, each allocated node owned by the list, by the producer that is
  about to link it or by the worker that took it.
\<close>

section \<open>Linked lists\<close>

primrec chain :: "(address \<Rightarrow> list_task option) \<Rightarrow> address option \<Rightarrow> address list \<Rightarrow> bool" where
  "chain h p [] \<longleftrightarrow> p = None"
| "chain h p (a # xs) \<longleftrightarrow> p = Some a \<and> (case h a of None \<Rightarrow> False | Some n \<Rightarrow> chain h (next_F n) xs)"

definition task_at :: "(address \<Rightarrow> list_task option) \<Rightarrow> address \<Rightarrow> nat" where
  "task_at h a = pList_Task (the (h a))"

lemma chain_update [simp]: "a \<notin> set xs \<Longrightarrow> chain (h(a := v)) p xs = chain h p xs"
  by (induction xs arbitrary: p) (auto split: option.splits)

lemma chain_allocated: "chain h p xs \<Longrightarrow> a \<in> set xs \<Longrightarrow> h a \<noteq> None"
  by (induction xs arbitrary: p) (auto split: option.splits)

lemma chain_head: "chain h p xs \<Longrightarrow> p = Some a \<Longrightarrow> \<exists>ys. xs = a # ys"
  by (cases xs) auto

lemma chain_last: "chain h (Some a) xs \<Longrightarrow> last_member h a = Some (Some (last xs))"
proof (induction xs arbitrary: a)
  case (Cons b xs)
  then obtain n where n: "b = a" "h a = Some n" "chain h (next_F n) xs"
    by (auto split: option.splits)
  then show ?case
    using Cons.IH by (cases "next_F n"; cases xs) (auto simp: last_member.simps[of h a])
qed simp

lemma chain_append:
  assumes "chain h p xs" and "xs \<noteq> []" and "distinct xs" and "a \<notin> set xs"
    and "h a = Some m" and "next_F m = None"
  shows "chain (h(last xs := Some ((the (h (last xs)))\<lparr>next_F := Some a\<rparr>))) p (xs @ [a])"
  using assms
proof (induction xs arbitrary: p)
  case (Cons b xs)
  then obtain n where n: "p = Some b" "h b = Some n" "chain h (next_F n) xs"
    by (auto split: option.splits)
  show ?case
  proof (cases xs)
    case Nil
    with Cons n show ?thesis by auto
  next
    case (Cons c ys)
    with Cons.prems have "last xs \<noteq> b" by auto
    with Cons n Cons.prems Cons.IH[of "next_F n"] show ?thesis by auto
  qed
qed simp

lemma task_at_update:
  "task_at (h(l := Some ((the (h l))\<lparr>next_F := q\<rparr>))) a = task_at h a"
  by (simp add: task_at_def)

lemma task_at_fresh [simp]: "a \<noteq> b \<Longrightarrow> task_at (h(a := v)) b = task_at h b"
  by (simp add: task_at_def)

lemma tasks_fresh [simp]:
  "a \<notin> set xs \<Longrightarrow> map (task_at (h(a := v))) xs = map (task_at h) xs"
  by (auto simp: task_at_def)

section \<open>Who owns a node\<close>

fun a_node :: "adder_pc \<Rightarrow> address option" where
  "a_node (A_Lock a) = Some a"
| "a_node (A_Link a) = Some a"
| "a_node _ = None"

fun w_node :: "worker_pc \<Rightarrow> address option" where
  "w_node (W_Unlock a) = Some a"
| "w_node (W_Work a) = Some a"
| "w_node (W_Free a) = Some a"
| "w_node _ = None"

fun held :: "pool_system \<Rightarrow> thread \<Rightarrow> address option" where
  "held s (Adder j) = a_node (adders s j)"
| "held s (Worker i) = w_node (workers s i)"

definition owned :: "(address \<Rightarrow> list_task option) \<Rightarrow> (thread \<Rightarrow> address option) \<Rightarrow> address list \<Rightarrow> bool"
where
  "owned h g xs \<longleftrightarrow> distinct xs \<and> dom h = set xs \<union> ran g \<and> ran g \<inter> set xs = {}
    \<and> (\<forall>th th' a. g th = Some a \<longrightarrow> g th' = Some a \<longrightarrow> th = th')
    \<and> (\<forall>j a n. g (Adder j) = Some a \<longrightarrow> h a = Some n \<longrightarrow> next_F n = None)"

lemma ran_forget:
  "(\<forall>th th' a. g th = Some a \<longrightarrow> g th' = Some a \<longrightarrow> th = th') \<Longrightarrow> g th = Some a \<Longrightarrow>
    ran (g(th := None)) = ran g - {a}"
  unfolding ran_def by (auto, metis option.inject)

lemma owned_apart: "owned h g xs \<Longrightarrow> g th = Some a \<Longrightarrow> a \<notin> set xs"
  unfolding owned_def by (metis disjoint_iff ranI)

lemma owned_unique: "owned h g xs \<Longrightarrow> g th = Some a \<Longrightarrow> g th' = Some a \<Longrightarrow> th = th'"
  unfolding owned_def by blast

lemma owned_allocated: "owned h g xs \<Longrightarrow> g th = Some a \<Longrightarrow> \<exists>n. h a = Some n"
  using ranI[of g th a] unfolding owned_def by blast

lemma owned_take:
  "owned h g (a # ys) \<Longrightarrow> g (Worker i) = None \<Longrightarrow> owned h (g(Worker i \<mapsto> a)) ys"
  using owned_apart[of h g "a # ys"] unfolding owned_def by (auto split: if_splits)

lemma owned_free:
  assumes "owned h g xs" and "g th = Some a"
  shows "owned (h(a := None)) (g(th := None)) xs"
proof -
  have "ran (g(th := None)) = ran g - {a}"
    using assms by (intro ran_forget) (auto simp: owned_def)
  moreover have "a \<in> ran g" using assms(2) by (auto simp: ran_def)
  ultimately show ?thesis using assms(1) unfolding owned_def by auto
qed

lemma owned_alloc:
  assumes "owned h g xs" and "h a = None" and "g (Adder j) = None" and "next_F n = None"
  shows "owned (h(a \<mapsto> n)) (g(Adder j \<mapsto> a)) xs"
proof -
  have "a \<notin> dom h" using assms(2) by auto
  then have "a \<notin> set xs" "a \<notin> ran g" using assms(1) by (auto simp: owned_def)
  then have "g th \<noteq> Some a" for th by (auto simp: ran_def)
  then show ?thesis using assms \<open>a \<notin> set xs\<close> unfolding owned_def by auto
qed

lemma owned_link:
  assumes "owned h g xs" and "g (Adder j) = Some a"
  shows "owned h (g(Adder j := None)) (xs @ [a])"
proof -
  have "ran (g(Adder j := None)) = ran g - {a}"
    using assms by (intro ran_forget) (auto simp: owned_def)
  moreover have "a \<in> ran g" using assms(2) by (auto simp: ran_def)
  ultimately show ?thesis using assms(1) unfolding owned_def by auto
qed

lemma owned_drain: "owned h g (a # ys) \<Longrightarrow> owned (h(a := None)) g ys"
  unfolding owned_def by auto

lemma owned_set_next:
  assumes "owned h g xs" and "l \<in> set xs" and "h l = Some n"
  shows "owned (h(l \<mapsto> n')) g xs"
proof -
  have "l \<notin> ran g" using assms by (auto simp: owned_def)
  then have "g th \<noteq> Some l" for th by (auto simp: ran_def)
  then show ?thesis using assms unfolding owned_def by (auto simp: insert_absorb)
qed

definition counted :: "pool_system \<Rightarrow> address list \<Rightarrow> bool" where
  "counted s xs \<longleftrightarrow> (if draining (main_at s) then drained (main_at s) \<longrightarrow> xs = []
     else cur_queue_size_F s = int (length xs) \<and> added s = taken s @ map (task_at (nodes s)) xs)"

definition queue_ok :: "pool_system \<Rightarrow> bool" where
  "queue_ok s \<longleftrightarrow> (\<exists>xs. chain (nodes s) (queue_head_F s) xs \<and> owned (nodes s) (held s) xs
     \<and> counted s xs)"

lemma draining_joined: "draining m \<Longrightarrow> joined_adder m j \<and> joined_worker m i"
  by (cases m) auto

lemma busy_adder:
  "adders_ok s \<Longrightarrow> adders s j = p \<Longrightarrow> p \<noteq> A_None \<Longrightarrow> p \<noteq> A_Exited \<Longrightarrow> \<not> draining (main_at s)"
  using draining_joined unfolding adders_ok_def by metis

lemma busy_worker:
  "workers_ok s \<Longrightarrow> workers s i = p \<Longrightarrow> p \<noteq> W_None \<Longrightarrow> p \<noteq> W_Exited \<Longrightarrow> \<not> draining (main_at s)"
  using draining_joined unfolding workers_ok_def by metis

lemma w_node_wake [simp]: "w_node (wake p) = w_node p"
  by (cases p) (auto simp: wake_def)

lemma held_cong: "adders t = adders s \<Longrightarrow> workers t = workers s \<Longrightarrow> held t = held s"
proof
  show "adders t = adders s \<Longrightarrow> workers t = workers s \<Longrightarrow> held t th = held s th" for th
    by (cases th) auto
qed

lemma held_worker: "workers t = (workers s)(i := p) \<Longrightarrow> adders t = adders s \<Longrightarrow>
    held t = (held s)(Worker i := w_node p)"
proof
  show "workers t = (workers s)(i := p) \<Longrightarrow> adders t = adders s \<Longrightarrow>
      held t th = ((held s)(Worker i := w_node p)) th" for th
    by (cases th) auto
qed

lemma held_adder: "adders t = (adders s)(j := p) \<Longrightarrow> workers t = workers s \<Longrightarrow>
    held t = (held s)(Adder j := a_node p)"
proof
  show "adders t = (adders s)(j := p) \<Longrightarrow> workers t = workers s \<Longrightarrow>
      held t th = ((held s)(Adder j := a_node p)) th" for th
    by (cases th) auto
qed

lemma held_broadcast [simp]: "held (cond_broadcast s) = held s"
proof
  show "held (cond_broadcast s) th = held s th" for th by (cases th) auto
qed

text \<open>A step that moves no node and leaves the queue alone.\<close>

lemma queue_ok_same:
  assumes "queue_ok s" and "nodes t = nodes s" and "queue_head_F t = queue_head_F s"
    and "held t = held s" and "cur_queue_size_F t = cur_queue_size_F s"
    and "added t = added s" and "taken t = taken s"
    and "draining (main_at s) \<Longrightarrow> draining (main_at t)"
    and "drained (main_at t) \<Longrightarrow> drained (main_at s)"
  shows "queue_ok t"
proof -
  have "drained m \<Longrightarrow> draining m" for m by (cases m) auto
  then have "counted s xs \<Longrightarrow> counted t xs" for xs
    using assms(2-9) by (auto simp: counted_def split: if_splits)
  then show ?thesis using assms(1-4) unfolding queue_ok_def by metis
qed

lemma queue_ok_worker:
  assumes "queue_ok s" and "w_node p = w_node (workers s i)"
  shows "queue_ok (worker_to i p s)"
proof (rule queue_ok_same[OF assms(1)])
  show "held (worker_to i p s) = held s"
    using assms(2) by (subst held_worker[of _ s i p]) (auto simp: fun_eq_iff)
qed simp_all

lemma queue_ok_adder:
  assumes "queue_ok s" and "a_node p = a_node (adders s j)"
  shows "queue_ok (adder_to j p s)"
proof (rule queue_ok_same[OF assms(1)])
  show "held (adder_to j p s) = held s"
    using assms(2) by (subst held_adder[of _ s j p]) (auto simp: fun_eq_iff)
qed simp_all

lemma queue_ok_main:
  assumes "queue_ok s" and "draining (main_at s) \<Longrightarrow> draining p" and "drained p \<Longrightarrow> drained (main_at s)"
  shows "queue_ok (main_to p s)"
  by (rule queue_ok_same[OF assms(1)]) (use assms held_cong[of "main_to p s" s] in auto)

lemma queue_ok_frame [simp]:
  "queue_ok (s\<lparr>queue_lock_F := x1\<rparr>) = queue_ok s" "queue_ok (s\<lparr>shutdown_F := x2\<rparr>) = queue_ok s"
  "queue_ok (s\<lparr>worked := x3\<rparr>) = queue_ok s" "queue_ok (s\<lparr>pool_alive := x4\<rparr>) = queue_ok s"
  "queue_ok (s\<lparr>add_threadid_F := x5\<rparr>) = queue_ok s" "queue_ok (s\<lparr>do_threadid_F := x5\<rparr>) = queue_ok s"
  "queue_ok (mutex_unlock s) = queue_ok s" "queue_ok (cond_broadcast s) = queue_ok s"
  by (auto simp: queue_ok_def counted_def held_cong[of "s\<lparr>queue_lock_F := x1\<rparr>" s]
      held_cong[of "s\<lparr>shutdown_F := x2\<rparr>" s] held_cong[of "s\<lparr>worked := x3\<rparr>" s]
      held_cong[of "s\<lparr>pool_alive := x4\<rparr>" s] held_cong[of "s\<lparr>add_threadid_F := x5\<rparr>" s]
      held_cong[of "s\<lparr>do_threadid_F := x5\<rparr>" s] held_cong[of "mutex_unlock s" s])

section \<open>The steps that move a node\<close>

lemma queue_okE:
  assumes "queue_ok s"
  obtains xs where "chain (nodes s) (queue_head_F s) xs" "owned (nodes s) (held s) xs" "counted s xs"
  using assms by (auto simp: queue_ok_def)

lemma queue_ok_take:
  assumes "queue_ok s" and "workers_ok s" and "workers s i = W_Take"
    and "queue_head_F s = Some a" and "nodes s a = Some n"
  shows "queue_ok (worker_to i (W_Unlock a)
      (s\<lparr>cur_queue_size_F := cur_queue_size_F s - 1, queue_head_F := next_F n,
         taken := taken s @ [pList_Task n]\<rparr>))" (is "queue_ok ?t")
proof -
  from assms(1) obtain xs
    where xs: "chain (nodes s) (queue_head_F s) xs" "owned (nodes s) (held s) xs" "counted s xs"
    by (rule queue_okE)
  obtain ys where ys: "xs = a # ys" using chain_head[OF xs(1) assms(4)] by blast
  have busy: "\<not> draining (main_at s)" using busy_worker[OF assms(2,3)] by simp
  have "held ?t = (held s)(Worker i := Some a)"
    by (subst held_worker[of _ s i "W_Unlock a"]) auto
  then have "owned (nodes ?t) (held ?t) ys"
    using owned_take[of "nodes s" "held s" a ys i] xs(2) ys assms(3) by simp
  moreover have "counted ?t ys"
    using xs(3) busy assms(5) by (simp add: counted_def ys task_at_def)
  moreover have "chain (nodes ?t) (queue_head_F ?t) ys" using xs(1) ys assms(5) by simp
  ultimately show ?thesis unfolding queue_ok_def by blast
qed

lemma queue_ok_free:
  assumes "queue_ok s" and "workers_ok s" and "workers s i = W_Free a"
  shows "queue_ok (worker_to i W_Lock (s\<lparr>nodes := (nodes s)(a := None)\<rparr>))" (is "queue_ok ?t")
proof -
  from assms(1) obtain xs
    where xs: "chain (nodes s) (queue_head_F s) xs" "owned (nodes s) (held s) xs" "counted s xs"
    by (rule queue_okE)
  have mine: "held s (Worker i) = Some a" using assms(3) by simp
  then have "a \<notin> set xs" by (rule owned_apart[OF xs(2)])
  moreover have "held ?t = (held s)(Worker i := None)"
    by (subst held_worker[of _ s i W_Lock]) auto
  then have "owned (nodes ?t) (held ?t) xs" using owned_free[OF xs(2) mine] by simp
  moreover have "\<not> draining (main_at s)" using busy_worker[OF assms(2,3)] by simp
  ultimately have "chain (nodes ?t) (queue_head_F ?t) xs" "owned (nodes ?t) (held ?t) xs" "counted ?t xs"
    using xs(1,3) by (simp_all add: counted_def)
  then show ?thesis unfolding queue_ok_def by blast
qed

lemma queue_ok_alloc:
  assumes "queue_ok s" and "adders_ok s" and "adders s j = A_Alloc t" and "nodes s a = None"
  shows "queue_ok (adder_to j (A_Lock a)
      (s\<lparr>nodes := (nodes s)(a \<mapsto> \<lparr>pList_Task = t, next_F = None\<rparr>)\<rparr>))" (is "queue_ok ?t")
proof -
  from assms(1) obtain xs
    where xs: "chain (nodes s) (queue_head_F s) xs" "owned (nodes s) (held s) xs" "counted s xs"
    by (rule queue_okE)
  have "a \<notin> set xs" using chain_allocated[OF xs(1)] assms(4) by blast
  moreover have "held ?t = (held s)(Adder j := Some a)"
    by (subst held_adder[of _ s j "A_Lock a"]) auto
  then have "owned (nodes ?t) (held ?t) xs" using owned_alloc[OF xs(2) assms(4)] assms(3) by simp
  moreover have "\<not> draining (main_at s)" using busy_adder[OF assms(2,3)] by simp
  ultimately have "chain (nodes ?t) (queue_head_F ?t) xs" "owned (nodes ?t) (held ?t) xs" "counted ?t xs"
    using xs(1,3) by (simp_all add: counted_def)
  then show ?thesis unfolding queue_ok_def by blast
qed

lemma queue_ok_first:
  assumes "queue_ok s" and "adders_ok s" and "adders s j = A_Link a" and "queue_head_F s = None"
  shows "queue_ok (adder_to j A_Unlock (s\<lparr>queue_head_F := Some a,
      added := added s @ [pList_Task (the (nodes s a))],
      cur_queue_size_F := cur_queue_size_F s + 1\<rparr>))" (is "queue_ok ?t")
proof -
  from assms(1) obtain xs
    where xs: "chain (nodes s) (queue_head_F s) xs" "owned (nodes s) (held s) xs" "counted s xs"
    by (rule queue_okE)
  have [simp]: "xs = []" using xs(1) assms(4) by (cases xs) auto
  have mine: "held s (Adder j) = Some a" using assms(3) by simp
  then obtain n where n: "nodes s a = Some n" "next_F n = None"
    using xs(2) unfolding owned_def by (metis UnCI domD ranI)
  have "held ?t = (held s)(Adder j := None)"
    by (subst held_adder[of _ s j A_Unlock]) auto
  then have "owned (nodes ?t) (held ?t) [a]" using owned_link[OF xs(2) mine] by simp
  moreover have "\<not> draining (main_at s)" using busy_adder[OF assms(2,3)] by simp
  then have "counted ?t [a]" using xs(3) by (simp add: counted_def task_at_def)
  moreover have "chain (nodes ?t) (queue_head_F ?t) [a]" using n by simp
  ultimately show ?thesis unfolding queue_ok_def by blast
qed

lemma queue_ok_append:
  assumes "queue_ok s" and "adders_ok s" and "adders s j = A_Link a" and "queue_head_F s = Some b"
    and "last_member (nodes s) b = Some (Some l)"
    and "s' = s\<lparr>nodes := (nodes s)(l := Some ((the (nodes s l))\<lparr>next_F := Some a\<rparr>))\<rparr>"
  shows "queue_ok (adder_to j A_Unlock (s'\<lparr>added := added s @ [pList_Task (the (nodes s' a))],
      cur_queue_size_F := cur_queue_size_F s + 1\<rparr>))" (is "queue_ok ?t")
proof -
  from assms(1) obtain xs
    where xs: "chain (nodes s) (queue_head_F s) xs" "owned (nodes s) (held s) xs" "counted s xs"
    by (rule queue_okE)
  have "xs \<noteq> []" using xs(1) assms(4) by (cases xs) auto
  moreover have l: "l = last xs" using chain_last[of "nodes s" b xs] xs(1) assms(4,5) by simp
  ultimately have lin: "l \<in> set xs" by simp
  have mine: "held s (Adder j) = Some a" using assms(3) by simp
  then obtain n where n: "nodes s a = Some n" "next_F n = None"
    using xs(2) unfolding owned_def by (metis UnCI domD ranI)
  have "a \<notin> set xs" "distinct xs" using owned_apart[OF xs(2) mine] xs(2) by (simp_all add: owned_def)
  then have "chain (nodes ?t) (queue_head_F ?t) (xs @ [a])"
    using chain_append[OF xs(1) \<open>xs \<noteq> []\<close> _ _ n] assms(6) l by simp
  moreover obtain m where m: "nodes s l = Some m" using chain_allocated[OF xs(1) lin] by blast
  have "held ?t = (held s)(Adder j := None)"
    by (subst held_adder[of _ s j A_Unlock]) (auto simp: assms(6))
  then have "owned (nodes ?t) (held ?t) (xs @ [a])"
    using owned_link[OF owned_set_next[OF xs(2) lin m] mine] m assms(6) by simp
  moreover have "\<not> draining (main_at s)" using busy_adder[OF assms(2,3)] by simp
  then have "counted ?t (xs @ [a])"
    using xs(3) task_at_update[of "nodes s" l "Some a"] by (simp add: counted_def assms(6) task_at_def)
  ultimately show ?thesis unfolding queue_ok_def by blast
qed

lemma queue_ok_drain:
  assumes "queue_ok s" and "main_at s = D_Drain" and "queue_head_F s = Some a" and "nodes s a = Some n"
  shows "queue_ok (s\<lparr>queue_head_F := next_F n, nodes := (nodes s)(a := None)\<rparr>)" (is "queue_ok ?t")
proof -
  from assms(1) obtain xs
    where xs: "chain (nodes s) (queue_head_F s) xs" "owned (nodes s) (held s) xs" "counted s xs"
    by (rule queue_okE)
  obtain ys where ys: "xs = a # ys" using chain_head[OF xs(1) assms(3)] by blast
  have "held ?t = held s" by (rule held_cong) simp_all
  then have "owned (nodes ?t) (held ?t) ys" using owned_drain xs(2) ys by simp
  moreover have "a \<notin> set ys" using xs(2) ys by (simp add: owned_def)
  ultimately have "chain (nodes ?t) (queue_head_F ?t) ys" "owned (nodes ?t) (held ?t) ys" "counted ?t ys"
    using xs(1) ys assms(2,4) by (simp_all add: counted_def)
  then show ?thesis unfolding queue_ok_def by blast
qed

lemma queue_ok_drained:
  assumes "queue_ok s" and "main_at s = D_Drain" and "queue_head_F s = None"
  shows "queue_ok (main_to D_Sync s)"
proof -
  from assms(1) obtain xs
    where xs: "chain (nodes s) (queue_head_F s) xs" "owned (nodes s) (held s) xs" "counted s xs"
    by (rule queue_okE)
  have [simp]: "xs = []" using xs(1) assms(3) by (cases xs) auto
  have "held (main_to D_Sync s) = held s" by (rule held_cong) simp_all
  with xs show ?thesis unfolding queue_ok_def by (intro exI[of _ "[]"]) (simp add: counted_def)
qed

lemma queue_ok_moves:
  "moves s t \<Longrightarrow> queue_ok s \<Longrightarrow> adders_ok s \<Longrightarrow> workers_ok s \<Longrightarrow> main_ok s \<Longrightarrow> queue_ok t"
proof (induction rule: moves.induct)
  case (m_again s r)
  then have "r \<noteq> 0" by (simp add: main_ok_def)
  with m_again show ?case by (auto intro!: queue_ok_main)
next
  case (m_create_add s k)
  then have "adders s k = A_None" by (auto simp: adders_ok_def)
  with m_create_add show ?case by (auto intro!: queue_ok_main queue_ok_adder)
next
  case (m_create_do s k)
  then have "workers s k = W_None" by (auto simp: workers_ok_def)
  with m_create_do show ?case by (auto intro!: queue_ok_main queue_ok_worker)
next
  case (a_append s j a b l s')
  then show ?case by (intro queue_ok_append)
qed (simp_all add: queue_ok_take queue_ok_free queue_ok_alloc queue_ok_first queue_ok_drain
    queue_ok_drained queue_ok_worker queue_ok_adder, auto intro!: queue_ok_main queue_ok_worker)

end
