(* ===== verification/Thread_Pool_Inv.thy ===== *)
theory Thread_Pool_Inv
  imports Thread_Pool_Queue
begin

text \<open>
  The remaining invariants of the thread pool (each task taken is executed once, a task in the
  queue is never slept through) and what all of them give for every reachable state.
\<close>

section \<open>Tasks in the hands of workers\<close>

fun in_hand :: "(address \<Rightarrow> list_task option) \<Rightarrow> worker_pc \<Rightarrow> nat multiset" where
  "in_hand h (W_Unlock a) = {#task_at h a#}"
| "in_hand h (W_Work a) = {#task_at h a#}"
| "in_hand h _ = {#}"

definition in_progress :: "pool_system \<Rightarrow> nat multiset" where
  "in_progress s = (\<Sum>i<nat (do_thread_num_F s). in_hand (nodes s) (workers s i))"

definition work_ok :: "pool_system \<Rightarrow> bool" where
  "work_ok s \<longleftrightarrow> mset (taken s) = mset (worked s) + in_progress s"

lemma in_hand_wake [simp]: "in_hand h (wake p) = in_hand h p"
  by (cases p) (auto simp: wake_def)

lemma in_progress_worker:
  assumes "workers t = (workers s)(i := p)" and "do_thread_num_F t = do_thread_num_F s"
    and "\<And>k. k \<noteq> i \<Longrightarrow> in_hand (nodes t) (workers s k) = in_hand (nodes s) (workers s k)"
    and "int i < do_thread_num_F s"
  shows "in_progress t + in_hand (nodes s) (workers s i) = in_progress s + in_hand (nodes t) p"
proof -
  let ?I = "{..<nat (do_thread_num_F s)}"
  have i: "i \<in> ?I" using assms(4) by auto
  have "(\<Sum>k\<in>?I - {i}. in_hand (nodes t) (workers t k))
      = (\<Sum>k\<in>?I - {i}. in_hand (nodes s) (workers s k))"
    by (rule sum.cong) (auto simp: assms(1,3))
  then show ?thesis
    using i by (simp add: in_progress_def assms(1,2) sum.remove[of _ i] ac_simps)
qed

lemma in_progress_same:
  assumes "workers t = workers s" and "do_thread_num_F t = do_thread_num_F s"
    and "\<And>k. in_hand (nodes t) (workers s k) = in_hand (nodes s) (workers s k)"
  shows "in_progress t = in_progress s"
  by (simp add: in_progress_def assms)

lemma in_hand_update:
  "w_node p \<noteq> Some a \<Longrightarrow> in_hand (h(a := v)) p = in_hand h p"
  by (cases p) (auto simp: task_at_def)

lemma work_ok_worker:
  assumes "work_ok s" and "workers_ok s" and "workers s i \<noteq> W_None"
    and "workers t = (workers s)(i := p)" and "do_thread_num_F t = do_thread_num_F s"
    and "\<And>k. k \<noteq> i \<Longrightarrow> in_hand (nodes t) (workers s k) = in_hand (nodes s) (workers s k)"
    and "mset (taken t) + in_hand (nodes s) (workers s i) + mset (worked s)
       = mset (taken s) + in_hand (nodes t) p + mset (worked t)"
  shows "work_ok t"
proof -
  have "int i < do_thread_num_F s" using assms(2,3) by (simp add: workers_ok_def)
  from in_progress_worker[OF assms(4,5,6) this]
  have "mset (taken t) + (in_hand (nodes s) (workers s i) + mset (worked s))
      = mset (worked t) + in_progress t + (in_hand (nodes s) (workers s i) + mset (worked s))"
    using assms(1,7) by (simp add: work_ok_def ac_simps)
  then show ?thesis unfolding work_ok_def by (rule add_right_imp_eq)
qed

lemma work_ok_same:
  assumes "work_ok s" and "workers t = workers s" and "do_thread_num_F t = do_thread_num_F s"
    and "\<And>k. in_hand (nodes t) (workers s k) = in_hand (nodes s) (workers s k)"
    and "taken t = taken s" and "worked t = worked s"
  shows "work_ok t"
  using assms(1,5,6) in_progress_same[OF assms(2-4)] by (simp add: work_ok_def)

lemma work_ok_step:
  assumes "work_ok s" and "workers_ok s" and "workers s i \<noteq> W_None"
    and "in_hand (nodes s) (workers s i) = in_hand (nodes s) p"
  shows "work_ok (worker_to i p s)"
  by (rule work_ok_worker[OF assms(1-3)]) (auto simp: assms(4))

lemma work_ok_frame [simp]:
  "work_ok (s\<lparr>queue_lock_F := x1\<rparr>) = work_ok s" "work_ok (s\<lparr>shutdown_F := x2\<rparr>) = work_ok s"
  "work_ok (s\<lparr>pool_alive := x4\<rparr>) = work_ok s" "work_ok (s\<lparr>queue_head_F := x3\<rparr>) = work_ok s"
  "work_ok (s\<lparr>add_threadid_F := x5\<rparr>) = work_ok s" "work_ok (s\<lparr>do_threadid_F := x5\<rparr>) = work_ok s"
  "work_ok (s\<lparr>cur_queue_size_F := x6\<rparr>) = work_ok s" "work_ok (s\<lparr>added := x7\<rparr>) = work_ok s"
  "work_ok (mutex_unlock s) = work_ok s" "work_ok (main_to m s) = work_ok s"
  "work_ok (adder_to j q s) = work_ok s" "work_ok (cond_broadcast s) = work_ok s"
  by (auto simp: work_ok_def in_progress_def)

lemma work_ok_moves:
  "moves s t \<Longrightarrow> work_ok s \<Longrightarrow> workers_ok s \<Longrightarrow> queue_ok s \<Longrightarrow> work_ok t"
proof (induction rule: moves.induct)
  case (w_take s i a n)
  then show ?case
    by (intro work_ok_worker[OF w_take.prems(1,2), where i = i and p = "W_Unlock a"]) (auto simp: task_at_def)
next
  case (w_work s i a n)
  then show ?case
    by (intro work_ok_worker[OF w_work.prems(1,2), where i = i and p = "W_Free a"]) (auto simp: task_at_def)
next
  case (w_free s i a n)
  from w_free.prems(3) obtain xs where "owned (nodes s) (held s) xs" by (rule queue_okE)
  then have "k \<noteq> i \<Longrightarrow> held s (Worker k) \<noteq> Some a" for k
    using owned_unique[of "nodes s" "held s" xs "Worker k" a "Worker i"] w_free.hyps(1) by auto
  then have "k \<noteq> i \<Longrightarrow> in_hand ((nodes s)(a := None)) (workers s k) = in_hand (nodes s) (workers s k)" for k
    by (simp add: in_hand_update)
  with w_free show ?case
    by (intro work_ok_worker[OF w_free.prems(1,2), where i = i and p = W_Lock]) auto
next
  case (a_alloc s j t a)
  from a_alloc.prems(3) obtain xs where xs: "owned (nodes s) (held s) xs" by (rule queue_okE)
  have "held s (Worker k) \<noteq> Some a" for k
    using owned_allocated[OF xs, of "Worker k" a] a_alloc.hyps(2) by auto
  then have "in_hand ((nodes s)(a \<mapsto> v)) (workers s k) = in_hand (nodes s) (workers s k)" for k v
    by (simp add: in_hand_update)
  with a_alloc show ?case by (intro work_ok_same[OF a_alloc.prems(1)]) simp_all
next
  case (a_append s j a b l s')
  have "in_hand (nodes s') p = in_hand (nodes s) p" for p
    using a_append.hyps(4) task_at_update[of "nodes s" l "Some a"] by (cases p) simp_all
  with a_append show ?case by (intro work_ok_same[OF a_append.prems(1)]) simp_all
next
  case (m_create_do s k)
  then have none: "workers s k = W_None" by (auto simp: workers_ok_def)
  have "in_progress (worker_to k W_Lock s) = in_progress s"
    unfolding in_progress_def by (rule sum.cong) (auto simp: none)
  with m_create_do.prems(1) show ?case by (simp add: work_ok_def in_progress_def)
next
  case (d_drain s a n)
  from d_drain.prems(3) obtain xs
    where xs: "chain (nodes s) (queue_head_F s) xs" "owned (nodes s) (held s) xs" by (rule queue_okE)
  then have "held s (Worker k) \<noteq> Some a" for k
    using owned_apart[OF xs(2), of "Worker k" a] chain_head[OF xs(1) d_drain.hyps(2)] by auto
  then have "in_hand ((nodes s)(a := None)) (workers s k) = in_hand (nodes s) (workers s k)" for k
    by (simp add: in_hand_update)
  with d_drain show ?case by (intro work_ok_same[OF d_drain.prems(1)]) simp_all
qed (auto simp: work_ok_step)

section \<open>No lost wake-up of a task\<close>

definition wakeup_ok :: "pool_system \<Rightarrow> bool" where
  "wakeup_ok s \<longleftrightarrow> (cur_queue_size_F s \<noteq> 0 \<longrightarrow> (\<exists>i. workers s i = W_Waiting) \<longrightarrow>
     (\<exists>j. adders s j = A_Unlock \<or> adders s j = A_Broadcast))"

lemma wakeup_ok_worker:
  "wakeup_ok s \<Longrightarrow> p = W_Waiting \<longrightarrow> cur_queue_size_F s = 0 \<Longrightarrow> wakeup_ok (worker_to i p s)"
  unfolding wakeup_ok_def by auto

lemma wakeup_ok_adder:
  "wakeup_ok s \<Longrightarrow> adders s j \<noteq> A_Unlock \<Longrightarrow> adders s j \<noteq> A_Broadcast \<Longrightarrow> wakeup_ok (adder_to j p s)"
  unfolding wakeup_ok_def by (auto; metis)

lemma wakeup_ok_frame [simp]:
  "wakeup_ok (s\<lparr>queue_lock_F := x1\<rparr>) = wakeup_ok s" "wakeup_ok (s\<lparr>shutdown_F := x2\<rparr>) = wakeup_ok s"
  "wakeup_ok (s\<lparr>pool_alive := x4\<rparr>) = wakeup_ok s" "wakeup_ok (s\<lparr>queue_head_F := x3\<rparr>) = wakeup_ok s"
  "wakeup_ok (s\<lparr>add_threadid_F := x5\<rparr>) = wakeup_ok s" "wakeup_ok (s\<lparr>do_threadid_F := x5\<rparr>) = wakeup_ok s"
  "wakeup_ok (s\<lparr>nodes := x6\<rparr>) = wakeup_ok s" "wakeup_ok (s\<lparr>added := x7\<rparr>) = wakeup_ok s"
  "wakeup_ok (s\<lparr>taken := x7\<rparr>) = wakeup_ok s" "wakeup_ok (s\<lparr>worked := x7\<rparr>) = wakeup_ok s"
  "wakeup_ok (mutex_unlock s) = wakeup_ok s" "wakeup_ok (main_to m s) = wakeup_ok s"
  "wakeup_ok (cond_broadcast s)"
  by (simp_all add: wakeup_ok_def)

lemma wakeup_ok_moves: "moves s t \<Longrightarrow> wakeup_ok s \<Longrightarrow> adders_ok s \<Longrightarrow> tests_ok s \<Longrightarrow> wakeup_ok t"
proof (induction rule: moves.induct)
  case (w_wait s i)
  then have "cur_queue_size_F s = 0" by (simp add: tests_ok_def)
  with w_wait show ?case by (simp add: wakeup_ok_worker)
next
  case (w_take s i a n)
  then have "cur_queue_size_F s \<noteq> 0" by (simp add: tests_ok_def)
  with w_take have "wakeup_ok (s\<lparr>cur_queue_size_F := cur_queue_size_F s - 1\<rparr>)" by (simp add: wakeup_ok_def)
  with w_take show ?case by (simp add: wakeup_ok_worker)
next
  case (m_create_add s k)
  then have "adders s k = A_None" by (auto simp: adders_ok_def)
  with m_create_add show ?case by (simp add: wakeup_ok_adder)
next
  case (a_first s j a)
  show ?case by (auto simp: wakeup_ok_def)
next
  case (a_append s j a b l s')
  show ?case by (auto simp: wakeup_ok_def)
next
  case (a_unlock s j)
  show ?case by (auto simp: wakeup_ok_def)
next
  case (a_broadcast s j)
  show ?case by (auto simp: wakeup_ok_def)
qed (auto simp: wakeup_ok_worker wakeup_ok_adder)

section \<open>All invariants\<close>

definition pool_ok :: "pool_system \<Rightarrow> bool" where
  "pool_ok s \<longleftrightarrow> lock_ok s \<and> main_ok s \<and> adders_ok s \<and> workers_ok s \<and> tests_ok s \<and> queue_ok s
     \<and> work_ok s \<and> wakeup_ok s"

lemma pool_ok_initial: "pool_ok (initial_pool addn don)"
proof -
  let ?s = "initial_pool addn don"
  have "held ?s th = None" for th by (cases th) (simp_all add: initial_pool_def)
  then have "owned (nodes ?s) (held ?s) []" by (simp add: owned_def initial_pool_def ran_def)
  then have "queue_ok ?s"
    unfolding queue_ok_def by (intro exI[of _ "[]"]) (simp add: counted_def initial_pool_def)
  then show ?thesis
    by (simp add: pool_ok_def lock_ok_def main_ok_def adders_ok_def workers_ok_def tests_ok_def
        work_ok_def in_progress_def wakeup_ok_def) (simp add: initial_pool_def)
qed

lemma pool_ok_moves: "moves s t \<Longrightarrow> pool_ok s \<Longrightarrow> pool_ok t"
  unfolding pool_ok_def
  by (blast intro: lock_ok_moves main_ok_moves adders_ok_moves workers_ok_moves tests_ok_moves
      queue_ok_moves work_ok_moves wakeup_ok_moves)

text \<open>A state in order blames no thread for a null pointer or for freed memory.\<close>

lemma queue_size_head:
  assumes "queue_ok s" and "\<not> draining (main_at s)"
  shows "queue_head_F s = None \<longleftrightarrow> cur_queue_size_F s = 0"
proof -
  from assms(1) obtain xs where "chain (nodes s) (queue_head_F s) xs" "counted s xs" by (rule queue_okE)
  then show ?thesis using assms(2) by (cases xs) (auto simp: counted_def)
qed

lemma pool_ok_blameless:
  assumes "pool_ok s"
  shows "\<not> blamed s Null_Pointer" and "\<not> blamed s Use_After_Free"
proof -
  from assms have ok: "main_ok s" "adders_ok s" "workers_ok s" "tests_ok s" "queue_ok s"
    by (simp_all add: pool_ok_def)
  from ok(5) obtain xs
    where xs: "chain (nodes s) (queue_head_F s) xs" "owned (nodes s) (held s) xs" by (rule queue_okE)
  show "\<not> blamed s Null_Pointer"
    using ok(3,4) queue_size_head[OF ok(5)] busy_worker[OF ok(3), of _ W_Take]
    by (auto simp: blamed_null tests_ok_def)
  have gone: "\<not> pool_alive s \<Longrightarrow> main_at s = D_Return 0" using ok(1) by (simp add: main_ok_def)
  then have dead: "pool_alive s \<or> (\<forall>i. workers s i = W_None \<or> workers s i = W_Exited)
      \<and> (\<forall>j. adders s j = A_None \<or> adders s j = A_Exited)"
    using busy_worker[OF ok(3) refl] busy_adder[OF ok(2) refl] by fastforce
  have "queue_head_F s = Some a \<Longrightarrow> a \<in> set xs" for a using chain_head[OF xs(1)] by auto
  then have head: "queue_head_F s = Some a \<Longrightarrow> nodes s a \<noteq> None" for a
    using chain_allocated[OF xs(1)] by blast
  have work: "workers s i = W_Work a \<or> workers s i = W_Free a \<Longrightarrow> nodes s a \<noteq> None" for i a
    using owned_allocated[OF xs(2), of "Worker i" a] by auto
  have walk: "queue_head_F s = Some a \<Longrightarrow> last_member (nodes s) a \<noteq> Some None" for a
    using chain_last[of "nodes s" a xs] xs(1) by auto
  show "\<not> blamed s Use_After_Free"
    unfolding blamed_use using gone dead head work walk by blast
qed

text \<open>
  Besides a failed \<^verbatim>\<open>malloc\<close>, the overflow of the counter and the join of a thread that was not created there is one more
  fault: the signal handler that runs again when it has freed the pool.
\<close>

lemma reachable_ok:
  "reachable addn don s \<Longrightarrow> (fault s = None \<longrightarrow> pool_ok s) \<and>
     fault s \<in> {None, Some Out_Of_Memory, Some Counter_Overflow, Some Unknown_Thread, Some Signal_After_Free} \<and>
     (fault s = Some Signal_After_Free \<longrightarrow> main_at s = D_Return 0 \<and> \<not> pool_alive s)"
proof (induction rule: reachable.induct)
  case (start s)
  then have "s = initial_pool addn don" by (auto simp: ThreadPool_Init_def split: if_splits)
  then show ?case using pool_ok_initial by (simp add: initial_pool_def)
next
  case (step s act t)
  have none: "fault s = None" and "outcome s t" using perform_cases[OF step.hyps(2)] by auto
  then have ok: "pool_ok s" using step.IH by simp
  from \<open>outcome s t\<close> show ?case
  proof cases
    case moved
    then show ?thesis using moves_fault[OF moved] pool_ok_moves[OF moved ok] none by simp
  next
    case (failed f)
    then show ?thesis using pool_ok_blameless[OF ok] ok by (cases f) (auto simp: blamed_signal pool_ok_def main_ok_def)
  qed
qed

end
