(* ===== verification/Thread_Pool_Properties.thy ===== *)
theory Thread_Pool_Properties
  imports Thread_Pool_Inv
begin

text \<open>The properties of the thread pool, each over every interleaving of its threads.\<close>

definition reaches :: "int \<Rightarrow> int \<Rightarrow> action list \<Rightarrow> (pool_system \<Rightarrow> bool) \<Rightarrow> bool" where
  "reaches addn don acts P \<longleftrightarrow>
     (case run acts (initial_pool addn don) of None \<Rightarrow> False | Some s \<Rightarrow> P s)"

lemma reachesE:
  assumes "reaches addn don acts P" and "addn \<noteq> 0"
  obtains s where "reachable addn don s" and "P s"
proof -
  have "reachable addn don (initial_pool addn don)"
    using assms(2) by (intro reachable.start) (simp add: ThreadPool_Init_def)
  then show thesis
    using assms(1) that run_reachable[of addn don "initial_pool addn don" acts]
    unfolding reaches_def by (auto split: option.splits)
qed

lemma reachable_pool_ok: "reachable addn don s \<Longrightarrow> fault s = None \<Longrightarrow> pool_ok s"
  using reachable_ok by blast


text \<open>One producer queues the tasks 7 and 8; one worker takes the first and executes it.\<close>

definition demo_create :: "action list" where
  "demo_create = replicate 6 (Run_Main True)"

definition demo_queue :: "nat \<Rightarrow> nat \<Rightarrow> action list" where
  "demo_queue t a = Into_Queue 0 t # replicate 5 (Run_Adder 0 (Some a))"

definition demo_work :: "action list" where
  "demo_work = demo_create @ demo_queue 7 100 @ demo_queue 8 200 @ replicate 6 (Run_Worker 0)"

definition demo_destroy :: "action list" where
  "demo_destroy = demo_work @ Return_AddWork 0 # Pool_Destroy # replicate 6 (Run_Main True)
     @ replicate 5 (Run_Worker 0)"

section \<open>The queue\<close>

text \<open>
  (C5) The linked list is a first-in first-out queue of the tasks: in every reachable state
  before the pool is emptied, the tasks linked by the producers are, in the order of linking, the
  tasks taken by the workers followed by the tasks in the list, \<^verbatim>\<open>cur_queue_size_F\<close> is the
  length of the list, and every task taken was handed to \<^verbatim>\<open>DoWork\<close> exactly once or is in the
  hands of one worker that is about to do so.
\<close>

theorem pool_fifo:
  assumes "reachable addn don s" and "fault s = None" and "\<not> draining (main_at s)"
  shows "\<exists>xs. chain (nodes s) (queue_head_F s) xs \<and> distinct xs
    \<and> added s = taken s @ map (task_at (nodes s)) xs
    \<and> cur_queue_size_F s = int (length xs)
    \<and> mset (taken s) = mset (worked s) + in_progress s"
proof -
  have ok: "queue_ok s" "work_ok s" using reachable_pool_ok[OF assms(1,2)] by (simp_all add: pool_ok_def)
  from ok(1) obtain xs
    where "chain (nodes s) (queue_head_F s) xs" "owned (nodes s) (held s) xs" "counted s xs"
    by (rule queue_okE)
  then show ?thesis using assms(3) ok(2) by (auto simp: counted_def owned_def work_ok_def)
qed

theorem pool_fifo_witness:
  "\<exists>s xs. reachable 1 1 s \<and> chain (nodes s) (queue_head_F s) xs
    \<and> [7, 8] = [7] @ map (task_at (nodes s)) xs \<and> int (length xs) = 1"
proof -
  have "reaches 1 1 demo_work (\<lambda>s. fault s = None \<and> \<not> draining (main_at s) \<and> added s = [7, 8]
      \<and> taken s = [7] \<and> cur_queue_size_F s = 1)"
    by code_simp
  then obtain s where s: "reachable 1 1 s" "fault s = None" "\<not> draining (main_at s)"
      "added s = [7, 8]" "taken s = [7]" "cur_queue_size_F s = 1"
    by (rule reachesE) auto
  from pool_fifo[OF s(1-3)] obtain xs where "chain (nodes s) (queue_head_F s) xs"
      "added s = taken s @ map (task_at (nodes s)) xs" "cur_queue_size_F s = int (length xs)"
    by blast
  with s show ?thesis by (intro exI[of _ s] exI[of _ xs]) auto
qed



section \<open>Progress\<close>

lemma worker_step_fault:
  "worker_step i s = Some t \<Longrightarrow> fault s = None \<Longrightarrow>
    fault t \<in> {None, Some Null_Pointer, Some Use_After_Free}"
  by (auto simp: worker_step_def on_pool_def mutex_lock_def take_task_def fail_def
      split: worker_pc.splits if_splits option.splits)

lemma worker_runs:
  assumes "reachable addn don s" and "fault s = None" and "worker_step i s = Some t"
  shows "perform (Run_Worker i) s = Some t \<and> fault t = None"
proof -
  have p: "perform (Run_Worker i) s = Some t" using assms(2,3) by (simp add: perform_def)
  then have "reachable addn don t" using assms(1) by (rule reachable.step[rotated])
  from reachable_ok[OF this] show ?thesis using p worker_step_fault[OF assms(3,2)] by auto
qed

lemma worker_enabled:
  assumes "pool_alive s" and "queue_lock_F s = None \<or> w_locked (workers s i)"
    and "workers s i \<notin> {W_None, W_Waiting, W_Exited}"
  shows "\<exists>t. worker_step i s = Some t"
  using assms
  by (cases "workers s i")
    (auto simp: worker_step_def on_pool_def mutex_lock_def take_task_def fail_def split: option.splits)

lemma adder_enabled:
  assumes "pool_ok s" and "fault s = None" and "pool_alive s" and "cur_queue_size_F s < 2 ^ 31 - 1"
    and "a_locked (adders s j) \<or> adders s j = A_Broadcast"
  shows "\<exists>t. perform (Run_Adder j None) s = Some t \<and> fault t = None"
proof (cases "adders s j")
  case (A_Link a)
  from assms(1) have "queue_ok s" by (simp add: pool_ok_def)
  then obtain xs where xs: "chain (nodes s) (queue_head_F s) xs" by (rule queue_okE)
  have "\<exists>t. link_task j a s = Some t \<and> fault t = None"
  proof (cases "queue_head_F s")
    case (Some b)
    then have "last_member (nodes s) b = Some (Some (last xs))" using xs chain_last by simp
    with Some assms(2,4) show ?thesis by (simp add: link_task_def count_up_def)
  qed (use assms(2,4) in \<open>simp add: link_task_def count_up_def\<close>)
  with A_Link assms(2,3) show ?thesis by (simp add: perform_def adder_step_def on_pool_def)
qed (use assms in \<open>auto simp: perform_def adder_step_def on_pool_def\<close>)

text \<open>
  (C13) No task is slept through: as long as the pool is not shut down, has a worker and the
  counter has not reached its maximum, a queued task keeps the pool moving, that is, some worker
  or producer inside \<^verbatim>\<open>Into_Queue\<close> can take its next step without a fault.
\<close>

theorem pool_progress:
  assumes "reachable addn don s" and "fault s = None" and "shutdown_F s = 0"
    and "cur_queue_size_F s \<noteq> 0" and "cur_queue_size_F s < 2 ^ 31 - 1" and "workers s i \<noteq> W_None"
  shows "\<exists>act t. act \<in> range Run_Worker \<union> range (\<lambda>j. Run_Adder j None)
    \<and> perform act s = Some t \<and> fault t = None"
proof -
  have ok: "pool_ok s" by (rule reachable_pool_ok[OF assms(1,2)])
  then have "\<not> stopping (main_at s)" using assms(3) by (auto simp: pool_ok_def main_ok_def)
  then have alive: "pool_alive s" and nexit: "workers s k \<noteq> W_Exited" for k
    using ok by (auto simp: pool_ok_def main_ok_def workers_ok_def)
  note adder = adder_enabled[OF ok assms(2) alive assms(5)]
  have lock: "lock_ok s" using ok by (simp add: pool_ok_def)
  have worker: ?thesis if "queue_lock_F s = None \<or> w_locked (workers s k)"
      "workers s k \<notin> {W_None, W_Waiting, W_Exited}" for k
    using worker_enabled[OF alive that] worker_runs[OF assms(1,2)] by blast
  consider k where "queue_lock_F s = Some (Worker k)" | j where "queue_lock_F s = Some (Adder j)"
    | (free) "queue_lock_F s = None" by (metis option.exhaust thread.exhaust)
  then show ?thesis
  proof cases
    case (1 k)
    then have "w_locked (workers s k)" using lock by (simp add: lock_ok_def)
    moreover from this have "workers s k \<notin> {W_None, W_Waiting, W_Exited}" by auto
    ultimately show ?thesis using worker by blast
  next
    case (2 j)
    then have "a_locked (adders s j)" using lock by (simp add: lock_ok_def)
    then show ?thesis using adder by blast
  next
    case free
    show ?thesis
    proof (cases "workers s i = W_Waiting")
      case True
      then obtain j where "adders s j = A_Unlock \<or> adders s j = A_Broadcast"
        using ok assms(4) unfolding pool_ok_def wakeup_ok_def by blast
      then have "a_locked (adders s j) \<or> adders s j = A_Broadcast" by auto
      then show ?thesis using adder by blast
    next
      case False
      then show ?thesis using worker[of i] free assms(6) nexit by blast
    qed
  qed
qed

theorem pool_progress_witness:
  "\<exists>s. reachable 1 1 s \<and> workers s 0 = W_Waiting \<and> cur_queue_size_F s = 1
    \<and> (\<exists>act t. act \<in> range Run_Worker \<union> range (\<lambda>j. Run_Adder j None)
        \<and> perform act s = Some t \<and> fault t = None)"
proof -
  have "reaches 1 1 (demo_create @ replicate 3 (Run_Worker 0)
        @ Into_Queue 0 7 # replicate 3 (Run_Adder 0 (Some 100)))
      (\<lambda>s. fault s = None \<and> shutdown_F s = 0 \<and> cur_queue_size_F s = 1 \<and> workers s 0 = W_Waiting)"
    by code_simp
  then obtain s where s: "reachable 1 1 s" "fault s = None" "shutdown_F s = 0"
      "cur_queue_size_F s = 1" "workers s 0 = W_Waiting"
    by (rule reachesE) auto
  have "\<exists>act t. act \<in> range Run_Worker \<union> range (\<lambda>j. Run_Adder j None)
      \<and> perform act s = Some t \<and> fault t = None"
    by (rule pool_progress[OF s(1-3), where i = 0]) (simp_all add: s)
  with s show ?thesis by blast
qed

section \<open>Shutting down\<close>

lemma idle_adder:
  assumes "adders s j \<in> {A_None, A_Exited}"
  shows "perform (Into_Queue j t) s = None" "perform (Return_AddWork j) s = None"
    "perform (Run_Adder j m) s = None"
  using assms by (auto simp: perform_def adder_step_def)

lemma idle_worker:
  assumes "workers s i \<in> {W_None, W_Exited}"
  shows "perform (Run_Worker i) s = None" "perform (Spurious_Wakeup i) s = None"
  using assms by (auto simp: perform_def worker_step_def)

text \<open>
  (C14) When \<^verbatim>\<open>threadpool_destroy\<close> has returned 0, every producer and every worker has exited,
  every list node is freed, and no thread can touch the freed pool. Only the main thread can: a second \<^verbatim>\<open>SIGTERM\<close> makes
  the handler read the pool that it has freed, as the global pointer still refers to it.
\<close>

theorem pool_destroyed:
  assumes "reachable addn don s" and "fault s = None" and "main_at s = D_Return 0"
  shows "(\<forall>j. adders s j \<in> {A_None, A_Exited}) \<and> (\<forall>i. workers s i \<in> {W_None, W_Exited})
    \<and> nodes s = (\<lambda>_. None) \<and> (\<forall>act. act \<noteq> Pool_Destroy \<longrightarrow> perform act s = None)
    \<and> perform Pool_Destroy s = Some (s\<lparr>fault := Some Signal_After_Free\<rparr>)"
proof -
  have ok: "adders_ok s" "workers_ok s" "queue_ok s" "main_ok s"
    using reachable_pool_ok[OF assms(1,2)] by (simp_all add: pool_ok_def)
  have a: "adders s j \<in> {A_None, A_Exited}" for j using busy_adder[OF ok(1) refl, of j] assms(3) by auto
  have w: "workers s i \<in> {W_None, W_Exited}" for i using busy_worker[OF ok(2) refl, of i] assms(3) by auto
  from ok(3) obtain xs where xs: "owned (nodes s) (held s) xs" "counted s xs" by (rule queue_okE)
  have "a_node (adders s j) = None" for j using a[of j] by auto
  moreover have "w_node (workers s i) = None" for i using w[of i] by auto
  ultimately have "held s th = None" for th by (cases th) simp_all
  then have "dom (nodes s) = {}" using xs assms(3) by (auto simp: owned_def counted_def ran_def)
  then have "nodes s = (\<lambda>_. None)" by simp
  moreover have "perform act s = None" if "act \<noteq> Pool_Destroy" for act
    using that by (cases act)
      (simp_all add: idle_adder[OF a] idle_worker[OF w] perform_def[of "Run_Main ok" for ok] main_step_def assms(3))
  moreover have "perform Pool_Destroy s = Some (s\<lparr>fault := Some Signal_After_Free\<rparr>)"
    using ok(4) assms(2,3) by (simp add: perform_def fail_def main_ok_def)
  ultimately show ?thesis using a w by blast
qed

theorem pool_destroyed_witness:
  "\<exists>s. reachable 1 1 s \<and> main_at s = D_Return 0 \<and> nodes s = (\<lambda>_. None)
    \<and> perform (Run_Worker 0) s = None \<and> perform Pool_Destroy s = Some (s\<lparr>fault := Some Signal_After_Free\<rparr>)"
proof -
  have "reaches 1 1 (demo_destroy @ replicate 7 (Run_Main True))
      (\<lambda>s. fault s = None \<and> main_at s = D_Return 0)"
    by code_simp
  then obtain s where s: "reachable 1 1 s" "fault s = None" "main_at s = D_Return 0"
    by (rule reachesE) auto
  from pool_destroyed[OF s] s show ?thesis by blast
qed

text \<open>
  Once every thread has exited, each step of the main thread brings \<^verbatim>\<open>threadpool_destroy\<close>
  nearer to its return: the rank counts the joins and the nodes that are left.
\<close>

definition all_exited :: "pool_system \<Rightarrow> bool" where
  "all_exited s \<longleftrightarrow> (\<forall>j. int j < add_thread_num_F s \<longrightarrow> adders s j = A_Exited)
     \<and> (\<forall>i. int i < do_thread_num_F s \<longrightarrow> workers s i = W_Exited)"

fun destroy_rank :: "pool_system \<Rightarrow> address list \<Rightarrow> main_pc \<Rightarrow> nat" where
  "destroy_rank s xs (D_Join_Add k) = 9 + length xs + nat (do_thread_num_F s) + (nat (add_thread_num_F s) - k)"
| "destroy_rank s xs D_Free_Add = 8 + length xs + nat (do_thread_num_F s)"
| "destroy_rank s xs (D_Join_Do k) = 7 + length xs + (nat (do_thread_num_F s) - k)"
| "destroy_rank s xs D_Free_Do = 5 + length xs"
| "destroy_rank s xs D_Drain = 4 + length xs"
| "destroy_rank s xs D_Sync = 2"
| "destroy_rank s xs D_Free_Pool = 1"
| "destroy_rank s xs _ = 0"

fun tearing_down :: "main_pc \<Rightarrow> bool" where
  "tearing_down (D_Join_Add k) = True"
| "tearing_down D_Free_Add = True"
| "tearing_down (D_Join_Do k) = True"
| "tearing_down D_Free_Do = True"
| "tearing_down D_Drain = True"
| "tearing_down D_Sync = True"
| "tearing_down D_Free_Pool = True"
| "tearing_down (D_Return r) = (r = 0)"
| "tearing_down _ = False"

lemma destroy_step:
  assumes "all_exited s" and "tearing_down (main_at s)" and "main_at s \<noteq> D_Return 0"
    and "fault s = None" and "pool_alive s" and "chain (nodes s) (queue_head_F s) xs" and "distinct xs"
  shows "\<exists>t ys. perform (Run_Main True) s = Some t \<and> all_exited t \<and> tearing_down (main_at t)
    \<and> fault t = None \<and> (main_at t \<noteq> D_Return 0 \<longrightarrow> pool_alive t)
    \<and> chain (nodes t) (queue_head_F t) ys \<and> distinct ys
    \<and> destroy_rank t ys (main_at t) < destroy_rank s xs (main_at s)"
proof (cases "main_at s")
  case D_Drain
  show ?thesis
  proof (cases xs)
    case Nil
    with D_Drain assms show ?thesis
      by (intro exI[of _ "main_to D_Sync s"] exI[of _ "[]"])
        (auto simp: perform_def main_step_def on_pool_def all_exited_def)
  next
    case (Cons a ys)
    then obtain n where n: "queue_head_F s = Some a" "nodes s a = Some n"
      using assms(6) by (auto split: option.splits)
    with Cons D_Drain assms show ?thesis
      by (intro exI[of _ "s\<lparr>queue_head_F := next_F n, nodes := (nodes s)(a := None)\<rparr>"] exI[of _ ys])
        (auto simp: perform_def main_step_def on_pool_def all_exited_def)
  qed
next
  case (D_Join_Add k)
  let ?p = "if int k < add_thread_num_F s then D_Join_Add (Suc k) else D_Free_Add"
  show ?thesis using D_Join_Add assms
    by (intro exI[of _ "main_to ?p s"] exI[of _ xs])
      (auto simp: perform_def main_step_def on_pool_def all_exited_def exited_adder_def)
next
  case (D_Join_Do k)
  let ?p = "if int k < do_thread_num_F s then D_Join_Do (Suc k) else D_Free_Do"
  show ?thesis using D_Join_Do assms
    by (intro exI[of _ "main_to ?p s"] exI[of _ xs])
      (auto simp: perform_def main_step_def on_pool_def all_exited_def exited_worker_def)
qed (use assms in \<open>auto simp: perform_def main_step_def on_pool_def all_exited_def intro!: exI[of _ xs]\<close>)

lemma destroy_runs:
  assumes "all_exited s" and "tearing_down (main_at s)"
    and "fault s = None" and "main_at s \<noteq> D_Return 0 \<longrightarrow> pool_alive s"
    and "chain (nodes s) (queue_head_F s) xs" and "distinct xs"
  shows "\<exists>n t. run (replicate n (Run_Main True)) s = Some t \<and> main_at t = D_Return 0 \<and> fault t = None"
  using assms
proof (induction "destroy_rank s xs (main_at s)" arbitrary: s xs rule: less_induct)
  case less
  show ?case
  proof (cases "main_at s = D_Return 0")
    case True
    with less.prems show ?thesis by (intro exI[of _ 0]) simp
  next
    case False
    with less.prems obtain t ys where t: "perform (Run_Main True) s = Some t" "all_exited t"
        "tearing_down (main_at t)" "fault t = None" "main_at t \<noteq> D_Return 0 \<longrightarrow> pool_alive t"
        "chain (nodes t) (queue_head_F t) ys" "distinct ys"
        "destroy_rank t ys (main_at t) < destroy_rank s xs (main_at s)"
      using destroy_step[of s xs] by blast
    from less.hyps[OF t(8,2-7)] obtain n u
      where "run (replicate n (Run_Main True)) t = Some u" "main_at u = D_Return 0" "fault u = None"
      by blast
    with t(1) show ?thesis by (intro exI[of _ "Suc n"]) auto
  qed
qed

text \<open>
  (C15) \<^verbatim>\<open>threadpool_destroy\<close> returns: once it waits for its threads and all of them have
  exited, the main thread alone reaches \<^verbatim>\<open>return 0\<close> after finitely many steps, without a fault.
\<close>

theorem destroy_returns:
  assumes "reachable addn don s" and "fault s = None" and "tearing_down (main_at s)"
    and "all_exited s"
  shows "\<exists>n t. run (replicate n (Run_Main True)) s = Some t \<and> main_at t = D_Return 0 \<and> fault t = None"
proof -
  have ok: "main_ok s" "queue_ok s" using reachable_pool_ok[OF assms(1,2)] by (simp_all add: pool_ok_def)
  from ok(2) obtain xs where "chain (nodes s) (queue_head_F s) xs" "owned (nodes s) (held s) xs"
    by (rule queue_okE)
  then show ?thesis
    using ok(1) by (intro destroy_runs[OF assms(4,3,2)]) (auto simp: main_ok_def owned_def)
qed

theorem destroy_returns_witness:
  "\<exists>s n t. reachable 1 1 s \<and> main_at s = D_Join_Do 0
    \<and> run (replicate n (Run_Main True)) s = Some t \<and> main_at t = D_Return 0"
proof -
  have "reaches 1 1 demo_destroy (\<lambda>s. fault s = None \<and> main_at s = D_Join_Do 0
      \<and> adders s 0 = A_Exited \<and> workers s 0 = W_Exited \<and> add_thread_num_F s = 1 \<and> do_thread_num_F s = 1)"
    by code_simp
  then obtain s where s: "reachable 1 1 s" "fault s = None" "main_at s = D_Join_Do 0"
      "adders s 0 = A_Exited" "workers s 0 = W_Exited" "add_thread_num_F s = 1" "do_thread_num_F s = 1"
    by (rule reachesE) auto
  have "tearing_down (main_at s)" "all_exited s" using s by (simp_all add: all_exited_def)
  from destroy_returns[OF s(1,2) this] s show ?thesis by blast
qed

section \<open>The shutdown that is slept through\<close>

text \<open> \<^verbatim>\<open>threadpool_destroy\<close> sets \<^verbatim>\<open>shutdown_F\<close> and broadcasts without taking the mutex. A
  worker that has tested \<^verbatim>\<open>shutdown_F\<close> just before and calls \<^verbatim>\<open>pthread_cond_wait\<close> just after
  misses the broadcast. With the producers gone, the process is then stuck: the worker waits
  for a broadcast that nobody sends, the main thread waits for the worker, and only a spurious
  wake-up could continue.
\<close>

theorem shutdown_deadlock:
  "\<exists>s. reachable 1 1 s \<and> fault s = None \<and> shutdown_F s = 1 \<and> main_at s = D_Join_Do 0
    \<and> workers s 0 = W_Waiting \<and> {act. perform act s \<noteq> None} = {Spurious_Wakeup 0}"
proof -
  let ?acts = "demo_create @ [Return_AddWork 0, Run_Worker 0, Run_Worker 0, Pool_Destroy]
    @ replicate 3 (Run_Main True) @ [Run_Worker 0] @ replicate 3 (Run_Main True)"
  have "reaches 1 1 ?acts (\<lambda>s. fault s = None \<and> shutdown_F s = 1 \<and> main_at s = D_Join_Do 0
      \<and> adders s 0 = A_Exited \<and> workers s 0 = W_Waiting \<and> add_thread_num_F s = 1
      \<and> do_thread_num_F s = 1)"
    by code_simp
  then obtain s where s: "reachable 1 1 s" "fault s = None" "shutdown_F s = 1"
      "main_at s = D_Join_Do 0" "adders s 0 = A_Exited" "workers s 0 = W_Waiting"
      "add_thread_num_F s = 1" "do_thread_num_F s = 1"
    by (rule reachesE) auto
  have ok: "adders_ok s" "workers_ok s" using reachable_pool_ok[OF s(1,2)] by (simp_all add: pool_ok_def)
  have a: "adders s j \<in> {A_None, A_Exited}" for j
    using ok(1) s by (cases "j = 0") (auto simp: adders_ok_def)
  have w: "i \<noteq> 0 \<Longrightarrow> workers s i = W_None" for i using ok(2) s by (auto simp: workers_ok_def)
  have alive: "pool_alive s" using s(4) reachable_pool_ok[OF s(1,2)] by (simp add: pool_ok_def main_ok_def)
  have "perform act s \<noteq> None \<longleftrightarrow> act = Spurious_Wakeup 0" for act
  proof (cases act)
    case (Run_Worker i)
    then show ?thesis
      using s w[of i] by (cases "i = 0") (simp_all add: perform_def worker_step_def)
  next
    case (Spurious_Wakeup i)
    then show ?thesis using s w[of i] by (cases "i = 0") (simp_all add: perform_def)
  next
    case (Run_Main ok)
    then show ?thesis
      using s alive by (simp add: perform_def main_step_def on_pool_def exited_worker_def)
  qed (use s idle_adder[OF a] in \<open>simp_all add: perform_def[of Pool_Destroy]\<close>)
  with s show ?thesis by (intro exI[of _ s]) auto
qed

end
