(* ===== verification/Dowork_Pool.thy ===== *)
theory Dowork_Pool
  imports Thread_Pool_Queue
begin

text \<open>
  The earlier thread pool of \<^verbatim>\<open>Frame_CodeTest/dowork\<close>. Its workers (\<^verbatim>\<open>dowork.c\<close>) take tasks as
  those of \<^verbatim>\<open>DoWork_Frame.c\<close> do; its producer (\<^verbatim>\<open>addwork.c\<close>) links a new node by a loop whose
  assignment to the last \<^verbatim>\<open>next\<close> pointer stands inside the loop body.
\<close>

text \<open>
  The loop \<^verbatim>\<open>while (NULL != member->next) { member = member->next; member->next = newworker; }\<close>.
  The result is the memory after the loop; \<open>None\<close> is a loop that never ends, \<open>Some None\<close> one
  that reads a node that is not allocated.
\<close>

partial_function (option) link_loop ::
  "(address \<Rightarrow> list_task option) \<Rightarrow> address \<Rightarrow> address \<Rightarrow> (address \<Rightarrow> list_task option) option option"
where
  "link_loop h newworker member = (case h member of None \<Rightarrow> Some None
     | Some n \<Rightarrow> (case next_F n of None \<Rightarrow> Some (Some h)
        | Some b \<Rightarrow> (case h b of None \<Rightarrow> Some None
            | Some k \<Rightarrow> link_loop (h(b \<mapsto> k\<lparr>next_F := Some newworker\<rparr>)) newworker b)))"

declare link_loop.simps [code]

definition add_worker :: "nat \<Rightarrow> address \<Rightarrow> pool_system \<Rightarrow> pool_system option" where
  "add_worker t newworker s =
    (let s' = s\<lparr>nodes := (nodes s)(newworker \<mapsto> \<lparr>pList_Task = t, next_F = None\<rparr>)\<rparr> in
     case queue_head_F s' of
       None \<Rightarrow> count_up (s'\<lparr>queue_head_F := Some newworker\<rparr>)
     | Some member \<Rightarrow> (case link_loop (nodes s') newworker member of
          None \<Rightarrow> None
        | Some None \<Rightarrow> fail Use_After_Free s'
        | Some (Some h) \<Rightarrow> count_up (s'\<lparr>nodes := h\<rparr>)))"

definition get_worker :: "nat \<Rightarrow> pool_system \<Rightarrow> pool_system option" where
  "get_worker i s = take_task i s"

text \<open> The earlier pool loses tasks: a task added while one task waits in the list is counted but
  never linked, so the list still holds the first node alone; the first worker then takes the
  first task and the second one, which the counter sends to the list, reads a null pointer.
\<close>

theorem second_task_lost:
  assumes "chain (nodes s) (queue_head_F s) [a]" and "cur_queue_size_F s = 1"
    and "nodes s b = None" and "fault s = None"
  shows "\<exists>s1 s2 s3. add_worker t b s = Some s1
    \<and> cur_queue_size_F s1 = 2 \<and> chain (nodes s1) (queue_head_F s1) [a]
    \<and> get_worker i s1 = Some s2 \<and> cur_queue_size_F s2 = 1 \<and> fault s2 = None
    \<and> get_worker k s2 = Some s3 \<and> fault s3 = Some Null_Pointer"
proof -
  from assms(1) obtain n where n: "queue_head_F s = Some a" "nodes s a = Some n" "next_F n = None"
    by (auto split: option.splits)
  then have "a \<noteq> b" using assms(3) by auto
  let ?h = "(nodes s)(b \<mapsto> \<lparr>pList_Task = t, next_F = None\<rparr>)"
  have "link_loop ?h b a = Some (Some ?h)"
    using n \<open>a \<noteq> b\<close> by (subst link_loop.simps) simp
  then show ?thesis
    using assms n \<open>a \<noteq> b\<close>
    by (simp add: add_worker_def get_worker_def take_task_def count_up_def fail_def worker_to_def)
qed

theorem second_task_lost_witness:
  "\<exists>s1 s2 s3. add_worker 8 200 ((initial_pool 1 2)\<lparr>queue_head_F := Some 100, cur_queue_size_F := 1,
      nodes := [100 \<mapsto> \<lparr>pList_Task = 7, next_F = None\<rparr>]\<rparr>) = Some s1
    \<and> cur_queue_size_F s1 = 2 \<and> get_worker 0 s1 = Some s2 \<and> get_worker 1 s2 = Some s3
    \<and> fault s3 = Some Null_Pointer"
  using second_task_lost[of "(initial_pool 1 2)\<lparr>queue_head_F := Some 100, cur_queue_size_F := 1,
      nodes := [100 \<mapsto> \<lparr>pList_Task = 7, next_F = None\<rparr>]\<rparr>" 100 200 8 0 1]
  by (simp add: initial_pool_def) blast

end
