(* ===== verification/Des_Cipher.thy ===== *)
theory Des_Cipher
  imports Main "HOL-Library.Word"
begin

unbundle bit_operations_syntax

text \<open>
  The block cipher of \<^verbatim>\<open>Excellent_Code/Lib_bas/bas_encString.c\<close>. A \<^verbatim>\<open>char\<close> is a word of 8 bits;
  the arrays of bits of the source hold one bit in each \<^verbatim>\<open>char\<close>, and so do the lists of the
  model. The tables are those of the source.
\<close>

type_synonym octet = "8 word"

section \<open>Tables\<close>

definition IP :: "nat list" where
  "IP =
    [57,49,41,33,25,17,9,1, 59,51,43,35,27,19,11,3, 61,53,45,37,29,21,13,5, 63,55,47,39,31,23,15,7,
     56,48,40,32,24,16,8,0, 58,50,42,34,26,18,10,2, 60,52,44,36,28,20,12,4, 62,54,46,38,30,22,14,6]"

definition IP_1 :: "nat list" where
  "IP_1 =
    [39,7,47,15,55,23,63,31, 38,6,46,14,54,22,62,30, 37,5,45,13,53,21,61,29, 36,4,44,12,52,20,60,28,
     35,3,43,11,51,19,59,27, 34,2,42,10,50,18,58,26, 33,1,41,9,49,17,57,25, 32,0,40,8,48,16,56,24]"

definition E_table :: "nat list" where
  "E_table =
    [31,0,1,2,3,4, 3,4,5,6,7,8, 7,8,9,10,11,12, 11,12,13,14,15,16,
     15,16,17,18,19,20, 19,20,21,22,23,24, 23,24,25,26,27,28, 27,28,29,30,31,0]"

definition P_table :: "nat list" where
  "P_table =
    [15,6,19,20,28,11,27,16, 0,14,22,25,4,17,30,9, 1,7,23,13,31,26,2,8, 18,12,29,5,21,10,3,24]"

definition S_boxes :: "nat list list list" where
  "S_boxes =
   [[[14,4,13,1,2,15,11,8,3,10,6,12,5,9,0,7], [0,15,7,4,14,2,13,1,10,6,12,11,9,5,3,8],
     [4,1,14,8,13,6,2,11,15,12,9,7,3,10,5,0], [15,12,8,2,4,9,1,7,5,11,3,14,10,0,6,13]],
    [[15,1,8,14,6,11,3,4,9,7,2,13,12,0,5,10], [3,13,4,7,15,2,8,14,12,0,1,10,6,9,11,5],
     [0,14,7,11,10,4,13,1,5,8,12,6,9,3,2,15], [13,8,10,1,3,15,4,2,11,6,7,12,0,5,14,9]],
    [[10,0,9,14,6,3,15,5,1,13,12,7,11,4,2,8], [13,7,0,9,3,4,6,10,2,8,5,14,12,11,15,1],
     [13,6,4,9,8,15,3,0,11,1,2,12,5,10,14,7], [1,10,13,0,6,9,8,7,4,15,14,3,11,5,2,12]],
    [[7,13,14,3,0,6,9,10,1,2,8,5,11,12,4,15], [13,8,11,5,6,15,0,3,4,7,2,12,1,10,14,9],
     [10,6,9,0,12,11,7,13,15,1,3,14,5,2,8,4], [3,15,0,6,10,1,13,8,9,4,5,11,12,7,2,14]],
    [[2,12,4,1,7,10,11,6,8,5,3,15,13,0,14,9], [14,11,2,12,4,7,13,1,5,0,15,10,3,9,8,6],
     [4,2,1,11,10,13,7,8,15,9,12,5,6,3,0,14], [11,8,12,7,1,14,2,13,6,15,0,9,10,4,5,3]],
    [[12,1,10,15,9,2,6,8,0,13,3,4,14,7,5,11], [10,15,4,2,7,12,9,5,6,1,13,14,0,11,3,8],
     [9,14,15,5,2,8,12,3,7,0,4,10,1,13,11,6], [4,3,2,12,9,5,15,10,11,14,1,7,6,0,8,13]],
    [[4,11,2,14,15,0,8,13,3,12,9,7,5,10,6,1], [13,0,11,7,4,9,1,10,14,3,5,12,2,15,8,6],
     [1,4,11,13,12,3,7,14,10,15,6,8,0,5,9,2], [6,11,13,8,1,4,10,7,9,5,0,15,14,2,3,12]],
    [[13,2,8,4,6,15,11,1,10,9,3,14,5,0,12,7], [1,15,13,8,10,3,7,4,12,5,6,11,0,14,9,2],
     [7,11,4,1,9,12,14,2,0,6,10,13,15,3,5,8], [2,1,14,7,4,10,8,13,15,12,9,0,3,5,6,11]]]"

definition PC_1 :: "nat list" where
  "PC_1 =
    [56,48,40,32,24,16,8, 0,57,49,41,33,25,17, 9,1,58,50,42,34,26, 18,10,2,59,51,43,35,
     62,54,46,38,30,22,14, 6,61,53,45,37,29,21, 13,5,60,52,44,36,28, 20,12,4,27,19,11,3]"

definition PC_2 :: "nat list" where
  "PC_2 =
    [13,16,10,23,0,4,2,27, 14,5,20,9,22,18,11,3, 25,7,15,6,26,19,12,1,
     40,51,30,36,46,54,29,39, 50,44,32,46,43,48,38,55, 33,52,45,41,49,35,28,31]"

definition LS :: "nat list" where
  "LS = [1,1,2,2,2,2,2,2,1,2,2,2,2,2,2,1]"

section \<open>Bytes and bits\<close>

definition ByteToBit :: "octet \<Rightarrow> octet list" where
  "ByteToBit ch = map (\<lambda>k. signed_drop_bit (7 - k) ch AND 1) [0..<8]"

definition BitToByte :: "octet list \<Rightarrow> octet \<Rightarrow> octet" where
  "BitToByte bs ch = fold (\<lambda>i ch. ch OR push_bit i (bs ! (7 - i))) [0..<8] ch"

definition Ch8ToBit64 :: "octet list \<Rightarrow> octet list" where
  "Ch8ToBit64 ch = concat (map (\<lambda>i. ByteToBit (ch ! i)) [0..<8])"

definition Bit64ToCh8 :: "octet list \<Rightarrow> octet list" where
  "Bit64ToCh8 bs = map (\<lambda>i. BitToByte (drop (8 * i) bs) 0) [0..<8]"

section \<open>Key schedule\<close>

text \<open>\<^verbatim>\<open>memcpy(data + off, src, length of src)\<close>; the overlapping copies of \<^verbatim>\<open>DES_ROL\<close> are taken as \<^verbatim>\<open>memmove\<close>.\<close>

definition copy_to :: "octet list \<Rightarrow> nat \<Rightarrow> octet list \<Rightarrow> octet list" where
  "copy_to data off src = take off data @ src @ drop (off + length src) data"

definition DES_PC1 :: "octet list \<Rightarrow> octet list" where
  "DES_PC1 key = map (\<lambda>i. key ! i) PC_1"

definition DES_PC2 :: "octet list \<Rightarrow> octet list" where
  "DES_PC2 key = map (\<lambda>i. key ! i) PC_2"

definition DES_ROL :: "octet list \<Rightarrow> nat \<Rightarrow> octet list" where
  "DES_ROL data count =
    (let temp = take count data @ take count (drop 28 data);
         data = copy_to data 0 (take (28 - count) (drop count data));
         data = copy_to data (28 - count) (take count temp);
         data = copy_to data 28 (take (28 - count) (drop (28 + count) data))
     in copy_to data (56 - count) (take count (drop count temp)))"

primrec subkey_loop :: "nat list \<Rightarrow> octet list \<Rightarrow> octet list list" where
  "subkey_loop [] temp = []"
| "subkey_loop (c # cs) temp = (let temp = DES_ROL temp c in DES_PC2 temp # subkey_loop cs temp)"

definition DES_SubKey :: "octet list \<Rightarrow> octet list list" where
  "DES_SubKey key = subkey_loop LS (DES_PC1 key)"

section \<open>Blocks\<close>

definition DES_IP :: "octet list \<Rightarrow> octet list" where
  "DES_IP data = map (\<lambda>i. data ! i) IP"

definition DES_IP_1 :: "octet list \<Rightarrow> octet list" where
  "DES_IP_1 data = map (\<lambda>i. data ! i) IP_1"

definition DES_E :: "octet list \<Rightarrow> octet list" where
  "DES_E data = map (\<lambda>i. data ! i) E_table"

definition DES_P :: "octet list \<Rightarrow> octet list" where
  "DES_P data = map (\<lambda>i. data ! i) P_table @ drop 32 data"

definition DES_XOR :: "octet list \<Rightarrow> octet list \<Rightarrow> nat \<Rightarrow> octet list" where
  "DES_XOR r l count = map2 (XOR) (take count r) (take count l) @ drop count r"

definition sbox_row :: "nat \<Rightarrow> octet list \<Rightarrow> nat" where
  "sbox_row j data = push_bit 1 (unat (data ! j)) + unat (data ! (j + 5))"

definition sbox_column :: "nat \<Rightarrow> octet list \<Rightarrow> nat" where
  "sbox_column j data = push_bit 3 (unat (data ! (j + 1))) + push_bit 2 (unat (data ! (j + 2)))
     + push_bit 1 (unat (data ! (j + 3))) + unat (data ! (j + 4))"

definition sbox_group :: "nat \<Rightarrow> octet list \<Rightarrow> octet list" where
  "sbox_group i data =
    (let j = i * 6; k = push_bit 2 i;
         out = S_boxes ! i ! sbox_row j data ! sbox_column j data
     in data[k := of_nat (drop_bit 3 (out AND 8)), k + 1 := of_nat (drop_bit 2 (out AND 4)),
             k + 2 := of_nat (drop_bit 1 (out AND 2)), k + 3 := of_nat (out AND 1)])"

definition DES_SBOX :: "octet list \<Rightarrow> octet list" where
  "DES_SBOX data = fold sbox_group [0..<8] data"

definition DES_Switch :: "octet list \<Rightarrow> octet list" where
  "DES_Switch bs = take 32 (drop 32 bs) @ take 32 bs @ drop 64 bs"

text \<open>
  One round, on the 64 bits of the block and the array \<^verbatim>\<open>copyRight\<close> of 48 bytes, of which
  \<^verbatim>\<open>memcpy\<close> fills the first 32.
\<close>

definition DES_round :: "octet list \<Rightarrow> octet list \<times> octet list \<Rightarrow> octet list \<times> octet list" where
  "DES_round key = (\<lambda>(bs, copyRight).
    let copyRight = take 32 (drop 32 bs) @ drop 32 copyRight;
        copyRight = DES_E copyRight;
        copyRight = DES_XOR copyRight key 48;
        copyRight = DES_SBOX copyRight;
        copyRight = DES_P copyRight;
        bs = DES_XOR bs copyRight 32
    in (DES_Switch bs, copyRight))"

text \<open>\<open>junk\<close> is what \<^verbatim>\<open>copyRight\<close> holds before the first round.\<close>

definition DES_EncryptBlock :: "octet list \<Rightarrow> octet list \<Rightarrow> octet list list \<Rightarrow> octet list" where
  "DES_EncryptBlock junk plainBlock subKey =
    (let bs = DES_IP (Ch8ToBit64 plainBlock);
         (bs, copyRight) = fold (\<lambda>i s. let (bs, c) = DES_round (subKey ! i) s
            in (if i = 15 then DES_Switch bs else bs, c)) [0..<16] (bs, junk)
     in Bit64ToCh8 (DES_IP_1 bs))"

definition DES_DecryptBlock :: "octet list \<Rightarrow> octet list \<Rightarrow> octet list list \<Rightarrow> octet list" where
  "DES_DecryptBlock junk cipherBlock subKey =
    (let bs = DES_IP (Ch8ToBit64 cipherBlock);
         (bs, copyRight) = fold (\<lambda>i s. let (bs, c) = DES_round (subKey ! i) s
            in (if i = 0 then DES_Switch bs else bs, c)) (rev [0..<16]) (bs, junk)
     in Bit64ToCh8 (DES_IP_1 bs))"

end
