(* ===== verification/Des_Correct.thy ===== *)
theory Des_Correct
  imports Des_Cipher
begin

unbundle bit_operations_syntax

text \<open>Decryption inverts encryption: bytes and bits, the permutations, the rounds.\<close>

section \<open>Bytes and bits\<close>

definition bits :: "octet list \<Rightarrow> bool" where
  "bits bs \<longleftrightarrow> set bs \<subseteq> {0, 1}"

lemma less_8_cases: "(k::nat) < 8 \<longleftrightarrow> k \<in> {0, 1, 2, 3, 4, 5, 6, 7}"
  by auto

lemma ByteToBit_nth: "k < 8 \<Longrightarrow> ByteToBit ch ! k = of_bool (bit ch (7 - k))"
  unfolding ByteToBit_def
  by (auto intro!: bit_word_eqI simp: bit_simps less_8_cases) 

lemma length_ByteToBit [simp]: "length (ByteToBit ch) = 8"
  by (simp add: ByteToBit_def)

lemma bits_ByteToBit: "set (ByteToBit ch) \<subseteq> {0, 1}"
  using ByteToBit_nth[of _ ch] by (auto simp: in_set_conv_nth)

lemma bit_fold_or:
  "bit (fold (\<lambda>i ch. ch OR push_bit i (f i)) [0..<n] c) k \<longleftrightarrow> bit c k \<or> (\<exists>i<n. bit (push_bit i (f i)) k)"
  for c :: octet
  by (induction n) (auto simp: bit_or_iff less_Suc_eq)

lemma bits_nth: "bits bs \<Longrightarrow> i < length bs \<Longrightarrow> bs ! i = 0 \<or> bs ! i = 1"
  unfolding bits_def using nth_mem[of i bs] by blast

lemma bit_one_nth: "bits bs \<Longrightarrow> i < length bs \<Longrightarrow> of_bool (bs ! i = 1) = bs ! i"
  using bits_nth[of bs i] by auto

lemma BitToByte_bit:
  assumes "bits bs" and "8 \<le> length bs" and "k < 8"
  shows "bit (BitToByte bs 0) k \<longleftrightarrow> bs ! (7 - k) = 1"
proof -
  have "bit (push_bit i (bs ! (7 - i))) k \<longleftrightarrow> i = k \<and> bs ! (7 - k) = 1" if "i < 8" for i
  proof -
    have "7 - i < length bs" using assms(2) by linarith
    then have "bs ! (7 - i) = 0 \<or> bs ! (7 - i) = 1" by (rule bits_nth[OF assms(1)])
    then show ?thesis using assms(3) by (auto simp: bit_simps)
  qed
  then show ?thesis using assms(3) unfolding BitToByte_def bit_fold_or by auto
qed

lemma ByteToBit_back:
  assumes "bits r"
  shows "BitToByte (ByteToBit ch @ r) 0 = ch"
proof (rule bit_word_eqI)
  fix k assume k: "k < LENGTH(8)"
  have "bits (ByteToBit ch @ r)" using assms bits_ByteToBit[of ch] by (auto simp: bits_def)
  moreover have "7 - k < 8" by simp
  ultimately show "bit (BitToByte (ByteToBit ch @ r) 0) k = bit ch k"
    using k by (simp add: BitToByte_bit nth_append ByteToBit_nth del: diff_less_mono2)
qed

lemma BitToByte_back:
  assumes "bits bs" and "8 \<le> length bs"
  shows "ByteToBit (BitToByte bs 0) = take 8 bs"
proof (rule nth_equalityI)
  fix k assume "k < length (ByteToBit (BitToByte bs 0))"
  then have k: "k < 8" by simp
  then have "bit (BitToByte bs 0) (7 - k) \<longleftrightarrow> bs ! k = 1"
    using BitToByte_bit[OF assms, of "7 - k"] by simp
  then show "ByteToBit (BitToByte bs 0) ! k = take 8 bs ! k"
    using k assms bit_one_nth[of bs k] by (simp add: ByteToBit_nth)
qed (use assms in simp)

lemma upt_8: "[0..<8] = [0, 1, 2, 3, 4, 5, 6, 7::nat]"
  by (simp add: upt_rec)

lemma length_8: "length ch = 8 \<Longrightarrow> \<exists>a b c d e f g h. ch = [a, b, c, d, e, f, g, h]"
  by (auto simp: numeral_eq_Suc length_Suc_conv)

lemma length_Ch8ToBit64 [simp]: "length (Ch8ToBit64 ch) = 64"
  by (simp add: Ch8ToBit64_def upt_8)

lemma bits_Ch8ToBit64: "bits (Ch8ToBit64 ch)"
  using bits_ByteToBit by (auto simp: bits_def Ch8ToBit64_def)

lemma length_Bit64ToCh8 [simp]: "length (Bit64ToCh8 bs) = 8"
  by (simp add: Bit64ToCh8_def)

lemma drop_blocks:
  assumes "i \<le> n" and "\<And>k. length (f k) = 8"
  shows "drop (8 * i) (concat (map f [0..<n])) = concat (map f [i..<n])"
proof -
  have "length (concat (map f [0..<i])) = 8 * i" by (induction i) (simp_all add: assms(2))
  moreover have "[0..<n] = [0..<i] @ [i..<n]" using assms(1) by (metis le0 le_add_diff_inverse upt_add_eq_append)
  ultimately show ?thesis by simp
qed

lemma Ch8_back:
  assumes "length ch = 8"
  shows "Bit64ToCh8 (Ch8ToBit64 ch) = ch"
proof (rule nth_equalityI)
  fix i assume "i < length (Bit64ToCh8 (Ch8ToBit64 ch))"
  then have i: "i < 8" by simp
  have "drop (8 * i) (Ch8ToBit64 ch) = concat (map (\<lambda>i. ByteToBit (ch ! i)) [i..<8])"
    unfolding Ch8ToBit64_def using i by (intro drop_blocks) simp_all
  also have "\<dots> = ByteToBit (ch ! i) @ concat (map (\<lambda>i. ByteToBit (ch ! i)) [Suc i..<8])"
    using i by (simp add: upt_conv_Cons)
  finally have "drop (8 * i) (Ch8ToBit64 ch)
      = ByteToBit (ch ! i) @ concat (map (\<lambda>i. ByteToBit (ch ! i)) [Suc i..<8])" .
  moreover have "bits (concat (map (\<lambda>i. ByteToBit (ch ! i)) [Suc i..<8]))"
    using bits_ByteToBit by (auto simp: bits_def)
  ultimately show "Bit64ToCh8 (Ch8ToBit64 ch) ! i = ch ! i"
    using i by (simp add: Bit64ToCh8_def ByteToBit_back)
qed (use assms in simp)

lemma Bit64_back:
  assumes "bits bs" and "length bs = 64"
  shows "Ch8ToBit64 (Bit64ToCh8 bs) = bs"
proof -
  have sub: "bits (drop n bs)" for n using assms(1) by (auto simp: bits_def dest: in_set_dropD)
  have "i < 8 \<Longrightarrow> ByteToBit (Bit64ToCh8 bs ! i) = take 8 (drop (8 * i) bs)" for i
    using assms(2) by (simp add: Bit64ToCh8_def BitToByte_back[OF sub])
  then have "Ch8ToBit64 (Bit64ToCh8 bs) = concat (map (\<lambda>i. take 8 (drop (8 * i) bs)) [0..<8])"
    unfolding Ch8ToBit64_def by (intro arg_cong[of _ _ concat] map_cong) auto
  also have "concat (map (\<lambda>i. take 8 (drop (8 * i) bs)) [0..<n]) = take (8 * n) bs" for n
  proof (induction n)
    case (Suc n)
    have "8 * Suc n = 8 * n + 8" by simp
    with Suc show ?case by (simp only: take_add) simp
  qed simp
  then have "concat (map (\<lambda>i. take 8 (drop (8 * i) bs)) [0..<8]) = bs" using assms(2) by simp
  finally show ?thesis .
qed

section \<open>Permutations\<close>

lemma table_lengths [simp]:
  "length IP = 64" "length IP_1 = 64" "length E_table = 48" "length P_table = 32"
  "length PC_1 = 56" "length PC_2 = 48" "length LS = 16"
  by (simp_all add: IP_def IP_1_def E_table_def P_table_def PC_1_def PC_2_def LS_def)

lemma table_ranges:
  "set IP \<subseteq> {..<64}" "set IP_1 \<subseteq> {..<64}" "set E_table \<subseteq> {..<32}" "set P_table \<subseteq> {..<32}"
  "set PC_1 \<subseteq> {..<64}" "set PC_2 \<subseteq> {..<56}"
  by (simp_all add: IP_def IP_1_def E_table_def P_table_def PC_1_def PC_2_def)

lemma IP_inverse: "map (\<lambda>i. IP ! i) IP_1 = [0..<64]" "map (\<lambda>i. IP_1 ! i) IP = [0..<64]"
  by code_simp+

lemma permute_back:
  assumes "map (\<lambda>i. p ! i) q = [0..<n]" and "set q \<subseteq> {..<length p}" and "length data = n"
  shows "map (\<lambda>i. map (\<lambda>i. data ! i) p ! i) q = data"
proof -
  have "map (\<lambda>i. map (\<lambda>i. data ! i) p ! i) q = map (\<lambda>i. data ! (p ! i)) q"
    using assms(2) by (intro map_cong) auto
  also have "\<dots> = map (\<lambda>i. data ! i) (map (\<lambda>i. p ! i) q)" by simp
  also have "\<dots> = data" using assms(1,3) by (metis map_nth)
  finally show ?thesis .
qed

lemma DES_IP_back: "length bs = 64 \<Longrightarrow> DES_IP_1 (DES_IP bs) = bs" "length bs = 64 \<Longrightarrow> DES_IP (DES_IP_1 bs) = bs"
  unfolding DES_IP_def DES_IP_1_def
  by (rule permute_back[OF IP_inverse(1)], use table_ranges in auto)
    (rule permute_back[OF IP_inverse(2)], use table_ranges in auto)

lemma bits_permute: "bits data \<Longrightarrow> set p \<subseteq> {..<length data} \<Longrightarrow> bits (map (\<lambda>i. data ! i) p)"
  unfolding bits_def using nth_mem by (force simp: subset_iff)

section \<open>Rounds\<close>

definition scramble :: "octet list \<Rightarrow> octet list \<Rightarrow> octet list" where
  "scramble r key = take 32 (DES_P (DES_SBOX (DES_XOR (map (\<lambda>i. r ! i) E_table) key 48)))"

definition feistel :: "octet list \<Rightarrow> octet list \<Rightarrow> octet list" where
  "feistel key bs = drop 32 bs @ map2 (XOR) (take 32 bs) (scramble (drop 32 bs) key)"

lemma length_DES_XOR [simp]: "length l \<ge> count \<Longrightarrow> length (DES_XOR r l count) = length r"
  by (simp add: DES_XOR_def)

lemma length_sbox_group [simp]: "length (sbox_group i data) = length data"
  by (simp add: sbox_group_def Let_def)

lemma length_fold_sbox [simp]: "length (fold sbox_group is data) = length data"
  by (induction "is" arbitrary: data) simp_all

lemma length_DES_SBOX [simp]: "length (DES_SBOX data) = length data"
  by (simp add: DES_SBOX_def)

lemma length_DES_P [simp]: "32 \<le> length data \<Longrightarrow> length (DES_P data) = length data"
  by (simp add: DES_P_def)

lemma length_DES_E [simp]: "length (DES_E data) = 48"
  by (simp add: DES_E_def)

lemma length_scramble [simp]: "length key = 48 \<Longrightarrow> length (scramble r key) = 32"
  by (simp add: scramble_def)

lemma DES_E_right:
  assumes "length r = 32"
  shows "DES_E (r @ x) = map (\<lambda>i. r ! i) E_table"
  unfolding DES_E_def using table_ranges(3) assms by (intro map_cong) (auto simp: nth_append)

lemma DES_round_feistel:
  assumes "length bs = 64" and "length key = 48" and "length c = 48"
  obtains c' where "DES_round key (bs, c) = (feistel key bs, c')" and "length c' = 48"
proof -
  let ?c = "DES_P (DES_SBOX (DES_XOR (map (\<lambda>i. drop 32 bs ! i) E_table) key 48))"
  have e: "DES_E (take 32 (drop 32 bs) @ drop 32 c) = map (\<lambda>i. drop 32 bs ! i) E_table"
    using assms(1) by (subst DES_E_right) simp_all
  have l: "length ?c = 48" using assms(2) by simp
  have "DES_Switch (DES_XOR bs ?c 32) = feistel key bs"
    using assms(1,2) l by (simp add: DES_Switch_def DES_XOR_def feistel_def scramble_def)
  then have "DES_round key (bs, c) = (feistel key bs, ?c)"
    by (simp add: DES_round_def Let_def e)
  then show thesis using that l by blast
qed

lemma length_feistel [simp]: "length bs = 64 \<Longrightarrow> length key = 48 \<Longrightarrow> length (feistel key bs) = 64"
  by (simp add: feistel_def)

lemma length_DES_Switch [simp]: "length bs = 64 \<Longrightarrow> length (DES_Switch bs) = 64"
  by (simp add: DES_Switch_def)

lemma xor_twice:
  "length a = length b \<Longrightarrow> map2 (XOR) (map2 (XOR) a b) b = a" for a b :: "octet list"
  by (induction a b rule: list_induct2) (simp_all add: xor.assoc)

text \<open>A round undoes itself once the halves are swapped.\<close>

lemma feistel_back:
  assumes "length bs = 64" and "length key = 48"
  shows "feistel key (DES_Switch (feistel key bs)) = DES_Switch bs"
  using assms by (simp add: feistel_def DES_Switch_def xor_twice)

lemma switch_back: "length bs = 64 \<Longrightarrow> DES_Switch (DES_Switch bs) = bs"
  by (simp add: DES_Switch_def)

lemma length_fold_feistel [simp]:
  "length bs = 64 \<Longrightarrow> \<forall>k\<in>set ks. length k = 48 \<Longrightarrow> length (fold feistel ks bs) = 64"
  by (induction ks arbitrary: bs) simp_all

lemma rounds_back:
  "length bs = 64 \<Longrightarrow> \<forall>k\<in>set ks. length k = 48 \<Longrightarrow>
    fold feistel (rev ks) (DES_Switch (fold feistel ks bs)) = DES_Switch bs"
  by (induction ks arbitrary: bs) (simp_all add: feistel_back)

section \<open>Bits stay bits\<close>

lemma of_nat_mod_2: "(of_nat (n mod 2) :: octet) = 0 \<or> (of_nat (n mod 2) :: octet) = 1"
  by (cases "even n") (simp_all add: odd_iff_mod_2_eq_one)

lemma out_bits: "(of_nat (drop_bit m (out AND 2 ^ m)) :: octet) \<in> {0, 1}" for out :: nat
proof -
  have "drop_bit m (out AND 2 ^ m) = of_bool (bit out m)"
    by (rule bit_eqI) (auto simp: bit_simps)
  then show ?thesis by simp
qed

lemma sbox_group_nth:
  assumes "length data = 48" and "i < 8"
  shows "p < 4 * i \<Longrightarrow> sbox_group i data ! p = data ! p"
    and "4 * i \<le> p \<Longrightarrow> p < 4 * i + 4 \<Longrightarrow> sbox_group i data ! p \<in> {0, 1}"
proof -
  have k: "push_bit 2 i = 4 * i" by (simp add: push_bit_eq_mult)
  show "p < 4 * i \<Longrightarrow> sbox_group i data ! p = data ! p"
    by (simp add: sbox_group_def Let_def k)
  assume p: "4 * i \<le> p" "p < 4 * i + 4"
  then have "p = 4 * i \<or> p = 4 * i + 1 \<or> p = 4 * i + 2 \<or> p = 4 * i + 3" by linarith
  then show "sbox_group i data ! p \<in> {0, 1}"
    unfolding sbox_group_def Let_def k using assms
    using out_bits[of 3] out_bits[of 2] out_bits[of 1] out_bits[of 0] of_nat_mod_2
    by (auto simp: nth_list_update)
qed

lemma sbox_bits:
  assumes "length data = 48" and "n \<le> 8" and "p < 4 * n"
  shows "fold sbox_group [0..<n] data ! p \<in> {0, 1}"
  using assms(2,3)
proof (induction n)
  case (Suc n)
  let ?d = "fold sbox_group [0..<n] data"
  have "length ?d = 48" using assms(1) by simp
  from sbox_group_nth[OF this, of n p] Suc show ?case by (cases "p < 4 * n") simp_all
qed simp

lemma bits_scramble:
  assumes "length key = 48"
  shows "bits (scramble r key)"
proof -
  let ?d = "DES_SBOX (DES_XOR (map (\<lambda>i. r ! i) E_table) key 48)"
  have "?d ! p \<in> {0, 1}" if "p < 32" for p
    unfolding DES_SBOX_def using that assms by (intro sbox_bits) simp_all
  then have "bits (map (\<lambda>i. ?d ! i) P_table)" using table_ranges(4) by (auto simp: bits_def)
  moreover have "scramble r key = map (\<lambda>i. ?d ! i) P_table"
    by (simp add: scramble_def DES_P_def)
  ultimately show ?thesis by simp
qed

lemma bits_append [simp]: "bits (xs @ ys) \<longleftrightarrow> bits xs \<and> bits ys"
  by (auto simp: bits_def)

lemma bits_take_drop: "bits xs \<Longrightarrow> bits (take n xs)" "bits xs \<Longrightarrow> bits (drop n xs)"
  by (auto simp: bits_def dest: in_set_takeD in_set_dropD)

lemma bits_xor: "bits xs \<Longrightarrow> bits ys \<Longrightarrow> bits (map2 (XOR) xs ys)"
  by (force simp: bits_def subset_iff dest: set_zip_leftD set_zip_rightD)

lemma bits_feistel: "bits bs \<Longrightarrow> length key = 48 \<Longrightarrow> bits (feistel key bs)"
  by (simp add: feistel_def bits_take_drop bits_xor bits_scramble)

lemma bits_switch: "bits bs \<Longrightarrow> bits (DES_Switch bs)"
  by (simp add: DES_Switch_def bits_take_drop)

lemma bits_rounds: "bits bs \<Longrightarrow> \<forall>k\<in>set ks. length k = 48 \<Longrightarrow> bits (fold feistel ks bs)"
  by (induction ks arbitrary: bs) (simp_all add: bits_feistel)

section \<open>Blocks\<close>

definition keys_ok :: "octet list list \<Rightarrow> bool" where
  "keys_ok ks \<longleftrightarrow> length ks = 16 \<and> (\<forall>k\<in>set ks. length k = 48)"

lemma rounds_fold:
  assumes "length bs = 64" and "length c = 48" and "\<forall>i\<in>set is. length (ks ! i) = 48" and "last_i \<notin> set is"
  shows "\<exists>c'. fold (\<lambda>i s. let (bs, c) = DES_round (ks ! i) s in (if i = last_i then DES_Switch bs else bs, c)) is (bs, c)
    = (fold feistel (map (\<lambda>i. ks ! i) is) bs, c') \<and> length c' = 48"
  using assms
proof (induction "is" arbitrary: bs c)
  case (Cons i "is")
  obtain c' where c': "DES_round (ks ! i) (bs, c) = (feistel (ks ! i) bs, c')" "length c' = 48"
    using DES_round_feistel[of bs "ks ! i" c] Cons.prems by auto
  with Cons.IH[of "feistel (ks ! i) bs" c'] Cons.prems show ?case by auto
qed simp

lemma rounds_all:
  assumes "length bs = 64" and "length c = 48" and "\<forall>i\<in>set (is @ [l]). length (ks ! i) = 48" and "l \<notin> set is"
  shows "\<exists>c'. fold (\<lambda>i s. let (bs, c) = DES_round (ks ! i) s in (if i = l then DES_Switch bs else bs, c)) (is @ [l]) (bs, c)
    = (DES_Switch (fold feistel (map (\<lambda>i. ks ! i) (is @ [l])) bs), c')"
proof -
  obtain c1 where c1: "fold (\<lambda>i s. let (bs, c) = DES_round (ks ! i) s in (if i = l then DES_Switch bs else bs, c)) is (bs, c)
      = (fold feistel (map (\<lambda>i. ks ! i) is) bs, c1)" "length c1 = 48"
    using rounds_fold[of bs c "is" ks l] assms by auto
  moreover obtain c2 where "DES_round (ks ! l) (fold feistel (map (\<lambda>i. ks ! i) is) bs, c1)
      = (feistel (ks ! l) (fold feistel (map (\<lambda>i. ks ! i) is) bs), c2)"
    using DES_round_feistel[of "fold feistel (map (\<lambda>i. ks ! i) is) bs" "ks ! l" c1] assms c1(2) by auto
  ultimately show ?thesis by simp
qed

lemma encrypt_block:
  assumes "keys_ok ks" and "length junk = 48"
  shows "DES_EncryptBlock junk blk ks
    = Bit64ToCh8 (DES_IP_1 (DES_Switch (fold feistel ks (DES_IP (Ch8ToBit64 blk)))))"
proof -
  have u: "[0..<16] = [0..<15] @ [15::nat]" by (simp add: upt_rec)
  have "map (\<lambda>i. ks ! i) [0..<16] = ks" using assms(1) by (metis keys_ok_def map_nth)
  moreover have "length (ks ! i) = 48" if "i < 16" for i using assms(1) that by (simp add: keys_ok_def)
  ultimately show ?thesis
    using rounds_all[of "DES_IP (Ch8ToBit64 blk)" junk "[0..<15]" 15 ks] assms(2)
    unfolding DES_EncryptBlock_def u by (auto simp: DES_IP_def Let_def)
qed

lemma decrypt_block:
  assumes "keys_ok ks" and "length junk = 48"
  shows "DES_DecryptBlock junk blk ks
    = Bit64ToCh8 (DES_IP_1 (DES_Switch (fold feistel (rev ks) (DES_IP (Ch8ToBit64 blk)))))"
proof -
  have u: "rev [0..<16] = rev [1..<16] @ [0::nat]" by (simp add: upt_conv_Cons)
  have "map (\<lambda>i. ks ! i) (rev [0..<16]) = rev ks" using assms(1) by (metis keys_ok_def map_nth rev_map)
  moreover have "length (ks ! i) = 48" if "i < 16" for i using assms(1) that by (simp add: keys_ok_def)
  ultimately show ?thesis
    using rounds_all[of "DES_IP (Ch8ToBit64 blk)" junk "rev [1..<16]" 0 ks] assms(2)
    unfolding DES_DecryptBlock_def u by (auto simp: DES_IP_def Let_def)
qed

lemma blocks_back:
  assumes "\<forall>k\<in>set ks. length k = 48" and "length blk = 8"
  shows "Bit64ToCh8 (DES_IP_1 (DES_Switch (fold feistel (rev ks) (DES_IP (Ch8ToBit64
      (Bit64ToCh8 (DES_IP_1 (DES_Switch (fold feistel ks (DES_IP (Ch8ToBit64 blk))))))))))) = blk"
proof -
  let ?b = "DES_IP (Ch8ToBit64 blk)" and ?e = "DES_Switch (fold feistel ks (DES_IP (Ch8ToBit64 blk)))"
  have l: "length ?b = 64" by (simp add: DES_IP_def)
  have "bits ?b" unfolding DES_IP_def using bits_Ch8ToBit64 table_ranges(1) by (intro bits_permute) simp_all
  then have e: "bits ?e" "length ?e = 64" using assms(1) l by (simp_all add: bits_switch bits_rounds)
  have "bits (DES_IP_1 ?e)" unfolding DES_IP_1_def using e table_ranges(2) by (intro bits_permute) simp_all
  then have "Ch8ToBit64 (Bit64ToCh8 (DES_IP_1 ?e)) = DES_IP_1 ?e" by (intro Bit64_back) (simp_all add: DES_IP_1_def)
  then show ?thesis
    using e(2) l assms by (simp add: DES_IP_back rounds_back switch_back Ch8_back)
qed

lemma decrypt_encrypt:
  assumes "keys_ok ks" and "length junk = 48" and "length junk' = 48" and "length blk = 8"
  shows "DES_DecryptBlock junk' (DES_EncryptBlock junk blk ks) ks = blk"
  using assms blocks_back[of ks blk] by (simp add: encrypt_block decrypt_block keys_ok_def)

lemma encrypt_decrypt:
  assumes "keys_ok ks" and "length junk = 48" and "length junk' = 48" and "length blk = 8"
  shows "DES_EncryptBlock junk' (DES_DecryptBlock junk blk ks) ks = blk"
  using assms blocks_back[of "rev ks" blk] by (simp add: encrypt_block decrypt_block keys_ok_def)

lemma length_blocks [simp]:
  "length (DES_EncryptBlock junk blk ks) = 8" "length (DES_DecryptBlock junk blk ks) = 8"
  by (simp_all add: DES_EncryptBlock_def DES_DecryptBlock_def Let_def split: prod.splits)

section \<open>Key schedule\<close>

lemma length_subkey_loop: "length (subkey_loop cs temp) = length cs"
  by (induction cs arbitrary: temp) (simp_all add: Let_def)

lemma subkey_loop_48: "k \<in> set (subkey_loop cs temp) \<Longrightarrow> length k = 48"
  by (induction cs arbitrary: temp) (auto simp: Let_def DES_PC2_def)

lemma keys_ok_SubKey: "keys_ok (DES_SubKey key)"
  by (simp add: keys_ok_def DES_SubKey_def length_subkey_loop subkey_loop_48)

lemma rol_rotates:
  assumes "length l = 28" and "length r = 28" and "c \<le> 28"
  shows "DES_ROL (l @ r) c = rotate c l @ rotate c r"
proof -
  have "rotate c xs = drop c xs @ take c xs" if "length xs = 28" for xs :: "octet list"
    using assms(3) that by (cases "c = 28") (simp_all add: rotate_drop_take)
  then show ?thesis using assms by (simp add: DES_ROL_def copy_to_def Let_def)
qed

lemma subkey_loop_rotates:
  assumes "length l = 28" and "length r = 28" and "\<forall>c\<in>set cs. c \<le> 28" and "i < length cs"
  shows "subkey_loop cs (l @ r) ! i
    = DES_PC2 (rotate (sum_list (take (Suc i) cs)) l @ rotate (sum_list (take (Suc i) cs)) r)"
  using assms
proof (induction cs arbitrary: l r i)
  case (Cons c cs)
  show ?case
  proof (cases i)
    case 0
    with Cons.prems show ?thesis by (simp add: Let_def rol_rotates)
  next
    case (Suc n)
    with Cons.prems have "subkey_loop cs (rotate c l @ rotate c r) ! n
        = DES_PC2 (rotate (sum_list (take (Suc n) cs)) (rotate c l) @ rotate (sum_list (take (Suc n) cs)) (rotate c r))"
      by (intro Cons.IH) simp_all
    with Suc Cons.prems show ?thesis
      by (simp add: Let_def rol_rotates rotate_rotate add.commute)
  qed
qed simp

end
