(* ===== verification/Base64.thy ===== *)
theory Base64
  imports Des_Cipher C_Prelude
begin

unbundle bit_operations_syntax

text \<open>
  \<^verbatim>\<open>base64_encode\<close> and \<^verbatim>\<open>base64_decode\<close> of \<^verbatim>\<open>bas_encString.c\<close>. Data and results are lists of bytes;
  \<open>malloc_ok\<close> says whether \<^verbatim>\<open>malloc\<close> succeeds, and \<open>Stop\<close> is the \<^verbatim>\<open>exit(0)\<close> of the code if it
  does not. Reading outside the data and decoding a character that is not in the alphabet (a
  difference with \<^verbatim>\<open>NULL\<close>) are undefined, \<open>Undefined\<close>, as are sizes beyond \<^verbatim>\<open>int\<close>. So is \<^verbatim>\<open>memset(need, 0, 4)\<close> on the
  array \<^verbatim>\<open>need\<close>, which has three bytes: to say what the rest of the decoder does, the size of this array, which is not used
  otherwise, is an argument of \<open>decode_with\<close>, and \<open>base64_decode\<close> is the one with size 3.
\<close>

section \<open>Encoding\<close>

text \<open>The alphabet, \<^verbatim>\<open>A..Za..z0..9+/=\<close>\<close>

definition base :: "octet list" where
  "base = map of_nat ([65..<91] @ [97..<123] @ [48..<58] @ [43, 47, 61])"

datatype 'a outcome = Done 'a | Stop | Undefined

text \<open>The inner loop: up to \<open>k\<close> more bytes into \<^verbatim>\<open>prepare\<close>.\<close>

primrec enc_gather :: "nat \<Rightarrow> octet list \<Rightarrow> nat \<Rightarrow> nat \<Rightarrow> nat \<Rightarrow> 32 word \<Rightarrow> nat \<times> nat \<times> 32 word" where
  "enc_gather 0 data data_len tmp temp prepare = (tmp, temp, prepare)"
| "enc_gather (Suc k) data data_len tmp temp prepare =
    (if tmp \<ge> data_len then (tmp, temp, prepare)
     else enc_gather k data data_len (Suc tmp) (Suc temp)
       (push_bit 8 prepare OR (ucast (data ! tmp) AND 0xFF)))"

definition enc_chars :: "nat \<Rightarrow> 32 word \<Rightarrow> octet list" where
  "enc_chars temp prepare =
    (let prepare = push_bit ((3 - temp) * 8) prepare in
     map (\<lambda>i. base ! (if temp < i then 0x40 else unat (drop_bit ((3 - i) * 6) prepare AND 0x3F))) [0..<4])"

lemma enc_gather_tmp:
  "enc_gather k data n tmp temp p = (tmp', temp', p') \<Longrightarrow> tmp \<le> tmp' \<and> (0 < k \<and> tmp < n \<longrightarrow> tmp < tmp')"
  by (induction k arbitrary: tmp temp p) (fastforce split: if_splits)+

function encode_loop :: "octet list \<Rightarrow> nat \<Rightarrow> nat \<Rightarrow> octet list" where
  "encode_loop data data_len tmp =
    (if tmp < data_len
     then let (tmp', temp, prepare) = enc_gather 3 data data_len tmp 0 0
       in enc_chars temp prepare @ encode_loop data data_len tmp'
     else [])"
  by pat_completeness auto
termination
proof (relation "measure (\<lambda>(data, n, tmp). n - tmp)", goal_cases)
  case (2 data n tmp x tmp' y temp p)
  then have "tmp < tmp'" using enc_gather_tmp[of 3 data n tmp 0 0 tmp' temp p] by simp
  with 2 show ?case by simp
qed simp

declare encode_loop.simps [simp del]

definition encode_size :: "nat \<Rightarrow> nat" where
  "encode_size data_len = (data_len div 3 + (if data_len mod 3 > 0 then 1 else 0)) * 4 + 1"

text \<open>The block that is returned: the characters and the terminator, in \<open>encode_size\<close> bytes.\<close>

definition base64_encode :: "bool \<Rightarrow> octet list \<Rightarrow> nat \<Rightarrow> octet list outcome" where
  "base64_encode malloc_ok data data_len =
    (if data_len > length data \<or> encode_size data_len \<ge> 2 ^ 31 then Undefined
     else if \<not> malloc_ok then Stop
     else let out = encode_loop data data_len 0 @ [0] in
       if length out > encode_size data_len then Undefined
       else Done (out @ replicate (encode_size data_len - length out) 0))"

section \<open>Decoding\<close>

text \<open>\<^verbatim>\<open>strrchr(base, ch) - base\<close>, where the terminator belongs to the string\<close>

definition find_pos :: "octet \<Rightarrow> nat option" where
  "find_pos ch = (case filter (\<lambda>i. (base @ [0]) ! i = ch) [0..<66] of [] \<Rightarrow> None | is \<Rightarrow> Some (last is))"

primrec dec_gather :: "nat \<Rightarrow> octet list \<Rightarrow> nat \<Rightarrow> nat \<Rightarrow> nat \<Rightarrow> 32 word \<Rightarrow> (nat \<times> nat \<times> 32 word) option" where
  "dec_gather 0 data n tmp temp prepare = Some (tmp, temp, prepare)"
| "dec_gather (Suc k) data n tmp temp prepare =
    (if tmp \<ge> n then Some (tmp, temp, prepare)
     else case find_pos (data ! tmp) of
       None \<Rightarrow> None
     | Some v \<Rightarrow> dec_gather k data n (Suc tmp) (Suc temp) (push_bit 6 prepare OR of_nat v))"

definition dec_bytes :: "nat \<Rightarrow> 32 word \<Rightarrow> octet list" where
  "dec_bytes temp prepare =
    (let prepare = push_bit ((4 - temp) * 6) prepare in
     map (\<lambda>i. ucast (drop_bit ((2 - i) * 8) prepare AND 0xFF)) [0..<min 3 temp])"

lemma dec_gather_tmp:
  "dec_gather k data n tmp temp p = Some (tmp', temp', p') \<Longrightarrow> tmp \<le> tmp' \<and> (0 < k \<and> tmp < n \<longrightarrow> tmp < tmp')"
  by (induction k arbitrary: tmp temp p) (fastforce split: if_splits option.splits)+

function decode_loop :: "nat \<Rightarrow> octet list \<Rightarrow> nat \<Rightarrow> nat \<Rightarrow> octet list option" where
  "decode_loop need data n tmp =
    (if tmp < n
     then if need < 4 then None
       else (case dec_gather 4 data n tmp 0 0 of None \<Rightarrow> None
       | Some (tmp', temp, prepare) \<Rightarrow> map_option ((@) (dec_bytes temp prepare)) (decode_loop need data n tmp'))
     else Some [])"
  by pat_completeness auto
termination
proof (relation "measure (\<lambda>(need, data, n, tmp). n - tmp)", goal_cases)
  case (2 need data n tmp x tmp' y temp p)
  then have "tmp < tmp'" using dec_gather_tmp[of 4 data n tmp 0 0 tmp' temp p] by simp
  with 2 show ?case by simp
qed simp

declare decode_loop.simps [simp del]

definition equal_count :: "octet list \<Rightarrow> nat \<Rightarrow> nat" where
  "equal_count data data_len =
    of_bool (data ! (data_len - 1) = 61) + of_bool (data ! (data_len - 2) = 61)
      + of_bool (data ! (data_len - 3) = 61)"

definition decode_size :: "octet list \<Rightarrow> nat \<Rightarrow> nat" where
  "decode_size data data_len = data_len div 4 * 3 +
    (case equal_count data data_len of 0 \<Rightarrow> 4 | Suc 0 \<Rightarrow> 4 | Suc (Suc 0) \<Rightarrow> 3 | _ \<Rightarrow> 2)"

definition decode_with :: "nat \<Rightarrow> bool \<Rightarrow> octet list \<Rightarrow> nat \<Rightarrow> octet list outcome" where
  "decode_with need malloc_ok data data_len =
    (if data_len < 3 \<or> data_len > length data \<or> data_len \<ge> 2 ^ 31 then Undefined
     else if \<not> malloc_ok then Stop
     else case decode_loop need data (data_len - equal_count data data_len) 0 of
       None \<Rightarrow> Undefined
     | Some out \<Rightarrow>
        if length out + 1 > decode_size data data_len then Undefined
        else Done (out @ replicate (decode_size data data_len - length out) 0))"

definition base64_decode :: "bool \<Rightarrow> octet list \<Rightarrow> nat \<Rightarrow> octet list outcome" where
  "base64_decode = decode_with 3"

end
