(* ===== verification/Base64_Correct.thy ===== *)
theory Base64_Correct
  imports Base64
begin

unbundle bit_operations_syntax

text \<open>Decoding inverts encoding: the loops as functions on lists, then group by group.\<close>

section \<open>The alphabet\<close>

lemma length_base [simp]: "length base = 65"
  by (simp add: base_def)

lemma distinct_base: "distinct (base @ [0])"
  by (simp add: base_def)

lemma base_64: "base ! 64 = 61"
  by (simp add: base_def)

lemma filter_single: "filter (\<lambda>i. i = v) [0..<n] = (if v < n then [v] else [])"
  by (induction n) auto

lemma find_pos_base:
  assumes "v < 66"
  shows "find_pos ((base @ [0]) ! v) = Some v"
proof -
  have "filter (\<lambda>i. (base @ [0]) ! i = (base @ [0]) ! v) [0..<66] = filter (\<lambda>i. i = v) [0..<66]"
    using distinct_base assms by (intro filter_cong) (auto simp: nth_eq_iff_index_eq simp del: nth_append)
  also have "\<dots> = [v]" using assms by (simp add: filter_single)
  finally show ?thesis by (simp add: find_pos_def)
qed

section \<open>Groups\<close>

definition sixth :: "32 word \<Rightarrow> nat \<Rightarrow> nat" where
  "sixth p i = unat (take_bit 6 (drop_bit (18 - 6 * i) p))"

lemma sixth_less: "sixth p i < 64"
  using take_bit_nat_less_exp[of 6 "unat (drop_bit (18 - 6 * i) p)"]
  by (simp add: sixth_def unsigned_take_bit_eq)

lemma mask_6: "x AND 0x3F = take_bit 6 x" for x :: "32 word"
  by (simp add: take_bit_eq_mask mask_eq_exp_minus_1)

lemma mask_8: "x AND 0xFF = take_bit 8 x" for x :: "32 word"
  by (simp add: take_bit_eq_mask mask_eq_exp_minus_1)

definition join :: "octet \<Rightarrow> octet \<Rightarrow> octet \<Rightarrow> 32 word" where
  "join a b c = push_bit 16 (ucast a) OR push_bit 8 (ucast b) OR ucast c"

lemma join_bytes:
  "ucast (take_bit 8 (drop_bit 16 (join a b c))) = a"
  "ucast (take_bit 8 (drop_bit 8 (join a b c))) = b"
  "ucast (take_bit 8 (join a b c)) = c"
  unfolding join_def by (rule bit_word_eqI, auto simp: bit_simps dest: bit_imp_le_length)+

lemma add_sixth: "push_bit 6 (drop_bit 6 y) OR take_bit 6 y = y" for y :: "32 word"
  by (rule bit_word_eqI) (auto simp: bit_simps)

lemma join_top: "take_bit 6 (drop_bit 18 (join a b c)) = drop_bit 18 (join a b c)"
  unfolding join_def by (rule bit_word_eqI) (auto simp: bit_simps dest: bit_imp_le_length)

lemma join_sixths:
  "push_bit 6 (push_bit 6 (push_bit 6 (of_nat (sixth (join a b c) 0)) OR of_nat (sixth (join a b c) 1))
     OR of_nat (sixth (join a b c) 2)) OR of_nat (sixth (join a b c) 3) = join a b c"
  using add_sixth[of "drop_bit 12 (join a b c)"] add_sixth[of "drop_bit 6 (join a b c)"]
    add_sixth[of "join a b c"]
  by (simp add: sixth_def join_top)

text \<open>The encoder on lists: the characters of the alphabet, then the padding.\<close>

definition char_at :: "32 word \<Rightarrow> nat \<Rightarrow> octet" where
  "char_at p i = base ! sixth p i"

fun enc_core :: "octet list \<Rightarrow> octet list" where
  "enc_core [] = []"
| "enc_core [a] = map (char_at (join a 0 0)) [0, 1]"
| "enc_core [a, b] = map (char_at (join a b 0)) [0, 1, 2]"
| "enc_core (a # b # c # r) = map (char_at (join a b c)) [0, 1, 2, 3] @ enc_core r"

fun enc_pad :: "octet list \<Rightarrow> nat" where
  "enc_pad [] = 0"
| "enc_pad [a] = 2"
| "enc_pad [a, b] = 1"
| "enc_pad (a # b # c # r) = enc_pad r"

lemma upt_4: "[0..<4] = [0, 1, 2, 3::nat]"
  by (simp add: upt_rec)

lemma ucast_mask [simp]: "take_bit 8 (ucast b :: 32 word) = ucast b" for b :: octet
  by (rule bit_word_eqI) (auto simp: bit_simps dest: bit_imp_le_length)

lemma enc_chars_group:
  "enc_chars 3 (push_bit 8 (push_bit 8 (ucast a) OR ucast b) OR ucast c) = map (char_at (join a b c)) [0, 1, 2, 3]"
  "enc_chars 2 (push_bit 8 (ucast a) OR ucast b) = map (char_at (join a b 0)) [0, 1, 2] @ [61]"
  "enc_chars 1 (ucast a) = map (char_at (join a 0 0)) [0, 1] @ [61, 61]"
  using base_64
  by (simp_all add: enc_chars_def Let_def upt_4 char_at_def sixth_def join_def mask_6 push_bit_or or.assoc)

lemma gather_3:
  assumes "tmp < n"
  shows "enc_gather 3 data n tmp 0 0 =
    (if n = Suc tmp then (Suc tmp, 1, ucast (data ! tmp))
     else if n = Suc (Suc tmp) then (Suc (Suc tmp), 2, push_bit 8 (ucast (data ! tmp)) OR ucast (data ! Suc tmp))
     else (tmp + 3, 3, push_bit 8 (push_bit 8 (ucast (data ! tmp)) OR ucast (data ! Suc tmp))
        OR ucast (data ! Suc (Suc tmp))))"
  using assms by (auto simp: numeral_3_eq_3 mask_8)

lemma drop_take_Cons:
  "i < n \<Longrightarrow> n \<le> length xs \<Longrightarrow> drop i (take n xs) = xs ! i # drop (Suc i) (take n xs)"
  by (metis Cons_nth_drop_Suc length_take min.absorb2 nth_take)

lemma replicate_2: "replicate 2 x = [x, x]"
  by (simp add: numeral_2_eq_2)

lemma encode_loop_list:
  assumes "n \<le> length data"
  shows "encode_loop data n tmp
    = enc_core (drop tmp (take n data)) @ replicate (enc_pad (drop tmp (take n data))) 61"
  using assms
proof (induction data n tmp rule: encode_loop.induct)
  case (1 data n tmp)
  consider "n \<le> tmp" | "n = Suc tmp" | "n = Suc (Suc tmp)" | "Suc (Suc tmp) < n" by linarith
  then show ?case
  proof cases
    case 4
    then have d: "drop tmp (take n data)
        = data ! tmp # data ! Suc tmp # data ! Suc (Suc tmp) # drop (tmp + 3) (take n data)"
      using 1(2) by (simp add: drop_take_Cons numeral_3_eq_3)
    from 4 obtain p where g: "enc_gather 3 data n tmp 0 0 = (tmp + 3, 3, p)" by (simp add: gather_3)
    have "encode_loop data n (tmp + 3) = enc_core (drop (tmp + 3) (take n data))
        @ replicate (enc_pad (drop (tmp + 3) (take n data))) 61"
      using 1(1)[OF _ refl g[symmetric] refl 1(2)] 4 by simp
    with 4 show ?thesis
      by (subst encode_loop.simps) (simp add: gather_3 d enc_chars_group[simplified])
  qed (use 1(2) in \<open>(subst encode_loop.simps, simp add: gather_3 drop_take_Cons enc_chars_group[simplified] encode_loop.simps replicate_2)\<close>)+
qed

section \<open>Decoding\<close>

fun dec_list :: "octet list \<Rightarrow> octet list option" where
  "dec_list [] = Some []"
| "dec_list cs = (case dec_gather 4 cs (length cs) 0 0 0 of None \<Rightarrow> None
     | Some (tmp, temp, p) \<Rightarrow> map_option ((@) (dec_bytes temp p)) (dec_list (drop 4 cs)))"

lemma dec_gather_shift:
  "n \<le> length data \<Longrightarrow> dec_gather k data n (i + tmp) temp p
    = map_option (\<lambda>(t, r). (i + t, r)) (dec_gather k (drop i (take n data)) (n - i) tmp temp p)"
proof (induction k arbitrary: tmp temp p)
  case (Suc k)
  show ?case
  proof (cases "n \<le> i + tmp")
    case False
    then have "drop i (take n data) ! tmp = data ! (i + tmp)" using Suc.prems by simp
    moreover have "\<not> n - i \<le> tmp" using False by simp
    ultimately show ?thesis using False Suc.IH[of "Suc tmp"] Suc.prems
      by (simp split: option.splits)
  next
    case True
    then have "n - i \<le> tmp" by linarith
    with True show ?thesis by simp
  qed
qed simp

lemma dec_gather_tmp_4:
  "dec_gather k data n tmp temp p = Some (t, r) \<Longrightarrow> tmp \<le> n \<Longrightarrow> t = min n (tmp + k)"
proof (induction k arbitrary: tmp temp p)
  case (Suc k)
  show ?case
  proof (cases "tmp < n")
    case True
    with Suc.prems obtain v where "dec_gather k data n (Suc tmp) (Suc temp) (push_bit 6 p OR of_nat v) = Some (t, r)"
      by (auto split: option.splits)
    from Suc.IH[OF this] True show ?thesis by simp
  qed (use Suc.prems in simp)
qed simp

lemma decode_loop_list:
  assumes "4 \<le> need" "n \<le> length data"
  shows "decode_loop need data n tmp = dec_list (drop tmp (take n data))"
  using assms
proof (induction need data n tmp rule: decode_loop.induct)
  case (1 need data n tmp)
  let ?cs = "drop tmp (take n data)"
  show ?case
  proof (cases "tmp < n")
    case False
    then show ?thesis by (subst decode_loop.simps) simp
  next
    case True
    then obtain c cs where c: "?cs = c # cs" "length ?cs = n - tmp"
      using 1(3) by (simp add: drop_take_Cons)
    have g: "dec_gather 4 data n tmp 0 0 = map_option (\<lambda>(t, r). (tmp + t, r)) (dec_gather 4 ?cs (n - tmp) 0 0 0)"
      using dec_gather_shift[OF 1(3), of 4 tmp 0 0 0] by simp
    show ?thesis
    proof (cases "dec_gather 4 ?cs (n - tmp) 0 0 0")
      case None
      with True g c 1(2) show ?thesis by (subst decode_loop.simps) simp
    next
      case (Some x)
      obtain t temp p where x: "x = (t, temp, p)" by (cases x)
      have t: "t = min (n - tmp) 4" using dec_gather_tmp_4[of 4 ?cs "n - tmp" 0 0 0 t] Some x by simp
      have g': "dec_gather 4 data n tmp 0 0 = Some (tmp + t, temp, p)" using g Some x by simp
      have "decode_loop need data n (tmp + t) = dec_list (drop (tmp + t) (take n data))"
        using 1(1)[OF True _ g' refl refl 1(2,3)] 1(2) by simp
      moreover have "drop (tmp + t) (take n data) = drop 4 ?cs" using t 1(3) by (auto simp: min_def add.commute)
      ultimately show ?thesis using True g' Some x c 1(2)
        by (subst decode_loop.simps) (simp split: option.splits)
    qed
  qed
qed

lemma find_char: "find_pos (char_at p i) = Some (sixth p i)"
  using find_pos_base[of "sixth p i"] sixth_less[of p i] by (simp add: char_at_def nth_append)

lemma char_not_pad: "char_at p i \<noteq> 61"
proof -
  have "(base @ [0]) ! sixth p i \<noteq> (base @ [0]) ! 64"
    using sixth_less[of p i] by (subst nth_eq_iff_index_eq[OF distinct_base]) simp_all
  then show ?thesis using sixth_less[of p i] base_64 by (simp add: char_at_def nth_append)
qed

lemma join_low:
  "take_bit 6 (join a b 0) = 0" "take_bit 6 (drop_bit 6 (join a 0 0)) = 0"
  unfolding join_def by (rule bit_word_eqI, auto simp: bit_simps)+

lemma sixths_prefix:
  "push_bit 6 (push_bit 6 (of_nat (sixth (join a b c) 0)) OR of_nat (sixth (join a b c) 1))
     OR of_nat (sixth (join a b c) 2) = drop_bit 6 (join a b c)"
  "push_bit 6 (of_nat (sixth (join a b c) 0)) OR of_nat (sixth (join a b c) 1) = drop_bit 12 (join a b c)"
  using add_sixth[of "drop_bit 12 (join a b c)"] add_sixth[of "drop_bit 6 (join a b c)"]
  by (simp_all add: sixth_def join_top)

lemma dec_group:
  "dec_gather 4 (map (char_at (join a b c)) [0, 1, 2, 3] @ r) (Suc (Suc (Suc (Suc (length r))))) 0 0 0
    = Some (4, 4, join a b c)"
  "dec_gather 4 (map (char_at (join a b 0)) [0, 1, 2]) 3 0 0 0 = Some (3, 3, drop_bit 6 (join a b 0))"
  "dec_gather 4 (map (char_at (join a 0 0)) [0, 1]) 2 0 0 0 = Some (2, 2, drop_bit 12 (join a 0 0))"
  using join_sixths[of a b c] sixths_prefix(1)[of a b 0] sixths_prefix(2)[of a 0 0]
  by (simp_all add: eval_nat_numeral find_char)

lemma push_back:
  "push_bit 6 (drop_bit 6 (join a b 0)) = join a b 0" "push_bit 12 (drop_bit 12 (join a 0 0)) = join a 0 0"
  unfolding join_def by (rule bit_word_eqI, auto simp: bit_simps)+

lemma dec_bytes_group:
  "dec_bytes 4 (join a b c) = [a, b, c]" "dec_bytes 3 (drop_bit 6 (join a b 0)) = [a, b, 0]"
  "dec_bytes 2 (drop_bit 12 (join a 0 0)) = [a, 0]"
proof -
  have u: "[0..<3] = [0, 1, 2::nat]" "[0..<2] = [0, 1::nat]" by (simp_all add: upt_rec)
  show "dec_bytes 4 (join a b c) = [a, b, c]" "dec_bytes 3 (drop_bit 6 (join a b 0)) = [a, b, 0]"
    "dec_bytes 2 (drop_bit 12 (join a 0 0)) = [a, 0]"
    by (simp_all add: dec_bytes_def Let_def push_back u mask_8 join_bytes)
qed

text \<open>A final group that is not full comes back with one zero byte behind it.\<close>

lemma dec_enc_core: "dec_list (enc_core xs) = Some (xs @ (if enc_pad xs = 0 then [] else [0]))"
proof (induction xs rule: enc_core.induct)
  case (2 a)
  show ?case using dec_group(3)[of a] dec_bytes_group(3)[of a] by (simp flip: numeral_2_eq_2)
next
  case (3 a b)
  show ?case using dec_group(2)[of a b] dec_bytes_group(2)[of a b] by (simp add: eval_nat_numeral)
next
  case (4 a b c r)
  then show ?case using dec_group(1)[of a b c "enc_core r"] dec_bytes_group(1)[of a b c] by simp
qed simp

section \<open>The round trip\<close>

lemma enc_length: "length (enc_core xs) + enc_pad xs = 4 * ((length xs + 2) div 3)"
proof (induction xs rule: enc_core.induct)
  case (4 a b c r)
  have "(length (a # b # c # r) + 2) div 3 = (length r + 2) div 3 + 1" by simp
  with 4 show ?case by simp
qed simp_all

lemma enc_four: "xs \<noteq> [] \<Longrightarrow> 4 \<le> length (enc_core xs) + enc_pad xs"
  by (cases xs rule: enc_core.cases) simp_all

lemma enc_pad_cases: "enc_pad xs \<in> {0, 1, 2}"
  by (induction xs rule: enc_pad.induct) simp_all

lemma enc_core_chars: "c \<in> set (enc_core xs) \<Longrightarrow> c \<noteq> 61"
  using char_not_pad by (induction xs rule: enc_core.induct) auto

lemma encode_size_enc: "encode_size (length xs) = length (enc_core xs) + enc_pad xs + 1"
proof -
  have "n div 3 + (if n mod 3 > 0 then 1 else 0) = (n + 2) div 3" for n :: nat by presburger
  then show ?thesis by (simp add: encode_size_def enc_length)
qed

lemma encode_ok:
  "encode_size (length data) < 2 ^ 31 \<Longrightarrow> base64_encode True data (length data) = Done (enc_core data @ replicate (enc_pad data) 61 @ [0])"
  by (simp add: base64_encode_def encode_loop_list encode_size_enc)

lemma equal_count_enc:
  assumes "data \<noteq> []"
  shows "equal_count (enc_core data @ replicate (enc_pad data) 61 @ r) (length (enc_core data) + enc_pad data) = enc_pad data"
proof -
  let ?c = "enc_core data" and ?p = "enc_pad data"
  let ?cs = "?c @ replicate ?p 61"
  have four: "4 \<le> length ?c + ?p" by (rule enc_four[OF assms])
  have at: "(?c @ replicate ?p 61 @ r) ! (length ?c + ?p - Suc k) = 61 \<longleftrightarrow> k < ?p" if "k < 3" for k
  proof -
    have "(?c @ replicate ?p 61 @ r) ! (length ?c + ?p - Suc k) = rev ?cs ! k"
      using that four by (subst rev_nth) (simp_all add: nth_append)
    also have "\<dots> = (replicate ?p 61 @ rev ?c) ! k" by (simp add: rev_replicate)
    finally show ?thesis
      using that four enc_core_chars[of "rev ?c ! (k - ?p)" data] nth_mem[of "k - ?p" "rev ?c"]
      by (auto simp: nth_append)
  qed
  show ?thesis
    using at[of 0] at[of 1] at[of 2] enc_pad_cases[of data]
    by (auto simp: equal_count_def numeral_2_eq_2 numeral_3_eq_3)
qed

lemma decode_ok:
  assumes "data \<noteq> []" and big: "4 \<le> need" "encode_size (length data) < 2 ^ 31"
  shows "\<exists>zeros. decode_with need True (enc_core data @ replicate (enc_pad data) 61 @ [0])
      (length (enc_core data) + enc_pad data) = Done (data @ zeros) \<and> set zeros \<subseteq> {0} \<and> zeros \<noteq> []"
proof -
  let ?c = "enc_core data" and ?p = "enc_pad data"
  let ?e = "?c @ replicate ?p 61 @ [0]" and ?z = "if ?p = 0 then [] else [0 :: octet]"
  have n: "0 < length data" using assms(1) by simp
  have four: "4 \<le> length ?c + ?p" by (rule enc_four[OF assms(1)])
  have q: "equal_count ?e (length ?c + ?p) = ?p" using equal_count_enc[OF assms(1), of "[0]"] .
  have out: "decode_loop need ?e (length ?c + ?p - ?p) 0 = Some (data @ ?z)"
    using dec_enc_core[of data] big(1) by (subst decode_loop_list) simp_all
  have "length data + length ?z + 1 \<le> decode_size ?e (length ?c + ?p)"
    using enc_pad_cases[of data] n unfolding decode_size_def q unfolding enc_length
    by (auto simp: numeral_2_eq_2)
  then show ?thesis
    using four q out big(2) by (auto simp: decode_with_def encode_size_enc)
qed

text \<open>The decoder of the code writes past its array in the first round of the loop.\<close>

lemma decode_overflows:
  assumes "data \<noteq> []" "encode_size (length data) < 2 ^ 31"
  shows "base64_decode True (enc_core data @ replicate (enc_pad data) 61 @ [0]) (length (enc_core data) + enc_pad data) = Undefined"
proof -
  let ?n = "length (enc_core data) + enc_pad data"
  have "?n - equal_count (enc_core data @ replicate (enc_pad data) 61 @ [0]) ?n = length (enc_core data)"
    using equal_count_enc[OF assms(1), of "[0]"] by simp
  moreover have "0 < length (enc_core data)" using enc_four[OF assms(1)] enc_pad_cases[of data] by auto
  ultimately have "decode_loop 3 (enc_core data @ replicate (enc_pad data) 61 @ [0])
      (?n - equal_count (enc_core data @ replicate (enc_pad data) 61 @ [0]) ?n) 0 = None"
    by (subst decode_loop.simps) simp
  then show ?thesis by (simp add: base64_decode_def decode_with_def)
qed

section \<open>The encoding, by arithmetic\<close>

text \<open>Base 64 as it is defined: three bytes are a number below 2^24 and are written with four digits of base 64.\<close>

definition digit :: "nat \<Rightarrow> octet" where
  "digit v = of_nat (if v < 26 then 65 + v else if v < 52 then 97 + (v - 26) else if v < 62 then 48 + (v - 52) else if v = 62 then 43 else 47)"

fun b64 :: "octet list \<Rightarrow> octet list" where
  "b64 [] = []"
| "b64 [a] = [digit (unat a div 4), digit (unat a mod 4 * 16), 61, 61]"
| "b64 [a, b] = [digit (unat a div 4), digit (unat a mod 4 * 16 + unat b div 16), digit (unat b mod 16 * 4), 61]"
| "b64 (a # b # c # r) = [digit (unat a div 4), digit (unat a mod 4 * 16 + unat b div 16),
     digit (unat b mod 16 * 4 + unat c div 64), digit (unat c mod 64)] @ b64 r"

lemma all_less_64: "(\<forall>v < 64. P v) \<longleftrightarrow> list_all P [0..<64]" for P :: "nat \<Rightarrow> bool"
  by (auto simp: list_all_iff)

lemma base_digit: "v < 64 \<Longrightarrow> base ! v = digit v"
proof -
  have "\<forall>v < 64. base ! v = digit v" unfolding all_less_64 by (simp add: base_def digit_def upt_rec nth_append)
  then show "v < 64 \<Longrightarrow> base ! v = digit v" by blast
qed

lemma unat_join: "unat (join a b c) = 65536 * unat a + 256 * unat b + unat c"
proof -
  have disj: "push_bit 8 (ucast b) OR ucast c = push_bit 8 (ucast b) + (ucast c :: 32 word)"
    by (rule disjunctive_add[symmetric]) (auto simp: bit_simps dest: bit_imp_le_length)
  have "join a b c = push_bit 16 (ucast a) + (push_bit 8 (ucast b) + ucast c)"
    unfolding join_def or.assoc disj[symmetric]
    by (rule disjunctive_add[symmetric]) (auto simp: bit_simps dest: bit_imp_le_length)
  also have "\<dots> = word_of_nat (65536 * unat a + 256 * unat b + unat c)"
    by (simp add: push_bit_eq_mult mult.commute add.assoc)
  also have "unat \<dots> = (65536 * unat a + 256 * unat b + unat c) mod 2 ^ 32" by (subst unat_of_nat) simp
  also have "\<dots> = 65536 * unat a + 256 * unat b + unat c"
    using unsigned_less[of a, where ?'a = nat] unsigned_less[of b, where ?'a = nat] unsigned_less[of c, where ?'a = nat]
    by (intro mod_less) simp
  finally show ?thesis .
qed

lemma sixth_join: "sixth (join a b c) i = (65536 * unat a + 256 * unat b + unat c) div 2 ^ (18 - 6 * i) mod 64"
proof -
  have "take_bit 32 (unat (join a b c)) = unat (join a b c)"
    using unsigned_less[of "join a b c", where ?'a = nat] by (intro take_bit_nat_eq_self) simp
  then have "sixth (join a b c) i = take_bit 6 (drop_bit (18 - 6 * i) (unat (join a b c)))"
    by (simp only: sixth_def unsigned_take_bit_eq unsigned_drop_bit_eq) simp
  also have "\<dots> = unat (join a b c) div 2 ^ (18 - 6 * i) mod 64" by (simp add: take_bit_eq_mod drop_bit_eq_div)
  finally show ?thesis unfolding unat_join .
qed

lemma quotients:
  assumes "a < 256" "b < 256" "c < (256 :: nat)"
  shows "(65536 * a + 256 * b + c) div 262144 = a div 4" "(65536 * a + 256 * b + c) div 4096 = 16 * a + b div 16"
    "(65536 * a + 256 * b + c) div 64 = 1024 * a + 4 * b + c div 64"
proof -
  have "256 * b + c < 65536" using assms by linarith
  then have a: "(65536 * a + 256 * b + c) div 65536 = a" by (simp add: add.assoc)
  have "(65536 * a + 256 * b + c) div (65536 * 4) = a div 4" unfolding div_mult2_eq a ..
  then show "(65536 * a + 256 * b + c) div 262144 = a div 4" by simp
  have b: "(65536 * a + 256 * b + c) div 256 = 256 * a + b"
    using div_mult_self1[of 256 c "256 * a + b"] assms(3) by (simp add: algebra_simps)
  have "(65536 * a + 256 * b + c) div (256 * 16) = (256 * a + b) div 16" unfolding div_mult2_eq b ..
  also have "\<dots> = 16 * a + b div 16" using div_mult_self1[of 16 b "16 * a"] by (simp add: algebra_simps)
  finally show "(65536 * a + 256 * b + c) div 4096 = 16 * a + b div 16" by simp
  show "(65536 * a + 256 * b + c) div 64 = 1024 * a + 4 * b + c div 64"
    using div_mult_self1[of 64 c "1024 * a + 4 * b"] by (simp add: algebra_simps)
qed

lemma low_digits:
  assumes "a < 256" "b < 256" "c < (256 :: nat)"
  shows "(a div 4) mod 64 = a div 4" "(16 * a + b div 16) mod 64 = a mod 4 * 16 + b div 16"
    "(1024 * a + 4 * b + c div 64) mod 64 = b mod 16 * 4 + c div 64" "(65536 * a + 256 * b + c) mod 64 = c mod 64"
proof -
  have d: "4 * (a div 4) + a mod 4 = a" "16 * (b div 16) + b mod 16 = b" by simp_all
  have m: "16 * a + b div 16 = (a mod 4 * 16 + b div 16) + 64 * (a div 4)" using d(1) by linarith
  have m': "1024 * a + 4 * b + c div 64 = (b mod 16 * 4 + c div 64) + 64 * (16 * a + b div 16)"
  proof -
    have "1024 * a + 4 * b + c div 64 = (r * 4 + c div 64) + 64 * (16 * a + q)" if "16 * q + r = b" for q r using that by auto
    then show ?thesis using d(2) .
  qed
  have m'': "65536 * a + 256 * b + c = c + 64 * (1024 * a + 4 * b)" by simp
  have "b div 16 < 16" "c div 64 < 4" "a mod 4 < 4" "b mod 16 < 16" using assms by auto
  then have "a mod 4 * 16 + b div 16 < 64" "b mod 16 * 4 + c div 64 < 64" by linarith+
  note small = this
  show "(16 * a + b div 16) mod 64 = a mod 4 * 16 + b div 16" unfolding m mod_mult_self2 using small(1) by (rule mod_less)
  show "(1024 * a + 4 * b + c div 64) mod 64 = b mod 16 * 4 + c div 64" unfolding m' mod_mult_self2 using small(2) by (rule mod_less)
  show "(65536 * a + 256 * b + c) mod 64 = c mod 64" unfolding m'' by (rule mod_mult_self2)
  show "(a div 4) mod 64 = a div 4" using assms(1) by (intro mod_less) auto
qed

lemma sixths:
  "sixth (join a b c) 0 = unat a div 4" "sixth (join a b c) 1 = unat a mod 4 * 16 + unat b div 16"
  "sixth (join a b c) 2 = unat b mod 16 * 4 + unat c div 64" "sixth (join a b c) 3 = unat c mod 64"
proof -
  have l: "unat a < 256" "unat b < 256" "unat c < 256"
    using unsigned_less[of a, where ?'a = nat] unsigned_less[of b, where ?'a = nat] unsigned_less[of c, where ?'a = nat] by simp_all
  show "sixth (join a b c) 0 = unat a div 4" "sixth (join a b c) 1 = unat a mod 4 * 16 + unat b div 16"
    "sixth (join a b c) 2 = unat b mod 16 * 4 + unat c div 64" "sixth (join a b c) 3 = unat c mod 64"
    unfolding sixth_join using quotients[OF l] low_digits[OF l] by simp_all
qed

lemma char_at_digit: "char_at p i = digit (sixth p i)"
  using base_digit[OF sixth_less] by (simp add: char_at_def)

lemma enc_is_b64: "enc_core xs @ replicate (enc_pad xs) 61 = b64 xs"
proof (induction xs rule: enc_core.induct)
  case (2 a)
  then show ?case using sixths[of a 0 0] by (simp add: char_at_digit replicate_2)
next
  case (3 a b)
  then show ?case using sixths[of a b 0] by (simp add: char_at_digit)
next
  case (4 a b c r)
  then show ?case using sixths[of a b c] by (simp add: char_at_digit)
qed simp

end
