(* ===== verification/Bas_Enc_String.thy ===== *)
theory Bas_Enc_String
  imports Des_Correct Base64_Correct
begin

unbundle bit_operations_syntax

text \<open>
  Encryption of strings, \<^verbatim>\<open>Excellent_Code/Lib_bas/bas_encString.c\<close>: the block cipher is applied three
  times with two keys to blocks of eight bytes, and the result is written in base 64. A buffer is
  the list of the bytes from a pointer to the end of the object; reading or writing past the end,
  and \<^verbatim>\<open>strlen\<close> without a terminator, are undefined. \<open>junk\<close> is what the uninitialised array of the
  block functions holds.
\<close>

section \<open>Buffers\<close>

definition octet_strlen :: "octet list \<Rightarrow> nat option" where
  "octet_strlen b = (if 0 \<in> set b then Some (length (takeWhile (\<lambda>c. c \<noteq> 0) b)) else None)"

definition block_at :: "octet list \<Rightarrow> nat \<Rightarrow> octet list option" where
  "block_at b off = (if off + 8 \<le> length b then Some (take 8 (drop off b)) else None)"

definition put_block :: "octet list \<Rightarrow> nat \<Rightarrow> octet list \<Rightarrow> octet list option" where
  "put_block b off blk = (if off + 8 \<le> length b then Some (copy_to b off blk) else None)"

section \<open>Triple encryption\<close>

definition encrypt_block3 :: "octet list \<Rightarrow> octet list list \<Rightarrow> octet list list \<Rightarrow> octet list \<Rightarrow> octet list" where
  "encrypt_block3 junk subL subR plainBlock =
    (let cipherBlock = DES_EncryptBlock junk plainBlock subL;
         tmpBlock = DES_DecryptBlock junk cipherBlock subR
     in DES_EncryptBlock junk tmpBlock subL)"

definition decrypt_block3 :: "octet list \<Rightarrow> octet list list \<Rightarrow> octet list list \<Rightarrow> octet list \<Rightarrow> octet list" where
  "decrypt_block3 junk subL subR cipherBlock =
    (let plainBlock = DES_DecryptBlock junk cipherBlock subL;
         tmpBlock = DES_EncryptBlock junk plainBlock subR
     in DES_DecryptBlock junk tmpBlock subL)"

definition block_loop :: "(octet list \<Rightarrow> octet list) \<Rightarrow> octet list \<Rightarrow> nat \<Rightarrow> octet list \<Rightarrow> octet list option" where
  "block_loop f caIn iBlock caOut =
    foldM (\<lambda>l out. do { blk \<leftarrow> block_at caIn (8 * l); put_block out (8 * l) (f blk) }) [0..<iBlock] caOut"

definition DES_Encrypt :: "octet list \<Rightarrow> octet list \<Rightarrow> octet list \<Rightarrow> octet list \<Rightarrow> octet list option" where
  "DES_Encrypt junk caIn keyStr caOut = do {
     keyL \<leftarrow> block_at keyStr 0;
     keyR \<leftarrow> block_at keyStr 8;
     let subL = DES_SubKey (Ch8ToBit64 keyL);
     let subR = DES_SubKey (Ch8ToBit64 keyR);
     len \<leftarrow> octet_strlen caIn;
     let iBlock = len div 8;
     let iOdd = len mod 8;
     out \<leftarrow> block_loop (encrypt_block3 junk subL subR) caIn iBlock caOut;
     if iOdd \<noteq> 0
     then do {
       blk \<leftarrow> block_at caIn (8 * iBlock);
       put_block out (8 * iBlock) (encrypt_block3 junk subL subR (take iOdd blk @ replicate (8 - iOdd) 0)) }
     else Some out }"

definition DES_Decrypt :: "octet list \<Rightarrow> octet list \<Rightarrow> octet list \<Rightarrow> octet list \<Rightarrow> octet list option" where
  "DES_Decrypt junk caIn keyStr caOut = do {
     keyL \<leftarrow> block_at keyStr 0;
     keyR \<leftarrow> block_at keyStr 8;
     let subL = DES_SubKey (Ch8ToBit64 keyL);
     let subR = DES_SubKey (Ch8ToBit64 keyR);
     len \<leftarrow> octet_strlen caIn;
     let iBlock = len div 8;
     let iOdd = len mod 8;
     out \<leftarrow> block_loop (decrypt_block3 junk subL subR) caIn iBlock caOut;
     if iOdd \<noteq> 0
     then do {
       blk \<leftarrow> block_at caIn (8 * iBlock);
       put_block out (8 * iBlock) (decrypt_block3 junk subL subR blk) }
     else Some out }"

definition IsSpace :: "octet list \<Rightarrow> nat \<Rightarrow> int option" where
  "IsSpace b iLen = do {
     n \<leftarrow> octet_strlen b;
     Some (if n = 0 then 1 else if \<forall>c\<in>set (take (min n iLen) b). c = 32 then 1 else 0) }"

text \<open>\<^verbatim>\<open>sprintf(caKey, "%*.*s", 16, 16, key)\<close>: sixteen characters, filled with spaces in front\<close>

definition print_key :: "octet list \<Rightarrow> octet list option" where
  "print_key key = do {
     n \<leftarrow> octet_strlen (take 16 key @ [0]);
     _ \<leftarrow> (if n < 16 then octet_strlen key else Some 16);
     Some (replicate (16 - n) 32 @ take n key @ [0]) }"

text \<open>
  \<^verbatim>\<open>basEncString\<close>: the key comes from the environment (\<open>None\<close> is a variable that is not set, whose
  \<^verbatim>\<open>strlen\<close> is undefined). \<^verbatim>\<open>sizeof(enc)\<close> is the size of a pointer, 8 bytes.
\<close>

definition of_option :: "'a option \<Rightarrow> ('a \<Rightarrow> 'b outcome) \<Rightarrow> 'b outcome" where
  "of_option x f = (case x of None \<Rightarrow> Undefined | Some a \<Rightarrow> f a)"

definition and_then :: "'a outcome \<Rightarrow> ('a \<Rightarrow> 'b outcome) \<Rightarrow> 'b outcome" where
  "and_then x f = (case x of Done a \<Rightarrow> f a | Stop \<Rightarrow> Stop | Undefined \<Rightarrow> Undefined)"

definition basEncString ::
  "octet list \<Rightarrow> bool \<Rightarrow> octet list option \<Rightarrow> octet list \<Rightarrow> octet list \<Rightarrow> int \<Rightarrow> (int \<times> octet list) outcome" where
  "basEncString junk malloc_ok dbkey caIn caOut iFlag =
    of_option dbkey (\<lambda>env. of_option (octet_strlen env) (\<lambda>elen.
      if elen = 0 then Done (-1, caOut)
      else and_then (base64_decode malloc_ok env elen) (\<lambda>key.
        of_option (print_key key) (\<lambda>caKey.
        of_option (IsSpace caKey 16) (\<lambda>blank.
          if blank \<noteq> 0 then Done (-1, caOut)
          else if iFlag = 1
          then of_option (DES_Encrypt junk caIn caKey caOut) (\<lambda>out.
            of_option (octet_strlen out) (\<lambda>n.
              and_then (base64_encode malloc_ok out n) (\<lambda>enc.
                of_option (block_at enc 0) (\<lambda>eight.
                  of_option (put_block out 0 eight) (\<lambda>out. Done (0, out))))))
          else of_option (octet_strlen caIn) (\<lambda>n.
            and_then (base64_decode malloc_ok caIn n) (\<lambda>dec.
              of_option (DES_Decrypt junk dec caKey caOut) (\<lambda>out. Done (0, out)))))))))"

section \<open>Blocks\<close>

lemma block3_back:
  assumes "length junk = 48" and "length junk' = 48" and "length blk = 8" and "keys_ok subL" and "keys_ok subR"
  shows "decrypt_block3 junk' subL subR (encrypt_block3 junk subL subR blk) = blk"
  using assms by (simp add: encrypt_block3_def decrypt_block3_def Let_def decrypt_encrypt encrypt_decrypt)

lemma length_block3 [simp]:
  "length (encrypt_block3 junk subL subR blk) = 8" "length (decrypt_block3 junk subL subR blk) = 8"
  by (simp_all add: encrypt_block3_def decrypt_block3_def Let_def)

lemma copy_to_end:
  "length xs = n \<Longrightarrow> n + 8 \<le> length b \<Longrightarrow> length blk = 8 \<Longrightarrow>
    copy_to (xs @ drop n b) n blk = (xs @ blk) @ drop (n + 8) b"
  by (simp add: copy_to_def add.commute)

lemma block_loop_ok:
  assumes "8 * n \<le> length caIn" and "8 * n \<le> length caOut" and "\<And>blk. length (f blk) = 8"
  shows "block_loop f caIn n caOut
    = Some (concat (map (\<lambda>l. f (take 8 (drop (8 * l) caIn))) [0..<n]) @ drop (8 * n) caOut)"
  using assms(1,2)
proof (induction n)
  case (Suc n)
  let ?g = "\<lambda>l. f (take 8 (drop (8 * l) caIn))"
  have len: "length (concat (map ?g [0..<n])) = 8 * n" by (induction n) (simp_all add: assms(3))
  have "block_loop f caIn n caOut = Some (concat (map ?g [0..<n]) @ drop (8 * n) caOut)"
    using Suc by simp
  then have "block_loop f caIn (Suc n) caOut
      = put_block (concat (map ?g [0..<n]) @ drop (8 * n) caOut) (8 * n) (?g n)"
    using Suc.prems by (simp add: block_loop_def foldM_append block_at_def split: option.split)
  also have "\<dots> = Some (copy_to (concat (map ?g [0..<n]) @ drop (8 * n) caOut) (8 * n) (?g n))"
    using Suc.prems len by (simp add: put_block_def)
  also have "\<dots> = Some ((concat (map ?g [0..<n]) @ ?g n) @ drop (8 * n + 8) caOut)"
    using Suc.prems len assms(3) by (subst copy_to_end) simp_all
  finally show ?case by (simp add: add.commute)
qed (simp add: block_loop_def)

lemma string_strlen: "0 \<notin> set p \<Longrightarrow> octet_strlen (p @ 0 # r) = Some (length p)"
  by (simp add: octet_strlen_def takeWhile_append)

text \<open>The padded plain text and its blocks.\<close>

definition padded :: "octet list \<Rightarrow> octet list" where
  "padded p = p @ replicate ((8 - length p mod 8) mod 8) 0"

definition block_count :: "octet list \<Rightarrow> nat" where
  "block_count p = (length p + 7) div 8"

definition cipher_text :: "(octet list \<Rightarrow> octet list) \<Rightarrow> octet list \<Rightarrow> octet list" where
  "cipher_text f p = concat (map (\<lambda>l. f (take 8 (drop (8 * l) (padded p)))) [0..<block_count p])"

lemma block_count_div: "block_count p = length p div 8 + (if length p mod 8 = 0 then 0 else 1)"
proof -
  have "(8 * q + m + 7) div 8 = q + (if m = 0 then 0 else 1)" if "m < 8" for q m :: nat
    using that by (cases m) auto
  from this[of "length p mod 8" "length p div 8"] show ?thesis by (simp add: block_count_def)
qed

lemma length_padded: "length (padded p) = 8 * block_count p"
proof -
  have n: "length p = 8 * (length p div 8) + length p mod 8" by simp
  show ?thesis
  proof (cases "length p mod 8 = 0")
    case True
    with n show ?thesis by (simp add: padded_def block_count_div)
  next
    case False
    then have "(8 - length p mod 8) mod 8 = 8 - length p mod 8" by simp
    moreover have "length p mod 8 < 8" by simp
    then have "length p + (8 - length p mod 8) = 8 * (length p div 8) + 8" using n by linarith
    ultimately show ?thesis using False by (simp add: padded_def block_count_div)
  qed
qed

lemma length_concat_8: "(\<And>k. length (g k) = 8) \<Longrightarrow> length (concat (map g [0..<n])) = 8 * n"
  by (induction n) simp_all

lemma length_cipher: "(\<And>blk. length (f blk) = 8) \<Longrightarrow> length (cipher_text f p) = 8 * block_count p"
  unfolding cipher_text_def by (rule length_concat_8)

lemma encrypt_text:
  assumes "0 \<notin> set p" and "8 * block_count p \<le> length (p @ 0 # r)" and "8 * block_count p \<le> length caOut"
    and "16 \<le> length keyStr"
    and f: "f = encrypt_block3 junk (DES_SubKey (Ch8ToBit64 (take 8 keyStr)))
      (DES_SubKey (Ch8ToBit64 (take 8 (drop 8 keyStr))))"
  shows "DES_Encrypt junk (p @ 0 # r) keyStr caOut
    = Some (cipher_text f p @ drop (8 * block_count p) caOut)"
proof -
  let ?n = "length p" and ?q = "length p div 8" and ?m = "length p mod 8" and ?in = "p @ 0 # r"
  let ?g = "\<lambda>l. f (take 8 (drop (8 * l) (padded p)))"
  have n: "?n = 8 * ?q + ?m" and m: "?m < 8" by simp_all
  have fl: "length (f blk) = 8" for blk by (simp add: f)
  have q: "8 * ?q \<le> length ?in" "8 * ?q \<le> length caOut" using n assms(3) by (simp_all add: block_count_div)
  have same: "take 8 (drop (8 * l) ?in) = take 8 (drop (8 * l) (padded p))" if "l < ?q" for l
    using that n by (simp add: padded_def)
  have loop: "block_loop f ?in ?q caOut = Some (concat (map ?g [0..<?q]) @ drop (8 * ?q) caOut)"
    unfolding block_loop_ok[OF q fl] using same by (auto intro!: arg_cong[of _ _ concat] map_cong)
  have keys: "block_at keyStr 0 = Some (take 8 keyStr)" "block_at keyStr 8 = Some (take 8 (drop 8 keyStr))"
    using assms(4) by (simp_all add: block_at_def)
  note start = keys string_strlen[OF assms(1)] loop[unfolded f]
  show ?thesis
  proof (cases "?m = 0")
    case True
    then show ?thesis
      by (simp add: DES_Encrypt_def start Let_def cipher_text_def block_count_div f)
  next
    case False
    have last: "take ?m (take 8 (drop (8 * ?q) ?in)) @ replicate (8 - ?m) 0 = take 8 (drop (8 * ?q) (padded p))"
    proof -
      have d: "length (drop (8 * ?q) p) = ?m" "8 * ?q - ?n = 0" "(8 - ?m) mod 8 = 8 - ?m"
        using n m False by (simp_all add: minus_mult_div_eq_mod)
      have "drop (8 * ?q) (padded p) = drop (8 * ?q) p @ replicate (8 - ?m) 0"
        using d by (simp only: padded_def drop_append) simp
      moreover have "take ?m (take 8 (drop (8 * ?q) ?in)) = drop (8 * ?q) p"
        using d m by (simp add: min_def)
      ultimately show ?thesis using d m by simp
    qed
    have room: "block_at ?in (8 * ?q) = Some (take 8 (drop (8 * ?q) ?in))"
      using assms(2) False by (simp add: block_at_def block_count_div)
    have put: "put_block (concat (map ?g [0..<?q]) @ drop (8 * ?q) caOut) (8 * ?q) (?g ?q)
        = Some ((concat (map ?g [0..<?q]) @ ?g ?q) @ drop (8 * ?q + 8) caOut)"
      using assms(3) False length_concat_8[of ?g ?q] fl
      by (simp add: put_block_def copy_to_end block_count_div del: append_assoc)
    have "DES_Encrypt junk ?in keyStr caOut
        = put_block (concat (map ?g [0..<?q]) @ drop (8 * ?q) caOut) (8 * ?q) (?g ?q)"
      using False last by (simp add: DES_Encrypt_def start room Let_def f)
    moreover have "cipher_text f p = concat (map ?g [0..<?q]) @ ?g ?q"
      using False by (simp add: cipher_text_def block_count_div)
    ultimately show ?thesis using put False by (simp add: block_count_div add.commute)
  qed
qed

text \<open>Decryption stops at the first zero of the cipher text, but finishes the block it stands in.\<close>

definition ceil8 :: "nat \<Rightarrow> nat" where
  "ceil8 n = (n + 7) div 8"

definition readable :: "octet list \<Rightarrow> nat" where
  "readable c = ceil8 (length (takeWhile (\<lambda>b. b \<noteq> 0) c))"

lemma ceil8_div: "ceil8 n = (if n mod 8 = 0 then n div 8 else Suc (n div 8))"
  using block_count_div[of "replicate n 0"] by (simp add: ceil8_def block_count_def)

lemma readable_le: "length c = 8 * k \<Longrightarrow> readable c \<le> k"
  using length_takeWhile_le[of "\<lambda>b. b \<noteq> 0" c] by (simp add: readable_def ceil8_def)

lemma strlen_first_zero: "octet_strlen (c @ 0 # r) = Some (length (takeWhile (\<lambda>b. b \<noteq> 0) c))"
  by (induction c) (auto simp: octet_strlen_def)

lemma readable_all:
  assumes "length c = 8 * k" and "0 \<notin> set c"
  shows "readable c = k"
proof -
  have "takeWhile (\<lambda>b. b \<noteq> 0) c = c"
    using assms(2) by (subst takeWhile_eq_all_conv) auto
  from this assms(1) show ?thesis by (simp only: readable_def ceil8_def)
qed

lemma block_loop_Suc: "block_loop f caIn (Suc n) caOut = do {
    out \<leftarrow> block_loop f caIn n caOut; blk \<leftarrow> block_at caIn (8 * n); put_block out (8 * n) (f blk) }"
  by (simp add: block_loop_def foldM_append split: option.split Option.bind_split)

lemma decrypt_text:
  assumes "length c = 8 * k" and "8 * k \<le> length caOut" and "16 \<le> length keyStr"
    and f: "f = decrypt_block3 junk (DES_SubKey (Ch8ToBit64 (take 8 keyStr)))
      (DES_SubKey (Ch8ToBit64 (take 8 (drop 8 keyStr))))"
  shows "DES_Decrypt junk (c @ 0 # r) keyStr caOut
    = Some (concat (map (\<lambda>l. f (take 8 (drop (8 * l) c))) [0..<readable c]) @ drop (8 * readable c) caOut)"
proof -
  have fl: "length (f blk) = 8" for blk by (simp add: f)
  have le: "readable c \<le> k" by (rule readable_le[OF assms(1)])
  have "take 8 (drop (8 * l) (c @ 0 # r)) = take 8 (drop (8 * l) c)" if "l < k" for l
    using that assms(1) by simp
  then have same: "map (\<lambda>l. f (take 8 (drop (8 * l) (c @ 0 # r)))) [0..<readable c]
      = map (\<lambda>l. f (take 8 (drop (8 * l) c))) [0..<readable c]"
    using le by (intro map_cong) (simp_all del: drop_append take_append)
  have "8 * readable c \<le> length (c @ 0 # r)" "8 * readable c \<le> length caOut" using assms(1,2) le by simp_all
  then have loop: "block_loop f (c @ 0 # r) (readable c) caOut
      = Some (concat (map (\<lambda>l. f (take 8 (drop (8 * l) c))) [0..<readable c]) @ drop (8 * readable c) caOut)"
    unfolding same[symmetric] by (rule block_loop_ok[OF _ _ fl])
  have keys: "block_at keyStr 0 = Some (take 8 keyStr)" "block_at keyStr 8 = Some (take 8 (drop 8 keyStr))"
    using assms(3) by (simp_all add: block_at_def)
  have "DES_Decrypt junk (c @ 0 # r) keyStr caOut = block_loop f (c @ 0 # r) (readable c) caOut"
    by (simp add: DES_Decrypt_def keys strlen_first_zero Let_def f readable_def ceil8_div block_loop_Suc)
  with loop show ?thesis by simp
qed

lemma chunk_of_concat:
  assumes "\<And>k. length (g k) = 8" and "l < n"
  shows "take 8 (drop (8 * l) (concat (map g [0..<n]))) = g l"
proof -
  have "drop (8 * l) (concat (map g [0..<n])) = g l @ concat (map g [Suc l..<n])"
    using drop_blocks[of l n g] assms by (simp add: upt_conv_Cons)
  then show ?thesis using assms(1)[of l] by simp
qed

lemma concat_chunks: "concat (map (\<lambda>l. take 8 (drop (8 * l) xs)) [0..<k]) = take (8 * k) xs"
proof (induction k)
  case (Suc k)
  have "8 * Suc k = 8 * k + 8" by simp
  with Suc show ?case by (simp only: take_add) simp
qed simp

lemma selection_differs:
  "map (\<lambda>i. temp ! i) PC_2 = map (\<lambda>i. temp ! i) (PC_2[35 := 47]) \<longleftrightarrow> temp ! 46 = temp ! 47"
proof -
  have "PC_2 = take 35 PC_2 @ 46 # drop 36 PC_2" "length (take 35 PC_2) = 35"
    by (simp_all add: PC_2_def)
  then have "PC_2[35 := 47] = take 35 PC_2 @ 47 # drop 36 PC_2"
    by (metis list_update_length)
  moreover have "map (\<lambda>i. temp ! i) PC_2 = map (\<lambda>i. temp ! i) (take 35 PC_2 @ 46 # drop 36 PC_2)"
    using \<open>PC_2 = take 35 PC_2 @ 46 # drop 36 PC_2\<close> by (rule arg_cong)
  ultimately show ?thesis by (simp only: map_append list.map same_append_eq list.inject simp_thms)
qed

section \<open>Properties\<close>

text \<open>
  (C16) The block functions are inverse to each other, in both orders, for every 64-bit key, whatever
  the uninitialised array of the round function holds.
\<close>

theorem des_block_roundtrip:
  assumes "length blk = 8" and "length junk = 48" and "length junk' = 48"
  shows "DES_DecryptBlock junk' (DES_EncryptBlock junk blk (DES_SubKey key)) (DES_SubKey key) = blk
    \<and> DES_EncryptBlock junk' (DES_DecryptBlock junk blk (DES_SubKey key)) (DES_SubKey key) = blk"
  using assms decrypt_encrypt[OF keys_ok_SubKey] encrypt_decrypt[OF keys_ok_SubKey] by blast

theorem des_block_roundtrip_witness:
  "DES_DecryptBlock (replicate 48 7) (DES_EncryptBlock (replicate 48 9) [1, 2, 3, 4, 5, 6, 7, 8]
     (DES_SubKey (Ch8ToBit64 [0x13, 0x34, 0x57, 0x79, 0x9B, 0xBC, 0xDF, 0xF1])))
     (DES_SubKey (Ch8ToBit64 [0x13, 0x34, 0x57, 0x79, 0x9B, 0xBC, 0xDF, 0xF1])) = [1, 2, 3, 4, 5, 6, 7, 8]"
  using des_block_roundtrip[of "[1, 2, 3, 4, 5, 6, 7, 8]" "replicate 48 9" "replicate 48 7"
      "Ch8ToBit64 [0x13, 0x34, 0x57, 0x79, 0x9B, 0xBC, 0xDF, 0xF1]"] by simp

text \<open>
  (C17) \<^verbatim>\<open>DES_Decrypt\<close> undoes \<^verbatim>\<open>DES_Encrypt\<close> as far as the code can read the cipher text: its end is found by
  \<^verbatim>\<open>strlen\<close>, so the blocks up to the one with the first zero byte come back (all of the plain text,
  filled up with zeros to whole blocks, if the cipher text has no zero byte), and the rest of the
  output buffer is not touched. The source buffer must reach to the end of its last block, and
  the caller must have put a terminator behind the room for the cipher text.
\<close>

theorem triple_des_roundtrip:
  assumes "0 \<notin> set p" and "8 * block_count p \<le> length (p @ 0 # r)" and "16 \<le> length keyStr"
    and "length old = 8 * block_count p" and "8 * block_count p \<le> length caBack"
    and "length junk = 48" and "length junk' = 48"
  shows "\<exists>c. DES_Encrypt junk (p @ 0 # r) keyStr (old @ 0 # more) = Some (c @ 0 # more)
    \<and> length c = 8 * block_count p
    \<and> DES_Decrypt junk' (c @ 0 # more) keyStr caBack
        = Some (take (8 * readable c) (padded p) @ drop (8 * readable c) caBack)
    \<and> readable c \<le> block_count p \<and> (0 \<in> set c \<or> readable c = block_count p)"
proof -
  let ?L = "DES_SubKey (Ch8ToBit64 (take 8 keyStr))" and ?R = "DES_SubKey (Ch8ToBit64 (take 8 (drop 8 keyStr)))"
  let ?f = "encrypt_block3 junk ?L ?R" and ?g = "decrypt_block3 junk' ?L ?R"
  let ?c = "cipher_text ?f p" and ?k = "block_count p"
  have enc: "DES_Encrypt junk (p @ 0 # r) keyStr (old @ 0 # more) = Some (?c @ 0 # more)"
    using encrypt_text[OF assms(1,2) _ assms(3) refl, of "old @ 0 # more" junk] assms(4) by simp
  have len: "length ?c = 8 * ?k" by (rule length_cipher) simp
  have le: "readable ?c \<le> ?k" by (rule readable_le[OF len])
  have "?g (take 8 (drop (8 * l) ?c)) = take 8 (drop (8 * l) (padded p))" if "l < ?k" for l
  proof -
    have "take 8 (drop (8 * l) ?c) = ?f (take 8 (drop (8 * l) (padded p)))"
      unfolding cipher_text_def using that by (intro chunk_of_concat) simp_all
    moreover have "length (take 8 (drop (8 * l) (padded p))) = 8" using that length_padded[of p] by simp
    ultimately show ?thesis using block3_back[OF assms(6,7) _ keys_ok_SubKey keys_ok_SubKey] by simp
  qed
  then have "map (\<lambda>l. ?g (take 8 (drop (8 * l) ?c))) [0..<readable ?c]
      = map (\<lambda>l. take 8 (drop (8 * l) (padded p))) [0..<readable ?c]"
    using le by (intro map_cong) simp_all
  then have dec: "DES_Decrypt junk' (?c @ 0 # more) keyStr caBack
      = Some (take (8 * readable ?c) (padded p) @ drop (8 * readable ?c) caBack)"
    using decrypt_text[OF len assms(5,3) refl, of junk' more] by (simp only: concat_chunks)
  have "0 \<in> set ?c \<or> readable ?c = ?k"
    using readable_all[OF len] by blast
  with enc len dec le show ?thesis by blast
qed

theorem triple_des_roundtrip_witness:
  "\<exists>c. DES_Encrypt (replicate 48 0) [104, 105, 0, 0, 0, 0, 0, 0, 0] (replicate 16 65) (replicate 8 0 @ 0 # [0])
      = Some (c @ 0 # [0]) \<and> length c = 8
    \<and> DES_Decrypt (replicate 48 7) (c @ 0 # [0]) (replicate 16 65) (replicate 8 1)
      = Some (take (8 * readable c) (padded [104, 105]) @ drop (8 * readable c) (replicate 8 1))
    \<and> readable c \<le> 1 \<and> (0 \<in> set c \<or> readable c = 1)"
  using triple_des_roundtrip[of "[104, 105]" "[0, 0, 0, 0, 0, 0]" "replicate 16 65" "replicate 8 0"
      "replicate 8 1" "replicate 48 0" "replicate 48 7" "[0]"]
  by (simp add: block_count_def)

text \<open> The key schedule: sub key \<open>i\<close> selects bits from the two halves of the permuted key, both
  rotated by the sum of the first \<open>i + 1\<close> shifts, and the sixteen shifts together are one whole
  turn. The selection is not the one of the standard, whose entry 35 is 47 where the table has
  46: it agrees with the standard exactly on halves that are equal at these two places.
\<close>

theorem key_schedule:
  assumes "i < 16"
  shows "DES_SubKey key ! i = DES_PC2 (rotate (sum_list (take (Suc i) LS)) (take 28 (DES_PC1 key))
      @ rotate (sum_list (take (Suc i) LS)) (drop 28 (DES_PC1 key)))
    \<and> sum_list LS = 28
    \<and> (DES_PC2 temp = map (\<lambda>i. temp ! i) (PC_2[35 := 47]) \<longleftrightarrow> temp ! 46 = temp ! 47)"
proof (intro conjI)
  have "length (DES_PC1 key) = 56" by (simp add: DES_PC1_def)
  moreover have "\<forall>c\<in>set LS. c \<le> 28" by (simp add: LS_def)
  ultimately show "DES_SubKey key ! i = DES_PC2 (rotate (sum_list (take (Suc i) LS)) (take 28 (DES_PC1 key))
      @ rotate (sum_list (take (Suc i) LS)) (drop 28 (DES_PC1 key)))"
    unfolding DES_SubKey_def
    using subkey_loop_rotates[of "take 28 (DES_PC1 key)" "drop 28 (DES_PC1 key)" LS i] assms by simp
  show "sum_list LS = 28" by (simp add: LS_def)
  show "DES_PC2 temp = map (\<lambda>i. temp ! i) (PC_2[35 := 47]) \<longleftrightarrow> temp ! 46 = temp ! 47"
    unfolding DES_PC2_def by (rule selection_differs)
qed

theorem key_schedule_witness:
  "DES_SubKey (replicate 64 1) ! 0 = DES_PC2 (rotate 1 (take 28 (DES_PC1 (replicate 64 1)))
      @ rotate 1 (drop 28 (DES_PC1 (replicate 64 1))))"
  using key_schedule[of 0 "replicate 64 1"] by (simp add: LS_def)

text \<open>
  (C18) Base 64. \<^verbatim>\<open>base64_encode\<close> writes exactly the base-64 digits of the data, padding and terminator included.
  \<^verbatim>\<open>base64_decode\<close> of this text is undefined, because \<^verbatim>\<open>memset(need, 0, 4)\<close> writes behind the array \<^verbatim>\<open>need\<close> of three
  bytes; with an array of four or more bytes it would return the data, followed by zeros only. The data is not empty and
  the size of the text is an \<^verbatim>\<open>int\<close>; \<open>need\<close> is the size of the array.
\<close>

theorem base64_codec:
  assumes "data \<noteq> []" "encode_size (length data) < 2 ^ 31" "4 \<le> need"
  shows "base64_encode True data (length data) = Done (b64 data @ [0])
    \<and> base64_decode True (b64 data @ [0]) (length (b64 data)) = Undefined
    \<and> (\<exists>zeros. decode_with need True (b64 data @ [0]) (length (b64 data)) = Done (data @ zeros) \<and> set zeros \<subseteq> {0})"
proof -
  have l: "length (b64 data) = length (enc_core data) + enc_pad data" unfolding enc_is_b64[symmetric] by simp
  have e: "b64 data @ [0] = enc_core data @ replicate (enc_pad data) 61 @ [0]" unfolding enc_is_b64[symmetric] by simp
  show ?thesis unfolding l e
    using encode_ok[OF assms(2)] decode_overflows[OF assms(1,2)] decode_ok[OF assms(1,3,2)] by auto
qed

theorem base64_codec_witness:
  "base64_encode True [77, 97, 110, 33] 4 = Done [84, 87, 70, 117, 73, 81, 61, 61, 0]
    \<and> base64_decode True [84, 87, 70, 117, 73, 81, 61, 61, 0] 8 = Undefined
    \<and> (\<exists>zeros. decode_with 4 True [84, 87, 70, 117, 73, 81, 61, 61, 0] 8 = Done ([77, 97, 110, 33] @ zeros) \<and> set zeros \<subseteq> {0})"
proof -
  have b: "b64 [77, 97, 110, 33] = [84, 87, 70, 117, 73, 81, 61, 61]" by (simp add: digit_def)
  have l: "length [77, 97, 110, 33 :: octet] = 4" "length [84, 87, 70, 117, 73, 81, 61, 61 :: octet] = 8" by simp_all
  have s: "encode_size 4 < 2 ^ 31" by (simp add: encode_size_def)
  show ?thesis using base64_codec[of "[77, 97, 110, 33]" 4] s unfolding b l by simp
qed

end
