(* ===== verification/C_Time.thy ===== *)
theory C_Time
  imports C_Buffer
begin

text \<open>
  The Gregorian calendar and the functions of \<^verbatim>\<open>time.h\<close> the date functions call. Days are counted
  from 1 January 1970. The time zone is an argument: the offset of local time from UTC at every
  instant, and the instant that \<^verbatim>\<open>mktime\<close> picks for a local time, which the standard leaves open
  when clocks are put back or forward. Years are those a 32-bit \<^verbatim>\<open>tm_year\<close> can hold, so \<^verbatim>\<open>mktime\<close> and
  \<^verbatim>\<open>localtime\<close> fail only for instants outside them.
\<close>

section \<open>Calendar\<close>

definition leap :: "int \<Rightarrow> bool" where
  "leap y \<longleftrightarrow> y mod 4 = 0 \<and> y mod 100 \<noteq> 0 \<or> y mod 400 = 0"

definition month_lengths :: "bool \<Rightarrow> int list" where
  "month_lengths l = [31, if l then 29 else 28, 31, 30, 31, 30, 31, 31, 30, 31, 30, 31]"

definition month_days :: "int \<Rightarrow> int \<Rightarrow> int" where
  "month_days y m = month_lengths (leap y) ! nat (m - 1)"

text \<open>\<open>m\<close> from 1 to 12, as dates are written\<close>

definition valid_date :: "int \<Rightarrow> int \<Rightarrow> int \<Rightarrow> bool" where
  "valid_date y m d \<longleftrightarrow> 1 \<le> m \<and> m \<le> 12 \<and> 1 \<le> d \<and> d \<le> month_days y m"

text \<open>Days from 1 January of year 1 to 1 January of year \<open>y + 1\<close>\<close>

definition days_to_year :: "int \<Rightarrow> int" where
  "days_to_year y = 365 * y + y div 4 - y div 100 + y div 400"

definition days_to_month :: "bool \<Rightarrow> nat \<Rightarrow> int" where
  "days_to_month l m = sum_list (take m (month_lengths l))"

definition day_number :: "int \<Rightarrow> int \<Rightarrow> int \<Rightarrow> int" where
  "day_number y m d = days_to_year (y - 1) + days_to_month (leap y) (nat (m - 1)) + (d - 1) - 719162"

text \<open>The year of a day counted from year 1: an estimate by the mean length, put right by at most one.\<close>

definition year_of :: "int \<Rightarrow> int" where
  "year_of n = (let y = 400 * n div 146097
     in if n < days_to_year y then y else if days_to_year (y + 1) \<le> n then y + 2 else y + 1)"

fun month_of :: "int list \<Rightarrow> int \<Rightarrow> int \<Rightarrow> int \<times> int" where
  "month_of [] m n = (m, n + 1)"
| "month_of (k # ks) m n = (if n < k then (m, n + 1) else month_of ks (m + 1) (n - k))"

definition civil :: "int \<Rightarrow> int \<times> int \<times> int" where
  "civil n = (let n = n + 719162; y = year_of n; (m, d) = month_of (month_lengths (leap y)) 1 (n - days_to_year (y - 1))
     in (y, m, d))"

section \<open>Broken-down time\<close>

record tm =
  tm_year :: int
  tm_mon :: int
  tm_mday :: int
  tm_hour :: int
  tm_min :: int
  tm_sec :: int
  tm_yday :: int

record zone =
  utc_offset :: "int \<Rightarrow> int"
  resolve :: "int \<Rightarrow> int \<Rightarrow> int"

definition local_seconds :: "tm \<Rightarrow> int" where
  "local_seconds t = 86400 * (day_number (tm_year t + 1900 + tm_mon t div 12) (tm_mon t mod 12 + 1) 1 + tm_mday t - 1)
     + 3600 * tm_hour t + 60 * tm_min t + tm_sec t"

definition broken_down :: "int \<Rightarrow> tm" where
  "broken_down l = (let n = l div 86400; s = l mod 86400; (y, m, d) = civil n
     in \<lparr>tm_year = y - 1900, tm_mon = m - 1, tm_mday = d, tm_hour = s div 3600, tm_min = s mod 3600 div 60,
         tm_sec = s mod 60, tm_yday = n - day_number y 1 1\<rparr>)"

text \<open>\<open>isdst\<close> is the field \<^verbatim>\<open>tm_isdst\<close>: -1 leaves it to the implementation whether summer time is in force.\<close>

definition mktime :: "zone \<Rightarrow> int \<Rightarrow> tm \<Rightarrow> int" where
  "mktime z isdst t = resolve z isdst (local_seconds t)"

definition gmtime :: "int \<Rightarrow> tm option" where
  "gmtime t = (let b = broken_down t in if - (2 ^ 31) \<le> tm_year b \<and> tm_year b < 2 ^ 31 then Some b else None)"

definition localtime :: "zone \<Rightarrow> int \<Rightarrow> tm option" where
  "localtime z t = gmtime (t + utc_offset z t)"

text \<open>
  What is known of \<^verbatim>\<open>mktime\<close>: it gives an instant with the given local time if there is one, and an
  instant that is off by at most an hour if the local time is skipped. Offsets are whole minutes and
  differ by at most two hours over the years.
\<close>

definition zone_ok :: "zone \<Rightarrow> bool" where
  "zone_ok z \<longleftrightarrow> (\<forall>l. \<bar>resolve z (- 1) l + utc_offset z (resolve z (- 1) l) - l\<bar> \<le> 3600)
     \<and> (\<forall>l. (\<exists>t. t + utc_offset z t = l) \<longrightarrow> resolve z (- 1) l + utc_offset z (resolve z (- 1) l) = l)
     \<and> (\<forall>l. 60 dvd resolve z (- 1) l - l)
     \<and> (\<forall>s t. \<bar>utc_offset z s - utc_offset z t\<bar> \<le> 7200)"

text \<open>Clocks are not changed in the second after midnight of any day.\<close>

definition midnights :: "zone \<Rightarrow> bool" where
  "midnights z \<longleftrightarrow> (\<forall>n. \<exists>t. t + utc_offset z t = 86400 * n + 1)"

definition beijing :: zone where
  "beijing = \<lparr>utc_offset = \<lambda>t. 28800, resolve = \<lambda>isdst l. l - 28800\<rparr>"

lemma beijing_ok: "zone_ok beijing" "midnights beijing"
  by (simp_all add: zone_ok_def midnights_def beijing_def) presburger

section \<open>Lemmas: the calendar\<close>

lemma div_bounds: "0 < k \<Longrightarrow> k * (y div k) \<le> y" "0 < k \<Longrightarrow> y < k * (y div k) + k" for y k :: int
proof -
  assume "0 < k"
  then have "y = k * (y div k) + y mod k" "0 \<le> y mod k" "y mod k < k" by simp_all
  then show "k * (y div k) \<le> y" "y < k * (y div k) + k" by linarith+
qed

lemma div_step:
  fixes y k :: int
  assumes "0 < k"
  shows "(y + 1) div k = y div k + (if k dvd y + 1 then 1 else 0)"
proof (cases "k dvd y + 1")
  case True
  then obtain q where q: "y + 1 = k * q" ..
  then have "y = k * (q - 1) + (k - 1)" by (simp add: algebra_simps)
  then have "y div k = q - 1" using assms by (intro int_div_pos_eq[where r = "k - 1"]) simp_all
  moreover have "(y + 1) div k = q" using q assms by simp
  ultimately show ?thesis using True by simp
next
  case False
  define q r where "q = (y + 1) div k" and "r = (y + 1) mod k"
  have "y + 1 = k * q + r" "0 \<le> r" "r < k" "r \<noteq> 0"
    using assms False by (simp_all add: q_def r_def dvd_eq_mod_eq_0)
  then have "y div k = q" using assms by (intro int_div_pos_eq[where r = "r - 1"]) linarith+
  with False show ?thesis by (simp add: q_def)
qed

lemma leap_sum:
  "(c \<Longrightarrow> b) \<Longrightarrow> (b \<Longrightarrow> a) \<Longrightarrow>
    365 + (if a then 1 else 0) - (if b then 1 else 0) + (if c then 1 else 0) = (if a \<and> \<not> b \<or> c then 366 else 365 :: int)"
  by auto

lemma days_to_year_step: "days_to_year (y + 1) = days_to_year y + (if leap (y + 1) then 366 else 365)"
proof -
  have i: "400 dvd y + 1 \<Longrightarrow> 100 dvd y + 1" "100 dvd y + 1 \<Longrightarrow> 4 dvd y + 1"
    using dvd_trans[of 100 400 "y + 1"] dvd_trans[of 4 100 "y + 1"] by simp_all
  have l: "leap (y + 1) \<longleftrightarrow> 4 dvd y + 1 \<and> \<not> 100 dvd y + 1 \<or> 400 dvd y + 1"
    by (simp only: leap_def dvd_eq_mod_eq_0)
  have "days_to_year (y + 1) - days_to_year y
      = 365 + (if 4 dvd y + 1 then 1 else 0) - (if 100 dvd y + 1 then 1 else 0) + (if 400 dvd y + 1 then 1 else 0)"
    unfolding days_to_year_def by (simp only: div_step[of 4] div_step[of 100] div_step[of 400] zero_less_numeral) simp
  then have "days_to_year (y + 1) - days_to_year y = (if leap (y + 1) then 366 else 365)"
    unfolding l using i by (simp only: leap_sum)
  then show ?thesis by simp
qed

lemma days_to_year_mono: "x \<le> y \<Longrightarrow> days_to_year x \<le> days_to_year y"
proof (induction y rule: int_ge_induct[of x])
  case (step y)
  then show ?case using days_to_year_step[of y] by (simp split: if_splits)
qed simp_all

lemma days_to_year_less: "x < y \<Longrightarrow> days_to_year x + 365 \<le> days_to_year y"
  using days_to_year_mono[of "x + 1" y] days_to_year_step[of x] by (simp split: if_splits)

lemma days_to_year_bounds: "146097 * y - 699 \<le> 400 * days_to_year y" "400 * days_to_year y \<le> 146097 * y + 396"
proof -
  note b = div_bounds[of 4 y] div_bounds[of 100 y] div_bounds[of 400 y]
  show "146097 * y - 699 \<le> 400 * days_to_year y" "400 * days_to_year y \<le> 146097 * y + 396"
    unfolding days_to_year_def using b by simp_all
qed

lemma year_of_bounds: "days_to_year (year_of n - 1) \<le> n" "n < days_to_year (year_of n)"
proof -
  define y where "y = 400 * n div 146097"
  have e: "146097 * y \<le> 400 * n" "400 * n < 146097 * (y + 1)" unfolding y_def using div_bounds[of 146097 "400 * n"] by simp_all
  have "400 * days_to_year (y - 1) \<le> 400 * n" "400 * n < 400 * days_to_year (y + 2)"
    using days_to_year_bounds(2)[of "y - 1"] days_to_year_bounds(1)[of "y + 2"] e by simp_all
  then have "days_to_year (y - 1) \<le> n" "n < days_to_year (y + 2)" by simp_all
  then show "days_to_year (year_of n - 1) \<le> n" "n < days_to_year (year_of n)"
    unfolding year_of_def y_def[symmetric] Let_def by (auto simp: add.commute)
qed

lemma year_of_unique:
  assumes "days_to_year (y - 1) \<le> n" and "n < days_to_year y"
  shows "year_of n = y"
proof (rule ccontr)
  assume "year_of n \<noteq> y"
  then consider "year_of n \<le> y - 1" | "y \<le> year_of n - 1" by linarith
  then show False
  proof cases
    case 1
    from days_to_year_mono[OF 1] assms(1) year_of_bounds(2)[of n] show False by simp
  next
    case 2
    from days_to_year_mono[OF 2] assms(2) year_of_bounds(1)[of n] show False by simp
  qed
qed

lemma length_month_lengths [simp]: "length (month_lengths l) = 12"
  by (simp add: month_lengths_def)

lemma month_of_sum:
  "i < length ks \<Longrightarrow> 0 \<le> r \<Longrightarrow> r < ks ! i \<Longrightarrow> \<forall>k\<in>set ks. 0 < k \<Longrightarrow>
    month_of ks m (sum_list (take i ks) + r) = (m + int i, r + 1)"
proof (induction ks arbitrary: i m)
  case (Cons k ks)
  show ?case
  proof (cases i)
    case 0
    with Cons.prems show ?thesis by simp
  next
    case (Suc j)
    have "0 \<le> sum_list (take j ks)"
      using Cons.prems(4) by (intro sum_list_nonneg) (meson in_set_takeD less_imp_le list.set_intros(2))
    with Cons.prems Suc Cons.IH[of j "m + 1"] show ?thesis by (simp add: algebra_simps)
  qed
qed simp

lemma month_of_exists:
  "0 \<le> (n :: int) \<Longrightarrow> n < sum_list ks \<Longrightarrow> \<forall>k\<in>set ks. 0 < k \<Longrightarrow> \<exists>i < length ks. \<exists>r. 0 \<le> r \<and> r < ks ! i \<and> n = sum_list (take i ks) + r"
proof (induction ks arbitrary: n)
  case (Cons k ks)
  show ?case
  proof (cases "n < k")
    case True
    with Cons.prems show ?thesis by (intro exI[of _ 0]) simp
  next
    case False
    then obtain i r where "i < length ks" "0 \<le> r" "r < ks ! i" "n - k = sum_list (take i ks) + r"
      using Cons.IH[of "n - k"] Cons.prems by auto
    then show ?thesis by (intro exI[of _ "Suc i"]) (auto simp: algebra_simps)
  qed
qed simp

lemma month_lengths_pos: "\<forall>k\<in>set (month_lengths l). 0 < k"
  by (simp add: month_lengths_def)

lemma month_lengths_sum: "sum_list (month_lengths l) = (if l then 366 else 365)"
  by (simp add: month_lengths_def)

lemma days_to_month_less: "i < 12 \<Longrightarrow> days_to_month l i + month_lengths l ! i \<le> sum_list (month_lengths l)"
proof -
  assume "i < 12"
  then have "month_lengths l = take i (month_lengths l) @ month_lengths l ! i # drop (Suc i) (month_lengths l)"
    by (simp add: id_take_nth_drop)
  then have "sum_list (month_lengths l) = days_to_month l i + month_lengths l ! i + sum_list (drop (Suc i) (month_lengths l))"
    unfolding days_to_month_def by (metis add.assoc sum_list.Cons sum_list.append)
  moreover have "0 \<le> sum_list (drop (Suc i) (month_lengths l))"
    using month_lengths_pos by (intro sum_list_nonneg) (meson in_set_dropD less_imp_le)
  ultimately show ?thesis by simp
qed

lemma days_to_month_nonneg: "0 \<le> days_to_month l i"
  unfolding days_to_month_def using month_lengths_pos by (intro sum_list_nonneg) (meson in_set_takeD less_imp_le)

lemma year_length: "days_to_year y = days_to_year (y - 1) + sum_list (month_lengths (leap y))"
  using days_to_year_step[of "y - 1"] by (simp add: month_lengths_sum)

text \<open>Every valid date has its day, and every day its date.\<close>

lemma civil_day_number:
  assumes "valid_date y m d"
  shows "civil (day_number y m d) = (y, m, d)"
proof -
  define i where "i = nat (m - 1)"
  define n where "n = days_to_year (y - 1) + days_to_month (leap y) i + (d - 1)"
  have i: "i < 12" "m = 1 + int i" and d: "1 \<le> d" "d \<le> month_lengths (leap y) ! i"
    using assms by (auto simp: valid_date_def month_days_def i_def)
  have "days_to_year (y - 1) \<le> n" "n < days_to_year y"
    using d days_to_month_nonneg[of "leap y" i] days_to_month_less[OF i(1), of "leap y"] year_length[of y]
    by (simp_all add: n_def)
  then have y: "year_of n = y" by (rule year_of_unique)
  have "month_of (month_lengths (leap y)) 1 (days_to_month (leap y) i + (d - 1)) = (1 + int i, d - 1 + 1)"
    unfolding days_to_month_def using i d month_lengths_pos by (intro month_of_sum) simp_all
  then have "month_of (month_lengths (leap y)) 1 (n - days_to_year (y - 1)) = (m, d)"
    by (simp add: n_def i(2))
  moreover have "day_number y m d + 719162 = n" by (simp add: day_number_def n_def i_def)
  ultimately show ?thesis unfolding civil_def Let_def by (simp add: y)
qed

lemma day_number_civil:
  obtains y m d where "valid_date y m d" and "day_number y m d = n" and "civil n = (y, m, d)"
proof -
  define k where "k = n + 719162"
  define y where "y = year_of k"
  define r where "r = k - days_to_year (y - 1)"
  have "0 \<le> r" "r < sum_list (month_lengths (leap y))"
    using year_of_bounds[of k] year_length[of y] by (simp_all add: r_def y_def)
  then obtain i s where s: "i < 12" "0 \<le> s" "s < month_lengths (leap y) ! i" "r = days_to_month (leap y) i + s"
    unfolding days_to_month_def using month_of_exists[OF _ _ month_lengths_pos] by (metis length_month_lengths)
  have "valid_date y (1 + int i) (s + 1)" "day_number y (1 + int i) (s + 1) = n"
    using s by (simp_all add: valid_date_def month_days_def day_number_def r_def k_def)
  with civil_day_number[OF this(1)] that show thesis by metis
qed

lemma day_number_inject:
  "valid_date y m d \<Longrightarrow> valid_date y' m' d' \<Longrightarrow> day_number y m d = day_number y' m' d' \<longleftrightarrow> (y, m, d) = (y', m', d')"
proof
  assume "valid_date y m d" "valid_date y' m' d'" "day_number y m d = day_number y' m' d'"
  then show "(y, m, d) = (y', m', d')" by (metis civil_day_number)
qed simp

end
