(* ===== verification/C_Double.thy ===== *)
theory C_Double
  imports C_Float Complex_Main
begin

text \<open>
  Arithmetic on \<^verbatim>\<open>double\<close> as rational numbers: every operation is the exact result rounded to 53
  significant bits, to nearest, ties to even. The values in use lie far from the ends of the
  exponent range, so overflow and denormal numbers do not occur.
\<close>

text \<open>The exponent of the leading bit of a positive number\<close>

definition ilog2 :: "rat \<Rightarrow> int" where
  "ilog2 x = (let (n, d) = quotient_of x; k = int (bitlen (nat n)) - int (bitlen (nat d))
     in if 2 powi k \<le> x then k else k - 1)"

definition round_even :: "rat \<Rightarrow> int" where
  "round_even x = (let f = \<lfloor>x\<rfloor>; r = x - of_int f
     in if r < 1 / 2 then f else if 1 / 2 < r then f + 1 else if even f then f else f + 1)"

definition rnd64 :: "rat \<Rightarrow> rat" where
  "rnd64 x = (if x = 0 then 0 else let e = ilog2 \<bar>x\<bar> - 52 in of_int (round_even (x / 2 powi e)) * 2 powi e)"

text \<open>Conversion to an integer type, towards zero\<close>

definition trunc_rat :: "rat \<Rightarrow> int" where
  "trunc_rat x = (if 0 \<le> x then \<lfloor>x\<rfloor> else \<lceil>x\<rceil>)"

lemma round_even_error: "\<bar>of_int (round_even x) - x\<bar> \<le> 1 / 2"
proof -
  have "of_int \<lfloor>x\<rfloor> \<le> x" "x < of_int \<lfloor>x\<rfloor> + 1" by linarith+
  then show ?thesis unfolding round_even_def Let_def by (simp add: abs_if) linarith
qed

lemma round_even_int [simp]: "round_even (of_int i) = i"
  by (simp add: round_even_def)

lemma bitlen_bounds: "0 < n \<Longrightarrow> 2 ^ bitlen n \<le> 2 * n \<and> n < 2 ^ bitlen n"
proof (induction n rule: bitlen.induct)
  case (1 n)
  show ?case
  proof (cases "n = 1")
    case True
    then show ?thesis by (simp add: bitlen.simps)
  next
    case False
    with 1 have "2 ^ bitlen (n div 2) \<le> 2 * (n div 2)" "n div 2 < 2 ^ bitlen (n div 2)" by simp_all
    moreover have "bitlen n = Suc (bitlen (n div 2))" using 1 by (subst bitlen.simps) simp
    ultimately show ?thesis by simp presburger
  qed
qed

lemma ilog2_le:
  assumes "0 < x"
  shows "2 powi ilog2 x \<le> x"
proof -
  obtain n d where q: "quotient_of x = (n, d)" by (cases "quotient_of x") auto
  have d: "0 < d" and x: "x = of_int n / of_int d"
    using quotient_of_denom_pos[OF q] quotient_of_div[OF q] by simp_all
  then have n: "0 < n" using assms by (simp add: zero_less_divide_iff)
  let ?a = "bitlen (nat n)" and ?b = "bitlen (nat d)"
  have "2 ^ ?a \<le> 2 * nat n" "nat d < 2 ^ ?b" using bitlen_bounds[of "nat n"] bitlen_bounds[of "nat d"] n d by auto
  then have "(2 :: rat) ^ ?a \<le> 2 * of_int n" "of_int d < (2 :: rat) ^ ?b"
    using n d by (smt (verit) int_nat_eq of_int_less_iff of_int_le_iff of_int_mult of_int_numeral of_int_power of_nat_le_iff of_nat_less_iff of_nat_mult of_nat_numeral of_nat_power)+
  then have "(2 :: rat) ^ ?a * of_int d \<le> 2 * of_int n * 2 ^ ?b" using d n by (intro mult_mono) simp_all
  then have "2 powi (int ?a - int ?b - 1) \<le> x"
    using d by (simp add: x power_int_diff power_int_add field_simps)
  then show ?thesis by (simp add: ilog2_def q Let_def)
qed

lemma rnd64_error: "\<bar>rnd64 x - x\<bar> \<le> \<bar>x\<bar> / 2 ^ 53"
proof (cases "x = 0")
  case False
  define e where "e = ilog2 \<bar>x\<bar> - 52"
  have p: "0 < (2 :: rat) powi e" by simp
  have "rnd64 x - x = (of_int (round_even (x / 2 powi e)) - x / 2 powi e) * 2 powi e"
    using False by (simp add: rnd64_def e_def Let_def algebra_simps)
  then have "\<bar>rnd64 x - x\<bar> = \<bar>of_int (round_even (x / 2 powi e)) - x / 2 powi e\<bar> * 2 powi e"
    by (simp add: abs_mult)
  also have "\<dots> \<le> 1 / 2 * 2 powi e"
    using round_even_error p by (intro mult_right_mono) simp_all
  also have "\<dots> = 2 powi ilog2 \<bar>x\<bar> / 2 ^ 53"
    by (simp add: e_def power_int_diff)
  also have "\<dots> \<le> \<bar>x\<bar> / 2 ^ 53"
    using ilog2_le[of "\<bar>x\<bar>"] False by (simp add: divide_right_mono)
  finally show ?thesis .
qed (simp add: rnd64_def)

lemma rnd64_int:
  assumes "\<bar>i\<bar> < 2 ^ 53"
  shows "rnd64 (of_int i) = of_int i"
proof (cases "i = 0")
  case False
  let ?L = "ilog2 \<bar>of_int i\<bar>"
  have "(2 :: rat) powi ?L \<le> \<bar>of_int i\<bar>" using ilog2_le[of "\<bar>of_int i\<bar>"] False by simp
  also have "\<dots> < 2 powi 53" using assms by (simp flip: of_int_abs)
  finally have "(2 :: rat) powi ?L < 2 powi 53" .
  then have "?L < 53" using power_int_increasing[of 53 ?L "2 :: rat"] by (meson leD le_less_linear one_le_numeral)
  then have "?L - 52 = - int (nat (52 - ?L))" by simp
  then obtain k :: nat where k: "?L - 52 = - int k" ..
  have "(of_int i :: rat) / 2 powi (- int k) = of_int (i * 2 ^ k)" by (simp add: power_int_minus divide_inverse)
  then show ?thesis using False unfolding rnd64_def k Let_def by (simp only: round_even_int) (simp add: power_int_minus)
qed (simp add: rnd64_def)

end
