(* ===== verification/C_Print.thy ===== *)
theory C_Print
  imports C_Buffer
begin

text \<open>
  Decimal numbers of fixed width: what \<^verbatim>\<open>sprintf\<close> writes for \<^verbatim>\<open>%0wd\<close>, and that \<^verbatim>\<open>atoi\<close> and \<^verbatim>\<open>atol\<close> read it back.
\<close>

text \<open>\<^verbatim>\<open>%0wd\<close>\<close>

definition print0 :: "nat \<Rightarrow> int \<Rightarrow> string" where
  "print0 w i = (let sign = (if i < 0 then ''-'' else ''''); s = dec_nat (nat \<bar>i\<bar>)
     in sign @ replicate (w - length sign - length s) (CHR ''0'') @ s)"

definition buf_sprintf :: "buffer \<Rightarrow> string \<Rightarrow> buffer option" where
  "buf_sprintf b s = (if length s < length b then Some (s @ NUL # drop (Suc (length s)) b) else None)"

section \<open>Fixed width decimal numbers\<close>

lemma length_dec_nat: "n < 10 ^ w \<Longrightarrow> 0 < w \<Longrightarrow> length (dec_nat n) \<le> w"
proof (induction w arbitrary: n)
  case (Suc w)
  show ?case
  proof (cases "n < 10")
    case True
    then show ?thesis by (simp add: dec_nat.simps[of n])
  next
    case False
    with Suc.prems have "n div 10 < 10 ^ w" by (simp add: div_less_iff_less_mult mult.commute)
    moreover from this False have "0 < w" by (cases w) auto
    ultimately show ?thesis using Suc.IH[of "n div 10"] False by (simp add: dec_nat.simps[of n])
  qed
qed simp

lemma digits_value_zeros [simp]: "digits_value 0 (replicate k CHR ''0'' @ s) = digits_value 0 s"
  by (induction k) (simp_all add: is_digit_def)

lemma print0_nonneg:
  assumes "0 \<le> i" and "i < 10 ^ w" and "0 < w"
  shows "length (print0 w i) = w" "\<forall>c\<in>set (print0 w i). is_digit c" "digits_value 0 (print0 w i) = i"
proof -
  have "nat i < 10 ^ w" using assms by (simp add: nat_less_iff)
  then have "length (dec_nat (nat i)) \<le> w" using length_dec_nat assms(3) by blast
  then show "length (print0 w i) = w" using assms(1) by (simp add: print0_def Let_def)
  show "\<forall>c\<in>set (print0 w i). is_digit c" "digits_value 0 (print0 w i) = i"
    using assms(1) dec_nat_digits digits_value_dec_nat[of "nat i"]
    by (auto simp: print0_def Let_def is_digit_def[of "CHR ''0''"])
qed

lemma strtol10_digits:
  assumes "\<forall>c\<in>set s. is_digit c" and "s \<noteq> []" and "digits_value 0 s < 2 ^ 31" and "0 \<le> digits_value 0 s"
  shows "strtol10 (s @ NUL # r) = digits_value 0 s"
proof -
  obtain c cs where s: "s = c # cs" using assms(2) by (cases s) auto
  then have c: "is_digit c" using assms(1) by simp
  have "cstr (s @ NUL # r) = s" using assms(1) by (subst cstr_append_NUL) (metis cstr_idem is_digit_not(1))
  moreover have "dropWhile is_space s = s" using c by (simp add: s)
  ultimately show ?thesis
    using c assms(3,4) unfolding strtol10_def Let_def by (simp add: s)
qed

lemma ato_print0:
  assumes "0 \<le> i" and "i < 10 ^ w" and "0 < w" and "w \<le> 9"
  shows "atoi (print0 w i @ NUL # r) = i" "atol (print0 w i @ NUL # r) = i"
proof -
  have "i < 2 ^ 31" using assms(2) power_increasing[OF assms(4), of "10 :: int"] by simp
  moreover from this have "strtol10 (print0 w i @ NUL # r) = i"
    using print0_nonneg[OF assms(1-3)] assms(1,3) by (subst strtol10_digits) auto
  ultimately show "atoi (print0 w i @ NUL # r) = i" "atol (print0 w i @ NUL # r) = i"
    using assms(1) by (simp_all add: atoi_def atol_def)
qed

lemma cstr_print0: "0 \<le> i \<Longrightarrow> i < 10 ^ w \<Longrightarrow> 0 < w \<Longrightarrow> cstr (print0 w i @ NUL # r) = print0 w i"
  using print0_nonneg(2)[of i w] by (subst cstr_append_NUL) (metis cstr_idem is_digit_not(1))

lemma print0_no_NUL: "0 \<le> i \<Longrightarrow> i < 10 ^ w \<Longrightarrow> 0 < w \<Longrightarrow> NUL \<notin> set (print0 w i)"
  using print0_nonneg(2)[of i w] by (metis is_digit_not(1))

lemma sprintf_field:
  "0 \<le> i \<Longrightarrow> i < 10 ^ w \<Longrightarrow> 0 < w \<Longrightarrow> length b = Suc w \<Longrightarrow> buf_sprintf b (print0 w i) = Some (print0 w i @ [NUL])"
  using print0_nonneg(1)[of i w] by (simp add: buf_sprintf_def)

end
