(* ===== verification/Bas_String.thy ===== *)
theory Bas_String
  imports C_Print
begin

text \<open>
  Strings of the base library, \<^verbatim>\<open>Excellent_Code/Lib_bas/bas_string.c\<close>: classification, trimming, case, comparison, search,
  copies of bounded length, padding, patterns, escapes and substitution.

  A pointer argument is the list of the bytes from it to the end of its object; a function that changes the bytes returns
  them. \<open>None\<close> is undefined behaviour or a loop that does not end. Lengths are natural numbers. Double-byte characters start with a
  byte from 0x81 on.
\<close>

section \<open>Classification\<close>

text \<open>The loop over the first \<open>n\<close> bytes that ends at the first one that fails a test\<close>

fun all_loop :: "(char \<Rightarrow> bool) \<Rightarrow> buffer \<Rightarrow> nat \<Rightarrow> bool option" where
  "all_loop P b 0 = Some True"
| "all_loop P [] (Suc n) = None"
| "all_loop P (c # b) (Suc n) = (if P c then all_loop P b n else Some False)"

definition basIsNumeric :: "buffer \<Rightarrow> bool option" where
  "basIsNumeric psBuf = do { n \<leftarrow> buf_strlen psBuf; all_loop (\<lambda>c. \<not> (schar c < 48 \<or> 57 < schar c)) psBuf n }"

definition basIsAlphabet :: "buffer \<Rightarrow> bool option" where
  "basIsAlphabet psBuf = do {
     n \<leftarrow> buf_strlen psBuf;
     all_loop (\<lambda>c. \<not> (schar c < 65 \<or> 90 < schar c \<and> schar c < 97 \<or> 122 < schar c)) psBuf n }"

definition basIsSpace :: "buffer \<Rightarrow> nat \<Rightarrow> bool option" where
  "basIsSpace pcaBuf iLen = do {
     n \<leftarrow> buf_strlen pcaBuf;
     Some (n = 0 \<or> (\<forall>c \<in> set (take (min n iLen) pcaBuf). c = CHR '' '')) }"

definition basIsSpaceOrY :: "buffer \<Rightarrow> nat \<Rightarrow> bool option" where
  "basIsSpaceOrY pcaBuf iLen = do {
     n \<leftarrow> buf_strlen pcaBuf;
     Some (n = 0 \<or> (\<forall>c \<in> set (take (min n iLen) pcaBuf). c = CHR '' '' \<or> c = CHR ''Y'')) }"

definition basIsZero :: "buffer \<Rightarrow> nat \<Rightarrow> bool option" where
  "basIsZero pcaBuf iLen = all_loop (\<lambda>c. c = CHR ''0'') pcaBuf iLen"

definition basIsNull :: "buffer \<Rightarrow> nat \<Rightarrow> bool option" where
  "basIsNull pcaBuf iLen = do { blank \<leftarrow> basIsSpace pcaBuf iLen; if blank then Some True else basIsZero pcaBuf iLen }"

section \<open>Trimming\<close>

fun rtrim_loop :: "buffer \<Rightarrow> nat \<Rightarrow> buffer option" where
  "rtrim_loop b 0 = Some b"
| "rtrim_loop b (Suc i) =
     (if length b \<le> i then None
      else if b ! i = CHR '' '' then rtrim_loop (b[i := NUL]) i else Some b)"

text \<open>The number of bytes that the trimming functions look at\<close>

definition trim_length :: "nat \<Rightarrow> nat \<Rightarrow> nat" where
  "trim_length n iMaxLen = (if n \<le> iMaxLen \<and> 0 < n then n else iMaxLen)"

definition basRTrim :: "buffer \<Rightarrow> nat \<Rightarrow> buffer option" where
  "basRTrim pcaBuf iMaxLen = do { n \<leftarrow> buf_strlen pcaBuf; rtrim_loop pcaBuf (trim_length n iMaxLen) }"

text \<open>The loop of \<^verbatim>\<open>basLTrim\<close>, which looks at the byte behind the last before it looks at the length\<close>

function ltrim_loop :: "nat \<Rightarrow> bool \<Rightarrow> nat \<Rightarrow> nat \<Rightarrow> buffer \<Rightarrow> (nat \<times> buffer) option" where
  "ltrim_loop iMaxLen iFlag i j b =
     (if length b \<le> j then None
      else if b ! j = NUL \<or> iMaxLen \<le> j then Some (i, b)
      else let b = (if iFlag then b[i := NUL] else b) in
           if b ! j = CHR '' '' \<and> \<not> iFlag then ltrim_loop iMaxLen False i (Suc j) b
           else ltrim_loop iMaxLen True (Suc i) (Suc j) (b[i := b ! j]))"
  by pat_completeness auto
termination by (relation "measure (\<lambda>(iMaxLen, _, _, j, _). iMaxLen - j)") auto

declare ltrim_loop.simps [simp del]

definition basLTrim :: "buffer \<Rightarrow> nat \<Rightarrow> buffer option" where
  "basLTrim pcaBuf iMaxLen = do {
     c \<leftarrow> buf_load pcaBuf 0;
     if c \<noteq> CHR '' '' then Some pcaBuf
     else do { (i, b) \<leftarrow> ltrim_loop iMaxLen False 0 0 pcaBuf; buf_store b i NUL } }"

text \<open>The loops that move the bytes that are kept to the front, and fill what is left\<close>

definition fill_loop :: "char \<Rightarrow> nat \<Rightarrow> nat \<Rightarrow> buffer \<Rightarrow> buffer option" where
  "fill_loop c j n b = foldM (\<lambda>i b. buf_store b i c) [j..<n] b"

definition keep_loop :: "(char \<Rightarrow> bool) \<Rightarrow> nat \<Rightarrow> buffer \<Rightarrow> (nat \<times> buffer) option" where
  "keep_loop P n b = foldM (\<lambda>i (j, b). do {
     c \<leftarrow> buf_load b i;
     if P c then do { b \<leftarrow> buf_store b j c; Some (Suc j, b) } else Some (j, b) }) [0..<n] (0, b)"

definition basRemoveSpace :: "buffer \<Rightarrow> nat \<Rightarrow> buffer option" where
  "basRemoveSpace pcaBuf iMaxLen = do {
     n \<leftarrow> buf_strlen pcaBuf;
     let iMaxLen = trim_length n iMaxLen;
     (j, b) \<leftarrow> keep_loop (\<lambda>c. c \<noteq> CHR '' '') iMaxLen pcaBuf;
     fill_loop NUL j iMaxLen b }"

definition basRemove0D0A :: "buffer \<Rightarrow> nat \<Rightarrow> buffer option" where
  "basRemove0D0A pcaBuf iMaxLen = do {
     n \<leftarrow> buf_strlen pcaBuf;
     let iMaxLen = trim_length n iMaxLen;
     (j, b) \<leftarrow> keep_loop (\<lambda>c. \<not> (c = CHR 0x0D \<or> c = CHR 0x0A)) iMaxLen pcaBuf;
     fill_loop (CHR '' '') j iMaxLen b }"

definition basInitSpaces :: "buffer \<Rightarrow> nat \<Rightarrow> buffer option" where
  "basInitSpaces pcaBuf iLen = fill_loop (CHR '' '') 0 iLen pcaBuf"

definition basInitZeros :: "buffer \<Rightarrow> nat \<Rightarrow> buffer option" where
  "basInitZeros pcaBuf iLen = fill_loop (CHR ''0'') 0 iLen pcaBuf"

text \<open>As \<open>rtrim_loop\<close>, but the first byte is left alone\<close>

fun rtrim_left_one :: "buffer \<Rightarrow> nat \<Rightarrow> buffer option" where
  "rtrim_left_one b 0 = Some b"
| "rtrim_left_one b (Suc 0) = Some b"
| "rtrim_left_one b (Suc i) =
     (if length b \<le> i then None
      else if b ! i = CHR '' '' then rtrim_left_one (b[i := NUL]) i else Some b)"

definition basRTrimLeftOne :: "buffer \<Rightarrow> nat \<Rightarrow> buffer option" where
  "basRTrimLeftOne pcaBuf iMaxLen =
     (if iMaxLen < 1 then Some pcaBuf
      else do {
        n \<leftarrow> buf_strlen pcaBuf;
        let m = (if n \<le> iMaxLen then n else iMaxLen);
        if m = 0 then do { b \<leftarrow> buf_zero pcaBuf iMaxLen; buf_store b 0 (CHR '' '') }
        else rtrim_left_one pcaBuf m })"

text \<open>The loop of \<^verbatim>\<open>basRTrimChar\<close> over the indices below \<open>n\<close>, from the last one\<close>

fun rtrim_char_loop :: "char \<Rightarrow> buffer \<Rightarrow> nat \<Rightarrow> buffer" where
  "rtrim_char_loop c b 0 = b"
| "rtrim_char_loop c b (Suc i) = (if b ! i = c then b[i := NUL] else rtrim_char_loop c b i)"

definition basRTrimChar :: "buffer \<Rightarrow> char \<Rightarrow> buffer option" where
  "basRTrimChar pcaBuf cStr = do { n \<leftarrow> buf_strlen pcaBuf; Some (rtrim_char_loop cStr pcaBuf (Suc n)) }"

section \<open>Upper and lower case\<close>

text \<open>\<^verbatim>\<open>toupper\<close> and \<^verbatim>\<open>tolower\<close> of the C locale\<close>

definition toupper :: "char \<Rightarrow> char" where
  "toupper c = (if 97 \<le> (of_char c :: nat) \<and> of_char c \<le> (122 :: nat) then char_of (of_char c - 32 :: nat) else c)"

definition tolower :: "char \<Rightarrow> char" where
  "tolower c = (if 65 \<le> (of_char c :: nat) \<and> of_char c \<le> (90 :: nat) then char_of (of_char c + 32 :: nat) else c)"

definition lead_byte :: "char \<Rightarrow> bool" where
  "lead_byte c \<longleftrightarrow> 0x81 \<le> (of_char c :: nat) \<and> of_char c \<le> (0xfe :: nat)"

function case_loop :: "(char \<Rightarrow> char) \<Rightarrow> nat \<Rightarrow> nat \<Rightarrow> buffer \<Rightarrow> buffer option" where
  "case_loop f iLen i b =
     (if iLen \<le> i then Some b
      else if length b \<le> i then None
      else if lead_byte (b ! i) then case_loop f iLen (Suc (Suc i)) b
      else case_loop f iLen (Suc i) (b[i := f (b ! i)]))"
  by pat_completeness auto
termination by (relation "measure (\<lambda>(f, iLen, i, b). iLen - i)") auto

declare case_loop.simps [simp del]

definition basToUpper :: "buffer \<Rightarrow> nat \<Rightarrow> buffer option" where
  "basToUpper pcaBuf iLen = case_loop toupper iLen 0 pcaBuf"

definition basToLower :: "buffer \<Rightarrow> nat \<Rightarrow> buffer option" where
  "basToLower pcaBuf iLen = case_loop tolower iLen 0 pcaBuf"

section \<open>Counting up, comparing, searching\<close>

text \<open>The carry loop of \<^verbatim>\<open>basAddString\<close>, and whether it was left before the first place was passed\<close>

fun add_loop :: "buffer \<Rightarrow> nat \<Rightarrow> (bool \<times> buffer) option" where
  "add_loop b 0 = Some (False, b)"
| "add_loop b (Suc i) =
     (if length b \<le> i then None
      else if schar (b ! i) < 57 then Some (True, b[i := char_of (of_char (b ! i) + 1 :: nat)])
      else add_loop (b[i := CHR ''0'']) i)"

definition basAddString :: "buffer \<Rightarrow> nat \<Rightarrow> buffer option" where
  "basAddString pcaBuf iLen = do {
     (done, b) \<leftarrow> add_loop pcaBuf iLen;
     if done then Some b else fill_loop (CHR ''0'') 0 iLen b }"

text \<open>\<^verbatim>\<open>basMemcmp\<close> from place \<open>i\<close> on, for \<open>n\<close> places; a flag is set behind the end of a string.\<close>

fun memcmp_loop :: "buffer \<Rightarrow> buffer \<Rightarrow> bool \<Rightarrow> bool \<Rightarrow> nat \<Rightarrow> nat \<Rightarrow> int option" where
  "memcmp_loop b1 b2 iFlag1 iFlag2 i 0 = Some 0"
| "memcmp_loop b1 b2 iFlag1 iFlag2 i (Suc n) = do {
     iFlag1 \<leftarrow> (if iFlag1 then Some True else map_option (\<lambda>c. c = NUL) (buf_load b1 i));
     iFlag2 \<leftarrow> (if iFlag2 then Some True else map_option (\<lambda>c. c = NUL) (buf_load b2 i));
     if iFlag1 \<and> iFlag2 then Some 0
     else if iFlag1 then do {
       c \<leftarrow> buf_load b2 i;
       if c \<noteq> CHR '' '' then Some (- 1) else memcmp_loop b1 b2 iFlag1 iFlag2 (Suc i) n }
     else if iFlag2 then do {
       c \<leftarrow> buf_load b1 i;
       if c \<noteq> CHR '' '' then Some 1 else memcmp_loop b1 b2 iFlag1 iFlag2 (Suc i) n }
     else do {
       c1 \<leftarrow> buf_load b1 i; c2 \<leftarrow> buf_load b2 i;
       if schar c2 < schar c1 then Some 1
       else if schar c1 < schar c2 then Some (- 1)
       else memcmp_loop b1 b2 iFlag1 iFlag2 (Suc i) n } }"

definition basMemcmp :: "buffer \<Rightarrow> buffer \<Rightarrow> nat \<Rightarrow> int option" where
  "basMemcmp pcaBuf1 pcaBuf2 iLen = memcmp_loop pcaBuf1 pcaBuf2 False False 0 iLen"

fun basCountString :: "buffer \<Rightarrow> char \<Rightarrow> nat \<Rightarrow> nat option" where
  "basCountString pcaBuf cChar 0 = Some 0"
| "basCountString [] cChar (Suc n) = None"
| "basCountString (c # b) cChar (Suc n) =
     (if c = NUL then Some 0 else map_option (\<lambda>k. if c = cChar then Suc k else k) (basCountString b cChar n))"

text \<open>\<^verbatim>\<open>memcmp(b + i, p, m) == 0\<close>\<close>

definition same_bytes :: "buffer \<Rightarrow> nat \<Rightarrow> buffer \<Rightarrow> nat \<Rightarrow> bool option" where
  "same_bytes b i p m = (if i + m \<le> length b \<and> m \<le> length p then Some (take m (drop i b) = take m p) else None)"

text \<open>The loop of \<^verbatim>\<open>basCountStr\<close>, which does not end when the pattern is empty\<close>

partial_function (option) count_str_loop :: "buffer \<Rightarrow> buffer \<Rightarrow> nat \<Rightarrow> nat \<Rightarrow> nat \<Rightarrow> nat \<Rightarrow> nat option" where
  "count_str_loop b p n1 n2 i k =
     (if n1 \<le> i then Some k
      else Option.bind (same_bytes b i p n2) (\<lambda>same.
        if same then count_str_loop b p n1 n2 (i + n2) (Suc k) else count_str_loop b p n1 n2 (Suc i) k))"

definition basCountStr :: "buffer \<Rightarrow> buffer \<Rightarrow> nat option" where
  "basCountStr pcaBuf pStr = do {
     iLen1 \<leftarrow> buf_strlen pcaBuf; iLen2 \<leftarrow> buf_strlen pStr;
     if iLen1 < iLen2 then Some 0 else count_str_loop pcaBuf pStr iLen1 iLen2 0 0 }"

text \<open>The loops of \<^verbatim>\<open>basLocateStr\<close> and \<^verbatim>\<open>basLocateSpace\<close>: \<open>n\<close> is the number of places left.\<close>

fun locate_loop :: "(nat \<Rightarrow> bool option) \<Rightarrow> nat \<Rightarrow> nat \<Rightarrow> int option" where
  "locate_loop P i 0 = Some (- 1)"
| "locate_loop P i (Suc n) = do { found \<leftarrow> P i; if found then Some (int i) else locate_loop P (Suc i) n }"

definition basLocateStr :: "buffer \<Rightarrow> buffer \<Rightarrow> int option" where
  "basLocateStr pcaBuf pStr = do {
     iLen1 \<leftarrow> buf_strlen pcaBuf; iLen2 \<leftarrow> buf_strlen pStr;
     if iLen1 < iLen2 then Some (- 1) else locate_loop (\<lambda>i. same_bytes pcaBuf i pStr iLen2) 0 iLen1 }"

definition basLocateSpace :: "buffer \<Rightarrow> int option" where
  "basLocateSpace pcaBuf = do {
     iLen1 \<leftarrow> buf_strlen pcaBuf;
     locate_loop (\<lambda>i. map_option (\<lambda>c. c = CHR '' '' \<or> c = CHR 0x09) (buf_load pcaBuf i)) 0 iLen1 }"

end
