(* ===== verification/Bas_Str_Copy.thy ===== *)
theory Bas_Str_Copy
  imports Bas_String
begin

text \<open>
  The functions of \<^verbatim>\<open>bas_string.c\<close> that write into another buffer: bounded copies, parts of strings, alignment, patterns,
  escapes and the substitution of byte sequences. Source and destination are different objects.
\<close>

section \<open>Bounded copies\<close>

text \<open>
  The first loop of \<^verbatim>\<open>basStrlcpy\<close>, \<^verbatim>\<open>while (--n != 0)\<close>: the value of \<open>n\<close> when it is left, the distance both pointers moved,
  and the destination
\<close>

fun lcpy_loop :: "buffer \<Rightarrow> nat \<Rightarrow> nat \<Rightarrow> buffer \<Rightarrow> (nat \<times> nat \<times> buffer) option" where
  "lcpy_loop src 0 i dst = None"
| "lcpy_loop src (Suc 0) i dst = Some (0, i, dst)"
| "lcpy_loop src (Suc n) i dst = do {
     c \<leftarrow> buf_load src i;
     dst \<leftarrow> buf_store dst i c;
     if c = NUL then Some (n, Suc i, dst) else lcpy_loop src n (Suc i) dst }"

definition basStrlcpy :: "buffer \<Rightarrow> buffer \<Rightarrow> nat \<Rightarrow> (nat \<times> buffer) option" where
  "basStrlcpy caDest caSrc nDestSize = do {
     (n, i, dst) \<leftarrow> (if nDestSize \<noteq> 0 then lcpy_loop caSrc nDestSize 0 caDest else Some (0, 0, caDest));
     if n = 0 then do {
       dst \<leftarrow> (if nDestSize \<noteq> 0 then buf_store dst i NUL else Some dst);
       k \<leftarrow> buf_strlen (drop i caSrc);
       Some (i + k, dst) }
     else Some (i - 1, dst) }"

text \<open>The loops of \<^verbatim>\<open>basStrlcat\<close>: the search for the end of the destination, and the copy with \<open>n\<close> bytes left\<close>

fun end_loop :: "buffer \<Rightarrow> nat \<Rightarrow> nat option" where
  "end_loop b 0 = Some 0"
| "end_loop [] (Suc n) = None"
| "end_loop (c # b) (Suc n) = (if c = NUL then Some 0 else map_option Suc (end_loop b n))"

fun lcat_loop :: "string \<Rightarrow> nat \<Rightarrow> nat \<Rightarrow> buffer \<Rightarrow> (nat \<times> buffer) option" where
  "lcat_loop [] n d dst = Some (d, dst)"
| "lcat_loop (c # s) n d dst =
     (if n \<noteq> 1 then do { dst \<leftarrow> buf_store dst d c; lcat_loop s (n - 1) (Suc d) dst } else lcat_loop s n d dst)"

definition basStrlcat :: "buffer \<Rightarrow> buffer \<Rightarrow> nat \<Rightarrow> (nat \<times> buffer) option" where
  "basStrlcat caDest caSrc nDestSize = do {
     nDestStrLen \<leftarrow> end_loop caDest nDestSize;
     k \<leftarrow> buf_strlen caSrc;
     if nDestSize - nDestStrLen = 0 then Some (nDestStrLen + k, caDest)
     else do {
       (d, dst) \<leftarrow> lcat_loop (take k caSrc) (nDestSize - nDestStrLen) nDestStrLen caDest;
       dst \<leftarrow> buf_store dst d NUL;
       Some (nDestStrLen + k, dst) } }"

definition basStrcpy :: "buffer \<Rightarrow> buffer \<Rightarrow> nat \<Rightarrow> buffer option" where
  "basStrcpy caOutDest caInSrc nDestSize =
     (if nDestSize = 0 then None
      else do {
        uiSrcLen \<leftarrow> buf_strlen caInSrc;
        dst \<leftarrow> buf_store caOutDest (nDestSize - 1) NUL;
        if nDestSize < uiSrcLen + 1 then buf_copy dst 0 caInSrc (nDestSize - 1)
        else do { dst \<leftarrow> buf_copy dst 0 caInSrc uiSrcLen; buf_store dst uiSrcLen NUL } })"

definition basFillField :: "buffer \<Rightarrow> buffer \<Rightarrow> nat \<Rightarrow> buffer option" where
  "basFillField caDest caSrc nFieldLength = do { n \<leftarrow> buf_strlen caSrc; buf_copy caDest 0 caSrc (min n nFieldLength) }"

section \<open>Parts of strings\<close>

text \<open>The loops that copy \<open>n\<close> bytes and terminate them\<close>

definition copy_n :: "buffer \<Rightarrow> buffer \<Rightarrow> nat \<Rightarrow> buffer option" where
  "copy_n dst src n = do { dst \<leftarrow> buf_copy dst 0 src n; buf_store dst n NUL }"

definition basLeftStr :: "buffer \<Rightarrow> buffer \<Rightarrow> nat \<Rightarrow> buffer option" where
  "basLeftStr dst src n = do { len \<leftarrow> buf_strlen src; copy_n dst src (if len < n then len else n) }"

definition basRightStr :: "buffer \<Rightarrow> buffer \<Rightarrow> nat \<Rightarrow> buffer option" where
  "basRightStr dst src n = do {
     len \<leftarrow> buf_strlen src;
     let n = (if len < n then len else n);
     buf_strcpy dst (drop (len - n) src) }"

text \<open>The inner \<open>None\<close> is the result \<^verbatim>\<open>NULL\<close>; a negative offset leaves the source.\<close>

definition basMidStr :: "buffer \<Rightarrow> buffer \<Rightarrow> nat \<Rightarrow> int \<Rightarrow> buffer option option" where
  "basMidStr dst src n m = do {
     len \<leftarrow> buf_strlen src;
     if 0 < m then Some None
     else if m < 0 then None
     else map_option Some (copy_n dst src (if len < n then len else n)) }"

definition basSubstr :: "buffer \<Rightarrow> buffer \<Rightarrow> nat \<Rightarrow> int \<Rightarrow> buffer option option" where
  "basSubstr dst src len start = do {
     length' \<leftarrow> buf_strlen src;
     if int length' \<le> start \<or> start < 0 then Some None
     else map_option Some (copy_n dst (drop (nat start) src) (if length' < len then length' - nat start else len)) }"

text \<open>\<^verbatim>\<open>basLFill\<close>, with its buffer of 512 bytes\<close>

definition basLFill :: "buffer \<Rightarrow> nat \<Rightarrow> char \<Rightarrow> buffer option" where
  "basLFill pcaBuf iLen cChar = do {
     iOrgLen \<leftarrow> buf_strlen pcaBuf;
     if iLen \<le> iOrgLen then Some pcaBuf
     else do {
       caBuf \<leftarrow> buf_copy (replicate 512 NUL) 0 (replicate (iLen - iOrgLen) cChar) (iLen - iOrgLen);
       caBuf \<leftarrow> buf_strcat caBuf pcaBuf;
       buf_copy pcaBuf 0 caBuf iLen } }"

text \<open>\<^verbatim>\<open>basSetAlign\<close>; \<^verbatim>\<open>%-*s\<close> and \<^verbatim>\<open>%*s\<close> pad with blanks.\<close>

definition basSetAlign :: "allocator \<Rightarrow> char \<Rightarrow> nat \<Rightarrow> buffer \<Rightarrow> buffer \<Rightarrow> (int \<times> buffer) option" where
  "basSetAlign malloc cType lFmtLength pcaSrc pcaDes = do {
     lSrcLen \<leftarrow> buf_strlen pcaSrc;
     let n = (if lFmtLength < lSrcLen then lFmtLength else lSrcLen);
     pcaTemp \<leftarrow> malloc (n + 1);
     pcaTemp \<leftarrow> buf_zero pcaTemp (n + 1);
     pcaTemp \<leftarrow> buf_copy pcaTemp 0 pcaSrc n;
     let s = cstr pcaTemp;
     let blanks = replicate (lFmtLength - length s) (CHR '' '');
     if cType = CHR ''L'' then map_option (\<lambda>b. (0, b)) (buf_sprintf pcaDes (s @ blanks))
     else if cType = CHR ''M'' then
       (if lFmtLength < lSrcLen then None
        else do {
          let lMidPos = (lFmtLength - lSrcLen) div 2;
          pcaDes \<leftarrow> fill_loop (CHR '' '') 0 lMidPos pcaDes;
          pcaDes \<leftarrow> buf_copy pcaDes lMidPos pcaTemp lSrcLen;
          pcaDes \<leftarrow> fill_loop (CHR '' '') (lMidPos + lSrcLen) lFmtLength pcaDes;
          Some (0, pcaDes) })
     else if cType = CHR ''R'' then map_option (\<lambda>b. (0, b)) (buf_sprintf pcaDes (blanks @ s))
     else Some (- 1, pcaDes) }"

text \<open>\<^verbatim>\<open>basTrimHalfChsChar\<close>: the loop steps over whole characters.\<close>

function half_loop :: "buffer \<Rightarrow> nat \<Rightarrow> nat \<Rightarrow> nat option" where
  "half_loop b iPos i =
     (if iPos \<le> i then Some i
      else if length b \<le> i then None
      else half_loop b iPos (if 0x80 \<le> (of_char (b ! i) :: nat) then i + 2 else i + 1))"
  by pat_completeness auto
termination by (relation "measure (\<lambda>(b, iPos, i). iPos - i)") auto

declare half_loop.simps [simp del]

definition basTrimHalfChsChar :: "buffer \<Rightarrow> nat \<Rightarrow> (nat \<times> buffer) option" where
  "basTrimHalfChsChar pcaBuf iPos = do {
     i \<leftarrow> half_loop pcaBuf iPos 0;
     if i = iPos + 1 \<and> 0x80 \<le> (of_char (pcaBuf ! (iPos - 1)) :: nat) then Some (i, pcaBuf[iPos - 1 := CHR '' ''])
     else Some (i, pcaBuf) }"

section \<open>Patterns\<close>

record pattern_state =
  pat_j :: nat
  pat_buf :: buffer
  iCFlag :: bool
  iZFlag :: bool
  iNFlag :: bool

definition put_char :: "nat \<Rightarrow> char \<Rightarrow> pattern_state \<Rightarrow> pattern_state option" where
  "put_char i c s = do { b \<leftarrow> buf_store (pat_buf s) i c; Some (s\<lparr>pat_buf := b\<rparr>) }"

definition next_char :: "pattern_state \<Rightarrow> pattern_state" where
  "next_char s = s\<lparr>pat_j := Suc (pat_j s)\<rparr>"

text \<open>A digit place, \<^verbatim>\<open>9\<close> or \<^verbatim>\<open>Z\<close>, for the character \<open>c\<close>\<close>

definition digit_place :: "nat \<Rightarrow> char \<Rightarrow> pattern_state \<Rightarrow> pattern_state option" where
  "digit_place i c s = do {
     let s = s\<lparr>iCFlag := True\<rparr>;
     p \<leftarrow> (if iNFlag s then buf_load (pat_buf s) (i - 1) else Some NUL);
     if iNFlag s \<and> p = CHR ''-'' \<and> c = CHR ''0'' then do {
       s \<leftarrow> put_char (i - 1) (CHR '' '') s;
       s \<leftarrow> put_char i (CHR ''-'') s;
       Some (next_char s) }
     else do {
       let s = s\<lparr>iNFlag := c = CHR ''-''\<rparr>;
       if iZFlag s then map_option next_char (put_char i c s)
       else if c \<noteq> CHR ''0'' \<and> c \<noteq> CHR '' '' then map_option next_char (put_char i c (s\<lparr>iZFlag := True\<rparr>))
       else map_option next_char (put_char i (CHR '' '') s) } }"

definition pattern_step :: "buffer \<Rightarrow> nat \<Rightarrow> char \<Rightarrow> pattern_state \<Rightarrow> pattern_state option" where
  "pattern_step pcaString i p s = do {
     c \<leftarrow> buf_load pcaString (pat_j s);
     if p = CHR ''U'' then map_option next_char (put_char i (toupper c) s)
     else if p = CHR ''L'' then map_option next_char (put_char i (tolower c) s)
     else if p = CHR ''#'' then map_option next_char (put_char i (if c = CHR '' '' \<and> iCFlag s then CHR ''0'' else c) s)
     else if p = CHR ''9'' \<or> p = CHR ''Z'' then digit_place i c s
     else if p = CHR '','' then
       (if iNFlag s then do { s \<leftarrow> put_char (i - 1) (CHR '' '') s; put_char i (CHR ''-'') s }
        else put_char i (if iZFlag s then CHR '','' else CHR '' '') s)
     else put_char i p s }"

fun pattern_loop' :: "buffer \<Rightarrow> nat \<Rightarrow> string \<Rightarrow> pattern_state \<Rightarrow> pattern_state option" where
  "pattern_loop' pcaString i [] s = Some s"
| "pattern_loop' pcaString i (p # ps) s = do {
     c \<leftarrow> buf_load pcaString (pat_j s);
     if c = NUL then Some s
     else do { s \<leftarrow> pattern_step pcaString i p s; pattern_loop' pcaString (Suc i) ps s } }"

definition basStringPattern :: "buffer \<Rightarrow> string \<Rightarrow> buffer option" where
  "basStringPattern pcaString pcaPattern = do {
     s \<leftarrow> pattern_loop' pcaString 0 pcaPattern \<lparr>pat_j = 0, pat_buf = replicate 1024 NUL, iCFlag = False, iZFlag = False, iNFlag = False\<rparr>;
     buf_strcpy pcaString (pat_buf s) }"

section \<open>Escapes\<close>

text \<open>
  \<^verbatim>\<open>basTransVertical\<close>: the text is padded to \<open>n\<close> bytes, then bars and backslashes get a backslash; the loop ends
  when the last but one byte of the array is passed.
\<close>

definition print_field :: "nat \<Rightarrow> buffer \<Rightarrow> string option" where
  "print_field n b =
     (if NUL \<in> set b \<or> n \<le> length b
      then Some (take n (cstr b) @ replicate (n - length (take n (cstr b))) (CHR '' '')) else None)"

fun trans_loop :: "string \<Rightarrow> nat \<Rightarrow> buffer \<Rightarrow> buffer option" where
  "trans_loop [] j out = Some out"
| "trans_loop (c # t) j out =
     (if 1023 < j then Some out
      else if c = CHR ''|'' \<or> c = CHR 0x5C then do {
        out \<leftarrow> buf_store out j (CHR 0x5C); out \<leftarrow> buf_store out (Suc j) c; trans_loop t (Suc (Suc j)) out }
      else if lead_byte c then do {
        out \<leftarrow> buf_store out j c; out \<leftarrow> buf_store out (Suc j) (case t of [] \<Rightarrow> NUL | d # _ \<Rightarrow> d);
        trans_loop (tl t) (Suc (Suc j)) out }
      else do { out \<leftarrow> buf_store out j c; trans_loop t (Suc j) out })"

definition basTransVertical :: "buffer \<Rightarrow> nat \<Rightarrow> buffer option" where
  "basTransVertical pcaBuf iLen = do {
     t \<leftarrow> print_field (if 1024 < iLen then 1024 else iLen) pcaBuf;
     trans_loop t 0 (replicate 1025 NUL) }"

section \<open>Substitution of byte sequences\<close>

text \<open>A line of the configuration of \<^verbatim>\<open>preiconv\<close>: the encoding, the bytes to replace and their replacement\<close>

record tppled =
  code :: string
  tranfrom :: string
  tranto :: string

text \<open>The first rule that applies at a place of the input\<close>

fun find_rule :: "tppled list \<Rightarrow> string \<Rightarrow> string \<Rightarrow> tppled option" where
  "find_rule [] enc s = None"
| "find_rule (r # rs) enc s =
     (if code r \<noteq> enc then find_rule rs enc s
      else if length s < length (tranfrom r) then find_rule rs enc s
      else if take (length (tranfrom r)) s \<noteq> tranfrom r then find_rule rs enc s
      else Some r)"

text \<open>The loop over the input, with the distance to write at; a rule for the empty sequence makes it endless.\<close>

partial_function (option) iconv_loop :: "tppled list \<Rightarrow> string \<Rightarrow> string \<Rightarrow> nat \<Rightarrow> buffer \<Rightarrow> (nat \<times> buffer) option" where
  "iconv_loop rs enc s d out =
     (if s = [] then Some (d, out)
      else case find_rule rs enc s of
          Some r \<Rightarrow> Option.bind (buf_copy out d (tranto r) (length (tranto r)))
            (\<lambda>out. iconv_loop rs enc (drop (length (tranfrom r)) s) (d + length (tranto r)) out)
        | None \<Rightarrow> Option.bind (buf_store out d (hd s)) (\<lambda>out. iconv_loop rs enc (tl s) (Suc d) out))"

definition preiconv :: "tppled list \<Rightarrow> string \<Rightarrow> buffer \<Rightarrow> buffer \<Rightarrow> (nat \<times> buffer) option" where
  "preiconv pled cpEncodeFrom cpInput out = do {
     n \<leftarrow> buf_strlen cpInput;
     if pled = [] then do { out \<leftarrow> buf_copy out 0 cpInput n; Some (n, out) }
     else iconv_loop pled cpEncodeFrom (take n cpInput) 0 out }"

end
