(* ===== verification/Bas_Date.thy ===== *)
theory Bas_Date
  imports C_Time C_Double Bas_Str_Copy "HOL-Library.Signed_Division"
begin

text \<open>
  Dates and times as text, \<^verbatim>\<open>Excellent_Code/Lib_bas/bas_date.c\<close>: the current date in several
  formats, differences and sums of days and months, ordinal dates, patterns, validity, weekdays.

  A pointer argument is the list of the bytes it points to; the result of a function that returns
  its static array is the contents of the array. \<open>None\<close> is undefined behaviour: an access outside
  an array, an overflow of \<^verbatim>\<open>int\<close>, or a loop that does not end. Messages to the log are not part
  of the model. The clock and the time zone are arguments.
\<close>

section \<open>Fields\<close>

text \<open>\<^verbatim>\<open>memset(ca, ' ', sizeof(ca) - 1)\<close> after \<^verbatim>\<open>memset(ca, 0, sizeof(ca))\<close>\<close>

definition spaces :: "nat \<Rightarrow> buffer" where
  "spaces n = replicate (n - 1) (CHR '' '') @ [NUL]"

text \<open>A local array of \<open>n + 1\<close> bytes, cleared, with \<open>n\<close> bytes copied from \<open>p + off\<close>\<close>

definition field :: "buffer \<Rightarrow> nat \<Rightarrow> nat \<Rightarrow> buffer option" where
  "field p off n = (if off + n \<le> length p then Some (take n (drop off p) @ [NUL]) else None)"

text \<open>Values of \<^verbatim>\<open>int\<close> expressions: an overflow is undefined.\<close>

definition chk :: "int \<Rightarrow> int option" where
  "chk i = (if - (2 ^ 31) \<le> i \<and> i < 2 ^ 31 then Some i else None)"

section \<open>The current date and time\<close>

text \<open>\<^verbatim>\<open>time\<close> returns -1 and \<^verbatim>\<open>gettimeofday\<close> fails (\<open>None\<close>) if there is no clock.\<close>

record clock =
  now :: int
  now_usec :: "(int \<times> int) option"
  tz :: zone

definition basGetSysJulianDate :: "clock \<Rightarrow> buffer option" where
  "basGetSysJulianDate c =
    (if now c = - 1 then Some (spaces 6)
     else case localtime (tz c) (now c) of None \<Rightarrow> Some (spaces 6)
       | Some t \<Rightarrow> buf_sprintf (spaces 6) (print0 2 (tm_year t smod 100) @ print0 3 (tm_yday t + 1)))"

definition date_string :: "tm \<Rightarrow> string" where
  "date_string t = print0 4 (tm_year t + 1900) @ print0 2 (tm_mon t + 1) @ print0 2 (tm_mday t)"

definition time_string :: "tm \<Rightarrow> string" where
  "time_string t = print0 2 (tm_hour t) @ print0 2 (tm_min t) @ print0 2 (tm_sec t)"

definition basGetSysDate :: "clock \<Rightarrow> buffer option" where
  "basGetSysDate c =
    (if now c = - 1 then Some (spaces 9)
     else case localtime (tz c) (now c) of None \<Rightarrow> Some (spaces 9)
       | Some t \<Rightarrow> buf_sprintf (spaces 9) (date_string t))"

definition basGetSysTime :: "clock \<Rightarrow> buffer option" where
  "basGetSysTime c =
    (if now c = - 1 then Some (spaces 7)
     else case localtime (tz c) (now c) of None \<Rightarrow> Some (spaces 7)
       | Some t \<Rightarrow> buf_sprintf (spaces 7) (time_string t))"

definition basGetSysTimestamp :: "clock \<Rightarrow> buffer option" where
  "basGetSysTimestamp c =
    (case now_usec c of None \<Rightarrow> Some (spaces 13)
     | Some (sec, usec) \<Rightarrow> (case localtime (tz c) sec of None \<Rightarrow> Some (spaces 13)
         | Some t \<Rightarrow> buf_sprintf (spaces 13) (time_string t @ print0 6 usec)))"

definition basGetGmDate :: "clock \<Rightarrow> buffer option" where
  "basGetGmDate c =
    (if now c = - 1 then Some (spaces 9)
     else case gmtime (now c) of None \<Rightarrow> Some (spaces 9)
       | Some t \<Rightarrow> buf_sprintf (spaces 9) (date_string t))"

definition basGetGmTime :: "clock \<Rightarrow> buffer option" where
  "basGetGmTime c =
    (if now c = - 1 then Some (spaces 7)
     else case gmtime (now c) of None \<Rightarrow> Some (spaces 7)
       | Some t \<Rightarrow> buf_sprintf (spaces 7) (time_string t))"

section \<open>Days\<close>

text \<open>The broken-down time of a date at a given hour, one second past\<close>

definition tm_of :: "int \<Rightarrow> int \<Rightarrow> int \<Rightarrow> int \<Rightarrow> tm" where
  "tm_of y m d h = \<lparr>tm_year = y - 1900, tm_mon = m - 1, tm_mday = d, tm_hour = h, tm_min = 0, tm_sec = 1, tm_yday = 0\<rparr>"

definition date_tm :: "buffer \<Rightarrow> int \<Rightarrow> tm option" where
  "date_tm p h = do {
     caYear \<leftarrow> field p 0 4; caMonth \<leftarrow> field p 4 2; caDay \<leftarrow> field p 6 2;
     Some (tm_of (atoi caYear) (atoi caMonth) (atoi caDay) h) }"

text \<open>\<^verbatim>\<open>(int)(difftime(t2, t1) / 24 / 60 / 60 + 0.5)\<close>, and \<^verbatim>\<open>- 0.5\<close>\<close>

definition days_between :: "int \<Rightarrow> int \<Rightarrow> int" where
  "days_between t1 t2 =
    (let q = rnd64 (rnd64 (rnd64 (rnd64 (of_int (t2 - t1)) / 24) / 60) / 60)
     in trunc_rat (rnd64 (if t1 < t2 then q + 1 / 2 else q - 1 / 2)))"

definition basCalDiffTwoDays :: "zone \<Rightarrow> buffer \<Rightarrow> buffer \<Rightarrow> (int \<times> int option) option" where
  "basCalDiffTwoDays z pcaBeginDate pcaEndDate = do {
     tTime1 \<leftarrow> date_tm pcaBeginDate 0;
     if mktime z (- 1) tTime1 = - 1 then Some (- 1, None)
     else do {
       tTime2 \<leftarrow> date_tm pcaEndDate 0;
       if mktime z (- 1) tTime2 = - 1 then Some (- 1, None)
       else Some (0, Some (days_between (mktime z (- 1) tTime1) (mktime z (- 1) tTime2))) } }"

definition basAddDays :: "zone \<Rightarrow> buffer \<Rightarrow> int \<Rightarrow> buffer option" where
  "basAddDays z pcaBeginDate iDays = do {
     tTime \<leftarrow> date_tm pcaBeginDate 3;
     let tTimeNow = mktime z (- 1) tTime;
     if tTimeNow = - 1 then Some (spaces 9)
     else do {
       secs \<leftarrow> chk (iDays * (24 * 60 * 60));
       ptTime \<leftarrow> localtime z (tTimeNow + secs);
       buf_sprintf (spaces 9) (date_string ptTime) } }"

definition basSubDays :: "zone \<Rightarrow> buffer \<Rightarrow> int \<Rightarrow> buffer option" where
  "basSubDays z pcaBeginDate iDays = do { n \<leftarrow> chk (- iDays); basAddDays z pcaBeginDate n }"

section \<open>Months\<close>

definition basCalDiffTwoMonths :: "buffer \<Rightarrow> buffer \<Rightarrow> (int \<times> int) option" where
  "basCalDiffTwoMonths pcaBeginMonth pcaEndMonth = do {
     caBeginYear \<leftarrow> field pcaBeginMonth 0 4; caEndYear \<leftarrow> field pcaEndMonth 0 4;
     caBeginMonth \<leftarrow> field pcaBeginMonth 4 2; caEndMonth \<leftarrow> field pcaEndMonth 4 2;
     Some (0, (atoi caEndYear - atoi caBeginYear) * 12 + atoi caEndMonth - atoi caBeginMonth) }"

text \<open>The loop that goes back day by day until the date exists: the day as text, and the buffer it leaves\<close>

partial_function (option) month_loop :: "zone \<Rightarrow> buffer \<Rightarrow> buffer \<Rightarrow> buffer \<Rightarrow> buffer option" where
  "month_loop z caYear caMonth caDay = do {
     caBuf \<leftarrow> buf_sprintf (replicate 9 NUL) (cstr caYear @ cstr caMonth @ cstr caDay);
     let tTimeVal = mktime z (- 1) (tm_of (atoi caYear) (atoi caMonth) (atoi caDay) 0);
     if tTimeVal = - 1 then Some (replicate 9 NUL)
     else case localtime z tTimeVal of
       None \<Rightarrow> Some (replicate 9 NUL)
     | Some t \<Rightarrow> do {
         caBufTmp \<leftarrow> buf_sprintf (replicate 9 NUL) (date_string t);
         if take 8 caBuf = take 8 caBufTmp then Some caBuf
         else do {
           caDay \<leftarrow> buf_sprintf (replicate 3 NUL) (print0 2 (atol caDay - 1));
           month_loop z caYear caMonth caDay } } }"

definition basAddMonths :: "zone \<Rightarrow> buffer \<Rightarrow> int \<Rightarrow> buffer option" where
  "basAddMonths z pcaBeginMonth iMonths = do {
     n \<leftarrow> buf_strlen pcaBeginMonth;
     blank \<leftarrow> (if cstr pcaBeginMonth = ''999999'' then Some True else basIsSpace pcaBeginMonth n);
     if blank then Some (''99999999'' @ [NUL])
     else do {
       caYear \<leftarrow> field pcaBeginMonth 0 4;
       caMonth \<leftarrow> field pcaBeginMonth 4 2;
       c \<leftarrow> buf_load pcaBeginMonth 6;
       caDay \<leftarrow> (if c = NUL then Some (''01'' @ [NUL]) else field pcaBeginMonth 6 2);
       let lValue = atol caYear * 12 + atol caMonth + iMonths - 1;
       caYear \<leftarrow> buf_sprintf caYear (print0 4 (int32 (lValue sdiv 12)));
       caMonth \<leftarrow> buf_sprintf caMonth (print0 2 (int32 (lValue smod 12 + 1)));
       caBuf \<leftarrow> month_loop z caYear caMonth caDay;
       Some (if c = NUL then caBuf[6 := NUL] else caBuf) } }"

section \<open>Years, ordinal dates, weekdays\<close>

definition basIsLeapYear :: "buffer \<Rightarrow> int option" where
  "basIsLeapYear pcaYear = do {
     _ \<leftarrow> buf_strlen pcaYear;
     let iYear = atoi pcaYear;
     Some (if (iYear smod 4 = 0 \<and> iYear smod 100 \<noteq> 0) \<or> iYear smod 400 = 0 then 1 else 0) }"

text \<open>The loop of \<^verbatim>\<open>basJulianDateToDate\<close>: it leaves the array if the day is too large.\<close>

fun ordinal_loop :: "int list \<Rightarrow> nat \<Rightarrow> int \<Rightarrow> (nat \<times> int) option" where
  "ordinal_loop [] j i = None"
| "ordinal_loop (k # ks) j i = (if k < i then ordinal_loop ks (Suc j) (i - k) else Some (j, i))"

definition basJulianDateToDate :: "zone \<Rightarrow> int \<Rightarrow> buffer option" where
  "basJulianDateToDate z lDate = (
     let lDay = lDate smod 1000; lYear = lDate sdiv 1000;
         monarr = [31, if (lYear smod 4 = 0 \<and> lYear smod 100 \<noteq> 0) \<or> lYear smod 400 = 0 then 29 else 28,
                   31, 30, 31, 30, 31, 31, 30, 31, 30, 31]
     in do {
       (j, i) \<leftarrow> ordinal_loop monarr 0 lDay;
       if mktime z (- 1) (tm_of lYear (int j) i 0) = - 1 then Some (spaces 7)
       else buf_sprintf (spaces 7) (print0 2 (lYear smod 100) @ print0 2 (int j + 1) @ print0 2 i) })"

definition basDateToJulianDate :: "zone \<Rightarrow> buffer \<Rightarrow> buffer option" where
  "basDateToJulianDate z pcaDate = do {
     tTime \<leftarrow> date_tm pcaDate 0;
     let tTimeVal = mktime z (- 1) tTime;
     if tTimeVal = - 1 then Some (spaces 5)
     else case localtime z tTimeVal of None \<Rightarrow> Some (spaces 5)
       | Some t \<Rightarrow> buf_sprintf (spaces 5) (print0 2 (tm_year t smod 100) @ print0 3 (tm_yday t + 1)) }"

text \<open>In \<^verbatim>\<open>basGetWeekDay\<close> a negative remainder leaves \<^verbatim>\<open>iWeekDay\<close> uninitialised.\<close>

definition basGetWeekDay :: "int \<Rightarrow> int \<Rightarrow> int \<Rightarrow> int option" where
  "basGetWeekDay iYear iMonth iDay = do {
     let (iMonth, iYear) = (if iMonth = 1 \<or> iMonth = 2 then (iMonth + 12, iYear - 1) else (iMonth, iYear));
     _ \<leftarrow> chk iYear;
     a \<leftarrow> chk (2 * iMonth); a \<leftarrow> chk (iDay + a);
     b \<leftarrow> chk (iMonth + 1); b \<leftarrow> chk (3 * b);
     a \<leftarrow> chk (a + b sdiv 5); a \<leftarrow> chk (a + iYear); a \<leftarrow> chk (a + iYear sdiv 4);
     a \<leftarrow> chk (a - iYear sdiv 100); a \<leftarrow> chk (a + iYear sdiv 400);
     let iWeek = a smod 7;
     if iWeek < 0 then None else Some (if iWeek = 6 then 0 else iWeek + 1) }"

definition basGetWeekDayByDate :: "buffer \<Rightarrow> int option" where
  "basGetWeekDayByDate pcaDate = do {
     caYear \<leftarrow> field pcaDate 0 4; caMonth \<leftarrow> field pcaDate 4 2; caDay \<leftarrow> field pcaDate 6 2;
     basGetWeekDay (atoi caYear) (atoi caMonth) (atoi caDay) }"

definition basGetMonthName :: "int \<Rightarrow> string" where
  "basGetMonthName iMonth = (if 1 \<le> iMonth \<and> iMonth \<le> 12
     then [''JAN'', ''FEB'', ''MAR'', ''APR'', ''MAY'', ''JUN'', ''JUL'', ''AUG'', ''SEP'', ''OCT'', ''NOV'', ''DEC''] ! nat (iMonth - 1)
     else ''   '')"

definition basGetLastDayOfMonth :: "buffer \<Rightarrow> (int \<times> buffer) option" where
  "basGetLastDayOfMonth pcaDate = do {
     caYear \<leftarrow> field pcaDate 0 4; caMonth \<leftarrow> field pcaDate 4 2;
     let m = atoi caMonth;
     if m \<in> set [1, 3, 5, 7, 8, 10, 12] then do { p \<leftarrow> buf_copy pcaDate 6 ''31'' 2; Some (0, p) }
     else if m \<in> set [4, 6, 9, 11] then do { p \<leftarrow> buf_copy pcaDate 6 ''30'' 2; Some (0, p) }
     else if m = 2 then do {
       l \<leftarrow> basIsLeapYear caYear;
       p \<leftarrow> buf_copy pcaDate 6 (if l \<noteq> 0 then ''29'' else ''28'') 2; Some (0, p) }
     else Some (- 1, pcaDate) }"

definition basIsValidDate :: "buffer \<Rightarrow> bool option" where
  "basIsValidDate pcaDate = do {
     caYear \<leftarrow> field pcaDate 0 4; caMonth \<leftarrow> field pcaDate 4 2; caDay \<leftarrow> field pcaDate 6 2;
     let iYear = atoi caYear; let iMonth = atoi caMonth; let iDay = atoi caDay;
     if 12 < iMonth \<or> iMonth < 1 \<or> iYear < 1 \<or> iDay < 1 then Some False
     else do {
       l \<leftarrow> basIsLeapYear caYear;
       days \<leftarrow> buf_load (if l \<noteq> 0 then [0, 31, 29, 31, 30, 31, 30, 31, 31, 30, 31, 30, 31]
                        else [0, 31, 28, 31, 30, 31, 30, 31, 31, 30, 31, 30, 31]) (nat iMonth);
       Some (\<not> days < iDay) } }"

section \<open>Patterns\<close>

text \<open>
  One round of the loop of \<^verbatim>\<open>basDatePattern\<close>: \<open>k\<close>, \<open>m\<close>, \<open>n\<close> count the letters used of year, month and
  day. \<^verbatim>\<open>char\<close> is signed, so only the sign-extended ones of the comparisons with the bytes of
  the Chinese characters hold. \<open>Inl\<close> is the return with an error.
\<close>

definition is_date_separator :: "char \<Rightarrow> bool" where
  "is_date_separator c \<longleftrightarrow> c \<in> set [CHR ''/'', CHR ''-'', CHR '' '', CHR 0xC4, CHR 0xEA, CHR 0xD4, CHR 0xC2, CHR 0xC8, CHR 0xD5]"

definition is_time_separator :: "char \<Rightarrow> bool" where
  "is_time_separator c \<longleftrightarrow> c \<in> set [CHR ''/'', CHR ''-'', CHR '' '', CHR '':'']"

fun pattern_loop ::
  "(char \<Rightarrow> bool) \<Rightarrow> string \<times> string \<times> string \<Rightarrow> buffer \<times> buffer \<times> buffer \<Rightarrow> string
    \<Rightarrow> nat \<times> nat \<times> nat \<Rightarrow> string \<Rightarrow> (unit + string \<times> nat \<times> nat \<times> nat) option" where
  "pattern_loop sep ls fs [] (k, m, n) out = Some (Inr (out, k, m, n))"
| "pattern_loop sep (lk, lm, lx) (fk, fm, fx) (c # cs) (k, m, n) out =
    (if sep c then pattern_loop sep (lk, lm, lx) (fk, fm, fx) cs (k, m, n) (out @ [c])
     else if c \<in> set lk then do { x \<leftarrow> buf_load fk k; pattern_loop sep (lk, lm, lx) (fk, fm, fx) cs (Suc k, m, n) (out @ [x]) }
     else if c \<in> set lm then do { x \<leftarrow> buf_load fm m; pattern_loop sep (lk, lm, lx) (fk, fm, fx) cs (k, Suc m, n) (out @ [x]) }
     else if c \<in> set lx then do { x \<leftarrow> buf_load fx n; pattern_loop sep (lk, lm, lx) (fk, fm, fx) cs (k, m, Suc n) (out @ [x]) }
     else Some (Inl ()))"

definition basDatePattern :: "buffer \<Rightarrow> buffer \<Rightarrow> buffer option" where
  "basDatePattern pcaDate pcaPattern = do {
     caYear \<leftarrow> field pcaDate 0 4; caMonth \<leftarrow> field pcaDate 4 2; caDay \<leftarrow> field pcaDate 6 2;
     iLen \<leftarrow> buf_strlen pcaPattern;
     let blank = replicate 21 (CHR '' '');
     if 20 < iLen then Some blank
     else do {
       let iYLength = length (filter (\<lambda>c. c = CHR ''Y'') (cstr pcaPattern));
       r \<leftarrow> pattern_loop is_date_separator (''Yy'', ''Mm'', ''Dd'') (caYear, caMonth, caDay) (cstr pcaPattern)
              (if iYLength \<noteq> 4 then 2 else 0, 0, 0) [];
       case r of
         Inl _ \<Rightarrow> Some blank
       | Inr (caBuf, k, m, n) \<Rightarrow>
           if 4 < k \<or> 2 < m \<or> 2 < n then Some blank else buf_strcpy blank (caBuf @ [NUL]) } }"

definition basTimePattern :: "buffer \<Rightarrow> buffer \<Rightarrow> buffer option" where
  "basTimePattern pcaTime pcaPattern = do {
     caHour \<leftarrow> field pcaTime 0 2; caMinute \<leftarrow> field pcaTime 2 2; caSecond \<leftarrow> field pcaTime 4 2;
     iLen \<leftarrow> buf_strlen pcaPattern;
     let blank = replicate 21 (CHR '' '');
     if 20 < iLen then Some blank
     else do {
       r \<leftarrow> pattern_loop is_time_separator (''Hh'', ''Mm'', ''Ss'') (caHour, caMinute, caSecond) (cstr pcaPattern) (0, 0, 0) [];
       case r of
         Inl _ \<Rightarrow> Some blank
       | Inr (caBuf, k, m, n) \<Rightarrow>
           if 4 < k \<or> 2 < m \<or> 2 < n then Some blank else buf_strcpy blank (caBuf @ [NUL]) } }"

text \<open>\<^verbatim>\<open>basGetFormatTimestamp\<close>; \<^verbatim>\<open>basStringPattern\<close> writes into the array of \<^verbatim>\<open>basGetSysTimestamp\<close>.\<close>

definition basGetFormatTimestamp :: "clock \<Rightarrow> buffer option" where
  "basGetFormatTimestamp c = do {
     caDate \<leftarrow> basGetSysDate c;
     caDate \<leftarrow> basDatePattern caDate (''YYYY-MM-DD'' @ [NUL]);
     caTimestamp \<leftarrow> buf_copy (replicate 26 NUL) 0 caDate 10;
     caTime \<leftarrow> basGetSysTimestamp c;
     caTime \<leftarrow> basStringPattern caTime ''##:##:##:#####'';
     caBuf \<leftarrow> buf_copy (replicate 30 NUL) 0 caTime 14;
     let s = take 14 (cstr caBuf);
     r \<leftarrow> buf_sprintf (drop 10 caTimestamp) (CHR '' '' # replicate (14 - length s) (CHR '' '') @ s);
     basRTrim (take 10 caTimestamp @ r) 25 }"

definition basGetDateTimeFromFormatTimestamp :: "buffer \<Rightarrow> buffer \<Rightarrow> buffer option" where
  "basGetDateTimeFromFormatTimestamp pTimestamp pDateTime = do {
     p \<leftarrow> buf_copy pDateTime 0 pTimestamp 4;
     p \<leftarrow> buf_copy p 4 (drop 5 pTimestamp) 2;
     p \<leftarrow> buf_copy p 6 (drop 8 pTimestamp) 2;
     p \<leftarrow> buf_copy p 8 (drop 11 pTimestamp) 2;
     p \<leftarrow> buf_copy p 10 (drop 14 pTimestamp) 2;
     buf_copy p 12 (drop 17 pTimestamp) 2 }"

section \<open>Instants\<close>

text \<open>One conversion \<^verbatim>\<open>%wd\<close> of \<^verbatim>\<open>sscanf\<close>: white space, a sign and at most \<open>w\<close> characters\<close>

definition scan_int :: "nat \<Rightarrow> string \<Rightarrow> (int \<times> string) option" where
  "scan_int w s =
    (let t = dropWhile is_space s;
         (sgn, w, t) = (case t of [] \<Rightarrow> (1, w, t)
           | c # r \<Rightarrow> if c = CHR ''-'' then (- 1, w - 1, r) else if c = CHR ''+'' then (1, w - 1, r) else (1, w, t));
         ds = takeWhile is_digit (take w t)
     in if ds = [] then None else Some (sgn * digits_value 0 ds, drop (length ds) t))"

text \<open>The conversions in order, up to the first that fails; the rest keep the value 0.\<close>

fun scan_ints :: "nat list \<Rightarrow> string \<Rightarrow> int list" where
  "scan_ints [] s = []"
| "scan_ints (w # ws) s =
    (case scan_int w s of None \<Rightarrow> replicate (Suc (length ws)) 0 | Some (i, r) \<Rightarrow> i # scan_ints ws r)"

text \<open>The broken-down time is cleared first, so \<^verbatim>\<open>tm_isdst\<close> is 0; the month is stored as it is read.\<close>

definition basMakeTime :: "clock \<Rightarrow> buffer \<Rightarrow> int option" where
  "basMakeTime c pcaTime = do {
     iLen \<leftarrow> buf_strlen pcaTime;
     tmTime \<leftarrow> (if iLen = 10 then
         (case scan_ints [2, 2, 2, 2, 2] (cstr pcaTime) of
            [mon, mday, hour, minute, second] \<Rightarrow> do {
              ptmNow \<leftarrow> localtime (tz c) (now c);
              Some \<lparr>tm_year = tm_year ptmNow, tm_mon = mon, tm_mday = mday, tm_hour = hour, tm_min = minute, tm_sec = second, tm_yday = 0\<rparr> }
          | _ \<Rightarrow> None)
       else
         (case scan_ints [if iLen = 12 then 2 else 4, 2, 2, 2, 2, 2] (cstr pcaTime) of
            [year, mon, mday, hour, minute, second] \<Rightarrow>
              Some \<lparr>tm_year = (if iLen = 12 then 2000 + year - 1900 else year - 1900), tm_mon = mon, tm_mday = mday,
                tm_hour = hour, tm_min = minute, tm_sec = second, tm_yday = 0\<rparr>
          | _ \<Rightarrow> None));
     Some (mktime (tz c) 0 tmTime) }"

definition basDiffTime :: "clock \<Rightarrow> buffer \<Rightarrow> buffer \<Rightarrow> buffer option" where
  "basDiffTime c pcaTime1 pcaTime2 = do {
     tTime1 \<leftarrow> basMakeTime c pcaTime1;
     tTime2 \<leftarrow> basMakeTime c pcaTime2;
     let (tTime1, tTime2) = (if tTime1 < tTime2 then (tTime2, tTime1) else (tTime1, tTime2));
     let lSec = trunc_rat (rnd64 (of_int (tTime1 - tTime2)));
     let lMin = lSec sdiv 60;
     let lSec = lSec smod 60;
     let lHour = lMin sdiv 60;
     let lMin = lMin smod 60;
     buf_sprintf (replicate 100 NUL) (print0 2 lHour @ '':'' @ print0 2 lMin @ '':'' @ print0 2 lSec) }"

end
