(* ===== verification/Bas_Date_Correct.thy ===== *)
theory Bas_Date_Correct
  imports Bas_Date
begin

text \<open>
  Lemmas on the date functions: dates as eight digits, the instants of dates in a time zone, and
  the effect of rounding on differences of days.
\<close>

section \<open>Dates as text\<close>

definition date_text :: "int \<Rightarrow> int \<Rightarrow> int \<Rightarrow> string" where
  "date_text y m d = print0 4 y @ print0 2 m @ print0 2 d"

definition text_ok :: "int \<Rightarrow> int \<Rightarrow> int \<Rightarrow> bool" where
  "text_ok y m d \<longleftrightarrow> 0 \<le> y \<and> y < 10000 \<and> 0 \<le> m \<and> m < 100 \<and> 0 \<le> d \<and> d < 100"

lemma month_days_bounds: "1 \<le> m \<Longrightarrow> m \<le> 12 \<Longrightarrow> 28 \<le> month_days y m \<and> month_days y m \<le> 31"
proof -
  assume "1 \<le> m" "m \<le> 12"
  then have "nat (m - 1) < 12" by auto
  moreover have "\<forall>k\<in>set (month_lengths l). 28 \<le> k \<and> k \<le> 31" for l by (simp add: month_lengths_def)
  ultimately show ?thesis unfolding month_days_def by (metis length_month_lengths nth_mem)
qed

lemma valid_text_ok: "valid_date y m d \<Longrightarrow> 0 \<le> y \<Longrightarrow> y < 10000 \<Longrightarrow> text_ok y m d"
  using month_days_bounds[of m y] by (auto simp: valid_date_def text_ok_def)

lemma field_lengths:
  assumes "text_ok y m d"
  shows "length (print0 4 y) = 4" "length (print0 2 m) = 2" "length (print0 2 d) = 2" "length (date_text y m d) = 8"
  using assms by (simp_all add: date_text_def text_ok_def print0_nonneg)

lemma fields_of_text:
  assumes "text_ok y m d"
  shows "field (date_text y m d @ r) 0 4 = Some (print0 4 y @ [NUL])"
    "field (date_text y m d @ r) 4 2 = Some (print0 2 m @ [NUL])"
    "field (date_text y m d @ r) 6 2 = Some (print0 2 d @ [NUL])"
  using field_lengths[OF assms] by (simp_all add: field_def date_text_def)

lemma date_tm_text: "text_ok y m d \<Longrightarrow> date_tm (date_text y m d @ r) h = Some (tm_of y m d h)"
  using ato_print0[of y 4] ato_print0[of m 2] ato_print0[of d 2]
  by (simp add: date_tm_def fields_of_text text_ok_def)

section \<open>Instants\<close>

lemma local_seconds_tm_of:
  "1 \<le> m \<Longrightarrow> m \<le> 12 \<Longrightarrow> local_seconds (tm_of y m d h) = 86400 * day_number y m d + 3600 * h + 1"
  by (simp add: local_seconds_def tm_of_def day_number_def)

lemma not_minus_one: "zone_ok z \<Longrightarrow> l mod 60 = 1 \<Longrightarrow> resolve z (- 1) l \<noteq> - 1"
proof
  assume "zone_ok z" "l mod 60 = 1" "resolve z (- 1) l = - 1"
  then have "60 dvd - 1 - l" by (metis zone_ok_def)
  with \<open>l mod 60 = 1\<close> show False by presburger
qed

lemma gmtime_of_day:
  assumes "valid_date y m d" and "0 \<le> y" and "y < 10000" and "l div 86400 = day_number y m d"
  obtains t where "gmtime l = Some t" "date_string t = date_text y m d" "tm_year t = y - 1900"
    "tm_yday t = day_number y m d - day_number y 1 1"
  using assms civil_day_number[OF assms(1)]
  by (simp add: gmtime_def broken_down_def date_string_def date_text_def Let_def)

lemma sprintf_date: "text_ok y m d \<Longrightarrow> length b = 9 \<Longrightarrow> buf_sprintf b (date_text y m d) = Some (date_text y m d @ [NUL])"
  by (simp add: buf_sprintf_def field_lengths)

lemma length_spaces [simp]: "0 < n \<Longrightarrow> length (spaces n) = n"
  by (simp add: spaces_def)

lemma days_in_range: "\<bar>n\<bar> \<le> 24855 \<Longrightarrow> chk (n * (24 * 60 * 60)) = Some (n * 86400)"
  by (simp add: chk_def abs_le_iff)

lemma zone_near: "zone_ok z \<Longrightarrow> \<bar>resolve z (- 1) l + utc_offset z (resolve z (- 1) l) - l\<bar> \<le> 3600"
  and zone_steady: "zone_ok z \<Longrightarrow> \<bar>utc_offset z s - utc_offset z t\<bar> \<le> 7200"
  and zone_exact: "zone_ok z \<Longrightarrow> t + utc_offset z t = l \<Longrightarrow> resolve z (- 1) l + utc_offset z (resolve z (- 1) l) = l"
  unfolding zone_ok_def by blast+

lemma instant_mod:
  assumes "zone_ok z" and "1 \<le> m" "m \<le> 12"
  shows "mktime z (- 1) (tm_of y m d h) \<noteq> - 1"
proof -
  have "(86400 * day_number y m d + 3600 * h + 1) mod 60 = 1"
  proof -
    have "86400 * day_number y m d + 3600 * h + 1 = 60 * (1440 * day_number y m d + 60 * h) + 1" by simp
    also have "\<dots> mod 60 = 1" by (simp only: mod_mult_self4) simp
    finally show ?thesis .
  qed
  then show ?thesis unfolding mktime_def local_seconds_tm_of[OF assms(2,3)] by (rule not_minus_one[OF assms(1)])
qed

lemma day_of_seconds: "0 \<le> l - 86400 * n \<Longrightarrow> l - 86400 * n < 86400 \<Longrightarrow> l div 86400 = n" for l n :: int
  by (rule int_div_pos_eq[where r = "l - 86400 * n"]) simp_all

lemma add_days_text:
  assumes "zone_ok z" and "valid_date y m d" and "0 \<le> y" "y < 10000" and "\<bar>n\<bar> \<le> 24855"
    and "valid_date y' m' d'" and "0 \<le> y'" "y' < 10000" and "day_number y' m' d' = day_number y m d + n"
  shows "basAddDays z (date_text y m d @ r) n = Some (date_text y' m' d' @ [NUL])"
proof -
  define t where "t = mktime z (- 1) (tm_of y m d 3)"
  define s where "s = t + n * 86400"
  have m: "1 \<le> m" "m \<le> 12" using assms(2) by (simp_all add: valid_date_def)
  have "\<bar>t + utc_offset z t - (86400 * day_number y m d + 3600 * 3 + 1)\<bar> \<le> 3600"
    unfolding t_def mktime_def local_seconds_tm_of[OF m] by (rule zone_near[OF assms(1)])
  moreover have "\<bar>utc_offset z s - utc_offset z t\<bar> \<le> 7200" by (rule zone_steady[OF assms(1)])
  ultimately have "(s + utc_offset z s) div 86400 = day_number y' m' d'"
    unfolding assms(9) by (intro day_of_seconds) (simp_all add: s_def abs_le_iff algebra_simps)
  from gmtime_of_day[OF assms(6-8) this] obtain b where b: "localtime z s = Some b" "date_string b = date_text y' m' d'"
    unfolding localtime_def by blast
  have "t \<noteq> - 1" unfolding t_def by (rule instant_mod[OF assms(1) m])
  then have "basAddDays z (date_text y m d @ r) n = buf_sprintf (spaces 9) (date_text y' m' d')"
    unfolding basAddDays_def date_tm_text[OF valid_text_ok[OF assms(2-4)]] days_in_range[OF assms(5)]
    using b by (simp add: t_def[symmetric] s_def[symmetric])
  also have "\<dots> = Some (date_text y' m' d' @ [NUL])"
    by (rule sprintf_date[OF valid_text_ok[OF assms(6-8)]]) simp
  finally show ?thesis .
qed

section \<open>Differences of days\<close>

lemma rnd64_near: "\<bar>x\<bar> \<le> c \<Longrightarrow> \<bar>rnd64 x - x\<bar> \<le> c / 2 ^ 53"
  using rnd64_error[of x] by (smt (verit, best) divide_right_mono zero_le_power zero_le_numeral order_trans)

lemma trunc_near:
  assumes "\<bar>x - of_int n\<bar> < 1 / 4"
  shows "0 \<le> n \<Longrightarrow> trunc_rat (x + 1 / 2) = n" "n \<le> 0 \<Longrightarrow> trunc_rat (x - 1 / 2) = n"
proof -
  have x: "of_int n - 1 / 4 < x" "x < of_int n + 1 / 4" using assms unfolding abs_less_iff by linarith+
  show "trunc_rat (x + 1 / 2) = n" if "0 \<le> n"
  proof -
    have "(0 :: rat) \<le> of_int n" using that by simp
    with x show ?thesis by (simp add: trunc_rat_def floor_eq_iff)
  qed
  show "trunc_rat (x - 1 / 2) = n" if "n \<le> 0"
  proof -
    have "of_int n \<le> (0 :: rat)" using that by simp
    with x show ?thesis by (simp add: trunc_rat_def ceiling_eq_iff)
  qed
qed

lemma days_between_near:
  assumes "\<bar>t2 - t1 - 86400 * n\<bar> \<le> 14400" and "\<bar>t2 - t1\<bar> \<le> 2 ^ 39"
  shows "days_between t1 t2 = n"
proof -
  define x where "x = (of_int (t2 - t1) :: rat)"
  have x: "rnd64 x = x" unfolding x_def using assms(2) by (intro rnd64_int) simp
  have "\<bar>x\<bar> \<le> of_int (2 ^ 39)" unfolding x_def of_int_abs[symmetric] of_int_le_iff by (rule assms(2))
  then have bx: "\<bar>x\<bar> \<le> 549755813888" by simp
  define a b q where "a = rnd64 (x / 24)" and "b = rnd64 (a / 60)" and "q = rnd64 (b / 60)"
  have r: "\<bar>rnd64 v - v\<bar> \<le> 1 / 131072" if "\<bar>v\<bar> \<le> 68719476736" for v
    using rnd64_near[OF that] by simp
  have a: "\<bar>a - x / 24\<bar> \<le> 1 / 131072" unfolding a_def using bx by (intro r) linarith
  have b: "\<bar>b - a / 60\<bar> \<le> 1 / 131072" unfolding b_def using bx a by (intro r) linarith
  have q: "\<bar>q - b / 60\<bar> \<le> 1 / 131072" unfolding q_def using bx a b by (intro r) linarith
  have "\<bar>x - of_int (86400 * n)\<bar> \<le> of_int 14400"
    unfolding x_def of_int_diff[symmetric] of_int_abs[symmetric] of_int_le_iff by (rule assms(1))
  then have "\<bar>x - 86400 * of_int n\<bar> \<le> 14400" by simp
  then have n: "\<bar>x / 86400 - of_int n\<bar> \<le> 1 / 6" by linarith
  have near: "\<bar>rnd64 (q + h) - h - of_int n\<bar> < 1 / 4" if "\<bar>h\<bar> = 1 / 2" for h
  proof -
    have "\<bar>rnd64 (q + h) - (q + h)\<bar> \<le> 1 / 131072" using bx a b q that by (intro r) linarith
    with a b q n show ?thesis by linarith
  qed
  have d: "days_between t1 t2 = trunc_rat (rnd64 (if t1 < t2 then q + 1 / 2 else q + - (1 / 2)))"
    unfolding days_between_def Let_def x_def[symmetric] x by (simp add: q_def b_def a_def)
  show ?thesis
  proof (cases "t1 < t2")
    case True
    then have "0 \<le> n" using assms(1) by simp
    with trunc_near(1)[OF near[of "1 / 2"]] True show ?thesis by (simp add: d)
  next
    case False
    then have "n \<le> 0" using assms(1) by simp
    with trunc_near(2)[OF near[of "- (1 / 2)"]] False show ?thesis by (simp add: d)
  qed
qed

lemma day_number_range: "valid_date y m d \<Longrightarrow> 0 \<le> y \<Longrightarrow> y < 10000 \<Longrightarrow> \<bar>day_number y m d\<bar> \<le> 2932896"
proof -
  assume v: "valid_date y m d" and y: "0 \<le> y" "y < 10000"
  define i where "i = nat (m - 1)"
  have i: "i < 12" "1 \<le> d" "d \<le> month_lengths (leap y) ! i"
    using v by (auto simp: valid_date_def month_days_def i_def)
  have b: "days_to_year (- 1) \<le> days_to_year (y - 1)" "days_to_year y \<le> days_to_year 9999"
    using y by (auto intro: days_to_year_mono)
  have v: "days_to_year (- 1) = - 366" "days_to_year 9999 = 3652059" by (simp_all add: days_to_year_def)
  show ?thesis
    using b i days_to_month_nonneg[of "leap y" i] days_to_month_less[OF i(1), of "leap y"] year_length[of y]
    unfolding v day_number_def i_def[symmetric] by (simp add: abs_le_iff)
qed

lemma diff_days_text:
  assumes "zone_ok z" and "valid_date y m d" and "0 \<le> y" "y < 10000"
    and "valid_date y' m' d'" and "0 \<le> y'" "y' < 10000"
  shows "basCalDiffTwoDays z (date_text y m d @ r) (date_text y' m' d' @ r')
    = Some (0, Some (day_number y' m' d' - day_number y m d))"
proof -
  define t t' where "t = mktime z (- 1) (tm_of y m d 0)" and "t' = mktime z (- 1) (tm_of y' m' d' 0)"
  have m: "1 \<le> m" "m \<le> 12" "1 \<le> m'" "m' \<le> 12" using assms(2,5) by (simp_all add: valid_date_def)
  have "t \<noteq> - 1" "t' \<noteq> - 1" using instant_mod[OF assms(1)] m by (simp_all add: t_def t'_def)
  then have e: "basCalDiffTwoDays z (date_text y m d @ r) (date_text y' m' d' @ r') = Some (0, Some (days_between t t'))"
    unfolding basCalDiffTwoDays_def date_tm_text[OF valid_text_ok[OF assms(2-4)]] date_tm_text[OF valid_text_ok[OF assms(5-7)]]
    by (simp add: t_def[symmetric] t'_def[symmetric])
  have "\<bar>t + utc_offset z t - (86400 * day_number y m d + 3600 * 0 + 1)\<bar> \<le> 3600"
    unfolding t_def mktime_def local_seconds_tm_of[OF m(1,2)] by (rule zone_near[OF assms(1)])
  moreover have "\<bar>t' + utc_offset z t' - (86400 * day_number y' m' d' + 3600 * 0 + 1)\<bar> \<le> 3600"
    unfolding t'_def mktime_def local_seconds_tm_of[OF m(3,4)] by (rule zone_near[OF assms(1)])
  moreover have "\<bar>utc_offset z t - utc_offset z t'\<bar> \<le> 7200" by (rule zone_steady[OF assms(1)])
  ultimately have near: "\<bar>t' - t - 86400 * (day_number y' m' d' - day_number y m d)\<bar> \<le> 14400"
    by (simp add: abs_le_iff)
  with day_number_range[OF assms(2-4)] day_number_range[OF assms(5-7)] have "\<bar>t' - t\<bar> \<le> 2 ^ 39"
    by (simp add: abs_le_iff)
  with days_between_near[OF near] e show ?thesis by simp
qed

end
