(* ===== verification/Bas_Date_Months.thy ===== *)
theory Bas_Date_Months
  imports Bas_Date_Correct
begin

text \<open>Lemmas on the functions that count in months, on weekdays and on the checks of dates.\<close>

section \<open>Months\<close>

lemma sdiv_nonneg: "0 \<le> a \<Longrightarrow> 0 < b \<Longrightarrow> a sdiv b = a div b" "0 \<le> a \<Longrightarrow> 0 < b \<Longrightarrow> a smod b = a mod b" for a b :: int
  by (cases "a = 0"; simp add: signed_divide_int_def signed_modulo_int_def minus_div_mult_eq_mod mult.commute)+

lemma next_month:
  assumes "1 \<le> m" "m < 12"
  shows "day_number y (m + 1) d = day_number y m (d + month_days y m)"
proof -
  have "nat m = Suc (nat (m - 1))" "nat (m - 1) < 12" using assms by auto
  then show ?thesis
    by (simp add: day_number_def month_days_def days_to_month_def take_Suc_conv_app_nth)
qed

lemma december: "month_days y 12 = 31"
  by (simp add: month_days_def month_lengths_def eval_nat_numeral)

lemma next_month_valid:
  assumes "1 \<le> m" "m < 12" and "month_days y m < d" and "d \<le> 31"
  shows "valid_date y (m + 1) (d - month_days y m)"
  using assms month_days_bounds[of m y] month_days_bounds[of "m + 1" y] by (simp add: valid_date_def)

lemma date_text_inject:
  assumes "text_ok y m d" and "text_ok y' m' d'" and "date_text y m d = date_text y' m' d'"
  shows "y = y'" "m = m'" "d = d'"
proof -
  have "date_tm (date_text y m d @ []) 0 = date_tm (date_text y' m' d' @ []) 0" using assms(3) by simp
  then have "tm_of y m d 0 = tm_of y' m' d' 0" by (simp only: date_tm_text assms(1,2) option.inject)
  then show "y = y'" "m = m'" "d = d'" by (simp_all add: tm_of_def)
qed

lemma midnight_day:
  assumes "zone_ok z" and "midnights z" and "1 \<le> m" "m \<le> 12" and "t = mktime z (- 1) (tm_of y m d 0)"
  shows "(t + utc_offset z t) div 86400 = day_number y m d"
proof -
  obtain u where "u + utc_offset z u = 86400 * day_number y m d + 1" using assms(2) unfolding midnights_def by blast
  then have "t + utc_offset z t = 86400 * day_number y m d + 1"
    unfolding assms(5) mktime_def local_seconds_tm_of[OF assms(3,4)] using zone_exact[OF assms(1), of u] by simp
  then show ?thesis by simp
qed

lemma month_loop_text:
  assumes "zone_ok z" "midnights z" and "0 \<le> y" "y < 10000" and "1 \<le> m" "m \<le> 12" and "1 \<le> d" "d \<le> 31"
  shows "month_loop z (print0 4 y @ [NUL]) (print0 2 m @ [NUL]) (print0 2 d @ [NUL])
    = Some (date_text y m (min d (month_days y m)) @ [NUL])"
  using assms(7,8)
proof (induction "nat d" arbitrary: d)
  case (Suc k)
  define t where "t = mktime z (- 1) (tm_of y m d 0)"
  have t: "t \<noteq> - 1" unfolding t_def by (rule instant_mod[OF assms(1,5,6)])
  have day: "(t + utc_offset z t) div 86400 = day_number y m d"
    by (rule midnight_day[OF assms(1,2,5,6)]) (simp add: t_def)
  have ok: "text_ok y m d" using assms(3-6) Suc.prems by (simp add: text_ok_def)
  have f: "cstr (print0 4 y @ [NUL]) @ cstr (print0 2 m @ [NUL]) @ cstr (print0 2 d @ [NUL]) = date_text y m d"
    "atoi (print0 4 y @ [NUL]) = y" "atoi (print0 2 m @ [NUL]) = m" "atoi (print0 2 d @ [NUL]) = d" "atol (print0 2 d @ [NUL]) = d"
    using assms(3-6) Suc.prems by (simp_all add: date_text_def cstr_print0 ato_print0 del: cstr_append_NUL)
  have e: "month_loop z (print0 4 y @ [NUL]) (print0 2 m @ [NUL]) (print0 2 d @ [NUL])
      = (case localtime z t of None \<Rightarrow> Some (replicate 9 NUL) | Some b \<Rightarrow> do {
          caBufTmp \<leftarrow> buf_sprintf (replicate 9 NUL) (date_string b);
          if take 8 (date_text y m d @ [NUL]) = take 8 caBufTmp then Some (date_text y m d @ [NUL])
          else do {
            caDay \<leftarrow> buf_sprintf (replicate 3 NUL) (print0 2 (d - 1));
            month_loop z (print0 4 y @ [NUL]) (print0 2 m @ [NUL]) caDay } })"
    by (subst month_loop.simps, simp only: f)
      (simp add: sprintf_date[OF ok] t t_def[symmetric] del: take_append)
  show ?case
  proof (cases "d \<le> month_days y m")
    case True
    then have v: "valid_date y m d" using assms(5,6) Suc.prems by (simp add: valid_date_def)
    from gmtime_of_day[OF v assms(3,4) day] obtain b where "localtime z t = Some b" "date_string b = date_text y m d"
      unfolding localtime_def by blast
    then show ?thesis unfolding e using True by (simp add: sprintf_date[OF ok])
  next
    case False
    then have m: "m < 12" using assms(6) Suc.prems(2) december[of y] by (cases "m = 12") auto
    have v: "valid_date y (m + 1) (d - month_days y m)"
      using next_month_valid[OF assms(5) m] False Suc.prems by simp
    have "(t + utc_offset z t) div 86400 = day_number y (m + 1) (d - month_days y m)"
      using day next_month[OF assms(5) m] by simp
    from gmtime_of_day[OF v assms(3,4) this] obtain b where b: "localtime z t = Some b"
        "date_string b = date_text y (m + 1) (d - month_days y m)"
      unfolding localtime_def by blast
    have ok': "text_ok y (m + 1) (d - month_days y m)" by (rule valid_text_ok[OF v assms(3,4)])
    have neq: "date_text y m d \<noteq> date_text y (m + 1) (d - month_days y m)"
      using date_text_inject(2)[OF ok ok'] by auto
    have d: "1 \<le> d - 1" "d - 1 \<le> 31" using False Suc.prems month_days_bounds[OF assms(5,6), of y] by simp_all
    have s: "buf_sprintf (replicate 3 NUL) (print0 2 (d - 1)) = Some (print0 2 (d - 1) @ [NUL])"
      using d print0_nonneg(1)[of "d - 1" 2] by (simp add: buf_sprintf_def)
    have "month_loop z (print0 4 y @ [NUL]) (print0 2 m @ [NUL]) (print0 2 (d - 1) @ [NUL])
        = Some (date_text y m (min (d - 1) (month_days y m)) @ [NUL])"
      using Suc.hyps d by (intro Suc.hyps(1)) auto
    moreover have "min (d - 1) (month_days y m) = min d (month_days y m)" using False by simp
    ultimately show ?thesis
      unfolding e b(1) using neq s by (simp add: b(2) sprintf_date[OF ok'] field_lengths(4)[OF ok] field_lengths(4)[OF ok'])
  qed
qed simp

lemma digit_nth: "0 \<le> i \<Longrightarrow> i < 10 ^ w \<Longrightarrow> 0 < w \<Longrightarrow> j < w \<Longrightarrow> is_digit (print0 w i ! j)"
  using print0_nonneg(1,2)[of i w] by (metis nth_mem)

lemma not_blank:
  assumes "is_digit c" and "NUL \<in> set s"
  shows "basIsSpace (c # s) (strlen (c # s)) = Some False"
proof -
  have c: "c \<noteq> NUL" "c \<noteq> CHR '' ''" using assms(1) is_digit_not(1,2)[of c] by (auto simp: is_space_def)
  then have "strlen (c # s) = Suc (strlen s)" by (simp add: strlen_def)
  then show ?thesis using c assms(2) by (simp add: basIsSpace_def buf_strlen_def)
qed

lemma print_one: "print0 2 1 = ''01''"
  by code_simp

lemma add_months_text:
  assumes "zone_ok z" "midnights z" and "text_ok y m d" and "1 \<le> d" "d \<le> 31"
    and l: "l = 12 * y + m + k - 1" and "0 \<le> l" "l < 120000"
  shows "basAddMonths z (date_text y m d @ NUL # r) k
      = Some (date_text (l div 12) (l mod 12 + 1) (min d (month_days (l div 12) (l mod 12 + 1))) @ [NUL])"
    and "print0 4 y @ print0 2 m \<noteq> ''999999'' \<Longrightarrow> basAddMonths z (print0 4 y @ print0 2 m @ NUL # r) k
      = Some (print0 4 (l div 12) @ print0 2 (l mod 12 + 1) @ [NUL, CHR ''1'', NUL])"
proof -
  have b: "0 \<le> y" "y < 10000" "0 \<le> m" "m < 100" "0 \<le> d" "d < 100" using assms(3) by (simp_all add: text_ok_def)
  have q: "0 \<le> l div 12" "l div 12 < 10000" "0 \<le> l mod 12 + 1" "1 \<le> l mod 12 + 1" "l mod 12 + 1 \<le> 12" "l mod 12 + 1 < 100"
    using assms(7,8) by (simp_all add: div_less_iff_less_mult)
  let ?Y = "print0 4 y" and ?M = "print0 2 m" and ?D = "print0 2 d"
  let ?Y' = "print0 4 (l div 12)" and ?M' = "print0 2 (l mod 12 + 1)"
  obtain c Y where Y: "?Y = c # Y" "is_digit c"
    using print0_nonneg(1,2)[of y 4] b by (cases ?Y) auto
  note len = field_lengths[OF assms(3)]
  have long: "atol (?Y @ [NUL]) * 12 + atol (?M @ [NUL]) + k - 1 = l"
    using b by (simp add: ato_print0 l)
  have year: "buf_sprintf (?Y @ [NUL]) (print0 4 (int32 (l sdiv 12))) = Some (?Y' @ [NUL])"
    using assms(7) q len by (simp add: sdiv_nonneg sprintf_field)
  have month: "buf_sprintf (?M @ [NUL]) (print0 2 (int32 (l smod 12 + 1))) = Some (?M' @ [NUL])"
    using assms(7) q len by (simp add: sdiv_nonneg sprintf_field)
  show "basAddMonths z (date_text y m d @ NUL # r) k
      = Some (date_text (l div 12) (l mod 12 + 1) (min d (month_days (l div 12) (l mod 12 + 1))) @ [NUL])"
  proof -
    let ?p = "date_text y m d @ NUL # r"
    have s: "cstr ?p \<noteq> ''999999''"
    proof
      assume "cstr ?p = ''999999''"
      moreover have "cstr ?p = date_text y m d"
        using b by (subst cstr_append_NUL) (intro cstr_idem, simp add: date_text_def print0_no_NUL)
      ultimately have "length (date_text y m d) = length ''999999''" by metis
      with len(4) show False by simp
    qed
    have sp: "buf_strlen ?p = Some (strlen ?p)" "basIsSpace ?p (strlen ?p) = Some False"
      using not_blank[OF Y(2), of "Y @ ?M @ ?D @ NUL # r"] by (simp_all add: buf_strlen_def date_text_def Y(1))
    have six: "buf_load ?p 6 = Some (?D ! 0)" "?D ! 0 \<noteq> NUL"
      using len digit_nth[of d 2 0] b by (simp_all add: buf_load_def date_text_def nth_append)
    show ?thesis
      using six(2) month_loop_text[OF assms(1,2) q(1,2,4,5) assms(4,5)]
      by (simp only: basAddMonths_def sp s six fields_of_text[OF assms(3)] if_False bind.bind_lunit Let_def long year month simp_thms)
  qed
  show "basAddMonths z (?Y @ ?M @ NUL # r) k = Some (?Y' @ ?M' @ [NUL, CHR ''1'', NUL])" if "?Y @ ?M \<noteq> ''999999''"
  proof -
    let ?p = "?Y @ ?M @ NUL # r"
    have "cstr ((?Y @ ?M) @ NUL # r) = ?Y @ ?M"
      using b by (subst cstr_append_NUL) (intro cstr_idem, simp add: print0_no_NUL)
    then have s: "cstr ?p \<noteq> ''999999''" using that by simp
    have sp: "buf_strlen ?p = Some (strlen ?p)" "basIsSpace ?p (strlen ?p) = Some False"
      using not_blank[OF Y(2), of "Y @ ?M @ NUL # r"] by (simp_all add: buf_strlen_def Y(1))
    have fields: "field ?p 0 4 = Some (?Y @ [NUL])" "field ?p 4 2 = Some (?M @ [NUL])" "buf_load ?p 6 = Some NUL"
      using len by (simp_all add: field_def buf_load_def nth_append)
    have "min 1 (month_days (l div 12) (l mod 12 + 1)) = 1" using month_days_bounds[OF q(4,5), of "l div 12"] by simp
    then have loop: "month_loop z (?Y' @ [NUL]) (?M' @ [NUL]) (''01'' @ [NUL])
        = Some (date_text (l div 12) (l mod 12 + 1) 1 @ [NUL])"
      using month_loop_text[OF assms(1,2) q(1,2,4,5), of 1] print_one by simp
    have "(date_text (l div 12) (l mod 12 + 1) 1 @ [NUL])[6 := NUL] = ?Y' @ ?M' @ [NUL, CHR ''1'', NUL]"
      using q print0_nonneg(1)[of "l div 12" 4] print0_nonneg(1)[of "l mod 12 + 1" 2]
      by (simp add: date_text_def print_one list_update_append)
    then show ?thesis
      using loop by (simp only: basAddMonths_def sp s fields if_False if_True bind.bind_lunit Let_def long year month simp_thms)
  qed
qed

section \<open>Weekdays\<close>

text \<open>Sunday is 0; 1 January 1970 was a Thursday.\<close>

definition weekday :: "int \<Rightarrow> int" where
  "weekday n = (n + 4) mod 7"

definition month_start :: "int \<Rightarrow> int" where
  "month_start m = [0, 31, 59, 90, 120, 151, 181, 212, 243, 273, 304, 334] ! nat (m - 1)"

lemma days_to_month_table:
  "\<forall>m\<in>set [1..12]. \<forall>l\<in>set [True, False]. days_to_month l (nat (m - 1)) = month_start m + (if l \<and> 2 < m then 1 else 0)"
  by code_simp

lemma month_code_table:
  "\<forall>m\<in>set [1..2]. (2 * (m + 12) + 3 * (m + 13) div 5 + 719160) mod 7 = month_start m mod 7"
  "\<forall>m\<in>set [3..12]. (2 * m + 3 * (m + 1) div 5 + 365 + 719160) mod 7 = month_start m mod 7"
  by code_simp+

lemma days_to_month_start:
  assumes "1 \<le> m" "m \<le> 12"
  shows "days_to_month l (nat (m - 1)) = month_start m + (if l \<and> 2 < m then 1 else 0)"
proof -
  have "m \<in> set [1..12]" "l \<in> set [True, False]" using assms by (auto simp only: set_upto atLeastAtMost_iff list.set)
  with days_to_month_table show ?thesis by blast
qed

lemma month_code:
  assumes "1 \<le> m" "m \<le> 12"
  shows "m \<le> 2 \<Longrightarrow> (2 * (m + 12) + 3 * (m + 13) div 5 + 719160) mod 7 = month_start m mod 7"
    and "2 < m \<Longrightarrow> (2 * m + 3 * (m + 1) div 5 + 365 + 719160) mod 7 = month_start m mod 7"
proof -
  have "m \<in> set [1..2]" if "m \<le> 2" using assms that by (simp only: set_upto atLeastAtMost_iff)
  then show "m \<le> 2 \<Longrightarrow> (2 * (m + 12) + 3 * (m + 13) div 5 + 719160) mod 7 = month_start m mod 7"
    using month_code_table(1) by blast
  have "m \<in> set [3..12]" if "2 < m"
  proof -
    have "3 \<le> m" using that by simp
    with assms(2) show ?thesis by (simp only: set_upto atLeastAtMost_iff)
  qed
  then show "2 < m \<Longrightarrow> (2 * m + 3 * (m + 1) div 5 + 365 + 719160) mod 7 = month_start m mod 7"
    using month_code_table(2) by blast
qed

lemma day_number_shifted:
  assumes "1 \<le> m" "m \<le> 12"
  shows "m \<le> 2 \<Longrightarrow> day_number y m d = days_to_year (y - 1) + month_start m + d - 719163"
    and "2 < m \<Longrightarrow> day_number y m d = days_to_year y - 365 + month_start m + d - 719163"
  using days_to_month_start[OF assms] days_to_year_step[of "y - 1"] by (simp_all add: day_number_def)

lemma mod7_sum: "(a :: int) mod 7 = b mod 7 \<Longrightarrow> (c + a + x) mod 7 = (364 * y + c + b + x) mod 7"
proof -
  assume ab: "a mod 7 = b mod 7"
  have "(364 * y + c + b + x) mod 7 = (7 * (52 * y) + (c + x + b)) mod 7" by (simp add: algebra_simps)
  also have "\<dots> = (c + x + b) mod 7" by (rule mod_mult_self4)
  also have "\<dots> = (c + x + a) mod 7" by (rule mod_add_cong) (simp_all add: ab)
  finally show ?thesis by (simp add: algebra_simps)
qed

lemma week_sum:
  assumes "1 \<le> m" "m \<le> 12" and "(M, Y) = (if m \<le> 2 then (m + 12, y - 1) else (m, y))"
  shows "(d + 2 * M + 3 * (M + 1) div 5 + Y + Y div 4 - Y div 100 + Y div 400 + 1) mod 7 = weekday (day_number y m d)"
proof (cases "m \<le> 2")
  case True
  then have MY: "M = m + 12" "Y = y - 1" using assms(3) by simp_all
  have "(days_to_year Y - 364 * Y + (2 * M + 3 * (M + 1) div 5 + 719160) + (d + 1 - 719160)) mod 7
      = (364 * Y + (days_to_year Y - 364 * Y) + month_start m + (d + 1 - 719160)) mod 7"
    using month_code(1)[OF assms(1,2) True] by (intro mod7_sum) (simp add: MY add.commute)
  then show ?thesis
    unfolding weekday_def day_number_shifted(1)[OF assms(1,2) True] MY by (simp add: days_to_year_def algebra_simps)
next
  case False
  then have MY: "M = m" "Y = y" using assms(3) by simp_all
  have "(days_to_year Y - 364 * Y + (2 * M + 3 * (M + 1) div 5 + 365 + 719160) + (d + 1 - 719160 - 365)) mod 7
      = (364 * Y + (days_to_year Y - 364 * Y) + month_start m + (d + 1 - 719160 - 365)) mod 7"
    using month_code(2)[OF assms(1,2)] False by (intro mod7_sum) (simp add: MY)
  moreover have e: "day_number y m d = days_to_year y - 365 + month_start m + d - 719163"
    using day_number_shifted(2)[OF assms(1,2)] False by simp
  ultimately show ?thesis unfolding weekday_def MY e by (simp add: days_to_year_def algebra_simps)
qed

lemma chk_small: "\<bar>i\<bar> < 2 ^ 31 \<Longrightarrow> chk i = Some i"
  by (simp add: chk_def abs_less_iff)

lemma week_day:
  assumes "valid_date y m d" and "1 \<le> y" "y < 10000"
  shows "basGetWeekDay y m d = Some (weekday (day_number y m d))"
proof -
  have m: "1 \<le> m" "m \<le> 12" and d: "1 \<le> d" "d \<le> 31"
    using assms(1) month_days_bounds[of m y] by (auto simp: valid_date_def)
  define M Y where "M = (if m \<le> 2 then m + 12 else m)" and "Y = (if m \<le> 2 then y - 1 else y)"
  have b: "3 \<le> M" "M \<le> 14" "0 \<le> Y" "Y < 10000" using m assms(2,3) by (auto simp: M_def Y_def)
  define a where "a = d + 2 * M + 3 * (M + 1) div 5 + Y + Y div 4 - Y div 100 + Y div 400"
  have q: "0 \<le> 3 * (M + 1) div 5" "3 * (M + 1) div 5 \<le> 9" "0 \<le> Y div 4" "Y div 4 < 2500" "0 \<le> Y div 100"
      "Y div 100 \<le> Y div 4" "0 \<le> Y div 400" "Y div 400 < 100"
    using b by (simp_all add: div_less_iff_less_mult zdiv_mono2)
  have MY: "(if m = 1 \<or> m = 2 then (m + 12, y - 1) else (m, y)) = (M, Y)" using m by (auto simp: M_def Y_def)
  have "a mod 7 = a smod 7" using b d q by (simp add: sdiv_nonneg a_def)
  moreover have "(a + 1) mod 7 = weekday (day_number y m d)"
    unfolding a_def by (rule week_sum[OF m]) (simp add: M_def Y_def)
  moreover have "(a + 1) mod 7 = (if a mod 7 = 6 then 0 else a mod 7 + 1)" by presburger
  moreover have "0 \<le> a mod 7" by simp
  moreover have "basGetWeekDay y m d = (if a smod 7 < 0 then None else Some (if a smod 7 = 6 then 0 else a smod 7 + 1))"
    unfolding basGetWeekDay_def Let_def MY prod.case using b d q by (simp add: chk_small sdiv_nonneg a_def)
  ultimately show ?thesis by (auto split: if_splits)
qed

section \<open>Checks of dates\<close>

lemma leap_year_text:
  assumes "0 \<le> y" "y < 10000"
  shows "basIsLeapYear (print0 4 y @ [NUL]) = Some (if leap y then 1 else 0)"
  using assms by (simp add: basIsLeapYear_def buf_strlen_def ato_print0 sdiv_nonneg leap_def)

lemma month_tables:
  "\<forall>m\<in>set [1..12]. [0, 31, 29, 31, 30, 31, 30, 31, 31, 30, 31, 30, 31] ! nat m = month_lengths True ! nat (m - 1)"
  "\<forall>m\<in>set [1..12]. [0, 31, 28, 31, 30, 31, 30, 31, 31, 30, 31, 30, 31] ! nat m = month_lengths False ! nat (m - 1)"
  by code_simp+

lemma valid_date_text:
  assumes "text_ok y m d"
  shows "basIsValidDate (date_text y m d @ r) = Some (1 \<le> y \<and> valid_date y m d)"
proof -
  let ?t = "if leap y then [0, 31, 29, 31, 30, 31, 30, 31, 31, 30, 31, 30, 31] else [0, 31, 28, 31, 30, 31, 30, 31, 31, 30, 31, 30, 31 :: int]"
  have b: "0 \<le> y" "y < 10000" "0 \<le> m" "m < 100" "0 \<le> d" "d < 100" using assms by (simp_all add: text_ok_def)
  have f: "atoi (print0 4 y @ [NUL]) = y" "atoi (print0 2 m @ [NUL]) = m" "atoi (print0 2 d @ [NUL]) = d"
    using b by (simp_all add: ato_print0)
  have t: "buf_load ?t (nat m) = Some (month_days y m)" if "1 \<le> m" "m \<le> 12"
  proof -
    have "m \<in> set [1..12]" using that by (simp only: set_upto atLeastAtMost_iff)
    then have "?t ! nat m = month_days y m" unfolding month_days_def using month_tables by (cases "leap y") auto
    moreover have "nat m < 13" using that by auto
    ultimately show ?thesis by (simp add: buf_load_def)
  qed
  have "basIsValidDate (date_text y m d @ r) =
      (if 12 < m \<or> m < 1 \<or> y < 1 \<or> d < 1 then Some False else do { days \<leftarrow> buf_load ?t (nat m); Some (\<not> days < d) })"
    unfolding basIsValidDate_def fields_of_text[OF assms] Let_def
    by (simp add: f leap_year_text[OF b(1,2)])
  then show ?thesis using t by (auto simp: valid_date_def)
qed

lemma month_lists:
  "\<forall>m\<in>set [1..12]. \<forall>l\<in>set [True, False]. print0 2 (month_lengths l ! nat (m - 1))
    = (if m \<in> set [1, 3, 5, 7, 8, 10, 12] then ''31'' else if m \<in> set [4, 6, 9, 11] then ''30'' else if l then ''29'' else ''28'')"
  by code_simp

lemma last_day_text:
  assumes "text_ok y m d"
  shows "basGetLastDayOfMonth (date_text y m d @ r)
    = Some (if 1 \<le> m \<and> m \<le> 12 then (0, date_text y m (month_days y m) @ r) else (- 1, date_text y m d @ r))"
proof -
  have b: "0 \<le> y" "y < 10000" "0 \<le> m" "m < 100" using assms by (simp_all add: text_ok_def)
  note len = field_lengths[OF assms]
  have f: "atoi (print0 2 m @ [NUL]) = m" using b by (simp add: ato_print0)
  have c: "buf_copy (date_text y m d @ r) 6 x 2 = Some (print0 4 y @ print0 2 m @ x @ r)" if "length x = 2" for x
    using len that by (simp add: buf_copy_def date_text_def)
  define last where "last = (if m \<in> set [1, 3, 5, 7, 8, 10, 12] then ''31''
    else if m \<in> set [4, 6, 9, 11] then ''30'' else if leap y then ''29'' else ''28'')"
  have l: "length last = 2" by (simp add: last_def)
  have m12: "m \<in> set [1, 3, 5, 7, 8, 10, 12] \<union> set [4, 6, 9, 11] \<union> {2} \<longleftrightarrow> 1 \<le> m \<and> m \<le> 12"
  proof -
    have "1 \<le> m \<and> m \<le> 12 \<longleftrightarrow> m \<in> set [1..12]" by (simp only: set_upto atLeastAtMost_iff)
    also have "[1..12 :: int] = [1, 2, 3, 4, 5, 6, 7, 8, 9, 10, 11, 12]" by code_simp
    finally show ?thesis by auto
  qed
  have leap_last: "(if (if leap y then 1 else 0 :: int) \<noteq> 0 then ''29'' else ''28'') = (if leap y then ''29'' else ''28'')"
    by simp
  have "basGetLastDayOfMonth (date_text y m d @ r)
      = (if m \<in> set [1, 3, 5, 7, 8, 10, 12] \<union> set [4, 6, 9, 11] \<union> {2}
         then do { p \<leftarrow> buf_copy (date_text y m d @ r) 6 last 2; Some (0, p) }
         else Some (- 1, date_text y m d @ r))"
    unfolding basGetLastDayOfMonth_def fields_of_text[OF assms] Let_def bind.bind_lunit f leap_year_text[OF b(1,2)] leap_last last_def
    by (cases "m \<in> set [1, 3, 5, 7, 8, 10, 12]"; cases "m \<in> set [4, 6, 9, 11]"; cases "m = 2")
      (simp_all only: if_True if_False simp_thms Un_iff singleton_iff)
  then have "basGetLastDayOfMonth (date_text y m d @ r)
      = (if 1 \<le> m \<and> m \<le> 12 then do { p \<leftarrow> buf_copy (date_text y m d @ r) 6 last 2; Some (0, p) }
         else Some (- 1, date_text y m d @ r))"
    unfolding m12 .
  moreover have "print0 4 y @ print0 2 m @ last @ r = date_text y m (month_days y m) @ r" if "1 \<le> m" "m \<le> 12"
  proof -
    have "m \<in> set [1..12]" "leap y \<in> set [True, False]" using that by (simp only: set_upto atLeastAtMost_iff) simp
    from bspec[OF bspec[OF month_lists this(1)] this(2)] have "print0 2 (month_days y m) = last"
      unfolding month_days_def last_def .
    then show ?thesis by (simp add: date_text_def)
  qed
  ultimately show ?thesis using c[OF l] by auto
qed

section \<open>Ordinal dates\<close>

lemma ordinal_loop_sum:
  "i < length ks \<Longrightarrow> 1 \<le> r \<Longrightarrow> r \<le> ks ! i \<Longrightarrow> \<forall>k\<in>set ks. 0 < k \<Longrightarrow>
    ordinal_loop ks j (sum_list (take i ks) + r) = Some (j + i, r)"
proof (induction ks arbitrary: i j)
  case (Cons k ks)
  show ?case
  proof (cases i)
    case 0
    with Cons.prems show ?thesis by simp
  next
    case (Suc h)
    have "0 \<le> sum_list (take h ks)"
      using Cons.prems(4) by (intro sum_list_nonneg) (meson in_set_takeD less_imp_le list.set_intros(2))
    with Cons.prems Suc Cons.IH[of h "Suc j"] show ?thesis by (simp add: algebra_simps)
  qed
qed simp

lemma ordinal_loop_end: "sum_list ks < i \<Longrightarrow> \<forall>k\<in>set ks. 0 \<le> k \<Longrightarrow> ordinal_loop ks j i = None"
proof (induction ks arbitrary: i j)
  case (Cons k ks)
  have "0 \<le> sum_list ks" using Cons.prems(2) by (intro sum_list_nonneg) simp
  with Cons show ?case by simp
qed simp

lemma ordinal_date_text:
  assumes "zone_ok z" and "0 \<le> y" "1 \<le> k" "k < 1000"
  shows "k \<le> (if leap y then 366 else 365) \<Longrightarrow> \<exists>m d. valid_date y m d \<and> day_number y m d = day_number y 1 1 + k - 1
      \<and> basJulianDateToDate z (1000 * y + k) = Some (print0 2 (y mod 100) @ print0 2 m @ print0 2 d @ [NUL])"
    and "(if leap y then 366 else 365) < k \<Longrightarrow> basJulianDateToDate z (1000 * y + k) = None"
proof -
  have q: "(1000 * y + k) sdiv 1000 = y" "(1000 * y + k) smod 1000 = k" using assms(2-4) by (simp_all add: sdiv_nonneg)
  have e: "basJulianDateToDate z (1000 * y + k) = do {
      (j, i) \<leftarrow> ordinal_loop (month_lengths (leap y)) 0 k;
      if mktime z (- 1) (tm_of y (int j) i 0) = - 1 then Some (spaces 7)
      else buf_sprintf (spaces 7) (print0 2 (y mod 100) @ print0 2 (int j + 1) @ print0 2 i) }"
    unfolding basJulianDateToDate_def q Let_def month_lengths_def leap_def using assms(2) by (simp add: sdiv_nonneg)
  show "basJulianDateToDate z (1000 * y + k) = None" if "(if leap y then 366 else 365) < k"
    unfolding e using that month_lengths_pos[of "leap y"] ordinal_loop_end[of "month_lengths (leap y)" k 0]
    by (simp add: month_lengths_sum less_imp_le)
  assume k: "k \<le> (if leap y then 366 else 365)"
  obtain i r where i: "i < 12" "0 \<le> r" "r < month_lengths (leap y) ! i" "k - 1 = sum_list (take i (month_lengths (leap y))) + r"
    using month_of_exists[OF _ _ month_lengths_pos, of "k - 1" "leap y"] k assms(3) by (auto simp: month_lengths_sum split: if_splits)
  have "ordinal_loop (month_lengths (leap y)) 0 (sum_list (take i (month_lengths (leap y))) + (r + 1)) = Some (0 + i, r + 1)"
    using i by (intro ordinal_loop_sum) (simp_all add: month_lengths_pos)
  then have loop: "ordinal_loop (month_lengths (leap y)) 0 k = Some (i, r + 1)" using i(4) by (simp add: algebra_simps)
  have v: "valid_date y (int i + 1) (r + 1)" "day_number y (int i + 1) (r + 1) = day_number y 1 1 + k - 1"
    using i by (simp_all add: valid_date_def month_days_def day_number_def days_to_month_def)
  have "local_seconds (tm_of y (int i) (r + 1) 0)
      = 60 * (1440 * (day_number (y + (int i - 1) div 12) ((int i - 1) mod 12 + 1) 1 + r)) + 1"
    by (simp add: local_seconds_def tm_of_def)
  then have "local_seconds (tm_of y (int i) (r + 1) 0) mod 60 = 1" by (simp only: mod_mult_self4) simp
  from not_minus_one[OF assms(1) this] have t: "mktime z (- 1) (tm_of y (int i) (r + 1) 0) \<noteq> - 1" by (simp add: mktime_def)
  have len: "length (print0 2 (y mod 100)) = 2" "length (print0 2 (int i + 1)) = 2" "length (print0 2 (r + 1)) = 2"
    using i month_days_bounds[of "int i + 1" y] v(1) by (simp_all add: print0_nonneg valid_date_def)
  have "basJulianDateToDate z (1000 * y + k) = Some (print0 2 (y mod 100) @ print0 2 (int i + 1) @ print0 2 (r + 1) @ [NUL])"
    unfolding e loop using t len by (simp add: buf_sprintf_def spaces_def)
  with v show "\<exists>m d. valid_date y m d \<and> day_number y m d = day_number y 1 1 + k - 1
      \<and> basJulianDateToDate z (1000 * y + k) = Some (print0 2 (y mod 100) @ print0 2 m @ print0 2 d @ [NUL])"
    by blast
qed

end
