(* ===== verification/Bas_Date_Properties.thy ===== *)
theory Bas_Date_Properties
  imports Bas_Date_Months
begin

text \<open>The properties of the date functions.\<close>

section \<open>Days\<close>

text \<open>
  (C20) Adding days. In any time zone whose offsets differ by at most two hours \<^verbatim>\<open>basAddDays\<close> moves a
  date by exactly \<open>n\<close> days of the Gregorian calendar, over months, years and leap days and across changes of the
  clock; \<^verbatim>\<open>basSubDays\<close> moves back, and \<^verbatim>\<open>basCalDiffTwoDays\<close>, which divides seconds in floating point
  and rounds, finds the \<open>n\<close> days again.
\<close>

theorem add_days:
  assumes "zone_ok z" and "valid_date y m d" and "0 \<le> y" "y < 10000" and "\<bar>n\<bar> \<le> 24855"
    and "civil (day_number y m d + n) = (y', m', d')" and "0 \<le> y'" "y' < 10000"
  shows "valid_date y' m' d'
    \<and> basAddDays z (date_text y m d @ r) n = Some (date_text y' m' d' @ [NUL])
    \<and> basSubDays z (date_text y' m' d' @ r') n = Some (date_text y m d @ [NUL])
    \<and> basCalDiffTwoDays z (date_text y m d @ r) (date_text y' m' d' @ r') = Some (0, Some n)"
proof -
  have v: "valid_date y' m' d'" "day_number y' m' d' = day_number y m d + n"
    using day_number_civil[of "day_number y m d + n"] assms(6) by (metis prod.inject)+
  have "basSubDays z (date_text y' m' d' @ r') n = basAddDays z (date_text y' m' d' @ r') (- n)"
    using assms(5) by (simp add: basSubDays_def chk_small)
  also have "\<dots> = Some (date_text y m d @ [NUL])"
    by (rule add_days_text[OF assms(1) v(1) assms(7,8) _ assms(2-4)]) (use assms(5) v(2) in simp_all)
  finally show ?thesis
    using v add_days_text[OF assms(1-5) v(1) assms(7,8) v(2)] diff_days_text[OF assms(1-4) v(1) assms(7,8)] by simp
qed

theorem add_days_witness:
  "basAddDays beijing (date_text 2024 2 28 @ [NUL]) 2 = Some (date_text 2024 3 1 @ [NUL])
    \<and> basCalDiffTwoDays beijing (date_text 2024 2 28 @ [NUL]) (date_text 2024 3 1 @ [NUL]) = Some (0, Some 2)"
proof -
  have "valid_date 2024 2 28" "civil (day_number 2024 2 28 + 2) = (2024, 3, 1)" by code_simp+
  with add_days[OF beijing_ok(1), of 2024 2 28 2 2024 3 1 "[NUL]" "[NUL]"] show ?thesis by simp
qed

text \<open> More than 24855 days, some 68 years, cannot be added: the number of seconds is computed in \<^verbatim>\<open>int\<close> and
  overflows.
\<close>

theorem add_days_overflow:
  assumes "zone_ok z" and "valid_date y m d" and "0 \<le> y" "y < 10000"
  shows "24855 < n \<Longrightarrow> basAddDays z (date_text y m d @ r) n = None"
proof -
  assume "24855 < n"
  then have "chk (n * (24 * 60 * 60)) = None" by (simp add: chk_def)
  moreover have "mktime z (- 1) (tm_of y m d 3) \<noteq> - 1"
    using assms(2) by (intro instant_mod[OF assms(1)]) (simp_all add: valid_date_def)
  ultimately show ?thesis
    unfolding basAddDays_def date_tm_text[OF valid_text_ok[OF assms(2-4)]] by (simp only: bind.bind_lunit Let_def if_False) simp
qed

theorem add_days_overflow_witness: "basAddDays beijing (date_text 1980 1 1 @ [NUL]) 24856 = None"
proof -
  have "valid_date 1980 1 1" by code_simp
  from add_days_overflow[OF beijing_ok(1) this, of 24856 "[NUL]"] show ?thesis by simp
qed

section \<open>Months\<close>

text \<open>
  (C21) Adding months. \<^verbatim>\<open>basAddMonths\<close> moves a date by \<open>k\<close> months and takes the last day of a month that is too
  short for the day; the loop that looks for it ends. A month without a day stays one. The clock must not be put
  forward at midnight.
\<close>

theorem add_months:
  assumes "zone_ok z" "midnights z" and "valid_date y m d" and "0 \<le> y" "y < 10000"
    and "0 \<le> 12 * y + m + k - 1" "12 * y + m + k - 1 < 120000"
  shows "\<exists>y' m'. 12 * y' + m' = 12 * y + m + k \<and> 1 \<le> m' \<and> m' \<le> 12
    \<and> basAddMonths z (date_text y m d @ NUL # r) k = Some (date_text y' m' (min d (month_days y' m')) @ [NUL])
    \<and> map_option cstr (basAddMonths z (print0 4 y @ print0 2 m @ NUL # r) k) = Some (print0 4 y' @ print0 2 m')"
proof -
  define l where "l = 12 * y + m + k - 1"
  have d: "text_ok y m d" "1 \<le> d" "d \<le> 31" and m: "1 \<le> m" "m \<le> 12"
    using valid_text_ok[OF assms(3-5)] assms(3) month_days_bounds[of m y] by (auto simp: valid_date_def)
  have "print0 4 y @ print0 2 m \<noteq> ''999999''"
  proof
    assume "print0 4 y @ print0 2 m = ''999999''"
    then have "drop 4 (print0 4 y @ print0 2 m) = drop 4 ''999999''" by simp
    then have "print0 2 m = ''99''" using field_lengths(1)[OF d(1)] by simp
    moreover have "digits_value 0 (print0 2 m) = m" using print0_nonneg(3)[of m 2] m by simp
    ultimately have "m = digits_value 0 ''99''" by simp
    also have "\<dots> = 99" by code_simp
    finally show False using m by simp
  qed
  moreover have "cstr (print0 4 (l div 12) @ print0 2 (l mod 12 + 1) @ [NUL, CHR ''1'', NUL])
      = print0 4 (l div 12) @ print0 2 (l mod 12 + 1)"
  proof -
    have "0 \<le> l div 12" "l div 12 < 10000" using assms(6,7) by (simp_all add: l_def div_less_iff_less_mult)
    moreover have "0 \<le> l mod 12 + 1" "l mod 12 + 1 < 100" by simp_all
    ultimately have "NUL \<notin> set (print0 4 (l div 12) @ print0 2 (l mod 12 + 1))" by (simp add: print0_no_NUL)
    then show ?thesis
      using cstr_append_NUL[of "print0 4 (l div 12) @ print0 2 (l mod 12 + 1)" "[CHR ''1'', NUL]"] by simp
  qed
  ultimately show ?thesis
    using add_months_text[OF assms(1,2) d l_def assms(6,7)[folded l_def]] l_def
    by (intro exI[of _ "l div 12"] exI[of _ "l mod 12 + 1"]) simp
qed

theorem add_months_witness:
  "\<exists>y' m'. 12 * y' + m' = 12 * 2023 + 1 + 13 \<and> 1 \<le> m' \<and> m' \<le> 12
    \<and> basAddMonths beijing (date_text 2023 1 31 @ NUL # []) 13 = Some (date_text y' m' (min 31 (month_days y' m')) @ [NUL])
    \<and> map_option cstr (basAddMonths beijing (print0 4 2023 @ print0 2 1 @ NUL # []) 13) = Some (print0 4 y' @ print0 2 m')"
proof -
  have "valid_date 2023 1 31" by code_simp
  from add_months[OF beijing_ok this, of 13 "[]"] show ?thesis by simp
qed

section \<open>Weekdays, checks, ordinal dates\<close>

text \<open>
  (C22) \<^verbatim>\<open>basGetWeekDayByDate\<close>, a variant of Zeller's congruence, gives the weekday of every date from year 1 on:
  the remainder by seven of the number of days since a known Thursday.
\<close>

theorem week_day_by_date:
  assumes "valid_date y m d" and "1 \<le> y" "y < 10000"
  shows "basGetWeekDayByDate (date_text y m d @ r) = Some (weekday (day_number y m d))"
proof -
  have ok: "text_ok y m d" using assms by (intro valid_text_ok) simp_all
  then have "0 \<le> y" "y < 10000" "0 \<le> m" "m < 100" "0 \<le> d" "d < 100" by (simp_all add: text_ok_def)
  then show ?thesis
    unfolding basGetWeekDayByDate_def fields_of_text[OF ok] by (simp add: ato_print0 week_day[OF assms])
qed

theorem week_day_by_date_witness: "basGetWeekDayByDate (date_text 2000 1 1 @ [NUL]) = Some 6"
proof -
  have "valid_date 2000 1 1" "weekday (day_number 2000 1 1) = 6" by code_simp+
  with week_day_by_date[OF this(1), of "[NUL]"] show ?thesis by simp
qed

text \<open>
  (C23) \<^verbatim>\<open>basIsValidDate\<close> decides whether eight digits are a date of the calendar from year 1 on, and
  \<^verbatim>\<open>basGetLastDayOfMonth\<close> puts the last day of the month in its place, or fails for a month that does not exist.
\<close>

theorem valid_and_last_day:
  assumes "text_ok y m d"
  shows "basIsValidDate (date_text y m d @ r) = Some (1 \<le> y \<and> valid_date y m d)
    \<and> basGetLastDayOfMonth (date_text y m d @ r)
      = Some (if 1 \<le> m \<and> m \<le> 12 then (0, date_text y m (month_days y m) @ r) else (- 1, date_text y m d @ r))"
  using valid_date_text[OF assms] last_day_text[OF assms] by blast

theorem valid_and_last_day_witness:
  "basIsValidDate (date_text 1900 2 29 @ [NUL]) = Some False
    \<and> basGetLastDayOfMonth (date_text 1900 2 29 @ [NUL]) = Some (0, date_text 1900 2 28 @ [NUL])"
proof -
  have "text_ok 1900 2 29" "\<not> valid_date 1900 2 29" "month_days 1900 2 = 28" by code_simp+
  with valid_and_last_day[OF this(1), of "[NUL]"] show ?thesis by simp
qed

text \<open> Ordinal dates. \<^verbatim>\<open>basJulianDateToDate\<close> finds month and day of day \<open>k\<close> of a year; for a \<open>k\<close> beyond the end of the
  year its loop leaves the array of month lengths.
\<close>

theorem ordinal_date:
  assumes "zone_ok z" and "0 \<le> y" and "1 \<le> k" "k < 1000"
  shows "if k \<le> (if leap y then 366 else 365)
    then \<exists>m d. valid_date y m d \<and> day_number y m d = day_number y 1 1 + k - 1
      \<and> basJulianDateToDate z (1000 * y + k) = Some (print0 2 (y mod 100) @ print0 2 m @ print0 2 d @ [NUL])
    else basJulianDateToDate z (1000 * y + k) = None"
  using ordinal_date_text[OF assms] by (simp split: if_splits)

theorem ordinal_date_witness:
  "(\<exists>m d. valid_date 2024 m d \<and> day_number 2024 m d = day_number 2024 1 1 + 60 - 1
      \<and> basJulianDateToDate beijing (1000 * 2024 + 60) = Some (print0 2 (2024 mod 100) @ print0 2 m @ print0 2 d @ [NUL]))
    \<and> basJulianDateToDate beijing (1000 * 2024 + 367) = None"
proof -
  have "leap 2024" by code_simp
  with ordinal_date[OF beijing_ok(1), of 2024 60] ordinal_date[OF beijing_ok(1), of 2024 367] show ?thesis by simp
qed

text \<open> The converse \<^verbatim>\<open>basDateToJulianDate\<close> is undefined for every date: its five digits and the terminator do not fit
  into the static array of five bytes.
\<close>

theorem date_to_ordinal_overflows:
  assumes "zone_ok z" "midnights z" and "valid_date y m d" and "0 \<le> y" "y < 10000"
  shows "basDateToJulianDate z (date_text y m d @ r) = None"
proof -
  define t where "t = mktime z (- 1) (tm_of y m d 0)"
  have m: "1 \<le> m" "m \<le> 12" using assms(3) by (simp_all add: valid_date_def)
  have t: "t \<noteq> - 1" unfolding t_def by (rule instant_mod[OF assms(1) m])
  have "(t + utc_offset z t) div 86400 = day_number y m d"
    by (rule midnight_day[OF assms(1,2) m]) (simp add: t_def)
  from gmtime_of_day[OF assms(3-5) this] obtain b where b: "localtime z t = Some b" unfolding localtime_def by blast
  have long: "w \<le> length (print0 w i)" for w i by (simp add: print0_def Let_def)
  have "5 \<le> length (print0 2 x @ print0 3 x')" for x x' using long[of 2 x] long[of 3 x'] by simp
  then have none: "buf_sprintf (spaces 5) (print0 2 x @ print0 3 x') = None" for x x'
    unfolding buf_sprintf_def by (simp add: not_less)
  show ?thesis
    unfolding basDateToJulianDate_def date_tm_text[OF valid_text_ok[OF assms(3-5)]] bind.bind_lunit Let_def t_def[symmetric]
    using t by (simp add: b none)
qed

theorem date_to_ordinal_overflows_witness: "basDateToJulianDate beijing (date_text 2024 2 29 @ [NUL]) = None"
proof -
  have "valid_date 2024 2 29" by code_simp
  from date_to_ordinal_overflows[OF beijing_ok this, of "[NUL]"] show ?thesis by simp
qed

section \<open>Times\<close>

text \<open> \<^verbatim>\<open>basMakeTime\<close> stores the month as it is read where \<^verbatim>\<open>mktime\<close> counts from 0, so it gives the instant one month
  later, and \<^verbatim>\<open>basDiffTime\<close> is wrong between months of different length: from 28 February to 1 March 2024 it finds 96
  hours instead of 48.
\<close>

theorem diff_time_wrong:
  "basDiffTime \<lparr>now = 0, now_usec = None, tz = beijing\<rparr> (''20240228000000'' @ [NUL]) (''20240301000000'' @ [NUL])
      = Some (''96:00:00'' @ replicate 92 NUL)
    \<and> basCalDiffTwoDays beijing (date_text 2024 2 28 @ [NUL]) (date_text 2024 3 1 @ [NUL]) = Some (0, Some 2)"
proof
  let ?c = "\<lparr>now = 0, now_usec = None, tz = beijing\<rparr>"
  have t: "basMakeTime ?c (''20240228000000'' @ [NUL]) = Some 1711555200" "basMakeTime ?c (''20240301000000'' @ [NUL]) = Some 1711900800"
    by code_simp+
  have "rnd64 (of_int (1711900800 - 1711555200)) = of_int 345600" by (subst rnd64_int) simp_all
  then have s: "trunc_rat (rnd64 (of_int (1711900800 - 1711555200))) = 345600" by (simp add: trunc_rat_def)
  have p: "buf_sprintf (replicate 100 NUL) (print0 2 96 @ '':'' @ print0 2 0 @ '':'' @ print0 2 0) = Some (''96:00:00'' @ replicate 92 NUL)"
    by code_simp
  show "basDiffTime ?c (''20240228000000'' @ [NUL]) (''20240301000000'' @ [NUL]) = Some (''96:00:00'' @ replicate 92 NUL)"
    unfolding basDiffTime_def t bind.bind_lunit Let_def using s p by (simp add: sdiv_nonneg)
  have "valid_date 2024 2 28" "valid_date 2024 3 1" "day_number 2024 3 1 - day_number 2024 2 28 = 2" by code_simp+
  then show "basCalDiffTwoDays beijing (date_text 2024 2 28 @ [NUL]) (date_text 2024 3 1 @ [NUL]) = Some (0, Some 2)"
    using diff_days_text[OF beijing_ok(1), of 2024 2 28 2024 3 1 "[NUL]" "[NUL]"] by simp
qed

end
