(* ===== verification/Bas_Hash_Table.thy ===== *)
theory Bas_Hash_Table
  imports C_Prelude
begin

unbundle bit_operations_syntax

text \<open>
  The hash table of the base library, \<^verbatim>\<open>Excellent_Code/Lib_bas/bas_hash_table.c\<close>: open addressing in an
  array whose size is a power of two, with the probe sequence \<^verbatim>\<open>5 * slot + 1 + perturb\<close>. The initial
  size, the factor of an expansion and the load limit for each size are macros of a header outside
  the repository and arguments here (\<open>settings\<close>), as are the results of \<^verbatim>\<open>malloc\<close> and \<^verbatim>\<open>realloc\<close>.

  A null slot is \<open>None\<close>. The outer \<open>None\<close> of an operation is undefined behaviour (a slot outside the
  array) or a search that does not end. An array lost by a failed \<^verbatim>\<open>realloc\<close> is the empty list.
\<close>

section \<open>Types\<close>

record ('k, 'v) T_HashEntry =
  iHashValue :: "32 word"
  pvKey :: 'k
  pvValue :: 'v

record ('k, 'v) T_HashTable =
  pptTable :: "('k, 'v) T_HashEntry option list"
  iUsed :: int
  iMask :: "32 word"
  iLimit :: int
  pfHashFunc :: "'k \<Rightarrow> 32 word"
  pfHashEqualFunc :: "'k \<Rightarrow> 'k \<Rightarrow> int"
  iFreeKey :: bool
  iFreeValue :: bool

record settings =
  init_size :: nat
  multiplicand :: nat
  limit_of :: "nat \<Rightarrow> int"

text \<open>What an operation frees\<close>

datatype ('k, 'v) freed = Freed_Key 'k | Freed_Value 'v | Freed_Entry "('k, 'v) T_HashEntry" | Freed_Array | Freed_Table

section \<open>Operations\<close>

definition basHashTableCreate ::
  "settings \<Rightarrow> bool \<times> bool \<Rightarrow> ('k \<Rightarrow> 32 word) \<Rightarrow> ('k \<Rightarrow> 'k \<Rightarrow> int) \<Rightarrow> bool \<Rightarrow> bool \<Rightarrow> ('k, 'v) T_HashTable option" where
  "basHashTableCreate c mem hashf eq fk fv =
    (if \<not> fst mem then None
     else if \<not> snd mem then None
     else Some \<lparr>pptTable = replicate (init_size c) None, iUsed = 0, iMask = word_of_nat (init_size c - 1),
       iLimit = limit_of c (init_size c), pfHashFunc = hashf, pfHashEqualFunc = eq, iFreeKey = fk, iFreeValue = fv\<rparr>)"

definition mix :: "32 word \<Rightarrow> 32 word" where
  "mix k = (let k = k + NOT (push_bit 9 k); k = k XOR (drop_bit 14 k OR push_bit 18 k); k = k + push_bit 4 k
            in k XOR (drop_bit 10 k OR push_bit 22 k))"

definition basDefaultHashFunc :: "8 word list \<Rightarrow> 32 word" where
  "basDefaultHashFunc s = fold (\<lambda>b k. mix k + ucast b) s 0"

definition hash :: "('k, 'v) T_HashTable \<Rightarrow> 'k \<Rightarrow> 32 word" where
  "hash t k = mix (pfHashFunc t k)"

partial_function (option) slot_loop ::
  "'e option list \<Rightarrow> 32 word \<Rightarrow> ('e \<Rightarrow> bool) \<Rightarrow> 32 word \<Rightarrow> 32 word \<Rightarrow> nat option" where
  "slot_loop tab msk stop slot perturb =
    (if length tab \<le> unat slot then None
     else case tab ! unat slot of
       None \<Rightarrow> Some (unat slot)
     | Some e \<Rightarrow> if stop e then Some (unat slot)
         else slot_loop tab msk stop ((5 * slot + 1 + perturb) AND msk) (drop_bit 5 perturb))"

text \<open>The loop leaves at an entry with the same hash value, or with the same key.\<close>

definition same_entry :: "('k, 'v) T_HashTable \<Rightarrow> 32 word \<Rightarrow> 'k \<Rightarrow> ('k, 'v) T_HashEntry \<Rightarrow> bool" where
  "same_entry t h k e \<longleftrightarrow> \<not> (iHashValue e \<noteq> h \<and> pfHashEqualFunc t k (pvKey e) \<noteq> 0)"

definition basInnerHashTableSearch :: "('k, 'v) T_HashTable \<Rightarrow> 'k \<Rightarrow> int option" where
  "basInnerHashTableSearch t k =
    (let h = hash t k in
     map_option (\<lambda>p. if pptTable t ! p = None then - 1 else int p)
       (slot_loop (pptTable t) (iMask t) (same_entry t h k) (h AND iMask t) h))"

text \<open>\<^verbatim>\<open>NULL\<close> is the inner \<open>None\<close>.\<close>

definition basHashTableSearch :: "('k, 'v) T_HashTable \<Rightarrow> 'k \<Rightarrow> 'v option option" where
  "basHashTableSearch t k = do {
     i \<leftarrow> basInnerHashTableSearch t k;
     Some (if 0 \<le> i then map_option pvValue (pptTable t ! nat i) else None) }"

text \<open>
  Moving an entry of the old array; \<open>junk\<close> is the uninitialised \<^verbatim>\<open>iHashValue\<close> that the condition of
  the loop compares with.
\<close>

definition move_entry ::
  "('k, 'v) T_HashTable \<Rightarrow> 32 word \<Rightarrow> ('k, 'v) T_HashEntry option \<Rightarrow> ('k, 'v) T_HashEntry option list
    \<Rightarrow> ('k, 'v) T_HashEntry option list option" where
  "move_entry t junk slot tab = (case slot of
     None \<Rightarrow> Some tab
   | Some e \<Rightarrow> do {
       p \<leftarrow> slot_loop tab (iMask t) (same_entry t junk (pvKey e)) (iHashValue e AND iMask t) (iHashValue e);
       Some (tab[p := Some e]) })"

definition basHashTableExpand ::
  "settings \<Rightarrow> bool \<times> bool \<Rightarrow> (nat \<Rightarrow> 32 word) \<Rightarrow> ('k, 'v) T_HashTable \<Rightarrow> (int \<times> ('k, 'v) T_HashTable) option" where
  "basHashTableExpand c mem junk t =
    (let iOldSize = unat (iMask t) + 1; iNewSize = iOldSize * multiplicand c in
     if \<not> fst mem then Some (- 1, t)
     else if length (pptTable t) < iOldSize then None
     else if \<not> snd mem then Some (- 1, t\<lparr>pptTable := []\<rparr>)
     else let t = t\<lparr>iMask := word_of_nat (iNewSize - 1), iLimit := limit_of c iNewSize\<rparr>
       in do {
         tab \<leftarrow> foldM (\<lambda>i tab. move_entry t (junk i) (pptTable t ! i) tab) [0..<iOldSize] (replicate iNewSize None);
         Some (0, t\<lparr>pptTable := tab\<rparr>) })"

definition basHashTableInsert ::
  "settings \<Rightarrow> bool \<times> bool \<times> bool \<Rightarrow> (nat \<Rightarrow> 32 word) \<Rightarrow> ('k, 'v) T_HashTable \<Rightarrow> 'k \<Rightarrow> 'v
    \<Rightarrow> (int \<times> ('k, 'v) T_HashTable) option" where
  "basHashTableInsert c mem junk t k v = do {
     i \<leftarrow> basInnerHashTableSearch t k;
     if 0 \<le> i then Some (0, t\<lparr>pptTable := (pptTable t)[nat i := map_option (\<lambda>e. e\<lparr>pvValue := v\<rparr>) (pptTable t ! nat i)]\<rparr>)
     else do {
       let t = t\<lparr>iUsed := iUsed t + 1\<rparr>;
       (r, t) \<leftarrow> (if iLimit t < iUsed t then basHashTableExpand c (fst mem, fst (snd mem)) junk t else Some (0, t));
       if r \<noteq> 0 then Some (- 1, t)
       else if \<not> snd (snd mem) then Some (- 1, t)
       else do {
         let h = hash t k;
         p \<leftarrow> slot_loop (pptTable t) (iMask t) (same_entry t h k) (h AND iMask t) h;
         Some (0, t\<lparr>pptTable := (pptTable t)[p := Some \<lparr>iHashValue = h, pvKey = k, pvValue = v\<rparr>]\<rparr>) } } }"

definition basHashTableRemove ::
  "('k, 'v) T_HashTable \<Rightarrow> 'k \<Rightarrow> ('v option \<times> ('k, 'v) freed list \<times> ('k, 'v) T_HashTable) option" where
  "basHashTableRemove t k = do {
     i \<leftarrow> basInnerHashTableSearch t k;
     if 0 \<le> i
     then do {
       e \<leftarrow> pptTable t ! nat i;
       Some (Some (pvValue e), (if iFreeKey t then [Freed_Key (pvKey e)] else []) @ [Freed_Entry e],
         t\<lparr>pptTable := (pptTable t)[nat i := None], iUsed := iUsed t - 1\<rparr>) }
     else Some (None, [], t) }"

definition free_slot :: "('k, 'v) T_HashTable \<Rightarrow> ('k, 'v) T_HashEntry option \<Rightarrow> ('k, 'v) freed list" where
  "free_slot t slot = (case slot of None \<Rightarrow> []
   | Some e \<Rightarrow> (if iFreeKey t then [Freed_Key (pvKey e)] else []) @ (if iFreeValue t then [Freed_Value (pvValue e)] else [])
       @ [Freed_Entry e])"

definition basHashTableDestroy :: "('k, 'v) T_HashTable \<Rightarrow> ('k, 'v) freed list option" where
  "basHashTableDestroy t =
    (if length (pptTable t) < unat (iMask t) + 1 then None
     else Some (concat (map (free_slot t) (take (unat (iMask t) + 1) (pptTable t))) @ [Freed_Array, Freed_Table]))"

section \<open>The probe sequence\<close>

text \<open>Once the perturbation is used up, the next slot is \<open>5 s + 1\<close> modulo the size, and that visits every slot.\<close>

lemma five_power: "\<exists>u :: int. odd u \<and> 5 ^ 2 ^ c = 1 + 2 ^ (c + 2) * u"
proof (induction c)
  case 0
  have "(5 :: int) ^ 2 ^ 0 = 1 + 2 ^ (0 + 2) * 1" by simp
  then show ?case by (intro exI[of _ 1]) simp
next
  case (Suc c)
  then obtain u :: int where u: "odd u" "5 ^ 2 ^ c = 1 + 2 ^ (c + 2) * u" by blast
  have "(5 :: int) ^ 2 ^ Suc c = (5 ^ 2 ^ c) * (5 ^ 2 ^ c)" by (simp add: mult_2 power_add)
  also have "\<dots> = 1 + 2 ^ (Suc c + 2) * (u + 2 ^ (c + 1) * u * u)"
    unfolding u(2) by (simp add: algebra_simps power_add)
  finally show ?case using u(1) by (intro exI[of _ "u + 2 ^ (c + 1) * u * u"]) simp
qed

lemma five_generates: "a mod 4 = 1 \<Longrightarrow> \<exists>n. (2 :: int) ^ (c + 2) dvd 5 ^ n - a"
proof (induction c)
  case 0
  have "(4 :: int) dvd 5 ^ 0 - a" using 0 by simp presburger
  then show ?case by (intro exI[of _ 0]) simp
next
  case (Suc c)
  then obtain n where n: "(2 :: int) ^ (c + 2) dvd 5 ^ n - a" by blast
  then obtain q where q: "5 ^ n = a + 2 ^ (c + 2) * q" by (metis add_diff_cancel_left' dvdE diff_add_cancel add.commute)
  show ?case
  proof (cases "even q")
    case True
    then obtain r where "q = 2 * r" ..
    with q show ?thesis by (intro exI[of _ n]) simp
  next
    case False
    obtain u :: int where u: "odd u" "5 ^ 2 ^ c = 1 + 2 ^ (c + 2) * u" using five_power by blast
    have "5 ^ (n + 2 ^ c) - a = 2 ^ (c + 2) * (q + a * u + 2 ^ (c + 2) * q * u)"
      unfolding power_add q u(2) by (simp add: algebra_simps)
    moreover have "odd a" using Suc.prems by presburger
    then have "even (q + a * u + 2 ^ (c + 2) * q * u)" using False u(1) by simp
    then obtain w where "q + a * u + 2 ^ (c + 2) * q * u = 2 * w" ..
    ultimately have "5 ^ (n + 2 ^ c) - a = 2 ^ (Suc c + 2) * w" by simp
    then show ?thesis by (intro exI[of _ "n + 2 ^ c"]) simp
  qed
qed

definition next_slot :: "nat \<Rightarrow> nat \<Rightarrow> nat" where
  "next_slot b s = (5 * s + 1) mod 2 ^ b"

lemma next_slot_power: "\<exists>q. 4 * int ((next_slot b ^^ n) s) + 1 = 5 ^ n * (4 * int s + 1) + 2 ^ (b + 2) * q"
proof (induction n)
  case 0
  show ?case by (intro exI[of _ 0]) simp
next
  case (Suc n)
  then obtain q where q: "4 * int ((next_slot b ^^ n) s) + 1 = 5 ^ n * (4 * int s + 1) + 2 ^ (b + 2) * q" by blast
  let ?x = "(next_slot b ^^ n) s"
  have "int (next_slot b ?x) = (5 * int ?x + 1) mod 2 ^ b" by (simp add: next_slot_def zmod_int add.commute)
  also have "\<dots> = 5 * int ?x + 1 - 2 ^ b * ((5 * int ?x + 1) div 2 ^ b)" by (simp add: minus_mult_div_eq_mod)
  finally have "4 * int (next_slot b ?x) + 1 = 5 * (4 * int ?x + 1) - 2 ^ (b + 2) * ((5 * int ?x + 1) div 2 ^ b)"
    by (simp add: power_add)
  also have "\<dots> = 5 ^ Suc n * (4 * int s + 1) + 2 ^ (b + 2) * (5 * q - (5 * int ?x + 1) div 2 ^ b)"
    unfolding q by (simp add: algebra_simps)
  finally show ?case by auto
qed

lemma power_one_plus: "\<exists>w. (1 + M * u) ^ n = 1 + M * w" for M u :: int
proof (induction n)
  case 0
  show ?case by (intro exI[of _ 0]) simp
next
  case (Suc n)
  then obtain w where w: "(1 + M * u) ^ n = 1 + M * w" by blast
  have "(1 + M * u) ^ Suc n = 1 + M * (w + u + u * (M * w))" by (simp add: w algebra_simps)
  then show ?case by blast
qed

lemma five_log: "\<exists>n p. 5 ^ n = 4 * x + 1 + (2 :: int) ^ (b + 2) * p"
proof -
  have "(4 * x + 1) mod 4 = 1" by presburger
  from five_generates[OF this] obtain n where "(2 :: int) ^ (b + 2) dvd 5 ^ n - (4 * x + 1)" by blast
  then obtain p where "5 ^ n - (4 * x + 1) = 2 ^ (b + 2) * p" ..
  then have "5 ^ n = 4 * x + 1 + 2 ^ (b + 2) * p" by linarith
  then show ?thesis by blast
qed

lemma next_slot_reaches:
  assumes "s < 2 ^ b" and "r < 2 ^ b"
  shows "\<exists>n. (next_slot b ^^ n) s = r"
proof -
  define M where "M = (2 :: int) ^ (b + 2)"
  define k where "k = (2 :: nat) ^ b"
  obtain n1 p1 where n1: "5 ^ n1 = 4 * int s + 1 + M * p1" using five_log unfolding M_def by blast
  obtain n2 p2 where n2: "5 ^ n2 = 4 * int r + 1 + M * p2" using five_log unfolding M_def by blast
  obtain u where u: "5 ^ k = 1 + M * u" using five_power[of b] unfolding M_def k_def by blast
  obtain w where w: "(1 + M * u) ^ n1 = 1 + M * w" using power_one_plus by blast
  define n where "n = n2 + (k - 1) * n1"
  obtain q where q: "4 * int ((next_slot b ^^ n) s) + 1 = 5 ^ n * (4 * int s + 1) + M * q"
    using next_slot_power unfolding M_def by blast
  have "(k - 1) * n1 + n1 = (k - 1 + 1) * n1" by (simp only: add_mult_distrib mult_1)
  then have nn: "n + n1 = n2 + k * n1" by (simp add: n_def k_def)
  have "(5 :: int) ^ n * 5 ^ n1 = 5 ^ (n2 + k * n1)" unfolding power_add[symmetric] nn ..
  also have "\<dots> = 5 ^ n2 * (5 ^ k) ^ n1" by (simp only: power_add power_mult)
  also have "\<dots> = (4 * int r + 1 + M * p2) * (1 + M * w)" unfolding u w n2 ..
  finally have e: "5 ^ n * (4 * int s + 1 + M * p1) = (4 * int r + 1 + M * p2) * (1 + M * w)" unfolding n1 .
  have "4 * int ((next_slot b ^^ n) s) + 1 = 5 ^ n * (4 * int s + 1 + M * p1) + M * (q - 5 ^ n * p1)"
    unfolding q by (simp add: algebra_simps)
  also have "\<dots> = 4 * int r + 1 + M * (p2 + (4 * int r + 1 + M * p2) * w + q - 5 ^ n * p1)"
    unfolding e by (simp add: algebra_simps)
  finally obtain z where "4 * int ((next_slot b ^^ n) s) + 1 = 4 * int r + 1 + M * z" by blast
  then have z: "int ((next_slot b ^^ n) s) - int r = int k * z" by (simp add: M_def k_def power_add)
  have "(next_slot b ^^ n) s < k" unfolding k_def using assms(1) by (cases n) (simp_all add: next_slot_def)
  moreover have "r < k" using assms(2) by (simp add: k_def)
  ultimately have "\<bar>int k * z\<bar> < int k" unfolding z[symmetric] by linarith
  then have "\<bar>z\<bar> < 1" by (simp add: abs_mult mult_less_cancel_left2)
  then have "z = 0" by simp
  with z have "(next_slot b ^^ n) s = r" by simp
  then show ?thesis ..
qed

end
