(* ===== verification/Bas_Hash_Table_Correct.thy ===== *)
theory Bas_Hash_Table_Correct
  imports Bas_Hash_Table
begin

unbundle bit_operations_syntax

text \<open>
  Correctness of the hash table of the base library: searches end, and a table that is only
  inserted into is a finite map, provided the keys in use have different hash values; where the table is
  expanded on the way, provided also that the uninitialised value compared with is none of these.
\<close>

section \<open>Iterations of the loop\<close>

definition next_probe :: "32 word \<Rightarrow> 32 word \<times> 32 word \<Rightarrow> 32 word \<times> 32 word" where
  "next_probe m = (\<lambda>(s, p). ((5 * s + 1 + p) AND m, drop_bit 5 p))"

lemma unat_and_mask: "unat (w AND mask b :: 32 word) = unat w mod 2 ^ b"
  by (metis take_bit_eq_mask take_bit_eq_mod unsigned_take_bit_eq)

lemma and_mask_less: "unat (w AND mask b :: 32 word) < 2 ^ b"
  by (simp add: unat_and_mask)

lemma next_probe_snd: "snd ((next_probe m ^^ n) (s, p)) = drop_bit (5 * n) p"
  by (induction n) (simp_all add: next_probe_def case_prod_beta drop_bit_drop_bit add.commute)

lemma next_probe_0:
  assumes "b \<le> 32"
  shows "next_probe (mask b) (s, 0) = ((5 * s + 1) AND mask b, 0)" "unat ((5 * s + 1 :: 32 word) AND mask b) = next_slot b (unat s)"
proof -
  show "next_probe (mask b) (s, 0) = ((5 * s + 1) AND mask b, 0)" by (simp add: next_probe_def)
  have d: "2 ^ b dvd (2 ^ 32 :: nat)" using assms by (intro le_imp_power_dvd)
  have "unat (5 * s + 1) = (5 * unat s + 1) mod 2 ^ 32"
    by (simp add: unat_word_ariths mod_simps)
  then have "unat (5 * s + 1) mod 2 ^ b = (5 * unat s + 1) mod 2 ^ b" using d by (metis mod_mod_cancel)
  then show "unat ((5 * s + 1 :: 32 word) AND mask b) = next_slot b (unat s)" by (simp add: unat_and_mask next_slot_def)
qed

lemma next_probe_slots:
  assumes "b \<le> 32"
  shows "unat (fst ((next_probe (mask b) ^^ n) (s, 0))) = (next_slot b ^^ n) (unat s) \<and> snd ((next_probe (mask b) ^^ n) (s, 0)) = 0"
proof (induction n)
  case (Suc n)
  obtain s' where s': "(next_probe (mask b) ^^ n) (s, 0) = (s', 0)" using Suc by (metis prod.collapse)
  with Suc show ?case using next_probe_0[OF assms, of s'] by simp
qed simp

text \<open>Every slot is visited.\<close>

lemma probes_reach:
  assumes "b \<le> 32" and "r < 2 ^ b" and "unat s < 2 ^ b"
  shows "\<exists>n. unat (fst ((next_probe (mask b) ^^ n) (s, p))) = r"
proof -
  obtain s7 p7 where s7: "(next_probe (mask b) ^^ 7) (s, p) = (s7, p7)" by fastforce
  have "p7 = drop_bit 35 p" using next_probe_snd[of 7 "mask b" s p] by (simp add: s7)
  also have "\<dots> = 0" by (rule bit_eqI) (simp add: bit_drop_bit_eq bit_word_def not_le)
  finally have p7: "p7 = 0" .
  obtain s6 p6 where s6: "(next_probe (mask b) ^^ 6) (s, p) = (s6, p6)" by fastforce
  have "(next_probe (mask b) ^^ Suc 6) (s, p) = next_probe (mask b) (s6, p6)" by (simp only: funpow.simps comp_apply s6)
  then have "s7 = (5 * s6 + 1 + p6) AND mask b" using s7 by (simp add: next_probe_def)
  then have "unat s7 < 2 ^ b" using and_mask_less by simp
  from next_slot_reaches[OF this assms(2)] obtain n where "(next_slot b ^^ n) (unat s7) = r" ..
  then have "unat (fst ((next_probe (mask b) ^^ n) (s7, 0))) = r" using next_probe_slots[OF assms(1)] by simp
  then have "unat (fst ((next_probe (mask b) ^^ (n + 7)) (s, p))) = r" by (simp only: funpow_add comp_apply s7 p7)
  then show ?thesis ..
qed

section \<open>The loop\<close>

definition stops :: "'e option list \<Rightarrow> ('e \<Rightarrow> bool) \<Rightarrow> nat \<Rightarrow> bool" where
  "stops tab stop p \<longleftrightarrow> (case tab ! p of None \<Rightarrow> True | Some e \<Rightarrow> stop e)"

lemma slot_loop_step:
  "slot_loop tab m stop s p = (if length tab \<le> unat s then None else if stops tab stop (unat s) then Some (unat s)
     else slot_loop tab m stop (fst (next_probe m (s, p))) (snd (next_probe m (s, p))))"
  by (subst slot_loop.simps) (simp add: stops_def next_probe_def split: option.split)

lemma slot_loop_reaches:
  assumes "length tab = 2 ^ b" and "unat (fst sp) < 2 ^ b" and "stops tab stop (unat (fst ((next_probe (mask b) ^^ n) sp)))"
  shows "\<exists>r < 2 ^ b. slot_loop tab (mask b) stop (fst sp) (snd sp) = Some r \<and> stops tab stop r"
  using assms(2,3)
proof (induction n arbitrary: sp)
  case 0
  then show ?case using assms(1) by (subst slot_loop_step) auto
next
  case (Suc n)
  show ?case
  proof (cases "stops tab stop (unat (fst sp))")
    case True
    then show ?thesis using assms(1) Suc.prems(1) by (subst slot_loop_step) auto
  next
    case False
    let ?sp = "next_probe (mask b) sp"
    have "unat (fst ?sp) < 2 ^ b" by (simp add: next_probe_def case_prod_beta and_mask_less)
    moreover have "stops tab stop (unat (fst ((next_probe (mask b) ^^ n) ?sp)))"
      using Suc.prems(2) by (simp add: funpow_swap1)
    ultimately have "\<exists>r < 2 ^ b. slot_loop tab (mask b) stop (fst ?sp) (snd ?sp) = Some r \<and> stops tab stop r"
      by (rule Suc.IH)
    moreover have "slot_loop tab (mask b) stop (fst sp) (snd sp) = slot_loop tab (mask b) stop (fst ?sp) (snd ?sp)"
      using False Suc.prems(1) assms(1) by (subst slot_loop_step) simp
    ultimately show ?thesis by simp
  qed
qed

text \<open>A search ends if the table has a free slot.\<close>

lemma slot_loop_ends:
  assumes "length tab = 2 ^ b" and "b \<le> 32" and "None \<in> set tab"
  shows "\<exists>r < 2 ^ b. slot_loop tab (mask b) stop (h AND mask b) h = Some r \<and> stops tab stop r"
proof -
  obtain q where q: "q < 2 ^ b" "tab ! q = None" using assms(1,3) by (auto simp: in_set_conv_nth)
  obtain n where n: "unat (fst ((next_probe (mask b) ^^ n) (h AND mask b, h))) = q"
    using probes_reach[OF assms(2) q(1) and_mask_less] by blast
  then show ?thesis
    using slot_loop_reaches[OF assms(1), of "(h AND mask b, h)" stop n] q(2) by (simp add: and_mask_less stops_def)
qed

text \<open>A loop over another array that stops only where this one did ends at the same slot.\<close>

lemma slot_loop_transfer:
  assumes "slot_loop tab m stop s p = Some r" and "length tab' = length tab"
    and "\<And>q. q < length tab \<Longrightarrow> \<not> stops tab stop q \<Longrightarrow> \<not> stops tab' stop' q" and "stops tab' stop' r"
  shows "slot_loop tab' m stop' s p = Some r"
proof -
  have "length tab' = length tab \<longrightarrow> (\<forall>q < length tab. \<not> stops tab stop q \<longrightarrow> \<not> stops tab' stop' q) \<longrightarrow> stops tab' stop' r
      \<longrightarrow> slot_loop tab' m stop' s p = Some r"
  proof (rule slot_loop.raw_induct[OF _ assms(1), where P = "\<lambda>tab m stop s p r. length tab' = length tab
      \<longrightarrow> (\<forall>q < length tab. \<not> stops tab stop q \<longrightarrow> \<not> stops tab' stop' q) \<longrightarrow> stops tab' stop' r
      \<longrightarrow> slot_loop tab' m stop' s p = Some r"])
    fix f tab m stop s p r
    assume IH: "\<And>tab m stop s p r. f tab m stop s p = Some r \<Longrightarrow> length tab' = length tab
        \<longrightarrow> (\<forall>q < length tab. \<not> stops tab stop q \<longrightarrow> \<not> stops tab' stop' q) \<longrightarrow> stops tab' stop' r
        \<longrightarrow> slot_loop tab' m stop' s p = Some r"
      and e: "(if length tab \<le> unat s then None else case tab ! unat s of None \<Rightarrow> Some (unat s)
        | Some e \<Rightarrow> if stop e then Some (unat s) else f tab m stop ((5 * s + 1 + p) AND m) (drop_bit 5 p)) = Some r"
    have e: "(if length tab \<le> unat s then None else if stops tab stop (unat s) then Some (unat s)
        else f tab m stop ((5 * s + 1 + p) AND m) (drop_bit 5 p)) = Some r"
      using e by (auto simp: stops_def split: option.splits if_splits)
    then show "length tab' = length tab \<longrightarrow> (\<forall>q < length tab. \<not> stops tab stop q \<longrightarrow> \<not> stops tab' stop' q)
        \<longrightarrow> stops tab' stop' r \<longrightarrow> slot_loop tab' m stop' s p = Some r"
      using IH by (subst slot_loop_step) (auto simp: next_probe_def split: if_splits)
  qed
  with assms(2-4) show ?thesis by blast
qed

lemma slot_loop_result: "slot_loop tab m stop s p = Some r \<Longrightarrow> r < length tab \<and> stops tab stop r"
proof (rule slot_loop.raw_induct[where P = "\<lambda>tab m stop s p r. r < length tab \<and> stops tab stop r"])
  fix f tab m stop s p r
  assume IH: "\<And>tab m stop s p r. f tab m stop s p = Some r \<Longrightarrow> r < length tab \<and> stops tab stop r"
    and e: "(if length tab \<le> unat s then None else case tab ! unat s of None \<Rightarrow> Some (unat s)
      | Some e \<Rightarrow> if stop e then Some (unat s) else f tab m stop ((5 * s + 1 + p) AND m) (drop_bit 5 p)) = Some r"
  from e have "(if length tab \<le> unat s then None else if stops tab stop (unat s) then Some (unat s)
      else f tab m stop ((5 * s + 1 + p) AND m) (drop_bit 5 p)) = Some r"
    by (auto simp: stops_def split: option.splits if_splits)
  with IH show "r < length tab \<and> stops tab stop r" by (auto split: if_splits)
qed

lemma slot_loop_cong:
  assumes "\<And>q e. q < length tab \<Longrightarrow> tab ! q = Some e \<Longrightarrow> stop e = stop' e"
  shows "slot_loop tab m stop s p = slot_loop tab m stop' s p"
proof -
  have st: "stops tab stop q = stops tab stop' q" if "q < length tab" for q
    using assms[OF that] by (simp add: stops_def split: option.split)
  have "slot_loop tab m s2 s p = Some r" if "slot_loop tab m s1 s p = Some r" "\<And>q. q < length tab \<Longrightarrow> stops tab s1 q = stops tab s2 q"
    for s1 s2 r
  proof (rule slot_loop_transfer[OF that(1) refl])
    show "\<not> stops tab s2 q" if "q < length tab" "\<not> stops tab s1 q" for q using that \<open>\<And>q. q < length tab \<Longrightarrow> stops tab s1 q = stops tab s2 q\<close> by blast
    show "stops tab s2 r" using slot_loop_result[OF that(1)] that(2) by blast
  qed
  from this[of stop _ stop'] this[of stop' _ stop] st show ?thesis by (metis not_None_eq)
qed

section \<open>Tables as maps\<close>

definition key_loop :: "('k, 'v) T_HashEntry option list \<Rightarrow> 32 word \<Rightarrow> 32 word \<Rightarrow> 'k \<Rightarrow> nat option" where
  "key_loop tab m h k = slot_loop tab m (\<lambda>e. pvKey e = k) (h AND m) h"

text \<open>Every entry has its hash value and is where a search for its key ends.\<close>

definition entries_ok :: "('k \<Rightarrow> 32 word) \<Rightarrow> 'k set \<Rightarrow> 32 word \<Rightarrow> ('k, 'v) T_HashEntry option list \<Rightarrow> bool" where
  "entries_ok hf K m tab \<longleftrightarrow> (\<forall>p < length tab. \<forall>e. tab ! p = Some e \<longrightarrow>
     pvKey e \<in> K \<and> iHashValue e = hf (pvKey e) \<and> key_loop tab m (hf (pvKey e)) (pvKey e) = Some p)"

definition represents :: "('k, 'v) T_HashEntry option list \<Rightarrow> ('k \<rightharpoonup> 'v) \<Rightarrow> bool" where
  "represents tab M \<longleftrightarrow> (\<forall>k v. M k = Some v \<longleftrightarrow> (\<exists>p < length tab. \<exists>e. tab ! p = Some e \<and> pvKey e = k \<and> pvValue e = v))"

definition filled :: "'a option list \<Rightarrow> nat" where
  "filled tab = length (filter (\<lambda>x. x \<noteq> None) tab)"

lemma entries_okD:
  assumes "entries_ok hf K m tab" and "p < length tab" and "tab ! p = Some e"
  shows "pvKey e \<in> K" "iHashValue e = hf (pvKey e)" "key_loop tab m (hf (pvKey e)) (pvKey e) = Some p"
  using assms by (auto simp: entries_ok_def)

lemma some_free: "filled tab < length tab \<Longrightarrow> None \<in> set tab"
proof (rule ccontr)
  assume less: "filled tab < length tab" and "None \<notin> set tab"
  then have "filter (\<lambda>x. x \<noteq> None) tab = tab" by (intro filter_True) metis
  with less show False by (simp add: filled_def)
qed

lemma filled_put: "p < length tab \<Longrightarrow> tab ! p = None \<Longrightarrow> filled (tab[p := Some e]) = Suc (filled tab)"
proof (induction tab arbitrary: p)
  case (Cons x tab)
  then show ?case by (cases p) (auto simp: filled_def)
qed simp

lemma filled_same: "p < length tab \<Longrightarrow> tab ! p = Some e' \<Longrightarrow> filled (tab[p := Some e]) = filled tab"
proof (induction tab arbitrary: p)
  case (Cons x tab)
  then show ?case by (cases p) (auto simp: filled_def)
qed simp

lemma key_loop_ends:
  assumes "length tab = 2 ^ b" and "b \<le> 32" and "filled tab < 2 ^ b"
  obtains r where "r < 2 ^ b" "key_loop tab (mask b) h k = Some r"
    "tab ! r = None \<or> (\<exists>e. tab ! r = Some e \<and> pvKey e = k)"
proof -
  have "None \<in> set tab" using assms(1,3) by (intro some_free) simp
  from slot_loop_ends[OF assms(1,2) this] obtain r where r: "r < 2 ^ b" "key_loop tab (mask b) h k = Some r"
      "stops tab (\<lambda>e. pvKey e = k) r"
    unfolding key_loop_def by blast
  from r(3) have "tab ! r = None \<or> (\<exists>e. tab ! r = Some e \<and> pvKey e = k)"
    by (cases "tab ! r") (simp_all add: stops_def)
  with r that show thesis by blast
qed

lemma entry_keys_unique:
  assumes "entries_ok hf K m tab" "p < length tab" "tab ! p = Some e" "q < length tab" "tab ! q = Some e'" "pvKey e = pvKey e'"
  shows "p = q"
  using entries_okD(3)[OF assms(1-3)] entries_okD(3)[OF assms(1,4,5)] assms(6) by simp

lemma found:
  assumes ok: "entries_ok hf K m tab" and rep: "represents tab M" and l: "key_loop tab m (hf k) k = Some r"
  shows "tab ! r = Some e \<Longrightarrow> pvKey e = k \<and> M k = Some (pvValue e)" and "tab ! r = None \<Longrightarrow> M k = None"
proof -
  have r: "r < length tab" "stops tab (\<lambda>e. pvKey e = k) r" using slot_loop_result l unfolding key_loop_def by blast+
  show "pvKey e = k \<and> M k = Some (pvValue e)" if "tab ! r = Some e"
    using r that rep by (auto simp: stops_def represents_def)
  show "M k = None" if none: "tab ! r = None"
  proof (rule ccontr)
    assume "M k \<noteq> None"
    then obtain v where "M k = Some v" by auto
    then obtain p e where p: "p < length tab" "tab ! p = Some e" "pvKey e = k" using rep unfolding represents_def by blast
    with entries_okD(3)[OF ok p(1,2)] l none show False by simp
  qed
qed

lemma put_entry:
  assumes ok: "entries_ok hf K m tab" and rep: "represents tab M" and l: "key_loop tab m (hf k) k = Some r"
    and e: "pvKey e = k" "iHashValue e = hf k" "k \<in> K"
  shows "entries_ok hf K m (tab[r := Some e])" "represents (tab[r := Some e]) (M(k \<mapsto> pvValue e))"
proof -
  have r: "r < length tab" "stops tab (\<lambda>e. pvKey e = k) r" using slot_loop_result l unfolding key_loop_def by blast+
  have other: "pvKey e' \<noteq> k" if "q < length tab" "q \<noteq> r" "tab ! q = Some e'" for q e'
    using entries_okD(3)[OF ok that(1,3)] l that(2) by auto
  have stop: "stops (tab[r := Some e]) (\<lambda>e. pvKey e = k') q = (if q = r then k = k' else stops tab (\<lambda>e. pvKey e = k') q)"
    if "q < length tab" for q k'
    using that e(1) by (simp add: stops_def)
  show "entries_ok hf K m (tab[r := Some e])"
    unfolding entries_ok_def length_list_update
  proof (intro allI impI)
    fix p e' assume p: "p < length tab" "tab[r := Some e] ! p = Some e'"
    have "pvKey e' \<in> K \<and> iHashValue e' = hf (pvKey e') \<and> key_loop tab m (hf (pvKey e')) (pvKey e') = Some p"
      using p e l entries_okD[OF ok p(1)] by (cases "p = r") auto
    moreover have "key_loop (tab[r := Some e]) m (hf (pvKey e')) (pvKey e') = Some p"
      if "key_loop tab m (hf (pvKey e')) (pvKey e') = Some p"
      unfolding key_loop_def
    proof (rule slot_loop_transfer[OF that[unfolded key_loop_def]])
      show "\<not> stops (tab[r := Some e]) (\<lambda>x. pvKey x = pvKey e') q" if "q < length tab" "\<not> stops tab (\<lambda>x. pvKey x = pvKey e') q" for q
        using that r(2) by (auto simp: stop)
      show "stops (tab[r := Some e]) (\<lambda>x. pvKey x = pvKey e') p" using p by (simp add: stops_def)
    qed simp
    ultimately show "pvKey e' \<in> K \<and> iHashValue e' = hf (pvKey e')
        \<and> key_loop (tab[r := Some e]) m (hf (pvKey e')) (pvKey e') = Some p" by blast
  qed
  show "represents (tab[r := Some e]) (M(k \<mapsto> pvValue e))"
    unfolding represents_def length_list_update
  proof (intro allI)
    fix k' v
    show "(M(k \<mapsto> pvValue e)) k' = Some v \<longleftrightarrow> (\<exists>p < length tab. \<exists>e'. tab[r := Some e] ! p = Some e' \<and> pvKey e' = k' \<and> pvValue e' = v)"
    proof (cases "k' = k")
      case True
      have "(\<exists>p < length tab. \<exists>e'. tab[r := Some e] ! p = Some e' \<and> pvKey e' = k \<and> pvValue e' = v) \<longleftrightarrow> pvValue e = v"
        using r(1) e(1) other by (metis (no_types, lifting) nth_list_update option.inject)
      with True show ?thesis by auto
    next
      case False
      have "tab ! r = Some e' \<Longrightarrow> pvKey e' = k" for e' using r(2) by (simp add: stops_def)
      then have "(\<exists>p < length tab. \<exists>e'. tab[r := Some e] ! p = Some e' \<and> pvKey e' = k' \<and> pvValue e' = v)
          \<longleftrightarrow> (\<exists>p < length tab. \<exists>e'. tab ! p = Some e' \<and> pvKey e' = k' \<and> pvValue e' = v)"
        using False e(1) by (metis (no_types, lifting) nth_list_update_eq nth_list_update_neq option.inject)
      with False rep show ?thesis by (simp add: represents_def)
    qed
  qed
qed

section \<open>Operations\<close>

definition keys_ok :: "('k, 'v) T_HashTable \<Rightarrow> 'k set \<Rightarrow> bool" where
  "keys_ok t K \<longleftrightarrow> (\<forall>a\<in>K. \<forall>b\<in>K. (pfHashEqualFunc t a b = 0 \<longleftrightarrow> a = b) \<and> (hash t a = hash t b \<longrightarrow> a = b))"

definition table_ok :: "'k set \<Rightarrow> nat \<Rightarrow> ('k, 'v) T_HashTable \<Rightarrow> bool" where
  "table_ok K b t \<longleftrightarrow> length (pptTable t) = 2 ^ b \<and> b \<le> 31 \<and> iMask t = mask b \<and> keys_ok t K
     \<and> entries_ok (hash t) K (mask b) (pptTable t) \<and> iUsed t = int (filled (pptTable t)) \<and> filled (pptTable t) < 2 ^ b"

lemma hash_update [simp]:
  "hash (t\<lparr>pptTable := x\<rparr>) = hash t" "hash (t\<lparr>iUsed := u\<rparr>) = hash t" "hash (t\<lparr>iMask := m, iLimit := l\<rparr>) = hash t"
  by (simp_all add: hash_def fun_eq_iff)

lemma keys_ok_update [simp]:
  "keys_ok (t\<lparr>pptTable := x\<rparr>) = keys_ok t" "keys_ok (t\<lparr>iUsed := u\<rparr>) = keys_ok t" "keys_ok (t\<lparr>iMask := m, iLimit := l\<rparr>) = keys_ok t"
  by (simp_all add: keys_ok_def fun_eq_iff)

lemma same_entry_update [simp]:
  "same_entry (t\<lparr>pptTable := x\<rparr>) = same_entry t" "same_entry (t\<lparr>iUsed := u\<rparr>) = same_entry t"
  "same_entry (t\<lparr>iMask := m, iLimit := l\<rparr>) = same_entry t"
  by (simp_all add: same_entry_def fun_eq_iff)

text \<open>The loops compare hash values and keys; for keys that the hash values tell apart they compare keys.\<close>

lemma loop_is_key_loop:
  assumes "keys_ok t K" and "entries_ok (hash t) K m tab" and "k \<in> K" and "h' = hash t k \<or> h' \<notin> hash t ` K"
  shows "slot_loop tab m (same_entry t h' k) (h AND m) h = key_loop tab m h k"
  unfolding key_loop_def
proof (rule slot_loop_cong)
  fix q e assume q: "q < length tab" "tab ! q = Some e"
  have e: "pvKey e \<in> K" "iHashValue e = hash t (pvKey e)" using entries_okD[OF assms(2) q] by simp_all
  have "iHashValue e = h' \<Longrightarrow> pvKey e = k" using e assms(1,3,4) unfolding keys_ok_def by (metis image_eqI)
  moreover have "pfHashEqualFunc t k (pvKey e) = 0 \<longleftrightarrow> k = pvKey e" using e assms(1,3) unfolding keys_ok_def by blast
  ultimately show "same_entry t h' k e = (pvKey e = k)" by (auto simp: same_entry_def)
qed

lemma search_key:
  assumes "table_ok K b t" and "represents (pptTable t) M" and "k \<in> K"
  obtains r where "r < 2 ^ b" "key_loop (pptTable t) (mask b) (hash t k) k = Some r"
    "basInnerHashTableSearch t k = Some (if M k = None then - 1 else int r)"
    "M k = map_option pvValue (pptTable t ! r)" "\<And>e. pptTable t ! r = Some e \<Longrightarrow> pvKey e = k"
proof -
  have t: "length (pptTable t) = 2 ^ b" "b \<le> 31" "iMask t = mask b" "keys_ok t K" "filled (pptTable t) < 2 ^ b"
    and ok: "entries_ok (hash t) K (mask b) (pptTable t)"
    using assms(1) by (simp_all add: table_ok_def)
  have "b \<le> 32" using t(2) by simp
  from key_loop_ends[OF t(1) this t(5)] obtain r where r: "r < 2 ^ b" "key_loop (pptTable t) (mask b) (hash t k) k = Some r" .
  have l: "slot_loop (pptTable t) (iMask t) (same_entry t (hash t k) k) (hash t k AND iMask t) (hash t k) = Some r"
    unfolding t(3) using loop_is_key_loop[OF t(4) ok assms(3)] r(2) by simp
  note f = found[OF ok assms(2) r(2)]
  have "M k = map_option pvValue (pptTable t ! r)" using f by (cases "pptTable t ! r") simp_all
  moreover from this have "basInnerHashTableSearch t k = Some (if M k = None then - 1 else int r)"
    unfolding basInnerHashTableSearch_def Let_def l by simp
  ultimately show thesis using that[OF r] f(1) by blast
qed

lemma represents_unique: "represents tab M \<Longrightarrow> represents tab M' \<Longrightarrow> M = M'"
  unfolding represents_def by (intro ext) (metis not_None_eq)

lemma represents_snoc:
  assumes "represents xs M" and "\<And>p e'. p < length xs \<Longrightarrow> xs ! p = Some e' \<Longrightarrow> pvKey e' \<noteq> pvKey e"
  shows "represents (xs @ [Some e]) (M(pvKey e \<mapsto> pvValue e))"
  using assms unfolding represents_def by (auto simp: nth_append less_Suc_eq)

lemma represents_skip: "represents xs M \<Longrightarrow> represents (xs @ [None]) M"
  unfolding represents_def by (auto simp: nth_append less_Suc_eq)

lemma represents_none: "represents (replicate n None) Map.empty"
  by (simp add: represents_def)

lemma filled_snoc: "filled (xs @ [x]) = filled xs + (if x = None then 0 else 1)"
  by (simp add: filled_def)

lemma filled_le: "filled xs \<le> length xs"
  by (simp add: filled_def)

lemma mask_size: "b \<le> 31 \<Longrightarrow> unat (mask b :: 32 word) + 1 = 2 ^ b" "b \<le> 31 \<Longrightarrow> word_of_nat (2 ^ b - 1) = (mask b :: 32 word)"
proof -
  have m: "(mask b :: 32 word) = word_of_nat (2 ^ b - 1)"
    by (simp add: mask_eq_exp_minus_1 of_nat_diff)
  then show "word_of_nat (2 ^ b - 1) = (mask b :: 32 word)" ..
  assume "b \<le> 31"
  then have "(2 :: nat) ^ b \<le> 2 ^ 31" by (intro power_increasing) simp_all
  then have "unat (mask b :: 32 word) = 2 ^ b - 1" unfolding m unat_of_nat by (intro mod_less) simp
  then show "unat (mask b :: 32 word) + 1 = 2 ^ b" by simp
qed

definition moved :: "('k \<Rightarrow> 32 word) \<Rightarrow> 'k set \<Rightarrow> nat \<Rightarrow> ('k, 'v) T_HashEntry option list \<Rightarrow> ('k, 'v) T_HashEntry option list \<Rightarrow> bool" where
  "moved hf K b xs tab \<longleftrightarrow> length tab = 2 ^ b \<and> entries_ok hf K (mask b) tab \<and> filled tab = filled xs
     \<and> (\<exists>M. represents tab M \<and> represents xs M)"

lemma move_step:
  assumes t: "keys_ok t K" "iMask t = mask b" "b \<le> 31" and mv: "moved (hash t) K b xs tab" and room: "length xs < 2 ^ b"
    and slot: "\<And>e. slot = Some e \<Longrightarrow> pvKey e \<in> K \<and> iHashValue e = hash t (pvKey e)"
    and new: "\<And>e p e'. slot = Some e \<Longrightarrow> p < length xs \<Longrightarrow> xs ! p = Some e' \<Longrightarrow> pvKey e' \<noteq> pvKey e"
    and junk: "junk \<notin> hash t ` K"
  shows "\<exists>tab'. move_entry t junk slot tab = Some tab' \<and> moved (hash t) K b (xs @ [slot]) tab'"
proof -
  obtain M where M: "represents tab M" "represents xs M" using mv by (auto simp: moved_def)
  have tab: "length tab = 2 ^ b" "entries_ok (hash t) K (mask b) tab" "filled tab = filled xs"
    using mv by (simp_all add: moved_def)
  show ?thesis
  proof (cases slot)
    case None
    with tab M(1) represents_skip[OF M(2)] show ?thesis by (auto simp: move_entry_def moved_def filled_snoc)
  next
    case (Some e)
    have e: "pvKey e \<in> K" "iHashValue e = hash t (pvKey e)" using slot[OF Some] by simp_all
    have "filled tab < 2 ^ b" using tab(3) room filled_le[of xs] by simp
    moreover have "b \<le> 32" using t(3) by simp
    ultimately obtain r where r: "r < 2 ^ b" "key_loop tab (mask b) (hash t (pvKey e)) (pvKey e) = Some r"
      using key_loop_ends[OF tab(1)] by metis
    have "M (pvKey e) = None"
    proof (rule ccontr)
      assume "M (pvKey e) \<noteq> None"
      then obtain v where "M (pvKey e) = Some v" by auto
      with M(2) new[OF Some] show False unfolding represents_def by blast
    qed
    with found(1)[OF tab(2) M(1) r(2)] have none: "tab ! r = None" by (cases "tab ! r") auto
    have "slot_loop tab (iMask t) (same_entry t junk (pvKey e)) (iHashValue e AND iMask t) (iHashValue e) = Some r"
      unfolding t(2) e(2) using loop_is_key_loop[OF t(1) tab(2) e(1)] junk r(2) by simp
    then have "move_entry t junk slot tab = Some (tab[r := Some e])" by (simp add: move_entry_def Some)
    moreover have "moved (hash t) K b (xs @ [slot]) (tab[r := Some e])"
      unfolding moved_def Some
      using put_entry[OF tab(2) M(1) r(2) refl e(2,1)] represents_snoc[OF M(2) new[OF Some]] tab none r(1)
      by (auto simp: filled_snoc filled_put)
    ultimately show ?thesis by blast
  qed
qed

lemma expand_ok:
  assumes t: "length (pptTable t) = 2 ^ b" "b \<le> 31" "iMask t = mask b" "keys_ok t K"
    and ok: "entries_ok (hash t) K (mask b) (pptTable t)" and rep: "represents (pptTable t) M"
    and c: "multiplicand c = 2 ^ d" "b + d \<le> 31" and junk: "\<And>i. junk i \<notin> hash t ` K"
  shows "\<exists>tab. basHashTableExpand c (True, True) junk t
      = Some (0, t\<lparr>iMask := mask (b + d), iLimit := limit_of c (2 ^ (b + d))\<rparr>\<lparr>pptTable := tab\<rparr>)
    \<and> length tab = 2 ^ (b + d) \<and> entries_ok (hash t) K (mask (b + d)) tab \<and> represents tab M
    \<and> filled tab = filled (pptTable t)"
proof -
  let ?old = "pptTable t" and ?t = "t\<lparr>iMask := mask (b + d), iLimit := limit_of c (2 ^ (b + d))\<rparr>"
  have size: "unat (iMask t) + 1 = 2 ^ b" using mask_size(1)[OF t(2)] t(3) by simp
  have new: "(2 :: nat) ^ b * multiplicand c = 2 ^ (b + d)" by (simp add: c(1) power_add)
  have "\<exists>tab. foldM (\<lambda>i tab. move_entry ?t (junk i) (?old ! i) tab) [0..<2 ^ b] (replicate (2 ^ (b + d)) None) = Some tab
      \<and> moved (hash t) K (b + d) (take (2 ^ b) ?old) tab"
  proof (rule foldM_upt_inv)
    show "moved (hash t) K (b + d) (take 0 ?old) (replicate (2 ^ (b + d)) None)"
      using represents_none[of 0] represents_none[of "2 ^ (b + d)"]
      by (auto simp: moved_def entries_ok_def filled_def intro!: exI[of _ Map.empty])
  next
    fix i tab assume i: "i < 2 ^ b" and mv: "moved (hash t) K (b + d) (take i ?old) tab"
    have len: "i < length ?old" using i t(1) by simp
    have "\<exists>tab'. move_entry ?t (junk i) (?old ! i) tab = Some tab' \<and> moved (hash ?t) K (b + d) (take i ?old @ [?old ! i]) tab'"
    proof (rule move_step)
      show "moved (hash ?t) K (b + d) (take i ?old) tab" using mv by simp
      have "i < 2 ^ (b + d)" using i by (simp add: power_add) (metis mult.right_neutral less_le_trans mult_le_mono2 one_le_numeral one_le_power)
      then show "length (take i ?old) < 2 ^ (b + d)" using len by simp
      show "pvKey e \<in> K \<and> iHashValue e = hash ?t (pvKey e)" if "?old ! i = Some e" for e
        using entries_okD[OF ok len that] by simp
      show "pvKey e' \<noteq> pvKey e" if "?old ! i = Some e" "p < length (take i ?old)" "take i ?old ! p = Some e'" for e p e'
        using entry_keys_unique[OF ok len that(1), of p e'] that by auto
    qed (use t(4) c(2) junk in simp_all)
    then show "\<exists>tab'. move_entry ?t (junk i) (?old ! i) tab = Some tab' \<and> moved (hash t) K (b + d) (take (Suc i) ?old) tab'"
      using len by (simp add: take_Suc_conv_app_nth)
  qed
  then obtain tab M' where tab: "foldM (\<lambda>i tab. move_entry ?t (junk i) (?old ! i) tab) [0..<2 ^ b] (replicate (2 ^ (b + d)) None) = Some tab"
      "length tab = 2 ^ (b + d)" "entries_ok (hash t) K (mask (b + d)) tab" "filled tab = filled ?old"
      "represents tab M'" "represents ?old M'"
    using t(1) by (auto simp: moved_def)
  have "represents tab M" using represents_unique[OF rep tab(6)] tab(5) by simp
  moreover have "basHashTableExpand c (True, True) junk t = Some (0, ?t\<lparr>pptTable := tab\<rparr>)"
    unfolding basHashTableExpand_def size new Let_def using t(1) tab(1) mask_size(2)[OF c(2)] by simp
  ultimately show ?thesis using tab(2-4) by blast
qed

text \<open>The settings leave a free slot, and allow for \<open>n\<close> entries within 32-bit sizes.\<close>

definition settings_ok :: "settings \<Rightarrow> nat \<Rightarrow> bool" where
  "settings_ok c n \<longleftrightarrow> (\<exists>b d. init_size c = 2 ^ b \<and> b \<le> 31 \<and> multiplicand c = 2 ^ d \<and> 1 \<le> d
     \<and> (\<forall>b. limit_of c (2 ^ b) < 2 ^ b) \<and> (\<forall>b. 31 < b + d \<longrightarrow> int n \<le> limit_of c (2 ^ b)))"

definition table_inv :: "settings \<Rightarrow> 'k set \<Rightarrow> ('k \<rightharpoonup> 'v) \<Rightarrow> ('k, 'v) T_HashTable \<Rightarrow> bool" where
  "table_inv c K M t \<longleftrightarrow> (\<exists>b. table_ok K b t \<and> iLimit t = limit_of c (2 ^ b)) \<and> represents (pptTable t) M"

text \<open>Before a new entry is stored the table is expanded if the limit is exceeded.\<close>

definition with_room :: "settings \<Rightarrow> 'k set \<Rightarrow> ('k \<rightharpoonup> 'v) \<Rightarrow> ('k, 'v) T_HashTable \<Rightarrow> nat \<Rightarrow> ('k, 'v) T_HashTable \<Rightarrow> bool" where
  "with_room c K M t b t' \<longleftrightarrow> length (pptTable t') = 2 ^ b \<and> b \<le> 31 \<and> iMask t' = mask b \<and> keys_ok t' K \<and> hash t' = hash t
     \<and> entries_ok (hash t) K (mask b) (pptTable t') \<and> represents (pptTable t') M \<and> filled (pptTable t') = filled (pptTable t)
     \<and> iUsed t' = iUsed t + 1 \<and> iLimit t' = limit_of c (2 ^ b) \<and> filled (pptTable t) + 1 < 2 ^ b"

lemma make_room:
  assumes c: "settings_ok c n" and t: "table_ok K b t" "iLimit t = limit_of c (2 ^ b)" and rep: "represents (pptTable t) M"
    and n: "iUsed t < int n" and junk: "\<forall>i. junk i \<notin> hash t ` K"
  shows "\<exists>b' t'. (let t = t\<lparr>iUsed := iUsed t + 1\<rparr>
      in if iLimit t < iUsed t then basHashTableExpand c (True, True) junk t else Some (0, t)) = Some (0, t') \<and> with_room c K M t b' t'"
proof -
  let ?t = "t\<lparr>iUsed := iUsed t + 1\<rparr>"
  have ok: "length (pptTable t) = 2 ^ b" "b \<le> 31" "iMask t = mask b" "keys_ok t K"
    "entries_ok (hash t) K (mask b) (pptTable t)" "iUsed t = int (filled (pptTable t))" "filled (pptTable t) < 2 ^ b"
    using t(1) by (simp_all add: table_ok_def)
  obtain d where d: "multiplicand c = 2 ^ d" "1 \<le> d" "\<And>b. limit_of c (2 ^ b) < 2 ^ b"
      "\<And>b. 31 < b + d \<Longrightarrow> int n \<le> limit_of c (2 ^ b)"
    using c unfolding settings_ok_def by blast
  show ?thesis
  proof (cases "iLimit ?t < iUsed ?t")
    case True
    then have bd: "b + d \<le> 31" using d(4)[of b] n t(2) by (cases "31 < b + d") auto
    have "filled (pptTable t) + 1 < 2 ^ b * 2" using ok(7) by simp
    also have "\<dots> \<le> 2 ^ b * 2 ^ d" using d(2) self_le_power[of "2 :: nat" d] by (intro mult_le_mono2) simp
    finally have "filled (pptTable t) + 1 < 2 ^ (b + d)" by (simp add: power_add)
    moreover obtain tab where "basHashTableExpand c (True, True) junk ?t
        = Some (0, ?t\<lparr>iMask := mask (b + d), iLimit := limit_of c (2 ^ (b + d))\<rparr>\<lparr>pptTable := tab\<rparr>)"
        "length tab = 2 ^ (b + d)" "entries_ok (hash t) K (mask (b + d)) tab" "represents tab M" "filled tab = filled (pptTable t)"
      using expand_ok[of ?t b K M c d junk] ok rep d(1) bd junk by auto
    ultimately show ?thesis
      using True bd ok(4) unfolding Let_def with_room_def
      by (intro exI[of _ "b + d"] exI[of _ "?t\<lparr>iMask := mask (b + d), iLimit := limit_of c (2 ^ (b + d))\<rparr>\<lparr>pptTable := tab\<rparr>"]) simp
  next
    case False
    then have "int (filled (pptTable t) + 1) < 2 ^ b" using d(3)[of b] t(2) ok(6) by simp
    then have "filled (pptTable t) + 1 < 2 ^ b" by (metis of_nat_less_numeral_power_cancel_iff)
    with False ok rep t(2) show ?thesis
      unfolding Let_def with_room_def by (intro exI[of _ b] exI[of _ ?t]) simp
  qed
qed

text \<open>Where the limit is not exceeded, there is room already.\<close>

lemma has_room:
  assumes t: "table_ok K b t" "iLimit t = limit_of c (2 ^ b)" "limit_of c (2 ^ b) < 2 ^ b" and rep: "represents (pptTable t) M"
    and n: "iUsed t + 1 \<le> iLimit t"
  shows "(let t = t\<lparr>iUsed := iUsed t + 1\<rparr>
      in if iLimit t < iUsed t then basHashTableExpand c mem junk t else Some (0, t)) = Some (0, t\<lparr>iUsed := iUsed t + 1\<rparr>)"
    "with_room c K M t b (t\<lparr>iUsed := iUsed t + 1\<rparr>)"
proof -
  have "int (filled (pptTable t) + 1) < 2 ^ b" using t n by (simp add: table_ok_def)
  then have "filled (pptTable t) + 1 < 2 ^ b" by (metis of_nat_less_numeral_power_cancel_iff)
  with t rep show "with_room c K M t b (t\<lparr>iUsed := iUsed t + 1\<rparr>)" by (simp add: with_room_def table_ok_def)
qed (use n in simp)

lemma insert_with_room:
  assumes t: "table_ok K b t" "iLimit t = limit_of c (2 ^ b)" and rep: "represents (pptTable t) M" and k: "k \<in> K"
    and room: "M k = None \<Longrightarrow> (let t = t\<lparr>iUsed := iUsed t + 1\<rparr>
      in if iLimit t < iUsed t then basHashTableExpand c (True, True) junk t else Some (0, t)) = Some (0, t1) \<and> with_room c K M t b1 t1"
  shows "\<exists>b' t'. basHashTableInsert c (True, True, True) junk t k v = Some (0, t') \<and> b' \<in> {b, b1} \<and> table_ok K b' t'
    \<and> iLimit t' = limit_of c (2 ^ b') \<and> represents (pptTable t') (M(k \<mapsto> v))
    \<and> hash t' = hash t \<and> iUsed t' = iUsed t + (if M k = None then 1 else 0)"
proof -
  have ok: "length (pptTable t) = 2 ^ b" "entries_ok (hash t) K (mask b) (pptTable t)" "iUsed t = int (filled (pptTable t))"
    using t(1) by (simp_all add: table_ok_def)
  obtain r where r: "r < 2 ^ b" "key_loop (pptTable t) (mask b) (hash t k) k = Some r"
      "basInnerHashTableSearch t k = Some (if M k = None then - 1 else int r)"
      "M k = map_option pvValue (pptTable t ! r)" "\<And>e. pptTable t ! r = Some e \<Longrightarrow> pvKey e = k"
    using search_key[OF t(1) rep k] by blast
  show ?thesis
  proof (cases "M k")
    case (Some old)
    then obtain e where e: "pptTable t ! r = Some e" "pvKey e = k" using r(4,5) by auto
    let ?tab = "(pptTable t)[r := Some (e\<lparr>pvValue := v\<rparr>)]"
    have "iHashValue e = hash t k" using entries_okD(2)[OF ok(2) _ e(1)] r(1) ok(1) e(2) by simp
    then have put: "entries_ok (hash t) K (mask b) ?tab" "represents ?tab (M(k \<mapsto> v))"
      using put_entry[OF ok(2) rep r(2), of "e\<lparr>pvValue := v\<rparr>"] e(2) k by simp_all
    have "basHashTableInsert c (True, True, True) junk t k v = Some (0, t\<lparr>pptTable := ?tab\<rparr>)"
      unfolding basHashTableInsert_def r(3) using Some e(1) by simp
    moreover have "table_ok K b (t\<lparr>pptTable := ?tab\<rparr>)"
      using t(1) put(1) r(1) e(1) by (simp add: table_ok_def filled_same)
    ultimately show ?thesis using put(2) t(2) Some by (intro exI[of _ b]) auto
  next
    case None
    let ?e = "\<lparr>iHashValue = hash t k, pvKey = k, pvValue = v\<rparr>"
    have room: "(let t = t\<lparr>iUsed := iUsed t + 1\<rparr>
          in if iLimit t < iUsed t then basHashTableExpand c (True, True) junk t else Some (0, t)) = Some (0, t1)"
        and wr: "with_room c K M t b1 t1"
      using room[OF None] by blast+
    have t': "length (pptTable t1) = 2 ^ b1" "b1 \<le> 32" "iMask t1 = mask b1" "keys_ok t1 K" "hash t1 = hash t"
        "entries_ok (hash t) K (mask b1) (pptTable t1)" "represents (pptTable t1) M" "filled (pptTable t1) < 2 ^ b1"
      using wr by (simp_all add: with_room_def)
    obtain p where p: "p < 2 ^ b1" "key_loop (pptTable t1) (mask b1) (hash t k) k = Some p"
      using key_loop_ends[OF t'(1,2,8)] by metis
    have none: "pptTable t1 ! p = None"
      using found(1)[OF t'(6,7) p(2)] None by (cases "pptTable t1 ! p") auto
    have "slot_loop (pptTable t1) (iMask t1) (same_entry t1 (hash t1 k) k) (hash t1 k AND iMask t1) (hash t1 k) = Some p"
      unfolding t'(3,5) using loop_is_key_loop[OF t'(4) t'(6)[folded t'(5)] k] p(2) t'(5) by simp
    then have ins: "basHashTableInsert c (True, True, True) junk t k v = Some (0, t1\<lparr>pptTable := (pptTable t1)[p := Some ?e]\<rparr>)"
      unfolding basHashTableInsert_def r(3) using None room t'(5) by (auto simp: Let_def split: if_splits)
    have put: "entries_ok (hash t) K (mask b1) ((pptTable t1)[p := Some ?e])" "represents ((pptTable t1)[p := Some ?e]) (M(k \<mapsto> v))"
      using put_entry[OF t'(6,7) p(2), of ?e] k by simp_all
    have "table_ok K b1 (t1\<lparr>pptTable := (pptTable t1)[p := Some ?e]\<rparr>)"
      using wr put(1) p(1) none ok(3) by (simp add: table_ok_def with_room_def filled_put)
    with ins put(2) wr None show ?thesis by (intro exI[of _ b1]) (auto simp: with_room_def)
  qed
qed

lemma insert_ok:
  assumes c: "settings_ok c n" and inv: "table_inv c K M t" and k: "k \<in> K" and n: "iUsed t < int n"
    and junk: "\<forall>i. junk i \<notin> hash t ` K"
  shows "\<exists>t'. basHashTableInsert c (True, True, True) junk t k v = Some (0, t') \<and> table_inv c K (M(k \<mapsto> v)) t'
    \<and> hash t' = hash t \<and> iUsed t' \<le> iUsed t + 1"
proof -
  obtain b where t: "table_ok K b t" "iLimit t = limit_of c (2 ^ b)" and rep: "represents (pptTable t) M"
    using inv by (auto simp: table_inv_def)
  obtain b1 t1 where room: "(let t = t\<lparr>iUsed := iUsed t + 1\<rparr>
          in if iLimit t < iUsed t then basHashTableExpand c (True, True) junk t else Some (0, t)) = Some (0, t1) \<and> with_room c K M t b1 t1"
    using make_room[OF c t rep n junk] by blast
  show ?thesis using insert_with_room[OF t rep k room, of v] unfolding table_inv_def by fastforce
qed

section \<open>Sequences of insertions\<close>

text \<open>Each insertion has its own values of the uninitialised variable.\<close>

fun insert_all :: "settings \<Rightarrow> ((nat \<Rightarrow> 32 word) \<times> 'k \<times> 'v) list \<Rightarrow> ('k, 'v) T_HashTable \<Rightarrow> ('k, 'v) T_HashTable option" where
  "insert_all c [] t = Some t"
| "insert_all c ((junk, k, v) # ks) t =
     (case basHashTableInsert c (True, True, True) junk t k v of Some (r, t) \<Rightarrow> if r = 0 then insert_all c ks t else None | None \<Rightarrow> None)"

lemma insert_all_ok:
  assumes "settings_ok c n" and "table_inv c K M t" and "iUsed t + int (length ks) \<le> int n"
    and "\<forall>(junk, k, v) \<in> set ks. k \<in> K \<and> (\<forall>i. junk i \<notin> hash t ` K)"
  shows "\<exists>t'. insert_all c ks t = Some t' \<and> table_inv c K (M ++ map_of (rev (map snd ks))) t' \<and> hash t' = hash t"
  using assms(2-4)
proof (induction ks arbitrary: M t)
  case (Cons x ks)
  obtain junk k v where x: "x = (junk, k, v)" by (cases x) auto
  have k: "k \<in> K" "\<forall>i. junk i \<notin> hash t ` K" using Cons.prems(3) by (auto simp: x)
  have n: "iUsed t < int n" using Cons.prems(2) by simp
  obtain t' where t': "basHashTableInsert c (True, True, True) junk t k v = Some (0, t')" "table_inv c K (M(k \<mapsto> v)) t'"
      "hash t' = hash t" "iUsed t' \<le> iUsed t + 1"
    using insert_ok[OF assms(1) Cons.prems(1) k(1) n k(2), where v = v] by blast
  have u: "iUsed t' + int (length ks) \<le> int n" using t'(4) Cons.prems(2) by simp
  have j: "\<forall>(junk, k, v) \<in> set ks. k \<in> K \<and> (\<forall>i. junk i \<notin> hash t' ` K)" using Cons.prems(3) t'(3) by simp
  have "\<exists>t''. insert_all c ks t' = Some t'' \<and> table_inv c K (M(k \<mapsto> v) ++ map_of (rev (map snd ks))) t'' \<and> hash t'' = hash t'"
    by (rule Cons.IH[OF t'(2) u j])
  then obtain t'' where "insert_all c ks t' = Some t''" "table_inv c K (M(k \<mapsto> v) ++ map_of (rev (map snd ks))) t''" "hash t'' = hash t"
    unfolding t'(3) by blast
  moreover have "M(k \<mapsto> v) ++ map_of (rev (map snd ks)) = M ++ map_of (rev (map snd (x # ks)))" by (simp add: x)
  moreover have "insert_all c (x # ks) t = insert_all c ks t'" by (simp add: x t'(1))
  ultimately show ?case by metis
qed simp

text \<open>As long as the keys fit below the limit of the size the table has, it is never expanded.\<close>

lemma insert_all_fits:
  assumes K: "finite K" "int (card K) \<le> limit_of c (2 ^ b)" "limit_of c (2 ^ b) < 2 ^ b"
    and t: "table_ok K b t" "iLimit t = limit_of c (2 ^ b)" "represents (pptTable t) M" "dom M \<subseteq> K" "iUsed t = int (card (dom M))"
    and ks: "\<forall>(junk, k, v) \<in> set ks. k \<in> K"
  shows "\<exists>t'. insert_all c ks t = Some t' \<and> table_ok K b t' \<and> represents (pptTable t') (M ++ map_of (rev (map snd ks)))"
  using t ks
proof (induction ks arbitrary: M t)
  case (Cons x ks)
  obtain junk k v where x: "x = (junk, k, v)" by (cases x) auto
  have k: "k \<in> K" using Cons.prems(6) by (simp add: x)
  have fin: "finite (dom M)" using finite_subset[OF Cons.prems(4) K(1)] .
  have "iUsed t + 1 \<le> iLimit t" if "M k = None"
  proof -
    have "card (insert k (dom M)) \<le> card K" using K(1) k Cons.prems(4) by (intro card_mono) auto
    then show ?thesis using that fin K(2) Cons.prems(2,5) by (auto simp: domIff)
  qed
  then have room: "M k = None \<Longrightarrow> (let t = t\<lparr>iUsed := iUsed t + 1\<rparr>
      in if iLimit t < iUsed t then basHashTableExpand c (True, True) junk t else Some (0, t)) = Some (0, t\<lparr>iUsed := iUsed t + 1\<rparr>)
        \<and> with_room c K M t b (t\<lparr>iUsed := iUsed t + 1\<rparr>)"
    using has_room[OF Cons.prems(1,2) K(3) Cons.prems(3)] by blast
  obtain t' where t': "basHashTableInsert c (True, True, True) junk t k v = Some (0, t')" "table_ok K b t'"
      "iLimit t' = limit_of c (2 ^ b)" "represents (pptTable t') (M(k \<mapsto> v))" "iUsed t' = iUsed t + (if M k = None then 1 else 0)"
    using insert_with_room[OF Cons.prems(1,2,3) k room, of v] by auto
  have "card (dom (M(k \<mapsto> v))) = card (dom M) + (if M k = None then 1 else 0)" using fin by (auto simp: card_insert_if domIff)
  then have u: "iUsed t' = int (card (dom (M(k \<mapsto> v))))" using t'(5) Cons.prems(5) by simp
  have d: "dom (M(k \<mapsto> v)) \<subseteq> K" using Cons.prems(4) k by simp
  have "\<forall>(junk, k, v) \<in> set ks. k \<in> K" using Cons.prems(6) by simp
  from Cons.IH[OF t'(2,3,4) d u this] obtain t'' where
    "insert_all c ks t' = Some t''" "table_ok K b t''" "represents (pptTable t'') (M(k \<mapsto> v) ++ map_of (rev (map snd ks)))" by blast
  moreover have "M(k \<mapsto> v) ++ map_of (rev (map snd ks)) = M ++ map_of (rev (map snd (x # ks)))" by (simp add: x)
  moreover have "insert_all c (x # ks) t = insert_all c ks t'" by (simp add: x t'(1))
  ultimately show ?case by metis
qed simp

lemma search_is_lookup:
  assumes t: "table_ok K b t" "represents (pptTable t) M" and k: "k \<in> K"
  shows "basHashTableSearch t k = Some (M k)"
proof -
  obtain r where "basInnerHashTableSearch t k = Some (if M k = None then - 1 else int r)" "M k = map_option pvValue (pptTable t ! r)"
    using search_key[OF t k] by blast
  then show ?thesis by (cases "M k") (simp_all add: basHashTableSearch_def)
qed

lemma create_ok:
  assumes b: "init_size c = 2 ^ b" "b \<le> 31" and "basHashTableCreate c (True, True) hf eq fk fv = Some t"
    and "\<forall>a\<in>K. \<forall>b\<in>K. (eq a b = 0 \<longleftrightarrow> a = b) \<and> (mix (hf a) = mix (hf b) \<longrightarrow> a = b)"
  shows "table_ok K b t" "iLimit t = limit_of c (2 ^ b)" "represents (pptTable t) Map.empty" "iUsed t = 0" "hash t = mix \<circ> hf"
proof -
  have t: "t = \<lparr>pptTable = replicate (init_size c) None, iUsed = 0, iMask = word_of_nat (init_size c - 1),
       iLimit = limit_of c (init_size c), pfHashFunc = hf, pfHashEqualFunc = eq, iFreeKey = fk, iFreeValue = fv\<rparr>"
    using assms(3) by (simp add: basHashTableCreate_def)
  then show "iUsed t = 0" and h: "hash t = mix \<circ> hf" by (simp_all add: hash_def fun_eq_iff)
  show "iLimit t = limit_of c (2 ^ b)" "represents (pptTable t) Map.empty" using b represents_none by (simp_all add: t)
  show "table_ok K b t"
    using b assms(4) mask_size(2)[OF b(2)] by (simp add: table_ok_def t keys_ok_def hash_def entries_ok_def filled_def)
qed

section \<open>Keys with the same hash value\<close>

text \<open>
  With a hash function that agrees on equal keys, and entries that carry the hash of their key, a search stops at the first
  entry with the hash value.
\<close>

definition lawful :: "('k, 'v) T_HashTable \<Rightarrow> bool" where
  "lawful t \<longleftrightarrow> (\<forall>a b. pfHashEqualFunc t a b = 0 \<longrightarrow> hash t a = hash t b)
     \<and> (\<forall>e. Some e \<in> set (pptTable t) \<longrightarrow> iHashValue e = hash t (pvKey e))"

lemma lawful_loop:
  assumes "lawful t"
  shows "slot_loop (pptTable t) m (same_entry t (hash t k) k) s p = slot_loop (pptTable t) m (\<lambda>e. iHashValue e = hash t k) s p"
  by (rule slot_loop_cong) (use assms in \<open>metis lawful_def nth_mem same_entry_def\<close>)

definition hash_loop :: "('k, 'v) T_HashEntry option list \<Rightarrow> 32 word \<Rightarrow> 32 word \<Rightarrow> nat option" where
  "hash_loop tab m h = slot_loop tab m (\<lambda>e. iHashValue e = h) (h AND m) h"

text \<open>Putting an entry with the hash value where the search for it ends does not move the end.\<close>

lemma hash_loop_put:
  assumes "hash_loop tab m h = Some p" "iHashValue e = h"
  shows "hash_loop (tab[p := Some e]) m h = Some p"
proof -
  have p: "p < length tab" "stops tab (\<lambda>e. iHashValue e = h) p" using slot_loop_result assms(1) unfolding hash_loop_def by blast+
  show ?thesis unfolding hash_loop_def
  proof (rule slot_loop_transfer[OF assms(1)[unfolded hash_loop_def]])
    fix q assume "q < length tab" "\<not> stops tab (\<lambda>e. iHashValue e = h) q"
    moreover from this(2) have "q \<noteq> p" using p(2) by blast
    ultimately show "\<not> stops (tab[p := Some e]) (\<lambda>e. iHashValue e = h) q" by (simp add: stops_def)
  qed (use p assms(2) in \<open>simp_all add: stops_def\<close>)
qed

lemma lawful_search:
  assumes "lawful t" "hash_loop (pptTable t) (iMask t) (hash t k) = Some p"
  shows "basInnerHashTableSearch t k = Some (if pptTable t ! p = None then - 1 else int p)"
    "basHashTableSearch t k = Some (map_option pvValue (pptTable t ! p))"
  using lawful_loop[OF assms(1), of "iMask t" k] assms(2)
  by (auto simp: basInnerHashTableSearch_def basHashTableSearch_def hash_loop_def)

lemma lawful_insert:
  assumes l: "lawful t" and p: "hash_loop (pptTable t) (iMask t) (hash t k) = Some p"
    and room: "pptTable t ! p = None \<Longrightarrow> iUsed t + 1 \<le> iLimit t"
  obtains e t' where "basHashTableInsert c (True, True, True) junk t k v = Some (0, t')" "lawful t'" "hash t' = hash t" "iMask t' = iMask t"
    "pptTable t' = (pptTable t)[p := Some e]" "iHashValue e = hash t k" "pvValue e = v"
proof -
  have len: "p < length (pptTable t)" using slot_loop_result p unfolding hash_loop_def by blast
  have law: "lawful (t\<lparr>pptTable := (pptTable t)[p := Some e]\<rparr>)" if "iHashValue e = hash t (pvKey e)" for e
    using l that set_update_subset_insert[of "pptTable t" p "Some e"] unfolding lawful_def by auto
  show thesis
  proof (cases "pptTable t ! p")
    case (Some e)
    have "Some e \<in> set (pptTable t)" using len Some by (metis nth_mem)
    then have e: "iHashValue e = hash t (pvKey e)" using l by (simp add: lawful_def)
    have "stops (pptTable t) (\<lambda>e. iHashValue e = hash t k) p" using slot_loop_result p unfolding hash_loop_def by blast
    then have h: "iHashValue e = hash t k" by (simp add: stops_def Some)
    show ?thesis
      by (rule that[of "t\<lparr>pptTable := (pptTable t)[p := Some (e\<lparr>pvValue := v\<rparr>)]\<rparr>" "e\<lparr>pvValue := v\<rparr>"])
        (use lawful_search(1)[OF l p] Some h e law in \<open>simp_all add: basHashTableInsert_def\<close>)
  next
    case None
    let ?t = "t\<lparr>iUsed := iUsed t + 1\<rparr>" and ?e = "\<lparr>iHashValue = hash t k, pvKey = k, pvValue = v\<rparr>"
    have "slot_loop (pptTable ?t) (iMask ?t) (same_entry ?t (hash ?t k) k) (hash ?t k AND iMask ?t) (hash ?t k) = Some p"
      using lawful_loop[OF l, of "iMask t" k] p by (simp add: hash_loop_def)
    then have "basHashTableInsert c (True, True, True) junk t k v = Some (0, ?t\<lparr>pptTable := (pptTable t)[p := Some ?e]\<rparr>)"
      using lawful_search(1)[OF l p] None room[OF None] by (simp add: basHashTableInsert_def Let_def)
    moreover have "lawful (?t\<lparr>pptTable := (pptTable t)[p := Some ?e]\<rparr>)" using law[of ?e] by (simp add: lawful_def)
    ultimately show ?thesis by (intro that[of "?t\<lparr>pptTable := (pptTable t)[p := Some ?e]\<rparr>" ?e]) simp_all
  qed
qed

end
