(* ===== verification/Bas_Hash_Table_Properties.thy ===== *)
theory Bas_Hash_Table_Properties
  imports Bas_Hash_Table_Correct
begin

unbundle bit_operations_syntax

text \<open>The properties of the hash table of the base library.\<close>

text \<open> A search ends in every table whose size is a power of two and that has a free slot, whatever the hash
  functions and the entries are: after seven steps the perturbation is used up, and from then on the
  sequence \<open>5 s + 1\<close> visits every slot.
\<close>

theorem hash_search_ends:
  assumes "length (pptTable t) = 2 ^ b" and "b \<le> 31" and "iMask t = mask b" and "None \<in> set (pptTable t)"
  shows "\<exists>i. basInnerHashTableSearch t k = Some i \<and> - 1 \<le> i \<and> i < 2 ^ b \<and> (0 \<le> i \<longrightarrow> pptTable t ! nat i \<noteq> None)"
proof -
  have "b \<le> 32" using assms(2) by simp
  from slot_loop_ends[OF assms(1) this assms(4)] obtain r where
      "r < 2 ^ b" "slot_loop (pptTable t) (iMask t) (same_entry t (hash t k) k) (hash t k AND iMask t) (hash t k) = Some r"
    unfolding assms(3) by blast
  moreover from this(1) have "int r < 2 ^ b" by (simp add: of_nat_less_numeral_power_cancel_iff)
  moreover have "(- 1 :: int) < 2 ^ b" by (rule less_trans[of _ 0]) simp_all
  ultimately show ?thesis by (auto simp: basInnerHashTableSearch_def Let_def)
qed

text \<open>
  (C6) A table that is only inserted into is a finite map: after any sequence of insertions every insertion has returned 0
  and a search returns the value stored last under the key, or \<^verbatim>\<open>NULL\<close>. The conditions: as many different keys as the load
  limit allows for the initial size, so that the table is not expanded (for what an expansion does, see
  \<open>hash_expansion_loses\<close> below); keys that have different hash values; an initial size that is a power of two and a limit
  below it (both are macros of a header outside of the repository); no failing allocation.
\<close>

theorem hash_insertions_are_a_map:
  assumes "init_size c = 2 ^ b" "b \<le> 31" "limit_of c (2 ^ b) < 2 ^ b"
    and "finite K" "int (card K) \<le> limit_of c (2 ^ b)"
    and "basHashTableCreate c (True, True) hf eq fk fv = Some t"
    and "\<forall>x\<in>K. \<forall>y\<in>K. (eq x y = 0 \<longleftrightarrow> x = y) \<and> (mix (hf x) = mix (hf y) \<longrightarrow> x = y)"
    and "\<forall>(junk, k, v) \<in> set ks. k \<in> K"
  shows "\<exists>t'. insert_all c ks t = Some t' \<and> (\<forall>k\<in>K. basHashTableSearch t' k = Some (map_of (rev (map snd ks)) k))"
proof -
  note t = create_ok[OF assms(1,2,6,7)]
  obtain t' where t': "insert_all c ks t = Some t'" "table_ok K b t'" "represents (pptTable t') (Map.empty ++ map_of (rev (map snd ks)))"
    using insert_all_fits[OF assms(4,5,3) t(1-3) _ _ assms(8)] t(4) by auto
  have "represents (pptTable t') (map_of (rev (map snd ks)))" using t'(3) by simp
  then show ?thesis using t'(1) search_is_lookup[OF t'(2)] by blast
qed

text \<open>
  With expansions the same holds only if the uninitialised value that \<^verbatim>\<open>basHashTableExpand\<close> compares with is none of the
  hash values of the keys.
\<close>

theorem hash_expansions_are_a_map:
  assumes "settings_ok c (length ks)" and "basHashTableCreate c (True, True) hf eq fk fv = Some t"
    and "\<forall>a\<in>K. \<forall>b\<in>K. (eq a b = 0 \<longleftrightarrow> a = b) \<and> (mix (hf a) = mix (hf b) \<longrightarrow> a = b)"
    and "\<forall>(junk, k, v) \<in> set ks. k \<in> K \<and> (\<forall>i. junk i \<notin> mix ` hf ` K)"
  shows "\<exists>t'. insert_all c ks t = Some t' \<and> (\<forall>k\<in>K. basHashTableSearch t' k = Some (map_of (rev (map snd ks)) k))"
proof -
  obtain b where b: "init_size c = 2 ^ b" "b \<le> 31" using assms(1) by (auto simp: settings_ok_def)
  note t = create_ok[OF b assms(2,3)]
  have inv: "table_inv c K Map.empty t" using t by (auto simp: table_inv_def)
  have "\<forall>(junk, k, v) \<in> set ks. k \<in> K \<and> (\<forall>i. junk i \<notin> hash t ` K)" using assms(4) by (simp add: t(5) image_comp)
  moreover have "iUsed t + int (length ks) \<le> int (length ks)" by (simp add: t(4))
  ultimately obtain t' where t': "insert_all c ks t = Some t'" "table_inv c K (Map.empty ++ map_of (rev (map snd ks))) t'"
    using insert_all_ok[OF assms(1) inv] by blast
  then show ?thesis using search_is_lookup by (fastforce simp: table_inv_def)
qed

text \<open>A small instance: eight slots, at most six entries before the size is doubled.\<close>

definition small_settings :: settings where
  "small_settings = \<lparr>init_size = 8, multiplicand = 2, limit_of = \<lambda>s. int s * 3 div 4\<rparr>"

theorem hash_insertions_are_a_map_witness:
  "\<exists>t t'. basHashTableCreate small_settings (True, True) (\<lambda>k. k) (\<lambda>a b. if a = b then 0 else 1) False False = Some t
    \<and> insert_all small_settings [(\<lambda>i. 0, 3, ''a''), (\<lambda>i. mix 3, 5, ''b''), (\<lambda>i. 7, 3, ''c''), (\<lambda>i. 0, 16, ''d''), (\<lambda>i. 0, 1, ''e'')] t = Some t'
    \<and> basHashTableSearch t' (3 :: 32 word) = Some (Some ''c'') \<and> basHashTableSearch t' 16 = Some (Some ''d'')
    \<and> basHashTableSearch t' 1 = Some (Some ''e'') \<and> basHashTableSearch t' 9 = Some None"
proof -
  let ?ks = "[(\<lambda>i :: nat. 0, 3 :: 32 word, ''a''), (\<lambda>i. mix 3, 5, ''b''), (\<lambda>i. 7, 3, ''c''), (\<lambda>i. 0, 16, ''d''), (\<lambda>i. 0, 1, ''e'')]"
  let ?eq = "\<lambda>a b :: 32 word. if a = b then 0 else 1 :: int" and ?K = "{1, 3, 5, 9, 16} :: 32 word set"
  obtain t :: "(32 word, string) T_HashTable" where
      t: "basHashTableCreate small_settings (True, True) (\<lambda>k. k) ?eq False False = Some t"
    by (simp add: basHashTableCreate_def)
  have s: "init_size small_settings = 2 ^ 3" "(3 :: nat) \<le> 31" "limit_of small_settings (2 ^ 3) < 2 ^ 3" by (simp_all add: small_settings_def)
  have K: "finite ?K" "int (card ?K) \<le> limit_of small_settings (2 ^ 3)" by (simp_all add: small_settings_def)
  have d: "\<forall>x\<in>?K. \<forall>y\<in>?K. (?eq x y = 0 \<longleftrightarrow> x = y) \<and> (mix x = mix y \<longrightarrow> x = y)" by (simp add: mix_def)
  have "\<exists>t'. insert_all small_settings ?ks t = Some t' \<and> (\<forall>k\<in>?K. basHashTableSearch t' k = Some (map_of (rev (map snd ?ks)) k))"
    by (rule hash_insertions_are_a_map[OF s K t]) (use d in simp_all)
  with t show ?thesis by auto
qed

text \<open>
  An expansion can lose entries: the value it compares with instead of the hash value is not initialised, and where it is
  the hash value of an entry that has been moved already, the next entry with the same first slot takes its place. Here,
  of two entries only the second one is left.
\<close>

theorem hash_expansion_loses:
  assumes "iMask t = 3" "pptTable t = [Some x, None, None, Some y]" "multiplicand c = 2"
    and "iHashValue x AND 7 = iHashValue y AND 7" "junk 3 = iHashValue x"
  shows "\<exists>t'. basHashTableExpand c (True, True) junk t = Some (0, t')
    \<and> pptTable t' = (replicate 8 None)[unat (iHashValue y AND 7) := Some y]"
proof -
  define s where "s = unat (iHashValue y AND 7)"
  have s: "s < 8" using and_mask_less[of "iHashValue y" 3] by (simp add: s_def mask_eq_exp_minus_1)
  define u where "u = t\<lparr>iMask := 7, iLimit := limit_of c 8\<rparr>"
  have m1: "move_entry u (junk 0) (Some x) (replicate 8 None) = Some ((replicate 8 None)[s := Some x])"
    unfolding move_entry_def option.case by (subst slot_loop.simps) (use s assms(4) in \<open>simp add: u_def s_def not_le\<close>)
  have "same_entry u (junk 3) (pvKey y) x" using assms(5) by (simp add: same_entry_def)
  then have m2: "move_entry u (junk 3) (Some y) ((replicate 8 None)[s := Some x]) = Some ((replicate 8 None)[s := Some y])"
    unfolding move_entry_def option.case by (subst slot_loop.simps) (use s in \<open>simp add: u_def s_def not_le\<close>)
  have none: "move_entry u j None tab = Some tab" for j tab by (simp add: move_entry_def)
  have upt: "[0..<4] = [0, 1, 2, 3 :: nat]" by (simp add: upt_conv_Cons numeral_eq_Suc)
  have "foldM (\<lambda>i tab. move_entry u (junk i) (pptTable u ! i) tab) [0..<4] (replicate 8 None) = Some ((replicate 8 None)[s := Some y])"
    unfolding upt using m1 m2 none by (simp add: u_def assms(2) nth_Cons numeral_eq_Suc)
  then show ?thesis using assms(1-3) by (simp add: basHashTableExpand_def Let_def u_def s_def)
qed

text \<open>
  (C38) Two keys with the same hash value are confused, in any table in which equal keys have equal hash values and that
  has a free slot: the loop stops at an entry with the hash value of the key without comparing keys, wherever in the probe
  sequence it is. After the first one is inserted a search for the second one finds its value, and inserting the second
  one replaces the value of the first.
\<close>

theorem hash_keys_confused:
  assumes "length (pptTable t) = 2 ^ b" "b \<le> 31" "iMask t = mask b" "None \<in> set (pptTable t)" "iUsed t + 1 \<le> iLimit t"
    and "lawful t" "hash t k1 = hash t k2"
  shows "\<exists>t1 t2. basHashTableInsert c (True, True, True) junk t k1 v1 = Some (0, t1) \<and> basHashTableSearch t1 k2 = Some (Some v1)
    \<and> basHashTableInsert c (True, True, True) junk t1 k2 v2 = Some (0, t2) \<and> basHashTableSearch t2 k1 = Some (Some v2)"
proof -
  have b: "b \<le> 32" using assms(2) by simp
  obtain p where p: "p < 2 ^ b" "hash_loop (pptTable t) (iMask t) (hash t k1) = Some p"
    using slot_loop_ends[OF assms(1) b assms(4)] unfolding hash_loop_def assms(3) by blast
  obtain e1 t1 where t1: "basHashTableInsert c (True, True, True) junk t k1 v1 = Some (0, t1)" "lawful t1" "hash t1 = hash t" "iMask t1 = iMask t"
      "pptTable t1 = (pptTable t)[p := Some e1]" "iHashValue e1 = hash t k1" "pvValue e1 = v1"
    using lawful_insert[OF assms(6) p(2) assms(5)] by metis
  have l1: "hash_loop (pptTable t1) (iMask t1) (hash t1 k2) = Some p" using hash_loop_put[OF p(2) t1(6)] t1(3-5) assms(7) by simp
  have at: "pptTable t1 ! p = Some e1" using p(1) assms(1) t1(5) by simp
  obtain e2 t2 where t2: "basHashTableInsert c (True, True, True) junk t1 k2 v2 = Some (0, t2)" "lawful t2" "hash t2 = hash t1" "iMask t2 = iMask t1"
      "pptTable t2 = (pptTable t1)[p := Some e2]" "iHashValue e2 = hash t1 k2" "pvValue e2 = v2"
    using lawful_insert[OF t1(2) l1] at by (metis option.distinct(1))
  have l2: "hash_loop (pptTable t2) (iMask t2) (hash t2 k1) = Some p" using hash_loop_put[OF l1 t2(6)] t2(3-5) t1(3) assms(7) by simp
  have "pptTable t2 ! p = Some e2" using p(1) assms(1) t1(5) t2(5) by simp
  then show ?thesis
    using t1(1,7) t2(1,7) lawful_search(2)[OF t1(2) l1] lawful_search(2)[OF t2(2) l2] at by auto
qed

text \<open>Keys 1 and 2 have the same hash value; 3, with another one, is in the slot where their search starts.\<close>

theorem hash_keys_confused_witness:
  "\<exists>t t1 t2 :: (nat, string) T_HashTable. pfHashEqualFunc t 1 2 \<noteq> 0 \<and> basHashTableSearch t 3 = Some (Some ''c'')
    \<and> basHashTableInsert small_settings (True, True, True) (\<lambda>i. 0) t 1 ''a'' = Some (0, t1) \<and> basHashTableSearch t1 2 = Some (Some ''a'')
    \<and> basHashTableInsert small_settings (True, True, True) (\<lambda>i. 0) t1 2 ''b'' = Some (0, t2) \<and> basHashTableSearch t2 1 = Some (Some ''b'')"
proof -
  define e :: "(nat, string) T_HashEntry" where "e = \<lparr>iHashValue = mix 1, pvKey = 3, pvValue = ''c''\<rparr>"
  define t :: "(nat, string) T_HashTable" where
    "t = \<lparr>pptTable = replicate 7 None @ [Some e], iUsed = 1, iMask = mask 3, iLimit = 6, pfHashFunc = \<lambda>k. if k = 3 then 1 else 16,
       pfHashEqualFunc = \<lambda>a b. if a = b then 0 else 1, iFreeKey = False, iFreeValue = False\<rparr>"
  have m: "mix 1 = 0xfc5dcee7" by (simp add: mix_def)
  have l: "lawful t" unfolding lawful_def by (simp add: t_def hash_def e_def)
  have "hash_loop (pptTable t) (iMask t) (hash t 3) = Some 7"
    unfolding hash_loop_def by (subst slot_loop.simps) (simp add: t_def hash_def e_def m mask_eq_exp_minus_1 nth_append)
  then have "basHashTableSearch t 3 = Some (Some ''c'')" using lawful_search(2)[OF l] by (simp add: t_def e_def nth_append)
  moreover have h: "length (pptTable t) = 2 ^ 3" "(3 :: nat) \<le> 31" "iMask t = mask 3" "None \<in> set (pptTable t)" "iUsed t + 1 \<le> iLimit t"
      "hash t 1 = hash t 2" "pfHashEqualFunc t 1 2 \<noteq> 0" by (simp_all add: t_def hash_def)
  ultimately show ?thesis using hash_keys_confused[OF h(1-5) l h(6)] by blast
qed

theorem hash_search_ends_witness:
  "\<exists>i. basInnerHashTableSearch \<lparr>pptTable = replicate 8 None, iUsed = 0, iMask = mask 3, iLimit = 6, pfHashFunc = \<lambda>k :: nat. 7,
      pfHashEqualFunc = \<lambda>a b. 0, iFreeKey = False, iFreeValue = False\<rparr> 5 = Some i \<and> i < 2 ^ 3"
  using hash_search_ends[of "\<lparr>pptTable = replicate 8 None, iUsed = 0, iMask = mask 3, iLimit = 6, pfHashFunc = \<lambda>k :: nat. 7,
      pfHashEqualFunc = \<lambda>a b. 0, iFreeKey = False, iFreeValue = False\<rparr>" 3 5] by auto

text \<open> Removal loses other entries: it leaves a null slot, which ends every search that has to pass it. Any other
  key whose search starts at the slot of the removed one is not found any more, stored or not.
\<close>

theorem hash_remove_loses:
  assumes "basInnerHashTableSearch t k = Some (int s)" and "pptTable t ! s = Some e" and "s < length (pptTable t)"
    and "unat (hash t k' AND iMask t) = s"
  shows "\<exists>freed t'. basHashTableRemove t k = Some (Some (pvValue e), freed, t') \<and> basHashTableSearch t' k' = Some None"
proof -
  define t' where "t' = t\<lparr>pptTable := (pptTable t)[s := None], iUsed := iUsed t - 1\<rparr>"
  have "hash t' k' = hash t k'" "iMask t' = iMask t" "pptTable t' = (pptTable t)[s := None]" by (simp_all add: t'_def hash_def)
  then have "basInnerHashTableSearch t' k' = Some (- 1)"
    unfolding basInnerHashTableSearch_def Let_def using assms(3,4) by (subst slot_loop.simps) (simp add: not_le)
  then have "basHashTableSearch t' k' = Some None" by (simp add: basHashTableSearch_def)
  moreover have "basHashTableRemove t k = Some (Some (pvValue e), (if iFreeKey t then [Freed_Key (pvKey e)] else []) @ [Freed_Entry e], t')"
    by (simp add: basHashTableRemove_def assms(1,2) t'_def)
  ultimately show ?thesis by blast
qed

text \<open>Keys 1 and 16 share their first slot in a table of eight; 16 is found before 1 is removed, and lost afterwards.\<close>

theorem hash_remove_loses_witness:
  "\<exists>t :: (32 word, string) T_HashTable. basHashTableSearch t 16 = Some (Some ''b'')
    \<and> (\<exists>freed t'. basHashTableRemove t 1 = Some (Some ''a'', freed, t') \<and> basHashTableSearch t' 16 = Some None)"
proof -
  define e1 e16 :: "(32 word, string) T_HashEntry" where "e1 = \<lparr>iHashValue = mix 1, pvKey = 1, pvValue = ''a''\<rparr>"
    and "e16 = \<lparr>iHashValue = mix 16, pvKey = 16, pvValue = ''b''\<rparr>"
  define t :: "(32 word, string) T_HashTable" where
    "t = \<lparr>pptTable = [None, None, None, Some e16, None, None, None, Some e1], iUsed = 2, iMask = 7, iLimit = 6, pfHashFunc = \<lambda>k. k,
       pfHashEqualFunc = \<lambda>a b. if a = b then 0 else 1, iFreeKey = False, iFreeValue = False\<rparr>"
  have m: "mix 1 = 0xfc5dcee7" "mix 16 = 0xc7dcee77" by (simp_all add: mix_def)
  have p: "pptTable t = [None, None, None, Some e16, None, None, None, Some e1]" "iMask t = 7" by (simp_all add: t_def)
  have h: "hash t 1 = 0xfc5dcee7" "hash t 16 = 0xc7dcee77" by (simp_all add: hash_def t_def m)
  have e: "same_entry t 0xfc5dcee7 1 e1" "\<not> same_entry t 0xc7dcee77 16 e1" "same_entry t 0xc7dcee77 16 e16"
    by (simp_all add: same_entry_def t_def e1_def e16_def m)
  have a1: "basInnerHashTableSearch t 1 = Some (int 7)"
    unfolding basInnerHashTableSearch_def Let_def p h by (subst slot_loop.simps) (simp add: e)
  have "slot_loop (pptTable t) 7 (same_entry t 0xc7dcee77 16) 3 (drop_bit 5 0xc7dcee77) = Some 3"
    unfolding p by (subst slot_loop.simps) (simp add: e)
  then have "basInnerHashTableSearch t 16 = Some 3"
    unfolding basInnerHashTableSearch_def Let_def p h by (subst slot_loop.simps) (simp add: e)
  then have "basHashTableSearch t 16 = Some (Some ''b'')" by (simp add: basHashTableSearch_def p e16_def)
  moreover have "\<exists>freed t'. basHashTableRemove t 1 = Some (Some (pvValue e1), freed, t') \<and> basHashTableSearch t' 16 = Some None"
    by (rule hash_remove_loses[OF a1]) (simp_all add: p h)
  ultimately show ?thesis by (auto simp: e1_def)
qed

end
