(* ===== verification/Bas_Encrypt.thy ===== *)
theory Bas_Encrypt
  imports C_Print
begin

unbundle bit_operations_syntax

text \<open>
  The encoding of log records, \<^verbatim>\<open>Excellent_Code/Lib_bas/bas_encrypt.c\<close>: a header of 13 bytes, lines of at most 51
  bytes, each with its length and four printable characters for three bytes, a terminating character. The bytes
  are combined with a mask taken from the clock, which the header carries.

  A buffer is the list of the bytes from a pointer to the end of the object, and an access outside it is \<open>None\<close>.
  Bytes are 8-bit words; \<^verbatim>\<open>char\<close> is signed, and the arithmetic is on \<^verbatim>\<open>int\<close>.
\<close>

type_synonym byte = "8 word"

definition ENC :: "int \<Rightarrow> byte" where
  "ENC c = word_of_int (if c \<noteq> 0 then (c AND 0x3F) + 32 else 96)"

definition DEC :: "byte \<Rightarrow> int" where
  "DEC c = (sint c - 32) AND 0x3F"

definition stcnEncodeHead :: "byte list" where
  "stcnEncodeHead = [68, 90, 89, 65]"

section \<open>Encoding\<close>

definition XC :: "int \<Rightarrow> byte \<Rightarrow> int" where
  "XC msk c = sint c XOR msk"

text \<open>One round of the inner loop: three bytes, four characters\<close>

definition enc_group :: "int \<Rightarrow> byte \<Rightarrow> byte \<Rightarrow> byte \<Rightarrow> byte list" where
  "enc_group msk a b c =
    [ENC (drop_bit 2 (XC msk a)),
     ENC ((push_bit 4 (XC msk a) AND 0x30) OR (drop_bit 4 (XC msk b) AND 0x0F)),
     ENC ((push_bit 2 (XC msk b) AND 0x3C) OR (drop_bit 6 (XC msk c) AND 0x03)),
     ENC (XC msk c AND 0x3F)]"

text \<open>The inner loop, for \<open>n\<close> bytes at the start of \<open>src\<close>: the last round may read two bytes more. It gives the rest of \<open>src\<close>.\<close>

fun enc_line :: "int \<Rightarrow> byte list \<Rightarrow> nat \<Rightarrow> (byte list \<times> byte list) option" where
  "enc_line msk src 0 = Some ([], src)"
| "enc_line msk (a # b # c # src) (Suc n) = do { (out, r) \<leftarrow> enc_line msk src (n - 2); Some (enc_group msk a b c @ out, r) }"
| "enc_line msk _ (Suc n) = None"

text \<open>The outer loop, for \<open>iLen\<close> bytes\<close>

function enc_lines :: "int \<Rightarrow> byte list \<Rightarrow> nat \<Rightarrow> byte list option" where
  "enc_lines msk src iLen =
    (if iLen = 0 then Some []
     else do {
       let n = min 51 iLen;
       (out, src) \<leftarrow> enc_line msk src n;
       rest \<leftarrow> enc_lines msk src (iLen - 51);
       Some (ENC (int n) # out @ rest) })"
  by pat_completeness auto
termination by (relation "measure (\<lambda>(_, _, n). n)") auto

declare enc_lines.simps [simp del]

text \<open>\<open>now\<close> is the result of \<^verbatim>\<open>time\<close>. The parameter \<^verbatim>\<open>maxlen\<close> is not used.\<close>

definition lencodelog' :: "int \<Rightarrow> byte list \<Rightarrow> byte list \<Rightarrow> nat \<Rightarrow> (nat \<times> byte list) option" where
  "lencodelog' now dest src iLen = do {
     let msk = now AND 0xFFFF;
     body \<leftarrow> enc_lines msk src iLen;
     let l = 13 + length body + 1;
     let text = stcnEncodeHead
       @ [ENC (drop_bit 2 msk), ENC ((push_bit 4 msk AND 0x30) OR (drop_bit 4 (drop_bit 8 msk) AND 0x0F))]
       @ take 7 (map of_char (print0 7 (int l))) @ body @ [ENC 0];
     if length dest < l + 1 \<or> 10 ^ 9 \<le> l then None
     else Some (l, text @ [0] @ drop (l + 1) dest) }"

text \<open>\<open>enclog\<close> is whether the environment variable \<^verbatim>\<open>ENCLOG\<close> is \<^verbatim>\<open>"Y"\<close>.\<close>

definition lencodelog :: "int \<Rightarrow> bool \<Rightarrow> byte list \<Rightarrow> byte list \<Rightarrow> nat \<Rightarrow> (nat \<times> byte list) option" where
  "lencodelog now enclog dest src iLen =
    (if \<not> enclog
     then if length dest < iLen \<or> length src < iLen then None else Some (iLen, take iLen src @ drop iLen dest)
     else lencodelog' now dest src iLen)"

section \<open>Decoding\<close>

definition dec_group :: "byte \<Rightarrow> byte \<Rightarrow> byte \<Rightarrow> byte \<Rightarrow> byte list" where
  "dec_group p q r s =
    [word_of_int (push_bit 2 (DEC p) OR drop_bit 4 (DEC q)),
     word_of_int (push_bit 4 (DEC q) OR drop_bit 2 (DEC r)),
     word_of_int (push_bit 6 (DEC r) OR DEC s)]"

text \<open>The inner loop: the characters of a line of \<open>n\<close> bytes. It reads only what it uses of the last group.\<close>

fun dec_line :: "byte list \<Rightarrow> nat \<Rightarrow> (byte list \<times> byte list) option" where
  "dec_line src n =
    (if n = 0 then Some ([], src)
     else if 3 \<le> n then (case src of
         p # q # r # s # src \<Rightarrow> do { (out, rest) \<leftarrow> dec_line src (n - 3); Some (dec_group p q r s @ out, rest) }
       | _ \<Rightarrow> None)
     else if n = 2 then (case src of
         p # q # r # src \<Rightarrow> Some (take 2 (dec_group p q r 0), drop 1 src)
       | _ \<Rightarrow> None)
     else (case src of
         p # q # src \<Rightarrow> Some (take 1 (dec_group p q 0 0), drop 2 src)
       | _ \<Rightarrow> None))"

declare dec_line.simps [simp del]

text \<open>The outer loop counts \<^verbatim>\<open>iLen\<close> down by the bytes decoded and ends at a line of length 0.\<close>

function dec_lines :: "byte list \<Rightarrow> int \<Rightarrow> byte list option" where
  "dec_lines src iLen =
    (if iLen \<le> 0 then Some []
     else case src of
       [] \<Rightarrow> None
     | c # src \<Rightarrow>
         if DEC c \<le> 0 then Some []
         else do {
           (out, src) \<leftarrow> dec_line src (nat (DEC c));
           rest \<leftarrow> dec_lines src (iLen - DEC c);
           Some (out @ rest) })"
  by pat_completeness auto
termination by (relation "measure (\<lambda>(_, n). nat n)") auto

declare dec_lines.simps [simp del]

definition ldecodelog :: "byte list \<Rightarrow> byte list \<Rightarrow> int \<Rightarrow> (nat \<times> byte list) option" where
  "ldecodelog dest src iLen =
    (if iLen < 14 then Some (0, dest)
     else if length src < 13 then None
     else if take 4 src \<noteq> stcnEncodeHead then Some (0, dest)
     else do {
       let msk = push_bit 2 (DEC (src ! 4)) OR drop_bit 4 (DEC (src ! 5));
       out \<leftarrow> dec_lines (drop 13 src) iLen;
       let l = length out;
       if length dest < l then None
       else Some (l, map (\<lambda>b. word_of_int (sint b XOR msk)) out @ drop l dest) })"

section \<open>Decoding inverts encoding\<close>

lemma DEC_ENC: "DEC (ENC c) = c AND 0x3F"
proof -
  have r: "0 \<le> c AND 0x3F" "c AND 0x3F \<le> 63" by (simp_all add: AND_upper2)
  define d where "d = (if c \<noteq> 0 then (c AND 0x3F) + 32 else 96)"
  have d: "32 \<le> d" "d \<le> 96" using r by (simp_all add: d_def)
  have "sint (word_of_int d :: byte) = d" using d by (simp add: signed_take_bit_int_eq_self sint_sbintrunc')
  then have "DEC (ENC c) = (d - 32) AND 0x3F" by (simp add: DEC_def ENC_def d_def)
  also have "\<dots> = c AND 0x3F" by (simp add: d_def)
  finally show ?thesis .
qed

lemma masks: "(0x3F :: int) = mask 6" "(0x30 :: int) = push_bit 4 (mask 2)" "(0x0F :: int) = mask 4"
  "(0x3C :: int) = push_bit 2 (mask 4)" "(0x03 :: int) = mask 2"
  by (simp_all add: mask_eq_exp_minus_1)

lemma Suc_Suc_diff: "2 \<le> n \<Longrightarrow> Suc (Suc (n - 2)) = n"
  by simp

lemma first_byte:
  "word_of_int (push_bit 2 (drop_bit 2 x AND 0x3F) OR drop_bit 4 (((push_bit 4 x AND 0x30) OR (y AND 0x0F)) AND 0x3F))
    = (word_of_int x :: byte)"
  unfolding masks by (rule bit_eqI) (auto simp: bit_simps not_less Suc_Suc_diff)

lemma second_byte:
  "word_of_int (push_bit 4 (((w AND 0x30) OR (drop_bit 4 x AND 0x0F)) AND 0x3F)
      OR drop_bit 2 (((push_bit 2 x AND 0x3C) OR (y AND 0x03)) AND 0x3F))
    = (word_of_int x :: byte)"
  unfolding masks by (rule bit_eqI) (auto simp: bit_simps not_less)

lemma third_byte:
  "word_of_int (push_bit 6 (((w AND 0x3C) OR (drop_bit 6 x AND 0x03)) AND 0x3F) OR ((x AND 0x3F) AND 0x3F))
    = (word_of_int x :: byte)"
  unfolding masks by (rule bit_eqI) (auto simp: bit_simps not_less)

abbreviation hidden :: "int \<Rightarrow> byte \<Rightarrow> byte" where
  "hidden msk b \<equiv> word_of_int (XC msk b)"

lemma group_roundtrip: "enc_group msk a b c = [p, q, r, s] \<Longrightarrow> dec_group p q r s = [hidden msk a, hidden msk b, hidden msk c]"
  by (auto simp only: enc_group_def dec_group_def list.inject DEC_ENC first_byte second_byte third_byte)

lemma partial_group:
  "take 2 (dec_group p q r s) = take 2 (dec_group p q r s')" "take 1 (dec_group p q r s) = take 1 (dec_group p q r' s')"
  by (simp_all add: dec_group_def)

definition groups :: "nat \<Rightarrow> nat" where
  "groups n = (n + 2) div 3"

lemma groups_Suc: "groups (Suc n) = Suc (groups (n - 2))"
  unfolding groups_def by (cases n; cases "n - 1") auto

lemma line_roundtrip:
  "3 * groups n \<le> length src \<Longrightarrow> \<exists>out. enc_line msk src n = Some (out, drop (3 * groups n) src) \<and> length out = 4 * groups n
    \<and> (\<forall>rest. dec_line (out @ rest) n = Some (map (hidden msk) (take n src), rest))"
proof (induction msk src n rule: enc_line.induct)
  case (1 msk src)
  show ?case by (simp add: groups_def dec_line.simps)
next
  case (2 msk a b c src n)
  then obtain out where out: "enc_line msk src (n - 2) = Some (out, drop (3 * groups (n - 2)) src)" "length out = 4 * groups (n - 2)"
      "\<And>rest. dec_line (out @ rest) (n - 2) = Some (map (hidden msk) (take (n - 2) src), rest)"
    by (auto simp: groups_Suc)
  obtain p q r s where g: "enc_group msk a b c = [p, q, r, s]" by (simp add: enc_group_def)
  note d = group_roundtrip[OF g]
  have "dec_line ([p, q, r, s] @ out @ rest) (Suc n) = Some (map (hidden msk) (take (Suc n) (a # b # c # src)), rest)" for rest
  proof -
    consider "n = 0" | "n = 1" | "2 \<le> n" by linarith
    then show ?thesis
    proof cases
      case 1
      then have "out = []" using out(2) by (simp add: groups_def)
      then show ?thesis using 1 d partial_group(2)[of p q 0 0 r s] by (subst dec_line.simps) simp
    next
      case 2
      then have "out = []" using out(2) by (simp add: groups_def)
      then show ?thesis using 2 d partial_group(1)[of p q r 0 s] by (subst dec_line.simps) simp
    next
      case 3
      then have "Suc n - 3 = n - 2" "take (Suc n) (a # b # c # src) = a # b # c # take (n - 2) src"
        by (simp_all add: take_Cons' numeral_2_eq_2)
      with 3 out(3)[of rest] d show ?thesis by (subst dec_line.simps) simp
    qed
  qed
  then show ?case using out(1,2) by (simp add: g groups_Suc numeral_3_eq_3)
qed (auto simp: groups_Suc)

text \<open>The size of the lines of \<open>n\<close> bytes\<close>

definition lines_size :: "nat \<Rightarrow> nat" where
  "lines_size n = (n + 50) div 51 + 4 * groups n"

lemma groups_split: "groups n = groups (min 51 n) + groups (n - min 51 n)" "n - min 51 n = 0 \<or> 3 * groups (min 51 n) = min 51 n"
proof -
  show "n - min 51 n = 0 \<or> 3 * groups (min 51 n) = min 51 n" by (cases "n \<le> 51") (simp_all add: groups_def)
  show "groups n = groups (min 51 n) + groups (n - min 51 n)"
  proof (cases "n \<le> 51")
    case False
    then obtain m where "n = m + 51" by (metis add.commute le_Suc_ex nat_le_linear)
    moreover have "(m + 51 + 2) div 3 = (3 * 17 + (m + 2)) div 3" by simp
    moreover have "\<dots> = 17 + (m + 2) div 3" by (rule div_mult_self4) simp
    ultimately show ?thesis by (simp add: groups_def)
  qed (simp add: groups_def)
qed

lemma lines_split: "n \<noteq> 0 \<Longrightarrow> lines_size n = 1 + 4 * groups (min 51 n) + lines_size (n - min 51 n)"
proof -
  assume "n \<noteq> 0"
  have "(n + 50) div 51 = 1 + (n - min 51 n + 50) div 51"
  proof (cases "n \<le> 51")
    case True
    with \<open>n \<noteq> 0\<close> have "(n + 50) div 51 = 1" by (simp add: div_nat_eqI)
    with True show ?thesis by simp
  next
    case False
    then obtain m where "n = m + 51" by (metis add.commute le_Suc_ex nat_le_linear)
    then show ?thesis using div_add_self1[of 51 "m + 50"] by (simp add: add.commute add.left_commute)
  qed
  with groups_split(1)[of n] show ?thesis by (simp add: lines_size_def)
qed

lemma lines_roundtrip:
  "3 * groups n \<le> length src \<Longrightarrow> \<exists>body. enc_lines msk src n = Some body \<and> length body = lines_size n
    \<and> (\<forall>rest iLen. int n < iLen \<longrightarrow> dec_lines (body @ ENC 0 # rest) iLen = Some (map (hidden msk) (take n src)))"
proof (induction n arbitrary: src rule: less_induct)
  case (less n)
  show ?case
  proof (cases "n = 0")
    case True
    have "DEC (ENC 0) = 0" by (simp add: DEC_ENC)
    with True show ?thesis by (simp add: enc_lines.simps dec_lines.simps lines_size_def groups_def)
  next
    case False
    define k where "k = min 51 n"
    have k: "1 \<le> k" "k \<le> 51" "k \<le> n" "n - 51 = n - k" using False by (simp_all add: k_def)
    have g: "3 * groups k \<le> length src" using less.prems k(3) div_le_mono[of "k + 2" "n + 2" 3] by (simp add: groups_def)
    obtain out where out: "enc_line msk src k = Some (out, drop (3 * groups k) src)" "length out = 4 * groups k"
        "\<And>rest. dec_line (out @ rest) k = Some (map (hidden msk) (take k src), rest)"
      using line_roundtrip[OF g] by blast
    note split = groups_split[of n, folded k_def]
    then have "3 * groups (n - k) \<le> length (drop (3 * groups k) src)" using less.prems by simp
    then obtain body where body: "enc_lines msk (drop (3 * groups k) src) (n - k) = Some body" "length body = lines_size (n - k)"
        "\<And>rest iLen. int (n - k) < iLen \<Longrightarrow> dec_lines (body @ ENC 0 # rest) iLen = Some (map (hidden msk) (take (n - k) (drop (3 * groups k) src)))"
      using less.IH[of "n - k"] k by force
    have c: "DEC (ENC (int k)) = int k"
    proof -
      have "int k AND mask 6 = int k" using k(2) by (simp flip: take_bit_eq_mask) (simp add: take_bit_int_eq_self)
      then show ?thesis by (simp add: DEC_ENC masks(1))
    qed
    have e: "enc_lines msk src n = Some (ENC (int k) # out @ body)"
      by (subst enc_lines.simps) (use False out(1) body(1) k(4) in \<open>simp add: k_def[symmetric]\<close>)
    have "take (n - k) (drop (3 * groups k) src) = take (n - k) (drop k src)" using split(2) by auto
    moreover have "take n src = take k src @ take (n - k) (drop k src)" using k(3) by (metis le_add_diff_inverse take_add)
    ultimately have "dec_lines ((ENC (int k) # out @ body) @ ENC 0 # rest) iLen = Some (map (hidden msk) (take n src))" if "int n < iLen" for rest iLen
      using that k body(3)[of "iLen - int k" rest] out(3)[of "body @ ENC 0 # rest"]
      by (subst dec_lines.simps) (simp add: c of_nat_diff)
    moreover have "length (ENC (int k) # out @ body) = lines_size n"
      using lines_split[OF False, folded k_def] out(2) body(2) by simp
    ultimately show ?thesis using e by blast
  qed
qed

section \<open>A whole record\<close>

lemma byte_XOR: "word_of_int (sint (w :: byte) XOR m) = w XOR word_of_int m"
  by (rule bit_word_eqI) (auto simp: bit_simps bit_sint_iff not_le dest: bit_imp_le_length)

lemma unhide: "word_of_int (sint (hidden msk b) XOR m) = b" if "word_of_int m = (word_of_int msk :: byte)"
  using that by (simp only: byte_XOR XC_def) (simp add: xor.assoc)

definition header :: "int \<Rightarrow> nat \<Rightarrow> byte list" where
  "header msk l = stcnEncodeHead
    @ [ENC (drop_bit 2 msk), ENC ((push_bit 4 msk AND 0x30) OR (drop_bit 4 (drop_bit 8 msk) AND 0x0F))]
    @ take 7 (map of_char (print0 7 (int l)))"

lemma header_parts:
  "take 4 (header msk l) = stcnEncodeHead"
  "header msk l ! 4 = ENC (drop_bit 2 msk)"
  "header msk l ! 5 = ENC ((push_bit 4 msk AND 0x30) OR (drop_bit 4 (drop_bit 8 msk) AND 0x0F))"
  by (simp_all add: header_def stcnEncodeHead_def)

lemma header_mask:
  "word_of_int (push_bit 2 (DEC (header msk l ! 4)) OR drop_bit 4 (DEC (header msk l ! 5))) = (word_of_int msk :: byte)"
  by (simp only: header_parts DEC_ENC first_byte)

lemma header_length: "l < 10 ^ 7 \<Longrightarrow> length (header msk l) = 13"
  using print0_nonneg(1)[of "int l" 7] by (simp add: header_def stcnEncodeHead_def)

text \<open>The bytes of a record, and what it decodes to\<close>

definition record_bytes :: "int \<Rightarrow> nat \<Rightarrow> byte list \<Rightarrow> byte list" where
  "record_bytes msk l body = header msk l @ body @ [ENC 0]"

lemma record_exists:
  assumes "3 * groups n \<le> length src" and "l = 14 + lines_size n" and "l < 10 ^ 7"
  shows "\<exists>body. enc_lines msk src n = Some body \<and> length body = lines_size n
    \<and> (\<forall>dest rest. n \<le> length dest \<longrightarrow> ldecodelog dest (record_bytes msk l body @ rest) (int l) = Some (n, take n src @ drop n dest))"
proof -
  obtain body where body: "enc_lines msk src n = Some body" "length body = lines_size n"
      "\<And>rest iLen. int n < iLen \<Longrightarrow> dec_lines (body @ ENC 0 # rest) iLen = Some (map (hidden msk) (take n src))"
    using lines_roundtrip[OF assms(1), of msk] by blast
  have h: "length (header msk l) = 13" using assms(3) by (rule header_length)
  have m: "length (take n src) = n" using assms(1) by (simp add: groups_def)
  have l: "int n < int l" using assms(2) by (simp add: lines_size_def groups_def)
  have "ldecodelog dest (record_bytes msk l body @ rest) (int l) = Some (n, take n src @ drop n dest)" if "n \<le> length dest" for dest rest
  proof -
    define enc where "enc = record_bytes msk l body @ rest"
    have "take 4 enc = stcnEncodeHead" "enc ! 4 = header msk l ! 4" "enc ! 5 = header msk l ! 5"
        "drop 13 enc = body @ ENC 0 # rest" "13 \<le> length enc"
      using h header_parts(1)[of msk l] by (simp_all add: enc_def record_bytes_def nth_append)
    then have "ldecodelog dest enc (int l) = Some (n, take n src @ drop n dest)"
      using that m header_mask[of msk l] unhide assms(2) body(3)[OF l, of rest]
      by (simp add: ldecodelog_def Let_def comp_def)
    then show ?thesis by (simp only: enc_def)
  qed
  with body(1,2) show ?thesis by blast
qed

text \<open>
  A record is the header and the lines, and \<^verbatim>\<open>ldecodelog\<close> takes exactly the bytes of the source from it: the mask
  in the header has only the 8 bits that matter for a byte, and the 2 bytes of padding are left out.
\<close>

theorem log_roundtrip:
  assumes n: "0 < n" "3 * groups n \<le> length src"
    and l: "l = 14 + lines_size n" "l < length dest" "l < 10 ^ 7"
    and d: "n \<le> length dest2"
  shows "\<exists>enc. lencodelog' now dest src n = Some (l, enc) \<and> length enc = length dest
    \<and> take 4 enc = stcnEncodeHead \<and> drop (l + 1) enc = drop (l + 1) dest
    \<and> ldecodelog dest2 enc (int l) = Some (n, take n src @ drop n dest2)"
proof -
  define msk where "msk = now AND 0xFFFF"
  obtain body where body: "enc_lines msk src n = Some body" "length body = lines_size n"
      "\<And>dest rest. n \<le> length dest \<Longrightarrow> ldecodelog dest (record_bytes msk l body @ rest) (int l) = Some (n, take n src @ drop n dest)"
    using record_exists[OF n(2) l(1,3)] by blast
  define enc where "enc = record_bytes msk l body @ [0] @ drop (l + 1) dest"
  have h: "length (header msk l) = 13" using l(3) by (rule header_length)
  have "lencodelog' now dest src n = Some (l, enc)"
    using body(1,2) l by (simp add: lencodelog'_def Let_def msk_def[symmetric] enc_def record_bytes_def header_def)
  moreover have "take 4 enc = stcnEncodeHead" "drop (l + 1) enc = drop (l + 1) dest" "length enc = length dest"
    using h header_parts(1)[of msk l] body(2) l by (simp_all add: enc_def record_bytes_def)
  moreover have "ldecodelog dest2 enc (int l) = Some (n, take n src @ drop n dest2)" using body(3)[OF d] by (simp add: enc_def)
  ultimately show ?thesis by blast
qed

theorem log_roundtrip_witness:
  "\<exists>enc. lencodelog' 1234567 (replicate 30 7) [1, 2, 3, 4, 200, 9] 4 = Some (23, enc) \<and> length enc = 30
    \<and> take 4 enc = stcnEncodeHead \<and> drop 24 enc = replicate 6 7
    \<and> ldecodelog [8, 8, 8, 8, 8] enc 23 = Some (4, [1, 2, 3, 4, 8])"
  using log_roundtrip[of 4 "[1, 2, 3, 4, 200, 9]" 23 "replicate 30 7" "[8, 8, 8, 8, 8]" 1234567]
  by (simp add: groups_def lines_size_def)

end
