(* ===== verification/Bas_Encrypt_File.thy ===== *)
theory Bas_Encrypt_File
  imports Bas_Encrypt "HOL-Library.Sublist"
begin

text \<open>
  Decoding a log file, \<^verbatim>\<open>ldecodefd2fd\<close> of \<^verbatim>\<open>bas_encrypt.c\<close>: a matcher for the header of a record runs over the
  bytes of the file; records are decoded and the text between them is copied. The file is the list of the bytes
  still to be read, and the model gives the result and the bytes written; it is \<open>None\<close> where a read
  would leave the buffer.
\<close>

definition MAXLEN :: nat where
  "MAXLEN = 51200"

text \<open>\<^verbatim>\<open>fprintf(fdW, "%*.*s", w, w, s)\<close>: the bytes of \<open>s\<close> before a null byte, at most \<open>w\<close>, after blanks to the width \<open>w\<close>\<close>

definition put_text :: "nat \<Rightarrow> byte list \<Rightarrow> byte list" where
  "put_text w s = (let t = take w (takeWhile (\<lambda>c. c \<noteq> 0) s) in replicate (w - length t) 32 @ t)"

text \<open>\<^verbatim>\<open>fread(caReadbuf + pos, size, 1, fdR)\<close>: the buffer, the rest of the file, and whether a whole item was read\<close>

definition fread_item :: "byte list \<Rightarrow> nat \<Rightarrow> nat \<Rightarrow> byte list \<Rightarrow> (byte list \<times> byte list \<times> bool) option" where
  "fread_item buf pos sz inp =
    (let n = min sz (length inp)
     in if length buf < pos + n then None
        else Some (take pos buf @ take n inp @ drop (pos + n) buf, drop n inp, 0 < sz \<and> sz \<le> length inp))"

record fd_state =
  caReadbuf :: "byte list"
  iPos :: nat
  iMatchCnt :: nat
  written :: "byte list"

definition fd_init :: fd_state where
  "fd_init = \<lparr>caReadbuf = replicate (2 * MAXLEN) 0, iPos = 0, iMatchCnt = 0, written = []\<rparr>"

datatype 'a fd_step = Fails "byte list" | Goes_on 'a

text \<open>The header of a record has been read: the rest of the record is read, decoded and written.\<close>

definition fd_record :: "fd_state \<Rightarrow> byte list \<Rightarrow> (fd_state \<times> byte list) fd_step option" where
  "fd_record s inp = do {
     let iEncryptPos = iPos s - 4;
     (buf, inp, ok) \<leftarrow> fread_item (caReadbuf s) (iEncryptPos + 4) 9 inp;
     if \<not> ok then Some (Fails (written s))
     else do {
       let iEncryLen = atoi (map (char_of \<circ> unat) (drop (iEncryptPos + 6) buf));
       (buf, inp, ok) \<leftarrow> fread_item buf (iEncryptPos + 13) (nat ((iEncryLen - 13) mod 2 ^ 64)) inp;
       if \<not> ok then Some (Fails (written s))
       else do {
         (iDecodeLen, dec) \<leftarrow> ldecodelog (replicate (2 * MAXLEN) 0) (drop iEncryptPos buf) iEncryLen;
         if iDecodeLen = 0 then Some (Fails (written s))
         else Some (Goes_on
           (s\<lparr>caReadbuf := replicate (2 * MAXLEN) 0, iPos := 0, iMatchCnt := 0,
              written := written s @ put_text iEncryptPos buf @ put_text iDecodeLen dec\<rparr>, inp)) } } }"

lemma fread_shorter: "fread_item buf pos sz inp = Some (buf', inp', ok) \<Longrightarrow> length inp' \<le> length inp"
  by (auto simp: fread_item_def Let_def split: if_splits)

lemma fd_record_shorter: "fd_record s inp = Some (Goes_on (s', inp')) \<Longrightarrow> length inp' \<le> length inp"
  unfolding fd_record_def Let_def
  by (fastforce simp: bind_eq_Some_conv dest!: fread_shorter split: if_splits prod.splits)

definition fd_flush :: "fd_state \<Rightarrow> fd_state" where
  "fd_flush s =
    (if iPos s = MAXLEN - 1
     then s\<lparr>caReadbuf := take (iMatchCnt s) (drop (iPos s - iMatchCnt s) (caReadbuf s)) @ replicate (2 * MAXLEN - iMatchCnt s) 0,
            iPos := iMatchCnt s, written := written s @ put_text (iPos s - iMatchCnt s) (caReadbuf s)\<rparr>
     else s)"

text \<open>A byte has been read. The header is matched again from its start when it fails to match further.\<close>

definition fd_match :: "nat \<Rightarrow> byte \<Rightarrow> nat" where
  "fd_match m c =
    (if c = stcnEncodeHead ! m then m + 1
     else if m \<noteq> 0 \<and> c = stcnEncodeHead ! 0 then 1 else 0)"

definition fd_read :: "fd_state \<Rightarrow> byte \<Rightarrow> fd_state" where
  "fd_read s c = s\<lparr>caReadbuf := (caReadbuf s)[iPos s := c], iPos := iPos s + 1, iMatchCnt := fd_match (iMatchCnt s) c\<rparr>"

function fd_loop :: "fd_state \<Rightarrow> byte list \<Rightarrow> (int \<times> byte list) option" where
  "fd_loop s [] = Some (0, written s @ put_text (iPos s + 1) (caReadbuf s))"
| "fd_loop s (c # inp) =
    (if length (caReadbuf s) \<le> iPos s then None
     else let s = fd_read s c
       in if iMatchCnt s = 4
          then (case fd_record s inp of
              None \<Rightarrow> None
            | Some (Fails w) \<Rightarrow> Some (- 1, w)
            | Some (Goes_on (s', inp')) \<Rightarrow> fd_loop s' inp')
          else fd_loop (fd_flush s) inp)"
  by pat_completeness auto
termination by (relation "measure (\<lambda>(_, inp). length inp)") (auto dest: fd_record_shorter)

declare fd_loop.simps [simp del]

definition ldecodefd2fd :: "byte list \<Rightarrow> (int \<times> byte list) option" where
  "ldecodefd2fd inp = fd_loop fd_init inp"

section \<open>Text\<close>

lemma put_text: "0 \<notin> set t \<Longrightarrow> length t = n \<Longrightarrow> put_text n (t @ r) = t"
proof -
  assume "0 \<notin> set t" "length t = n"
  then have "takeWhile (\<lambda>c. c \<noteq> 0) (t @ r) = t @ takeWhile (\<lambda>c. c \<noteq> 0) r" by (intro takeWhile_append2) auto
  with \<open>length t = n\<close> show ?thesis by (simp add: put_text_def Let_def)
qed

lemma put_text_padded: "0 \<notin> set t \<Longrightarrow> length t = n \<Longrightarrow> put_text (n + 1) (t @ 0 # r) = 32 # t"
proof -
  assume "0 \<notin> set t" "length t = n"
  then have "takeWhile (\<lambda>c. c \<noteq> 0) (t @ 0 # r) = t" by (subst takeWhile_append2) auto
  with \<open>length t = n\<close> show ?thesis by (simp add: put_text_def Let_def)
qed

text \<open>
  The state after the text \<open>t\<close>, when \<open>base\<close> was written before: \<open>k\<close> bytes of \<open>t\<close> have been written, and the rest is in
  the buffer, whose other bytes are null.
\<close>

definition fd_inv :: "byte list \<Rightarrow> byte list \<Rightarrow> nat \<Rightarrow> fd_state \<Rightarrow> bool" where
  "fd_inv base t k s \<longleftrightarrow> k + iPos s = length t \<and> written s = base @ take k t
    \<and> caReadbuf s = drop k t @ replicate (2 * MAXLEN - iPos s) 0 \<and> iPos s < MAXLEN - 1
    \<and> iMatchCnt s < 4 \<and> suffix (take (iMatchCnt s) stcnEncodeHead) (drop k t)
    \<and> (length t < MAXLEN - 1 \<longrightarrow> k = 0)"

lemma fd_inv_reset: "fd_inv base [] 0 (s\<lparr>caReadbuf := replicate (2 * MAXLEN) 0, iPos := 0, iMatchCnt := 0, written := base\<rparr>)"
  by (simp add: fd_inv_def MAXLEN_def)

lemma fd_match_suffix:
  "m < 4 \<Longrightarrow> suffix (take m stcnEncodeHead) t \<Longrightarrow> fd_match m c \<le> 4
    \<and> suffix (take (fd_match m c) stcnEncodeHead) (t @ [c])"
proof -
  assume m: "m < 4" and "suffix (take m stcnEncodeHead) t"
  then obtain u where u: "t = u @ take m stcnEncodeHead" by (auto simp: suffix_def)
  have "m < length stcnEncodeHead" using m by (simp add: stcnEncodeHead_def)
  then have "take m stcnEncodeHead @ [stcnEncodeHead ! m] = take (Suc m) stcnEncodeHead" by (simp add: take_Suc_conv_app_nth)
  moreover have "take 1 stcnEncodeHead = [stcnEncodeHead ! 0]" by (simp add: stcnEncodeHead_def)
  ultimately show ?thesis using m by (auto simp: fd_match_def u suffix_def)
qed

lemma fd_read_inv:
  assumes "fd_inv base t k s"
  shows "iPos s < length (caReadbuf s)" "k + iPos (fd_read s c) = length (t @ [c])" "written (fd_read s c) = base @ take k (t @ [c])"
    "caReadbuf (fd_read s c) = drop k (t @ [c]) @ replicate (2 * MAXLEN - iPos (fd_read s c)) 0"
    "iPos (fd_read s c) \<le> MAXLEN - 1" "iMatchCnt (fd_read s c) \<le> 4"
    "suffix (take (iMatchCnt (fd_read s c)) stcnEncodeHead) (drop k (t @ [c]))"
proof -
  note inv = assms[unfolded fd_inv_def]
  have r: "replicate (2 * MAXLEN - iPos s) (0 :: byte) = 0 # replicate (2 * MAXLEN - Suc (iPos s)) 0"
    using inv by (metis MAXLEN_def Suc_diff_Suc less_le_trans diff_le_self mult_2 trans_le_add1 replicate_Suc)
  have l: "length (drop k t) = iPos s" "k \<le> length t" using inv by auto
  show "iPos s < length (caReadbuf s)" using inv by (auto simp: MAXLEN_def)
  show "k + iPos (fd_read s c) = length (t @ [c])" "written (fd_read s c) = base @ take k (t @ [c])" "iPos (fd_read s c) \<le> MAXLEN - 1"
    using inv l by (auto simp: fd_read_def)
  show "caReadbuf (fd_read s c) = drop k (t @ [c]) @ replicate (2 * MAXLEN - iPos (fd_read s c)) 0"
    using inv l r by (simp add: fd_read_def list_update_append)
  show "iMatchCnt (fd_read s c) \<le> 4" "suffix (take (iMatchCnt (fd_read s c)) stcnEncodeHead) (drop k (t @ [c]))"
    using fd_match_suffix[of "iMatchCnt s" "drop k t" c] inv l by (auto simp: fd_read_def)
qed

lemma fd_flush_inv:
  assumes p: "iPos r = MAXLEN - 1" and nz: "0 \<notin> set t" and l: "k + iPos r = length t" and w: "written r = base @ take k t"
    and b: "caReadbuf r = drop k t @ replicate (2 * MAXLEN - iPos r) 0" and m: "iMatchCnt r < 4"
    and sf: "suffix (take (iMatchCnt r) stcnEncodeHead) (drop k t)"
  shows "\<exists>k'. fd_inv base t k' (fd_flush r) \<and> iMatchCnt (fd_flush r) = iMatchCnt r"
proof -
  define h where "h = take (iMatchCnt r) stcnEncodeHead"
  define q where "q = iPos r - iMatchCnt r"
  obtain u where u: "drop k t = u @ h" using sf by (auto simp: suffix_def h_def)
  have lh: "length h = iMatchCnt r" using m by (simp add: h_def stcnEncodeHead_def)
  have "length (drop k t) = iPos r" using l by (metis add_diff_cancel_left' length_drop)
  then have lu: "length u = q" "q + iMatchCnt r = iPos r" using u lh by (simp_all add: q_def)
  have t: "t = take k t @ u @ h" using u by (metis append_take_drop_id)
  have k: "length (take k t) = k" using l by (simp add: le_iff_add[of k, symmetric])
  have d: "drop (k + q) t = h" "take (k + q) t = take k t @ u" using u lu by (metis add.commute append_eq_conv_conj drop_drop) (metis u lu(1) append_eq_conv_conj take_add)
  have "0 \<notin> set u" using nz t by (metis Un_iff set_append)
  then have "put_text q (caReadbuf r) = u" using put_text[of u q "h @ replicate (2 * MAXLEN - iPos r) 0"] lu by (simp add: b u)
  moreover have "take (iMatchCnt r) (drop q (caReadbuf r)) = h" using lu lh by (simp add: b u)
  ultimately have f: "fd_flush r = r\<lparr>caReadbuf := h @ replicate (2 * MAXLEN - iMatchCnt r) 0, iPos := iMatchCnt r, written := written r @ u\<rparr>"
    using p by (simp add: fd_flush_def q_def)
  have "fd_inv base t (k + q) (fd_flush r)"
    using d m p l lu(2) sf by (auto simp: fd_inv_def f w h_def[symmetric] MAXLEN_def)
  moreover have "iMatchCnt (fd_flush r) = iMatchCnt r" by (simp add: f)
  ultimately show ?thesis by blast
qed

lemma fd_text_step:
  assumes inv: "fd_inv base t k s" and c: "0 \<notin> set t" "c \<noteq> 0" "\<not> sublist stcnEncodeHead (t @ [c])"
  shows "\<exists>k s'. fd_inv base (t @ [c]) k s' \<and> iMatchCnt s' = fd_match (iMatchCnt s) c \<and> (\<forall>inp. fd_loop s (c # inp) = fd_loop s' inp)"
proof -
  define r where "r = fd_read s c"
  note r = fd_read_inv(1)[OF inv] fd_read_inv(2-)[OF inv, of c, folded r_def]
  have m: "iMatchCnt r = fd_match (iMatchCnt s) c" by (simp add: r_def fd_read_def)
  have lh: "length stcnEncodeHead = 4" by (simp add: stcnEncodeHead_def)
  have "iMatchCnt r \<noteq> 4"
    using r(7) lh c(3) by (metis order_refl suffix_drop suffix_imp_sublist suffix_order.trans take_all)
  with r(6) have m4: "iMatchCnt r < 4" by simp
  then have loop: "fd_loop s (c # inp) = fd_loop (fd_flush r) inp" for inp
    using r(1) by (simp add: fd_loop.simps(2) Let_def flip: r_def)
  have k: "length t + 1 < MAXLEN - 1 \<longrightarrow> k = 0" using inv by (auto simp: fd_inv_def)
  show ?thesis
  proof (cases "iPos r = MAXLEN - 1")
    case False
    then have "fd_inv base (t @ [c]) k r" using r m4 k by (simp add: fd_inv_def)
    then show ?thesis using m loop False by (metis fd_flush_def)
  next
    case True
    have "0 \<notin> set (t @ [c])" using c(1,2) by simp
    then obtain k' where "fd_inv base (t @ [c]) k' (fd_flush r)" "iMatchCnt (fd_flush r) = iMatchCnt r"
      using fd_flush_inv[OF True _ r(2-4) m4 r(7)] by blast
    then show ?thesis using m loop by metis
  qed
qed

lemma fd_text:
  assumes "fd_inv base t k s" and "0 \<notin> set (t @ u)" and "\<not> sublist stcnEncodeHead (t @ u)"
  shows "\<exists>k' s'. fd_inv base (t @ u) k' s' \<and> (\<forall>inp. fd_loop s (u @ inp) = fd_loop s' inp)"
  using assms(2,3)
proof (induction u rule: rev_induct)
  case Nil
  with assms(1) show ?case by auto
next
  case (snoc c u)
  then have "0 \<notin> set (t @ u)" "c \<noteq> 0" "\<not> sublist stcnEncodeHead (t @ u)" "\<not> sublist stcnEncodeHead ((t @ u) @ [c])"
    by (auto simp: sublist_snoc simp flip: append_assoc)
  with snoc.IH obtain k s' where "fd_inv base (t @ u) k s'" "\<And>inp. fd_loop s (u @ inp) = fd_loop s' inp" by blast
  moreover obtain k'' s'' where "fd_inv base ((t @ u) @ [c]) k'' s''" "\<And>inp. fd_loop s' (c # inp) = fd_loop s'' inp"
    using fd_text_step[OF calculation(1) \<open>0 \<notin> set (t @ u)\<close> \<open>c \<noteq> 0\<close>] \<open>\<not> sublist stcnEncodeHead ((t @ u) @ [c])\<close> by blast
  ultimately show ?case by auto
qed

lemma no_head_snoc: "\<not> sublist stcnEncodeHead t \<Longrightarrow> c \<noteq> 65 \<Longrightarrow> \<not> sublist stcnEncodeHead (t @ [c])"
  by (auto simp: sublist_snoc stcnEncodeHead_def suffix_def)

text \<open>After the first three bytes of the header three are matched, whatever the text before.\<close>

lemma fd_text_head:
  assumes t: "0 \<notin> set t" "\<not> sublist stcnEncodeHead t" and inv: "fd_inv base t k s"
  shows "\<exists>k s'. fd_inv base (t @ [68, 90, 89]) k s' \<and> iMatchCnt s' = 3 \<and> (\<forall>inp. fd_loop s (68 # 90 # 89 # inp) = fd_loop s' inp)"
proof -
  obtain k1 s1 where 1: "fd_inv base (t @ [68]) k1 s1" "iMatchCnt s1 = fd_match (iMatchCnt s) 68" "\<And>inp. fd_loop s (68 # inp) = fd_loop s1 inp"
    using fd_text_step[OF inv t(1), of 68] no_head_snoc[OF t(2), of 68] by auto
  obtain k2 s2 where 2: "fd_inv base ((t @ [68]) @ [90]) k2 s2" "iMatchCnt s2 = fd_match (iMatchCnt s1) 90" "\<And>inp. fd_loop s1 (90 # inp) = fd_loop s2 inp"
    using fd_text_step[OF 1(1), of 90] no_head_snoc[OF t(2), of 68] no_head_snoc[of "t @ [68]" 90] t(1) by auto
  obtain k3 s3 where 3: "fd_inv base (((t @ [68]) @ [90]) @ [89]) k3 s3" "iMatchCnt s3 = fd_match (iMatchCnt s2) 89" "\<And>inp. fd_loop s2 (89 # inp) = fd_loop s3 inp"
    using fd_text_step[OF 2(1), of 89] no_head_snoc[OF t(2), of 68] no_head_snoc[of "t @ [68]" 90] no_head_snoc[of "(t @ [68]) @ [90]" 89] t(1) by auto
  have "iMatchCnt s < 4" using inv by (simp add: fd_inv_def)
  then have "iMatchCnt s = 0 \<or> iMatchCnt s = 1 \<or> iMatchCnt s = 2 \<or> iMatchCnt s = 3" by linarith
  then have "iMatchCnt s1 = 1" using 1(2) by (auto simp: fd_match_def stcnEncodeHead_def)
  then have "iMatchCnt s3 = 3" using 2(2) 3(2) by (simp add: fd_match_def stcnEncodeHead_def)
  then show ?thesis using 1(3) 2(3) 3(1,3) by auto
qed

section \<open>Records\<close>

lemma fread_whole:
  "length v = pos \<Longrightarrow> length x = n \<Longrightarrow> n \<le> z \<Longrightarrow>
    fread_item (v @ replicate z 0) pos n (x @ inp) = Some ((v @ x) @ replicate (z - n) 0, inp, 0 < n)"
  by (auto simp: fread_item_def Let_def)

lemma header_number:
  assumes "l < 10 ^ 7"
  shows "atoi (map (char_of \<circ> unat) (drop 6 (header msk l) @ 0 # r)) = int l"
proof -
  have "length (print0 7 (int l)) = 7" using print0_nonneg(1)[of "int l" 7] assms by simp
  then have "drop 6 (header msk l) = map of_char (print0 7 (int l))" by (simp add: header_def stcnEncodeHead_def)
  moreover have "char_of (unat (of_char c :: byte)) = c" for c
  proof -
    have "of_char c = (of_nat (of_char c) :: byte)" by (simp add: of_nat_of_char)
    moreover have "of_char c < (2 ^ 8 :: nat)" by (simp add: nat_of_char_less_256)
    ultimately have "unat (of_char c :: byte) = of_char c" by (simp add: unsigned_of_nat take_bit_nat_eq_self)
    then show ?thesis by simp
  qed
  ultimately have "map (char_of \<circ> unat) (drop 6 (header msk l) @ 0 # r) = print0 7 (int l) @ NUL # map (char_of \<circ> unat) r"
    using char_of_char[of NUL, where 'a = nat] by (simp add: comp_def map_idI)
  then show ?thesis using ato_print0(1)[of "int l" 7] assms by simp
qed

lemma fd_record_decodes:
  assumes inv: "fd_inv base (t @ [68, 90, 89]) k s" "iMatchCnt s = 3" and t: "0 \<notin> set t"
    and dec: "\<And>dest rest. n \<le> length dest \<Longrightarrow> ldecodelog dest (record_bytes msk l body @ rest) (int l) = Some (n, take n src @ drop n dest)"
    and body: "length body + 14 = l" "l \<le> MAXLEN" and n: "0 < n" "n \<le> l" "n \<le> length src" "0 \<notin> set (take n src)"
  shows "fd_record (fd_read s 65) (drop 4 (record_bytes msk l body) @ inp)
    = Some (Goes_on ((fd_read s 65)\<lparr>caReadbuf := replicate (2 * MAXLEN) 0, iPos := 0, iMatchCnt := 0, written := base @ t @ take n src\<rparr>, inp))"
proof -
  define r where "r = fd_read s 65"
  note r = fd_read_inv(2-)[OF inv(1), of 65, folded r_def]
  have hd: "stcnEncodeHead = [68, 90, 89, 65]" by (simp add: stcnEncodeHead_def)
  have "suffix (take 3 stcnEncodeHead) (drop k (t @ [68, 90, 89]))" using inv by (simp add: fd_inv_def)
  then have k: "k \<le> length t" using suffix_length_le[of "take 3 stcnEncodeHead"] by (fastforce simp: hd)
  define v where "v = drop k t"
  define z where "z = 2 * MAXLEN - iPos r"
  have v: "iPos r = length v + 4" "written r @ v = base @ t" "caReadbuf r = (v @ stcnEncodeHead) @ replicate z 0" "0 \<notin> set v"
    using r(1-3) k t by (auto simp: v_def z_def hd dest: in_set_dropD)
  have z: "l - 4 < z" using r(4) body(2) by (simp add: z_def MAXLEN_def)
  have l7: "l < 10 ^ 7" using body(2) by (simp add: MAXLEN_def)
  have lh: "length (header msk l) = 13" using l7 by (rule header_length)
  have hh: "stcnEncodeHead @ drop 4 (header msk l) = header msk l" using header_parts(1)[of msk l] by (metis append_take_drop_id)
  have d4: "drop 4 (record_bytes msk l body) @ inp = drop 4 (header msk l) @ (body @ [ENC 0]) @ inp"
    using lh by (simp add: record_bytes_def)
  have z9: "replicate (z - 9) (0 :: byte) = 0 # replicate (z - 10) 0" using z body(1) by (cases "z - 9") (simp_all add: Suc_diff_Suc)
  have 1: "fread_item (caReadbuf r) (length v + 4) 9 (drop 4 (record_bytes msk l body) @ inp)
      = Some ((v @ header msk l) @ replicate (z - 9) 0, (body @ [ENC 0]) @ inp, True)"
    using fread_whole[of "v @ stcnEncodeHead" "length v + 4" "drop 4 (header msk l)" 9 z] lh z body(1) hh by (simp add: v(3) d4 hd)
  have 2: "atoi (map (char_of \<circ> unat) (drop (length v + 6) ((v @ header msk l) @ replicate (z - 9) 0))) = int l"
    using header_number[OF l7, of msk "replicate (z - 10) 0"] lh by (simp add: z9)
  have "(int l - 13) mod 2 ^ 64 = int l - 13" using l7 body(1) by simp
  then have 3: "fread_item ((v @ header msk l) @ replicate (z - 9) 0) (length v + 13) (nat ((int l - 13) mod 2 ^ 64)) ((body @ [ENC 0]) @ inp)
      = Some (v @ record_bytes msk l body @ replicate (z - 9 - (l - 13)) 0, inp, True)"
    using fread_whole[of "v @ header msk l" "length v + 13" "body @ [ENC 0]" "l - 13" "z - 9"] lh z body(1) by (simp add: record_bytes_def nat_diff_distrib')
  have 4: "ldecodelog (replicate (2 * MAXLEN) 0) (record_bytes msk l body @ x) (int l) = Some (n, take n src @ replicate (2 * MAXLEN - n) 0)" for x
    using dec[of "replicate (2 * MAXLEN) 0"] body(2) n(2) by simp
  have 5: "put_text (length v) (v @ x) = v" "put_text n (take n src @ x) = take n src" for x
    using v(4) n(3,4) by (simp_all add: put_text)
  show ?thesis
    unfolding r_def[symmetric] fd_record_def
    using 1 2 3 4 5 n(1) v(1,2) by simp
qed

section \<open>Log files\<close>

text \<open>The bytes that a program writes for one record, with \<^verbatim>\<open>lencodelog\<close>\<close>

definition log_record :: "int \<Rightarrow> byte list \<Rightarrow> nat \<Rightarrow> byte list" where
  "log_record now src n =
    (case lencodelog' now (replicate (15 + lines_size n) 0) src n of None \<Rightarrow> [] | Some (l, enc) \<Rightarrow> take l enc)"

definition plain_text :: "byte list \<Rightarrow> bool" where
  "plain_text t \<longleftrightarrow> 0 \<notin> set t \<and> \<not> sublist stcnEncodeHead t"

definition loggable :: "byte list \<Rightarrow> nat \<Rightarrow> bool" where
  "loggable src n \<longleftrightarrow> 0 < n \<and> 3 * groups n \<le> length src \<and> 14 + lines_size n \<le> MAXLEN \<and> 0 \<notin> set (take n src)"

lemma fd_log_record:
  assumes t: "plain_text t" and src: "loggable src n" and inv: "fd_inv base [] 0 s"
  shows "\<exists>s'. fd_inv (base @ t @ take n src) [] 0 s' \<and> (\<forall>inp. fd_loop s (t @ log_record now src n @ inp) = fd_loop s' inp)"
proof -
  define msk l where "msk = now AND 0xFFFF" and "l = 14 + lines_size n"
  have l: "l \<le> MAXLEN" "l < 10 ^ 7" and n: "3 * groups n \<le> length src" "0 < n" "0 \<notin> set (take n src)"
    using src by (simp_all add: loggable_def l_def MAXLEN_def)
  obtain body where body: "enc_lines msk src n = Some body" "length body = lines_size n"
      "\<And>dest rest. n \<le> length dest \<Longrightarrow> ldecodelog dest (record_bytes msk l body @ rest) (int l) = Some (n, take n src @ drop n dest)"
    using record_exists[OF n(1) l_def l(2)] by blast
  have lb: "length (record_bytes msk l body) = l" using header_length[OF l(2)] body(2) by (simp add: record_bytes_def l_def)
  have "lencodelog' now (replicate (15 + lines_size n) 0) src n = Some (l, record_bytes msk l body @ [0])"
    using body(1,2) l by (simp add: lencodelog'_def Let_def msk_def[symmetric] record_bytes_def header_def l_def)
  then have "log_record now src n = record_bytes msk l body" using lb by (simp add: log_record_def)
  moreover have "record_bytes msk l body = 68 # 90 # 89 # 65 # drop 4 (record_bytes msk l body)"
    by (simp add: record_bytes_def header_def stcnEncodeHead_def)
  ultimately have rec: "t @ log_record now src n @ inp = t @ 68 # 90 # 89 # 65 # drop 4 (record_bytes msk l body) @ inp" for inp by (metis append_Cons)
  obtain k1 s1 where 1: "fd_inv base t k1 s1" "\<And>inp. fd_loop s (t @ inp) = fd_loop s1 inp"
    using fd_text[OF inv, of t] t by (auto simp: plain_text_def)
  obtain k2 s2 where 2: "fd_inv base (t @ [68, 90, 89]) k2 s2" "iMatchCnt s2 = 3" "\<And>inp. fd_loop s1 (68 # 90 # 89 # inp) = fd_loop s2 inp"
    using fd_text_head[OF _ _ 1(1)] t by (auto simp: plain_text_def)
  have m: "n \<le> l" "n \<le> length src" "length body + 14 = l" using n(1) body(2) by (simp_all add: l_def lines_size_def groups_def)
  have "fd_match 3 65 = 4" by (simp add: fd_match_def stcnEncodeHead_def)
  then have "iMatchCnt (fd_read s2 65) = 4" using 2(2) by (simp add: fd_read_def)
  then have "fd_loop s2 (65 # drop 4 (record_bytes msk l body) @ inp) = fd_loop ((fd_read s2 65)\<lparr>caReadbuf := replicate (2 * MAXLEN) 0,
      iPos := 0, iMatchCnt := 0, written := base @ t @ take n src\<rparr>) inp" for inp
    using fd_record_decodes[OF 2(1,2) _ body(3) m(3) l(1) n(2) m(1,2) n(3)] t fd_read_inv(1)[OF 2(1)]
    by (simp add: fd_loop.simps(2) Let_def plain_text_def)
  then show ?thesis using 1(2) 2(3) fd_inv_reset by (metis rec)
qed

text \<open>
  A log file of text and records is decoded to the text and the contents of the records, in order, with one defect:
  the position has been advanced when the end of the file is seen, so that a blank is written in front of
  the bytes that are still in the buffer (C19).
\<close>

theorem log_file_decoded:
  assumes "\<forall>(t, now, src, n) \<in> set parts. plain_text t \<and> loggable src n" and "plain_text end_text"
  shows "\<exists>k \<le> length end_text. (length end_text < MAXLEN - 1 \<longrightarrow> k = 0)
    \<and> ldecodefd2fd (concat (map (\<lambda>(t, now, src, n). t @ log_record now src n) parts) @ end_text)
      = Some (0, concat (map (\<lambda>(t, now, src, n). t @ take n src) parts) @ take k end_text @ 32 # drop k end_text)"
proof -
  have "fd_inv base [] 0 s \<Longrightarrow> \<exists>k \<le> length end_text. (length end_text < MAXLEN - 1 \<longrightarrow> k = 0)
    \<and> fd_loop s (concat (map (\<lambda>(t, now, src, n). t @ log_record now src n) parts) @ end_text)
      = Some (0, base @ concat (map (\<lambda>(t, now, src, n). t @ take n src) parts) @ take k end_text @ 32 # drop k end_text)" for s base
    using assms(1)
  proof (induction parts arbitrary: s base)
    case Nil
    then obtain k s' where s': "fd_inv base end_text k s'" "\<And>inp. fd_loop s (end_text @ inp) = fd_loop s' inp"
      using fd_text[of base "[]" 0 s end_text] assms(2) by (auto simp: plain_text_def)
    then have p: "k + iPos s' = length end_text" "iPos s' < 2 * MAXLEN" "k \<le> length end_text" "iPos s' = length (drop k end_text)"
      by (auto simp: fd_inv_def MAXLEN_def)
    then have "replicate (2 * MAXLEN - iPos s') (0 :: byte) = 0 # replicate (2 * MAXLEN - iPos s' - 1) 0"
      by (cases "2 * MAXLEN - iPos s'") simp_all
    then have "put_text (iPos s' + 1) (caReadbuf s') = 32 # drop k end_text"
      using s'(1) put_text_padded[of "drop k end_text" "iPos s'"] p(4) assms(2)
      by (auto simp: fd_inv_def plain_text_def dest: in_set_dropD)
    then show ?case using s' s'(2)[of "[]"] p(3) by (intro exI[of _ k]) (auto simp: fd_loop.simps(1) fd_inv_def)
  next
    case (Cons part parts)
    obtain t now src n where part: "part = (t, now, src, n)" by (cases part)
    obtain s' where s': "fd_inv (base @ t @ take n src) [] 0 s'" "\<And>inp. fd_loop s (t @ log_record now src n @ inp) = fd_loop s' inp"
      using fd_log_record[of t src n base s now] Cons.prems by (auto simp: part)
    show ?case using Cons.IH[OF s'(1)] Cons.prems(2) s'(2) by (simp add: part)
  qed
  moreover have "fd_inv [] [] 0 fd_init" by (simp add: fd_inv_def fd_init_def MAXLEN_def)
  ultimately show ?thesis unfolding ldecodefd2fd_def by fastforce
qed

theorem log_file_decoded_witness:
  "ldecodefd2fd ([68, 90] @ log_record 1234567 [72, 105, 33, 10, 0, 9] 4 @ [98, 121, 101])
    = Some (0, [68, 90] @ [72, 105, 33, 10] @ [32, 98, 121, 101])"
  using log_file_decoded[of "[([68, 90], 1234567, [72, 105, 33, 10, 0, 9], 4)]" "[98, 121, 101]"]
  by (simp add: plain_text_def loggable_def groups_def lines_size_def MAXLEN_def sublist_Cons_right stcnEncodeHead_def)

end
