(* ===== verification/Im_Serialize.thy ===== *)
theory Im_Serialize
  imports Im_Vector
begin

text \<open>
  Serialisation of tables and vectors (\<^verbatim>\<open>im_hashtable.c\<close>, \<^verbatim>\<open>im_vector.c\<close>): all strings, blocks and nested
  objects are moved into the attached area behind the buckets, so that the object is one block of memory.

  The functions \<^verbatim>\<open>serialize_bucket\<close> and \<^verbatim>\<open>attach_bucket\<close> have the same text in both files, up to a condition; they are
  modelled once, over \<open>slot\<close> and \<open>area\<close>, which read a bucket and the attached area of either kind of object.
  The attached area is rebuilt from its start: the old pieces are read from the copy on the stack only.
\<close>

section \<open>Both kinds of objects\<close>

fun is_hash :: "obj \<Rightarrow> bool" where
  "is_hash (HashObj _ _) = True"
| "is_hash _ = False"

fun is_vector :: "obj \<Rightarrow> bool" where
  "is_vector (VecObj _ _) = True"
| "is_vector _ = False"

text \<open>The length and value of a bucket\<close>

fun slot :: "obj \<Rightarrow> nat \<Rightarrow> (nat \<times> im_value) option" where
  "slot (HashObj t att) i =
     (if i < length (buckets t) then Some (value_length (buckets t ! i), bucket_value (buckets t ! i)) else None)"
| "slot (VecObj v att) i =
     (if i < length (v_buckets v) then Some (v_value_length (v_buckets v ! i), v_bucket_value (v_buckets v ! i)) else None)"
| "slot (Raw b) i = None"

fun put_slot :: "nat \<Rightarrow> nat \<Rightarrow> im_value \<Rightarrow> obj \<Rightarrow> obj" where
  "put_slot i len x (HashObj t att) =
     HashObj (t\<lparr>buckets := (buckets t)[i := (buckets t ! i)\<lparr>value_length := len, bucket_value := x\<rparr>]\<rparr>) att"
| "put_slot i len x (VecObj v att) =
     VecObj (v\<lparr>v_buckets := (v_buckets v)[i := (v_buckets v ! i)\<lparr>v_value_length := len, v_bucket_value := x\<rparr>]\<rparr>) att"
| "put_slot i len x (Raw b) = Raw b"

lemma put_slot_same [simp]: "slot x i = Some (len, v) \<Longrightarrow> put_slot i len v x = x"
  by (cases x) (auto split: if_splits)

text \<open>Size, offset and contents of the attached area\<close>

fun area :: "obj \<Rightarrow> nat \<times> nat \<times> tail" where
  "area (HashObj t att) = (attached_size t, attached_offset t, att)"
| "area (VecObj v att) = (v_attached_size v, v_attached_offset v, att)"
| "area (Raw b) = (0, 0, [])"

fun put_area :: "nat \<times> nat \<times> tail \<Rightarrow> obj \<Rightarrow> obj" where
  "put_area (sz, off, att) (HashObj t _) = HashObj (t\<lparr>attached_size := sz, attached_offset := off\<rparr>) att"
| "put_area (sz, off, att) (VecObj v _) = VecObj (v\<lparr>v_attached_size := sz, v_attached_offset := off\<rparr>) att"
| "put_area _ (Raw b) = Raw b"

text \<open>The size of the buckets with the header, the number of buckets the loop visits, the size of the whole block\<close>

fun base_size :: "obj \<Rightarrow> nat" where
  "base_size (HashObj t _) = hash_size (number_of_buckets t)"
| "base_size (VecObj v _) = vector_size (v_number_of_buckets v)"
| "base_size (Raw b) = length b"

fun visited :: "obj \<Rightarrow> nat" where
  "visited (HashObj t _) = number_of_buckets t"
| "visited (VecObj v _) = v_inuse v"
| "visited (Raw b) = 0"

definition obj_size :: "obj \<Rightarrow> nat" where
  "obj_size x = base_size x + fst (area x)"

text \<open>The part of the attached area that is in use\<close>

definition live_area :: "obj \<Rightarrow> tail" where
  "live_area x = (case area x of (_, off, att) \<Rightarrow> filter (\<lambda>(o', _). o' < off) att)"

section \<open>Attaching\<close>

definition im_align_offset :: "nat \<Rightarrow> nat" where
  "im_align_offset A = (8 - A mod 8) mod 8"

text \<open>The loop that finds the new size of the area, for an area that must reach to \<open>need\<close>\<close>

function grow_area :: "nat \<Rightarrow> nat \<Rightarrow> nat" where
  "grow_area need sz = (if sz < need then grow_area need (sz + 8192) else sz)"
  by pat_completeness auto
termination by (relation "measure (\<lambda>(need, sz). need - sz)") auto

declare grow_area.simps [simp del]

fun inline_value :: "im_value \<Rightarrow> bool" where
  "inline_value (IM_EXTERNAL_STRING _ _) = False"
| "inline_value (IM_EXTERNAL_BLOCK _ _) = False"
| "inline_value (IM_EXTERNAL_NESTED _ _) = False"
| "inline_value (IM_EXTERNAL_VECTOR _ _) = False"
| "inline_value (IM_ATTACHED_STRING _ _) = False"
| "inline_value (IM_ATTACHED_BLOCK _ _) = False"
| "inline_value (IM_ATTACHED_NESTED _ _) = False"
| "inline_value (IM_ATTACHED_VECTOR _ _) = False"
| "inline_value _ = True"

fun external_object :: "im_value \<Rightarrow> bool" where
  "external_object (IM_EXTERNAL_NESTED _ _) = True"
| "external_object (IM_EXTERNAL_VECTOR _ _) = True"
| "external_object _ = False"

text \<open>The copy of \<open>len\<close> bytes into the bucket, if they fit, or to the offset \<open>off\<close>\<close>

definition attach_bytes :: "(char list \<Rightarrow> im_value) \<Rightarrow> (nat \<Rightarrow> nat \<Rightarrow> im_value) \<Rightarrow> nat \<Rightarrow> nat \<Rightarrow> tail \<Rightarrow> char list \<Rightarrow> (im_value \<times> nat \<times> tail) option" where
  "attach_bytes small large len off att b =
     (if length b < len then None
      else if len \<le> sizeof_value then Some (small (take len b), off, att)
      else Some (large len off, off + len, (off, Raw (take len b)) # att))"

definition attach_object :: "(nat \<Rightarrow> nat \<Rightarrow> im_value) \<Rightarrow> nat \<Rightarrow> nat \<Rightarrow> tail \<Rightarrow> obj \<Rightarrow> (im_value \<times> nat \<times> tail) option" where
  "attach_object large len off att x =
     (if obj_size x \<noteq> len then None else Some (large len off, off + len, (off, x) # att))"

definition piece_bytes :: "tail \<Rightarrow> nat \<Rightarrow> char list option" where
  "piece_bytes buf off = (case map_of buf off of Some (Raw b) \<Rightarrow> Some b | _ \<Rightarrow> None)"

text \<open>The \<^verbatim>\<open>switch\<close> of \<^verbatim>\<open>attach_bucket\<close>\<close>

definition attach_value :: "nat \<Rightarrow> tail \<Rightarrow> nat \<Rightarrow> im_value \<Rightarrow> nat \<Rightarrow> tail \<Rightarrow> heap \<Rightarrow> (im_value \<times> nat \<times> tail \<times> heap) option" where
  "attach_value n buf len v off att h =
     (case v of
        IM_EXTERNAL_STRING _ q \<Rightarrow> do {
          b \<leftarrow> load_bytes h q; (v, off, att) \<leftarrow> attach_bytes IM_STRING IM_ATTACHED_STRING len off att b;
          h \<leftarrow> free q h; Some (v, off, att, h) }
      | IM_EXTERNAL_BLOCK _ q \<Rightarrow> do {
          b \<leftarrow> load_bytes h q; (v, off, att) \<leftarrow> attach_bytes IM_BLOCK IM_ATTACHED_BLOCK len off att b;
          h \<leftarrow> free q h; Some (v, off, att, h) }
      | IM_EXTERNAL_NESTED _ q \<Rightarrow> do {
          x \<leftarrow> load h q; (v, off, att) \<leftarrow> attach_object IM_ATTACHED_NESTED len off att x;
          h \<leftarrow> im_destroy_hashtable n q h; Some (v, off, att, h) }
      | IM_EXTERNAL_VECTOR _ q \<Rightarrow> do {
          x \<leftarrow> load h q; (v, off, att) \<leftarrow> attach_object IM_ATTACHED_VECTOR len off att x;
          h \<leftarrow> im_destroy_vector n q h; Some (v, off, att, h) }
      | IM_ATTACHED_STRING _ pos \<Rightarrow> do {
          b \<leftarrow> piece_bytes buf pos; (v, off, att) \<leftarrow> attach_bytes IM_STRING IM_ATTACHED_STRING len off att b;
          Some (v, off, att, h) }
      | IM_ATTACHED_BLOCK _ pos \<Rightarrow> do {
          b \<leftarrow> piece_bytes buf pos; (v, off, att) \<leftarrow> attach_bytes IM_BLOCK IM_ATTACHED_BLOCK len off att b;
          Some (v, off, att, h) }
      | _ \<Rightarrow> Some (v, off, att, h))"

text \<open>
  \<^verbatim>\<open>attach_bucket\<close>; \<open>attach_at\<close> is what follows the alignment of the offset. The block is enlarged when the new size is
  greater than the old one; in \<^verbatim>\<open>im_vector.c\<close> it is compared with the offset instead, which enlarges it too
  when there is room.
\<close>

definition attach_at :: "nat \<Rightarrow> ptr \<Rightarrow> nat \<Rightarrow> tail \<Rightarrow> obj \<Rightarrow> nat \<Rightarrow> im_value \<Rightarrow> nat \<Rightarrow> nat \<Rightarrow> tail \<Rightarrow> heap \<Rightarrow> (int \<times> ptr \<times> heap) option" where
  "attach_at n p i buf x len v sz off att h =
     do { h \<leftarrow> store p (put_area (sz, off, att) x) h;
          let sz' = grow_area (off + len) sz;
          let larger = (if is_hash x then sz else off) < sz';
          (r, h) \<leftarrow> (if larger then realloc p h else Some (Some p, h));
          (case r of
             None \<Rightarrow> Some (-1, p, h)
           | Some p \<Rightarrow> do {
               (v, off, att, h) \<leftarrow> attach_value n buf len v off att h;
               h \<leftarrow> store p (put_slot i len v (put_area (if larger then sz' else sz, off, att) x)) h;
               Some (0, p, h) }) }"

definition attach_bucket :: "nat \<Rightarrow> ptr \<Rightarrow> nat \<Rightarrow> tail \<Rightarrow> heap \<Rightarrow> (int \<times> ptr \<times> heap) option" where
  "attach_bucket n p i buf h =
     do { x \<leftarrow> load h p;
          (len, v) \<leftarrow> slot x i;
          if inline_value v then Some (0, p, h)
          else (case area x of (sz, off, att) \<Rightarrow>
            attach_at n p i buf x len v sz (off + (if external_object v then im_align_offset off else 0)) att h) }"

section \<open>Serialising\<close>

text \<open>
  \<^verbatim>\<open>serialize_bucket\<close> on the length and value of the bucket, and the two functions that call it. The result of the
  latter is an \<^verbatim>\<open>int\<close>, the size of the block. The buffer \<open>buf\<close> is the copy of the attached area.
\<close>

function (sequential) serialize_bucket :: "nat \<Rightarrow> tail \<Rightarrow> nat \<Rightarrow> im_value \<Rightarrow> heap \<Rightarrow> (int \<times> nat \<times> im_value \<times> heap) option"
  and serialize_step :: "nat \<Rightarrow> tail \<Rightarrow> nat \<Rightarrow> ptr \<Rightarrow> heap \<Rightarrow> (int \<times> ptr \<times> heap) option"
  and im_serialize :: "nat \<Rightarrow> ptr \<Rightarrow> heap \<Rightarrow> (int \<times> ptr \<times> heap) option"
where
  "serialize_bucket 0 buf len v h = None"
| "serialize_bucket (Suc n) buf len v h =
     (case (case v of
          IM_ATTACHED_NESTED _ off \<Rightarrow>
            (case map_of buf off of None \<Rightarrow> None | Some x \<Rightarrow>
             if obj_size x \<noteq> len \<or> \<not> is_hash x then None
             else case alloc x h of (None, h) \<Rightarrow> Some (-1, v, h) | (Some q, h) \<Rightarrow> Some (0, IM_EXTERNAL_NESTED len q, h))
        | IM_ATTACHED_VECTOR _ off \<Rightarrow>
            (case map_of buf off of None \<Rightarrow> None | Some x \<Rightarrow>
             if obj_size x \<noteq> len \<or> \<not> is_vector x then None
             else case alloc x h of (None, h) \<Rightarrow> Some (-1, v, h) | (Some q, h) \<Rightarrow> Some (0, IM_EXTERNAL_VECTOR len q, h))
        | _ \<Rightarrow> Some (0, v, h)) of
        None \<Rightarrow> None
      | Some (r, v, h) \<Rightarrow>
          if (r :: int) < 0 then Some (-1, len, v, h)
          else (case v of
              IM_EXTERNAL_NESTED sz q \<Rightarrow>
                (case load_hash h q of None \<Rightarrow> None | Some _ \<Rightarrow>
                 case im_serialize n q h of None \<Rightarrow> None | Some (r, q, h) \<Rightarrow>
                 if r < 0 then Some (-1, len, IM_EXTERNAL_NESTED sz q, h) else Some (0, nat r, IM_EXTERNAL_NESTED sz q, h))
            | IM_EXTERNAL_VECTOR sz q \<Rightarrow>
                (case load_vector h q of None \<Rightarrow> None | Some _ \<Rightarrow>
                 case im_serialize n q h of None \<Rightarrow> None | Some (r, q, h) \<Rightarrow>
                 if r < 0 then Some (-1, len, IM_EXTERNAL_VECTOR sz q, h) else Some (0, nat r, IM_EXTERNAL_VECTOR sz q, h))
            | _ \<Rightarrow> Some (0, len, v, h)))"
| "serialize_step n buf i p h =
     (case load h p of None \<Rightarrow> None | Some x \<Rightarrow>
      case slot x i of None \<Rightarrow> None | Some (len, v) \<Rightarrow>
      case serialize_bucket n buf len v h of None \<Rightarrow> None | Some (r, len, v, h) \<Rightarrow>
      case store p (put_slot i len v x) h of None \<Rightarrow> None | Some h \<Rightarrow>
      if r < 0 then Some (-1, p, h) else attach_bucket n p i buf h)"
| "im_serialize n p h =
     (case load h p of None \<Rightarrow> None | Some x \<Rightarrow>
      case store p (put_area (fst (area x), 0, []) x) h of None \<Rightarrow> None | Some h \<Rightarrow>
      case foldM (\<lambda>i (r, p, h). if r < 0 then Some (r, p, h) else serialize_step n (live_area x) i p h)
          [0..<visited x] (0, p, h) of
        None \<Rightarrow> None
      | Some (r, p, h) \<Rightarrow>
          if r < 0 then Some (-1, p, h)
          else (case realloc p h of None \<Rightarrow> None
            | Some (None, h) \<Rightarrow> Some (-1, p, h)
            | Some (Some p, h) \<Rightarrow>
                (case load h p of None \<Rightarrow> None | Some x \<Rightarrow>
                 case area x of (sz, off, att) \<Rightarrow>
                 case store p (put_area (off, off, att) x) h of None \<Rightarrow> None | Some h \<Rightarrow>
                 Some (int32 (int (base_size x + off)), p, h))))"
  by pat_completeness auto
termination
  by (relation "measure (\<lambda>x. case x of Inl (n, _) \<Rightarrow> 3 * n | Inr (Inl (n, _)) \<Rightarrow> 3 * n + 1 | Inr (Inr (n, _)) \<Rightarrow> 3 * n + 2)") auto

declare serialize_bucket.simps [simp del] serialize_step.simps [simp del] im_serialize.simps [simp del]

definition im_serialize_hashtable :: "nat \<Rightarrow> ptr \<Rightarrow> heap \<Rightarrow> (int \<times> ptr \<times> heap) option" where
  "im_serialize_hashtable n p h = do { (t, att) \<leftarrow> load_hash h p; im_serialize n p h }"

definition im_serialize_vector :: "nat \<Rightarrow> ptr \<Rightarrow> heap \<Rightarrow> (int \<times> ptr \<times> heap) option" where
  "im_serialize_vector n p h = do { (v, att) \<leftarrow> load_vector h p; im_serialize n p h }"

end
