(* ===== verification/Im_Serialize_Correct.thy ===== *)
theory Im_Serialize_Correct
  imports Im_Serialize
begin

text \<open>
  Serialisation keeps the contents. The contents of an object are a tree: strings, blocks and nested objects are
  the same whether they are in a bucket, in a block of their own or in the attached area. Reading the tree
  also gives the blocks the object owns; after serialisation there are none left.
\<close>

section \<open>Contents\<close>

datatype content =
    Scalar im_value
  | Bytes bool "char list"
  | Node obj "content list"

definition blank_bucket :: "im_hash_bucket \<Rightarrow> im_hash_bucket" where
  "blank_bucket b = b\<lparr>value_length := 0, bucket_value := IM_EMPTY\<rparr>"

text \<open>The object without its values and its attached area: counters and keys\<close>

fun shell :: "obj \<Rightarrow> obj" where
  "shell (HashObj t _) = HashObj (t\<lparr>attached_size := 0, attached_offset := 0, buckets := map blank_bucket (buckets t)\<rparr>) []"
| "shell (VecObj v _) = VecObj (v\<lparr>v_attached_size := 0, v_attached_offset := 0, v_buckets := []\<rparr>) []"
| "shell (Raw b) = Raw b"

definition bytes_content :: "bool \<Rightarrow> nat \<Rightarrow> char list \<Rightarrow> content option" where
  "bytes_content s len b = (if length b < len then None else Some (Bytes s (take len b)))"

definition block_content :: "bool \<Rightarrow> nat \<Rightarrow> heap \<Rightarrow> ptr \<Rightarrow> (content \<times> addr list) option" where
  "block_content s len h q = (case q of
      Ptr a [] \<Rightarrow> (case cells h a of Some (Raw b) \<Rightarrow> map_option (\<lambda>c. (c, [a])) (bytes_content s len b) | _ \<Rightarrow> None)
    | _ \<Rightarrow> None)"

definition piece_content :: "bool \<Rightarrow> nat \<Rightarrow> tail \<Rightarrow> nat \<Rightarrow> (content \<times> addr list) option" where
  "piece_content s len att off = (case map_of att off of Some (Raw b) \<Rightarrow> map_option (\<lambda>c. (c, [])) (bytes_content s len b) | _ \<Rightarrow> None)"

fun combine :: "(content \<times> addr list) option list \<Rightarrow> (content list \<times> addr list) option" where
  "combine [] = Some ([], [])"
| "combine (None # xs) = None"
| "combine (Some (c, as) # xs) = (case combine xs of None \<Rightarrow> None | Some (cs, bs) \<Rightarrow> Some (c # cs, as @ bs))"

fun own_block :: "heap \<Rightarrow> ptr \<Rightarrow> (addr \<times> obj) option" where
  "own_block h (Ptr a []) = map_option (\<lambda>x. (a, x)) (cells h a)"
| "own_block h _ = None"

function (sequential) value_content :: "nat \<Rightarrow> heap \<Rightarrow> tail \<Rightarrow> nat \<Rightarrow> im_value \<Rightarrow> (content \<times> addr list) option"
  and obj_content :: "nat \<Rightarrow> heap \<Rightarrow> obj \<Rightarrow> (content \<times> addr list) option"
where
  "value_content 0 h att len v = None"
| "value_content (Suc n) h att len v =
     (case v of
        IM_STRING b \<Rightarrow> if len \<le> sizeof_value then map_option (\<lambda>c. (c, [])) (bytes_content True len b) else None
      | IM_BLOCK b \<Rightarrow> if len \<le> sizeof_value then map_option (\<lambda>c. (c, [])) (bytes_content False len b) else None
      | IM_EXTERNAL_STRING _ q \<Rightarrow> block_content True len h q
      | IM_EXTERNAL_BLOCK _ q \<Rightarrow> block_content False len h q
      | IM_EXTERNAL_NESTED _ q \<Rightarrow> (case own_block h q of
            Some (a, x) \<Rightarrow> if is_hash x then map_option (\<lambda>(c, as). (c, as @ [a])) (obj_content n h x) else None
          | None \<Rightarrow> None)
      | IM_EXTERNAL_VECTOR _ q \<Rightarrow> (case own_block h q of
            Some (a, x) \<Rightarrow> if is_vector x then map_option (\<lambda>(c, as). (c, as @ [a])) (obj_content n h x) else None
          | None \<Rightarrow> None)
      | IM_ATTACHED_STRING _ off \<Rightarrow> piece_content True len att off
      | IM_ATTACHED_BLOCK _ off \<Rightarrow> piece_content False len att off
      | IM_ATTACHED_NESTED _ off \<Rightarrow> (case map_of att off of
            Some x \<Rightarrow> if is_hash x \<and> obj_size x = len then obj_content n h x else None
          | None \<Rightarrow> None)
      | IM_ATTACHED_VECTOR _ off \<Rightarrow> (case map_of att off of
            Some x \<Rightarrow> if is_vector x \<and> obj_size x = len then obj_content n h x else None
          | None \<Rightarrow> None)
      | _ \<Rightarrow> Some (Scalar v, []))"
| "obj_content n h x =
     map_option (\<lambda>(cs, as). (Node (shell x) cs, as))
       (combine (map (\<lambda>i. case slot x i of None \<Rightarrow> None | Some (len, v) \<Rightarrow> value_content n h (live_area x) len v) [0..<visited x]))"
  by pat_completeness auto
termination by (relation "measure (\<lambda>x. case x of Inl (n, _) \<Rightarrow> 2 * n | Inr (n, _) \<Rightarrow> 2 * n + 1)") auto

declare value_content.simps [simp del] obj_content.simps [simp del]

text \<open>The size of the serialised contents, behind the offset \<open>off\<close> of the area\<close>

fun place :: "content \<Rightarrow> nat \<Rightarrow> nat" where
  "place (Scalar v) off = off"
| "place (Bytes s b) off = (if length b \<le> sizeof_value then off else off + length b)"
| "place (Node x cs) off = off + im_align_offset off + base_size x + fold place cs 0"

definition serialized_size :: "content \<Rightarrow> nat" where
  "serialized_size c = place c 0"

section \<open>Facts on contents\<close>

lemma combine_Some:
  "combine xs = Some (cs, as) \<longleftrightarrow> (\<exists>ys. xs = map Some ys \<and> cs = map fst ys \<and> as = concat (map snd ys))"
proof (induction xs arbitrary: cs as rule: combine.induct)
  case (3 c as xs)
  then show ?case by (fastforce split: option.splits simp: Cons_eq_map_conv)
qed auto

lemma obj_content_iff:
  "obj_content n h x = Some (c, as) \<longleftrightarrow> (\<exists>cs. length cs = visited x \<and> c = Node (shell x) (map fst cs) \<and> as = concat (map snd cs)
    \<and> (\<forall>i < visited x. \<exists>len v. slot x i = Some (len, v) \<and> value_content n h (live_area x) len v = Some (cs ! i)))"
  (is "?l \<longleftrightarrow> (\<exists>cs. ?r cs)")
proof
  assume ?l
  then obtain ys where ys: "map (\<lambda>i. case slot x i of None \<Rightarrow> None | Some (len, v) \<Rightarrow> value_content n h (live_area x) len v) [0..<visited x] = map Some ys"
      "c = Node (shell x) (map fst ys)" "as = concat (map snd ys)"
    by (auto simp: obj_content.simps combine_Some)
  then have "length ys = visited x" by (metis length_map length_upt minus_nat.diff_0)
  moreover have "\<exists>len v. slot x i = Some (len, v) \<and> value_content n h (live_area x) len v = Some (ys ! i)" if "i < visited x" for i
    using arg_cong[OF ys(1), of "\<lambda>l. l ! i"] that calculation by (auto split: option.splits)
  ultimately show "\<exists>cs. ?r cs" using ys(2,3) by blast
next
  assume "\<exists>cs. ?r cs"
  then obtain cs where cs: "?r cs" ..
  then have "map (\<lambda>i. case slot x i of None \<Rightarrow> None | Some (len, v) \<Rightarrow> value_content n h (live_area x) len v) [0..<visited x] = map Some cs"
    by (intro nth_equalityI) auto
  with cs show ?l by (auto simp: obj_content.simps combine_Some)
qed

lemma own_block_iff: "own_block h q = Some (a, x) \<longleftrightarrow> q = Ptr a [] \<and> cells h a = Some x"
  by (cases "(h, q)" rule: own_block.cases) auto

lemma block_content_iff:
  "block_content s len h q = Some (c, as) \<longleftrightarrow>
    (\<exists>a b. q = Ptr a [] \<and> cells h a = Some (Raw b) \<and> as = [a] \<and> len \<le> length b \<and> c = Bytes s (take len b))"
  by (cases "(h, q)" rule: own_block.cases) (auto simp: block_content_def bytes_content_def split: option.splits obj.splits)

lemma piece_content_iff:
  "piece_content s len att off = Some (c, as) \<longleftrightarrow>
    (\<exists>b. map_of att off = Some (Raw b) \<and> as = [] \<and> len \<le> length b \<and> c = Bytes s (take len b))"
  by (auto simp: piece_content_def bytes_content_def split: option.splits obj.splits)

text \<open>Contents depend on the blocks they name only.\<close>

lemma content_same:
  shows "value_content n h att len v = Some (c, as) \<Longrightarrow> same_on (set as) h h' \<Longrightarrow> value_content n h' att len v = Some (c, as)"
    and "obj_content n h x = Some (c, as) \<Longrightarrow> same_on (set as) h h' \<Longrightarrow> obj_content n h' x = Some (c, as)"
proof (induction n h att len v and n h x arbitrary: c as and c as rule: value_content_obj_content.induct)
  case (2 n h att len v)
  then show ?case
    by (cases v) (auto simp: value_content.simps block_content_iff own_block_iff split: option.splits if_splits)
next
  case (3 n h x)
  then obtain cs where cs: "length cs = visited x" "c = Node (shell x) (map fst cs)" "as = concat (map snd cs)"
      "\<And>i. i < visited x \<Longrightarrow> \<exists>len v. slot x i = Some (len, v) \<and> value_content n h (live_area x) len v = Some (cs ! i)"
    by (auto simp: obj_content_iff)
  have "\<exists>len v. slot x i = Some (len, v) \<and> value_content n h' (live_area x) len v = Some (cs ! i)" if i: "i < visited x" for i
  proof -
    obtain len v where v: "slot x i = Some (len, v)" "value_content n h (live_area x) len v = Some (cs ! i)" using cs(4)[OF i] by blast
    have "set (snd (cs ! i)) \<subseteq> set as" using i cs(1,3) by (auto intro!: bexI[of _ "cs ! i"])
    then have "same_on (set (snd (cs ! i))) h h'" using 3(3) by (auto simp: same_on_def)
    then show ?thesis using 3(1)[of i "(len, v)" len v "fst (cs ! i)" "snd (cs ! i)"] v i by auto
  qed
  with cs show ?case by (auto simp: obj_content_iff)
qed (simp add: value_content.simps)

lemma content_dom:
  shows "value_content n h att len v = Some (c, as) \<Longrightarrow> set as \<subseteq> dom (cells h)"
    and "obj_content n h x = Some (c, as) \<Longrightarrow> set as \<subseteq> dom (cells h)"
proof (induction n h att len v and n h x arbitrary: c as and c as rule: value_content_obj_content.induct)
  case (2 n h att len v)
  then show ?case
    by (cases v) (auto simp: value_content.simps block_content_iff own_block_iff piece_content_iff subset_iff dom_def split: option.splits if_splits)
next
  case (3 n h x)
  then obtain cs where cs: "length cs = visited x" "as = concat (map snd cs)"
      "\<And>i. i < visited x \<Longrightarrow> \<exists>len v. slot x i = Some (len, v) \<and> value_content n h (live_area x) len v = Some (cs ! i)"
    by (auto simp: obj_content_iff)
  have "set (snd (cs ! i)) \<subseteq> dom (cells h)" if i: "i < visited x" for i
  proof -
    obtain len v where v: "slot x i = Some (len, v)" "value_content n h (live_area x) len v = Some (cs ! i)" using cs(3)[OF i] by blast
    show ?thesis by (rule 3(1)[of i "(len, v)" len v "fst (cs ! i)"]) (use v i in auto)
  qed
  with cs(1,2) show ?case by (fastforce simp: in_set_conv_nth)
qed (simp add: value_content.simps)

section \<open>Serialised objects\<close>

lemma map_of_live: "map_of (live_area x) off = Some y \<Longrightarrow> map_of (snd (snd (area x))) off = Some y"
proof -
  have *: "map_of (filter (\<lambda>(o', _). o' < b) att) off = (if off < b then map_of att off else None)" for att :: tail and b
    by (induction att) auto
  obtain sz b att where a: "area x = (sz, b, att)" by (cases "area x")
  assume "map_of (live_area x) off = Some y"
  with * show ?thesis by (simp add: live_area_def a split: if_splits)
qed

lemma load_inside: "load h p = Some x \<Longrightarrow> map_of (live_area x) off = Some y \<Longrightarrow> load h (inside p off) = Some y"
proof -
  have "sub_obj z offs = Some x \<Longrightarrow> sub_obj z (offs @ [off]) = (case x of Raw _ \<Rightarrow> None | _ \<Rightarrow> map_of (snd (snd (area x))) off)" for z offs
    by (induction z offs rule: sub_obj.induct) (auto simp: bind_eq_Some_conv split: obj.splits Option.bind_splits)
  moreover assume "load h p = Some x" "map_of (live_area x) off = Some y"
  ultimately show ?thesis using map_of_live[of x off y]
    by (cases p) (auto simp: bind_eq_Some_conv live_area_def split: obj.splits)
qed

text \<open>An object that owns no block has an empty footprint, so that destroying it frees its own block only.\<close>

lemma content_fp:
  shows "value_content n h att len v = Some (c, []) \<Longrightarrow> load h p = Some x \<Longrightarrow> att = live_area x \<Longrightarrow> value_fp n h p v = Some []"
    and "obj_content n h x = Some (c, []) \<Longrightarrow> load h p = Some x \<Longrightarrow>
      (is_hash x \<longrightarrow> hash_fp n h p = Some []) \<and> (is_vector x \<longrightarrow> vector_fp n h p = Some [])"
proof (induction n h att len v and n h x arbitrary: c p x and c p rule: value_content_obj_content.induct)
  case (2 n h att len v)
  then show ?case
    by (cases v) (auto simp: value_content.simps value_fp.simps block_content_iff own_block_iff dest: load_inside split: option.splits if_splits)
next
  case (3 n h x)
  then obtain cs where cs: "length cs = visited x" "concat (map snd cs) = []"
      "\<And>i. i < visited x \<Longrightarrow> \<exists>len v. slot x i = Some (len, v) \<and> value_content n h (live_area x) len v = Some (cs ! i)"
    by (auto simp: obj_content_iff)
  have fp: "\<exists>len v. slot x i = Some (len, v) \<and> value_fp n h p v = Some []" if i: "i < visited x" for i
  proof -
    obtain len v where v: "slot x i = Some (len, v)" "value_content n h (live_area x) len v = Some (cs ! i)" using cs(3)[OF i] by blast
    have "cs ! i = (fst (cs ! i), [])" using cs(1,2) i by (auto simp: concat_eq_Nil_conv prod_eq_iff)
    then have "value_fp n h p v = Some []" using 3(1)[of i "(len, v)" len v "fst (cs ! i)" p x] v i 3(3) by auto
    with v(1) show ?thesis by blast
  qed
  have all: "collectM f xs = Some []" if "\<And>i. i \<in> set xs \<Longrightarrow> f i = Some []" for f :: "nat \<Rightarrow> addr list option" and xs
    using that by (induction xs) auto
  show ?case
  proof (cases x)
    case (HashObj t att)
    have b: "i < length (buckets t) \<and> value_fp n h p (bucket_value (buckets t ! i)) = Some []" if "i < number_of_buckets t" for i
      using fp[of i] that HashObj by (auto split: if_splits)
    then have "number_of_buckets t \<le> length (buckets t)" by (meson not_less order_refl)
    then show ?thesis using HashObj b 3(3) by (auto simp: hash_fp.simps load_hash_def intro!: all)
  next
    case (VecObj v att)
    have b: "i < length (v_buckets v) \<and> value_fp n h p (v_bucket_value (v_buckets v ! i)) = Some []" if "i < v_inuse v" for i
      using fp[of i] that VecObj by (auto split: if_splits)
    then have "v_inuse v \<le> length (v_buckets v)" by (meson not_less order_refl)
    then show ?thesis using VecObj b 3(3) by (auto simp: vector_fp.simps load_vector_def intro!: all)
  qed simp
qed (simp add: value_content.simps)

section \<open>One block and the rest of memory\<close>

definition block_at :: "(addr \<rightharpoonup> obj) \<Rightarrow> addr \<Rightarrow> obj \<Rightarrow> heap \<Rightarrow> bool" where
  "block_at M a x h \<longleftrightarrow> cells h = M(a \<mapsto> x) \<and> M a = None \<and> (\<forall>z \<ge> brk h. M z = None) \<and> a < brk h \<and> (\<forall>z. \<not> oom h z)"

lemma block_at_load: "block_at M a x h \<Longrightarrow> load h (Ptr a []) = Some x"
  by (simp add: block_at_def)

lemma block_at_store: "block_at M a x h \<Longrightarrow> \<exists>h'. store (Ptr a []) y h = Some h' \<and> block_at M a y h'"
  by (auto simp: block_at_def)

lemma block_at_realloc:
  assumes "block_at M a x h"
  shows "\<exists>a' h'. realloc (Ptr a []) h = Some (Some (Ptr a' []), h') \<and> block_at M a' x h'"
proof -
  have b: "cells h = M(a \<mapsto> x)" "M a = None" "\<And>z. brk h \<le> z \<Longrightarrow> M z = None" "a < brk h" "\<And>z. \<not> oom h z"
    using assms by (auto simp: block_at_def)
  let ?h = "h\<lparr>cells := M(brk h \<mapsto> x), brk := Suc (brk h)\<rparr>"
  have "(M(a \<mapsto> x, brk h \<mapsto> x))(a := None) = M(brk h \<mapsto> x)" using b(2,4) by (auto simp: fun_eq_iff)
  then have "realloc (Ptr a []) h = Some (Some (Ptr (brk h) []), ?h)"
    using b by (simp add: realloc_def alloc_def)
  moreover have "block_at M (brk h) x ?h" using b by (simp add: block_at_def)
  ultimately show ?thesis by blast
qed

lemma block_at_free:
  "block_at M a x h \<Longrightarrow> M b \<noteq> None \<Longrightarrow> \<exists>h'. free (Ptr b []) h = Some h' \<and> block_at (M(b := None)) a x h'"
  by (cases "b = a") (auto simp: block_at_def fun_upd_twist)

lemma block_at_alloc:
  assumes "block_at M a x h"
  shows "\<exists>b h'. alloc y h = (Some (Ptr b []), h') \<and> M b = None \<and> b \<noteq> a \<and> block_at (M(b \<mapsto> y)) a x h'"
  using assms by (auto simp: block_at_def alloc_def fun_upd_twist)

text \<open>The same memory, seen from another block\<close>

lemma block_at_swap:
  "block_at (M(b \<mapsto> y)) a x h \<Longrightarrow> M b = None \<Longrightarrow> block_at (M(a \<mapsto> x)) b y h"
  by (auto simp: block_at_def fun_upd_twist not_less split: if_splits)

lemma destroy_serialized:
  assumes b: "block_at M a x h" and y: "M b = Some y" "obj_content n h y = Some (c, [])"
  shows "is_hash y \<Longrightarrow> \<exists>h'. im_destroy_hashtable n (Ptr b []) h = Some h' \<and> block_at (M(b := None)) a x h'"
    and "is_vector y \<Longrightarrow> \<exists>h'. im_destroy_vector n (Ptr b []) h = Some h' \<and> block_at (M(b := None)) a x h'"
proof -
  have l: "load h (Ptr b []) = Some y" using b y(1) by (auto simp: block_at_def)
  note fp = content_fp(2)[OF y(2) l]
  obtain h' where h': "free (Ptr b []) h = Some h'" "block_at (M(b := None)) a x h'" using block_at_free[OF b, of b] y(1) by auto
  show "is_hash y \<Longrightarrow> \<exists>h'. im_destroy_hashtable n (Ptr b []) h = Some h' \<and> block_at (M(b := None)) a x h'"
    using destroy_hash_release[OF frees_buckets, of n h "Ptr b []" "[]" h] fp h'
    by (simp add: im_destroy_hashtable_def destroy_external same_on_def)
  show "is_vector y \<Longrightarrow> \<exists>h'. im_destroy_vector n (Ptr b []) h = Some h' \<and> block_at (M(b := None)) a x h'"
    using destroy_vector_release[OF frees_buckets, of n h "Ptr b []" "[]" h] fp h'
    by (simp add: im_destroy_vector_def destroy_external same_on_def)
qed

section \<open>Sizes\<close>

lemma le_place: "off \<le> place c off"
  by (cases c) auto

lemma le_fold_place: "off \<le> fold place cs off"
  by (induction cs arbitrary: off) (auto intro: le_trans le_place)

lemma le_grow_area: "need \<le> grow_area need sz" "sz \<le> grow_area need sz"
proof -
  have "need \<le> grow_area need sz \<and> sz \<le> grow_area need sz"
  proof (induction need sz rule: grow_area.induct)
    case (1 need sz)
    then show ?case by (cases "sz < need") (auto simp: grow_area.simps[of need sz])
  qed
  then show "need \<le> grow_area need sz" "sz \<le> grow_area need sz" by simp_all
qed

section \<open>Attaching\<close>

lemma content_mono:
  shows "value_content n h att len v = Some r \<Longrightarrow> value_content (Suc n) h att len v = Some r"
    and "obj_content n h x = Some r \<Longrightarrow> obj_content (Suc n) h x = Some r"
proof (induction n h att len v and n h x arbitrary: r and r rule: value_content_obj_content.induct)
  case (2 n h att len v)
  then show ?case
    by (cases r; cases v) (auto simp: value_content.simps split: option.splits if_splits)
next
  case (3 n h x)
  obtain c as where r: "r = (c, as)" by (cases r)
  with 3(2) obtain cs where cs: "length cs = visited x" "c = Node (shell x) (map fst cs)" "as = concat (map snd cs)"
      "\<And>i. i < visited x \<Longrightarrow> \<exists>len v. slot x i = Some (len, v) \<and> value_content n h (live_area x) len v = Some (cs ! i)"
    by (auto simp: obj_content_iff)
  have "\<exists>len v. slot x i = Some (len, v) \<and> value_content (Suc n) h (live_area x) len v = Some (cs ! i)" if i: "i < visited x" for i
  proof -
    obtain len v where v: "slot x i = Some (len, v)" "value_content n h (live_area x) len v = Some (cs ! i)" using cs(4)[OF i] by blast
    then show ?thesis using 3(1)[of i "(len, v)" len v] i by auto
  qed
  with cs r show ?case by (auto simp: obj_content_iff)
qed (simp add: value_content.simps)

text \<open>The attached area is extended by at most one piece, at the offset.\<close>

definition extends :: "nat \<Rightarrow> nat \<Rightarrow> tail \<Rightarrow> tail \<Rightarrow> bool" where
  "extends off off' att att' \<longleftrightarrow> off \<le> off' \<and> (att' = att \<or> (\<exists>y. att' = (off, y) # att \<and> off < off'))"

lemma attach_bytes_ok:
  assumes "len \<le> length b"
  shows "\<exists>v' att'. attach_bytes small large len off att b = Some (v', place (Bytes s (take len b)) off, att')
    \<and> extends off (place (Bytes s (take len b)) off) att att'
    \<and> (v' = small (take len b) \<and> len \<le> sizeof_value \<or> v' = large len off \<and> map_of att' off = Some (Raw (take len b)))"
  using assms by (auto simp: attach_bytes_def extends_def min_def)

lemma attach_value_bytes:
  assumes b: "block_at M a x h" and v: "value_content (Suc n) h buf len v = Some (c, as)" "\<not> inline_value v" "c = Bytes s bs" "a \<notin> set as"
  shows "\<exists>v' att' h'. attach_value m buf len v off att h = Some (v', place c off, att', h') \<and> block_at (M |` (- set as)) a x h'
    \<and> value_content (Suc n) h' att' len v' = Some (c, []) \<and> extends off (place c off) att att'"
proof -
  consider (ext) k d b l where "as = [d]" "M d = Some (Raw b)" "len \<le> length b" "c = Bytes k (take len b)"
      "v = (if k then IM_EXTERNAL_STRING l (Ptr d []) else IM_EXTERNAL_BLOCK l (Ptr d []))"
    | (att) k pos b l where "as = []" "map_of buf pos = Some (Raw b)" "len \<le> length b" "c = Bytes k (take len b)"
      "v = (if k then IM_ATTACHED_STRING l pos else IM_ATTACHED_BLOCK l pos)"
  proof -
    have m: "cells h z = M z" if "z \<noteq> a" for z using b that by (simp add: block_at_def)
    have "\<exists>k d b l. as = [d] \<and> M d = Some (Raw b) \<and> len \<le> length b \<and> c = Bytes k (take len b) \<and>
        v = (if k then IM_EXTERNAL_STRING l (Ptr d []) else IM_EXTERNAL_BLOCK l (Ptr d []))
      \<or> (\<exists>k pos b l. as = [] \<and> map_of buf pos = Some (Raw b) \<and> len \<le> length b \<and> c = Bytes k (take len b) \<and>
        v = (if k then IM_ATTACHED_STRING l pos else IM_ATTACHED_BLOCK l pos))"
      using v m by (cases v) (force simp: value_content.simps block_content_iff piece_content_iff own_block_iff obj_content_iff split: option.splits if_splits)+
    then show ?thesis using that by blast
  qed
  then show ?thesis
  proof cases
    case ext
    have l: "load_bytes h (Ptr d []) = Some b" using b ext(1,2) v(4) by (simp add: load_bytes_def block_at_def)
    obtain h' where h': "free (Ptr d []) h = Some h'" "block_at (M(d := None)) a x h'" using block_at_free[OF b, of d] ext(2) by auto
    have M: "M(d := None) = M |` (- set as)" by (auto simp: ext(1) restrict_map_def fun_eq_iff)
    obtain v' att' where v': "attach_bytes (if k then IM_STRING else IM_BLOCK) (if k then IM_ATTACHED_STRING else IM_ATTACHED_BLOCK) len off att b
        = Some (v', place c off, att')" "extends off (place c off) att att'"
        "v' = (if k then IM_STRING else IM_BLOCK) (take len b) \<and> len \<le> sizeof_value \<or> v' = (if k then IM_ATTACHED_STRING else IM_ATTACHED_BLOCK) len off \<and> map_of att' off = Some (Raw (take len b))"
      using attach_bytes_ok[OF ext(3), of "if k then IM_STRING else IM_BLOCK" "if k then IM_ATTACHED_STRING else IM_ATTACHED_BLOCK" off att k] ext(4) by auto
    have "attach_value m buf len v off att h = Some (v', place c off, att', h')"
      using l h'(1) v'(1) by (cases k) (simp_all add: attach_value_def ext(5))
    moreover have "value_content (Suc n) h' att' len v' = Some (c, [])"
      using v'(3) ext(3,4) by (cases k) (auto simp: value_content.simps bytes_content_def piece_content_def)
    ultimately show ?thesis using h'(2) v'(2) M by auto
  next
    case att
    have l: "piece_bytes buf pos = Some b" using att(2) by (simp add: piece_bytes_def)
    obtain v' att' where v': "attach_bytes (if k then IM_STRING else IM_BLOCK) (if k then IM_ATTACHED_STRING else IM_ATTACHED_BLOCK) len off att b
        = Some (v', place c off, att')" "extends off (place c off) att att'"
        "v' = (if k then IM_STRING else IM_BLOCK) (take len b) \<and> len \<le> sizeof_value \<or> v' = (if k then IM_ATTACHED_STRING else IM_ATTACHED_BLOCK) len off \<and> map_of att' off = Some (Raw (take len b))"
      using attach_bytes_ok[OF att(3), of "if k then IM_STRING else IM_BLOCK" "if k then IM_ATTACHED_STRING else IM_ATTACHED_BLOCK" off _ k] att(4) by metis
    have "attach_value m buf len v off att h = Some (v', place c off, att', h)"
      using l v'(1) by (cases k) (simp_all add: attach_value_def att(5))
    moreover have "value_content (Suc n) h att' len v' = Some (c, [])"
      using v'(3) att(3,4) by (cases k) (auto simp: value_content.simps bytes_content_def piece_content_def)
    ultimately show ?thesis using b v'(2) att(1) by (auto simp: restrict_map_def)
  qed
qed

text \<open>A nested object that has been serialised is moved with its block.\<close>

lemma attach_value_object:
  assumes b: "block_at M a x h" and y: "M d = Some y" "obj_content n h y = Some (c, [])" "obj_size y = len" "0 < len"
    and v: "v = (if k then IM_EXTERNAL_NESTED l (Ptr d []) else IM_EXTERNAL_VECTOR l (Ptr d []))" "if k then is_hash y else is_vector y"
  shows "\<exists>v' att' h'. attach_value (Suc n) buf len v off att h = Some (v', off + len, att', h') \<and> block_at (M(d := None)) a x h'
    \<and> value_content (Suc n) h' att' len v' = Some (c, []) \<and> extends off (off + len) att att'"
proof -
  have l: "load h (Ptr d []) = Some y" using b y(1) by (auto simp: block_at_def)
  obtain h' where h': "(if k then im_destroy_hashtable else im_destroy_vector) (Suc n) (Ptr d []) h = Some h'" "block_at (M(d := None)) a x h'"
    using destroy_serialized[OF b y(1) content_mono(2)[OF y(2)]] v(2) by (auto split: if_splits)
  have y': "obj_content n h' y = Some (c, [])" using content_same(2)[OF y(2)] by simp
  let ?v = "(if k then IM_ATTACHED_NESTED else IM_ATTACHED_VECTOR) len off" and ?att = "(off, y) # att"
  have "attach_value (Suc n) buf len v off att h = Some (?v, off + len, ?att, h')"
    using l h'(1) y(3) by (auto simp: attach_value_def attach_object_def v(1) split: if_splits)
  moreover have "value_content (Suc n) h' ?att len ?v = Some (c, [])"
    using y(3) y' v(2) by (auto simp: value_content.simps split: if_splits)
  ultimately show ?thesis using h'(2) y(4) by (fastforce simp: extends_def)
qed

text \<open>The part of \<^verbatim>\<open>attach_bucket\<close> that makes room\<close>

lemma area_put [simp]: "\<not> (\<exists>b. x = Raw b) \<Longrightarrow> area (put_area r x) = r" "slot (put_area r x) i = slot x i" "is_hash (put_area r x) = is_hash x"
  "is_vector (put_area r x) = is_vector x" "put_area r (put_area r' x) = put_area r x" "shell (put_area r x) = shell x" "visited (put_area r x) = visited x"
  "base_size (put_area r x) = base_size x"
  by (cases "(r, x)" rule: put_area.cases; cases r'; auto)+

lemma attach_at_room:
  assumes b: "block_at M a x h"
  shows "\<exists>a' h' sz'. block_at M a' (put_area (sz, off, att) x) h' \<and> attach_at n (Ptr a []) i buf x len v sz off att h
    = do { (v, off, att, h) \<leftarrow> attach_value n buf len v off att h';
           h \<leftarrow> store (Ptr a' []) (put_slot i len v (put_area (sz', off, att) x)) h;
           Some (0, Ptr a' [], h) }"
proof -
  let ?sz = "grow_area (off + len) sz"
  obtain h1 where h1: "store (Ptr a []) (put_area (sz, off, att) x) h = Some h1" "block_at M a (put_area (sz, off, att) x) h1"
    using block_at_store[OF b] by blast
  show ?thesis
  proof (cases "(if is_hash x then sz else off) < ?sz")
    case True
    obtain a2 h2 where h2: "realloc (Ptr a []) h1 = Some (Some (Ptr a2 []), h2)" "block_at M a2 (put_area (sz, off, att) x) h2"
      using block_at_realloc[OF h1(2)] by blast
    with True h1(1) show ?thesis
      by (intro exI[of _ a2] exI[of _ h2] exI[of _ ?sz]) (simp add: attach_at_def Let_def del: store.simps)
  next
    case False
    with h1 show ?thesis
      by (intro exI[of _ a] exI[of _ h1] exI[of _ sz]) (simp add: attach_at_def Let_def del: store.simps)
  qed
qed

text \<open>One bucket whose value is attached\<close>

lemma attach_bucket_ok:
  assumes b: "block_at M a x h" and x: "slot x i = Some (len, v)" "\<not> inline_value v" "area x = (sz, off, att)"
    and off: "off' = off + (if external_object v then im_align_offset off else 0)"
    and v: "\<And>a x h. block_at M a x h \<Longrightarrow> \<exists>v' att' h'. attach_value n buf len v off' att h = Some (v', off'', att', h') \<and> block_at M' a x h'
      \<and> value_content n h' att' len v' = Some (c, []) \<and> extends off' off'' att att'"
  shows "\<exists>a' sz' v' att' h'. attach_bucket n (Ptr a []) i buf h = Some (0, Ptr a' [], h')
    \<and> block_at M' a' (put_slot i len v' (put_area (sz', off'', att') x)) h'
    \<and> value_content n h' att' len v' = Some (c, []) \<and> extends off' off'' att att'"
proof -
  obtain a1 h1 sz' where 1: "block_at M a1 (put_area (sz, off', att) x) h1" "attach_at n (Ptr a []) i buf x len v sz off' att h
      = do { (v, off, att, h) \<leftarrow> attach_value n buf len v off' att h1;
             h \<leftarrow> store (Ptr a1 []) (put_slot i len v (put_area (sz', off, att) x)) h;
             Some (0, Ptr a1 [], h) }"
    using attach_at_room[OF b] by blast
  obtain v' att' h2 where 2: "attach_value n buf len v off' att h1 = Some (v', off'', att', h2)" "block_at M' a1 (put_area (sz, off', att) x) h2"
      "value_content n h2 att' len v' = Some (c, [])" "extends off' off'' att att'"
    using v[OF 1(1)] by blast
  obtain h3 where 3: "store (Ptr a1 []) (put_slot i len v' (put_area (sz', off'', att') x)) h2 = Some h3"
      "block_at M' a1 (put_slot i len v' (put_area (sz', off'', att') x)) h3"
    using block_at_store[OF 2(2)] by blast
  have "attach_bucket n (Ptr a []) i buf h = Some (0, Ptr a1 [], h3)"
    using block_at_load[OF b] x 1(2) 2(1) 3(1) off by (simp add: attach_bucket_def del: store.simps load.simps)
  moreover have "value_content n h3 att' len v' = Some (c, [])" using content_same(1)[OF 2(3)] by simp
  ultimately show ?thesis using 3(2) 2(4) by blast
qed

section \<open>Nested objects\<close>

definition serializes :: "nat \<Rightarrow> bool" where
  "serializes n \<longleftrightarrow> (\<forall>M a x h c as. block_at M a x h \<longrightarrow> is_hash x \<or> is_vector x \<longrightarrow> obj_content n h x = Some (c, as) \<longrightarrow>
     distinct as \<longrightarrow> a \<notin> set as \<longrightarrow> serialized_size c < 2 ^ 31 \<longrightarrow>
     (\<exists>a' x' h'. im_serialize n (Ptr a []) h = Some (int (serialized_size c), Ptr a' [], h') \<and> block_at (M |` (- set as)) a' x' h'
       \<and> obj_content n h' x' = Some (c, []) \<and> obj_size x' = serialized_size c \<and> shell x' = shell x))"

lemmas serializesD = serializes_def [THEN iffD1, rule_format]

lemma shell_kind: "shell x' = shell x \<Longrightarrow> is_hash x' = is_hash x \<and> is_vector x' = is_vector x"
  by (cases x; cases x') auto

lemma nested_serialize:
  assumes S: "serializes m" and b: "block_at M a x h" and y: "M d = Some y" "obj_content m h y = Some (c, as)" "is_hash y \<or> is_vector y"
    and d: "distinct as" "d \<notin> set as" "a \<notin> set as" "serialized_size c < 2 ^ 31"
  defines "N \<equiv> M |` (- insert d (set as))"
  shows "\<exists>d' y' h'. im_serialize m (Ptr d []) h = Some (int (serialized_size c), Ptr d' [], h') \<and> block_at (N(d' \<mapsto> y')) a x h' \<and> N d' = None
    \<and> obj_content m h' y' = Some (c, []) \<and> obj_size y' = serialized_size c \<and> is_hash y' = is_hash y \<and> is_vector y' = is_vector y"
proof -
  have Ma: "M a = None" using b by (simp add: block_at_def)
  have "M = (M(d := None))(d \<mapsto> y)" using y(1) by auto
  then have "block_at ((M(d := None))(a \<mapsto> x)) d y h" using block_at_swap[of "M(d := None)" d y a x h] b by simp
  then obtain d' y' h' where h': "im_serialize m (Ptr d []) h = Some (int (serialized_size c), Ptr d' [], h')"
      "block_at ((M(d := None))(a \<mapsto> x) |` (- set as)) d' y' h'" "obj_content m h' y' = Some (c, [])" "obj_size y' = serialized_size c" "shell y' = shell y"
    using serializesD[OF S _ y(3,2) d(1,2,4)] by blast
  have "(M(d := None))(a \<mapsto> x) |` (- set as) = N(a \<mapsto> x)" using d(3) by (auto simp: N_def restrict_map_def fun_eq_iff)
  then have bd: "block_at (N(a \<mapsto> x)) d' y' h'" using h'(2) by simp
  then have "block_at (N(d' \<mapsto> y')) a x h'" by (rule block_at_swap) (simp add: N_def restrict_map_def Ma)
  moreover have "N d' = None" using bd by (simp add: block_at_def split: if_splits)
  ultimately show ?thesis using h' shell_kind[OF h'(5)] by blast
qed

lemma put_slot_area [simp]:
  "put_slot i len v (put_area r (put_slot i len' v' x)) = put_slot i len v (put_area r x)" "area (put_slot i len v x) = area x"
proof -
  have *: "(xs[i := y])[i := g ((xs[i := y]) ! i)] = xs[i := g y]" for xs :: "'a list" and y g
    by (cases "i < length xs") (simp_all add: list_update_beyond)
  obtain sz off att where r: "r = (sz, off, att)" by (cases r)
  show "put_slot i len v (put_area r (put_slot i len' v' x)) = put_slot i len v (put_area r x)"
  proof (cases x)
    case (HashObj t a)
    then show ?thesis using *[of "buckets t" "(buckets t ! i)\<lparr>value_length := len', bucket_value := v'\<rparr>" "\<lambda>b. b\<lparr>value_length := len, bucket_value := v\<rparr>"]
      by (simp add: r)
  next
    case (VecObj t a)
    then show ?thesis using *[of "v_buckets t" "(v_buckets t ! i)\<lparr>v_value_length := len', v_bucket_value := v'\<rparr>" "\<lambda>b. b\<lparr>v_value_length := len, v_bucket_value := v\<rparr>"]
      by (simp add: r)
  qed (simp add: r)
  show "area (put_slot i len v x) = area x" by (cases x) simp_all
qed

lemma slot_put_slot [simp]:
  "slot x i = Some r \<Longrightarrow> slot (put_slot i len v x) i = Some (len, v)" "j \<noteq> i \<Longrightarrow> slot (put_slot i len v x) j = slot x j"
  by (cases x; auto split: if_splits)+

lemma shell_put_slot [simp]:
  "shell (put_slot i len v x) = shell x" "visited (put_slot i len v x) = visited x" "base_size (put_slot i len v x) = base_size x"
proof -
  have "map blank_bucket (bs[i := (bs ! i)\<lparr>value_length := len, bucket_value := v\<rparr>]) = map blank_bucket bs" for bs
    by (cases "i < length bs") (auto simp: map_update blank_bucket_def intro!: nth_equalityI simp: nth_list_update)
  then show "shell (put_slot i len v x) = shell x" by (cases x) simp_all
  show "visited (put_slot i len v x) = visited x" "base_size (put_slot i len v x) = base_size x" by (cases x; simp)+
qed

lemma put_area_same: "area x = r \<Longrightarrow> is_hash x \<or> is_vector x \<Longrightarrow> put_area r x = x"
  by (cases x) auto

lemma place_Node:
  assumes "obj_content n h x = Some (c, as)" "is_hash x \<or> is_vector x"
  shows "place c off = off + im_align_offset off + serialized_size c" "0 < serialized_size c"
proof -
  have "im_align_offset 0 = 0" "base_size (shell x) = base_size x" "0 < base_size x"
    using assms(2) by (cases x; simp add: im_align_offset_def hash_size_def vector_size_def)+
  with assms(1) show "place c off = off + im_align_offset off + serialized_size c" "0 < serialized_size c"
    by (auto simp: obj_content_iff serialized_size_def)
qed

section \<open>One bucket\<close>

text \<open>What a step achieves for a bucket with the contents \<open>c\<close> and the blocks \<open>as\<close>\<close>

definition step_ok :: "nat \<Rightarrow> (addr \<rightharpoonup> obj) \<Rightarrow> obj \<Rightarrow> nat \<Rightarrow> content \<Rightarrow> (int \<times> ptr \<times> heap) option \<Rightarrow> bool" where
  "step_ok n M x i c r \<longleftrightarrow> (\<exists>a' sz' len' v' off1 att' h'. r = Some (0, Ptr a' [], h')
    \<and> block_at M a' (put_slot i len' v' (put_area (sz', place c (fst (snd (area x))), att') x)) h'
    \<and> value_content n h' att' len' v' = Some (c, []) \<and> fst (snd (area x)) \<le> off1
    \<and> extends off1 (place c (fst (snd (area x)))) (snd (snd (area x))) att')"

lemma step_okI:
  assumes "area x = (sz, off, att)" "r = Some (0, Ptr a' [], h')" "block_at M a' (put_slot i len' v' (put_area (sz', place c off, att') x)) h'"
    "value_content n h' att' len' v' = Some (c, [])" "off \<le> off1" "extends off1 (place c off) att att'"
  shows "step_ok n M x i c r"
  unfolding step_ok_def assms(1) fst_conv snd_conv using assms(2-) by blast

text \<open>A nested object at \<open>d\<close> is serialised, its bucket is updated and it is attached.\<close>

lemma nested_step:
  assumes S: "serializes m" and b: "block_at M a x h" and x: "slot x i = Some s"
    and y: "M d = Some y" "obj_content m h y = Some (c, as)" "if k then is_hash y else is_vector y"
    and d: "distinct as" "d \<notin> set as" "a \<notin> set as" "place c (fst (snd (area x))) < 2 ^ 31"
  shows "\<exists>d' h' h''. im_serialize m (Ptr d []) h = Some (int (serialized_size c), Ptr d' [], h')
    \<and> store (Ptr a []) (put_slot i (serialized_size c) (if k then IM_EXTERNAL_NESTED l (Ptr d' []) else IM_EXTERNAL_VECTOR l (Ptr d' [])) x) h' = Some h''
    \<and> step_ok (Suc m) (M |` (- insert d (set as))) x i c (attach_bucket (Suc m) (Ptr a []) i buf h'')"
proof -
  define N where "N = M |` (- insert d (set as))"
  obtain sz off att where ar: "area x = (sz, off, att)" by (cases "area x")
  have kind: "is_hash y \<or> is_vector y" using y(3) by (auto split: if_splits)
  note pl = place_Node[OF y(2) kind]
  have "serialized_size c < 2 ^ 31" using d(4) pl(1)[of off] by (simp add: ar)
  then obtain d' y' h' where 1: "im_serialize m (Ptr d []) h = Some (int (serialized_size c), Ptr d' [], h')" "block_at (N(d' \<mapsto> y')) a x h'" "N d' = None"
      "obj_content m h' y' = Some (c, [])" "obj_size y' = serialized_size c" "is_hash y' = is_hash y" "is_vector y' = is_vector y"
    using nested_serialize[OF S b y(1,2) kind d(1-3)] unfolding N_def by blast
  let ?v = "if k then IM_EXTERNAL_NESTED l (Ptr d' []) else IM_EXTERNAL_VECTOR l (Ptr d' [])"
  define x1 where "x1 = put_slot i (serialized_size c) ?v x"
  obtain h'' where 2: "store (Ptr a []) x1 h' = Some h''" "block_at (N(d' \<mapsto> y')) a x1 h''" using block_at_store[OF 1(2)] by blast
  define off1 where "off1 = off + im_align_offset off"
  have v: "slot x1 i = Some (serialized_size c, ?v)" "\<not> inline_value ?v" "external_object ?v" using x by (simp_all add: x1_def)
  have N: "(N(d' \<mapsto> y'))(d' := None) = N" using 1(3) by auto
  have at: "\<exists>v' att' h'. attach_value (Suc m) buf (serialized_size c) ?v off1 att h = Some (v', off1 + serialized_size c, att', h') \<and> block_at N a x h'
      \<and> value_content (Suc m) h' att' (serialized_size c) v' = Some (c, []) \<and> extends off1 (off1 + serialized_size c) att att'"
    if "block_at (N(d' \<mapsto> y')) a x h" for a x h
  proof -
    have y': "obj_content m h y' = Some (c, [])" using content_same(2)[OF 1(4)] by simp
    have k: "if k then is_hash y' else is_vector y'" using y(3) 1(6,7) by simp
    show ?thesis using attach_value_object[OF that, of d', OF _ y' 1(5) pl(2) refl k] N by simp
  qed
  obtain a' sz' v' att' h3 where 3: "attach_bucket (Suc m) (Ptr a []) i buf h'' = Some (0, Ptr a' [], h3)"
      "block_at N a' (put_slot i (serialized_size c) v' (put_area (sz', off1 + serialized_size c, att') x1)) h3"
      "value_content (Suc m) h3 att' (serialized_size c) v' = Some (c, [])" "extends off1 (off1 + serialized_size c) att att'"
    using attach_bucket_ok[OF 2(2) v(1,2) _ _ at, of sz off] ar v(3) by (auto simp: x1_def off1_def)
  have "step_ok (Suc m) N x i c (attach_bucket (Suc m) (Ptr a []) i buf h'')"
    by (rule step_okI[OF ar 3(1) _ 3(3) _ ]) (use 3 pl(1)[of off] in \<open>simp_all add: x1_def off1_def\<close>)
  then show ?thesis using 1(1) 2(1) unfolding x1_def N_def by blast
qed

lemma plain_step:
  assumes b: "block_at M a x h" and x: "slot x i = Some (len, v)" "is_hash x \<or> is_vector x"
    and c: "value_content (Suc m) h buf len v = Some (c, as)" "a \<notin> set as" "\<not> (\<exists>y cs. c = Node y cs)"
  shows "step_ok (Suc m) (M |` (- set as)) x i c (attach_bucket (Suc m) (Ptr a []) i buf h)"
proof -
  obtain sz off att where ar: "area x = (sz, off, att)" by (cases "area x")
  show ?thesis
  proof (cases "inline_value v")
    case True
    then have *: "as = []" "place c off = off" "value_content (Suc m) h att len v = Some (c, [])"
      using c(1) by (cases v; auto simp: value_content.simps bytes_content_def min_def split: if_splits)+
    have "attach_bucket (Suc m) (Ptr a []) i buf h = Some (0, Ptr a [], h)"
      using True x(1) block_at_load[OF b] by (simp add: attach_bucket_def del: load.simps)
    then show ?thesis
      by (rule step_okI[OF ar, where sz' = sz and len' = len and v' = v and att' = att and ?off1.0 = off])
        (use b x * put_area_same[OF ar x(2)] in \<open>simp_all add: extends_def restrict_map_def\<close>)
  next
    case False
    then have "\<not> (\<exists>w. c = Scalar w)"
      using c(1) by (cases v) (auto simp: value_content.simps block_content_iff piece_content_iff obj_content_iff split: option.splits if_splits)
    then obtain s bs where Bs: "c = Bytes s bs" using c(3) by (cases c) auto
    have e: "\<not> external_object v" using c(1,3) by (cases v) (auto simp: value_content.simps obj_content_iff split: option.splits if_splits)
    obtain a' sz' v' att' h3 where 3: "attach_bucket (Suc m) (Ptr a []) i buf h = Some (0, Ptr a' [], h3)"
        "block_at (M |` (- set as)) a' (put_slot i len v' (put_area (sz', place c off, att') x)) h3"
        "value_content (Suc m) h3 att' len v' = Some (c, [])" "extends off (place c off) att att'"
    proof -
      have "\<exists>v' att' h'. attach_value (Suc m) buf len v off att h1 = Some (v', place c off, att', h') \<and> block_at (M |` (- set as)) a1 x1 h'
          \<and> value_content (Suc m) h' att' len v' = Some (c, []) \<and> extends off (place c off) att att'" if b1: "block_at M a1 x1 h1" for a1 x1 h1
      proof -
        have as: "set as \<subseteq> dom M" using content_dom(1)[OF c(1)] b c(2) by (fastforce simp: block_at_def)
        have "same_on (set as) h h1" using b b1 c(2) as by (auto simp: same_on_def block_at_def subset_iff dom_def)
        moreover have "a1 \<notin> set as" using as b1 by (auto simp: block_at_def)
        ultimately show ?thesis using attach_value_bytes[OF b1 content_same(1)[OF c(1)] False Bs] by blast
      qed
      then show ?thesis using attach_bucket_ok[OF b x(1) False ar, of off "Suc m" buf "place c off" "M |` (- set as)" c] that e by auto
    qed
    then show ?thesis by (intro step_okI[OF ar 3(1-3)]) auto
  qed
qed

lemma value_content_kind:
  assumes "value_content (Suc m) h buf len v = Some (c, as)"
  obtains (plain) "\<not> (\<exists>y cs. c = Node y cs)" "\<And>h'. serialize_bucket (Suc m) buf len v h' = Some (0, len, v, h')"
  | (external) k l d y bs where "v = (if k then IM_EXTERNAL_NESTED l (Ptr d []) else IM_EXTERNAL_VECTOR l (Ptr d []))" "cells h d = Some y"
      "obj_content m h y = Some (c, bs)" "if k then is_hash y else is_vector y" "as = bs @ [d]"
  | (attached) k l off y where "v = (if k then IM_ATTACHED_NESTED l off else IM_ATTACHED_VECTOR l off)" "map_of buf off = Some y"
      "obj_content m h y = Some (c, as)" "if k then is_hash y else is_vector y" "obj_size y = len"
proof (cases v)
  case (IM_EXTERNAL_NESTED l q)
  with assms external[of True l] show ?thesis by (auto simp: value_content.simps own_block_iff split: option.splits if_splits)
next
  case (IM_EXTERNAL_VECTOR l q)
  with assms external[of False l] show ?thesis by (auto simp: value_content.simps own_block_iff split: option.splits if_splits)
next
  case (IM_ATTACHED_NESTED l off)
  with assms attached[of True l off] show ?thesis by (auto simp: value_content.simps split: option.splits if_splits)
next
  case (IM_ATTACHED_VECTOR l off)
  with assms attached[of False l off] show ?thesis by (auto simp: value_content.simps split: option.splits if_splits)
qed (use assms plain in \<open>auto simp: value_content.simps serialize_bucket.simps bytes_content_def block_content_iff piece_content_iff split: if_splits\<close>)

lemma load_kind: "cells h d = Some y \<Longrightarrow> is_hash y \<Longrightarrow> \<exists>r. load_hash h (Ptr d []) = Some r"
  "cells h d = Some y \<Longrightarrow> is_vector y \<Longrightarrow> \<exists>r. load_vector h (Ptr d []) = Some r"
  by (cases y; simp add: load_hash_def load_vector_def)+

lemma serialize_step_ok:
  assumes S: "\<And>m. n = Suc m \<Longrightarrow> serializes m" and b: "block_at M a x h" and x: "slot x i = Some (len, v)" "is_hash x \<or> is_vector x"
    and c: "value_content n h buf len v = Some (c, as)" "distinct as" "a \<notin> set as" "place c (fst (snd (area x))) < 2 ^ 31"
  shows "step_ok n (M |` (- set as)) x i c (serialize_step n buf i (Ptr a []) h)"
proof (cases n)
  case (Suc m)
  have h: "cells h z = M z" if "z \<noteq> a" for z using b that by (simp add: block_at_def)
  note step = serialize_step.simps block_at_load[OF b] x(1)
  from c(1)[unfolded Suc] show ?thesis
  proof (cases rule: value_content_kind)
    case plain
    obtain h1 where h1: "store (Ptr a []) x h = Some h1" "block_at M a x h1" using block_at_store[OF b] by blast
    then have "h1 = h" using b by (auto simp: block_at_def)
    with h1(1) plain(2) have "serialize_step n buf i (Ptr a []) h = attach_bucket (Suc m) (Ptr a []) i buf h"
      using x(1) by (simp add: step Suc del: load.simps store.simps)
    then show ?thesis using plain_step[OF b x c(1)[unfolded Suc] c(3) plain(1)] by (simp add: Suc)
  next
    case (external k l d y bs)
    have d: "distinct bs" "d \<notin> set bs" "a \<notin> set bs" "d \<noteq> a" "insert d (set bs) = set as" using c(2,3) external(5) by auto
    have Md: "M d = Some y" using external(2) h[OF d(4)] by simp
    obtain d' h' h'' where *: "im_serialize m (Ptr d []) h = Some (int (serialized_size c), Ptr d' [], h')"
        "store (Ptr a []) (put_slot i (serialized_size c) (if k then IM_EXTERNAL_NESTED l (Ptr d' []) else IM_EXTERNAL_VECTOR l (Ptr d' [])) x) h' = Some h''"
        "step_ok (Suc m) (M |` (- insert d (set bs))) x i c (attach_bucket (Suc m) (Ptr a []) i buf h'')"
      using nested_step[OF S[OF Suc] b x(1) Md external(3,4) d(1-3) c(4)] by blast
    have "serialize_bucket (Suc m) buf len v h = Some (0, serialized_size c, if k then IM_EXTERNAL_NESTED l (Ptr d' []) else IM_EXTERNAL_VECTOR l (Ptr d' []), h')"
      using *(1) external(1,2,4) load_kind[of h d y] by (auto simp: serialize_bucket.simps split: if_splits)
    then have "serialize_step n buf i (Ptr a []) h = attach_bucket (Suc m) (Ptr a []) i buf h''"
      using *(2) by (simp add: step Suc del: load.simps store.simps)
    then show ?thesis using *(3) d(5) by (simp add: Suc)
  next
    case (attached k l off y)
    obtain d h1 where al: "alloc y h = (Some (Ptr d []), h1)" "M d = None" "d \<noteq> a" "block_at (M(d \<mapsto> y)) a x h1" using block_at_alloc[OF b] by blast
    have as: "set as \<subseteq> dom M" using content_dom(1)[OF c(1)] h c(3) by (fastforce simp: dom_def)
    have d: "d \<notin> set as" using as al(2) by auto
    have "same_on (set as) h h1" using h c(3) al(4) d by (auto simp: same_on_def block_at_def)
    then have y: "obj_content m h1 y = Some (c, as)" using content_same(2)[OF attached(3)] by blast
    have Md: "(M(d \<mapsto> y)) d = Some y" by simp
    obtain d' h' h'' where *: "im_serialize m (Ptr d []) h1 = Some (int (serialized_size c), Ptr d' [], h')"
        "store (Ptr a []) (put_slot i (serialized_size c) (if k then IM_EXTERNAL_NESTED len (Ptr d' []) else IM_EXTERNAL_VECTOR len (Ptr d' [])) x) h' = Some h''"
        "step_ok (Suc m) (M(d \<mapsto> y) |` (- insert d (set as))) x i c (attach_bucket (Suc m) (Ptr a []) i buf h'')"
      using nested_step[OF S[OF Suc] al(4) x(1) Md y attached(4) c(2) d c(3,4)] by blast
    have cd: "cells h1 d = Some y" using al(3,4) by (simp add: block_at_def)
    have "serialize_bucket (Suc m) buf len v h = Some (0, serialized_size c, if k then IM_EXTERNAL_NESTED len (Ptr d' []) else IM_EXTERNAL_VECTOR len (Ptr d' []), h')"
      using *(1) attached(1,2,4,5) al(1) load_kind[OF cd] by (auto simp: serialize_bucket.simps split: if_splits)
    then have "serialize_step n buf i (Ptr a []) h = attach_bucket (Suc m) (Ptr a []) i buf h''"
      using *(2) by (simp add: step Suc del: load.simps store.simps)
    moreover have "M(d \<mapsto> y) |` (- insert d (set as)) = M |` (- set as)" using al(2) by (auto simp: restrict_map_def fun_eq_iff)
    ultimately show ?thesis using *(3) by (simp add: Suc)
  qed
qed (use c(1) in \<open>simp add: value_content.simps\<close>)

section \<open>The loop\<close>

lemma content_extends: "value_content n h att len v = Some r \<Longrightarrow> map_of att \<subseteq>\<^sub>m map_of att' \<Longrightarrow> value_content n h att' len v = Some r"
proof (cases n)
  case (Suc m)
  assume v: "value_content n h att len v = Some r" and m: "map_of att \<subseteq>\<^sub>m map_of att'"
  have *: "map_of att' k = map_of att k" if "map_of att k \<noteq> None" for k using m that by (metis domIff map_le_def)
  have "map_of att k \<noteq> None" if "v = IM_ATTACHED_STRING l k \<or> v = IM_ATTACHED_BLOCK l k \<or> v = IM_ATTACHED_NESTED l k \<or> v = IM_ATTACHED_VECTOR l k" for l k
    using v that by (cases "map_of att k") (auto simp: Suc value_content.simps piece_content_def)
  with * have "map_of att' k = map_of att k" if "v = IM_ATTACHED_STRING l k \<or> v = IM_ATTACHED_BLOCK l k \<or> v = IM_ATTACHED_NESTED l k \<or> v = IM_ATTACHED_VECTOR l k" for l k
    using that by blast
  then have "value_content n h att' len v = value_content n h att len v" by (cases v) (simp_all add: Suc value_content.simps piece_content_def)
  with v show ?thesis by simp
qed (simp add: value_content.simps)

lemma extends_keys:
  assumes "extends off1 off' att att'" "off \<le> off1" "\<forall>k \<in> fst ` set att. k < off"
  shows "map_of att \<subseteq>\<^sub>m map_of att'" "\<forall>k \<in> fst ` set att'. k < off'"
proof -
  have "map_of att off1 = None" using assms(2,3) by (force simp: map_of_eq_None_iff)
  with assms(1) show "map_of att \<subseteq>\<^sub>m map_of att'" by (auto simp: extends_def map_le_def)
  show "\<forall>k \<in> fst ` set att'. k < off'" using assms by (fastforce simp: extends_def)
qed

definition loop_inv :: "nat \<Rightarrow> (addr \<rightharpoonup> obj) \<Rightarrow> obj \<Rightarrow> (content \<times> addr list) list \<Rightarrow> nat \<Rightarrow> int \<times> ptr \<times> heap \<Rightarrow> bool" where
  "loop_inv n M x cs i s \<longleftrightarrow> (\<exists>a y h sz att. s = (0, Ptr a [], h) \<and> block_at (M |` (- set (concat (map snd (take i cs))))) a y h
    \<and> shell y = shell x \<and> area y = (sz, fold place (map fst (take i cs)) 0, att)
    \<and> (\<forall>k \<in> fst ` set att. k < fold place (map fst (take i cs)) 0)
    \<and> (\<forall>j < i. \<exists>len v. slot y j = Some (len, v) \<and> value_content n h att len v = Some (fst (cs ! j), []))
    \<and> (\<forall>j \<ge> i. slot y j = slot x j))"

lemma loop_inv_step:
  assumes S: "\<And>m. n = Suc m \<Longrightarrow> serializes m" and kind: "is_hash x \<or> is_vector x" and i: "i < length cs"
    and as: "distinct (concat (map snd cs))" "set (concat (map snd cs)) \<subseteq> dom M" "\<forall>z \<in> dom M. cells h0 z = M z"
    and v: "slot x i = Some (len, v)" "value_content n h0 buf len v = Some (cs ! i)"
    and size: "fold place (map fst cs) 0 < 2 ^ 31" and inv: "loop_inv n M x cs i s"
  shows "\<exists>s'. (case s of (r, p, h) \<Rightarrow> if r < 0 then Some (r, p, h) else serialize_step n buf i p h) = Some s' \<and> loop_inv n M x cs (Suc i) s'"
proof -
  define G where "G = set (concat (map snd (take i cs)))"
  define off where "off = fold place (map fst (take i cs)) 0"
  obtain c bs where ci: "cs ! i = (c, bs)" by (cases "cs ! i")
  obtain a y h sz att where s: "s = (0, Ptr a [], h)" "block_at (M |` (- G)) a y h" "shell y = shell x" "area y = (sz, off, att)"
      "\<forall>k \<in> fst ` set att. k < off" "\<And>j. i \<le> j \<Longrightarrow> slot y j = slot x j"
      "\<And>j. j < i \<Longrightarrow> \<exists>len v. slot y j = Some (len, v) \<and> value_content n h att len v = Some (fst (cs ! j), [])"
    using inv unfolding loop_inv_def G_def off_def by blast
  have split: "cs = take i cs @ (c, bs) # drop (Suc i) cs" using id_take_nth_drop[OF i] ci by simp
  have t: "take (Suc i) cs = take i cs @ [(c, bs)]" using i ci by (simp add: take_Suc_conv_app_nth)
  have "concat (map snd cs) = concat (map snd (take i cs)) @ bs @ concat (map snd (drop (Suc i) cs))" by (subst split) simp
  then have bs: "distinct bs" "set bs \<inter> G = {}" "set bs \<subseteq> dom M" using as(1,2) by (auto simp: G_def)
  have an: "a \<notin> set bs" using s(2) bs by (auto simp: block_at_def restrict_map_def split: if_splits)
  have "same_on (set bs) h0 h" using s(2) bs an as(3) by (auto simp: same_on_def block_at_def restrict_map_def subset_iff)
  then have v': "value_content n h buf len v = Some (c, bs)" using content_same(1) v(2) ci by metis
  have "fold place (map fst cs) 0 = fold place (map fst (drop (Suc i) cs)) (place c off)" unfolding off_def by (subst split) simp
  then have sz: "place c (fst (snd (area y))) < 2 ^ 31" using size le_fold_place[of "place c off"] by (metis fst_conv le_less_trans s(4) snd_conv)
  have k: "is_hash y \<or> is_vector y" using shell_kind[OF s(3)] kind by simp
  have vi: "slot y i = Some (len, v)" using s(6)[of i] v(1) by simp
  obtain a' sz' len' u off1 att' h' where st: "serialize_step n buf i (Ptr a []) h = Some (0, Ptr a' [], h')"
      "block_at (M |` (- G) |` (- set bs)) a' (put_slot i len' u (put_area (sz', place c off, att') y)) h'"
      "value_content n h' att' len' u = Some (c, [])" "off \<le> off1" "extends off1 (place c off) att att'"
    using serialize_step_ok[OF S s(2) vi k v' bs(1) an sz] unfolding step_ok_def s(4) fst_conv snd_conv by blast
  define y' where "y' = put_slot i len' u (put_area (sz', place c off, att') y)"
  note ex = extends_keys[OF st(5,4) s(5)]
  have nR: "\<not> (\<exists>b. y = Raw b)" using k by auto
  have old: "\<exists>len v. slot y' j = Some (len, v) \<and> value_content n h' att' len v = Some (fst (cs ! j), [])" if j: "j < Suc i" for j
  proof (cases "j = i")
    case True
    then show ?thesis using st(3) s(6)[of i] v(1) ci by (simp add: y'_def)
  next
    case False
    with j obtain len v where "slot y j = Some (len, v)" "value_content n h att len v = Some (fst (cs ! j), [])" using s(7)[of j] by auto
    moreover from this(2) have "value_content n h' att' len v = Some (fst (cs ! j), [])"
      using content_extends[OF content_same(1) ex(1)] by simp
    ultimately show ?thesis using False by (simp add: y'_def)
  qed
  have M: "M |` (- G) |` (- set bs) = M |` (- set (concat (map snd (take (Suc i) cs))))"
    by (auto simp: t G_def restrict_map_def fun_eq_iff)
  have o: "fold place (map fst (take (Suc i) cs)) 0 = place c off" by (simp add: t off_def)
  have ar: "area y' = (sz', place c off, att')" using nR by (simp add: y'_def)
  have "loop_inv n M x cs (Suc i) (0, Ptr a' [], h')"
    unfolding loop_inv_def o
    by (rule exI[of _ a'], rule exI[of _ y'], rule exI[of _ h'], rule exI[of _ sz'], rule exI[of _ att'])
      (use st(2) ar ex(2) old s(3,6) M in \<open>simp add: y'_def\<close>)
  then show ?thesis using st(1) by (simp add: s(1))
qed

section \<open>Whole objects\<close>

lemma visited_shell: "visited (shell x) = visited x" "base_size (shell x) = base_size x"
  by (cases x; simp)+

lemma shell_sizes: "shell y = shell x \<Longrightarrow> visited y = visited x \<and> base_size y = base_size x"
  by (metis visited_shell)

lemma live_area_all: "area x = (sz, off, att) \<Longrightarrow> \<forall>k \<in> fst ` set att. k < off \<Longrightarrow> live_area x = att"
  by (simp add: live_area_def filter_id_conv) (metis (mono_tags, lifting) case_prod_unfold filter_True imageI)

lemma serializes_step:
  assumes "\<And>m. n = Suc m \<Longrightarrow> serializes m"
  shows "serializes n"
  unfolding serializes_def
proof (intro allI impI)
  fix M a x h c as
  assume b: "block_at M a x h" and kind: "is_hash x \<or> is_vector x" and c: "obj_content n h x = Some (c, as)" "distinct as" "a \<notin> set as" "serialized_size c < 2 ^ 31"
  obtain cs where cs: "length cs = visited x" "c = Node (shell x) (map fst cs)" "as = concat (map snd cs)"
      "\<And>i. i < visited x \<Longrightarrow> \<exists>len v. slot x i = Some (len, v) \<and> value_content n h (live_area x) len v = Some (cs ! i)"
    using c(1) by (auto simp: obj_content_iff)
  have dm: "set as \<subseteq> dom M" using content_dom(2)[OF c(1)] b c(3) by (auto simp: block_at_def dom_def split: if_splits)
  have size: "serialized_size c = base_size x + fold place (map fst cs) 0"
    by (simp add: cs(2) serialized_size_def visited_shell im_align_offset_def)
  then have lt: "fold place (map fst cs) 0 < 2 ^ 31" using c(4) by simp
  define x0 where "x0 = put_area (fst (area x), 0, []) x"
  obtain h0 where h0: "store (Ptr a []) x0 h = Some h0" "block_at M a x0 h0" using block_at_store[OF b] by blast
  have k0: "is_hash x0 \<or> is_vector x0" "area x0 = (fst (area x), 0, [])" using kind by (cases x; simp add: x0_def)+
  have "loop_inv n M x0 cs 0 (0, Ptr a [], h0)"
    unfolding loop_inv_def using h0(2) k0(2)
    by (intro exI[of _ a] exI[of _ x0] exI[of _ h0] exI[of _ "fst (area x)"] exI[of _ "[]"]) (simp add: restrict_map_def)
  moreover have "\<exists>s'. (case s of (r, p, h) \<Rightarrow> if r < 0 then Some (r, p, h) else serialize_step n (live_area x) i p h) = Some s' \<and> loop_inv n M x0 cs (Suc i) s'"
    if i: "i < visited x" and inv: "loop_inv n M x0 cs i s" for i s
  proof -
    obtain len v where v: "slot x i = Some (len, v)" "value_content n h (live_area x) len v = Some (cs ! i)" using cs(4)[OF i] by blast
    show ?thesis
      by (rule loop_inv_step[OF assms k0(1) _ _ _ _ _ v(2) lt inv])
        (use i cs(1,3) c(2) dm v(1) b in \<open>auto simp: x0_def block_at_def\<close>)
  qed
  ultimately obtain s where s: "foldM (\<lambda>i (r, p, h). if r < 0 then Some (r, p, h) else serialize_step n (live_area x) i p h) [0..<visited x] (0, Ptr a [], h0) = Some s"
      "loop_inv n M x0 cs (visited x) s"
    using foldM_upt_inv[of "loop_inv n M x0 cs" "(0, Ptr a [], h0)" "visited x" "\<lambda>i (r, p, h). if r < 0 then Some (r, p, h) else serialize_step n (live_area x) i p h"]
    by blast
  show "\<exists>a' x' h'. im_serialize n (Ptr a []) h = Some (int (serialized_size c), Ptr a' [], h') \<and> block_at (M |` (- set as)) a' x' h'
       \<and> obj_content n h' x' = Some (c, []) \<and> obj_size x' = serialized_size c \<and> shell x' = shell x"
  proof -
    define off where "off = fold place (map fst cs) 0"
    obtain a1 y h1 sz att where y: "s = (0, Ptr a1 [], h1)" "block_at (M |` (- set as)) a1 y h1" "shell y = shell x" "area y = (sz, off, att)"
        "\<forall>k \<in> fst ` set att. k < off" "\<And>j. j < visited x \<Longrightarrow> \<exists>len v. slot y j = Some (len, v) \<and> value_content n h1 att len v = Some (fst (cs ! j), [])"
      using s(2) unfolding loop_inv_def by (auto simp: cs(1,3) off_def x0_def)
    have ky: "visited y = visited x" "base_size y = base_size x" "is_hash y \<or> is_vector y"
      using shell_sizes[OF y(3)] shell_kind[OF y(3)] kind by auto
    obtain a2 h2 where 2: "realloc (Ptr a1 []) h1 = Some (Some (Ptr a2 []), h2)" "block_at (M |` (- set as)) a2 y h2" using block_at_realloc[OF y(2)] by blast
    define z where "z = put_area (off, off, att) y"
    obtain h3 where 3: "store (Ptr a2 []) z h2 = Some h3" "block_at (M |` (- set as)) a2 z h3" using block_at_store[OF 2(2)] by blast
    have az: "area z = (off, off, att)" using ky(3) by (cases y) (simp_all add: z_def)
    have "int32 (int (base_size y + off)) = int (serialized_size c)" using c(4) size ky(2) by (simp add: int32_def off_def)
    then have "im_serialize n (Ptr a []) h = Some (int (serialized_size c), Ptr a2 [], h3)"
      using block_at_load[OF b] h0(1) s(1) y(1,4) 2(1) block_at_load[OF 2(2)] 3(1)
      by (simp add: im_serialize.simps x0_def z_def del: load.simps store.simps)
    moreover have "obj_content n h3 z = Some (c, [])"
      unfolding obj_content_iff
    proof (intro exI[of _ "map (\<lambda>p. (fst p, [])) cs"] conjI allI impI)
      show "c = Node (shell z) (map fst (map (\<lambda>p. (fst p, [] :: addr list)) cs))" by (simp add: cs(2) z_def y(3) comp_def)
      fix j assume "j < visited z"
      then have j: "j < visited x" using ky(1) by (simp add: z_def)
      with y(6) obtain len v where v: "slot y j = Some (len, v)" "value_content n h1 att len v = Some (fst (cs ! j), [])" by blast
      moreover have "value_content n h3 att len v = Some (fst (cs ! j), [])" using content_same(1)[OF v(2)] by simp
      ultimately show "\<exists>len v. slot z j = Some (len, v) \<and> value_content n h3 (live_area z) len v = Some (map (\<lambda>p. (fst p, [])) cs ! j)"
        using j cs(1) live_area_all[OF az y(5)] by (simp add: z_def)
    qed (use cs(1) ky(1) in \<open>auto simp: z_def comp_def concat_eq_Nil_conv\<close>)
    moreover have "obj_size z = serialized_size c" "shell z = shell x" using az size ky(2) y(3) by (simp_all add: obj_size_def off_def z_def)
    ultimately show ?thesis using 3(2) by blast
  qed
qed

lemma serializes_all: "serializes n"
  by (induction n) (auto intro: serializes_step)

end
