(* ===== verification/Im_Duplicate.thy ===== *)
theory Im_Duplicate
  imports Im_Serialize
begin

text \<open>
  Duplication of tables and vectors (\<^verbatim>\<open>im_hashtable.c\<close>, \<^verbatim>\<open>im_vector.c\<close>). The block is copied, and then the objects that
  the buckets of the original own are replaced by copies, so that the new object takes over the old ones.

  The size of the copy is computed for an array of one bucket in the structure, where the array has none:
  the copy is one bucket short. The functions have the same text for both kinds of objects, up to a condition in
  the error path.
\<close>

fun bucket_size :: "obj \<Rightarrow> nat" where
  "bucket_size (HashObj _ _) = 128"
| "bucket_size (VecObj _ _) = 32"
| "bucket_size (Raw _) = 0"

fun capacity_of :: "obj \<Rightarrow> nat" where
  "capacity_of (HashObj t _) = number_of_buckets t"
| "capacity_of (VecObj v _) = v_number_of_buckets v"
| "capacity_of (Raw _) = 0"

fun piece_size :: "obj \<Rightarrow> nat" where
  "piece_size (Raw b) = length b"
| "piece_size x = obj_size x"

text \<open>
  What the copy of all bytes but those of one bucket holds: without an attached area the last bucket is missing, with one
  of sufficient size its last pieces are.
\<close>

fun without_bucket :: "obj \<Rightarrow> obj" where
  "without_bucket (HashObj t att) = HashObj (t\<lparr>buckets := butlast (buckets t)\<rparr>) att"
| "without_bucket (VecObj v att) = VecObj (v\<lparr>v_buckets := butlast (v_buckets v)\<rparr>) att"
| "without_bucket (Raw b) = Raw b"

definition short_copy :: "obj \<Rightarrow> obj" where
  "short_copy x =
     (case area x of (sz, off, att) \<Rightarrow>
      if sz < bucket_size x then without_bucket (put_area (sz, off, []) x)
      else put_area (sz, off, filter (\<lambda>(o', y). o' + piece_size y + bucket_size x \<le> sz) att) x)"

text \<open>The copy of an external string or block, of \<open>sz\<close> bytes into a new block of \<open>len\<close> bytes\<close>

definition copy_bytes :: "nat \<Rightarrow> nat \<Rightarrow> ptr \<Rightarrow> heap \<Rightarrow> (ptr option \<times> heap) option" where
  "copy_bytes len sz q h =
     (case alloc (Raw (replicate len NUL)) h of
        (None, h) \<Rightarrow> Some (None, h)
      | (Some q', h) \<Rightarrow> do {
          b \<leftarrow> load_bytes h q;
          if length b < sz \<or> len < sz then None
          else do { h \<leftarrow> store q' (Raw (take sz b @ replicate (len - sz) NUL)) h; Some (Some q', h) } })"

text \<open>
  \<^verbatim>\<open>copy_bucket\<close> on the length and value of a bucket of the original. For an attached object it reads the offset as
  a pointer, which is undefined. \<open>dup_buckets\<close> is the loop: it counts the buckets done.
\<close>

function (sequential) copy_bucket :: "nat \<Rightarrow> nat \<Rightarrow> im_value \<Rightarrow> heap \<Rightarrow> (int \<times> im_value \<times> heap) option"
  and dup_buckets :: "nat \<Rightarrow> ptr \<Rightarrow> nat list \<Rightarrow> heap \<Rightarrow> (int \<times> nat \<times> heap) option"
  and im_duplicate :: "nat \<Rightarrow> ptr \<Rightarrow> heap \<Rightarrow> (ptr option \<times> heap) option"
where
  "copy_bucket 0 len v h = None"
| "copy_bucket (Suc n) len v h =
     (case v of
        IM_EXTERNAL_STRING sz q \<Rightarrow> (case copy_bytes len sz q h of None \<Rightarrow> None
          | Some (None, h) \<Rightarrow> Some (-1, v, h) | Some (Some q, h) \<Rightarrow> Some (0, IM_EXTERNAL_STRING len q, h))
      | IM_EXTERNAL_BLOCK sz q \<Rightarrow> (case copy_bytes len sz q h of None \<Rightarrow> None
          | Some (None, h) \<Rightarrow> Some (-1, v, h) | Some (Some q, h) \<Rightarrow> Some (0, IM_EXTERNAL_BLOCK len q, h))
      | IM_EXTERNAL_NESTED sz q \<Rightarrow> (case load_hash h q of None \<Rightarrow> None | Some _ \<Rightarrow>
          case im_duplicate n q h of None \<Rightarrow> None
          | Some (None, h) \<Rightarrow> Some (-1, v, h) | Some (Some q, h) \<Rightarrow> Some (0, IM_EXTERNAL_NESTED len q, h))
      | IM_EXTERNAL_VECTOR sz q \<Rightarrow> (case load_vector h q of None \<Rightarrow> None | Some _ \<Rightarrow>
          case im_duplicate n q h of None \<Rightarrow> None
          | Some (None, h) \<Rightarrow> Some (-1, v, h) | Some (Some q, h) \<Rightarrow> Some (0, IM_EXTERNAL_VECTOR len q, h))
      | IM_ATTACHED_NESTED sz off \<Rightarrow> None
      | IM_ATTACHED_VECTOR sz off \<Rightarrow> None
      | _ \<Rightarrow> Some (0, v, h))"
| "dup_buckets n p [] h = Some (0, 0, h)"
| "dup_buckets n p (i # js) h =
     (case load h p of None \<Rightarrow> None | Some x \<Rightarrow>
      case slot x i of None \<Rightarrow> None | Some (len, v) \<Rightarrow>
      case copy_bucket n len v h of None \<Rightarrow> None | Some (r, v, h) \<Rightarrow>
      case store p (put_slot i len v x) h of None \<Rightarrow> None | Some h \<Rightarrow>
      if r < 0 then Some (-1, i, h) else dup_buckets n p js h)"
| "im_duplicate n p h =
     (case load h p of None \<Rightarrow> None | Some x \<Rightarrow>
      if capacity_of x = 0 then (if oom h (brk h) then Some (None, h\<lparr>brk := Suc (brk h)\<rparr>) else None)
      else case alloc (short_copy x) h of
          (None, h) \<Rightarrow> Some (None, h)
        | (Some q, h) \<Rightarrow>
            (case dup_buckets n p [0..<capacity_of x] h of None \<Rightarrow> None
             | Some (r, i, h) \<Rightarrow>
                 if 0 \<le> r then Some (Some q, h)
                 else (case foldM (\<lambda>i h. if is_hash x then free_bucket n q i h else v_free_bucket n q i h) (rev [0..<i]) h of
                     None \<Rightarrow> None
                   | Some h \<Rightarrow> if is_hash x then (case free q h of None \<Rightarrow> None | Some h \<Rightarrow> Some (None, h))
                       else Some (None, h))))"
  by pat_completeness auto
termination
  by (relation "measures [\<lambda>x. case x of Inl (n, _) \<Rightarrow> 3 * n | Inr (Inl (n, _)) \<Rightarrow> 3 * n + 1 | Inr (Inr (n, _)) \<Rightarrow> 3 * n + 2,
      \<lambda>x. case x of Inr (Inl (_, _, js, _)) \<Rightarrow> length js | _ \<Rightarrow> 0]") auto

declare copy_bucket.simps [simp del] dup_buckets.simps [simp del] im_duplicate.simps [simp del]

definition im_duplicate_hashtable :: "nat \<Rightarrow> ptr \<Rightarrow> heap \<Rightarrow> (ptr option \<times> heap) option" where
  "im_duplicate_hashtable n p h = do { (t, att) \<leftarrow> load_hash h p; im_duplicate n p h }"

definition im_duplicate_vector :: "nat \<Rightarrow> ptr \<Rightarrow> heap \<Rightarrow> (ptr option \<times> heap) option" where
  "im_duplicate_vector n p h = do { (v, att) \<leftarrow> load_vector h p; im_duplicate n p h }"

section \<open>The copy is one bucket short\<close>

lemma copy_inline: "inline_value v \<Longrightarrow> copy_bucket (Suc n) len v h = Some (0, v, h)"
  by (cases v) (simp_all add: copy_bucket.simps)

lemma dup_inline:
  assumes "cells h a = Some (HashObj t att)" "\<forall>b \<in> set (buckets t). inline_value (bucket_value b)" "set js \<subseteq> {..<length (buckets t)}"
  shows "dup_buckets (Suc n) (Ptr a []) js h = Some (0, 0, h)"
  using assms(3)
proof (induction js)
  case (Cons i js)
  have "h\<lparr>cells := (cells h)(a \<mapsto> HashObj t att)\<rparr> = h" using assms(1) by (auto intro!: heap.equality)
  moreover have s: "slot (HashObj t att) i = Some (value_length (buckets t ! i), bucket_value (buckets t ! i))" using Cons.prems by simp
  moreover have "inline_value (bucket_value (buckets t ! i))" using assms(2) Cons.prems by simp
  ultimately show ?case using Cons assms(1) put_slot_same[OF s] by (simp add: dup_buckets.simps copy_inline del: put_slot.simps)
qed (simp add: dup_buckets.simps)

lemma destroy_short:
  assumes "cells h a = Some (HashObj t att)" "number_of_buckets t = Suc (length (buckets t))" "\<forall>b \<in> set (buckets t). inline_value (bucket_value b)"
  shows "im_destroy_hashtable n (Ptr a []) h = None"
proof (cases n)
  case (Suc m)
  have l: "load_hash h (Ptr a []) = Some (t, att)" using assms(1) by (simp add: load_hash_def)
  have "free_bucket n (Ptr a []) i h = Some h" if "i < length (buckets t)" for i
  proof -
    have "inline_value (bucket_value (buckets t ! i))" using assms(3) that by simp
    with l that show ?thesis by (cases "bucket_value (buckets t ! i)") (simp_all add: Suc free_bucket.simps)
  qed
  then have "foldM (\<lambda>i h. free_bucket n (Ptr a []) i h) [0..<length (buckets t)] h = Some h"
    using foldM_upt_inv[of "\<lambda>_ g. g = h" h "length (buckets t)" "\<lambda>i h. free_bucket n (Ptr a []) i h"] by auto
  moreover have "free_bucket n (Ptr a []) (length (buckets t)) h = None" using l by (simp add: Suc free_bucket.simps)
  ultimately show ?thesis using l assms(2) by (simp add: im_destroy_hashtable_def im_destroy_hashtable_with_info.simps foldM_append)
qed (use assms in \<open>simp add: im_destroy_hashtable_def im_destroy_hashtable_with_info.simps free_bucket.simps load_hash_def upt_rec\<close>)

text \<open>
  Duplicating a table without an attached area gives a table whose last bucket lies behind its block, though the counters
  still include it: destroying the duplicate reads it (C39).
\<close>

theorem duplicate_too_short:
  assumes "cells h a = Some (HashObj t [])" "attached_size t = 0" "number_of_buckets t = length (buckets t)" "buckets t \<noteq> []"
    and "\<forall>b \<in> set (buckets t). inline_value (bucket_value b)" "\<not> oom h (brk h)" "heap_ok h"
  shows "\<exists>q h'. im_duplicate_hashtable (Suc n) (Ptr a []) h = Some (Some q, h')
    \<and> load_hash h' q = Some (t\<lparr>buckets := butlast (buckets t)\<rparr>, [])
    \<and> load_hash h' (Ptr a []) = Some (t, [])
    \<and> (\<forall>m. im_destroy_hashtable m q h' = None)"
proof -
  let ?t = "t\<lparr>buckets := butlast (buckets t)\<rparr>"
  let ?h = "h\<lparr>cells := (cells h)(brk h \<mapsto> HashObj ?t []), brk := Suc (brk h)\<rparr>"
  have a: "a < brk h" using assms(1,7) by (auto simp: heap_ok_def)
  have sc: "short_copy (HashObj t []) = HashObj ?t []" by (simp add: short_copy_def assms(2))
  have "cells ?h a = Some (HashObj t [])" using a assms(1) by simp
  then have d: "dup_buckets (Suc n) (Ptr a []) [0..<length (buckets t)] ?h = Some (0, 0, ?h)"
    by (rule dup_inline) (use assms(5) in auto)
  have "im_duplicate_hashtable (Suc n) (Ptr a []) h = Some (Some (Ptr (brk h) []), ?h)"
    using assms(1,3,4,6) d sc by (simp add: im_duplicate_hashtable_def im_duplicate.simps load_hash_def alloc_def)
  moreover have "im_destroy_hashtable m (Ptr (brk h) []) ?h = None" for m
    by (rule destroy_short[where t = ?t]) (use assms(3,4,5) in \<open>auto dest: in_set_butlastD\<close>)
  ultimately show ?thesis using a assms(1) by (auto simp: load_hash_def)
qed

theorem duplicate_too_short_witness:
  "\<exists>q h'. im_duplicate_hashtable 1 (Ptr 0 [])
      \<lparr>cells = [0 \<mapsto> HashObj (fresh_table 3) []], brk = 1, oom = (\<lambda>_. False)\<rparr> = Some (Some q, h')
    \<and> load_hash h' q = Some ((fresh_table 3)\<lparr>buckets := replicate 2 empty_bucket\<rparr>, [])
    \<and> im_destroy_hashtable 1 q h' = None"
proof -
  let ?h = "\<lparr>cells = [0 \<mapsto> HashObj (fresh_table 3) []], brk = 1, oom = (\<lambda>_. False)\<rparr>"
  have "butlast (buckets (fresh_table 3)) = replicate 2 empty_bucket" by (simp add: fresh_table_def numeral_3_eq_3 numeral_2_eq_2)
  moreover have "heap_ok ?h" by (auto simp: heap_ok_def split: if_splits)
  ultimately show ?thesis
    using duplicate_too_short[of ?h 0 "fresh_table 3" 0] by (auto simp: fresh_table_def empty_bucket_def)
qed

end
