(* ===== verification/Dict_Serialize.thy ===== *)
theory Dict_Serialize
  imports Im_Serialize_Correct Im_Duplicate Beai3Dict
begin

text \<open>
  \<^verbatim>\<open>SerializeDict\<close> of the programming interface, and what serialisation does to a dictionary.
\<close>

section \<open>SerializeDict\<close>

definition SerializeDict :: "nat \<Rightarrow> handle option \<Rightarrow> heap \<Rightarrow> (int \<times> handle option \<times> heap) option" where
  "SerializeDict n handle h =
     (case handle of
        None \<Rightarrow> Some (-1, handle, h)
      | Some None \<Rightarrow> Some (0, handle, h)
      | Some (Some p) \<Rightarrow> do { (r, p, h) \<leftarrow> im_serialize_hashtable n p h; Some (r, Some (Some p), h) })"

lemma shell_HashObj: "shell x = shell (HashObj t att) \<Longrightarrow> \<exists>t' att'. x = HashObj t' att' \<and> number_of_buckets t' = number_of_buckets t
    \<and> length (buckets t') = length (buckets t) \<and> (\<forall>i < length (buckets t). bucket_key (buckets t' ! i) = bucket_key (buckets t ! i))"
proof (cases x)
  case (HashObj t' att')
  assume s: "shell x = shell (HashObj t att)"
  then have e: "t'\<lparr>attached_size := 0, attached_offset := 0, buckets := map blank_bucket (buckets t')\<rparr>
      = t\<lparr>attached_size := 0, attached_offset := 0, buckets := map blank_bucket (buckets t)\<rparr>" by (simp add: HashObj)
  have N: "number_of_buckets t' = number_of_buckets t" using arg_cong[OF e, of number_of_buckets] by simp
  have bs: "map blank_bucket (buckets t') = map blank_bucket (buckets t)" using arg_cong[OF e, of buckets] by simp
  then have l: "length (buckets t') = length (buckets t)" by (rule map_eq_imp_length_eq)
  have "bucket_key (buckets t' ! i) = bucket_key (buckets t ! i)" if i: "i < length (buckets t)" for i
    using arg_cong[OF bs, of "\<lambda>l. bucket_key (l ! i)"] i l by (simp add: blank_bucket_def)
  with HashObj N l show ?thesis by blast
qed simp_all

lemma content_empty: "value_content n h att len v = Some (c, as) \<Longrightarrow> v = IM_EMPTY \<longleftrightarrow> c = Scalar IM_EMPTY"
  by (cases n; cases v) (auto simp: value_content.simps bytes_content_def block_content_iff piece_content_iff obj_content_iff split: option.splits if_splits)

text \<open>Tables with the same contents find keys in the same buckets.\<close>

lemma same_find:
  assumes "obj_content n h (HashObj t att) = Some (c, as)" "obj_content m h' (HashObj t' att') = Some (c, as')"
  shows "im_find_element t' k = im_find_element t k"
proof -
  obtain cs where cs: "length cs = number_of_buckets t" "c = Node (shell (HashObj t att)) (map fst cs)"
      "\<And>i. i < number_of_buckets t \<Longrightarrow> \<exists>len v. slot (HashObj t att) i = Some (len, v) \<and> value_content n h (live_area (HashObj t att)) len v = Some (cs ! i)"
    using assms(1) unfolding obj_content_iff by auto
  obtain ds where ds: "length ds = number_of_buckets t'" "c = Node (shell (HashObj t' att')) (map fst ds)"
      "\<And>i. i < number_of_buckets t' \<Longrightarrow> \<exists>len v. slot (HashObj t' att') i = Some (len, v) \<and> value_content m h' (live_area (HashObj t' att')) len v = Some (ds ! i)"
    using assms(2) unfolding obj_content_iff by auto
  have sh: "shell (HashObj t' att') = shell (HashObj t att)" "map fst ds = map fst cs" using cs(2) ds(2) by auto
  from shell_HashObj[OF sh(1)] have t': "number_of_buckets t' = number_of_buckets t"
      "\<And>i. i < length (buckets t) \<Longrightarrow> bucket_key (buckets t' ! i) = bucket_key (buckets t ! i)" by auto
  have same: "bucket_key (buckets t' ! i) = bucket_key (buckets t ! i)
      \<and> (bucket_value (buckets t' ! i) = IM_EMPTY \<longleftrightarrow> bucket_value (buckets t ! i) = IM_EMPTY)" if i: "i < number_of_buckets t" for i
  proof -
    have f: "fst (ds ! i) = fst (cs ! i)" using arg_cong[OF sh(2), of "\<lambda>l. l ! i"] i cs(1) ds(1) t'(1) by simp
    obtain len v where v: "slot (HashObj t att) i = Some (len, v)" "value_content n h (live_area (HashObj t att)) len v = Some (fst (cs ! i), snd (cs ! i))"
      using cs(3)[OF i] by auto
    obtain len' v' where v': "slot (HashObj t' att') i = Some (len', v')" "value_content m h' (live_area (HashObj t' att')) len' v' = Some (fst (cs ! i), snd (ds ! i))"
      using ds(3)[of i] i t'(1) f by (metis prod.collapse)
    have "v = IM_EMPTY \<longleftrightarrow> v' = IM_EMPTY" using content_empty[OF v(2)] content_empty[OF v'(2)] by simp
    then show ?thesis using v(1) v'(1) t'(2)[of i] by (auto split: if_splits)
  qed
  show ?thesis unfolding im_find_element_def t'(1) by (rule probe_loop_cong) (use same in auto)
qed

lemma block_at_heap:
  "cells h a = Some x \<Longrightarrow> heap_ok h \<Longrightarrow> \<forall>z. \<not> oom h z \<Longrightarrow> block_at ((cells h)(a := None)) a x h"
  by (auto simp: block_at_def heap_ok_def fun_eq_iff not_less[symmetric])

text \<open>
  \<^verbatim>\<open>SerializeDict\<close>. A dictionary with nested dictionaries, arrays, strings and blocks, in blocks of their own or attached
  from an earlier call, becomes one block: everything it owned is freed, the rest of memory is as
  before, its size is the result, its contents are the same and keys are found in the same buckets. Destroying it then
  frees this block only (C3).
\<close>

theorem serialize_keeps_contents:
  assumes a: "cells h a = Some (HashObj t att)" "heap_ok h" "\<forall>z. \<not> oom h z"
    and c: "obj_content n h (HashObj t att) = Some (c, as)" "distinct as" "a \<notin> set as" "serialized_size c < 2 ^ 31"
  shows "\<exists>a' t' att' h'. SerializeDict n (Some (Some (Ptr a []))) h = Some (int (serialized_size c), Some (Some (Ptr a' [])), h')
    \<and> cells h' = (cells h |` (- insert a (set as)))(a' \<mapsto> HashObj t' att')
    \<and> obj_content n h' (HashObj t' att') = Some (c, [])
    \<and> hash_size (number_of_buckets t') + attached_size t' = serialized_size c
    \<and> (\<forall>k. im_find_element t' k = im_find_element t k)
    \<and> map_option cells (im_destroy_hashtable n (Ptr a' []) h') = Some (cells h |` (- insert a (set as)))"
proof -
  let ?M = "(cells h)(a := None)"
  have b: "block_at ?M a (HashObj t att) h" by (rule block_at_heap[OF a])
  obtain a' x' h' where s: "im_serialize n (Ptr a []) h = Some (int (serialized_size c), Ptr a' [], h')" "block_at (?M |` (- set as)) a' x' h'"
      "obj_content n h' x' = Some (c, [])" "obj_size x' = serialized_size c" "shell x' = shell (HashObj t att)"
    using serializesD[OF serializes_all b _ c] by auto
  obtain t' att' where x': "x' = HashObj t' att'" using shell_HashObj[OF s(5)] by blast
  have M: "?M |` (- set as) = cells h |` (- insert a (set as))" by (auto simp: restrict_map_def fun_eq_iff)
  note s2 = s(2)[unfolded M x']
  have "SerializeDict n (Some (Some (Ptr a []))) h = Some (int (serialized_size c), Some (Some (Ptr a' [])), h')"
    using s(1) a(1) by (simp add: SerializeDict_def im_serialize_hashtable_def load_hash_def)
  moreover have cs: "cells h' = (cells h |` (- insert a (set as)))(a' \<mapsto> HashObj t' att')" using s2 by (simp add: block_at_def)
  moreover have "obj_content n h' (HashObj t' att') = Some (c, [])" using s(3) x' by simp
  moreover have "hash_size (number_of_buckets t') + attached_size t' = serialized_size c" using s(4) by (simp add: x' obj_size_def)
  moreover have "im_find_element t' k = im_find_element t k" for k using same_find[OF c(1)] s(3) x' by blast
  moreover have "map_option cells (im_destroy_hashtable n (Ptr a' []) h') = Some (cells h |` (- insert a (set as)))"
  proof -
    have "hash_fp n h' (Ptr a' []) = Some []" using content_fp(2)[OF s(3) block_at_load[OF s(2)]] by (simp add: x')
    then have "im_destroy_hashtable n (Ptr a' []) h' = free (Ptr a' []) h'"
      using destroy_hash_release[OF frees_buckets, of n h' "Ptr a' []" "[]" h'] by (simp add: im_destroy_hashtable_def destroy_external same_on_def)
    then show ?thesis using s2 cs by (auto simp: block_at_def fun_eq_iff restrict_map_def)
  qed
  ultimately show ?thesis by blast
qed

text \<open>A dictionary with a long string, a nested dictionary and a string attached earlier\<close>

definition demo_inner :: im_hashtable where
  "demo_inner = \<lparr>number_of_buckets = 1, inuse = 1, empty = 0, attached_size = 0, attached_offset = 0,
     buckets = [\<lparr>bucket_key = ''x'', value_length = 4, bucket_value = IM_INT 7\<rparr>]\<rparr>"

definition demo_outer :: im_hashtable where
  "demo_outer = \<lparr>number_of_buckets = 3, inuse = 3, empty = 0, attached_size = 20, attached_offset = 20,
     buckets = [\<lparr>bucket_key = ''s'', value_length = 18, bucket_value = IM_EXTERNAL_STRING 18 (Ptr 0 [])\<rparr>,
       \<lparr>bucket_key = ''d'', value_length = 8, bucket_value = IM_EXTERNAL_NESTED 8 (Ptr 1 [])\<rparr>,
       \<lparr>bucket_key = ''a'', value_length = 20, bucket_value = IM_ATTACHED_BLOCK 20 0\<rparr>]\<rparr>"

definition demo_heap :: heap where
  "demo_heap = \<lparr>cells = [0 \<mapsto> Raw (replicate 18 (CHR ''s'')), 1 \<mapsto> HashObj demo_inner [],
     2 \<mapsto> HashObj demo_outer [(0, Raw (replicate 20 (CHR ''b'')))]], brk = 3, oom = (\<lambda>_. False)\<rparr>"

definition demo_content :: content where
  "demo_content = Node (shell (HashObj demo_outer []))
     [Bytes True (replicate 18 (CHR ''s'')), Node (shell (HashObj demo_inner [])) [Scalar (IM_INT 7)], Bytes False (replicate 20 (CHR ''b''))]"

lemma demo_obj_content: "obj_content 2 demo_heap (HashObj demo_outer [(0, Raw (replicate 20 (CHR ''b'')))]) = Some (demo_content, [0, 1])"
  by (simp add: demo_outer_def demo_inner_def demo_heap_def demo_content_def obj_content.simps value_content.simps numeral_2_eq_2 numeral_3_eq_3
      block_content_def bytes_content_def piece_content_def live_area_def)

theorem serialize_keeps_contents_witness:
  "\<exists>a' t' att' h'. SerializeDict 2 (Some (Some (Ptr 2 []))) demo_heap = Some (620, Some (Some (Ptr a' [])), h')
    \<and> cells h' = [a' \<mapsto> HashObj t' att'] \<and> obj_content 2 h' (HashObj t' att') = Some (demo_content, [])"
proof -
  have "serialized_size demo_content = 620"
    by (simp add: serialized_size_def demo_content_def demo_outer_def demo_inner_def im_align_offset_def sizeof_value_def hash_size_def)
  moreover have "heap_ok demo_heap" by (auto simp: heap_ok_def demo_heap_def split: if_splits)
  moreover have "cells demo_heap |` (- {2, 0, 1}) = Map.empty" by (auto simp: demo_heap_def restrict_map_def fun_eq_iff)
  ultimately show ?thesis
    using serialize_keeps_contents[OF _ _ _ demo_obj_content, of 2] by (simp add: demo_heap_def) blast
qed

end
