(* ===== verification/Bas_Idno.thy ===== *)
theory Bas_Idno
  imports Bas_String "HOL-Library.Signed_Division"
begin

text \<open>
  Check digits of account numbers and identity numbers, \<^verbatim>\<open>bas_string.c\<close>: the account number ends with the digit
  that makes the sum of Luhn's method a multiple of 10, the identity number of 18 places with a digit or an X
  from a weighted sum modulo 11. Identity numbers of 15 places lack the century and the check digit.

  Buffers are as in \<open>C_Buffer\<close>; an access outside is \<open>None\<close>.
\<close>

section \<open>Account numbers\<close>

abbreviation digit_of :: "char \<Rightarrow> int" where
  "digit_of c \<equiv> schar c - 48"

text \<open>The loop that ends the number at a blank or at the terminator\<close>

fun card_length :: "buffer \<Rightarrow> nat \<Rightarrow> nat option" where
  "card_length b 0 = Some 0"
| "card_length [] (Suc n) = None"
| "card_length (c # b) (Suc n) = (if c = CHR '' '' \<or> c = NUL then Some 0 else map_option Suc (card_length b n))"

definition doubled :: "char \<Rightarrow> int" where
  "doubled c = (let t = digit_of c * 2 in t sdiv 10 + t smod 10)"

text \<open>The sum over the places from \<open>k - 1\<close> down\<close>

fun act_sum :: "buffer \<Rightarrow> nat \<Rightarrow> int" where
  "act_sum b 0 = 0"
| "act_sum b (Suc 0) = doubled (b ! 0)"
| "act_sum b (Suc (Suc k)) = doubled (b ! Suc k) + digit_of (b ! k) + act_sum b k"

definition check_bit :: "int \<Rightarrow> char" where
  "check_bit iSum = (if iSum smod 10 = 0 then CHR ''0'' else char_of (nat ((58 - iSum smod 10) mod 256)))"

definition basChkActBit :: "buffer \<Rightarrow> nat \<Rightarrow> (int \<times> buffer) option" where
  "basChkActBit pcaActno iCardLen = do {
     n \<leftarrow> card_length pcaActno iCardLen;
     if n = 0 then None
     else do {
       let cBit = check_bit (act_sum pcaActno (n - 1));
       let cOrgBit = pcaActno ! (n - 1);
       Some (if cOrgBit = cBit then 1 else 0, pcaActno[n - 1 := cBit]) } }"

section \<open>Identity numbers\<close>

definition miaWi :: "int list" where
  "miaWi = [7, 9, 10, 5, 8, 4, 2, 1, 6, 3, 7, 9, 10, 5, 8, 4, 2, 1]"

definition mcaVer :: "char list" where
  "mcaVer = ''10X98765432'' @ [NUL]"

definition weighted_sum :: "buffer \<Rightarrow> int" where
  "weighted_sum b = (\<Sum>i \<leftarrow> [0..<17]. digit_of (b ! i) * miaWi ! i)"

definition basIdno18GenCheckVal :: "buffer \<Rightarrow> (char \<times> buffer) option" where
  "basIdno18GenCheckVal pcaIdno =
     (if length pcaIdno < 18 then None
      else let i = weighted_sum pcaIdno smod 11
        in if i < 0 then None else Some (mcaVer ! nat i, pcaIdno[17 := mcaVer ! nat i]))"

definition basIdno18IsValid :: "buffer \<Rightarrow> buffer \<Rightarrow> bool option" where
  "basIdno18IsValid junk pcaIdno = do {
     caTmp \<leftarrow> buf_strcpy junk pcaIdno;
     (c, caTmp) \<leftarrow> basIdno18GenCheckVal caTmp;
     d \<leftarrow> buf_load pcaIdno 17;
     Some (caTmp ! 17 = d) }"

definition basIdno18To15 :: "buffer \<Rightarrow> buffer option" where
  "basIdno18To15 pcaIdno = do {
     caTmp \<leftarrow> buf_copy (replicate 16 NUL) 0 pcaIdno 6;
     caTmp \<leftarrow> buf_copy caTmp 6 (drop 8 pcaIdno) 6;
     caTmp \<leftarrow> buf_copy caTmp 12 (drop 14 pcaIdno) 3;
     buf_strcpy pcaIdno caTmp }"

definition basIdno15To18 :: "buffer \<Rightarrow> buffer option" where
  "basIdno15To18 pcaIdno = do {
     caTmp \<leftarrow> buf_copy (replicate 19 NUL) 0 pcaIdno 6;
     let caTmp = caTmp[6 := CHR ''1'', 7 := CHR ''9''];
     caTmp \<leftarrow> buf_copy caTmp 8 (drop 6 pcaIdno) 9;
     (_, caTmp) \<leftarrow> basIdno18GenCheckVal caTmp;
     buf_strcpy pcaIdno caTmp }"

text \<open>The part of the comparison that brings an identity number to 18 places with a capital X\<close>

definition normal_idno :: "buffer \<Rightarrow> buffer option" where
  "normal_idno caTmp = do {
     n \<leftarrow> buf_strlen caTmp;
     caTmp \<leftarrow> (if n = 15 then basIdno15To18 caTmp else Some caTmp);
     Some (if caTmp ! 17 = CHR ''x'' then caTmp[17 := CHR ''X''] else caTmp) }"

text \<open>The type of an identity card, \<^verbatim>\<open>BAS_ID_TYPE_IDENTITY\<close>, is an argument.\<close>

definition basIsSameIdno :: "char \<Rightarrow> char \<Rightarrow> buffer \<Rightarrow> char \<Rightarrow> buffer \<Rightarrow> bool option" where
  "basIsSameIdno identity type1 pcaIdno1 type2 pcaIdno2 = do {
     caTmp1 \<leftarrow> buf_copy (replicate 26 NUL) 0 pcaIdno1 25;
     caTmp2 \<leftarrow> buf_copy (replicate 26 NUL) 0 pcaIdno2 25;
     caTmp1 \<leftarrow> basRTrim caTmp1 26;
     caTmp2 \<leftarrow> basRTrim caTmp2 26;
     if type1 \<noteq> type2 then Some False
     else do {
       caTmp1 \<leftarrow> (if type1 = identity then normal_idno caTmp1 else Some caTmp1);
       caTmp2 \<leftarrow> (if type1 = identity then normal_idno caTmp2 else Some caTmp2);
       Some (cstr caTmp1 = cstr caTmp2) } }"

definition basIsSameIdnoEcif :: "buffer \<Rightarrow> buffer \<Rightarrow> buffer \<Rightarrow> buffer \<Rightarrow> bool option" where
  "basIsSameIdnoEcif pcaIdtype1 pcaIdno1 pcaIdtype2 pcaIdno2 = do {
     caTmp1 \<leftarrow> buf_copy (replicate 26 NUL) 0 pcaIdno1 25;
     caTmp2 \<leftarrow> buf_copy (replicate 26 NUL) 0 pcaIdno2 25;
     caType1 \<leftarrow> buf_copy (replicate 6 NUL) 0 pcaIdtype1 5;
     caType2 \<leftarrow> buf_copy (replicate 6 NUL) 0 pcaIdtype2 5;
     caTmp1 \<leftarrow> basRTrim caTmp1 26;
     caTmp2 \<leftarrow> basRTrim caTmp2 26;
     caType1 \<leftarrow> basRTrim caType1 6;
     caType2 \<leftarrow> basRTrim caType2 6;
     if take 5 caType1 \<noteq> take 5 caType2 then Some False
     else do {
       let card = take 5 caType1 = ''10100'';
       caTmp1 \<leftarrow> (if card then normal_idno caTmp1 else Some caTmp1);
       caTmp2 \<leftarrow> (if card then normal_idno caTmp2 else Some caTmp2);
       Some (cstr caTmp1 = cstr caTmp2) } }"

end
