(* ===== verification/Bas_Idno_Correct.thy ===== *)
theory Bas_Idno_Correct
  imports Bas_Idno
begin

text \<open>
  The check digits agree with the methods they implement and find every single wrong digit; identity numbers of 15 and
  18 places convert into each other.
\<close>

section \<open>Digits\<close>

lemma digit_range: "is_digit c \<Longrightarrow> 0 \<le> digit_of c \<and> digit_of c \<le> 9"
  by (auto simp: is_digit_def schar_def Let_def)

lemma digit_of_eq_iff: "is_digit c \<Longrightarrow> is_digit d \<Longrightarrow> digit_of c = digit_of d \<longleftrightarrow> c = d"
  by (auto simp: is_digit_def schar_def Let_def)

lemma digit_char: "0 \<le> k \<Longrightarrow> k \<le> 9 \<Longrightarrow> is_digit (char_of (nat (48 + k))) \<and> digit_of (char_of (nat (48 + k))) = k"
  by (auto simp: is_digit_def schar_def Let_def nat_le_iff le_nat_iff)

lemma digit_neq: "is_digit c \<Longrightarrow> c \<noteq> CHR '' '' \<and> c \<noteq> NUL"
  by (auto simp: is_digit_def)

lemma not_digit_NUL: "\<not> is_digit NUL"
  by (simp add: is_digit_def)

definition digits :: "string \<Rightarrow> int list" where
  "digits s = map (\<lambda>c. digit_of c) s"

section \<open>Luhn's method\<close>

definition cross_sum :: "int \<Rightarrow> int" where
  "cross_sum d = 2 * d div 10 + 2 * d mod 10"

fun luhn_sum :: "bool \<Rightarrow> int list \<Rightarrow> int" where
  "luhn_sum dbl [] = 0"
| "luhn_sum dbl (d # ds) = (if dbl then cross_sum d else d) + luhn_sum (\<not> dbl) ds"

text \<open>From the right every second digit is doubled, and the sum of all digits is a multiple of 10.\<close>

definition luhn_ok :: "string \<Rightarrow> bool" where
  "luhn_ok s \<longleftrightarrow> luhn_sum False (rev (digits s)) mod 10 = 0"

lemma doubled_digit: "is_digit c \<Longrightarrow> doubled c = cross_sum (digit_of c)"
  using digit_range[of c] by (simp add: doubled_def cross_sum_def Let_def signed_divide_int_def signed_modulo_int_def sgn_if mult.commute)

lemma act_sum_luhn: "\<forall>c \<in> set s. is_digit c \<Longrightarrow> act_sum (s @ r) (length s) = luhn_sum True (rev (digits s))"
proof (induction s arbitrary: r rule: length_induct)
  case (1 s)
  show ?case
  proof (cases s rule: rev_cases)
    case (snoc t y)
    show ?thesis
    proof (cases t rule: rev_cases)
      case Nil
      then show ?thesis using snoc 1(2) by (simp add: digits_def doubled_digit)
    next
      case (snoc u x)
      with \<open>s = t @ [y]\<close> have s: "s = u @ [x, y]" by simp
      with 1 have "act_sum (u @ x # y # r) (length u) = luhn_sum True (rev (digits u))" by simp
      with 1(2) s show ?thesis by (simp add: digits_def nth_append doubled_digit)
    qed
  qed (simp add: digits_def)
qed

lemma luhn_snoc: "luhn_sum False (rev (digits (s @ [c]))) = digit_of c + luhn_sum True (rev (digits s))"
  by (simp add: digits_def)

lemma luhn_nonneg: "\<forall>d \<in> set ds. 0 \<le> d \<Longrightarrow> 0 \<le> luhn_sum dbl ds"
  by (induction dbl ds rule: luhn_sum.induct) (auto simp: cross_sum_def)

lemma luhn_digits_nonneg: "\<forall>c \<in> set s. is_digit c \<Longrightarrow> 0 \<le> luhn_sum dbl (rev (digits s))"
  using digit_range by (intro luhn_nonneg) (auto simp: digits_def)

lemma check_bit_digit:
  assumes "0 \<le> s"
  shows "is_digit (check_bit s)" "(digit_of (check_bit s) + s) mod 10 = 0"
proof -
  have m: "s smod 10 = s mod 10" using assms by (simp add: signed_modulo_int_def signed_divide_int_def sgn_if minus_div_mult_eq_mod)
  define k where "k = (if s mod 10 = 0 then 0 else 10 - s mod 10)"
  have k: "0 \<le> k" "k \<le> 9" "(k + s) mod 10 = 0" unfolding k_def by presburger+
  have "check_bit s = char_of (nat (48 + k))"
  proof (cases "s mod 10 = 0")
    case True
    have "CHR ''0'' = char_of (48 :: nat)" using char_of_char[of "CHR ''0''", where 'a = nat] by simp
    with True show ?thesis by (simp add: check_bit_def m k_def)
  next
    case False
    have "(58 - s mod 10) mod 256 = 58 - s mod 10" by simp
    with False show ?thesis by (simp add: check_bit_def m k_def)
  qed
  with digit_char[OF k(1,2)] k(3) show "is_digit (check_bit s)" "(digit_of (check_bit s) + s) mod 10 = 0" by simp_all
qed

lemma card_length_digits: "\<forall>c \<in> set s. is_digit c \<Longrightarrow> card_length (s @ r) (length s) = Some (length s)"
  by (induction s) (auto dest: digit_neq)

lemma small_mod_eq: "(10 :: int) dvd x - y \<Longrightarrow> 0 \<le> x \<Longrightarrow> x \<le> 9 \<Longrightarrow> 0 \<le> y \<Longrightarrow> y \<le> 9 \<Longrightarrow> x = y"
  by presburger

lemma digit_unique_mod10: "is_digit c \<Longrightarrow> is_digit d \<Longrightarrow> (digit_of c + s) mod 10 = (digit_of d + s) mod 10 \<Longrightarrow> c = d"
  using small_mod_eq[of "digit_of c" "digit_of d"] digit_range[of c] digit_range[of d] digit_of_eq_iff[of c d]
  by (simp add: mod_eq_dvd_iff)

text \<open>What \<^verbatim>\<open>basChkActBit\<close> does with a number that consists of digits\<close>

lemma ChkActBit_digits:
  assumes "\<forall>c \<in> set s. is_digit c" and "is_digit d"
  shows "\<exists>c. is_digit c \<and> luhn_ok (s @ [c]) \<and> (\<forall>e. is_digit e \<longrightarrow> luhn_ok (s @ [e]) \<longrightarrow> e = c)
    \<and> basChkActBit (s @ [d] @ r) (Suc (length s)) = Some (if luhn_ok (s @ [d]) then 1 else 0, s @ [c] @ r)"
proof -
  define c where "c = check_bit (luhn_sum True (rev (digits s)))"
  have c: "is_digit c" "(digit_of c + luhn_sum True (rev (digits s))) mod 10 = 0"
    unfolding c_def by (rule check_bit_digit[OF luhn_digits_nonneg[OF assms(1)]])+
  have ok: "luhn_ok (s @ [e]) \<longleftrightarrow> e = c" if "is_digit e" for e
    unfolding luhn_ok_def luhn_snoc using c(2) digit_unique_mod10[OF that c(1), of "luhn_sum True (rev (digits s))"] by force
  have "card_length (s @ [d] @ r) (Suc (length s)) = Some (Suc (length s))"
    using card_length_digits[of "s @ [d]" r] assms by simp
  then have "basChkActBit (s @ [d] @ r) (Suc (length s)) = Some (if luhn_ok (s @ [d]) then 1 else 0, s @ [c] @ r)"
    using act_sum_luhn[OF assms(1), of "[d] @ r"] ok[OF assms(2)] by (simp add: basChkActBit_def Let_def c_def)
  then show ?thesis using c(1) ok by blast
qed

section \<open>Single errors\<close>

lemma luhn_update:
  "i < length ds \<Longrightarrow> luhn_sum dbl (ds[i := d]) - luhn_sum dbl ds
    = (if dbl = even i then cross_sum d - cross_sum (ds ! i) else d - ds ! i)"
  by (induction dbl ds arbitrary: i rule: luhn_sum.induct) (auto split: nat.splits simp: nth_Cons')

lemma cross_sum_small: "0 \<le> x \<Longrightarrow> x \<le> 9 \<Longrightarrow> cross_sum x = (if x < 5 then 2 * x else 2 * x - 9)"
proof -
  assume "0 \<le> x" "x \<le> 9"
  then have "x \<in> {0, 1, 2, 3, 4, 5, 6, 7, 8, 9}" by simp presburger
  then show ?thesis by (auto simp: cross_sum_def)
qed

lemma cross_sum_inj:
  assumes "10 dvd cross_sum x - cross_sum y" "0 \<le> x" "x \<le> 9" "0 \<le> y" "y \<le> 9"
  shows "x = y"
proof -
  have *: "(10 :: int) dvd 2 * a - 2 * b \<Longrightarrow> \<bar>a - b\<bar> \<le> 4 \<Longrightarrow> a = b" "\<not> (10 :: int) dvd 2 * a - (2 * b - 9)" "\<not> (10 :: int) dvd 2 * a - 9 - 2 * b" for a b
    by presburger+
  show ?thesis using assms(1) *[of x y] assms(2-) by (auto simp: cross_sum_small split: if_splits)
qed

lemma luhn_single_error:
  assumes s: "\<forall>c \<in> set s. is_digit c" "luhn_ok s" and j: "j < length s" "is_digit d" "d \<noteq> s ! j"
  shows "\<not> luhn_ok (s[j := d])"
proof
  assume "luhn_ok (s[j := d])"
  define ds where "ds = rev (digits s)"
  define i where "i = length s - Suc j"
  have i: "i < length ds" "ds ! i = digit_of (s ! j)" "rev (digits (s[j := d])) = ds[i := digit_of d]"
    using j(1) by (simp_all add: ds_def i_def digits_def rev_nth map_update rev_update)
  have "10 dvd luhn_sum False (ds[i := digit_of d]) - luhn_sum False ds"
    using s(2) \<open>luhn_ok (s[j := d])\<close> unfolding luhn_ok_def i(3) ds_def[symmetric] by (simp add: mod_eq_0_iff_dvd dvd_diff)
  then have "10 dvd cross_sum (digit_of d) - cross_sum (digit_of (s ! j)) \<or> 10 dvd digit_of d - digit_of (s ! j)"
    unfolding luhn_update[OF i(1)] by (auto simp: i(2) split: if_splits)
  moreover have sj: "is_digit (s ! j)" using s(1) j(1) by simp
  ultimately have "digit_of d = digit_of (s ! j)"
    using cross_sum_inj[of "digit_of d" "digit_of (s ! j)"] small_mod_eq[of "digit_of d" "digit_of (s ! j)"]
      digit_range[OF j(2)] digit_range[OF sj] by blast
  then show False using j(2,3) sj digit_of_eq_iff by blast
qed

section \<open>Identity numbers\<close>

definition idno_check :: "string \<Rightarrow> char" where
  "idno_check s = mcaVer ! nat (weighted_sum s mod 11)"

lemma weighted_sum_append: "17 \<le> length s \<Longrightarrow> weighted_sum (s @ r) = weighted_sum s"
  unfolding weighted_sum_def by (intro arg_cong[of _ _ sum_list] map_cong) (auto simp: nth_append)

lemma weighted_sum_nonneg: "length s = 17 \<Longrightarrow> \<forall>c \<in> set s. is_digit c \<Longrightarrow> 0 \<le> weighted_sum s"
proof -
  assume s: "length s = 17" "\<forall>c \<in> set s. is_digit c"
  have "0 \<le> miaWi ! i" if "i < 17" for i
    using that by (auto simp: miaWi_def nth_Cons' split: if_splits)
  moreover have "0 \<le> digit_of (s ! i)" if "i < 17" for i using digit_range s that by simp
  ultimately show ?thesis unfolding weighted_sum_def by (intro sum_list_nonneg) auto
qed

lemma GenCheckVal_digits:
  assumes "length s = 17" "\<forall>c \<in> set s. is_digit c"
  shows "basIdno18GenCheckVal (s @ [c] @ r) = Some (idno_check s, s @ [idno_check s] @ r)"
proof -
  have "0 \<le> weighted_sum s" by (rule weighted_sum_nonneg[OF assms])
  then have "weighted_sum s smod 11 = weighted_sum s mod 11"
    by (simp add: signed_modulo_int_def signed_divide_int_def sgn_if minus_div_mult_eq_mod)
  then show ?thesis using assms(1) weighted_sum_append[of s "[c] @ r"]
    by (simp add: basIdno18GenCheckVal_def Let_def idno_check_def list_update_append not_less)
qed

lemma idno_check_no_NUL: "idno_check s \<noteq> NUL"
proof -
  define i where "i = nat (weighted_sum s mod 11)"
  have "i < 11" by (simp add: i_def nat_less_iff)
  then have "i \<in> {0, 1, 2, 3, 4, 5, 6, 7, 8, 9, 10}" by simp presburger
  then show ?thesis unfolding idno_check_def i_def[symmetric] by (auto simp: mcaVer_def)
qed

lemma Idno18IsValid_digits:
  assumes "length s = 17" "\<forall>d \<in> set s. is_digit d" "c \<noteq> NUL" "length junk = 19"
  shows "basIdno18IsValid junk (s @ [c, NUL] @ r) = Some (c = idno_check s)"
proof -
  have n: "NUL \<notin> set (s @ [c])" using assms(2,3) by (auto dest: digit_neq)
  have h: "holds (s @ [c, NUL] @ r) (s @ [c])" using holdsI[OF n, of r] by simp
  have "buf_strcpy junk (s @ [c, NUL] @ r) = Some (s @ [c, NUL])"
  proof -
    have "length (s @ [c]) < length junk" "drop (Suc (length (s @ [c]))) junk = []" using assms(1,4) by simp_all
    then show ?thesis using strcpy_holds[OF h, of junk] by simp
  qed
  moreover have "basIdno18GenCheckVal (s @ [c, NUL]) = Some (idno_check s, s @ [idno_check s, NUL])"
    using GenCheckVal_digits[OF assms(1,2), of c "[NUL]"] by simp
  moreover have "(s @ [idno_check s, NUL]) ! 17 = idno_check s" "buf_load (s @ [c, NUL] @ r) 17 = Some c"
    using assms(1) by (simp_all add: nth_append buf_load_def)
  ultimately have "basIdno18IsValid junk (s @ [c, NUL] @ r) = Some (idno_check s = c)" by (simp add: basIdno18IsValid_def)
  then show ?thesis by (cases "c = idno_check s") auto
qed

lemma mcaVer_inj: "0 \<le> i \<Longrightarrow> i < 11 \<Longrightarrow> 0 \<le> j \<Longrightarrow> j < 11 \<Longrightarrow> mcaVer ! nat i = mcaVer ! nat j \<Longrightarrow> i = j"
proof -
  assume a: "0 \<le> i" "i < 11" "0 \<le> j" "j < 11" "mcaVer ! nat i = mcaVer ! nat j"
  have "distinct mcaVer" "length mcaVer = 12" by (simp_all add: mcaVer_def)
  then show "i = j" using a nth_eq_iff_index_eq[of mcaVer "nat i" "nat j"] by simp
qed

lemma weight_prime: "i < 17 \<Longrightarrow> 11 dvd x * miaWi ! i \<Longrightarrow> \<bar>x\<bar> \<le> 9 \<Longrightarrow> x = 0"
proof -
  assume a: "i < 17" "11 dvd x * miaWi ! i" "\<bar>x\<bar> \<le> 9"
  have "miaWi ! i \<in> {1, 2, 3, 4, 5, 6, 7, 8, 9, 10}" using a(1) by (auto simp: miaWi_def nth_Cons' split: if_splits)
  moreover have "11 dvd x" if "11 dvd x * w" "w \<in> {1, 2, 3, 4, 5, 6, 7, 8, 9, 10}" for w :: int
    using that(2,1) by (elim insertE emptyE; simp; presburger)
  ultimately have "11 dvd x" using a(2) by blast
  with a(3) show "x = 0" by presburger
qed

lemma weighted_sum_update:
  assumes "length s = 17" "j < 17"
  shows "weighted_sum (s[j := d]) - weighted_sum s = (digit_of d - digit_of (s ! j)) * miaWi ! j"
proof -
  have "weighted_sum t = (\<Sum>i = 0..<17. digit_of (t ! i) * miaWi ! i)" for t by (simp add: weighted_sum_def sum_list_distinct_conv_sum_set)
  then have "weighted_sum (s[j := d]) - weighted_sum s = (\<Sum>i = 0..<17. (digit_of (s[j := d] ! i) - digit_of (s ! i)) * miaWi ! i)"
    by (simp only: sum_subtractf left_diff_distrib)
  also have "\<dots> = (\<Sum>i = 0..<17. if i = j then (digit_of d - digit_of (s ! j)) * miaWi ! j else 0)"
    using assms by (intro sum.cong) (auto simp: nth_list_update)
  finally show ?thesis using assms(2) by simp
qed

lemma idno_single_error:
  assumes s: "length s = 17" "\<forall>c \<in> set s. is_digit c" and j: "j < 17" "is_digit d" "d \<noteq> s ! j"
  shows "idno_check (s[j := d]) \<noteq> idno_check s"
proof
  assume "idno_check (s[j := d]) = idno_check s"
  then have "weighted_sum (s[j := d]) mod 11 = weighted_sum s mod 11"
    unfolding idno_check_def by (rule mcaVer_inj[rotated 4]) simp_all
  then have "11 dvd (digit_of d - digit_of (s ! j)) * miaWi ! j"
    using weighted_sum_update[OF s(1) j(1), of d] by (simp add: mod_eq_dvd_iff)
  moreover have sj: "is_digit (s ! j)" using s j(1) by simp
  ultimately have "digit_of d - digit_of (s ! j) = 0"
    using digit_range[OF j(2)] digit_range[OF sj] by (intro weight_prime[OF j(1)]) auto
  then show False using j(2,3) sj digit_of_eq_iff by simp
qed

section \<open>15 and 18 places\<close>

definition idno17 :: "string \<Rightarrow> string" where
  "idno17 s = take 6 s @ ''19'' @ drop 6 s"

lemma idno17: "length s = 15 \<Longrightarrow> length (idno17 s) = 17" "\<forall>c \<in> set s. is_digit c \<Longrightarrow> \<forall>c \<in> set (idno17 s). is_digit c"
  by (auto simp: idno17_def is_digit_def dest: in_set_takeD in_set_dropD)

lemma buf_copy_at: "length xs = off \<Longrightarrow> length ys = n \<Longrightarrow> n \<le> length zs \<Longrightarrow> buf_copy (xs @ zs) off (ys @ r) n = Some (xs @ ys @ drop n zs)"
  by (simp add: buf_copy_def)

lemma Idno15To18_digits:
  assumes s: "length s = 15" "\<forall>c \<in> set s. is_digit c" and r: "3 \<le> length r"
  shows "basIdno15To18 (s @ [NUL] @ r) = Some (idno17 s @ [idno_check (idno17 s), NUL] @ drop 3 r)"
proof -
  let ?a = "take 6 s" and ?b = "drop 6 s" and ?c = "idno_check (idno17 s)"
  have l: "length ?a = 6" "length ?b = 9" "s = ?a @ ?b" using s(1) by simp_all
  have two: "replicate 2 NUL = [NUL, NUL]" by (simp add: numeral_2_eq_2)
  have z: "replicate 13 NUL = [NUL, NUL] @ replicate 11 NUL" using replicate_add[of 2 11 NUL] by (simp add: two)
  have 1: "buf_copy (replicate 19 NUL) 0 (s @ [NUL] @ r) 6 = Some (?a @ replicate 13 NUL)"
    using s(1) by (simp add: buf_copy_def)
  have 2: "(?a @ replicate 13 NUL)[6 := CHR ''1'', 7 := CHR ''9''] = (?a @ ''19'') @ replicate 11 NUL"
    unfolding z using l(1) by (simp add: list_update_append)
  have 3: "buf_copy ((?a @ ''19'') @ replicate 11 NUL) 8 (drop 6 (s @ [NUL] @ r)) 9 = Some (idno17 s @ [NUL] @ [NUL])"
    using buf_copy_at[of "?a @ ''19''" 8 ?b 9 "replicate 11 NUL" "[NUL] @ r"] l s(1) by (simp add: idno17_def two)
  have 4: "basIdno18GenCheckVal (idno17 s @ [NUL] @ [NUL]) = Some (?c, idno17 s @ [?c] @ [NUL])"
    by (rule GenCheckVal_digits[OF idno17(1)[OF s(1)] idno17(2)[OF s(2)]])
  have n: "NUL \<notin> set (idno17 s @ [?c])" using idno17(2)[OF s(2)] idno_check_no_NUL[of "idno17 s"] not_digit_NUL by auto
  have "buf_strcpy (s @ [NUL] @ r) (idno17 s @ [?c] @ [NUL]) = Some (idno17 s @ [?c, NUL] @ drop 3 r)"
    using strcpy_holds[OF holdsI[OF n, of "[]"], of "s @ [NUL] @ r"] idno17(1)[OF s(1)] s(1) r by simp
  then show ?thesis unfolding basIdno15To18_def 1 Let_def bind.bind_lunit 2 3 4 prod.case .
qed

lemma Idno18To15_digits:
  assumes s: "length s = 15" "\<forall>c \<in> set s. is_digit c"
  shows "basIdno18To15 (idno17 s @ r) = Some (s @ [NUL] @ drop 16 (idno17 s @ r))"
proof -
  let ?a = "take 6 s" and ?b = "take 6 (drop 6 s)" and ?c = "drop 12 s" and ?x = "idno17 s @ r"
  have l: "length ?a = 6" "length ?b = 6" "length ?c = 3" using s(1) by simp_all
  have bc: "drop 6 s = ?b @ ?c" using append_take_drop_id[of 6 "drop 6 s"] by simp
  have d8: "drop 8 ?x = ?b @ ?c @ r" "drop 14 ?x = ?c @ r" using l bc s(1) by (simp_all add: idno17_def)
  have z: "replicate 16 NUL = replicate 6 NUL @ replicate 10 NUL" "replicate 10 NUL = replicate 6 NUL @ replicate 4 NUL"
      "replicate 4 NUL = replicate 3 NUL @ [NUL]"
    using replicate_add[of 6 10 NUL] replicate_add[of 6 4 NUL] replicate_add[of 3 1 NUL] by simp_all
  have 1: "buf_copy (replicate 16 NUL) 0 ?x 6 = Some (?a @ replicate 10 NUL)" using s(1) l by (simp add: buf_copy_def idno17_def)
  have 2: "buf_copy (?a @ replicate 10 NUL) 6 (drop 8 ?x) 6 = Some (?a @ ?b @ replicate 4 NUL)"
    unfolding d8 by (subst buf_copy_at) (use l in simp_all)
  have 3: "buf_copy ((?a @ ?b) @ replicate 4 NUL) 12 (drop 14 ?x) 3 = Some (s @ [NUL])"
    unfolding d8 by (subst buf_copy_at) (use l bc append_take_drop_id[of 6 s] in \<open>simp_all add: numeral_2_eq_2\<close>)
  have n: "NUL \<notin> set s" using s(2) not_digit_NUL by blast
  have "buf_strcpy ?x (s @ [NUL]) = Some (s @ [NUL] @ drop 16 ?x)"
    using strcpy_holds[OF holdsI[OF n, of "[]"], of ?x] idno17(1)[OF s(1)] s(1) by simp
  then show ?thesis using 3 unfolding basIdno18To15_def 1 bind.bind_lunit 2 by simp
qed

section \<open>Properties\<close>

text \<open>
  \<^verbatim>\<open>basChkActBit\<close> on a number of digits: it answers whether Luhn's sum over the whole number is a multiple of 10, and it
  writes the only digit for which it is. The rest of the buffer stays (C24).
\<close>

theorem account_check_digit:
  assumes "\<forall>c \<in> set s. is_digit c" and "is_digit d"
  shows "\<exists>c. is_digit c \<and> luhn_ok (s @ [c]) \<and> (\<forall>e. is_digit e \<longrightarrow> luhn_ok (s @ [e]) \<longrightarrow> e = c)
    \<and> basChkActBit (s @ [d] @ r) (Suc (length s)) = Some (if luhn_ok (s @ [d]) then 1 else 0, s @ [c] @ r)"
  using assms by (rule ChkActBit_digits)

theorem account_check_digit_witness:
  "\<exists>c. luhn_ok (''7992739871'' @ [c]) \<and> (\<forall>e. is_digit e \<longrightarrow> luhn_ok (''7992739871'' @ [e]) \<longrightarrow> e = c)
    \<and> basChkActBit (''7992739871'' @ ''3'' @ [NUL]) (Suc (length ''7992739871'')) = Some (1, ''7992739871'' @ [c] @ [NUL])"
proof -
  have "luhn_ok (''7992739871'' @ ''3'')" by (simp add: luhn_ok_def digits_def schar_def cross_sum_def)
  then show ?thesis using account_check_digit[of "''7992739871''" "CHR ''3''" "[NUL]"] by (auto simp: is_digit_def)
qed

text \<open>
  Both check digits find every single wrong digit: a valid number in which one digit is replaced by another one is refused by
  \<^verbatim>\<open>basChkActBit\<close>, and by \<^verbatim>\<open>basIdno18IsValid\<close> (C25).
\<close>

theorem single_errors_found:
  assumes s: "\<forall>c \<in> set s. is_digit c" "is_digit d" "j < length s" "d \<noteq> s ! j"
  shows "(\<forall>b. basChkActBit (s @ r) (length s) = Some (1, b) \<longrightarrow> (\<exists>b'. basChkActBit (s[j := d] @ r) (length s) = Some (0, b')))
    \<and> (length s = 17 \<longrightarrow> length junk = 19 \<longrightarrow> c \<noteq> NUL \<longrightarrow> basIdno18IsValid junk (s @ [c, NUL] @ r) = Some True
      \<longrightarrow> basIdno18IsValid junk (s[j := d] @ [c, NUL] @ r) = Some False)"
proof (intro conjI allI impI)
  have chk: "\<exists>b'. basChkActBit (t @ r) (length t) = Some (if luhn_ok t then 1 else 0, b')" if t: "\<forall>c \<in> set t. is_digit c" "t \<noteq> []" for t
  proof -
    obtain u e where u: "t = u @ [e]" using t(2) by (cases t rule: rev_cases) auto
    have "\<forall>c \<in> set u. is_digit c" "is_digit e" using t(1) u by simp_all
    then obtain c where "basChkActBit (u @ [e] @ r) (Suc (length u)) = Some (if luhn_ok (u @ [e]) then 1 else 0, u @ [c] @ r)"
      using ChkActBit_digits[of u e r] by blast
    then show ?thesis using u by auto
  qed
  have s': "\<forall>c \<in> set (s[j := d]). is_digit c" using s(1,2) set_update_subset_insert[of s j d] by blast
  have ne: "s \<noteq> []" "s[j := d] \<noteq> []" using s(3) by auto
  fix b assume "basChkActBit (s @ r) (length s) = Some (1, b)"
  then have "luhn_ok s" using chk[OF s(1) ne(1)] by (auto split: if_splits)
  then have "\<not> luhn_ok (s[j := d])" using luhn_single_error[OF s(1) _ s(3,2,4)] by blast
  then show "\<exists>b'. basChkActBit (s[j := d] @ r) (length s) = Some (0, b')" using chk[OF s' ne(2)] by simp
next
  assume l: "length s = 17" "length junk = 19" "c \<noteq> NUL" and v: "basIdno18IsValid junk (s @ [c, NUL] @ r) = Some True"
  have s': "\<forall>c \<in> set (s[j := d]). is_digit c" using s(1,2) set_update_subset_insert[of s j d] by blast
  have l': "length (s[j := d]) = 17" using l(1) by simp
  have "c = idno_check s" using Idno18IsValid_digits[OF l(1) s(1) l(3,2), of r] v by simp
  moreover have "idno_check (s[j := d]) \<noteq> idno_check s" using idno_single_error[OF l(1) s(1) _ s(2,4)] s(3) l(1) by simp
  ultimately show "basIdno18IsValid junk (s[j := d] @ [c, NUL] @ r) = Some False"
    using Idno18IsValid_digits[OF l' s' l(3,2), of r] by simp
qed

theorem single_errors_found_witness:
  "(\<exists>b'. basChkActBit ((''79927398713'')[3 := CHR ''8''] @ [NUL]) (length ''79927398713'') = Some (0, b'))
    \<and> basIdno18IsValid (replicate 19 NUL) (''11010519491231002'' @ [CHR ''X'', NUL] @ [NUL]) = Some True
    \<and> basIdno18IsValid (replicate 19 NUL) ((''11010519491231002'')[3 := CHR ''8''] @ [CHR ''X'', NUL] @ [NUL]) = Some False"
proof -
  have d: "\<forall>c \<in> set ''7992739871''. is_digit c" "\<forall>c \<in> set ''79927398713''. is_digit c" "is_digit (CHR ''3'')" "is_digit (CHR ''8'')" by (simp_all add: is_digit_def)
  have "luhn_ok (''7992739871'' @ ''3'')" by (simp add: luhn_ok_def digits_def schar_def cross_sum_def)
  then obtain b where "basChkActBit (''7992739871'' @ ''3'' @ [NUL]) (Suc (length ''7992739871'')) = Some (1, b)"
    using ChkActBit_digits[OF d(1,3), of "[NUL]"] by auto
  then have "basChkActBit (''79927398713'' @ [NUL]) (length ''79927398713'') = Some (1, b)" by simp
  moreover have "3 < length ''79927398713''" "CHR ''8'' \<noteq> ''79927398713'' ! 3" by simp_all
  ultimately have a: "\<exists>b'. basChkActBit ((''79927398713'')[3 := CHR ''8''] @ [NUL]) (length ''79927398713'') = Some (0, b')"
    using single_errors_found[OF d(2,4), of 3 "[NUL]", THEN conjunct1] by blast
  have e: "length ''11010519491231002'' = 17" "\<forall>c \<in> set ''11010519491231002''. is_digit c" "length (replicate 19 NUL) = 19" "CHR ''X'' \<noteq> NUL"
      "3 < length ''11010519491231002''" "CHR ''8'' \<noteq> ''11010519491231002'' ! 3" by (simp_all add: is_digit_def)
  have "idno_check ''11010519491231002'' = CHR ''X''" by code_simp
  then have v: "basIdno18IsValid (replicate 19 NUL) (''11010519491231002'' @ [CHR ''X'', NUL] @ [NUL]) = Some True"
    using Idno18IsValid_digits[OF e(1,2,4,3), of "[NUL]"] by simp
  have "basIdno18IsValid (replicate 19 NUL) ((''11010519491231002'')[3 := CHR ''8''] @ [CHR ''X'', NUL] @ [NUL]) = Some False"
    using single_errors_found[OF e(2) d(4) e(5,6), of "[NUL]" "replicate 19 NUL" "CHR ''X''", THEN conjunct2] e(1,3,4) v by blast
  with a v show ?thesis by blast
qed

text \<open>
  Identity numbers: \<^verbatim>\<open>basIdno15To18\<close> inserts the century and appends the check digit, which \<^verbatim>\<open>basIdno18IsValid\<close> accepts, and
  \<^verbatim>\<open>basIdno18To15\<close> gives the number of 15 places back (C26).
\<close>

theorem idno_conversions:
  assumes "length s = 15" "\<forall>c \<in> set s. is_digit c" "3 \<le> length r" "length junk = 19"
  shows "\<exists>b b'. basIdno15To18 (s @ [NUL] @ r) = Some b \<and> strlen b = 18 \<and> take 17 b = idno17 s \<and> length b = 16 + length r
    \<and> basIdno18IsValid junk b = Some True \<and> basIdno18To15 b = Some b' \<and> cstr b' = s"
proof -
  let ?c = "idno_check (idno17 s)"
  let ?b = "idno17 s @ [?c, NUL] @ drop 3 r"
  have l: "length (idno17 s) = 17" and d: "\<forall>c \<in> set (idno17 s). is_digit c" using idno17(1)[OF assms(1)] idno17(2)[OF assms(2)] by auto
  have n: "NUL \<notin> set (idno17 s @ [?c])" "NUL \<notin> set s" using d assms(2) idno_check_no_NUL[of "idno17 s"] not_digit_NUL by auto
  have "cstr ?b = idno17 s @ [?c]" using holdsI[OF n(1), of "drop 3 r"] by (simp add: holds_def)
  then have "strlen ?b = 18" by (simp add: strlen_def l)
  moreover have "basIdno18IsValid junk ?b = Some True" using Idno18IsValid_digits[OF l d idno_check_no_NUL assms(4)] by simp
  moreover have "basIdno18To15 ?b = Some (s @ [NUL] @ drop 16 ?b)" by (rule Idno18To15_digits[OF assms(1,2)])
  moreover have "cstr (s @ [NUL] @ drop 16 ?b) = s" using n(2) holdsI[of s "drop 16 ?b"] by (simp add: holds_def)
  moreover have "take 17 ?b = idno17 s" "length ?b = 16 + length r" using l assms(3) by simp_all
  ultimately show ?thesis using Idno15To18_digits[OF assms(1-3)] by blast
qed

theorem idno_conversions_witness:
  "\<exists>b b'. basIdno15To18 (''110105491231002'' @ [NUL] @ replicate 3 NUL) = Some b \<and> strlen b = 18
    \<and> basIdno18IsValid (replicate 19 NUL) b = Some True \<and> basIdno18To15 b = Some b' \<and> cstr b' = ''110105491231002''"
  using idno_conversions[of "''110105491231002''" "replicate 3 NUL" "replicate 19 NUL"] by (auto simp: is_digit_def)

text \<open>
  A blank account number has no last place: the code reads and writes the byte before the buffer.
\<close>

theorem blank_account_undefined:
  assumes "b \<noteq> []" "hd b = CHR '' '' \<or> hd b = NUL"
  shows "basChkActBit b n = None"
  using assms by (cases b; cases n) (auto simp: basChkActBit_def)

theorem blank_account_undefined_witness: "basChkActBit ''          '' 10 = None"
  by (rule blank_account_undefined) simp_all

end
