(* ===== verification/Bas_Getopt.thy ===== *)
theory Bas_Getopt
  imports C_Prelude
begin

text \<open>
  The option parser of the base library, \<^verbatim>\<open>bas_getopt.c\<close>. Its global variables are the state; the static pointer \<^verbatim>\<open>place\<close>
  is the rest of the word it points into, the empty list at the terminator, and \<open>None\<close> when it is \<^verbatim>\<open>NULL\<close>
  or behind the terminator, so that using it is undefined. The words of \<^verbatim>\<open>nargv\<close> are lists
  without terminator, and \<^verbatim>\<open>nargv[nargc]\<close> is \<^verbatim>\<open>NULL\<close>. Messages to \<^verbatim>\<open>stderr\<close> are left out.
\<close>

record opt_state =
  giOptind :: nat
  giOptopt :: char
  giOptreset :: bool
  gpcOptarg :: "string option"
  opt_place :: "string option"

definition opt_init :: opt_state where
  "opt_init = \<lparr>giOptind = 1, giOptopt = NUL, giOptreset = False, gpcOptarg = None, opt_place = Some []\<rparr>"

fun deref :: "string option \<Rightarrow> char option" where
  "deref (Some []) = Some NUL"
| "deref (Some (c # _)) = Some c"
| "deref None = None"

fun forward :: "string option \<Rightarrow> string option" where
  "forward (Some (_ # cs)) = Some cs"
| "forward _ = None"

definition nargv_at :: "string list \<Rightarrow> nat \<Rightarrow> string option option" where
  "nargv_at argv i = (if i < length argv then Some (Some (argv ! i)) else if i = length argv then Some None else None)"

text \<open>The loop that looks for a word that begins with a dash\<close>

function find_candidate :: "string list \<Rightarrow> nat \<Rightarrow> string option \<Rightarrow> (nat \<times> string option) option" where
  "find_candidate argv ind place =
     (if ind < length argv then do {
        c \<leftarrow> deref place;
        if c \<noteq> CHR ''-'' then do { p \<leftarrow> nargv_at argv (Suc ind); find_candidate argv (Suc ind) p }
        else Some (ind, place) }
      else Some (ind, place))"
  by pat_completeness auto
termination by (relation "measure (\<lambda>(argv, ind, _). length argv - ind)") auto

declare find_candidate.simps [simp del]

text \<open>The test \<^verbatim>\<open>giOptind >= nargc || *place++ != '-'\<close>: whether there is no option, and the pointer after it\<close>

definition no_option :: "string list \<Rightarrow> nat \<Rightarrow> string option \<Rightarrow> (bool \<times> string option) option" where
  "no_option argv ind place =
     (if length argv \<le> ind then Some (True, place)
      else do { c \<leftarrow> deref place; Some (c \<noteq> CHR ''-'', forward place) })"

text \<open>The search for the next option word: the result \<open>Inl\<close> ends the call.\<close>

definition scan_word :: "string list \<Rightarrow> string \<Rightarrow> opt_state \<Rightarrow> (int \<times> opt_state + opt_state) option" where
  "scan_word argv ostr s = do {
     place \<leftarrow> nargv_at argv (giOptind s);
     (absent, place) \<leftarrow> no_option argv (giOptind s) place;
     (ind, absent, place) \<leftarrow>
       (if absent then do {
          (ind, place) \<leftarrow> find_candidate argv (giOptind s) place;
          (absent, place) \<leftarrow> no_option argv ind place;
          Some (ind, absent, place) }
        else Some (giOptind s, absent, place));
     if absent then Some (Inl (-1, s\<lparr>giOptreset := False, giOptind := ind, opt_place := Some []\<rparr>))
     else do {
       c \<leftarrow> deref place;
       let place = forward place;
       d \<leftarrow> (if c = CHR ''-'' then deref place else Some NUL);
       if c = CHR ''-'' \<and> d = NUL
       then Some (Inl (-1, s\<lparr>giOptreset := False, giOptind := Suc ind, giOptopt := c, opt_place := Some []\<rparr>))
       else if c = NUL
       then (if CHR ''-'' \<notin> set ostr
             then Some (Inl (-1, s\<lparr>giOptreset := False, giOptind := ind, giOptopt := c, opt_place := Some []\<rparr>))
             else Some (Inr (s\<lparr>giOptreset := False, giOptind := ind, giOptopt := CHR ''-'', opt_place := Some []\<rparr>)))
       else Some (Inr (s\<lparr>giOptreset := False, giOptind := ind, giOptopt := c, opt_place := place\<rparr>)) } }"

text \<open>\<^verbatim>\<open>strchr(ostr, c)\<close> finds the terminator for the character 0.\<close>

definition option_spec :: "string \<Rightarrow> char \<Rightarrow> string option" where
  "option_spec ostr c = (case dropWhile (\<lambda>d. d \<noteq> c) ostr of [] \<Rightarrow> if c = NUL then Some [] else None | _ # rest \<Rightarrow> Some rest)"

text \<open>The rest of the call, for the option letter in \<^verbatim>\<open>giOptopt\<close>\<close>

definition take_option :: "string list \<Rightarrow> string \<Rightarrow> opt_state \<Rightarrow> (int \<times> opt_state) option" where
  "take_option argv ostr s = do {
     let c = giOptopt s;
     case (if c = CHR '':'' then None else option_spec ostr c) of
       None \<Rightarrow> do {
         d \<leftarrow> deref (opt_place s);
         Some (63, if d = NUL then s\<lparr>giOptind := Suc (giOptind s)\<rparr> else s) }
     | Some rest \<Rightarrow> do {
         d \<leftarrow> deref (opt_place s);
         if rest = [] \<or> hd rest \<noteq> CHR '':''
         then Some (schar c, s\<lparr>gpcOptarg := None, giOptind := (if d = NUL then Suc (giOptind s) else giOptind s)\<rparr>)
         else if d \<noteq> NUL
         then Some (schar c, s\<lparr>gpcOptarg := opt_place s, opt_place := Some [], giOptind := Suc (giOptind s)\<rparr>)
         else if Suc (giOptind s) < length argv
         then Some (schar c, s\<lparr>gpcOptarg := Some (argv ! Suc (giOptind s)), opt_place := Some [], giOptind := Suc (Suc (giOptind s))\<rparr>)
         else Some (if ostr \<noteq> [] \<and> hd ostr = CHR '':'' then 58 else 63,
                    s\<lparr>opt_place := Some [], giOptind := Suc (giOptind s)\<rparr>) } }"

definition basGetopt :: "string list \<Rightarrow> string \<Rightarrow> opt_state \<Rightarrow> (int \<times> opt_state) option" where
  "basGetopt argv ostr s = do {
     d \<leftarrow> (if giOptreset s then Some NUL else deref (opt_place s));
     r \<leftarrow> (if giOptreset s \<or> d = NUL then scan_word argv ostr s
           else Some (Inr (s\<lparr>giOptopt := d, opt_place := forward (opt_place s)\<rparr>)));
     (case r of Inl x \<Rightarrow> Some x | Inr s \<Rightarrow> take_option argv ostr s) }"

section \<open>Command lines\<close>

text \<open>
  A word of a command line: letters without argument, then possibly one with an argument, which follows in the same word
  or is the next word
\<close>

datatype opt_tail = No_Arg | Attached char string | Separate char string

datatype opt_word = Word string opt_tail

fun render :: "opt_word \<Rightarrow> string list" where
  "render (Word fs No_Arg) = [CHR ''-'' # fs]"
| "render (Word fs (Attached c s)) = [CHR ''-'' # fs @ c # s]"
| "render (Word fs (Separate c s)) = [CHR ''-'' # fs @ [c], s]"

fun results :: "opt_word \<Rightarrow> (int \<times> string option) list" where
  "results (Word fs No_Arg) = map (\<lambda>c. (schar c, None)) fs"
| "results (Word fs (Attached c s)) = map (\<lambda>c. (schar c, None)) fs @ [(schar c, Some s)]"
| "results (Word fs (Separate c s)) = map (\<lambda>c. (schar c, None)) fs @ [(schar c, Some s)]"

definition flag :: "string \<Rightarrow> char \<Rightarrow> bool" where
  "flag ostr c \<longleftrightarrow> c \<notin> {NUL, CHR '':'', CHR ''-''} \<and> schar c \<noteq> -1 \<and> (\<exists>rest. option_spec ostr c = Some rest \<and> (rest = [] \<or> hd rest \<noteq> CHR '':''))"

definition with_arg :: "string \<Rightarrow> char \<Rightarrow> bool" where
  "with_arg ostr c \<longleftrightarrow> c \<notin> {NUL, CHR '':'', CHR ''-''} \<and> schar c \<noteq> -1 \<and> (\<exists>rest. option_spec ostr c = Some (CHR '':'' # rest))"

fun word_ok :: "string \<Rightarrow> opt_word \<Rightarrow> bool" where
  "word_ok ostr (Word fs No_Arg) = (fs \<noteq> [] \<and> list_all (flag ostr) fs)"
| "word_ok ostr (Word fs (Attached c s)) = (list_all (flag ostr) fs \<and> with_arg ostr c \<and> s \<noteq> [] \<and> NUL \<notin> set s)"
| "word_ok ostr (Word fs (Separate c s)) = (list_all (flag ostr) fs \<and> with_arg ostr c)"

text \<open>The loop of a caller: calls until the result is -1, with the letters and arguments found\<close>

fun getopt_all :: "nat \<Rightarrow> string list \<Rightarrow> string \<Rightarrow> opt_state \<Rightarrow> ((int \<times> string option) list \<times> opt_state) option" where
  "getopt_all 0 argv ostr s = None"
| "getopt_all (Suc n) argv ostr s = do {
     (r, s) \<leftarrow> basGetopt argv ostr s;
     if r = -1 then Some ([], s)
     else do { (rs, s') \<leftarrow> getopt_all n argv ostr s; Some ((r, gpcOptarg s) # rs, s') } }"

text \<open>Between words the pointer is at the end of a word.\<close>

definition ready :: "nat \<Rightarrow> opt_state \<Rightarrow> bool" where
  "ready i s \<longleftrightarrow> giOptind s = i \<and> \<not> giOptreset s \<and> opt_place s = Some []"

text \<open>The letters that are left of word \<open>i\<close>\<close>

definition letters :: "string list \<Rightarrow> nat \<Rightarrow> string \<Rightarrow> opt_state \<Rightarrow> bool" where
  "letters argv i cs s \<longleftrightarrow> i < length argv \<and> giOptind s = i \<and> \<not> giOptreset s
    \<and> (opt_place s = Some cs \<or> opt_place s = Some [] \<and> argv ! i = CHR ''-'' # cs)"

lemma bind_pair_map: "x \<bind> (\<lambda>(a, b). Some (f a, b)) = map_option (\<lambda>(a, b). (f a, b)) x"
  by (cases x) auto

lemma next_letter:
  assumes "letters argv i (c # cs) s" "c \<notin> {NUL, CHR ''-''}"
  shows "basGetopt argv ostr s = take_option argv ostr (s\<lparr>giOptopt := c, opt_place := Some cs\<rparr>)"
  using assms by (auto simp: basGetopt_def scan_word_def letters_def nargv_at_def no_option_def intro!: arg_cong[of _ _ "take_option argv ostr"])

lemma flag_step:
  assumes "letters argv i (c # cs) s" "flag ostr c" "cs = [] \<or> hd cs \<noteq> NUL"
  shows "\<exists>s'. basGetopt argv ostr s = Some (schar c, s') \<and> gpcOptarg s' = None \<and> (if cs = [] then ready (Suc i) s' else letters argv i cs s')"
proof -
  obtain rest where rest: "c \<notin> {NUL, CHR '':'', CHR ''-''}" "option_spec ostr c = Some rest" "rest = [] \<or> hd rest \<noteq> CHR '':''"
    using assms(2) by (auto simp: flag_def)
  have "basGetopt argv ostr s = take_option argv ostr (s\<lparr>giOptopt := c, opt_place := Some cs\<rparr>)"
    using next_letter[OF assms(1)] rest(1) by simp
  then show ?thesis using rest assms(1,3) by (cases cs) (auto simp: take_option_def ready_def letters_def)
qed

lemma flags_run:
  assumes "letters argv i (fs @ rest) s" "list_all (flag ostr) fs" "rest = [] \<or> hd rest \<noteq> NUL"
  shows "\<exists>s'. (fs = [] \<longrightarrow> s' = s) \<and> (rest \<noteq> [] \<longrightarrow> letters argv i rest s') \<and> (rest = [] \<and> fs \<noteq> [] \<longrightarrow> ready (Suc i) s') \<and>
    (\<forall>n. getopt_all (length fs + n) argv ostr s = map_option (\<lambda>(rs, t). (map (\<lambda>c. (schar c, None)) fs @ rs, t)) (getopt_all n argv ostr s'))"
  using assms(1,2)
proof (induction fs arbitrary: s)
  case Nil
  then show ?case by (auto simp: option.map_ident)
next
  case (Cons c fs)
  have f: "flag ostr c" "list_all (flag ostr) fs" using Cons.prems by simp_all
  have "fs @ rest = [] \<or> hd (fs @ rest) \<noteq> NUL" using f(2) assms(3) by (cases fs) (auto simp: flag_def)
  then obtain s1 where s1: "basGetopt argv ostr s = Some (schar c, s1)" "gpcOptarg s1 = None"
      "if fs @ rest = [] then ready (Suc i) s1 else letters argv i (fs @ rest) s1"
    using flag_step[of argv i c "fs @ rest" s ostr] Cons.prems(1) f(1) by auto
  have c: "schar c \<noteq> -1" using f(1) by (simp add: flag_def)
  show ?case
  proof (cases "fs @ rest = []")
    case True
    then show ?thesis using s1 c by (intro exI[of _ s1]) (auto simp: bind_pair_map)
  next
    case False
    then obtain s' where s': "fs = [] \<longrightarrow> s' = s1" "rest \<noteq> [] \<longrightarrow> letters argv i rest s'" "rest = [] \<and> fs \<noteq> [] \<longrightarrow> ready (Suc i) s'"
        "\<And>n. getopt_all (length fs + n) argv ostr s1 = map_option (\<lambda>(rs, t). (map (\<lambda>c. (schar c, None)) fs @ rs, t)) (getopt_all n argv ostr s')"
      using Cons.IH[of s1] s1(3) f(2) by auto
    have "getopt_all (length (c # fs) + n) argv ostr s = map_option (\<lambda>(rs, t). (map (\<lambda>c. (schar c, None)) (c # fs) @ rs, t)) (getopt_all n argv ostr s')" for n
      using s1(1,2) c s'(4)[of n] by (cases "getopt_all n argv ostr s'") auto
    then show ?thesis using s'(2,3) False by (intro exI[of _ s']) auto
  qed
qed

lemma arg_step:
  assumes "letters argv i (c # cs) s" "with_arg ostr c" "cs = [] \<and> Suc i < length argv \<and> arg = argv ! Suc i \<and> j = Suc (Suc i)
    \<or> cs \<noteq> [] \<and> hd cs \<noteq> NUL \<and> arg = cs \<and> j = Suc i"
  shows "\<exists>s'. basGetopt argv ostr s = Some (schar c, s') \<and> gpcOptarg s' = Some arg \<and> ready j s'"
proof -
  obtain rest where rest: "c \<notin> {NUL, CHR '':'', CHR ''-''}" "option_spec ostr c = Some (CHR '':'' # rest)"
    using assms(2) by (auto simp: with_arg_def)
  have "basGetopt argv ostr s = take_option argv ostr (s\<lparr>giOptopt := c, opt_place := Some cs\<rparr>)"
    using next_letter[OF assms(1)] rest(1) by simp
  then show ?thesis using rest assms(1,3) by (cases cs) (auto simp: take_option_def ready_def letters_def)
qed

lemma ready_letters: "ready i s \<Longrightarrow> i < length argv \<Longrightarrow> argv ! i = CHR ''-'' # cs \<Longrightarrow> letters argv i cs s"
  by (simp add: ready_def letters_def)

lemma word_run:
  assumes "ready i s" "word_ok ostr w" "argv = pre @ render w @ post" "length pre = i"
  shows "\<exists>s'. ready (i + length (render w)) s' \<and>
    (\<forall>n. getopt_all (length (results w) + n) argv ostr s = map_option (\<lambda>(rs, t). (results w @ rs, t)) (getopt_all n argv ostr s'))"
proof -
  obtain fs tl where w: "w = Word fs tl" by (cases w)
  have tail: "\<exists>s'. ready (i + length (render w)) s' \<and>
      (\<forall>n. getopt_all (length fs + Suc n) argv ostr s = map_option (\<lambda>(rs, t). ((map (\<lambda>c. (schar c, None)) fs @ [(schar c, Some arg)]) @ rs, t)) (getopt_all n argv ostr s'))"
    if l: "letters argv i (fs @ c # cs) s" and a: "list_all (flag ostr) fs" "with_arg ostr c"
      and st: "\<And>s. letters argv i (c # cs) s \<Longrightarrow> \<exists>s'. basGetopt argv ostr s = Some (schar c, s') \<and> gpcOptarg s' = Some arg \<and> ready (i + length (render w)) s'"
    for c cs arg
  proof -
    have c: "schar c \<noteq> -1" "c \<noteq> NUL" using a(2) by (auto simp: with_arg_def)
    obtain s1 where s1: "letters argv i (c # cs) s1"
        "\<And>n. getopt_all (length fs + n) argv ostr s = map_option (\<lambda>(rs, t). (map (\<lambda>c. (schar c, None)) fs @ rs, t)) (getopt_all n argv ostr s1)"
      using flags_run[OF l a(1)] c(2) by auto
    obtain s2 where s2: "basGetopt argv ostr s1 = Some (schar c, s2)" "gpcOptarg s2 = Some arg" "ready (i + length (render w)) s2" using st[OF s1(1)] by blast
    have "getopt_all (length fs + Suc n) argv ostr s = map_option (\<lambda>(rs, t). ((map (\<lambda>c. (schar c, None)) fs @ [(schar c, Some arg)]) @ rs, t)) (getopt_all n argv ostr s2)" for n
      using s1(2)[of "Suc n"] s2(1,2) c(1) by (cases "getopt_all n argv ostr s2") auto
    then show ?thesis using s2(3) by blast
  qed
  show ?thesis
  proof (cases tl)
    case No_Arg
    then have l: "letters argv i (fs @ []) s" using assms by (intro ready_letters) (auto simp: w nth_append)
    obtain s' where "ready (Suc i) s'" "\<And>n. getopt_all (length fs + n) argv ostr s = map_option (\<lambda>(rs, t). (map (\<lambda>c. (schar c, None)) fs @ rs, t)) (getopt_all n argv ostr s')"
      using flags_run[OF l, of ostr] assms(2) No_Arg w by auto
    then show ?thesis using No_Arg w by auto
  next
    case (Attached c arg)
    have "letters argv i (fs @ c # arg) s" using Attached assms by (intro ready_letters) (auto simp: w nth_append)
    moreover have "hd arg \<noteq> NUL" using assms(2) Attached w by (cases arg) auto
    ultimately show ?thesis using tail[of c arg arg] arg_step[of argv i c arg _ ostr arg "Suc i"] assms(2) Attached w by auto
  next
    case (Separate c arg)
    have "letters argv i (fs @ [c]) s" using Separate assms by (intro ready_letters) (auto simp: w nth_append)
    moreover have "argv ! Suc i = arg" "Suc i < length argv" using Separate assms(3,4) w by (auto simp: nth_append)
    ultimately show ?thesis using tail[of c "[]" arg] arg_step[of argv i c "[]" _ ostr arg "Suc (Suc i)"] assms(2) Separate w by auto
  qed
qed

lemma end_of_words:
  assumes "ready (length argv) s" "0 < n"
  shows "\<exists>s'. getopt_all n argv ostr s = Some ([], s') \<and> giOptind s' = length argv"
  using assms by (cases n) (auto simp: basGetopt_def scan_word_def ready_def nargv_at_def no_option_def find_candidate.simps)

lemma words_run:
  assumes "ready (length pre) s" "list_all (word_ok ostr) ws" "argv = pre @ concat (map render ws)" "0 < n"
  shows "\<exists>s'. getopt_all (length (concat (map results ws)) + n) argv ostr s = Some (concat (map results ws), s') \<and> giOptind s' = length argv"
  using assms
proof (induction ws arbitrary: pre s)
  case Nil
  then show ?case using end_of_words[of argv s n ostr] by simp
next
  case (Cons w ws)
  obtain s1 where s1: "ready (length pre + length (render w)) s1"
      "\<And>n. getopt_all (length (results w) + n) argv ostr s = map_option (\<lambda>(rs, t). (results w @ rs, t)) (getopt_all n argv ostr s1)"
    using word_run[OF Cons.prems(1), of ostr w argv pre "concat (map render ws)"] Cons.prems by auto
  have "ready (length (pre @ render w)) s1" using s1(1) by simp
  then obtain s' where "getopt_all (length (concat (map results ws)) + n) argv ostr s1 = Some (concat (map results ws), s')" "giOptind s' = length argv"
    using Cons.IH[of "pre @ render w" s1] Cons.prems(2-) by auto
  then show ?case using s1(2)[of "length (concat (map results ws)) + n"] by (auto simp: add.assoc)
qed

section \<open>Properties\<close>

text \<open>
  A command line of well-formed option words is parsed into its options, in order, with their arguments, and the index is then at its
  end: letters may share a word, and an argument may follow in the same word or in the next one (C27).
\<close>

theorem getopt_parses:
  assumes "list_all (word_ok ostr) ws" "argv = prog # concat (map render ws)" "length (concat (map results ws)) < n"
  shows "\<exists>s'. getopt_all n argv ostr opt_init = Some (concat (map results ws), s') \<and> giOptind s' = length argv"
proof -
  have "ready (length [prog]) opt_init" by (simp add: ready_def opt_init_def)
  moreover obtain m where "n = length (concat (map results ws)) + m" "0 < m" using assms(3) less_imp_add_positive by blast
  ultimately show ?thesis using words_run[of "[prog]" opt_init ostr ws argv m] assms(1,2) by simp
qed

theorem getopt_parses_witness:
  "\<exists>s'. getopt_all 9 [''prog'', ''-ab'', ''-ofile'', ''-vo'', ''-x''] ''abo:v'' opt_init
    = Some ([(97, None), (98, None), (111, Some ''file''), (118, None), (111, Some ''-x'')], s') \<and> giOptind s' = 5"
  using getopt_parses[of "''abo:v''" "[Word ''ab'' No_Arg, Word [] (Attached (CHR ''o'') ''file''), Word ''v'' (Separate (CHR ''o'') ''-x'')]"
      "[''prog'', ''-ab'', ''-ofile'', ''-vo'', ''-x'']" "''prog''" 9]
  by (simp add: flag_def with_arg_def option_spec_def schar_def eval_nat_numeral)

text \<open>
  A word that is no option is skipped by looking at its second character: a word with a dash there is taken as an option, and the empty word
  is read behind its terminator.
\<close>

theorem getopt_operand_as_option:
  assumes "flag ostr c" "x \<noteq> CHR ''-''"
  shows "(\<exists>s'. basGetopt [prog, [x, CHR ''-'', c]] ostr opt_init = Some (schar c, s')) \<and> basGetopt [prog, []] ostr opt_init = None"
  using assms by (auto simp: basGetopt_def scan_word_def opt_init_def nargv_at_def no_option_def find_candidate.simps take_option_def flag_def)

theorem getopt_operand_as_option_witness:
  "\<exists>s'. basGetopt [''prog'', ''a-v''] ''v'' opt_init = Some (118, s')"
  using getopt_operand_as_option[of "''v''" "CHR ''v''" "CHR ''a''" "''prog''"] by (simp add: flag_def option_spec_def schar_def)

end
