(* ===== verification/Bas_String_Correct.thy ===== *)
theory Bas_String_Correct
  imports Bas_String
begin

text \<open>
  What the functions of \<open>Bas_String\<close> do on buffers that hold strings: the trimming functions give the strings without blanks at
  the start, at the end, or anywhere; \<^verbatim>\<open>basAddString\<close> counts in decimal; \<^verbatim>\<open>basMemcmp\<close> compares as if the strings were
  padded with blanks; \<^verbatim>\<open>basCountStr\<close> counts occurrences, and does not return for an empty pattern.
\<close>

section \<open>Loops over buffers\<close>

lemma fill_loop_run:
  assumes "j \<le> n" "n \<le> length b"
  shows "fill_loop c j n b = Some (take j b @ replicate (n - j) c @ drop n b)"
  using assms
proof (induction n)
  case (Suc n)
  show ?case
  proof (cases "j = Suc n")
    case False
    then have "fill_loop c j n b = Some (take j b @ replicate (n - j) c @ drop n b)" using Suc by simp
    moreover have "drop n b = b ! n # drop (Suc n) b" using Suc.prems by (simp add: Cons_nth_drop_Suc)
    moreover have "length (take j b @ replicate (n - j) c) = n" using Suc.prems False by simp
    then have "((take j b @ replicate (n - j) c) @ b ! n # drop (Suc n) b)[n := c] = (take j b @ replicate (n - j) c) @ c # drop (Suc n) b"
      by (simp only: list_update_append) simp
    moreover have "replicate (Suc n - j) c = replicate (n - j) c @ [c]" using Suc.prems False by (simp add: Suc_diff_le replicate_append_same)
    ultimately show ?thesis using Suc.prems False
      by (simp add: fill_loop_def foldM_append buf_store_def)
  qed (use Suc in \<open>simp add: fill_loop_def\<close>)
qed (simp add: fill_loop_def)

lemma keep_loop_run:
  assumes "n \<le> length b"
  shows "keep_loop P n b = Some (length (filter P (take n b)), filter P (take n b) @ drop (length (filter P (take n b))) b)"
  using assms
proof (induction n)
  case (Suc n)
  define fs where "fs = filter P (take n b)"
  have l: "length fs \<le> n" unfolding fs_def using length_filter_le[of P "take n b"] by simp
  have c: "(fs @ drop (length fs) b) ! n = b ! n" using Suc.prems l by (simp add: nth_append)
  have t: "take (Suc n) b = take n b @ [b ! n]" using Suc.prems by (simp add: take_Suc_conv_app_nth)
  have s: "buf_store (fs @ drop (length fs) b) (length fs) (b ! n) = Some ((fs @ [b ! n]) @ drop (Suc (length fs)) b)"
    using store_at_end[of "length fs" b fs "b ! n"] Suc.prems l by simp
  show ?case using Suc c s l by (simp add: keep_loop_def foldM_append t fs_def[symmetric] buf_load_def)
qed (simp add: keep_loop_def)

lemma rtrim_loop_run:
  assumes "n \<le> length b"
  shows "rtrim_loop b n = Some (rev (dropWhile (\<lambda>c. c = CHR '' '') (rev (take n b))) @ replicate (length (takeWhile (\<lambda>c. c = CHR '' '') (rev (take n b)))) NUL @ drop n b)"
  using assms
proof (induction n arbitrary: b)
  case (Suc n)
  have t: "take (Suc n) b = take n b @ [b ! n]" using Suc.prems by (simp add: take_Suc_conv_app_nth)
  have d: "drop n b = b ! n # drop (Suc n) b" using Suc.prems by (simp add: Cons_nth_drop_Suc)
  show ?case
  proof (cases "b ! n = CHR '' ''")
    case True
    have "drop n (b[n := NUL]) = NUL # drop (Suc n) b" using Suc.prems by (simp add: drop_update_swap d)
    then show ?thesis using Suc.IH[of "b[n := NUL]"] Suc.prems True t by (simp add: replicate_app_Cons_same)
  next
    case False
    then show ?thesis using Suc.prems id_take_nth_drop[of n b] by (simp add: t)
  qed
qed simp

section \<open>Trimming\<close>

abbreviation blank :: "char \<Rightarrow> bool" where
  "blank c \<equiv> c = CHR '' ''"

definition rtrim :: "string \<Rightarrow> string" where
  "rtrim s = rev (dropWhile blank (rev s))"

lemma rtrim_blanks: "rtrim s @ replicate (length (takeWhile blank (rev s))) (CHR '' '') = s"
proof -
  have "takeWhile blank xs = replicate (length (takeWhile blank xs)) (CHR '' '')" for xs :: string
    by (induction xs) auto
  then have "rev (takeWhile blank (rev s)) = replicate (length (takeWhile blank (rev s))) (CHR '' '')" by (metis rev_replicate)
  moreover have "rtrim s @ rev (takeWhile blank (rev s)) = s"
    by (metis rtrim_def rev_append rev_rev_ident takeWhile_dropWhile_id)
  ultimately show ?thesis by simp
qed

lemma set_rtrim: "set (rtrim s) \<subseteq> set s"
  using set_dropWhileD[of _ blank "rev s"] by (auto simp: rtrim_def)

lemma holds_replicate_NUL: "NUL \<notin> set s \<Longrightarrow> holds (s @ replicate k NUL @ NUL # r) s"
  by (cases k) auto

lemma RTrim_holds:
  assumes "holds b s" "length s \<le> iMaxLen" "s \<noteq> []"
  shows "\<exists>b'. basRTrim b iMaxLen = Some b' \<and> holds b' (rtrim s) \<and> length b' = length b"
proof -
  obtain r where b: "b = s @ NUL # r" "NUL \<notin> set s" using assms(1) by (rule holdsE)
  define k where "k = length (takeWhile blank (rev s))"
  have "length (rtrim s) + k = length s" using rtrim_blanks[of s] unfolding k_def by (metis length_append length_replicate)
  moreover have "basRTrim b iMaxLen = Some (rtrim s @ replicate k NUL @ NUL # r)"
    using assms(2,3) rtrim_loop_run[of "length s" b] strlen_holds[OF assms(1)]
    by (simp add: basRTrim_def trim_length_def b(1) rtrim_def k_def)
  moreover have "holds (rtrim s @ replicate k NUL @ NUL # r) (rtrim s)"
    using b(2) set_rtrim[of s] by (intro holds_replicate_NUL) auto
  ultimately show ?thesis by (auto simp: b(1))
qed

lemma ltrim_copy:
  assumes "i < j" "drop j b = t @ NUL # r" "NUL \<notin> set t" "j + length t \<le> iMaxLen" "j \<le> length b"
  shows "\<exists>u. ltrim_loop iMaxLen True i j b = Some (i + length t, take i b @ t @ u) \<and> u \<noteq> [] \<and> length u + i + length t = length b"
  using assms
proof (induction t arbitrary: i j b)
  case Nil
  then have "b ! j = NUL" "j < length b" by (metis append_Nil nth_via_drop, metis append_Nil drop_all list.distinct(1) not_le)
  then show ?case using Nil by (subst ltrim_loop.simps) (auto simp: exI[of _ "drop i b"])
next
  case (Cons c t)
  have j: "b ! j = c" "j < length b" using Cons.prems(2) by (metis append_Cons nth_via_drop, metis append_Cons drop_all list.distinct(1) not_le)
  have d: "drop (Suc j) b = t @ NUL # r" using Cons.prems(2) by (metis append_Cons drop_Suc list.sel(3) tl_drop)
  define b' where "b' = b[i := c]"
  have step: "ltrim_loop iMaxLen True i j b = ltrim_loop iMaxLen True (Suc i) (Suc j) b'"
    using Cons.prems j by (subst ltrim_loop.simps) (auto simp: Let_def b'_def)
  have "drop (Suc j) b' = t @ NUL # r" using Cons.prems(1) d by (simp add: b'_def)
  then obtain u where u: "ltrim_loop iMaxLen True (Suc i) (Suc j) b' = Some (Suc i + length t, take (Suc i) b' @ t @ u)" "u \<noteq> []" "length u + Suc i + length t = length b'"
    using Cons.IH[of "Suc i" "Suc j" b'] Cons.prems j(2) by (auto simp: b'_def)
  have "take (Suc i) b' = take i b @ [c]" using Cons.prems(1) j(2) by (simp add: b'_def take_Suc_conv_app_nth)
  then show ?case using u step by (auto simp: b'_def)
qed

lemma ltrim_skip:
  assumes "drop j b = replicate k (CHR '' '') @ t @ NUL # r" "NUL \<notin> set t" "t = [] \<or> hd t \<noteq> CHR '' ''" "j + k + length t \<le> iMaxLen" "j \<le> length b" "0 < j + k"
  shows "\<exists>u. ltrim_loop iMaxLen False 0 j b = Some (length t, t @ u) \<and> u \<noteq> [] \<and> length u + length t = length b"
  using assms
proof (induction k arbitrary: j)
  case 0
  show ?case
  proof (cases t)
    case Nil
    then have "b ! j = NUL" "j < length b" using 0 by (metis append_Nil nth_via_drop replicate_0, metis Nil 0(1) append_Nil drop_all list.distinct(1) not_le replicate_0)
    then show ?thesis using Nil by (subst ltrim_loop.simps) (auto intro: exI[of _ b])
  next
    case (Cons c t')
    then have j: "b ! j = c" "j < length b" using 0 by (metis append_Cons append_Nil nth_via_drop replicate_0, metis 0(1) Cons append_Cons append_Nil drop_all list.distinct(1) not_le replicate_0)
    have c: "c \<noteq> NUL" "c \<noteq> CHR '' ''" "NUL \<notin> set t'" using 0 Cons by auto
    have d: "drop (Suc j) b = t' @ NUL # r" using 0(1) Cons by (metis append_Cons append_Nil drop_Suc list.sel(3) replicate_0 tl_drop)
    have step: "ltrim_loop iMaxLen False 0 j b = ltrim_loop iMaxLen True (Suc 0) (Suc j) (b[0 := c])"
      using 0 j c Cons by (subst ltrim_loop.simps) (auto simp: Let_def)
    obtain u where "ltrim_loop iMaxLen True (Suc 0) (Suc j) (b[0 := c]) = Some (Suc 0 + length t', take (Suc 0) (b[0 := c]) @ t' @ u)" "u \<noteq> []" "length u + Suc 0 + length t' = length b"
      using ltrim_copy[of "Suc 0" "Suc j" "b[0 := c]" t' r iMaxLen] d 0 Cons c j by auto
    moreover have "take (Suc 0) (b[0 := c]) = [c]" using j(2) by (cases b) auto
    ultimately show ?thesis using step Cons by auto
  qed
next
  case (Suc k)
  have j: "b ! j = CHR '' ''" "j < length b" using Suc.prems(1) by (metis append_Cons nth_via_drop replicate_Suc, metis Suc.prems(1) append_Cons drop_all list.distinct(1) not_le replicate_Suc)
  have d: "drop (Suc j) b = replicate k (CHR '' '') @ t @ NUL # r" using Suc.prems(1) by (metis append_Cons drop_Suc list.sel(3) replicate_Suc tl_drop)
  have "ltrim_loop iMaxLen False 0 j b = ltrim_loop iMaxLen False 0 (Suc j) b"
    using Suc.prems j by (subst ltrim_loop.simps) (auto simp: Let_def)
  then show ?case using Suc.IH[of "Suc j"] d Suc.prems j by auto
qed

lemma LTrim_holds:
  assumes "holds b s" "length s \<le> iMaxLen"
  shows "\<exists>b'. basLTrim b iMaxLen = Some b' \<and> holds b' (dropWhile blank s) \<and> length b' = length b"
proof -
  obtain r where b: "b = s @ NUL # r" "NUL \<notin> set s" using assms(1) by (rule holdsE)
  define k where "k = length (takeWhile blank s)"
  define t where "t = dropWhile blank s"
  have "takeWhile blank s = replicate k (CHR '' '')" unfolding k_def by (induction s) auto
  then have s: "s = replicate k (CHR '' '') @ t" unfolding t_def by (metis takeWhile_dropWhile_id)
  have t: "NUL \<notin> set t" "t = [] \<or> hd t \<noteq> CHR '' ''"
    using b(2) hd_dropWhile[of blank s] by (auto simp: t_def dest: set_dropWhileD)
  show ?thesis
  proof (cases "k = 0")
    case True
    then have "b ! 0 \<noteq> CHR '' ''" "0 < length b" using t(2) s b by (cases t; auto)+
    then show ?thesis using True s assms(1) t_def by (intro exI[of _ b]) (simp add: basLTrim_def buf_load_def)
  next
    case False
    obtain u where u: "ltrim_loop iMaxLen False 0 0 b = Some (length t, t @ u)" "u \<noteq> []" "length u + length t = length b"
      using ltrim_skip[of 0 b k t r iMaxLen] t False b s assms(2) by auto
    then obtain x u' where "u = x # u'" by (cases u) auto
    then have "basLTrim b iMaxLen = Some (t @ NUL # u')" using u False b s
      by (cases k) (auto simp: basLTrim_def buf_load_def buf_store_def)
    then show ?thesis using t u \<open>u = x # u'\<close> by (auto simp: t_def[symmetric])
  qed
qed

lemma RemoveSpace_holds:
  assumes "holds b s" "length s \<le> iMaxLen" "s \<noteq> []"
  shows "\<exists>b'. basRemoveSpace b iMaxLen = Some b' \<and> holds b' (filter (\<lambda>c. \<not> blank c) s) \<and> length b' = length b"
proof -
  obtain r where b: "b = s @ NUL # r" "NUL \<notin> set s" using assms(1) by (rule holdsE)
  define fs where "fs = filter (\<lambda>c. \<not> blank c) s"
  have l: "length fs \<le> length s" unfolding fs_def by simp
  have "keep_loop (\<lambda>c. \<not> blank c) (length s) b = Some (length fs, fs @ drop (length fs) b)"
    using keep_loop_run[of "length s" b "\<lambda>c. \<not> blank c"] by (simp add: b(1) fs_def)
  moreover have "fill_loop NUL (length fs) (length s) (fs @ drop (length fs) b) = Some (fs @ replicate (length s - length fs) NUL @ NUL # r)"
    using fill_loop_run[of "length fs" "length s" "fs @ drop (length fs) b" NUL] l by (simp add: b(1))
  moreover have "holds (fs @ replicate (length s - length fs) NUL @ NUL # r) fs"
    using b(2) by (intro holds_replicate_NUL) (auto simp: fs_def)
  ultimately show ?thesis using assms(2,3) strlen_holds[OF assms(1)] l
    by (auto simp: basRemoveSpace_def trim_length_def b(1) fs_def[symmetric])
qed

section \<open>Counting up\<close>

lemma digits_value_snoc: "\<forall>d \<in> set s. is_digit d \<Longrightarrow> is_digit c \<Longrightarrow> digits_value 0 (s @ [c]) = 10 * digits_value 0 s + (int (of_char c) - 48)"
  by (simp add: digits_value_append)

lemma digits_value_bounds: "\<forall>c \<in> set s. is_digit c \<Longrightarrow> 0 \<le> digits_value 0 s \<and> digits_value 0 s < 10 ^ length s"
proof (induction s rule: rev_induct)
  case (snoc c s)
  then have "0 \<le> digits_value 0 s" "digits_value 0 s < 10 ^ length s" "48 \<le> int (of_char c)" "int (of_char c) \<le> 57"
    by (auto simp: is_digit_def)
  then show ?case using snoc.prems by (simp add: digits_value_snoc)
qed simp

lemma next_digit:
  assumes "is_digit c" "of_char c < (57 :: nat)"
  shows "is_digit (char_of (of_char c + 1 :: nat)) \<and> int (of_char (char_of (of_char c + 1 :: nat) :: char)) = int (of_char c) + 1"
  using assms by (simp add: is_digit_def)

lemma add_loop_run:
  assumes "n \<le> length b" "\<forall>c \<in> set (take n b). is_digit c"
  shows "\<exists>fin b'. add_loop b n = Some (fin, b') \<and> length b' = length b \<and> drop n b' = drop n b \<and> (\<forall>c \<in> set (take n b'). is_digit c)
    \<and> digits_value 0 (take n b') = (digits_value 0 (take n b) + 1) mod 10 ^ n \<and> (\<not> fin \<longrightarrow> take n b' = replicate n (CHR ''0''))"
  using assms
proof (induction n arbitrary: b)
  case (Suc n)
  have t: "take (Suc n) x = take n x @ [x ! n]" if "length x = length b" for x :: buffer using Suc.prems that by (simp add: take_Suc_conv_app_nth)
  have ds: "\<forall>c \<in> set (take n b). is_digit c" "is_digit (b ! n)" using Suc.prems(2) t[of b] by auto
  have bd: "0 \<le> digits_value 0 (take n b)" "digits_value 0 (take n b) < 10 ^ n"
    using digits_value_bounds[OF ds(1)] Suc.prems by auto
  have rng: "48 \<le> (of_char (b ! n) :: nat)" "of_char (b ! n) \<le> (57 :: nat)" using ds(2) by (auto simp: is_digit_def)
  then have s: "schar (b ! n) = int (of_char (b ! n))" by (simp add: schar_def)
  show ?case
  proof (cases "of_char (b ! n) < (57 :: nat)")
    case True
    define b' where "b' = b[n := char_of (of_char (b ! n) + 1 :: nat)]"
    note nd = next_digit[OF ds(2) True]
    have "add_loop b (Suc n) = Some (True, b')" using True s Suc.prems by (simp add: b'_def)
    moreover have "take (Suc n) b' = take n b @ [char_of (of_char (b ! n) + 1 :: nat)]" using t[of b'] Suc.prems by (simp add: b'_def)
    moreover have "digits_value 0 (take n b @ [char_of (of_char (b ! n) + 1 :: nat)]) = digits_value 0 (take (Suc n) b) + 1"
      using digits_value_snoc[OF ds(1)] nd ds(2) by (simp add: t)
    moreover have "0 \<le> digits_value 0 (take (Suc n) b) + 1" "digits_value 0 (take (Suc n) b) + 1 < 10 ^ Suc n"
      using digits_value_snoc[OF ds] bd True rng by (simp_all add: t)
    ultimately show ?thesis using nd ds Suc.prems by (auto simp: b'_def)
  next
    case False
    define b0 where "b0 = b[n := CHR ''0'']"
    have "\<forall>c \<in> set (take n b0). is_digit c" using ds by (simp add: b0_def)
    then obtain fin b' where b': "add_loop b0 n = Some (fin, b')" "length b' = length b0" "drop n b' = drop n b0" "\<forall>c \<in> set (take n b'). is_digit c"
        "digits_value 0 (take n b') = (digits_value 0 (take n b) + 1) mod 10 ^ n" "\<not> fin \<longrightarrow> take n b' = replicate n (CHR ''0'')"
      using Suc.IH[of b0] Suc.prems by (auto simp: b0_def)
    have "b' ! n = CHR ''0''" "drop (Suc n) b' = drop (Suc n) b"
      using arg_cong[OF b'(3), of hd] arg_cong[OF b'(3), of tl] b'(2) Suc.prems by (auto simp: b0_def hd_drop_conv_nth tl_drop drop_Suc[symmetric])
    then have t': "take (Suc n) b' = take n b' @ [CHR ''0'']" "drop (Suc n) b' = drop (Suc n) b" using t[of b'] b'(2) by (simp_all add: b0_def)
    have z: "is_digit (CHR ''0'')" by (simp add: is_digit_def)
    have "digits_value 0 (take (Suc n) b) = 10 * digits_value 0 (take n b) + 9" using digits_value_snoc[OF ds] False rng by (simp add: t)
    then have "digits_value 0 (take (Suc n) b') = (digits_value 0 (take (Suc n) b) + 1) mod 10 ^ Suc n"
      using digits_value_snoc[OF b'(4) z] b'(5) by (simp add: t'(1) mult_mod_right algebra_simps)
    moreover have "add_loop b (Suc n) = Some (fin, b')" using False s Suc.prems b'(1) by (simp add: b0_def)
    ultimately show ?thesis using t' b' z by (auto simp: b0_def replicate_append_same)
  qed
qed (auto intro: exI[of _ b])

lemma AddString_counts:
  assumes "n \<le> length b" "\<forall>c \<in> set (take n b). is_digit c"
  shows "\<exists>b'. basAddString b n = Some b' \<and> length b' = length b \<and> drop n b' = drop n b \<and> (\<forall>c \<in> set (take n b'). is_digit c)
    \<and> digits_value 0 (take n b') = (digits_value 0 (take n b) + 1) mod 10 ^ n"
proof -
  obtain fin b' where b': "add_loop b n = Some (fin, b')" "length b' = length b" "drop n b' = drop n b" "\<forall>c \<in> set (take n b'). is_digit c"
      "digits_value 0 (take n b') = (digits_value 0 (take n b) + 1) mod 10 ^ n" "\<not> fin \<longrightarrow> take n b' = replicate n (CHR ''0'')"
    using add_loop_run[OF assms] by blast
  have "fill_loop (CHR ''0'') 0 n b' = Some b'" if "\<not> fin"
    using fill_loop_run[of 0 n b' "CHR ''0''"] b'(2,6) assms(1) that by (metis append_take_drop_id append_Nil diff_zero le0 take_0)
  then have "basAddString b n = Some b'" using b'(1) by (auto simp: basAddString_def)
  then show ?thesis using b' by blast
qed

section \<open>Comparison\<close>

text \<open>Comparison of two strings up to \<open>n\<close> places, where a string goes on with blanks\<close>

fun pad_cmp :: "string \<Rightarrow> string \<Rightarrow> nat \<Rightarrow> int" where
  "pad_cmp s t 0 = 0"
| "pad_cmp [] [] (Suc n) = 0"
| "pad_cmp [] (d # t) (Suc n) = (if d \<noteq> CHR '' '' then -1 else pad_cmp [] t n)"
| "pad_cmp (c # s) [] (Suc n) = (if c \<noteq> CHR '' '' then 1 else pad_cmp s [] n)"
| "pad_cmp (c # s) (d # t) (Suc n) = (if schar d < schar c then 1 else if schar c < schar d then -1 else pad_cmp s t n)"

definition pad :: "nat \<Rightarrow> string \<Rightarrow> string" where
  "pad n s = take n s @ replicate (n - length s) (CHR '' '')"

lemma memcmp_loop_run:
  assumes "holds b1 s1" "holds b2 s2" "f1 = (length s1 < i)" "f2 = (length s2 < i)"
  shows "memcmp_loop b1 b2 f1 f2 i n = Some (pad_cmp (drop i s1) (drop i s2) n)"
  using assms(3,4)
proof (induction n arbitrary: i f1 f2)
  case (Suc n)
  have load: "buf_load b i = Some (if i < length s then s ! i else NUL) \<and> (i < length s \<longrightarrow> s ! i \<noteq> NUL)" if "holds b s" "i \<le> length s" for b s
    using that by (auto elim!: holdsE simp: buf_load_def nth_append in_set_conv_nth)
  have d: "drop i s = (if i < length s then s ! i # drop (Suc i) s else [])" for s :: string
    by (simp add: Cons_nth_drop_Suc)
  have flag: "(if length s < i then Some True else map_option (\<lambda>c. c = NUL) (buf_load b i)) = Some (length s \<le> i)" if "holds b s" for b s
    using load[OF that] by auto
  have f: "(length s < Suc i) = (length s \<le> i)" for s :: string by auto
  show ?case
    using Suc.IH[of "length s1 \<le> i" "Suc i" "length s2 \<le> i"] load[OF assms(1)] load[OF assms(2)] flag[OF assms(1)] flag[OF assms(2)] Suc.prems
    by (cases "i < length s1"; cases "i < length s2") (simp_all add: d f not_less)
qed simp

lemma schar_eq_iff: "schar c = schar d \<longleftrightarrow> c = d"
proof -
  have "of_char c < (256 :: nat)" "of_char d < (256 :: nat)" using of_char_mod_256[of c] of_char_mod_256[of d] by (metis mod_less_divisor zero_less_numeral)+
  then have "schar c = schar d \<longleftrightarrow> of_char c = (of_char d :: nat)" unfolding schar_def Let_def by presburger
  then show ?thesis by simp
qed

lemma pad_Nil: "pad n [] = replicate n (CHR '' '')"
  by (simp add: pad_def)

lemma pad_Cons: "pad (Suc n) (c # s) = c # pad n s"
  by (simp add: pad_def)

lemma pad_cmp_eq: "pad_cmp s t n = 0 \<longleftrightarrow> pad n s = pad n t"
  by (induction s t n rule: pad_cmp.induct) (auto simp: pad_Cons pad_Nil schar_eq_iff, auto simp: pad_def)

lemma pad_cmp_swap: "pad_cmp t s n = - pad_cmp s t n"
  by (induction s t n rule: pad_cmp.induct) (auto simp: schar_eq_iff)

section \<open>Occurrences\<close>

text \<open>The number of occurrences of a word that do not overlap, from the left\<close>

function occurrences :: "string \<Rightarrow> string \<Rightarrow> nat" where
  "occurrences w s = (if s = [] \<or> w = [] then 0
     else if take (length w) s = w then Suc (occurrences w (drop (length w) s)) else occurrences w (tl s))"
  by pat_completeness auto
termination by (relation "measure (\<lambda>(w, s). length s)") (auto simp: length_greater_0_conv[symmetric] simp del: length_greater_0_conv)

declare occurrences.simps [simp del]

lemma count_str_loop_run:
  assumes "b = s @ NUL # r" "NUL \<notin> set s" "p = w @ NUL # q" "NUL \<notin> set w" "w \<noteq> []" "length w \<le> Suc (Suc (length r))" "i \<le> length s"
  shows "count_str_loop b p (length s) (length w) i k = Some (k + occurrences w (drop i s))"
  using assms(7)
proof (induction "length s - i" arbitrary: i k rule: less_induct)
  case less
  show ?case
  proof (cases "i = length s")
    case True
    then show ?thesis by (subst count_str_loop.simps) (simp add: occurrences.simps[of w "[]"])
  next
    case False
    then have i: "i < length s" using less.prems by simp
    have same: "same_bytes b i p (length w) = Some (take (length w) (drop i s) = w)"
    proof -
      have "take (length w) (drop i b) = w \<longleftrightarrow> take (length w) (drop i s) = w"
      proof (cases "i + length w \<le> length s")
        case False
        then have "NUL \<in> set (take (length w) (drop i b))" using i assms(1) by (auto simp: take_Cons')
        then have "take (length w) (drop i b) \<noteq> w" using assms(4) by metis
        moreover have "length (take (length w) (drop i s)) < length w" using False i by simp
        ultimately show ?thesis by fastforce
      qed (simp add: assms(1))
      then show ?thesis using i assms(1,3,6) by (simp add: same_bytes_def)
    qed
    have ih: "count_str_loop b p (length s) (length w) j k' = Some (k' + occurrences w (drop j s))" if "i < j" "j \<le> length s" for j k'
      using less.hyps[of j k'] that i by simp
    show ?thesis
    proof (cases "take (length w) (drop i s) = w")
      case True
      then have "length (take (length w) (drop i s)) = length w" by simp
      then have "i + length w \<le> length s" using i by simp
      moreover have "0 < length w" using assms(5) by simp
      ultimately show ?thesis using True same i assms(5) ih[of "i + length w" "Suc k"]
        by (subst count_str_loop.simps) (simp add: occurrences.simps[of w "drop i s"] add.commute)
    next
      case False
      then show ?thesis using same i assms(5) ih[of "Suc i" k]
        by (subst count_str_loop.simps) (simp add: occurrences.simps[of w "drop i s"] tl_drop drop_Suc)
    qed
  qed
qed

lemma count_str_loop_empty:
  assumes "count_str_loop b p n1 n2 i k = Some x"
  shows "n2 = 0 \<longrightarrow> n1 \<le> i"
  by (rule count_str_loop.raw_induct[OF _ assms]) (fastforce simp: same_bytes_def split: if_splits bind_splits)

section \<open>Case of mixed text\<close>

text \<open>A function on the single-byte characters of a text; a lead byte goes with the byte behind it.\<close>

fun on_single :: "(char \<Rightarrow> char) \<Rightarrow> string \<Rightarrow> string" where
  "on_single f [] = []"
| "on_single f [c] = [if lead_byte c then c else f c]"
| "on_single f (c # d # s) = (if lead_byte c then c # d # on_single f s else f c # on_single f (d # s))"

lemma on_single_Cons: "\<not> lead_byte c \<Longrightarrow> on_single f (c # s) = f c # on_single f s"
  by (cases s) auto

lemma case_loop_run:
  assumes "n \<le> length b" "i \<le> Suc n"
  shows "case_loop f n i b = Some (take i b @ on_single f (drop i (take n b)) @ drop (max i n) b)"
  using assms
proof (induction f n i b rule: case_loop.induct)
  case (1 f n i b)
  show ?case
  proof (cases "n \<le> i")
    case True
    then show ?thesis by (subst case_loop.simps) (simp add: max_def)
  next
    case False
    have d: "drop i (take n b) = b ! i # drop (Suc i) (take n b)" "drop i b = b ! i # drop (Suc i) b"
      using False "1.prems" by (simp_all add: Cons_nth_drop_Suc[symmetric])
    show ?thesis
    proof (cases "lead_byte (b ! i)")
      case True
      have ih: "case_loop f n (Suc (Suc i)) b = Some (take (Suc (Suc i)) b @ on_single f (drop (Suc (Suc i)) (take n b)) @ drop (max (Suc (Suc i)) n) b)"
        using 1(1) False True "1.prems" by simp
      show ?thesis
      proof (cases "Suc i < n")
        case s: True
        have d': "drop (Suc i) (take n b) = b ! Suc i # drop (Suc (Suc i)) (take n b)" using s "1.prems" by (simp add: Cons_nth_drop_Suc[symmetric])
        have "take (Suc (Suc i)) b = take i b @ [b ! i, b ! Suc i]" using s "1.prems" by (simp add: take_Suc_conv_app_nth)
        moreover have "max i n = n" "max (Suc (Suc i)) n = n" using s by auto
        ultimately show ?thesis using ih False True "1.prems" by (subst case_loop.simps) (simp add: d(1) d')
      next
        case s: False
        then have n: "n = Suc i" using False by simp
        have "take (Suc (Suc i)) b @ drop (Suc (Suc i)) b = take i b @ b ! i # drop (Suc i) b" by (metis append_take_drop_id d(2))
        moreover have "drop i (take (Suc i) b) = [b ! i]" using d(1) n by simp
        ultimately show ?thesis using ih False True "1.prems" n by (subst case_loop.simps) (simp add: max_def)
      qed
    next
      case nl: False
      define b' where "b' = b[i := f (b ! i)]"
      have ih: "case_loop f n (Suc i) b' = Some (take (Suc i) b' @ on_single f (drop (Suc i) (take n b')) @ drop (max (Suc i) n) b')"
        using 1(2) False nl "1.prems" by (simp add: b'_def)
      have "take (Suc i) b' = take i b @ [f (b ! i)]" "drop (Suc i) (take n b') = drop (Suc i) (take n b)" "drop n b' = drop n b"
        using False "1.prems" by (simp_all add: b'_def take_Suc_conv_app_nth take_update_swap list_update_append)
      moreover have "max i n = n" "max (Suc i) n = n" using False by auto
      ultimately show ?thesis using ih False nl "1.prems" by (subst case_loop.simps) (simp add: d(1) on_single_Cons b'_def[symmetric])
    qed
  qed
qed

section \<open>Properties\<close>

text \<open>
  On a buffer that holds a non-empty string, no longer than the given length, \<^verbatim>\<open>basLTrim\<close> leaves the string without the blanks at its start,
  \<^verbatim>\<open>basRTrim\<close> without those at its end and \<^verbatim>\<open>basRemoveSpace\<close> without any.
\<close>

theorem blanks_removed:
  assumes "holds b s" "s \<noteq> []" "length s \<le> n"
  shows "(\<exists>b'. basLTrim b n = Some b' \<and> holds b' (dropWhile blank s)) \<and> (\<exists>b'. basRTrim b n = Some b' \<and> holds b' (rtrim s))
    \<and> (\<exists>b'. basRemoveSpace b n = Some b' \<and> holds b' (filter (\<lambda>c. \<not> blank c) s))"
  using LTrim_holds[OF assms(1,3)] RTrim_holds[OF assms(1,3,2)] RemoveSpace_holds[OF assms(1,3,2)] by blast

theorem blanks_removed_witness:
  "(\<exists>b'. basLTrim ('' a b '' @ [NUL]) 9 = Some b' \<and> holds b' ''a b '') \<and> (\<exists>b'. basRTrim ('' a b '' @ [NUL]) 9 = Some b' \<and> holds b' '' a b'')
    \<and> (\<exists>b'. basRemoveSpace ('' a b '' @ [NUL]) 9 = Some b' \<and> holds b' ''ab'')"
  using blanks_removed[of "'' a b '' @ [NUL]" "'' a b ''" 9] by (simp add: holds_def rtrim_def)

text \<open>
  \<^verbatim>\<open>basAddString\<close> adds one to a number of \<open>n\<close> decimal places; after the greatest number it goes on with zero. Nothing else changes.
\<close>

theorem add_string_counts:
  assumes "n \<le> length b" "\<forall>c \<in> set (take n b). is_digit c"
  shows "\<exists>b'. basAddString b n = Some b' \<and> drop n b' = drop n b \<and> (\<forall>c \<in> set (take n b'). is_digit c)
    \<and> digits_value 0 (take n b') = (digits_value 0 (take n b) + 1) mod 10 ^ n"
  using AddString_counts[OF assms] by blast

theorem add_string_counts_witness:
  "\<exists>b'. basAddString ''1299x'' 4 = Some b' \<and> drop 4 b' = ''x'' \<and> (\<forall>c \<in> set (take 4 b'). is_digit c) \<and> digits_value 0 (take 4 b') = 1300"
  using add_string_counts[of 4 "''1299x''"] by (simp add: is_digit_def)

text \<open>
  \<^verbatim>\<open>basMemcmp\<close> gives 0 exactly when the strings, padded with blanks, agree in the first \<open>n\<close> places, and the opposite
  result when the arguments are exchanged (C34).
\<close>

theorem memcmp_ignores_blanks:
  assumes "holds b1 s1" "holds b2 s2"
  shows "\<exists>r. basMemcmp b1 b2 n = Some r \<and> basMemcmp b2 b1 n = Some (- r) \<and> (r = 0 \<longleftrightarrow> pad n s1 = pad n s2)"
  using memcmp_loop_run[OF assms, of False 0 False n] memcmp_loop_run[OF assms(2,1), of False 0 False n]
  by (simp add: basMemcmp_def pad_cmp_eq pad_cmp_swap[of s2 s1])

theorem memcmp_ignores_blanks_witness:
  "\<exists>r. basMemcmp (''ab  '' @ [NUL]) (''ab'' @ [NUL]) 9 = Some r \<and> basMemcmp (''ab'' @ [NUL]) (''ab  '' @ [NUL]) 9 = Some (- r) \<and> r = 0"
  using memcmp_ignores_blanks[of "''ab  '' @ [NUL]" "''ab  ''" "''ab'' @ [NUL]" "''ab''" 9] by (simp add: holds_def pad_def eval_nat_numeral)

text \<open>
  \<^verbatim>\<open>basCountStr\<close> counts the occurrences of a word that do not overlap, if the bytes behind the text can be read; for the empty word
  it does not return.
\<close>

theorem count_str:
  assumes "NUL \<notin> set s" "s \<noteq> []" "NUL \<notin> set w"
  shows "(w \<noteq> [] \<and> length w \<le> Suc (Suc (length r)) \<longrightarrow> basCountStr (s @ NUL # r) (w @ NUL # q) = Some (occurrences w s))
    \<and> (w = [] \<longrightarrow> basCountStr (s @ NUL # r) (w @ NUL # q) = None)"
proof -
  have l: "buf_strlen (s @ NUL # r) = Some (length s)" "buf_strlen (w @ NUL # q) = Some (length w)"
    using strlen_holds[OF holdsI[OF assms(1)]] strlen_holds[OF holdsI[OF assms(3)]] by auto
  have short: "occurrences w t = 0" if "length t < length w" for t
    using that by (induction w t rule: occurrences.induct) (subst occurrences.simps, auto)
  have "count_str_loop (s @ NUL # r) (w @ NUL # q) (length s) 0 0 0 = None"
    using count_str_loop_empty[of "s @ NUL # r" "w @ NUL # q" "length s" 0 0 0] assms(2) by (cases "count_str_loop (s @ NUL # r) (w @ NUL # q) (length s) 0 0 0") auto
  then show ?thesis using l short count_str_loop_run[of "s @ NUL # r" s r "w @ NUL # q" w q 0 0] assms by (auto simp: basCountStr_def)
qed

theorem count_str_witness:
  "basCountStr (''abcab'' @ [NUL]) (''ab'' @ [NUL]) = Some 2 \<and> basCountStr (''abcab'' @ [NUL]) [NUL] = None"
  using count_str[of "''abcab''" "''ab''" "[]" "[]"] count_str[of "''abcab''" "[]" "[]" "[]"] by (simp add: occurrences.simps)

text \<open>\<^verbatim>\<open>basToUpper\<close> changes the single-byte characters among the first \<open>n\<close> bytes, and no double-byte character.\<close>

theorem to_upper_mixed:
  assumes "n \<le> length b"
  shows "basToUpper b n = Some (on_single toupper (take n b) @ drop n b) \<and> basToLower b n = Some (on_single tolower (take n b) @ drop n b)"
  using case_loop_run[OF assms, of 0] by (simp add: basToUpper_def basToLower_def)

theorem to_upper_mixed_witness:
  "basToUpper [CHR ''a'', CHR 0xB0, CHR ''a'', CHR ''b''] 4 = Some [CHR ''A'', CHR 0xB0, CHR ''a'', CHR ''B'']"
  using to_upper_mixed[of 4 "[CHR ''a'', CHR 0xB0, CHR ''a'', CHR ''b'']"] by (simp add: toupper_def lead_byte_def char_of_def bit_0)

end
