(* ===== verification/Bas_Str_Copy_Correct.thy ===== *)
theory Bas_Str_Copy_Correct
  imports Bas_Str_Copy Bas_String_Correct "HOL-Library.Sublist"
begin

text \<open>
  What the functions of \<open>Bas_Str_Copy\<close> write: bounded copies stay within the size they are given, alignment pads with blanks, escaped text can
  be read back, byte sequences are substituted by the first rule that applies, and a text is cut between characters.
\<close>

section \<open>Bounded copies\<close>

lemma buf_store_snoc: "length xs = i \<Longrightarrow> i < length d \<Longrightarrow> buf_store (xs @ drop i d) i c = Some ((xs @ [c]) @ drop (Suc i) d)"
  using store_at_end[of i d xs c] by simp

lemma lcpy_loop_run:
  assumes "src = s @ NUL # r" "NUL \<notin> set s" "i \<le> length s" "i + Suc n \<le> length dst"
  shows "lcpy_loop src (Suc n) i (take i s @ drop i dst) =
    (if length s < i + n then Some (i + n - length s, Suc (length s), s @ NUL # drop (Suc (length s)) dst)
     else Some (0, i + n, take (i + n) s @ drop (i + n) dst))"
  using assms(3,4)
proof (induction n arbitrary: i)
  case (Suc n)
  have len: "length (take i s) = i" using Suc.prems by simp
  show ?case
  proof (cases "i = length s")
    case True
    then have "buf_load src i = Some NUL" by (simp add: assms(1) buf_load_def)
    moreover have "buf_store (take i s @ drop i dst) i NUL = Some ((take i s @ [NUL]) @ drop (Suc i) dst)"
      using Suc.prems by (intro buf_store_snoc len) simp
    ultimately show ?thesis using True by simp
  next
    case False
    then have i: "i < length s" using Suc.prems by simp
    then have "buf_load src i = Some (s ! i)" "s ! i \<noteq> NUL" using assms(1,2) by (auto simp: buf_load_def nth_append in_set_conv_nth)
    moreover have "buf_store (take i s @ drop i dst) i (s ! i) = Some (take (Suc i) s @ drop (Suc i) dst)"
      using buf_store_snoc[OF len, of dst "s ! i"] i Suc.prems by (simp add: take_Suc_conv_app_nth)
    ultimately show ?thesis using Suc.IH[of "Suc i"] i Suc.prems by simp
  qed
qed simp

lemma Strlcpy_run:
  assumes "holds src s" "sz \<le> length dst"
  shows "basStrlcpy dst src sz = Some (length s, if sz = 0 then dst else take (sz - 1) s @ NUL # drop (Suc (min (sz - 1) (length s))) dst)"
proof -
  obtain r where src: "src = s @ NUL # r" "NUL \<notin> set s" using assms(1) by (rule holdsE)
  show ?thesis
  proof (cases sz)
    case 0
    then show ?thesis using strlen_holds[OF assms(1)] by (simp add: basStrlcpy_def)
  next
    case (Suc n)
    have run: "lcpy_loop src sz 0 dst = (if length s < n then Some (n - length s, Suc (length s), s @ NUL # drop (Suc (length s)) dst)
        else Some (0, n, take n s @ drop n dst))"
      using lcpy_loop_run[OF src, of 0 n dst] Suc assms(2) by simp
    show ?thesis
    proof (cases "length s < n")
      case True
      then show ?thesis using run Suc by (simp add: basStrlcpy_def min_def)
    next
      case False
      have "buf_store (take n s @ drop n dst) n NUL = Some (take n s @ NUL # drop (Suc n) dst)"
        using buf_store_snoc[of "take n s" n dst NUL] False Suc assms(2) by simp
      moreover have "buf_strlen (drop n src) = Some (length s - n)"
        using strlen_holds[OF holds_drop[OF assms(1), of n]] False by simp
      ultimately show ?thesis using run Suc False by (simp add: basStrlcpy_def min_def)
    qed
  qed
qed

lemma end_loop_holds: "NUL \<notin> set t \<Longrightarrow> end_loop (t @ NUL # r) n = Some (min (length t) n)"
  by (induction t arbitrary: n) (case_tac n; auto)+

lemma lcat_loop_run:
  assumes "0 < n" "length t + n \<le> length dst"
  shows "lcat_loop s n (length t) (t @ drop (length t) dst) = Some (length t + min (n - 1) (length s), t @ take (n - 1) s @ drop (length t + min (n - 1) (length s)) dst)"
  using assms
proof (induction s arbitrary: n t)
  case (Cons c s)
  show ?case
  proof (cases "n = 1")
    case True
    then show ?thesis using Cons.IH[of n t] Cons.prems by simp
  next
    case False
    have st: "buf_store (t @ drop (length t) dst) (length t) c = Some ((t @ [c]) @ drop (Suc (length t)) dst)"
      using False Cons.prems by (intro buf_store_snoc) auto
    obtain m where n: "n = Suc (Suc m)" using False Cons.prems(1) by (cases n; cases "n - 1") auto
    show ?thesis using Cons.IH[of "n - 1" "t @ [c]"] Cons.prems st n by simp
  qed
qed simp

lemma Strlcat_run:
  assumes "holds dst t" "holds src s" "length t < sz" "sz \<le> length dst"
  shows "basStrlcat dst src sz = Some (length t + length s,
    t @ take (sz - 1 - length t) s @ NUL # drop (Suc (length t + min (sz - 1 - length t) (length s))) dst)"
proof -
  obtain r where dst: "dst = t @ NUL # r" "NUL \<notin> set t" using assms(1) by (rule holdsE)
  obtain q where src: "src = s @ NUL # q" "NUL \<notin> set s" using assms(2) by (rule holdsE)
  define d where "d = length t + min (sz - length t - 1) (length s)"
  have "lcat_loop s (sz - length t) (length t) dst = Some (d, t @ take (sz - length t - 1) s @ drop d dst)"
    using lcat_loop_run[of "sz - length t" t dst s] assms(3,4) by (simp add: dst(1) d_def)
  moreover have "buf_store ((t @ take (sz - length t - 1) s) @ drop d dst) d NUL = Some (((t @ take (sz - length t - 1) s) @ [NUL]) @ drop (Suc d) dst)"
    using assms(3,4) by (intro buf_store_snoc) (auto simp: d_def min_def)
  moreover have "sz - length t - 1 = sz - 1 - length t" by simp
  ultimately show ?thesis using end_loop_holds[OF dst(2), of r sz] strlen_holds[OF assms(2)] assms(3,4)
    by (simp add: basStrlcat_def dst(1)[symmetric] src(1)[symmetric] holds_take[OF assms(2)] d_def)
qed

text \<open>A destination without terminator in the given size is left as it is.\<close>

lemma Strlcat_full:
  assumes "holds src s" "sz \<le> length dst" "NUL \<notin> set (take sz dst)"
  shows "basStrlcat dst src sz = Some (sz + length s, dst)"
proof -
  have "end_loop dst sz = Some sz" using assms(2,3)
  proof (induction dst arbitrary: sz)
    case (Cons c d)
    then show ?case by (cases sz) auto
  qed simp
  then show ?thesis using strlen_holds[OF assms(1)] by (simp add: basStrlcat_def)
qed

lemma Strcpy_run:
  assumes "holds src s" "0 < sz" "sz \<le> length dst"
  shows "\<exists>d. basStrcpy dst src sz = Some d \<and> holds d (take (sz - 1) s) \<and> drop sz d = drop sz dst"
proof -
  obtain r where src: "src = s @ NUL # r" "NUL \<notin> set s" using assms(1) by (rule holdsE)
  have d: "drop sz (take (sz - 1) dst @ NUL # drop sz dst) = drop sz dst" using assms(2,3) by simp
  have u: "dst[sz - 1 := NUL] = take (sz - 1) dst @ NUL # drop sz dst" using assms(2,3) by (simp add: upd_conv_take_nth_drop)
  show ?thesis
  proof (cases "sz < length s + 1")
    case True
    then have "basStrcpy dst src sz = Some (take (sz - 1) s @ NUL # drop sz dst)"
      using assms(2,3) strlen_holds[OF assms(1)] u by (cases sz) (simp_all add: basStrcpy_def buf_store_def buf_copy_def src(1))
    moreover have "NUL \<notin> set (take (sz - 1) s)" using src(2) by (auto dest: in_set_takeD)
    ultimately show ?thesis using assms(2) True by auto
  next
    case False
    then have "basStrcpy dst src sz = Some (s @ NUL # drop (Suc (length s)) (dst[sz - 1 := NUL]))"
      using assms(2,3) strlen_holds[OF assms(1)] buf_store_snoc[of s "length s" "dst[sz - 1 := NUL]" NUL]
      by (simp add: basStrcpy_def buf_store_def[of dst] buf_copy_def src(1))
    moreover obtain k where "sz = Suc (length s + k)" using False less_imp_Suc_add[of "length s" sz] by auto
    ultimately show ?thesis using src(2) by (auto simp: add.commute)
  qed
qed

section \<open>Parts of strings and alignment\<close>

lemma copy_n_run:
  assumes "n < length dst" "n \<le> length src"
  shows "copy_n dst src n = Some (take n src @ NUL # drop (Suc n) dst)"
  using assms buf_store_snoc[of "take n src" n dst NUL] by (simp add: copy_n_def buf_copy_def)

lemma holds_prefix:
  assumes "holds src s" "n \<le> length src"
  shows "holds (take n src @ NUL # d) (take n s)"
proof -
  obtain r where src: "src = s @ NUL # r" "NUL \<notin> set s" using assms(1) by (rule holdsE)
  have "NUL \<notin> set (take n s)" using src(2) by (auto dest: in_set_takeD)
  then show ?thesis using holdsI[of "take n s"] by (cases "n \<le> length s") (auto simp: src(1) take_Cons' intro!: holdsI)
qed

lemma Substr_run:
  assumes "holds src s" "0 \<le> start" "nat start < length s" "nat start + len \<le> length src" "len < length dst" "length s < length dst"
  shows "\<exists>d. basSubstr dst src len start = Some (Some d) \<and> holds d (take len (drop (nat start) s))"
proof -
  define k where "k = (if length s < len then length s - nat start else len)"
  have "holds (take k (drop (nat start) src) @ NUL # drop (Suc k) dst) (take k (drop (nat start) s))"
    using assms(3,4) holds_length[OF assms(1)] by (intro holds_prefix holds_drop[OF assms(1)]) (auto simp: k_def)
  moreover have "take k (drop (nat start) s) = take len (drop (nat start) s)" by (simp add: k_def)
  moreover have "copy_n dst (drop (nat start) src) k = Some (take k (drop (nat start) src) @ NUL # drop (Suc k) dst)"
    using assms(4-6) holds_length[OF assms(1)] by (intro copy_n_run) (auto simp: k_def)
  ultimately show ?thesis using strlen_holds[OF assms(1)] assms(2,3) by (auto simp: basSubstr_def k_def split: if_splits)
qed

lemma LeftStr_run:
  assumes "holds src s" "length s < length dst"
  shows "\<exists>d. basLeftStr dst src n = Some d \<and> holds d (take n s)"
proof -
  have "copy_n dst src (min n (length s)) = Some (take (min n (length s)) src @ NUL # drop (Suc (min n (length s))) dst)"
    using assms holds_length[OF assms(1)] by (intro copy_n_run) auto
  moreover have "holds (take (min n (length s)) src @ NUL # drop (Suc (min n (length s))) dst) (take (min n (length s)) s)"
    using holds_length[OF assms(1)] by (intro holds_prefix[OF assms(1)]) auto
  moreover have "(if length s < n then length s else n) = min n (length s)" "take (min n (length s)) s = take n s" by (auto simp: min_def)
  ultimately show ?thesis using strlen_holds[OF assms(1)] by (auto simp: basLeftStr_def)
qed

lemma RightStr_run:
  assumes "holds src s" "length s < length dst"
  shows "\<exists>d. basRightStr dst src n = Some d \<and> holds d (drop (length s - n) s)"
proof -
  have h: "holds (drop (length s - n) src) (drop (length s - n) s)" by (rule holds_drop[OF assms(1)]) simp
  have "buf_strcpy dst (drop (length s - n) src) = Some (drop (length s - n) s @ NUL # drop (Suc (length (drop (length s - n) s))) dst)"
    using assms(2) by (intro strcpy_holds[OF h]) simp
  moreover have "length s - (if length s < n then length s else n) = length s - n" by simp
  ultimately show ?thesis using strlen_holds[OF assms(1)] holds_no_NUL[OF h] by (auto simp: basRightStr_def Let_def)
qed

text \<open>The three ways to place a string in a field of \<open>w\<close> places\<close>

definition aligned :: "char \<Rightarrow> nat \<Rightarrow> string \<Rightarrow> string" where
  "aligned cType w s = (let gap = w - length s; left = (if cType = CHR ''L'' then 0 else if cType = CHR ''M'' then gap div 2 else gap)
     in replicate left (CHR '' '') @ s @ replicate (gap - left) (CHR '' ''))"

lemma SetAlign_run:
  assumes "holds src s" "length s \<le> w" "w < length dst" "serves malloc (Suc w)" "cType \<in> {CHR ''L'', CHR ''M'', CHR ''R''}"
  shows "\<exists>d. basSetAlign malloc cType w src dst = Some (0, d) \<and> take w d = aligned cType w s"
proof -
  obtain r where src: "src = s @ NUL # r" "NUL \<notin> set s" using assms(1) by (rule holdsE)
  obtain p where p: "malloc (length s + 1) = Some p" "length p = length s + 1"
    using assms(2,4) by (elim serves_block[of malloc "Suc w" "length s + 1"]) auto
  have tmp: "buf_copy (replicate (length s + 1) NUL) 0 src (length s) = Some (s @ [NUL])"
    using drop_zeros[of "length s" "length s"] by (simp add: buf_copy_def src(1))
  define gap where "gap = (w - length s) div 2"
  have f1: "fill_loop (CHR '' '') 0 gap dst = Some (replicate gap (CHR '' '') @ drop gap dst)"
    using fill_loop_run[of 0 gap dst "CHR '' ''"] assms(3) by (simp add: gap_def)
  have f2: "buf_copy (replicate gap (CHR '' '') @ drop gap dst) gap (s @ [NUL]) (length s) = Some (replicate gap (CHR '' '') @ s @ drop (gap + length s) dst)"
    using assms(2,3) by (auto simp: buf_copy_def gap_def add.commute)
  have le: "gap + length s \<le> w" using assms(2) by (auto simp: gap_def)
  have f3: "fill_loop (CHR '' '') (gap + length s) w (replicate gap (CHR '' '') @ s @ drop (gap + length s) dst)
      = Some (replicate gap (CHR '' '') @ s @ replicate (w - (gap + length s)) (CHR '' '') @ drop w dst)"
    using fill_loop_run[of "gap + length s" w "replicate gap (CHR '' '') @ s @ drop (gap + length s) dst" "CHR '' ''"] le assms(3) by simp
  have c: "cstr s = s" using src(2) by simp
  have pr: "buf_sprintf dst x = Some (x @ NUL # drop (Suc w) dst)" if "length x = w" for x
    using that assms(3) by (simp add: buf_sprintf_def)
  consider "cType = CHR ''L''" | "cType = CHR ''M''" | "cType = CHR ''R''" using assms(5) by auto
  then show ?thesis
  proof cases
    case 2
    then show ?thesis using strlen_holds[OF assms(1)] assms(2) p tmp f1 f2 f3 le zero_all[OF p(2)]
      by (simp add: basSetAlign_def c gap_def[symmetric] aligned_def Let_def)
  qed (use strlen_holds[OF assms(1)] assms(2) p tmp zero_all[OF p(2)] pr in \<open>simp_all add: basSetAlign_def c aligned_def Let_def\<close>)
qed

section \<open>Texts of whole characters\<close>

text \<open>A text in which every lead byte is followed by another byte\<close>

fun whole :: "(char \<Rightarrow> bool) \<Rightarrow> string \<Rightarrow> bool" where
  "whole lead [] = True"
| "whole lead (c # s) = (if lead c then (case s of [] \<Rightarrow> False | d # t \<Rightarrow> whole lead t) else whole lead s)"

lemma whole_induct [consumes 1, case_names Nil single double]:
  assumes "whole lead s" "P []" "\<And>c s. \<not> lead c \<Longrightarrow> whole lead s \<Longrightarrow> P s \<Longrightarrow> P (c # s)"
    "\<And>c d s. lead c \<Longrightarrow> whole lead s \<Longrightarrow> P s \<Longrightarrow> P (c # d # s)"
  shows "P s"
  using assms(1)
proof (induction s rule: length_induct)
  case (1 s)
  show ?case
  proof (cases s)
    case (Cons c t)
    then show ?thesis using 1 assms(3,4) by (cases "lead c"; cases t) (auto simp del: whole.simps(2) simp: whole.simps(2)[of lead c])
  qed (simp add: assms(2))
qed

lemma whole_append: "whole lead xs \<Longrightarrow> whole lead ys \<Longrightarrow> whole lead (xs @ ys)"
  by (induction rule: whole_induct) auto

abbreviation high :: "char \<Rightarrow> bool" where
  "high c \<equiv> 0x80 \<le> (of_char c :: nat)"

lemma half_loop_run:
  assumes "i \<le> pos" "pos \<le> length b" "whole high (take i b)"
  shows "half_loop b pos i = Some pos \<and> whole high (take pos b)
    \<or> half_loop b pos i = Some (Suc pos) \<and> 0 < pos \<and> high (b ! (pos - 1)) \<and> whole high (take (pos - 1) b)"
  using assms
proof (induction "pos - i" arbitrary: i rule: less_induct)
  case less
  show ?case
  proof (cases "i = pos")
    case True
    then show ?thesis using less.prems by (subst half_loop.simps) simp
  next
    case False
    then have i: "i < pos" using less.prems by simp
    have t1: "take (Suc i) b = take i b @ [b ! i]" using i less.prems by (simp add: take_Suc_conv_app_nth)
    show ?thesis
    proof (cases "high (b ! i)")
      case h: True
      show ?thesis
      proof (cases "Suc i = pos")
        case True
        have "half_loop b pos i = Some (Suc pos)" using i h True less.prems
          by (subst half_loop.simps, subst half_loop.simps) simp
        then show ?thesis using True h less.prems by auto
      next
        case False
        then have "take (Suc (Suc i)) b = take i b @ [b ! i, b ! Suc i]" using i less.prems by (simp add: take_Suc_conv_app_nth)
        then have "whole high (take (Suc (Suc i)) b)" using h less.prems(3) by (simp add: whole_append)
        moreover have "half_loop b pos i = half_loop b pos (Suc (Suc i))" using i h less.prems by (subst half_loop.simps) simp
        ultimately show ?thesis using less.hyps[of "Suc (Suc i)"] i False less.prems by simp
      qed
    next
      case l: False
      have "whole high (take (Suc i) b)" unfolding t1 using l less.prems(3) by (simp add: whole_append)
      moreover have "half_loop b pos i = half_loop b pos (Suc i)" using i l less.prems by (subst half_loop.simps) simp
      ultimately show ?thesis using less.hyps[of "Suc i"] i less.prems by simp
    qed
  qed
qed

lemma TrimHalfChsChar_run:
  assumes "pos \<le> length b"
  shows "\<exists>j b'. basTrimHalfChsChar b pos = Some (j, b') \<and> whole high (take pos b') \<and> drop pos b' = drop pos b
    \<and> (b' = b \<or> 0 < pos \<and> b' = b[pos - 1 := CHR '' ''])"
proof -
  have "whole high (take 0 b)" by simp
  from half_loop_run[OF le0 assms this] show ?thesis
  proof (elim disjE conjE)
    assume h: "half_loop b pos 0 = Some (Suc pos)" "0 < pos" "high (b ! (pos - 1))" "whole high (take (pos - 1) b)"
    have "take pos (b[pos - 1 := CHR '' '']) = take (pos - 1) b @ [CHR '' '']"
      using h(2) assms by (cases pos) (simp_all add: take_Suc_conv_app_nth)
    then show ?thesis using h by (auto simp: basTrimHalfChsChar_def intro!: whole_append)
  qed (auto simp: basTrimHalfChsChar_def)
qed

section \<open>Escapes\<close>

fun escape :: "string \<Rightarrow> string" where
  "escape [] = []"
| "escape (c # s) =
     (if c = CHR ''|'' \<or> c = CHR 0x5C then CHR 0x5C # c # escape s
      else if lead_byte c then (case s of [] \<Rightarrow> [c, NUL] | d # t \<Rightarrow> c # d # escape t) else c # escape s)"

fun unescape :: "string \<Rightarrow> string" where
  "unescape [] = []"
| "unescape (c # s) =
     (if c = CHR 0x5C then (case s of [] \<Rightarrow> [] | d # t \<Rightarrow> d # unescape t)
      else if lead_byte c then (case s of [] \<Rightarrow> [c] | d # t \<Rightarrow> c # d # unescape t) else c # unescape s)"

lemma lead_byte_ASCII [simp]: "\<not> lead_byte (CHR ''|'')" "\<not> lead_byte (CHR 0x5C)"
  by (simp_all add: lead_byte_def)

lemma unescape_escape: "whole lead_byte s \<Longrightarrow> unescape (escape s) = s"
  by (induction rule: whole_induct) auto

lemma escape_no_NUL: "whole lead_byte s \<Longrightarrow> NUL \<notin> set s \<Longrightarrow> NUL \<notin> set (escape s)"
  by (induction rule: whole_induct) auto

lemma trans_loop_run:
  assumes "whole lead_byte t" "length xs + length (escape t) \<le> 1024" "length z = 1025"
  shows "trans_loop (t @ u) (length xs) (xs @ drop (length xs) z) =
    trans_loop u (length xs + length (escape t)) (xs @ escape t @ drop (length xs + length (escape t)) z)"
  using assms(1,2)
proof (induction arbitrary: xs rule: whole_induct)
  case (single c s)
  note st = buf_store_snoc[of xs "length xs" z c] buf_store_snoc[of xs "length xs" z "CHR 0x5C"] buf_store_snoc[of "xs @ [CHR 0x5C]" "Suc (length xs)" z c]
  show ?case
  proof (cases "c = CHR ''|'' \<or> c = CHR 0x5C")
    case True
    then show ?thesis using single.IH[of "xs @ [CHR 0x5C, c]"] single.prems st(2,3) assms(3) by auto
  next
    case False
    then show ?thesis using single.IH[of "xs @ [c]"] single.prems single.hyps st(1) assms(3) by auto
  qed
next
  case (double c d s)
  have "c \<noteq> CHR ''|'' \<and> c \<noteq> CHR 0x5C" using double.hyps by (auto simp: lead_byte_def)
  then show ?case using double.IH[of "xs @ [c, d]"] double.prems double.hyps assms(3)
      buf_store_snoc[of xs "length xs" z c] buf_store_snoc[of "xs @ [c]" "Suc (length xs)" z d] by auto
qed simp

lemma print_field_holds: "holds b s \<Longrightarrow> print_field n b = Some (pad n s)"
  by (auto simp: print_field_def holds_def pad_def)

lemma TransVertical_run:
  assumes "holds b s" "n \<le> 1024" "whole lead_byte (pad n s)" "length (escape (pad n s)) \<le> 1024"
  shows "\<exists>out. basTransVertical b n = Some out \<and> holds out (escape (pad n s))"
proof -
  define k where "k = length (escape (pad n s))"
  have "trans_loop (pad n s) 0 (replicate 1025 NUL) = Some (escape (pad n s) @ drop k (replicate 1025 NUL))"
    using trans_loop_run[OF assms(3), of "[]" "replicate 1025 NUL" "[]"] assms(4) by (simp add: k_def)
  moreover have "drop k (replicate 1025 NUL) = NUL # replicate (1024 - k) NUL" using assms(4) drop_zeros[of k 1024] by (simp add: k_def)
  moreover have "NUL \<notin> set (pad n s)" using holds_no_NUL[OF assms(1)] by (auto simp: pad_def dest: in_set_takeD)
  then have "NUL \<notin> set (escape (pad n s))" by (rule escape_no_NUL[OF assms(3)])
  ultimately show ?thesis using print_field_holds[OF assms(1)] assms(2) by (auto simp: basTransVertical_def)
qed

section \<open>Substitution\<close>

text \<open>The specification: the rules for the encoding whose left-hand side the text starts with, in their order\<close>

definition applying :: "tppled list \<Rightarrow> string \<Rightarrow> string \<Rightarrow> tppled list" where
  "applying rs enc s = [r \<leftarrow> rs. code r = enc \<and> prefix (tranfrom r) s]"

function substitute :: "tppled list \<Rightarrow> string \<Rightarrow> string \<Rightarrow> string" where
  "substitute rs enc s =
     (if s = [] then []
      else case applying rs enc s of
          r # _ \<Rightarrow> if tranfrom r = [] then [] else tranto r @ substitute rs enc (drop (length (tranfrom r)) s)
        | [] \<Rightarrow> hd s # substitute rs enc (tl s))"
  by pat_completeness auto
termination by (relation "measure (\<lambda>(rs, enc, s). length s)") auto

declare substitute.simps [simp del]

lemma starts_with: "(\<not> length s < length p \<and> take (length p) s = p) \<longleftrightarrow> prefix p s"
  by (metis append_eq_conv_conj not_less prefix_def prefix_length_le)

lemma find_rule_first: "find_rule rs enc s = (case applying rs enc s of [] \<Rightarrow> None | r # _ \<Rightarrow> Some r)"
  using starts_with by (induction rs) (auto simp: applying_def)

lemma applying_in: "applying rs enc s = r # rs' \<Longrightarrow> r \<in> set rs"
  unfolding applying_def by (metis filter_is_subset list.set_intros(1) subsetD)

lemma copy_at_end: "length xs = d \<Longrightarrow> d + length ys \<le> length z \<Longrightarrow> buf_copy (xs @ drop d z) d ys (length ys) = Some ((xs @ ys) @ drop (d + length ys) z)"
  by (auto simp: buf_copy_def add.commute)

lemma iconv_loop_run:
  assumes "\<forall>r \<in> set rs. tranfrom r \<noteq> []" "length xs + length (substitute rs enc s) \<le> length z"
  shows "iconv_loop rs enc s (length xs) (xs @ drop (length xs) z) =
    Some (length xs + length (substitute rs enc s), xs @ substitute rs enc s @ drop (length xs + length (substitute rs enc s)) z)"
  using assms
proof (induction rs enc s arbitrary: xs rule: substitute.induct)
  case (1 rs enc s)
  note sub = substitute.simps[of rs enc s]
  show ?case
  proof (cases "s = []")
    case True
    then have "substitute rs enc s = []" by (subst sub) simp
    then show ?thesis using True by (subst iconv_loop.simps) simp
  next
    case ne: False
    show ?thesis
    proof (cases "applying rs enc s")
      case none: Nil
      then have None: "find_rule rs enc s = None" by (simp add: find_rule_first)
      have "buf_store (xs @ drop (length xs) z) (length xs) (hd s) = Some ((xs @ [hd s]) @ drop (Suc (length xs)) z)"
        using "1.prems"(2) ne none by (intro buf_store_snoc) (auto simp: sub)
      then show ?thesis using 1(1)[OF ne none, of "xs @ [hd s]"] "1.prems" ne None none by (subst iconv_loop.simps) (simp add: sub)
    next
      case some: (Cons r rs')
      then have Some: "find_rule rs enc s = Some r" by (simp add: find_rule_first)
      have r: "tranfrom r \<noteq> []" using applying_in[OF some] "1.prems"(1) by blast
      have "buf_copy (xs @ drop (length xs) z) (length xs) (tranto r) (length (tranto r)) = Some ((xs @ tranto r) @ drop (length xs + length (tranto r)) z)"
        using "1.prems"(2) ne some r by (intro copy_at_end) (auto simp: sub)
      then show ?thesis using 1(2)[OF ne some r, of "xs @ tranto r"] "1.prems" ne some Some r by (subst iconv_loop.simps) (simp add: sub add.assoc)
    qed
  qed
qed

lemma iconv_loop_endless:
  assumes "iconv_loop rs enc s d out = Some x"
  shows "(\<exists>r. find_rule rs enc s = Some r \<and> tranfrom r = []) \<longrightarrow> s = []"
  by (rule iconv_loop.raw_induct[OF _ assms]) (fastforce split: if_splits bind_splits option.splits)

lemma substitute_no_rules: "substitute [] enc s = s"
  by (induction s) (simp_all add: substitute.simps[of "[]" enc] applying_def)

lemma preiconv_run:
  assumes "holds b s" "\<forall>r \<in> set rs. tranfrom r \<noteq> []" "length (substitute rs enc s) \<le> length out"
  shows "preiconv rs enc b out = Some (length (substitute rs enc s), substitute rs enc s @ drop (length (substitute rs enc s)) out)"
proof (cases "rs = []")
  case True
  then show ?thesis using strlen_holds[OF assms(1)] holds_take(1)[OF assms(1)] holds_length[OF assms(1)] assms(3)
    by (simp add: preiconv_def substitute_no_rules buf_copy_def)
next
  case False
  then show ?thesis using iconv_loop_run[OF assms(2), of "[]" enc s out] strlen_holds[OF assms(1)] holds_take(1)[OF assms(1)] assms(3)
    by (simp add: preiconv_def)
qed

section \<open>Patterns without numbers\<close>

text \<open>The characters of a text at the places marked with \<^verbatim>\<open>#\<close>, until the text ends\<close>

fun picture :: "string \<Rightarrow> string \<Rightarrow> string" where
  "picture [] s = []"
| "picture ps [] = []"
| "picture (p # ps) (c # s) = (if p = CHR ''#'' then c # picture ps s else p # picture ps (c # s))"

abbreviation plain :: "char \<Rightarrow> bool" where
  "plain p \<equiv> p \<notin> {CHR ''U'', CHR ''L'', CHR ''9'', CHR ''Z'', CHR '','', NUL}"

lemma pattern_run:
  assumes "holds b s" "\<forall>p \<in> set ps. plain p" "j \<le> length s" "length xs + length ps \<le> length z"
  shows "\<exists>s'. pattern_loop' b (length xs) ps \<lparr>pat_j = j, pat_buf = xs @ drop (length xs) z, iCFlag = False, iZFlag = False, iNFlag = False\<rparr> = Some s'
    \<and> pat_buf s' = xs @ picture ps (drop j s) @ drop (length xs + length (picture ps (drop j s))) z"
  using assms(2-4)
proof (induction ps arbitrary: j xs)
  case (Cons p ps)
  show ?case
  proof (cases "j = length s")
    case True
    then have "buf_load b j = Some NUL" using assms(1) by (auto elim!: holdsE simp: buf_load_def)
    then show ?thesis using True by simp
  next
    case False
    then have j: "j < length s" using Cons.prems by simp
    then have l: "buf_load b j = Some (s ! j)" "s ! j \<noteq> NUL" using load_holds[OF assms(1)] holds_no_NUL[OF assms(1)] by (auto simp: in_set_conv_nth)
    have d: "drop j s = s ! j # drop (Suc j) s" using j by (simp add: Cons_nth_drop_Suc)
    have st: "buf_store (xs @ drop (length xs) z) (length xs) c = Some ((xs @ [c]) @ drop (Suc (length xs)) z)" for c
      using Cons.prems by (intro buf_store_snoc) auto
    show ?thesis
    proof (cases "p = CHR ''#''")
      case True
      then show ?thesis using Cons.IH[of "Suc j" "xs @ [s ! j]"] Cons.prems j l st d
        by (simp add: pattern_step_def put_char_def next_char_def)
    next
      case False
      then show ?thesis using Cons.IH[of j "xs @ [p]"] Cons.prems j l st d
        by (simp add: pattern_step_def put_char_def next_char_def)
    qed
  qed
qed simp

lemma picture_no_NUL: "\<forall>p \<in> set ps. p \<noteq> NUL \<Longrightarrow> NUL \<notin> set s \<Longrightarrow> NUL \<notin> set (picture ps s)"
  by (induction ps s rule: picture.induct) auto

lemma picture_length: "length (picture ps s) \<le> length ps"
  by (induction ps s rule: picture.induct) auto

lemma StringPattern_run:
  assumes "holds b s" "\<forall>p \<in> set ps. plain p" "length ps < 1024" "length (picture ps s) < length b"
  shows "basStringPattern b ps = Some (picture ps s @ NUL # drop (Suc (length (picture ps s))) b)"
proof -
  obtain s' where s': "pattern_loop' b 0 ps \<lparr>pat_j = 0, pat_buf = replicate 1024 NUL, iCFlag = False, iZFlag = False, iNFlag = False\<rparr> = Some s'"
      "pat_buf s' = picture ps s @ drop (length (picture ps s)) (replicate 1024 NUL)"
    using pattern_run[OF assms(1,2), of 0 "[]" "replicate 1024 NUL"] assms(3) by auto
  have "drop (length (picture ps s)) (replicate 1024 NUL) = NUL # replicate (1023 - length (picture ps s)) NUL"
    using drop_zeros[of "length (picture ps s)" 1023] picture_length[of ps s] assms(3) by simp
  moreover have "NUL \<notin> set (picture ps s)" using picture_no_NUL assms(2) holds_no_NUL[OF assms(1)] by auto
  ultimately have "holds (pat_buf s') (picture ps s)" using s'(2) by auto
  then show ?thesis using s'(1) strcpy_holds[of "pat_buf s'" "picture ps s" b] assms(4) by (simp add: basStringPattern_def)
qed

section \<open>Properties\<close>

text \<open>
  \<^verbatim>\<open>basStrlcpy\<close> and \<^verbatim>\<open>basStrlcat\<close> write at most the given number of bytes, terminate the result, cut the source to what fits, and return the
  length of the string they tried to create; behind the written terminator nothing changes (C31).
\<close>

theorem bounded_copies:
  assumes "holds src s" "holds dst t" "length t < sz" "sz \<le> length dst"
  shows "basStrlcpy dst src sz = Some (length s, take (sz - 1) s @ NUL # drop (Suc (min (sz - 1) (length s))) dst)
    \<and> basStrlcat dst src sz = Some (length t + length s,
        t @ take (sz - 1 - length t) s @ NUL # drop (Suc (length t + min (sz - 1 - length t) (length s))) dst)"
  using Strlcpy_run[OF assms(1,4)] Strlcat_run[OF assms(2,1,3,4)] assms(3) by simp

theorem bounded_copies_witness:
  "basStrlcpy (''xy'' @ [NUL] @ ''zzz'') (''abcdef'' @ [NUL]) 4 = Some (6, ''abc'' @ [NUL] @ ''zz'')
   \<and> basStrlcat (''xy'' @ [NUL] @ ''zzz'') (''abcdef'' @ [NUL]) 4 = Some (8, ''xya'' @ [NUL] @ ''zz'')"
  using bounded_copies[of "''abcdef'' @ [NUL]" "''abcdef''" "''xy'' @ [NUL] @ ''zzz''" "''xy''" 4] by (simp add: holds_def eval_nat_numeral)

text \<open>
  \<^verbatim>\<open>basLeftStr\<close> and \<^verbatim>\<open>basRightStr\<close> give the first and the last characters, \<^verbatim>\<open>basSubstr\<close> those from a position on;
  \<^verbatim>\<open>basMidStr\<close> gives \<^verbatim>\<open>NULL\<close> for every position but the first.
\<close>

theorem parts_of_strings:
  assumes "holds src s" "start < length s" "start + n \<le> length src" "n < length dst" "length s < length dst"
  shows "(\<exists>d. basLeftStr dst src n = Some d \<and> holds d (take n s)) \<and> (\<exists>d. basRightStr dst src n = Some d \<and> holds d (drop (length s - n) s))
    \<and> (\<exists>d. basSubstr dst src n (int start) = Some (Some d) \<and> holds d (take n (drop start s)))
    \<and> (0 < start \<longrightarrow> basMidStr dst src n (int start) = Some None)"
  using LeftStr_run[OF assms(1,5)] RightStr_run[OF assms(1,5)] Substr_run[OF assms(1), of "int start" n dst] assms(2-5) strlen_holds[OF assms(1)]
  by (simp add: basMidStr_def)

theorem parts_of_strings_witness:
  "(\<exists>d. basSubstr ''........'' (''abcde'' @ [NUL]) 2 1 = Some (Some d) \<and> holds d ''bc'') \<and> basMidStr ''........'' (''abcde'' @ [NUL]) 2 1 = Some None"
  using parts_of_strings[of "''abcde'' @ [NUL]" "''abcde''" 1 2 "''........''"] by (simp add: holds_def eval_nat_numeral)

text \<open>
  \<^verbatim>\<open>basSetAlign\<close> places a string that fits into a field of \<open>w\<close> places at the left, in the middle or at the right, and fills the
  rest with blanks.
\<close>

theorem set_align:
  assumes "holds src s" "length s \<le> w" "w < length dst" "serves malloc (Suc w)" "cType \<in> {CHR ''L'', CHR ''M'', CHR ''R''}"
  shows "\<exists>d. basSetAlign malloc cType w src dst = Some (0, d) \<and> take w d = aligned cType w s"
  using assms by (rule SetAlign_run)

theorem set_align_witness:
  "\<exists>d. basSetAlign (\<lambda>n. Some (replicate n NUL)) (CHR ''M'') 5 (''ab'' @ [NUL]) ''........'' = Some (0, d) \<and> take 5 d = '' ab  ''"
  using set_align[of "''ab'' @ [NUL]" "''ab''" 5 "''........''" "\<lambda>n. Some (replicate n NUL)" "CHR ''M''"]
  by (simp add: holds_def serves_def aligned_def Let_def) (simp add: numeral_2_eq_2)

text \<open>
  \<^verbatim>\<open>basTransVertical\<close> escapes bars and backslashes so that the text, padded to its field, can be read back; second bytes of
  double-byte characters are not mistaken for them (C32).
\<close>

theorem escape_roundtrip:
  assumes "holds b s" "n \<le> 1024" "whole lead_byte (pad n s)" "length (escape (pad n s)) \<le> 1024"
  shows "\<exists>out. basTransVertical b n = Some out \<and> NUL \<in> set out \<and> unescape (cstr out) = pad n s"
  using TransVertical_run[OF assms] unescape_escape[OF assms(3)] by (auto simp: holds_def)

theorem escape_roundtrip_witness:
  "\<exists>out. basTransVertical [CHR ''|'', CHR 0x81, CHR ''|'', NUL] 4 = Some out \<and> NUL \<in> set out \<and> unescape (cstr out) = [CHR ''|'', CHR 0x81, CHR ''|'', CHR '' '']"
  using escape_roundtrip[of "[CHR ''|'', CHR 0x81, CHR ''|'', NUL]" "[CHR ''|'', CHR 0x81, CHR ''|'']" 4]
  by (simp add: holds_def pad_def lead_byte_def)

text \<open>A text of 1024 bytes with a bar at its end fills the array of \<^verbatim>\<open>basTransVertical\<close> without a terminator.\<close>

theorem escape_unterminated:
  assumes "NUL \<notin> set s" "length s = 1023" "\<forall>c \<in> set s. c \<noteq> CHR ''|'' \<and> c \<noteq> CHR 0x5C \<and> \<not> lead_byte c"
  shows "\<exists>out. basTransVertical (s @ [CHR ''|'', NUL]) 1024 = Some out \<and> NUL \<notin> set out"
proof -
  have e: "escape s = s \<and> whole lead_byte s" using assms(3) by (induction s) auto
  have "trans_loop (s @ [CHR ''|'']) 0 (replicate 1025 NUL) = trans_loop [CHR ''|''] 1023 (s @ replicate 2 NUL)"
    using trans_loop_run[of s "[]" "replicate 1025 NUL" "[CHR ''|'']"] e assms(2) by simp
  also have "\<dots> = Some (s @ [CHR 0x5C, CHR ''|''])" using assms(2) by (simp add: buf_store_def list_update_append numeral_2_eq_2)
  finally have "basTransVertical (s @ [CHR ''|'', NUL]) 1024 = Some (s @ [CHR 0x5C, CHR ''|''])"
    using print_field_holds[of "s @ [CHR ''|'', NUL]" "s @ [CHR ''|'']" 1024] assms(1,2) holdsI[of "s @ [CHR ''|'']" "[]"]
    by (simp add: basTransVertical_def pad_def)
  then show ?thesis using assms(1) by auto
qed

theorem escape_unterminated_witness:
  "\<exists>out. basTransVertical (replicate 1023 (CHR ''a'') @ [CHR ''|'', NUL]) 1024 = Some out \<and> NUL \<notin> set out"
  by (rule escape_unterminated) (auto simp: lead_byte_def)

text \<open>
  \<^verbatim>\<open>preiconv\<close> replaces from left to right, at each place by the first rule for the encoding whose bytes are found there; the loop ends
  if no rule has an empty left-hand side, and does not end if such a rule is the one that applies (C33).
\<close>

theorem preiconv_substitutes:
  assumes "holds b s"
  shows "((\<forall>r \<in> set rs. tranfrom r \<noteq> []) \<and> length (substitute rs enc s) \<le> length out \<longrightarrow>
      preiconv rs enc b out = Some (length (substitute rs enc s), substitute rs enc s @ drop (length (substitute rs enc s)) out))
    \<and> (s \<noteq> [] \<and> (\<exists>r rs'. applying rs enc s = r # rs' \<and> tranfrom r = []) \<longrightarrow> preiconv rs enc b out = None)"
proof -
  have "preiconv rs enc b out = None" if "s \<noteq> []" "applying rs enc s = r # rs'" "tranfrom r = []" for r rs'
    using that iconv_loop_endless[of rs enc s 0 out] strlen_holds[OF assms] holds_take(1)[OF assms] applying_in[of rs enc s r rs']
    by (cases "iconv_loop rs enc s 0 out") (auto simp: preiconv_def find_rule_first)
  then show ?thesis using preiconv_run[OF assms] by blast
qed

text \<open>The rule for another encoding is not used, and of two rules for the same bytes the first one is.\<close>

theorem preiconv_substitutes_witness:
  "preiconv [\<lparr>code = ''BIG5'', tranfrom = ''ab'', tranto = ''z''\<rparr>, \<lparr>code = ''GBK'', tranfrom = ''ab'', tranto = ''x''\<rparr>, \<lparr>code = ''GBK'', tranfrom = ''abb'', tranto = ''y''\<rparr>]
     ''GBK'' (''aabb'' @ [NUL]) ''......'' = Some (3, ''axb...'')
   \<and> preiconv [\<lparr>code = ''GBK'', tranfrom = [], tranto = ''x''\<rparr>] ''GBK'' (''aabb'' @ [NUL]) ''......'' = None"
  using preiconv_substitutes[of "''aabb'' @ [NUL]" "''aabb''" "[\<lparr>code = ''BIG5'', tranfrom = ''ab'', tranto = ''z''\<rparr>,
      \<lparr>code = ''GBK'', tranfrom = ''ab'', tranto = ''x''\<rparr>, \<lparr>code = ''GBK'', tranfrom = ''abb'', tranto = ''y''\<rparr>]" "''GBK''" "''......''"]
    preiconv_substitutes[of "''aabb'' @ [NUL]" "''aabb''" "[\<lparr>code = ''GBK'', tranfrom = [], tranto = ''x''\<rparr>]" "''GBK''" "''......''"]
  by (simp add: holds_def substitute.simps applying_def eval_nat_numeral)

text \<open>\<^verbatim>\<open>basTrimHalfChsChar\<close> leaves whole characters only in the first \<open>pos\<close> bytes, and changes at most the last of them.\<close>

theorem half_characters:
  assumes "pos \<le> length b"
  shows "\<exists>j b'. basTrimHalfChsChar b pos = Some (j, b') \<and> whole high (take pos b') \<and> drop pos b' = drop pos b
    \<and> (b' = b \<or> 0 < pos \<and> b' = b[pos - 1 := CHR '' ''])"
  using assms by (rule TrimHalfChsChar_run)

theorem half_characters_witness:
  "\<exists>j b'. basTrimHalfChsChar [CHR ''a'', CHR 0xB0, CHR 0xA1] 2 = Some (j, b') \<and> whole high (take 2 b')"
  using half_characters[of 2 "[CHR ''a'', CHR 0xB0, CHR 0xA1]"] by auto

text \<open>
  For a pattern of places \<^verbatim>\<open>#\<close> and other characters without a special meaning, \<^verbatim>\<open>basStringPattern\<close> puts the characters of the text into the
  places, until the text ends.
\<close>

theorem string_pattern:
  assumes "holds b s" "\<forall>p \<in> set ps. plain p" "length ps < 1024" "length (picture ps s) < length b"
  shows "\<exists>b'. basStringPattern b ps = Some b' \<and> holds b' (picture ps s)"
proof -
  have "NUL \<notin> set (picture ps s)" using picture_no_NUL assms(2) holds_no_NUL[OF assms(1)] by auto
  then show ?thesis using StringPattern_run[OF assms] by auto
qed

theorem string_pattern_witness:
  "\<exists>b'. basStringPattern (''112233'' @ [NUL] @ ''........'') ''##:##:##:###'' = Some b' \<and> holds b' ''11:22:33''"
  using string_pattern[of "''112233'' @ [NUL] @ ''........''" "''112233''" "''##:##:##:###''"] by (simp add: holds_def)

end
