(* ===== verification/Bas_Format_Timestamp.thy ===== *)
theory Bas_Format_Timestamp
  imports Bas_Date_Properties Bas_Str_Copy_Correct
begin

text \<open>
  \<^verbatim>\<open>basGetFormatTimestamp\<close> of \<^verbatim>\<open>bas_date.c\<close>, which formats the result of \<^verbatim>\<open>basGetSysTimestamp\<close> in its static array.
\<close>

lemma print0_length: "w \<le> length (print0 w i)"
  by (simp add: print0_def Let_def)

lemma dec_nat_no_NUL: "NUL \<notin> set (dec_nat n)"
  using dec_nat_digits[of NUL n] by (auto simp: is_digit_def)

lemma print0_all_no_NUL: "NUL \<notin> set (print0 w i)"
  using dec_nat_no_NUL by (auto simp: print0_def Let_def)

lemma SysTimestamp_holds:
  assumes "basGetSysTimestamp c = Some b"
  shows "length b = 13 \<and> (\<exists>s. holds b s \<and> length s = 12)"
proof -
  have sp: "length (spaces 13) = 13" "holds (spaces 13) (replicate 12 (CHR '' ''))"
    using holdsI[of "replicate 12 (CHR '' '')" "[]"] by (simp_all add: spaces_def)
  moreover have "length r = 13 \<and> (\<exists>s. holds r s \<and> length s = 12)"
    if "buf_sprintf (spaces 13) (time_string t @ print0 6 usec) = Some r" for t usec r
  proof -
    define s where "s = time_string t @ print0 6 usec"
    have "12 \<le> length s" using print0_length[of 2 "tm_hour t"] print0_length[of 2 "tm_min t"] print0_length[of 2 "tm_sec t"] print0_length[of 6 usec]
      by (simp add: s_def time_string_def)
    moreover have "NUL \<notin> set s" using print0_all_no_NUL by (simp add: s_def time_string_def)
    moreover have "length s < 13" "r = s @ NUL # drop (Suc (length s)) (spaces 13)"
      using that sp(1) by (auto simp: s_def[symmetric] buf_sprintf_def split: if_splits)
    ultimately show ?thesis using sp(1) by (intro conjI exI[of _ s]) auto
  qed
  ultimately show ?thesis using assms by (auto simp: basGetSysTimestamp_def split: option.splits prod.splits)
qed

text \<open>
  \<^verbatim>\<open>basGetFormatTimestamp\<close> overflows the array of \<^verbatim>\<open>basGetSysTimestamp\<close> in every call: the pattern has 14 places, the array 13 bytes (C37).
\<close>

theorem format_timestamp_overflows: "basGetFormatTimestamp c = None"
proof -
  have "basStringPattern b ''##:##:##:#####'' = None" if t: "basGetSysTimestamp c = Some b" for b
  proof -
    obtain s where s: "length b = 13" "holds b s" "length s = 12" using SysTimestamp_holds[OF t] by blast
    define p where "p = ''##:##:##:#####''"
    obtain s' where s': "pattern_loop' b 0 p \<lparr>pat_j = 0, pat_buf = replicate 1024 NUL, iCFlag = False, iZFlag = False, iNFlag = False\<rparr> = Some s'"
        "pat_buf s' = picture p s @ drop (length (picture p s)) (replicate 1024 NUL)"
      using pattern_run[OF s(2), of p 0 "[]" "replicate 1024 NUL"] by (auto simp: p_def)
    have l: "length (picture p s) = 14" using s(3) by (auto simp: p_def length_Suc_conv eval_nat_numeral)
    have "NUL \<notin> set (picture p s)" using picture_no_NUL[of p s] holds_no_NUL[OF s(2)] by (auto simp: p_def)
    moreover have "drop 14 (replicate 1024 NUL) = NUL # replicate 1009 NUL" using drop_zeros[of 14 1023] by simp
    ultimately have "holds (pat_buf s') (picture p s)" using s'(2) l by auto
    then have "buf_strcpy b (pat_buf s') = None" using strlen_holds[of "pat_buf s'" "picture p s"] l s(1) by (simp add: buf_strcpy_def buf_copy_def)
    then show ?thesis using s'(1) by (simp add: basStringPattern_def p_def)
  qed
  then show ?thesis by (auto simp: basGetFormatTimestamp_def bind_eq_None_conv)
qed

end
