(* ===== verification/Bas_Amount.thy ===== *)
theory Bas_Amount
  imports C_Double Bas_Str_Copy_Correct
begin

text \<open>
  Amounts in \<^verbatim>\<open>bas_string.c\<close>: rounding and comparison of \<^verbatim>\<open>double\<close> values, and their decimal form with thousands separators.

  A \<^verbatim>\<open>double\<close> is a rational number, and the operations round as in \<open>C_Double\<close>. \<^verbatim>\<open>pow(10, n)\<close> is exact up to 22 places, where
  the power is a \<^verbatim>\<open>double\<close> value; beyond, its value depends on the mathematical library, and the result is \<open>None\<close>, not modelled.
  \<^verbatim>\<open>%0*.0f\<close> prints the exact value rounded to an integer, ties to even.
\<close>

section \<open>Rounding and comparison\<close>

definition pow10 :: "nat \<Rightarrow> rat option" where
  "pow10 n = (if n \<le> 22 then Some (10 ^ n) else None)"

definition basRound :: "rat \<Rightarrow> nat \<Rightarrow> rat option" where
  "basRound dAmount iPoint = do {
     q \<leftarrow> pow10 iPoint;
     Some (rnd64 (of_int \<lfloor>rnd64 (rnd64 (dAmount * q) + rnd64 (5001 / 10000))\<rfloor> / q)) }"

definition basFloor :: "rat \<Rightarrow> rat" where
  "basFloor dAmount = (if dAmount < 0 then - of_int \<lfloor>- dAmount\<rfloor> else of_int \<lfloor>dAmount\<rfloor>)"

definition basFloor2 :: "rat \<Rightarrow> nat \<Rightarrow> rat option" where
  "basFloor2 dAmount iPoint = do {
     q \<leftarrow> pow10 iPoint;
     Some (if dAmount < 0 then rnd64 (- of_int \<lfloor>rnd64 (rnd64 (- dAmount * q) + rnd64 (1 / 10000))\<rfloor> / q)
      else rnd64 (of_int \<lfloor>rnd64 (rnd64 (dAmount * q) + rnd64 (1 / 10000))\<rfloor> / q)) }"

definition basCeil :: "rat \<Rightarrow> rat" where
  "basCeil dAmount = (if dAmount < 0 then - of_int \<lceil>- dAmount\<rceil> else of_int \<lceil>dAmount\<rceil>)"

definition basCeil2 :: "rat \<Rightarrow> nat \<Rightarrow> rat option" where
  "basCeil2 dAmount iPoint = do {
     q \<leftarrow> pow10 iPoint;
     Some (if dAmount < 0 then rnd64 (- of_int \<lceil>rnd64 (- dAmount * q)\<rceil> / q)
      else rnd64 (of_int \<lceil>rnd64 (dAmount * q)\<rceil> / q)) }"

definition basDoubleCmp :: "rat \<Rightarrow> rat \<Rightarrow> int" where
  "basDoubleCmp dVal1 dVal2 =
     (if \<bar>rnd64 (dVal1 - dVal2)\<bar> < rnd64 (1 / 1000000) then 0 else if dVal2 < dVal1 then 1 else - 1)"

fun scale_loop :: "nat \<Rightarrow> rat \<Rightarrow> rat" where
  "scale_loop 0 ddiff = ddiff"
| "scale_loop (Suc n) ddiff = scale_loop n (rnd64 (ddiff * rnd64 (1 / 10)))"

definition basDoubleCmpByScale :: "rat \<Rightarrow> rat \<Rightarrow> nat \<Rightarrow> int" where
  "basDoubleCmpByScale dVal1 dVal2 iScale =
     (if \<bar>rnd64 (dVal1 - dVal2)\<bar> < scale_loop iScale 1 then 0 else if dVal2 < dVal1 then 1 else - 1)"

section \<open>Printing\<close>

definition print_fixed0 :: "nat \<Rightarrow> rat \<Rightarrow> string" where
  "print_fixed0 w x = (let sign = (if x < 0 then ''-'' else ''''); s = dec_nat (nat (round_even \<bar>x\<bar>))
     in sign @ replicate (w - length sign - length s) (CHR ''0'') @ s)"

definition basDbl2Char :: "rat \<Rightarrow> nat \<Rightarrow> nat \<Rightarrow> buffer \<Rightarrow> buffer option" where
  "basDbl2Char dValue iFix iFloat pcaBuf = do {
     q \<leftarrow> pow10 iFloat;
     buf_sprintf pcaBuf (print_fixed0 (iFix + iFloat) (rnd64 (dValue * q))) }"

text \<open>The pattern, in its array of 30 bytes, and the two functions; \<open>caBuf\<close> is the static array.\<close>

definition amount_pattern :: "string \<Rightarrow> nat \<Rightarrow> string option" where
  "amount_pattern base iPointLen =
     (let s = base @ (if 0 < iPointLen then CHR ''.'' # replicate iPointLen (CHR ''#'') else [])
      in if length s < 30 then Some s else None)"

definition amount_text :: "string \<Rightarrow> buffer \<Rightarrow> rat \<Rightarrow> nat \<Rightarrow> buffer option" where
  "amount_text base caBuf dValue iPointLen = do {
     caPattern \<leftarrow> amount_pattern base iPointLen;
     q \<leftarrow> pow10 iPointLen;
     caBuf \<leftarrow> buf_sprintf caBuf (print_fixed0 (20 + iPointLen) (rnd64 (dValue * q)));
     caBuf \<leftarrow> basStringPattern caBuf caPattern;
     basLTrim caBuf 100 }"

definition basFloatToSection :: "buffer \<Rightarrow> rat \<Rightarrow> nat \<Rightarrow> buffer option" where
  "basFloatToSection caBuf dValue iPointLen = amount_text ''ZZ,ZZZ,ZZZ,ZZZ,ZZZ,ZZZ,ZZ#'' caBuf dValue iPointLen"

definition basFloatToSectionNoDot :: "buffer \<Rightarrow> rat \<Rightarrow> nat \<Rightarrow> buffer option" where
  "basFloatToSectionNoDot caBuf dValue iPointLen = amount_text ''ZZZZZZZZZZZZZZZZZZZ#'' caBuf dValue iPointLen"

section \<open>Reading\<close>

text \<open>
  \<^verbatim>\<open>atof\<close> on a string of digits with at most one point: the exact value, rounded.
\<close>

definition atof_amount :: "string \<Rightarrow> rat" where
  "atof_amount s = (let i = takeWhile is_digit s; f = takeWhile is_digit (drop (Suc (length i)) s)
     in rnd64 (of_int (digits_value 0 i) + of_int (digits_value 0 f) / 10 ^ length f))"

text \<open>
  The loop of \<^verbatim>\<open>basChar2FloatOfAmt\<close> over the text without blanks and commas at its ends, with its array of 2000 bytes; the inner
  \<open>None\<close> is the result -1.
\<close>

fun amount_loop :: "string \<Rightarrow> nat \<Rightarrow> string \<Rightarrow> string option option" where
  "amount_loop [] iCnt caStr = (if length caStr < 2000 then Some (Some caStr) else None)"
| "amount_loop (c # s) iCnt caStr =
     (if c = CHR '' '' \<or> c = CHR '','' then amount_loop s iCnt caStr
      else let iCnt = (if c = CHR ''.'' then Suc iCnt else iCnt) in
        if 1 < iCnt then Some None
        else if c \<noteq> CHR ''.'' \<and> (schar c < 48 \<or> 57 < schar c) then Some None
        else if length caStr < 2000 then amount_loop s iCnt (caStr @ [c]) else None)"

text \<open>
  The result, the amount unless it is not set, and the buffer, in which the text is cut at its end. A text of line ends makes the
  index negative.
\<close>

definition basChar2FloatOfAmt :: "buffer \<Rightarrow> (int \<times> rat option \<times> buffer) option" where
  "basChar2FloatOfAmt pcaBuf = do {
     n \<leftarrow> buf_strlen pcaBuf;
     let temp = dropWhile (\<lambda>c. c = CHR '' '' \<or> c = CHR '','') (take n pcaBuf);
     if temp = [] then Some (0, Some 0, pcaBuf)
     else do {
       let txt = rev (dropWhile (\<lambda>c. c = CHR '' '' \<or> c = CHR '','' \<or> c = CHR 0x0A) (rev temp));
       let pcaBuf = pcaBuf[n - length temp + length txt := NUL];
       if txt = [] then None
       else do {
         r \<leftarrow> amount_loop txt 0 [];
         (case r of None \<Rightarrow> Some (- 1, None, pcaBuf) | Some caStr \<Rightarrow> Some (0, Some (atof_amount caStr), pcaBuf)) } } }"

section \<open>Patterns with numbers\<close>

text \<open>What a pattern makes of digits: \<open>z\<close> tells whether a digit other than zero has been seen.\<close>

fun zpic :: "bool \<Rightarrow> string \<Rightarrow> string \<Rightarrow> string" where
  "zpic z [] s = []"
| "zpic z (p # ps) s =
     (if p = CHR '','' then (if z then CHR '','' else CHR '' '') # zpic z ps s
      else if p = CHR ''Z'' then (case s of [] \<Rightarrow> [] | c # t \<Rightarrow> (if z \<or> c \<noteq> CHR ''0'' then c else CHR '' '') # zpic (z \<or> c \<noteq> CHR ''0'') ps t)
      else if p = CHR ''#'' then (case s of [] \<Rightarrow> [] | c # t \<Rightarrow> c # zpic z ps t)
      else p # zpic z ps s)"

abbreviation is_place :: "char \<Rightarrow> bool" where
  "is_place p \<equiv> p = CHR ''Z'' \<or> p = CHR ''#''"

lemma digit_not_sign: "is_digit c \<Longrightarrow> c \<noteq> CHR ''-'' \<and> c \<noteq> CHR '' '' \<and> c \<noteq> CHR '','' \<and> c \<noteq> NUL"
  by (auto simp: is_digit_def)

lemma number_step:
  assumes "buf_load b (pat_j st) = Some c" "is_digit c" "\<not> iNFlag st" "pat_buf st = xs @ drop (length xs) zs" "length xs < length zs"
  shows "pattern_step b (length xs) (CHR ''Z'') st = Some (st\<lparr>iCFlag := True, iNFlag := False, iZFlag := iZFlag st \<or> c \<noteq> CHR ''0'', pat_j := Suc (pat_j st),
      pat_buf := (xs @ [if iZFlag st \<or> c \<noteq> CHR ''0'' then c else CHR '' '']) @ drop (Suc (length xs)) zs\<rparr>)"
    "pattern_step b (length xs) (CHR '','') st = Some (st\<lparr>pat_buf := (xs @ [if iZFlag st then CHR '','' else CHR '' '']) @ drop (Suc (length xs)) zs\<rparr>)"
    "pattern_step b (length xs) (CHR ''#'') st = Some (st\<lparr>pat_j := Suc (pat_j st), pat_buf := (xs @ [c]) @ drop (Suc (length xs)) zs\<rparr>)"
    "pattern_step b (length xs) (CHR ''.'') st = Some (st\<lparr>pat_buf := (xs @ [CHR ''.'']) @ drop (Suc (length xs)) zs\<rparr>)"
proof -
  note dg = digit_not_sign[OF assms(2)]
  have st: "buf_store (pat_buf st) (length xs) c = Some ((xs @ [c]) @ drop (Suc (length xs)) zs)" for c
    unfolding assms(4) using assms(5) by (intro buf_store_snoc) auto
  show "pattern_step b (length xs) (CHR ''Z'') st = Some (st\<lparr>iCFlag := True, iNFlag := False, iZFlag := iZFlag st \<or> c \<noteq> CHR ''0'', pat_j := Suc (pat_j st),
      pat_buf := (xs @ [if iZFlag st \<or> c \<noteq> CHR ''0'' then c else CHR '' '']) @ drop (Suc (length xs)) zs\<rparr>)"
    using assms(1,3) dg by (cases "iZFlag st") (simp_all add: pattern_step_def digit_place_def put_char_def next_char_def Let_def st)
  show "pattern_step b (length xs) (CHR '','') st = Some (st\<lparr>pat_buf := (xs @ [if iZFlag st then CHR '','' else CHR '' '']) @ drop (Suc (length xs)) zs\<rparr>)"
    "pattern_step b (length xs) (CHR ''#'') st = Some (st\<lparr>pat_j := Suc (pat_j st), pat_buf := (xs @ [c]) @ drop (Suc (length xs)) zs\<rparr>)"
    "pattern_step b (length xs) (CHR ''.'') st = Some (st\<lparr>pat_buf := (xs @ [CHR ''.'']) @ drop (Suc (length xs)) zs\<rparr>)"
    using assms(1,3) dg by (simp_all add: pattern_step_def put_char_def next_char_def st)
qed

lemma number_pattern_run:
  assumes "holds b s" "\<forall>c \<in> set s. is_digit c" "set ps \<subseteq> {CHR ''Z'', CHR '','', CHR ''#'', CHR ''.''}" "ps \<noteq> [] \<longrightarrow> is_place (last ps)"
    "length (filter is_place ps) + pat_j st \<le> length s" "length xs + length ps \<le> length zs"
    "pat_buf st = xs @ drop (length xs) zs" "\<not> iNFlag st"
  shows "\<exists>st'. pattern_loop' b (length xs) ps st = Some st' \<and> pat_buf st' = xs @ zpic (iZFlag st) ps (drop (pat_j st) s)
    @ drop (length xs + length (zpic (iZFlag st) ps (drop (pat_j st) s))) zs"
  using assms(3-)
proof (induction ps arbitrary: xs st)
  case (Cons p ps)
  define j where "j = pat_j st"
  have "is_place (last (p # ps))" "last (p # ps) \<in> set (p # ps)" using Cons.prems(2) last_in_set[of "p # ps"] by blast+
  then have "last (p # ps) \<in> set (filter is_place (p # ps))" by (simp only: set_filter mem_Collect_eq simp_thms)
  then have "0 < length (filter is_place (p # ps))" by (rule length_pos_if_in_set)
  then have j: "j < length s" using Cons.prems(3) unfolding j_def by linarith
  then have l: "buf_load b j = Some (s ! j)" "is_digit (s ! j)" using load_holds[OF assms(1)] assms(2) by auto
  have nz: "s ! j \<noteq> NUL" using digit_not_sign[OF l(2)] by blast
  have d: "drop j s = s ! j # drop (Suc j) s" using j by (simp add: Cons_nth_drop_Suc)
  have pl: "ps \<noteq> [] \<longrightarrow> is_place (last ps)" "set ps \<subseteq> {CHR ''Z'', CHR '','', CHR ''#'', CHR ''.''}" using Cons.prems(1,2) by (simp_all split: if_splits)
  have len: "length (xs @ [x]) + length ps \<le> length zs" for x using Cons.prems(4) by simp
  have go: "\<exists>st'. pattern_loop' b (length xs) (p # ps) st = Some st' \<and> pat_buf st' = xs @ (x # zpic (iZFlag st1) ps (drop (pat_j st1) s))
      @ drop (length xs + length (x # zpic (iZFlag st1) ps (drop (pat_j st1) s))) zs"
    if "pattern_step b (length xs) p st = Some st1" "pat_buf st1 = (xs @ [x]) @ drop (Suc (length xs)) zs" "\<not> iNFlag st1"
      "length (filter is_place ps) + pat_j st1 \<le> length s" for st1 x
    using Cons.IH[of st1 "xs @ [x]", OF pl(2,1) that(4) len] that(1-3) l(1) nz unfolding j_def by simp
  note step = number_step[OF l(1)[unfolded j_def] l(2)[unfolded j_def] Cons.prems(6,5), folded j_def]
  have ll: "length xs < length zs" using Cons.prems(4) by simp
  have cnt: "length (filter is_place (p # ps)) + j \<le> length s" using Cons.prems(3) unfolding j_def .
  consider "p = CHR ''Z''" | "p = CHR '',''" | "p = CHR ''#''" | "p = CHR ''.''" using Cons.prems(1) by auto
  then show ?case
  proof cases
    case 1
    show ?thesis using go[of "st\<lparr>iCFlag := True, iNFlag := False, iZFlag := iZFlag st \<or> s ! j \<noteq> CHR ''0'', pat_j := Suc j,
        pat_buf := (xs @ [if iZFlag st \<or> s ! j \<noteq> CHR ''0'' then s ! j else CHR '' '']) @ drop (Suc (length xs)) zs\<rparr>"] step(1)[OF ll] cnt
      unfolding 1 j_def[symmetric] d by simp
  next
    case 2
    show ?thesis using go[of "st\<lparr>pat_buf := (xs @ [if iZFlag st then CHR '','' else CHR '' '']) @ drop (Suc (length xs)) zs\<rparr>"] step(2)[OF ll] cnt Cons.prems(6)
      unfolding 2 j_def[symmetric] by (cases "iZFlag st") (simp_all add: j_def)
  next
    case 3
    show ?thesis using go[of "st\<lparr>pat_j := Suc j, pat_buf := (xs @ [s ! j]) @ drop (Suc (length xs)) zs\<rparr>"] step(3)[OF ll] cnt Cons.prems(6)
      unfolding 3 j_def[symmetric] d by simp
  next
    case 4
    show ?thesis using go[of "st\<lparr>pat_buf := (xs @ [CHR ''.'']) @ drop (Suc (length xs)) zs\<rparr>"] step(4)[OF ll] cnt Cons.prems(6)
      unfolding 4 j_def[symmetric] by (simp add: j_def)
  qed
qed simp

section \<open>Thousands separators\<close>

text \<open>The decimal form of a number with a comma in front of every third digit from the right\<close>

function sections :: "nat \<Rightarrow> string" where
  "sections n = (if n < 1000 then dec_nat n else sections (n div 1000) @ CHR '','' # print0 3 (int (n mod 1000)))"
  by pat_completeness auto
termination by (relation "measure id") auto

declare sections.simps [simp del]

text \<open>The pattern with \<open>k\<close> groups, and what it makes of all digits\<close>

fun zgroups :: "nat \<Rightarrow> string" where
  "zgroups 0 = ''ZZ''"
| "zgroups (Suc k) = zgroups k @ '',ZZZ''"

fun full :: "nat \<Rightarrow> nat \<Rightarrow> string" where
  "full 0 m = print0 2 (int m)"
| "full (Suc k) m = full k (m div 1000) @ CHR '','' # print0 3 (int (m mod 1000))"

abbreviation suppressed :: "char \<Rightarrow> bool" where
  "suppressed c \<equiv> c = CHR ''0'' \<or> c = CHR '',''"

lemma decimal_unique: "10 * a + x = 10 * b + y \<Longrightarrow> 0 \<le> x \<Longrightarrow> x \<le> 9 \<Longrightarrow> 0 \<le> y \<Longrightarrow> y \<le> 9 \<Longrightarrow> a = b \<and> x = y" for a b x y :: int
  by presburger

lemma int_less_power: "n < 10 ^ w \<Longrightarrow> int n < 10 ^ w"
  using of_nat_less_iff[of n "10 ^ w", where 'a = int] by simp

lemma digits_unique:
  assumes "\<forall>c \<in> set s. is_digit c" "\<forall>c \<in> set t. is_digit c" "length s = length t" "digits_value 0 s = digits_value 0 t"
  shows "s = t"
  using assms
proof (induction s arbitrary: t rule: rev_induct)
  case (snoc c s)
  obtain u d where t: "t = u @ [d]" using snoc.prems(3) by (cases t rule: rev_cases) auto
  have r: "48 \<le> int (of_char c)" "int (of_char c) \<le> 57" "48 \<le> int (of_char d)" "int (of_char d) \<le> 57"
    using snoc.prems(1,2) t by (auto simp: is_digit_def)
  have "10 * digits_value 0 s + (int (of_char c) - 48) = 10 * digits_value 0 u + (int (of_char d) - 48)"
    using digits_value_snoc[of s c] digits_value_snoc[of u d] snoc.prems t by simp
  then have v: "digits_value 0 s = digits_value 0 u \<and> int (of_char c) - 48 = int (of_char d) - 48" using r by (intro decimal_unique) auto
  then have "c = d" by simp
  moreover have "s = u" using snoc.IH[of u] snoc.prems t v by simp
  ultimately show ?case using t by simp
qed simp

lemma digits_value_join:
  assumes "\<forall>c \<in> set s. is_digit c" "\<forall>c \<in> set t. is_digit c"
  shows "digits_value 0 (s @ t) = digits_value 0 s * 10 ^ length t + digits_value 0 t"
  using assms(2)
proof (induction t rule: rev_induct)
  case (snoc c t)
  have "digits_value 0 ((s @ t) @ [c]) = 10 * digits_value 0 (s @ t) + (int (of_char c) - 48)"
    using assms(1) snoc.prems by (intro digits_value_snoc) auto
  then show ?case using snoc by (simp add: digits_value_snoc algebra_simps)
qed simp

lemma print0_split:
  assumes "0 < a" "0 < b" "n < 10 ^ (a + b)"
  shows "print0 (a + b) (int n) = print0 a (int (n div 10 ^ b)) @ print0 b (int (n mod 10 ^ b))"
proof -
  have lt: "int n < 10 ^ (a + b)" "int (n div 10 ^ b) < 10 ^ a" "int (n mod 10 ^ b) < 10 ^ b"
  proof -
    show "int n < 10 ^ (a + b)" using assms(3) by (rule int_less_power)
    have "n div 10 ^ b < 10 ^ a" using assms(3) by (simp add: div_less_iff_less_mult power_add)
    then show "int (n div 10 ^ b) < 10 ^ a" by (rule int_less_power)
    show "int (n mod 10 ^ b) < 10 ^ b" by (rule int_less_power) simp
  qed
  note P = print0_nonneg[OF _ lt(1)] print0_nonneg[OF _ lt(2)] print0_nonneg[OF _ lt(3)]
  have "int (n div 10 ^ b) * 10 ^ b + int (n mod 10 ^ b) = int n"
    using arg_cong[OF div_mult_mod_eq[of n "10 ^ b"], of int] by (simp only: of_nat_add of_nat_mult of_nat_power of_nat_numeral)
  then have v: "digits_value 0 (print0 a (int (n div 10 ^ b)) @ print0 b (int (n mod 10 ^ b))) = int n"
    using P(5,6,8,9) P(7) assms(1,2) digits_value_join[of "print0 a (int (n div 10 ^ b))" "print0 b (int (n mod 10 ^ b))"] by simp
  show ?thesis
  proof (rule digits_unique)
    show "digits_value 0 (print0 (a + b) (int n)) = digits_value 0 (print0 a (int (n div 10 ^ b)) @ print0 b (int (n mod 10 ^ b)))"
      using v P(3) assms(1) by simp
  qed (use P(1,2,4,5,7,8) assms(1,2) in auto)
qed

lemma zpic_append:
  assumes "length (filter is_place ps) = length u"
  shows "\<exists>z'. (z \<longrightarrow> z') \<and> zpic z (ps @ qs) (u @ v) = zpic z ps u @ zpic z' qs v"
  using assms
proof (induction ps arbitrary: z u)
  case (Cons p ps)
  show ?case
  proof (cases "is_place p")
    case True
    then obtain c u' where u: "u = c # u'" "length (filter is_place ps) = length u'" using Cons.prems by (cases u) auto
    show ?thesis using Cons.IH[OF u(2), of "z \<or> c \<noteq> CHR ''0''"] Cons.IH[OF u(2), of z] True by (auto simp: u(1))
  next
    case False
    then show ?thesis using Cons.IH[of u z] Cons.prems by auto
  qed
qed auto

lemma zpic_True_append: "length (filter is_place ps) = length u \<Longrightarrow> zpic True (ps @ qs) (u @ v) = zpic True ps u @ zpic True qs v"
  using zpic_append[of ps u True qs v] by auto

lemma zgroups_places: "length (filter is_place (zgroups k)) = 3 * k + 2"
  by (induction k) auto

lemma zgroups_full:
  assumes "m < 10 ^ (3 * k + 2)"
  shows "zpic True (zgroups k) (print0 (3 * k + 2) (int m)) = full k m"
  using assms
proof (induction k arbitrary: m)
  case 0
  then have "length (print0 2 (int m)) = 2" using print0_nonneg(1)[of "int m" 2] by simp
  then show ?case by (auto simp: length_Suc_conv numeral_2_eq_2)
next
  case (Suc k)
  have sp: "print0 (3 * k + 2 + 3) (int m) = print0 (3 * k + 2) (int (m div 10 ^ 3)) @ print0 3 (int (m mod 10 ^ 3))"
    using Suc.prems by (intro print0_split) (auto simp: add.commute)
  have md: "m div 1000 < 10 ^ (3 * k + 2)" using Suc.prems by (simp add: div_less_iff_less_mult power_add)
  then have "int (m div 1000) < 10 ^ (3 * k + 2)" by (rule int_less_power)
  then have l: "length (print0 (3 * k + 2) (int (m div 1000))) = 3 * k + 2" "length (print0 3 (int (m mod 1000))) = 3"
    using print0_nonneg(1)[of "int (m div 1000)" "3 * k + 2"] print0_nonneg(1)[of "int (m mod 1000)" 3] by auto
  have "zpic True '',ZZZ'' (print0 3 (int (m mod 1000))) = CHR '','' # print0 3 (int (m mod 1000))"
    using l(2) by (auto simp: length_Suc_conv numeral_3_eq_3)
  moreover have "3 * Suc k + 2 = 3 * k + 2 + 3" by simp
  ultimately show ?case using Suc.IH[OF md] sp l(1) zgroups_places[of k] zpic_True_append[of "zgroups k" "print0 (3 * k + 2) (int (m div 1000))"] by simp
qed

lemma dec_nat_hd: "0 < n \<Longrightarrow> hd (dec_nat n) \<noteq> CHR ''0''"
proof (induction n rule: dec_nat.induct)
  case (1 n)
  show ?case
  proof (cases "n < 10")
    case True
    then have "dec_nat n = [char_of (48 + n)]" by (simp add: dec_nat.simps[of n])
    moreover have "of_char (char_of (48 + n) :: char) = 48 + n" using True by simp
    then have "char_of (48 + n) \<noteq> CHR ''0''" using "1.prems" by (auto dest: arg_cong[of _ _ "of_char :: char \<Rightarrow> nat"])
    ultimately show ?thesis by simp
  next
    case False
    then show ?thesis using 1 by (simp add: dec_nat.simps[of n])
  qed
qed

lemma print0_nat: "n < 10 ^ w \<Longrightarrow> 0 < w \<Longrightarrow> print0 w (int n) = replicate (w - length (dec_nat n)) (CHR ''0'') @ dec_nat n"
  by (simp add: print0_def Let_def)

lemma dec_nat_0: "dec_nat 0 = ''0''"
  by (simp add: dec_nat.simps char_of_def bit_iff_odd)

lemma suppressed_print0: "n < 10 ^ w \<Longrightarrow> 0 < w \<Longrightarrow> dropWhile suppressed (print0 w (int n)) = (if n = 0 then [] else dec_nat n)"
proof -
  assume n: "n < 10 ^ w" "0 < w"
  have z: "dropWhile suppressed (replicate k (CHR ''0'') @ s) = dropWhile suppressed s" for k s by (induction k) auto
  show ?thesis
  proof (cases "n = 0")
    case True
    then show ?thesis using print0_nat[OF n] z[of "w - 1" "''0''"] by (simp add: dec_nat_0)
  next
    case False
    obtain c s where cs: "dec_nat n = c # s" by (cases "dec_nat n") auto
    have "is_digit c" using dec_nat_digits[of c n] cs by simp
    then have "\<not> suppressed c" using dec_nat_hd[of n] False cs digit_not_sign[of c] by auto
    then show ?thesis using n False by (simp add: print0_nat z cs)
  qed
qed

lemma dropWhile_append_case: "dropWhile P (xs @ ys) = (if dropWhile P xs = [] then dropWhile P ys else dropWhile P xs @ ys)"
  by (induction xs) auto

lemma sections_not_Nil: "sections n \<noteq> []"
  by (subst sections.simps) simp

lemma suppressed_full: "m < 10 ^ (3 * k + 2) \<Longrightarrow> dropWhile suppressed (full k m) = (if m = 0 then [] else sections m)"
proof (induction k arbitrary: m)
  case 0
  then show ?case using suppressed_print0[of m 2] sections.simps[of m] by simp
next
  case (Suc k)
  have md: "m div 1000 < 10 ^ (3 * k + 2)" using Suc.prems by (simp add: div_less_iff_less_mult power_add)
  show ?case
  proof (cases "m < 1000")
    case True
    then have "m div 1000 = 0" "m mod 1000 = m" by simp_all
    then show ?thesis using Suc.IH[OF md] suppressed_print0[of m 3] sections.simps[of m] True by (simp add: dropWhile_append_case)
  next
    case False
    then have "m div 1000 \<noteq> 0" by simp
    then show ?thesis using Suc.IH[OF md] sections_not_Nil[of "m div 1000"] sections.simps[of m] False by (simp add: dropWhile_append_case)
  qed
qed

text \<open>Without the blanks of the places that are suppressed, a pattern gives the full text without zeros and commas at its start.\<close>

lemma zpic_blanks:
  assumes "set ps \<subseteq> {CHR ''Z'', CHR '',''}" "\<forall>c \<in> set u. is_digit c" "length (filter is_place ps) = length u" "r \<noteq> []" "hd r \<noteq> CHR '' ''"
  shows "dropWhile blank (zpic False ps u @ r) = dropWhile suppressed (zpic True ps u) @ r"
  using assms(1-3)
proof (induction ps arbitrary: u)
  case Nil
  then show ?case using assms(4,5) by (cases r) auto
next
  case (Cons p ps)
  show ?case
  proof (cases "p = CHR ''Z''")
    case True
    then obtain c u' where u: "u = c # u'" "length (filter is_place ps) = length u'" using Cons.prems by (cases u) auto
    have d: "is_digit c" using Cons.prems(2) u by simp
    then show ?thesis using Cons.IH[of u'] Cons.prems u True digit_not_sign[OF d] by (cases "c = CHR ''0''") auto
  next
    case False
    then show ?thesis using Cons.IH[of u] Cons.prems by auto
  qed
qed

text \<open>The last place of the integer part always shows its digit.\<close>

lemma last_digit:
  assumes "dropWhile suppressed (xs @ [d]) = (if m = (0 :: nat) then [] else t)" "is_digit d" "t \<noteq> []" "m = 0 \<longrightarrow> t = ''0''"
  shows "dropWhile suppressed xs @ [d] = t"
proof (cases "m = 0")
  case True
  then have "\<forall>c \<in> set (xs @ [d]). suppressed c" using assms(1) by (simp add: dropWhile_eq_Nil_conv)
  then have "dropWhile suppressed xs = []" "d = CHR ''0''" using digit_not_sign[OF assms(2)] by (auto simp: dropWhile_eq_Nil_conv)
  then show ?thesis using True assms(4) by simp
next
  case False
  then show ?thesis using assms(1,3) by (auto simp: dropWhile_append_case split: if_splits)
qed

lemma sections_0: "sections 0 = ''0''"
  by (simp add: sections.simps dec_nat_0)

lemma zpic_places: "zpic z (CHR ''.'' # replicate (length t) (CHR ''#'')) t = CHR ''.'' # t"
  by (induction t) auto

section \<open>Amounts as text\<close>

text \<open>The decimal places behind the point\<close>

definition fraction :: "nat \<Rightarrow> nat \<Rightarrow> string" where
  "fraction p n = (if p = 0 then [] else CHR ''.'' # print0 p (int (n mod 10 ^ p)))"

definition point_pattern :: "nat \<Rightarrow> string" where
  "point_pattern p = (if 0 < p then CHR ''.'' # replicate p (CHR ''#'') else [])"

lemma print_fixed0_nat: "0 \<le> x \<Longrightarrow> round_even x = int n \<Longrightarrow> print_fixed0 w x = print0 w (int n)"
  by (simp add: print_fixed0_def print0_def Let_def)

lemma amount_digits:
  assumes "n < 10 ^ (20 + p)"
  obtains u d v where "print0 (20 + p) (int n) = u @ d # v" "print0 20 (int (n div 10 ^ p)) = u @ [d]" "length u = 19" "length v = p"
    "\<forall>c \<in> set (u @ d # v). is_digit c" "\<And>z. zpic z (point_pattern p) v = fraction p n"
proof -
  have m: "n div 10 ^ p < 10 ^ 20" using assms by (simp add: div_less_iff_less_mult power_add mult.commute)
  have P: "length (print0 20 (int (n div 10 ^ p))) = 20" using print0_nonneg(1)[OF _ int_less_power[OF m]] by simp
  then obtain u d where ud: "print0 20 (int (n div 10 ^ p)) = u @ [d]" "length u = 19" by (cases "print0 20 (int (n div 10 ^ p))" rule: rev_cases) auto
  have dg: "\<forall>c \<in> set (print0 (20 + p) (int n)). is_digit c" using print0_nonneg(2)[OF _ int_less_power[OF assms]] by simp
  show thesis
  proof (cases "p = 0")
    case True
    then show thesis using that[of u d "[]"] ud dg by (simp add: fraction_def point_pattern_def)
  next
    case False
    have l: "length (print0 p (int (n mod 10 ^ p))) = p" using False print0_nonneg(1)[OF _ int_less_power[of "n mod 10 ^ p" p]] by simp
    have "print0 (20 + p) (int n) = u @ d # print0 p (int (n mod 10 ^ p))" using print0_split[of 20 p n] False assms ud(1) by simp
    then show thesis using that[of u d "print0 p (int (n mod 10 ^ p))"] ud dg l zpic_places[of _ "print0 p (int (n mod 10 ^ p))"] False
      by (simp add: fraction_def point_pattern_def)
  qed
qed

lemma point_pattern_last: "is_place (last (CHR ''#'' # point_pattern p))" "set (point_pattern p) \<subseteq> {CHR ''.'', CHR ''#''}"
  "length (filter is_place (point_pattern p)) = p" "length (point_pattern p) \<le> Suc p"
  by (cases p; auto simp: point_pattern_def)+

lemma zpic_no_NUL: "NUL \<notin> set ps \<Longrightarrow> NUL \<notin> set s \<Longrightarrow> NUL \<notin> set (zpic z ps s)"
proof (induction ps arbitrary: z s)
  case (Cons p ps)
  then show ?case by (cases s) simp_all
qed simp

lemma zpic_length: "length (zpic z ps s) \<le> length ps"
proof (induction ps arbitrary: z s)
  case (Cons p ps)
  then show ?case by (cases s) simp_all
qed simp

lemma amount_text_run:
  assumes "set ps \<subseteq> {CHR ''Z'', CHR '',''}" "length (filter is_place ps) = 19" "length ps + Suc (Suc p) < 30" "length caBuf = 100"
    "0 \<le> rnd64 (dValue * 10 ^ p) \<and> round_even (rnd64 (dValue * 10 ^ p)) = int n" "n < 10 ^ (20 + p)" "t \<noteq> []" "n div 10 ^ p = 0 \<longrightarrow> t = ''0''"
    "dropWhile suppressed (zpic True (ps @ ''Z'') (print0 20 (int (n div 10 ^ p)))) = (if n div 10 ^ p = 0 then [] else t)"
  shows "\<exists>b. amount_text (ps @ ''#'') caBuf dValue p = Some b \<and> holds b (t @ fraction p n)"
proof -
  obtain u d v where s: "print0 (20 + p) (int n) = u @ d # v" "print0 20 (int (n div 10 ^ p)) = u @ [d]" "length u = 19" "length v = p"
    "\<forall>c \<in> set (u @ d # v). is_digit c" "\<And>z. zpic z (point_pattern p) v = fraction p n" using amount_digits[OF assms(6)] by metis
  define pat where "pat = ps @ CHR ''#'' # point_pattern p"
  define out where "out = zpic False ps u @ d # fraction p n"
  have nn: "NUL \<notin> set (u @ d # v)" using s(5) digit_not_sign by blast
  have dz: "is_digit d" "\<forall>c \<in> set u. is_digit c" "d \<noteq> NUL" "d \<noteq> CHR '' ''" using s(5) digit_not_sign[of d] by auto
  have pat: "amount_pattern (ps @ ''#'') p = Some pat" using assms(3) point_pattern_last(4)[of p]
    by (auto simp: amount_pattern_def pat_def point_pattern_def Let_def)
  have pr: "buf_sprintf caBuf (print_fixed0 (20 + p) (rnd64 (dValue * 10 ^ p))) = Some ((u @ d # v) @ NUL # drop (Suc (length (u @ d # v))) caBuf)"
    using s(3,4) assms(3-5) print_fixed0_nat[of "rnd64 (dValue * 10 ^ p)" n] by (simp add: s(1) buf_sprintf_def)
  define b where "b = (u @ d # v) @ NUL # drop (Suc (length (u @ d # v))) caBuf"
  have hb: "holds b (u @ d # v)" "length b = 100" using s(3,4) assms(3,4) holdsI[OF nn] by (simp_all add: b_def del: append.simps append_assoc)
  have z: "zpic False pat (u @ d # v) = out"
    using zpic_append[of ps u False "CHR ''#'' # point_pattern p" "d # v"] assms(2) s(3,6) by (auto simp: pat_def out_def)
  have pl: "set pat \<subseteq> {CHR ''Z'', CHR '','', CHR ''#'', CHR ''.''}" "is_place (last pat)" "length (filter is_place pat) = length (u @ d # v)" "length pat < 30"
    using assms(1-3) point_pattern_last[of p] s(3,4) by (auto simp: pat_def)
  obtain st where st: "pattern_loop' b 0 pat \<lparr>pat_j = 0, pat_buf = replicate 1024 NUL, iCFlag = False, iZFlag = False, iNFlag = False\<rparr> = Some st"
      "pat_buf st = out @ drop (length out) (replicate 1024 NUL)"
    using number_pattern_run[OF hb(1) s(5) pl(1), of "\<lparr>pat_j = 0, pat_buf = replicate 1024 NUL, iCFlag = False, iZFlag = False, iNFlag = False\<rparr>" "[]" "replicate 1024 NUL"]
      pl(2-4) by (auto simp: z)
  have lo: "length out < 30" using zpic_length[of False pat "u @ d # v"] pl(4) z by simp
  have no: "NUL \<notin> set out" using zpic_no_NUL[of pat "u @ d # v" False] pl(1) nn unfolding z by auto
  have "drop (length out) (replicate 1024 NUL) = NUL # replicate (1023 - length out) NUL" using drop_zeros[of "length out" 1023] lo by simp
  then have "holds (pat_buf st) out" using st(2) no by auto
  then have c: "basStringPattern b pat = Some (out @ NUL # drop (Suc (length out)) b)"
    using st(1) strcpy_holds[of "pat_buf st" out b] lo hb(2) by (simp add: basStringPattern_def)
  have "holds (out @ NUL # drop (Suc (length out)) b) out" using no by auto
  then obtain b' where b': "basLTrim (out @ NUL # drop (Suc (length out)) b) 100 = Some b'" "holds b' (dropWhile blank out)"
    using LTrim_holds[of _ out 100] lo by auto
  have "dropWhile blank out = dropWhile suppressed (zpic True ps u) @ d # fraction p n"
    unfolding out_def using assms(1,2) dz s(3) by (intro zpic_blanks) auto
  also have "dropWhile suppressed (zpic True ps u) @ [d] = t"
    using assms(7-9) dz(1) zpic_True_append[of ps u "''Z''" "[d]"] assms(2) s(2,3) by (intro last_digit[where m = "n div 10 ^ p"]) auto
  then have "dropWhile suppressed (zpic True ps u) @ d # fraction p n = t @ fraction p n" by (metis append.assoc append_Cons append_Nil)
  moreover have "p \<le> 22" using assms(2,3) length_filter_le[of is_place ps] by simp
  ultimately show ?thesis using pat pr c b' assms(5) by (simp add: amount_text_def b_def pow10_def)
qed

section \<open>Errors of the arithmetic\<close>

lemma rnd64_le: "\<bar>x\<bar> \<le> c \<Longrightarrow> \<bar>rnd64 x - x\<bar> \<le> c / 9007199254740992"
  using rnd64_error[of x] by simp

lemma round_sum:
  assumes "\<bar>v\<bar> \<le> c" "1 \<le> c"
  shows "\<bar>rnd64 (rnd64 v + rnd64 (5001 / 10000)) - (v + 5001 / 10000)\<bar> \<le> 5 * c / 9007199254740992"
proof -
  have a: "\<bar>rnd64 v - v\<bar> \<le> c / 9007199254740992" by (rule rnd64_le) (rule assms(1))
  have b: "\<bar>rnd64 (5001 / 10000) - 5001 / 10000\<bar> \<le> c / 9007199254740992" using assms(2) by (intro rnd64_le) simp
  have "\<bar>rnd64 v + rnd64 (5001 / 10000)\<bar> \<le> 3 * c" using a b assms unfolding abs_le_iff by (simp add: field_simps)
  then have "\<bar>rnd64 (rnd64 v + rnd64 (5001 / 10000)) - (rnd64 v + rnd64 (5001 / 10000))\<bar> \<le> 3 * c / 9007199254740992" by (rule rnd64_le)
  then show ?thesis using a b unfolding abs_le_iff by (simp add: field_simps)
qed

lemma basRound_near:
  assumes "p \<le> 22" "\<bar>dAmount * 10 ^ p\<bar> \<le> 10 ^ 11"
  shows "\<exists>j. basRound dAmount p = Some (rnd64 (of_int j / 10 ^ p)) \<and> \<bar>of_int j - dAmount * 10 ^ p\<bar> < 5003 / 10000"
proof -
  define v where "v = dAmount * 10 ^ p"
  define w where "w = rnd64 (rnd64 v + rnd64 (5001 / 10000))"
  have "\<bar>w - (v + 5001 / 10000)\<bar> \<le> 5 * 10 ^ 11 / 9007199254740992" using round_sum[of v "10 ^ 11"] assms(2) by (simp add: v_def w_def)
  then have "\<bar>w - (v + 5001 / 10000)\<bar> \<le> 1 / 10000" by simp
  moreover have "of_int \<lfloor>w\<rfloor> \<le> w" "w < of_int \<lfloor>w\<rfloor> + 1" by linarith+
  ultimately have "\<bar>of_int \<lfloor>w\<rfloor> - v\<bar> < 5003 / 10000" unfolding abs_less_iff abs_le_iff by linarith
  then show ?thesis using assms(1) by (auto simp: basRound_def pow10_def v_def w_def)
qed

text \<open>The error of a decimal fraction, in units of its last place\<close>

lemma amount_near:
  assumes "\<bar>k\<bar> \<le> c"
  shows "\<bar>rnd64 (of_int k / 10 ^ p) * 10 ^ p - of_int k\<bar> \<le> of_int c / 9007199254740992"
proof -
  define q where "q = (10 ^ p :: rat)"
  define x where "x = rnd64 (of_int k / q)"
  have q: "0 < q" by (simp add: q_def)
  have k: "\<bar>of_int k :: rat\<bar> \<le> of_int c" using assms by (metis of_int_abs of_int_le_iff)
  have "\<bar>x - of_int k / q\<bar> \<le> \<bar>of_int k / q\<bar> / 9007199254740992" unfolding x_def using rnd64_le[OF order_refl] .
  then have "\<bar>x - of_int k / q\<bar> * q \<le> \<bar>of_int k / q\<bar> / 9007199254740992 * q" using q by (intro mult_right_mono) auto
  moreover have "(x - of_int k / q) * q = x * q - of_int k" using q by (simp add: left_diff_distrib)
  then have "\<bar>x - of_int k / q\<bar> * q = \<bar>x * q - of_int k\<bar>" using q by (metis abs_mult abs_of_pos)
  moreover have "\<bar>of_int k / q\<bar> * q = \<bar>of_int k\<bar>" using q by simp
  ultimately show ?thesis using k by (simp add: x_def q_def)
qed

lemma basRound_stable:
  assumes "p \<le> 22" "\<bar>k\<bar> \<le> 10 ^ 11"
  shows "basRound (rnd64 (of_int k / 10 ^ p)) p = Some (rnd64 (of_int k / 10 ^ p))"
proof -
  define x where "x = rnd64 (of_int k / 10 ^ p)"
  define v where "v = x * 10 ^ p"
  define w where "w = rnd64 (rnd64 v + rnd64 (5001 / 10000))"
  have k: "\<bar>of_int k :: rat\<bar> \<le> 10 ^ 11" using assms(2) by (metis of_int_abs of_int_le_iff of_int_numeral of_int_power)
  have e: "\<bar>v - of_int k\<bar> \<le> 10 ^ 11 / 9007199254740992" using amount_near[OF assms(2), of p] by (simp add: v_def x_def)
  then have "\<bar>v\<bar> \<le> 2 * 10 ^ 11" using k unfolding abs_le_iff by simp
  then have "\<bar>w - (v + 5001 / 10000)\<bar> \<le> 5 * (2 * 10 ^ 11) / 9007199254740992" unfolding w_def by (rule round_sum) simp
  then have "of_int k \<le> w" "w < of_int k + 1" using e unfolding abs_le_iff by simp_all
  then have "\<lfloor>w\<rfloor> = k" by (simp add: floor_eq_iff)
  then show ?thesis using assms(1) by (simp add: basRound_def pow10_def x_def[symmetric] v_def[symmetric] w_def[symmetric])
qed

lemma DoubleCmp_less:
  assumes "\<bar>m\<bar> \<le> 10 ^ 13" "\<bar>n\<bar> \<le> 10 ^ 13" "p \<le> 5" "n < m"
  defines "a \<equiv> rnd64 (of_int m / 10 ^ p)" and "b \<equiv> rnd64 (of_int n / 10 ^ p)"
  shows "basDoubleCmp a b = 1 \<and> basDoubleCmp b a = - 1"
proof -
  have q: "(10 :: rat) ^ p \<le> 10 ^ 5" by (rule power_increasing[OF assms(3)]) simp
  have "of_int n + 1 \<le> (of_int m :: rat)" using assms(4) by (metis of_int_1 of_int_add of_int_le_iff zless_imp_add1_zle)
  moreover have "\<bar>a * 10 ^ p - of_int m\<bar> \<le> 2 / 1000" "\<bar>b * 10 ^ p - of_int n\<bar> \<le> 2 / 1000"
    using amount_near[OF assms(1), of p] amount_near[OF assms(2), of p] by (simp_all add: a_def b_def)
  ultimately have "99 / 100 \<le> a * 10 ^ p - b * 10 ^ p" unfolding abs_le_iff by linarith
  then have d: "99 / 100 \<le> (a - b) * 10 ^ p" by (simp add: left_diff_distrib)
  then have "0 < (a - b) * 10 ^ p" by linarith
  then have pos: "0 < a - b" using zero_less_mult_pos2 by fastforce
  have "(a - b) * 10 ^ p \<le> (a - b) * 10 ^ 5" using pos q by (intro mult_left_mono) auto
  then have g: "99 / 10000000 \<le> a - b" using d by simp
  have one: "rnd64 (1 / 1000000) \<le> 2 / 1000000" using rnd64_le[of "1 / 1000000" "1 / 1000000"] unfolding abs_le_iff by simp
  have "(a - b) / 2 \<le> rnd64 (a - b)" using rnd64_le[of "a - b" "a - b"] pos unfolding abs_le_iff by (simp add: field_simps)
  moreover have "rnd64 (b - a) \<le> - ((a - b) / 2)" using rnd64_le[of "b - a" "a - b"] pos unfolding abs_le_iff by (simp add: field_simps)
  moreover have "rnd64 (1 / 1000000) \<le> (a - b) / 2" using one g by simp
  ultimately have "rnd64 (1 / 1000000) \<le> rnd64 (a - b)" "rnd64 (1 / 1000000) \<le> - rnd64 (b - a)"
    by (metis order_trans, metis neg_le_iff_le minus_minus order_trans)
  then have "rnd64 (1 / 1000000) \<le> \<bar>rnd64 (a - b)\<bar>" "rnd64 (1 / 1000000) \<le> \<bar>rnd64 (b - a)\<bar>"
    using abs_ge_self[of "rnd64 (a - b)"] abs_ge_minus_self[of "rnd64 (b - a)"] order_trans by blast+
  then show ?thesis using pos by (simp add: basDoubleCmp_def)
qed

lemma DoubleCmp_amounts:
  assumes "\<bar>m\<bar> \<le> 10 ^ 13" "\<bar>n\<bar> \<le> 10 ^ 13" "p \<le> 5"
  shows "basDoubleCmp (rnd64 (of_int m / 10 ^ p)) (rnd64 (of_int n / 10 ^ p)) = sgn (m - n)"
proof -
  have "0 < rnd64 (1 / 1000000)" using rnd64_le[of "1 / 1000000" "1 / 1000000"] unfolding abs_le_iff by simp
  then have "basDoubleCmp x x = 0" for x by (simp add: basDoubleCmp_def rnd64_def)
  then show ?thesis using DoubleCmp_less[OF assms] DoubleCmp_less[OF assms(2,1,3)] by (cases m n rule: linorder_cases) (auto simp: sgn_if)
qed

lemma Section_run:
  assumes "length caBuf = 100" "p \<le> 2" "0 \<le> rnd64 (dValue * 10 ^ p) \<and> round_even (rnd64 (dValue * 10 ^ p)) = int n" "n < 10 ^ (20 + p)"
  shows "(\<exists>b. basFloatToSection caBuf dValue p = Some b \<and> holds b (sections (n div 10 ^ p) @ fraction p n))
    \<and> (\<exists>b. basFloatToSectionNoDot caBuf dValue p = Some b \<and> holds b (dec_nat (n div 10 ^ p) @ fraction p n))"
proof -
  have m: "n div 10 ^ p < 10 ^ 20" using assms(4) by (simp add: div_less_iff_less_mult power_add mult.commute)
  have g: "zgroups 6 = (zgroups 5 @ '',ZZ'') @ ''Z''" by (simp add: eval_nat_numeral)
  have "dropWhile suppressed (zpic True ((zgroups 5 @ '',ZZ'') @ ''Z'') (print0 20 (int (n div 10 ^ p)))) = (if n div 10 ^ p = 0 then [] else sections (n div 10 ^ p))"
    using zgroups_full[of "n div 10 ^ p" 6] suppressed_full[of "n div 10 ^ p" 6] m by (simp only: g[symmetric]) simp
  moreover have "''ZZ,ZZZ,ZZZ,ZZZ,ZZZ,ZZZ,ZZ#'' = (zgroups 5 @ '',ZZ'') @ ''#''" by (simp add: eval_nat_numeral)
  moreover have "set (zgroups 5 @ '',ZZ'') \<subseteq> {CHR ''Z'', CHR '',''}" "length (filter is_place (zgroups 5 @ '',ZZ'')) = 19" "length (zgroups 5 @ '',ZZ'') = 25"
    by (simp_all add: eval_nat_numeral)
  ultimately have 1: "\<exists>b. basFloatToSection caBuf dValue p = Some b \<and> holds b (sections (n div 10 ^ p) @ fraction p n)"
    unfolding basFloatToSection_def using assms sections_not_Nil sections_0
    by (simp only: ) (intro amount_text_run, auto)
  have r: "filter is_place (replicate k (CHR ''Z'')) = replicate k (CHR ''Z'')" for k by (induction k) auto
  have zr: "zpic True (replicate (length u) (CHR ''Z'')) u = u" for u by (induction u) auto
  have "length (print0 20 (int (n div 10 ^ p))) = 20" using print0_nonneg(1)[OF _ int_less_power[OF m]] by simp
  then have "zpic True (replicate 20 (CHR ''Z'')) (print0 20 (int (n div 10 ^ p))) = print0 20 (int (n div 10 ^ p))"
    using zr[of "print0 20 (int (n div 10 ^ p))"] by simp
  moreover have "replicate 19 (CHR ''Z'') @ ''Z'' = replicate 20 (CHR ''Z'')" "''ZZZZZZZZZZZZZZZZZZZ#'' = replicate 19 (CHR ''Z'') @ ''#''"
    by (simp_all add: eval_nat_numeral)
  ultimately have "\<exists>b. basFloatToSectionNoDot caBuf dValue p = Some b \<and> holds b (dec_nat (n div 10 ^ p) @ fraction p n)"
    unfolding basFloatToSectionNoDot_def using assms suppressed_print0[of "n div 10 ^ p" 20] m dec_nat_0 r
    by (simp only: ) (intro amount_text_run, auto)
  with 1 show ?thesis by blast
qed

section \<open>Properties\<close>

text \<open>
  \<^verbatim>\<open>basFloatToSection\<close> prints an amount with a comma in front of every third digit of its integer part and with its decimal places, and
  \<^verbatim>\<open>basFloatToSectionNoDot\<close> without commas.
\<close>

theorem amounts_as_text:
  assumes "length caBuf = 100" "p \<le> 2" "0 \<le> rnd64 (dValue * 10 ^ p) \<and> round_even (rnd64 (dValue * 10 ^ p)) = int n" "n < 10 ^ (20 + p)"
  shows "(\<exists>b. basFloatToSection caBuf dValue p = Some b \<and> holds b (sections (n div 10 ^ p) @ fraction p n))
    \<and> (\<exists>b. basFloatToSectionNoDot caBuf dValue p = Some b \<and> holds b (dec_nat (n div 10 ^ p) @ fraction p n))"
  using assms by (rule Section_run)

theorem amounts_as_text_witness:
  "\<exists>b. basFloatToSection (replicate 100 NUL) (2469135 / 2) 2 = Some b \<and> holds b ''1,234,567.50''"
proof -
  have r: "rnd64 (2469135 / 2 * 10 ^ 2) = of_int 123456750" using rnd64_int[of 123456750] by simp
  have s: "sections 1234567 = ''1,234,567''" "fraction 2 123456750 = ''.50''"
    by (simp_all add: sections.simps fraction_def print0_def dec_nat.simps Let_def char_of_def bit_iff_odd) 
  have "\<exists>b. basFloatToSection (replicate 100 NUL) (2469135 / 2) 2 = Some b \<and> holds b (sections (123456750 div 10 ^ 2) @ fraction 2 123456750)"
    using amounts_as_text[of "replicate 100 NUL" 2 "2469135 / 2" 123456750] r round_even_int[of 123456750] by simp
  then show ?thesis using s by simp
qed

text \<open>
  \<^verbatim>\<open>basFloatToSection\<close> overflows its pattern array for three or more decimal places.
\<close>

theorem amount_pattern_overflows: "3 \<le> p \<Longrightarrow> basFloatToSection caBuf dValue p = None"
  by (simp add: basFloatToSection_def amount_text_def amount_pattern_def)

theorem amount_pattern_overflows_witness: "basFloatToSection (replicate 100 NUL) 1 3 = None"
  using amount_pattern_overflows[of 3 "replicate 100 NUL" 1] by simp

text \<open>
  \<^verbatim>\<open>basRound\<close> leaves amounts with that many decimal places as they are, although most of them are no exact \<^verbatim>\<open>double\<close> values, and
  otherwise moves an amount by little more than half a unit of the last place (C30). The number of places is at most 22, up to
  which \<^verbatim>\<open>pow(10, n)\<close> is exact, and the amounts are at most 10^11 units of the last place.
\<close>

theorem round_amounts:
  assumes "p \<le> 22" "\<bar>k\<bar> \<le> 10 ^ 11" "\<bar>dAmount * 10 ^ p\<bar> \<le> 10 ^ 11"
  shows "basRound (rnd64 (of_int k / 10 ^ p)) p = Some (rnd64 (of_int k / 10 ^ p))
    \<and> (\<exists>j. basRound dAmount p = Some (rnd64 (of_int j / 10 ^ p)) \<and> \<bar>of_int j - dAmount * 10 ^ p\<bar> < 5003 / 10000)"
  using basRound_stable[OF assms(1,2)] basRound_near[OF assms(1,3)] by blast

theorem round_amounts_witness:
  "basRound (rnd64 (1 / 100)) 2 = Some (rnd64 (1 / 100))
    \<and> (\<exists>j. basRound (1 / 3) 2 = Some (rnd64 (of_int j / 100)) \<and> \<bar>of_int j - 100 / 3\<bar> < (5003 / 10000 :: rat))"
  using round_amounts[of 2 1 "1 / 3"] by simp

text \<open>\<^verbatim>\<open>basDoubleCmp\<close> compares amounts of up to five decimal places as the integers of their last places (C29).\<close>

theorem compare_amounts:
  assumes "\<bar>m\<bar> \<le> 10 ^ 13" "\<bar>n\<bar> \<le> 10 ^ 13" "p \<le> 5"
  shows "basDoubleCmp (rnd64 (of_int m / 10 ^ p)) (rnd64 (of_int n / 10 ^ p)) = sgn (m - n)"
  using assms by (rule DoubleCmp_amounts)

theorem compare_amounts_witness: "basDoubleCmp (rnd64 (3 / 100)) (rnd64 (1 / 100)) = 1"
  using compare_amounts[of 3 1 2] by simp

section \<open>Reading what was printed\<close>

lemma amount_loop_int:
  assumes "set s \<subseteq> {c. is_digit c} \<union> {CHR '',''}" "length acc + length s \<le> 1990" "k \<le> 1"
  shows "amount_loop (s @ t) k acc = amount_loop t k (acc @ filter (\<lambda>c. c \<noteq> CHR '','') s)"
  using assms
proof (induction s arbitrary: acc)
  case (Cons c s)
  have "c = CHR '','' \<or> is_digit c \<and> \<not> (schar c < 48 \<or> 57 < schar c) \<and> c \<noteq> CHR ''.''"
    using Cons.prems(1) by (auto simp: is_digit_def schar_def Let_def)
  then show ?case using Cons digit_not_sign[of c] by auto
qed simp

lemma dec_nat_1000: "1000 \<le> n \<Longrightarrow> \<exists>ys. dec_nat n = dec_nat (n div 1000) @ ys \<and> length ys = 3"
proof -
  assume n: "1000 \<le> n"
  have "dec_nat n = dec_nat (n div 10) @ [char_of (48 + n mod 10)]" using n by (subst dec_nat.simps) simp
  moreover have "dec_nat (n div 10) = dec_nat (n div 100) @ [char_of (48 + n div 10 mod 10)]" using n by (subst dec_nat.simps) (simp add: div_mult2_eq[symmetric])
  moreover have "dec_nat (n div 100) = dec_nat (n div 1000) @ [char_of (48 + n div 100 mod 10)]" using n by (subst dec_nat.simps) (simp add: div_mult2_eq[symmetric])
  ultimately show ?thesis by simp
qed

lemma filter_sections: "filter (\<lambda>c. c \<noteq> CHR '','') (sections n) = dec_nat n"
proof (induction n rule: sections.induct)
  case (1 n)
  have nc: "filter (\<lambda>c. c \<noteq> CHR '','') s = s" if "\<forall>c \<in> set s. is_digit c" for s
    using that by (induction s) (auto simp: digit_not_sign)
  show ?case
  proof (cases "n < 1000")
    case True
    then show ?thesis using nc[of "dec_nat n"] dec_nat_digits by (simp add: sections.simps[of n])
  next
    case False
    define x where "x = dec_nat (n div 1000) @ print0 3 (int (n mod 1000))"
    have P: "length (print0 3 (int (n mod 1000))) = 3" "\<forall>c \<in> set (print0 3 (int (n mod 1000))). is_digit c" "digits_value 0 (print0 3 (int (n mod 1000))) = int (n mod 1000)"
      using print0_nonneg[of "int (n mod 1000)" 3] by simp_all
    have "filter (\<lambda>c. c \<noteq> CHR '','') (sections n) = x" using 1 False nc[OF P(2)] by (simp add: sections.simps[of n] x_def)
    moreover have "x = dec_nat n"
    proof -
      obtain ys where ys: "dec_nat n = dec_nat (n div 1000) @ ys" "length ys = 3" using dec_nat_1000[of n] False by auto
      have d: "\<forall>c \<in> set ys. is_digit c" "\<forall>c \<in> set (dec_nat (n div 1000)). is_digit c" using dec_nat_digits[of _ n] dec_nat_digits[of _ "n div 1000"] ys(1) by auto
      have "int n = int (n div 1000) * 1000 + digits_value 0 ys"
        using digits_value_join[OF d(2,1)] digits_value_dec_nat[of n] digits_value_dec_nat[of "n div 1000"] ys by simp
      moreover have "int n = int (n div 1000) * 1000 + int (n mod 1000)"
        using arg_cong[OF div_mult_mod_eq[of n 1000], of int] by (simp only: of_nat_add of_nat_mult of_nat_numeral)
      ultimately have "digits_value 0 ys = int (n mod 1000)" by linarith
      then have "ys = print0 3 (int (n mod 1000))" using P d(1) ys(2) by (intro digits_unique) auto
      then show ?thesis using ys(1) by (simp add: x_def)
    qed
    ultimately show ?thesis by simp
  qed
qed

lemma sections_chars: "set (sections n) \<subseteq> {c. is_digit c} \<union> {CHR '',''} \<and> is_digit (hd (sections n)) \<and> is_digit (last (sections n)) \<and> length (sections n) \<le> 2 * length (dec_nat n)"
proof (induction n rule: sections.induct)
  case (1 n)
  show ?case
  proof (cases "n < 1000")
    case True
    then have "sections n = dec_nat n" by (simp add: sections.simps[of n])
    then show ?thesis using dec_nat_digits[of _ n] by auto
  next
    case False
    have P: "length (print0 3 (int (n mod 1000))) = 3" "\<forall>c \<in> set (print0 3 (int (n mod 1000))). is_digit c"
      using print0_nonneg[of "int (n mod 1000)" 3] by simp_all
    then have "print0 3 (int (n mod 1000)) \<noteq> []" by auto
    moreover have "length (dec_nat n) = length (dec_nat (n div 1000)) + 3" using dec_nat_1000[of n] False by auto
    moreover have "sections n = sections (n div 1000) @ CHR '','' # print0 3 (int (n mod 1000))" using False by (simp add: sections.simps[of n])
    ultimately show ?thesis using 1[OF False] P sections_not_Nil[of "n div 1000"] by auto
  qed
qed

lemma digits_or_comma: "is_digit c \<Longrightarrow> \<not> (c = CHR '' '' \<or> c = CHR '','' \<or> c = CHR 0x0A)"
  by (auto simp: is_digit_def)

lemma takeWhile_digits: "\<forall>c \<in> set s. is_digit c \<Longrightarrow> takeWhile is_digit s = s" "\<forall>c \<in> set s. is_digit c \<Longrightarrow> takeWhile is_digit (s @ CHR ''.'' # t) = s"
  by (induction s) (auto simp: is_digit_def)

lemma fraction_last: "is_digit (last (sections m @ fraction p n))"
proof (cases "p = 0")
  case False
  have P: "length (print0 p (int (n mod 10 ^ p))) = p" "\<forall>c \<in> set (print0 p (int (n mod 10 ^ p))). is_digit c"
    using False print0_nonneg(1,2)[OF _ int_less_power[of "n mod 10 ^ p" p]] by simp_all
  then show ?thesis using False last_in_set[of "print0 p (int (n mod 10 ^ p))"] by (cases "print0 p (int (n mod 10 ^ p))") (auto simp: fraction_def)
qed (use sections_chars in \<open>simp add: fraction_def\<close>)

lemma amount_loop_text:
  assumes "n < 10 ^ (20 + p)" "p \<le> 2"
  shows "\<exists>s. amount_loop (sections (n div 10 ^ p) @ fraction p n) 0 [] = Some (Some s) \<and> atof_amount s = rnd64 (of_nat n / 10 ^ p)"
proof -
  define m where "m = n div 10 ^ p"
  have "m < 10 ^ 20" using assms(1) by (simp add: m_def div_less_iff_less_mult power_add mult.commute)
  then have l: "length (dec_nat m) \<le> 20" using length_dec_nat[of m 20] by simp
  then have ls: "length (sections m) \<le> 40" using sections_chars[of m] by simp
  have dm: "\<forall>c \<in> set (dec_nat m). is_digit c" using dec_nat_digits by blast
  have 1: "amount_loop (sections m @ t) 0 [] = amount_loop t 0 (dec_nat m)" for t
    using amount_loop_int[of "sections m" "[]" 0 t] sections_chars[of m] ls filter_sections[of m] by simp
  show ?thesis
  proof (cases "p = 0")
    case True
    then have "m = n" by (simp add: m_def)
    then show ?thesis using 1[of "[]"] l True dm digits_value_dec_nat[of m]
      by (simp add: m_def fraction_def atof_amount_def Let_def takeWhile_digits(1))
  next
    case False
    define f where "f = print0 p (int (n mod 10 ^ p))"
    have f: "length f = p" "\<forall>c \<in> set f. is_digit c" "digits_value 0 f = int (n mod 10 ^ p)"
      using False print0_nonneg[OF _ int_less_power[of "n mod 10 ^ p" p]] by (simp_all add: f_def)
    have "filter (\<lambda>c. c \<noteq> CHR '','') f = f" using f(2) digit_not_sign by (induction f) auto
    moreover have "set f \<subseteq> {c. is_digit c} \<union> {CHR '',''}" using f(2) by auto
    ultimately have "amount_loop (CHR ''.'' # f) 0 (dec_nat m) = Some (Some (dec_nat m @ CHR ''.'' # f))"
      using amount_loop_int[of f "dec_nat m @ ''.''" 1 "[]"] l f(1) assms(2) by simp
    then have a: "amount_loop (sections m @ fraction p n) 0 [] = Some (Some (dec_nat m @ CHR ''.'' # f))"
      using 1 False by (simp add: fraction_def f_def)
    have "int n = int m * 10 ^ p + int (n mod 10 ^ p)"
      using arg_cong[OF div_mult_mod_eq[of n "10 ^ p"], of int] by (simp only: m_def of_nat_add of_nat_mult of_nat_power of_nat_numeral)
    then have "(of_nat n :: rat) = of_int (int m * 10 ^ p + int (n mod 10 ^ p))" by (metis of_int_of_nat_eq)
    then have "(of_nat n :: rat) = of_nat m * 10 ^ p + of_nat (n mod 10 ^ p)" by simp
    then have "(of_nat n :: rat) / 10 ^ p = of_nat m + of_nat (n mod 10 ^ p) / 10 ^ p" by (simp add: add_divide_distrib)
    then have "atof_amount (dec_nat m @ CHR ''.'' # f) = rnd64 (of_nat n / 10 ^ p)"
      using takeWhile_digits(2)[OF dm, of f] f digits_value_dec_nat[of m] by (simp add: atof_amount_def Let_def takeWhile_digits(1))
    then show ?thesis using a by (simp add: m_def)
  qed
qed

lemma Char2Float_run:
  assumes "holds b (sections (n div 10 ^ p) @ fraction p n)" "n < 10 ^ (20 + p)" "p \<le> 2"
  shows "\<exists>b'. basChar2FloatOfAmt b = Some (0, Some (rnd64 (of_nat n / 10 ^ p)), b')"
proof -
  define x where "x = sections (n div 10 ^ p) @ fraction p n"
  have ne: "x \<noteq> []" using sections_not_Nil by (simp add: x_def)
  have "is_digit (hd x)" "is_digit (last x)" using sections_chars[of "n div 10 ^ p"] sections_not_Nil[of "n div 10 ^ p"] fraction_last[of "n div 10 ^ p" p n] by (simp_all add: x_def)
  then have h: "dropWhile (\<lambda>c. c = CHR '' '' \<or> c = CHR '','') x = x" "dropWhile (\<lambda>c. c = CHR '' '' \<or> c = CHR '','' \<or> c = CHR 0x0A) (rev x) = rev x"
    using ne digits_or_comma[of "hd x"] digits_or_comma[of "last x"] unfolding dropWhile_eq_self_iff hd_rev by blast+
  obtain s where "amount_loop x 0 [] = Some (Some s)" "atof_amount s = rnd64 (of_nat n / 10 ^ p)" using amount_loop_text[OF assms(2,3)] by (auto simp: x_def)
  then show ?thesis using strlen_holds[OF assms(1)] holds_take(1)[OF assms(1)] ne h by (simp add: basChar2FloatOfAmt_def x_def[symmetric] del: dropWhile_eq_Nil_conv)
qed

lemma amount_printed:
  assumes "n \<le> 10 ^ 13" "y = rnd64 (rnd64 (of_nat n / 10 ^ p) * 10 ^ p)"
  shows "0 \<le> y \<and> round_even y = int n"
proof -
  define v where "v = rnd64 (of_nat n / 10 ^ p) * 10 ^ p"
  have n: "\<bar>int n\<bar> \<le> 10 ^ 13" "(of_nat n :: rat) \<le> 10 ^ 13" using assms(1) of_nat_le_iff[of n "10 ^ 13", where 'a = int] of_nat_le_iff[of n "10 ^ 13", where 'a = rat] by simp_all
  have v: "\<bar>v - of_nat n\<bar> \<le> 2 / 1000" using amount_near[OF n(1), of p] by (simp add: v_def)
  then have "\<bar>v\<bar> \<le> 2 * 10 ^ 13" using n(2) unfolding abs_le_iff by simp
  then have "\<bar>y - v\<bar> \<le> 2 * 10 ^ 13 / 9007199254740992" unfolding assms(2) v_def[symmetric] by (rule rnd64_le)
  then have e: "\<bar>y - of_nat n\<bar> \<le> 1 / 100" using v unfolding abs_le_iff by simp
  then have "\<bar>of_int (round_even y) - of_int (int n)\<bar> < (1 :: rat)" using round_even_error[of y] by linarith
  then have "round_even y = int n" by linarith
  moreover have "0 \<le> y"
  proof (cases "n = 0")
    case True
    then show ?thesis by (simp add: assms(2) rnd64_def)
  next
    case False
    then have "1 \<le> (of_nat n :: rat)" by simp
    then show ?thesis using e unfolding abs_le_iff by linarith
  qed
  ultimately show ?thesis by blast
qed

text \<open>A text that starts with a minus sign is refused.\<close>

lemma minus_refused:
  assumes h: "holds b (CHR ''-'' # s)"
  shows "\<exists>b'. basChar2FloatOfAmt b = Some (- 1, None, b')"
proof -
  define q where "q = (\<lambda>c :: char. c = CHR '' '' \<or> c = CHR '','' \<or> c = CHR 0x0A)"
  have "CHR ''-'' \<in> set (rev (CHR ''-'' # s))" "\<not> q (CHR ''-'')" by (simp_all add: q_def)
  then have "rev (dropWhile q (rev (CHR ''-'' # s))) = CHR ''-'' # rev (dropWhile q (rev s))" by (simp add: dropWhile_append)
  then show ?thesis using strlen_holds[OF h] holds_take(1)[OF h] by (simp add: basChar2FloatOfAmt_def q_def Let_def schar_def)
qed

text \<open>
  A non-negative amount of up to two decimal places that \<^verbatim>\<open>basFloatToSection\<close> has printed is read back by
  \<^verbatim>\<open>basChar2FloatOfAmt\<close> as the same \<^verbatim>\<open>double\<close> value (C28). A text that starts with a minus sign, as that of a negative
  amount does, is refused with -1.
\<close>

theorem amount_roundtrip:
  assumes "n \<le> 10 ^ 13" "p \<le> 2" "length caBuf = 100"
  shows "(\<exists>b b'. basFloatToSection caBuf (rnd64 (of_nat n / 10 ^ p)) p = Some b \<and> basChar2FloatOfAmt b = Some (0, Some (rnd64 (of_nat n / 10 ^ p)), b'))
    \<and> (\<forall>b s. holds b (CHR ''-'' # s) \<longrightarrow> (\<exists>b'. basChar2FloatOfAmt b = Some (- 1, None, b')))"
proof -
  have "(10 :: nat) ^ 13 < 10 ^ (20 + p)" by (rule power_strict_increasing) simp_all
  then have n: "n < 10 ^ (20 + p)" using assms(1) by linarith
  obtain b where "basFloatToSection caBuf (rnd64 (of_nat n / 10 ^ p)) p = Some b" "holds b (sections (n div 10 ^ p) @ fraction p n)"
    using Section_run[OF assms(3,2) amount_printed[OF assms(1) refl, of p] n] by blast
  then show ?thesis using Char2Float_run[OF _ n assms(2)] minus_refused by blast
qed

theorem amount_roundtrip_witness:
  "(\<exists>b b'. basFloatToSection (replicate 100 NUL) (rnd64 (123456 / 100)) 2 = Some b \<and> basChar2FloatOfAmt b = Some (0, Some (rnd64 (123456 / 100)), b'))
    \<and> (\<exists>b'. basChar2FloatOfAmt (''-1,234.56'' @ [NUL]) = Some (- 1, None, b'))"
proof -
  have "holds (''-1,234.56'' @ [NUL]) (CHR ''-'' # ''1,234.56'')" by (simp add: holds_def)
  then show ?thesis using amount_roundtrip[of 123456 2 "replicate 100 NUL"] by auto
qed

text \<open>A negative amount as it is printed: the minus sign comes first.\<close>

theorem negative_amount_refused:
  "\<exists>b b'. basFloatToSection (replicate 100 NUL) (- 5 / 2) 1 = Some b \<and> holds b ''-2.5'' \<and> basChar2FloatOfAmt b = Some (- 1, None, b')"
proof -
  define r where "r = ''-2.5'' @ NUL # replicate 19 (CHR '' '') @ ''-2.5'' @ replicate 72 NUL"
  define t where "t = ''-00000000000000000025'' @ NUL # replicate 78 NUL"
  have "rnd64 (- 5 / 2 * 10) = - 25" using rnd64_int[of "- 25"] by simp
  moreover have "round_even 25 = 25" "dec_nat 25 = ''25''" using round_even_int[of 25] by (simp, code_simp)
  then have "print_fixed0 21 (- 25) = ''-00000000000000000025''" by (simp add: print_fixed0_def Let_def eval_nat_numeral)
  ultimately have "buf_sprintf (replicate 100 NUL) (print_fixed0 21 (rnd64 (- 5 / 2 * 10))) = Some t"
    by (simp add: buf_sprintf_def t_def)
  moreover have "basStringPattern t ''ZZ,ZZZ,ZZZ,ZZZ,ZZZ,ZZZ,ZZ#.#'' \<bind> (\<lambda>b. basLTrim b 100) = Some r"
    unfolding t_def r_def by code_simp
  moreover have "holds r ''-2.5''" by (simp add: holds_def r_def)
  ultimately show ?thesis using minus_refused[of r "''2.5''"]
    by - (rule exI[of _ r], simp add: basFloatToSection_def amount_text_def amount_pattern_def pow10_def bind_eq_Some_conv)
qed

end
