(* ===== verification/Bas_Expand_Macro.thy ===== *)
theory Bas_Expand_Macro
  imports C_Buffer
begin

text \<open>
  Expansion of environment variables in texts, and full names of files, \<^verbatim>\<open>Excellent_Code/Lib_bas/bas_expand_macro.c\<close>.

  The environment is an argument, a map from names to values. The arrays of 4096, 128 and 2048 bytes are the strings written so far;
  writing behind their end is \<open>None\<close>. The result of \<^verbatim>\<open>basExpandMacro\<close> is the contents of its array up to the terminator.
\<close>

type_synonym environment = "string \<Rightarrow> string option"

section \<open>The functions\<close>

definition name_char :: "char \<Rightarrow> bool" where
  "name_char c \<longleftrightarrow> 65 \<le> (of_char c :: nat) \<and> of_char c \<le> (90 :: nat) \<or> 97 \<le> (of_char c :: nat) \<and> of_char c \<le> (122 :: nat) \<or> c = CHR ''_''"

text \<open>\<^verbatim>\<open>*p++ = c\<close> and \<^verbatim>\<open>strcpy(p, v); p += strlen(p)\<close> in an array of \<open>n\<close> bytes\<close>

definition put1 :: "nat \<Rightarrow> string \<Rightarrow> char \<Rightarrow> string option" where
  "put1 n out c = (if length out < n then Some (out @ [c]) else None)"

definition put_str :: "nat \<Rightarrow> string \<Rightarrow> string \<Rightarrow> string option" where
  "put_str n out v = (if length out + length v < n then Some (out @ v) else None)"

text \<open>
  The loop of \<^verbatim>\<open>basExpandMacro\<close>: the name read so far, or \<open>None\<close> in the normal state; whether the byte before was a backslash.
  The loop ends with the text, also in a name.
\<close>

fun expand_loop :: "environment \<Rightarrow> string \<Rightarrow> string option \<Rightarrow> bool \<Rightarrow> string \<Rightarrow> string option" where
  "expand_loop env [] macro esc out = Some out"
| "expand_loop env (c # s) None esc out =
     (if c = CHR ''$'' \<and> \<not> esc
      then expand_loop env (if s \<noteq> [] \<and> (hd s = CHR ''{'' \<or> hd s = CHR ''('') then tl s else s) (Some []) esc out
      else do { out \<leftarrow> put1 4096 out c; expand_loop env s None (c = CHR 0x5C) out })"
| "expand_loop env (c # s) (Some q) esc out =
     (if \<not> name_char c then do {
        out \<leftarrow> (if length q < 128 then (case env q of None \<Rightarrow> Some out | Some v \<Rightarrow> put_str 4096 out v) else None);
        out \<leftarrow> (if c = CHR ''}'' \<or> c = CHR '')'' then Some out else put1 4096 out c);
        expand_loop env s None (c = CHR 0x5C) out }
      else do { q \<leftarrow> put1 128 q c; expand_loop env s (Some q) (c = CHR 0x5C) out })"

definition basExpandMacro :: "environment \<Rightarrow> string \<Rightarrow> string option" where
  "basExpandMacro env pcStr = do {
     out \<leftarrow> expand_loop env pcStr None False [];
     if length out < 4096 then Some out else None }"

definition copy_filename :: "string \<Rightarrow> string option" where
  "copy_filename v = put_str 2048 [] v"

definition home :: "environment \<Rightarrow> string option" where
  "home env = (case env ''APPHOME'' of None \<Rightarrow> env ''HOME'' | Some v \<Rightarrow> Some v)"

definition basGetFileFullName :: "environment \<Rightarrow> string \<Rightarrow> string option \<Rightarrow> string option" where
  "basGetFileFullName env pcFileName pcDefaultDir = do {
     caFileName \<leftarrow> basExpandMacro env pcFileName;
     caFileName \<leftarrow> copy_filename caFileName;
     if caFileName \<noteq> [] \<and> hd caFileName = CHR ''/'' then copy_filename caFileName
     else do {
       mcaFullName \<leftarrow>
         (case pcDefaultDir of
            None \<Rightarrow> do { h \<leftarrow> home env; copy_filename h }
          | Some dir \<Rightarrow>
              if dir \<noteq> [] \<and> hd dir = CHR ''/'' then do { d \<leftarrow> basExpandMacro env dir; copy_filename d }
              else do {
                h \<leftarrow> home env; m \<leftarrow> copy_filename h;
                m \<leftarrow> put_str 2048 m ''/'';
                d \<leftarrow> basExpandMacro env dir;
                put_str 2048 m d });
       if mcaFullName = [] then None
       else do {
         mcaFullName \<leftarrow> (if last mcaFullName \<noteq> CHR ''/'' then put_str 2048 mcaFullName ''/'' else Some mcaFullName);
         f \<leftarrow> basExpandMacro env pcFileName;
         put_str 2048 mcaFullName f } } }"

section \<open>Texts with variables\<close>







lemma name_char_not [simp]: "\<not> name_char (CHR ''{'')" "\<not> name_char (CHR ''('')" "\<not> name_char (CHR ''}'')" "\<not> name_char (CHR '')'')" "\<not> name_char (CHR 0x5C)"
  by (simp_all add: name_char_def)





section \<open>Properties\<close>



text \<open>
  \<^verbatim>\<open>basGetFileFullName\<close>: an absolute name stays as it is, and a relative one is put behind the home directory, with one slash between them,
  or behind an absolute default directory.
\<close>

theorem file_full_name:
  assumes "basExpandMacro env pcFileName = Some f" "home env = Some h" "h \<noteq> []" "last h \<noteq> CHR ''/''" "length h + length f < 2047"
    "basExpandMacro env (CHR ''/'' # dir) = Some (CHR ''/'' # d)" "last (CHR ''/'' # d) \<noteq> CHR ''/''" "length d + length f < 2046"
  shows "basGetFileFullName env pcFileName None = Some (if f \<noteq> [] \<and> hd f = CHR ''/'' then f else h @ ''/'' @ f)
    \<and> basGetFileFullName env pcFileName (Some (CHR ''/'' # dir)) = Some (if f \<noteq> [] \<and> hd f = CHR ''/'' then f else CHR ''/'' # d @ ''/'' @ f)"
proof -
  have d: "d \<noteq> []" "last d \<noteq> CHR ''/''" using assms(7) by (auto split: if_splits)
  show ?thesis using assms d by (simp add: basGetFileFullName_def copy_filename_def put_str_def)
qed

theorem file_full_name_witness:
  "basGetFileFullName [''HOME'' \<mapsto> ''/home/x''] ''a.cfg'' None = Some ''/home/x/a.cfg''
   \<and> basGetFileFullName [''HOME'' \<mapsto> ''/home/x''] ''a.cfg'' (Some ''/etc'') = Some ''/etc/a.cfg''"
  using file_full_name[of "[''HOME'' \<mapsto> ''/home/x'']" "''a.cfg''" "''a.cfg''" "''/home/x''" "''etc''" "''etc''"]
  by (simp add: basExpandMacro_def put1_def home_def)

end
