(* ===== verification/Bin_DelCodeAnnotation.thy ===== *)
theory Bin_DelCodeAnnotation
  imports C_Prelude
begin

text \<open>
  The filter \<^verbatim>\<open>Frame_Multitool/Bin_Text/Bin_DelCodeAnnotation.c\<close>, which copies C source text without its comments. It is a state
  machine over the bytes of the input; the byte before the current one is kept in \<^verbatim>\<open>last\<close>. The result of \<^verbatim>\<open>getchar\<close> is stored
  in a \<^verbatim>\<open>char\<close>, so that the byte 0xFF ends the input as well.
\<close>

section \<open>The machine\<close>

datatype mode = m_literal | m_single | m_multiple | m_string

record filter_state =
  f_mode :: mode
  f_last :: char
  f_out :: string

definition filter_init :: filter_state where
  "filter_init = \<lparr>f_mode = m_literal, f_last = NUL, f_out = []\<rparr>"

definition putchars :: "string \<Rightarrow> filter_state \<Rightarrow> filter_state" where
  "putchars cs s = s\<lparr>f_out := f_out s @ cs\<rparr>"

definition single_step :: "char \<Rightarrow> filter_state \<Rightarrow> filter_state" where
  "single_step c s =
     (if f_last s \<noteq> CHR 0x5C \<and> (c = CHR 0x0A \<or> c = CHR 0x0D) then (putchars [c] s)\<lparr>f_mode := m_literal, f_last := NUL\<rparr>
      else s\<lparr>f_last := c\<rparr>)"

definition multiple_step :: "char \<Rightarrow> filter_state \<Rightarrow> filter_state" where
  "multiple_step c s =
     (if f_last s = CHR ''*'' \<and> c = CHR ''/'' then s\<lparr>f_mode := m_literal, f_last := NUL\<rparr> else s\<lparr>f_last := c\<rparr>)"

definition string_step :: "char \<Rightarrow> filter_state \<Rightarrow> filter_state" where
  "string_step c s =
     (if f_last s = CHR 0x5C then (putchars [CHR 0x5C, c] s)\<lparr>f_last := c\<rparr>
      else if c \<noteq> CHR 0x5C then (putchars [c] s)\<lparr>f_mode := if c = CHR 0x22 then m_literal else m_string, f_last := c\<rparr>
      else s\<lparr>f_last := c\<rparr>)"

definition literal_step :: "char \<Rightarrow> filter_state \<Rightarrow> filter_state" where
  "literal_step c s =
     (if f_last s = CHR ''/'' then
        (if c = CHR ''/'' then s\<lparr>f_mode := m_single, f_last := c\<rparr>
         else if c = CHR ''*'' then s\<lparr>f_mode := m_multiple, f_last := c\<rparr>
         else (putchars [CHR ''/'', c] s)\<lparr>f_last := c\<rparr>)
      else if c \<noteq> CHR ''/'' then (putchars [c] s)\<lparr>f_mode := if c = CHR 0x22 then m_string else m_literal, f_last := c\<rparr>
      else s\<lparr>f_last := c\<rparr>)"

definition filter_step :: "char \<Rightarrow> filter_state \<Rightarrow> filter_state" where
  "filter_step c s =
     (case f_mode s of m_single \<Rightarrow> single_step c s | m_multiple \<Rightarrow> multiple_step c s
      | m_string \<Rightarrow> string_step c s | m_literal \<Rightarrow> literal_step c s)"

definition del_annotation :: "string \<Rightarrow> string" where
  "del_annotation input = f_out (fold filter_step (takeWhile (\<lambda>c. c \<noteq> CHR 0xFF) input) filter_init)"

section \<open>Source text\<close>

text \<open>
  A part of a source text: code, a division sign with the byte behind it, a string of plain and escaped bytes, and the two kinds of comments.
  A line comment ends with its line end, which is kept.
\<close>

datatype token = Code string | Slash char | Str "(char \<times> bool) list" | Line string char | Block string

fun str_body :: "(char \<times> bool) list \<Rightarrow> string" where
  "str_body [] = []"
| "str_body ((c, esc) # cs) = (if esc then [CHR 0x5C, c] else [c]) @ str_body cs"

fun token_text :: "token \<Rightarrow> string" where
  "token_text (Code s) = s"
| "token_text (Slash c) = [CHR ''/'', c]"
| "token_text (Str cs) = CHR 0x22 # str_body cs @ [CHR 0x22]"
| "token_text (Line s e) = ''//'' @ s @ [e]"
| "token_text (Block s) = ''/*'' @ s @ ''*/''"

fun token_kept :: "token \<Rightarrow> string" where
  "token_kept (Line s e) = [e]"
| "token_kept (Block s) = []"
| "token_kept t = token_text t"

definition newline :: "char \<Rightarrow> bool" where
  "newline c \<longleftrightarrow> c = CHR 0x0A \<or> c = CHR 0x0D"

text \<open>Whether a comment ends in a text that follows the byte \<open>l\<close>\<close>

fun no_end :: "char \<Rightarrow> string \<Rightarrow> bool" where
  "no_end l [] = True"
| "no_end l (c # s) = (\<not> (l = CHR ''*'' \<and> c = CHR ''/'') \<and> no_end c s)"

text \<open>A line end in a line comment follows a backslash.\<close>

fun no_line_end :: "char \<Rightarrow> string \<Rightarrow> bool" where
  "no_line_end l [] = True"
| "no_line_end l (c # s) = ((newline c \<longrightarrow> l = CHR 0x5C) \<and> no_line_end c s)"

fun token_ok :: "token \<Rightarrow> bool" where
  "token_ok (Code s) = (CHR ''/'' \<notin> set s \<and> CHR 0x22 \<notin> set s)"
| "token_ok (Slash c) = (c \<notin> {CHR ''/'', CHR ''*'', CHR 0x22})"
| "token_ok (Str cs) = (\<forall>(c, esc) \<in> set cs. c \<noteq> CHR 0x5C \<and> (c = CHR 0x22 \<longrightarrow> esc))"
| "token_ok (Line s e) = (newline e \<and> last (CHR ''/'' # s) \<noteq> CHR 0x5C \<and> no_line_end (CHR ''/'') s)"
| "token_ok (Block s) = no_end (CHR ''*'') s"

section \<open>The machine on the parts\<close>

lemmas step_simps = filter_step_def single_step_def multiple_step_def string_step_def literal_step_def putchars_def

text \<open>Between parts the machine is in its first mode and has no division sign pending.\<close>

definition between :: "filter_state \<Rightarrow> bool" where
  "between s \<longleftrightarrow> f_mode s = m_literal \<and> f_last s \<noteq> CHR ''/''"

lemma run_code:
  assumes "CHR ''/'' \<notin> set t" "CHR 0x22 \<notin> set t" "between s"
  shows "between (fold filter_step t s) \<and> f_out (fold filter_step t s) = f_out s @ t"
  using assms by (induction t arbitrary: s) (auto simp: between_def step_simps)

lemma run_string:
  assumes "\<forall>(c, esc) \<in> set cs. c \<noteq> CHR 0x5C \<and> (c = CHR 0x22 \<longrightarrow> esc)" "f_mode s = m_string" "f_last s \<noteq> CHR 0x5C"
  shows "f_mode (fold filter_step (str_body cs) s) = m_string \<and> f_last (fold filter_step (str_body cs) s) \<noteq> CHR 0x5C
    \<and> f_out (fold filter_step (str_body cs) s) = f_out s @ str_body cs"
  using assms by (induction cs arbitrary: s rule: str_body.induct) (auto simp: step_simps)

lemma run_line:
  assumes "no_line_end l t" "f_mode s = m_single" "f_last s = l"
  shows "f_mode (fold filter_step t s) = m_single \<and> f_last (fold filter_step t s) = last (l # t) \<and> f_out (fold filter_step t s) = f_out s"
  using assms
proof (induction t arbitrary: s l)
  case (Cons c t)
  then have "filter_step c s = s\<lparr>f_last := c\<rparr>" by (auto simp: step_simps newline_def)
  then show ?case using Cons.IH[of c "s\<lparr>f_last := c\<rparr>"] Cons.prems by simp
qed simp

lemma run_block:
  assumes "no_end l t" "f_mode s = m_multiple" "f_last s = l"
  shows "f_mode (fold filter_step t s) = m_multiple \<and> f_last (fold filter_step t s) = last (l # t) \<and> f_out (fold filter_step t s) = f_out s"
  using assms
proof (induction t arbitrary: s l)
  case (Cons c t)
  then have "filter_step c s = s\<lparr>f_last := c\<rparr>" by (auto simp: step_simps)
  then show ?case using Cons.IH[of c "s\<lparr>f_last := c\<rparr>"] Cons.prems by simp
qed simp

lemma part_starts:
  assumes "between s"
  shows "filter_step (CHR 0x22) s = s\<lparr>f_mode := m_string, f_last := CHR 0x22, f_out := f_out s @ [CHR 0x22]\<rparr>"
    "filter_step (CHR ''/'') s = s\<lparr>f_last := CHR ''/''\<rparr>"
    "filter_step (CHR ''/'') (s\<lparr>f_last := CHR ''/''\<rparr>) = s\<lparr>f_mode := m_single, f_last := CHR ''/''\<rparr>"
    "filter_step (CHR ''*'') (s\<lparr>f_last := CHR ''/''\<rparr>) = s\<lparr>f_mode := m_multiple, f_last := CHR ''*''\<rparr>"
    "c \<noteq> CHR ''/'' \<Longrightarrow> c \<noteq> CHR ''*'' \<Longrightarrow> filter_step c (s\<lparr>f_last := CHR ''/''\<rparr>) = s\<lparr>f_last := c, f_out := f_out s @ [CHR ''/'', c]\<rparr>"
  using assms by (simp_all add: between_def step_simps)

lemma part_ends:
  "f_mode s = m_string \<Longrightarrow> f_last s \<noteq> CHR 0x5C \<Longrightarrow> filter_step (CHR 0x22) s = s\<lparr>f_mode := m_literal, f_last := CHR 0x22, f_out := f_out s @ [CHR 0x22]\<rparr>"
  "f_mode s = m_single \<Longrightarrow> f_last s \<noteq> CHR 0x5C \<Longrightarrow> newline e \<Longrightarrow> filter_step e s = s\<lparr>f_mode := m_literal, f_last := NUL, f_out := f_out s @ [e]\<rparr>"
  "f_mode s = m_multiple \<Longrightarrow> filter_step (CHR ''/'') (filter_step (CHR ''*'') s) = s\<lparr>f_mode := m_literal, f_last := NUL\<rparr>"
  by (simp_all add: step_simps newline_def)

lemma run_token:
  assumes "token_ok t" "between s"
  shows "between (fold filter_step (token_text t) s) \<and> f_out (fold filter_step (token_text t) s) = f_out s @ token_kept t"
proof (cases t)
  case (Code c)
  then show ?thesis using run_code[of c s] assms by simp
next
  case (Slash c)
  then show ?thesis using assms by (simp add: part_starts) (simp add: between_def)
next
  case (Str cs)
  then show ?thesis using run_string[of cs "s\<lparr>f_mode := m_string, f_last := CHR 0x22, f_out := f_out s @ [CHR 0x22]\<rparr>"] assms
    by (simp add: part_starts part_ends between_def)
next
  case (Line c e)
  then show ?thesis using run_line[of "CHR ''/''" c "s\<lparr>f_mode := m_single, f_last := CHR ''/''\<rparr>"] assms
    by (simp add: part_starts part_ends between_def)
next
  case (Block c)
  then show ?thesis using run_block[of "CHR ''*''" c "s\<lparr>f_mode := m_multiple, f_last := CHR ''*''\<rparr>"] assms
    by (simp add: part_starts part_ends between_def)
qed

lemma run_tokens:
  assumes "list_all token_ok ts" "between s"
  shows "f_out (fold filter_step (concat (map token_text ts)) s) = f_out s @ concat (map token_kept ts)"
  using assms
proof (induction ts arbitrary: s)
  case (Cons t ts)
  then show ?case using run_token[of t s] by simp
qed simp

section \<open>Properties\<close>

text \<open>
  On a source text of the parts of \<open>token\<close> the filter keeps code and strings as they are, and of the comments only the line ends of the
  line comments (C35). The parts are those of C source text with these restrictions: no escaped backslash in a string, no string
  directly behind a division sign, no quotation mark outside of strings (so no character literal of it), no comment that starts with
  \<^verbatim>\<open>/*/\<close>, no byte 0xFF, and no part that the text ends in the middle of. Without the restrictions it is not so, see \<open>comments_misread\<close>.
\<close>

theorem comments_deleted:
  assumes "list_all token_ok ts" "CHR 0xFF \<notin> set (concat (map token_text ts))"
  shows "del_annotation (concat (map token_text ts)) = concat (map token_kept ts)"
proof -
  have tw: "takeWhile (\<lambda>c. c \<noteq> CHR 0xFF) (concat (map token_text ts)) = concat (map token_text ts)"
    unfolding takeWhile_eq_all_conv using assms(2) by blast
  have "between filter_init" "f_out filter_init = []" by (simp_all add: between_def filter_init_def)
  then show ?thesis using run_tokens[OF assms(1), of filter_init] unfolding del_annotation_def tw by simp
qed

theorem comments_deleted_witness:
  "del_annotation (''a=b/2;'' @ ''/* // */'' @ [CHR 0x22] @ ''/*'' @ [CHR 0x22] @ ''//c'' @ [CHR 0x0A]) = ''a=b/2;'' @ [CHR 0x22] @ ''/*'' @ [CHR 0x22, CHR 0x0A]"
  using comments_deleted[of "[Code ''a=b'', Slash (CHR ''2''), Code '';'', Block '' // '', Str [(CHR ''/'', False), (CHR ''*'', False)], Line ''c'' (CHR 0x0A)]"]
  by (simp add: newline_def)


end
