(* ===== verification/Spec2Isabelle.thy ===== *)
theory Spec2Isabelle
  imports Dict_Properties Comext_Properties Lib_String_Properties Bas_Hex_Util Lib_HEX
    Thread_Pool_Properties Dowork_Pool Bas_Enc_String Bas_Date_Properties
    Bas_Hash_Table_Properties Bas_Encrypt_File Dict_Serialize Bas_Idno_Correct Bas_Getopt
    Bas_Format_Timestamp Bas_Amount Bas_Expand_Macro Bin_DelCodeAnnotation
begin

text \<open>
  FrameCode is a collection of C libraries and programs for transaction servers. This development models the libraries that carry its own
  logic, as executable definitions that follow the code function by function, and proves what they guarantee. Where the code does not
  do what it means to, the definition does what the code does, and a theorem or a finding of the manifest says so.

  \<^bold>\<open>The parts of the program.\<close>
  The dictionary library (\<^verbatim>\<open>Frame_Lib/src/Lib_Dict/Dict_New_CanUse\<close>) stores values under names: the programming interface
  \<^verbatim>\<open>utils/beai3/Beai3Dict.c\<close> calls the hash table \<^verbatim>\<open>src/im_hashtable.c\<close> and the vector \<^verbatim>\<open>src/im_vector.c\<close>, whose buckets
  (\<^verbatim>\<open>src/im_types.h\<close>) hold numbers, strings, blocks and nested tables and vectors; the table sizes come from \<^verbatim>\<open>src/prime_number.h\<close>.
  The socket library has a second table over the same primes, which collects the fragments of messages
  (\<^verbatim>\<open>Frame_Socket/C/Socket_Bafe/comext-hashtable.c\<close>). The thread pool (\<^verbatim>\<open>Frame_ThreadPool/C/Frame_ThreadPool/src\<close>) passes tasks
  from producer threads to worker threads through a linked queue. The base library (\<^verbatim>\<open>Frame_Lib/src/Excellent_Code/Lib_bas\<close>) has strings,
  amounts, dates, a hash table, the encryption of strings, the encoding of logs, an option parser and shared-memory tables; the
  string and number libraries \<^verbatim>\<open>Lib_String\<close> and \<^verbatim>\<open>Lib_HEX\<close> stand on their own, and so does the tool \<^verbatim>\<open>Frame_Multitool/Bin_Text/Bin_DelCodeAnnotation.c\<close>.

  \<^bold>\<open>Conventions.\<close>
  The platform is LP64. \<open>C_Prelude\<close> has the arithmetic of \<^verbatim>\<open>unsigned int\<close> and \<^verbatim>\<open>int\<close> with wrap-around, \<open>C_Buffer\<close> byte
  buffers with \<^verbatim>\<open>string.h\<close>, \<open>C_Print\<close> printed decimal numbers, \<open>C_Float\<close> and \<open>C_Double\<close> the floating-point types as rational numbers that every operation
  rounds, \<open>C_Time\<close> the calendar and \<^verbatim>\<open>time.h\<close>. Undefined behaviour (a read or write outside an object, a use of freed or
  uninitialised memory) and the end of fuel are the value \<open>None\<close>; error codes of the source are values. A theorem that a function works
  therefore states \<open>= Some \<dots>\<close>: it returns, and does nothing undefined on the way. What a program cannot determine is an argument: the addresses
  \<^verbatim>\<open>malloc\<close> returns and whether it fails, the contents of uninitialised memory (\<open>junk\<close>), the environment, the clock and the time zone.

  \<^bold>\<open>Dictionary library.\<close>
  \<open>Prime_Table\<close>: the table of all primes below a million, and the binary search for the number of buckets. \<open>Probing\<close> and \<open>Slot_Table\<close>: what
  the two tables over these primes share, with the locales \<open>probe_hash\<close> (the probe sequence of a double hash visits every slot of a prime number
  of slots) and \<open>slot_table\<close> (an array of empty, live and dead slots as a finite map). \<open>Im_Types\<close>: buckets, tables, vectors and memory.
  \<open>Im_Hashtable\<close>, \<open>Im_Hashtable_Correct\<close>: search, insertion, deletion, rehash; the table refines a finite map.
  \<open>Im_Destroy\<close>, \<open>Im_Owned\<close>: freeing frees exactly the footprint of a table; tables own what they point to. \<open>Im_Vector\<close>: the vector refines a list.
  \<open>Im_Serialize\<close>, \<open>Im_Serialize_Correct\<close>, \<open>Im_Duplicate\<close>, \<open>Dict_Serialize\<close>: a table with all that is nested in it becomes one block with the same
  contents; duplication copies one bucket too few. \<open>Beai3Dict\<close>, \<open>Beai3Dict_Correct\<close>, \<open>Dict_Properties\<close>: the interface, and that any sequence of its
  commands acts as on a finite map and leaks nothing, by the locale \<open>dict_machine\<close> of \<open>Store_Interface\<close>, which the socket library's table
  interprets as well. \<open>Comext_Hashtable\<close>, \<open>Comext_Messages\<close>, \<open>Comext_Properties\<close>: that table, the part of \<^verbatim>\<open>comext-bancs.c\<close> that stores messages in it and
  drops old ones, and that together they keep the texts of all fragments and free every block once, except where a number comes twice.
  Bounds: a table grows up to the largest prime, 999983, and rehashes before it is half full, so 499,991 entries fit; a vector
  has fewer than \<open>2 ^ 30\<close> buckets, a string less than 2 GB, a serialised object less than \<open>2 ^ 31\<close> bytes. Fuel is the depth of the nesting, and for a
  rehash one level, since the table it fills does not grow again; the theorems hold for every fuel that is at least the depth.

  \<^bold>\<open>Thread pool.\<close>
  \<open>Thread_Pool\<close>: a step relation over the program counters of any number of producers and workers, with the mutex, the condition variable
  (with spurious wake-ups), and the nodes of the queue. \<open>Thread_Pool_Correct\<close>, \<open>Thread_Pool_Queue\<close>, \<open>Thread_Pool_Inv\<close>: invariants of every reachable state, and the
  refinement of a queue. \<open>Thread_Pool_Properties\<close>: tasks are executed once and in their order, no step uses freed memory, a task that waits
  is taken, and the pool can be destroyed; the signal handler can run again after that and then uses the freed pool. The tasks belong to the
  application and are opaque: what a worker does with one it has taken is not part of the pool. \<open>Dowork_Pool\<close>: the earlier pool, \<^verbatim>\<open>Frame_CodeTest/dowork\<close>.

  \<^bold>\<open>Base library.\<close>
  \<open>Bas_Hash_Table\<close> and its two companions: \<^verbatim>\<open>bas_hash_table.c\<close>; its comparison takes entries with equal hashes for equal, so the table is a map only
  for keys with different hashes, and as long as it is not expanded, since the expansion compares with an uninitialised value; the settings come
  from a header that is not in the repository and are arguments.
  \<open>Bas_String\<close>, \<open>Bas_Str_Copy\<close>, \<open>Bas_Idno\<close>, \<open>Bas_Amount\<close> with their companions: \<^verbatim>\<open>bas_string.c\<close>, from trimming and comparison to bounded copies, patterns, escapes,
  check digits and amounts. \<open>Bas_Date\<close> with its companions and \<open>Bas_Format_Timestamp\<close>: \<^verbatim>\<open>bas_date.c\<close>, for every time zone with
  offsets of whole minutes that differ by at most two hours, where \<^verbatim>\<open>mktime\<close> is off by at most an hour (\<open>zone_ok\<close>). \<open>Des_Cipher\<close>, \<open>Des_Correct\<close>, \<open>Base64\<close>, \<open>Base64_Correct\<close>, \<open>Bas_Enc_String\<close>: \<^verbatim>\<open>bas_encString.c\<close>; decryption inverts encryption, and
  \<^verbatim>\<open>base64_encode\<close> is base 64, while \<^verbatim>\<open>base64_decode\<close> writes past an array in every call (the size of this array is an argument of \<open>decode_with\<close>). Powers of ten
  in \<open>Bas_Amount\<close> are modelled up to 22 places, where they are exact.
  \<open>Bas_Encrypt\<close>, \<open>Bas_Encrypt_File\<close>: \<^verbatim>\<open>bas_encrypt.c\<close>; a log file is decoded to the records that were written, with other text between them.
  \<open>Bas_Getopt\<close>: \<^verbatim>\<open>bas_getopt.c\<close>. \<open>Bas_Hex_Util\<close>: \<^verbatim>\<open>bas_hex_util.c\<close>. \<open>Bas_Expand_Macro\<close>: \<^verbatim>\<open>bas_expand_macro.c\<close>.

  \<^bold>\<open>Other libraries.\<close>
  \<open>Lib_String\<close>, \<open>Lib_String_Correct\<close>, \<open>Lib_String_Properties\<close>: \<^verbatim>\<open>lib_string.c\<close>. \<open>Lib_HEX\<close>: \<^verbatim>\<open>lib_HEX.c\<close>. \<open>Bin_DelCodeAnnotation\<close>: the filter that deletes comments, as a
  machine over bytes.

  \<^bold>\<open>Not modelled.\<close>
  Input and output, processes, sockets and shared memory (profiles, logs, files, pipes, epoll servers, daemons, the rest of the message exchange of the socket library): system calls with
  little logic between them. The functions of \<^verbatim>\<open>bas_string.c\<close> that only call \<^verbatim>\<open>sprintf\<close>, \<^verbatim>\<open>atof\<close> or a library for regular expressions, and the reading of the
  configuration of \<^verbatim>\<open>preiconv\<close>. Code of others (\<^verbatim>\<open>zmalloc\<close> of Redis, \<^verbatim>\<open>list.h\<close> of Linux, \<^verbatim>\<open>WorkQueue.h\<close> of Ceph), C++ sources, and the other copies of the dictionary library,
  which have the same text. The attached objects of \<^verbatim>\<open>im_duplicate_hashtable\<close> are undefined in the code (an offset is read as a pointer) and in the model.
\<close>

end
